(* ===== verification/Zgc_Prelude.thy ===== *)
theory Zgc_Prelude
  imports Main "HOL-Library.Word" "HOL-Library.Log_Nat"
begin

text \<open>
  Shared vocabulary of the development: the machine types of the C++ sources, the
  narrowing conversions written out on \<open>nat\<close>, the lemma collections that carry the
  component proofs, and generic facts on words, lists and division by powers of two.

  Two representations of machine integers are used. Code that manipulates bits
  (\<open>size_t\<close> bit tricks, bit fields, coloured pointers, bitmaps) works on \<open>64 word\<close>,
  \<open>32 word\<close> and \<open>8 word\<close>. Code that computes block indices and offsets works on \<open>nat\<close>
  with every narrowing conversion and every subtraction that can wrap written out by
  the functions \<open>w8\<close>, \<open>w32\<close>, \<open>w64\<close>, \<open>sub32\<close> and \<open>sub64\<close> below.
\<close>

unbundle bit_operations_syntax

type_synonym u8 = "8 word"
type_synonym u32 = "32 word"
type_synonym u64 = "64 word"

named_theorems machine \<open>conversions between machine widths that lose nothing\<close>
named_theorems geometry \<open>facts on block geometry\<close>

subsection \<open>Narrowing conversions on natural numbers\<close>

definition w8 :: "nat \<Rightarrow> nat" where
  "w8 n = n mod 256"

definition w32 :: "nat \<Rightarrow> nat" where
  "w32 n = n mod 4294967296"

definition w64 :: "nat \<Rightarrow> nat" where
  "w64 n = n mod 18446744073709551616"

definition sub32 :: "nat \<Rightarrow> nat \<Rightarrow> nat" where
  "sub32 a b = (if b \<le> a then a - b else a + 4294967296 - b)"

definition sub64 :: "nat \<Rightarrow> nat \<Rightarrow> nat" where
  "sub64 a b = (if b \<le> a then a - b else a + 18446744073709551616 - b)"

lemma w8_id [machine]: "n < 256 \<Longrightarrow> w8 n = n"
  by (simp add: w8_def)

lemma w32_id [machine]: "n < 4294967296 \<Longrightarrow> w32 n = n"
  by (simp add: w32_def)

lemma w64_id [machine]: "n < 18446744073709551616 \<Longrightarrow> w64 n = n"
  by (simp add: w64_def)

lemma sub32_id [machine]: "b \<le> a \<Longrightarrow> sub32 a b = a - b"
  by (simp add: sub32_def)

lemma sub64_id [machine]: "b \<le> a \<Longrightarrow> sub64 a b = a - b"
  by (simp add: sub64_def)

lemma w32_lt: "w32 n < 4294967296"
  by (simp add: w32_def)

lemma w8_lt: "w8 n < 256"
  by (simp add: w8_def)

subsection \<open>Division by powers of two\<close>

lemma pow2_split: "l \<le> n \<Longrightarrow> (2::nat) ^ n = 2 ^ l * 2 ^ (n - l)"
  by (simp flip: power_add)

lemma div_mult_pow2_le: "(x::nat) div 2 ^ k * 2 ^ k \<le> x"
  by (rule div_times_less_eq_dividend)

lemma less_div_mult_pow2: "(x::nat) < x div 2 ^ k * 2 ^ k + 2 ^ k"
proof -
  have "x = x div 2 ^ k * 2 ^ k + x mod 2 ^ k" by (rule div_mult_mod_eq [symmetric])
  moreover have "x mod 2 ^ k < 2 ^ k" by simp
  ultimately show ?thesis by linarith
qed

lemma aligned_div_mult: "(2::nat) ^ k dvd x \<Longrightarrow> x div 2 ^ k * 2 ^ k = x"
  by simp

lemma dvd_less_pow2_gap:
  assumes "(2::nat) ^ k dvd x" "2 ^ k dvd y" "x < y"
  shows "x + 2 ^ k \<le> y"
proof -
  obtain a b where ab: "x = 2 ^ k * a" "y = 2 ^ k * b" using assms by (auto elim!: dvdE)
  with assms(3) have "Suc a \<le> b" by (simp add: Suc_le_eq)
  then have "2 ^ k * Suc a \<le> 2 ^ k * b" by (rule mult_le_mono2)
  with ab show ?thesis by simp
qed

lemma pow2_dvd_mono: "a \<le> b \<Longrightarrow> (2::nat) ^ b dvd x \<Longrightarrow> 2 ^ a dvd x"
  by (meson dvd_trans le_imp_power_dvd)

subsection \<open>Words\<close>

lemma unat_lt64: "unat (x :: u64) < 18446744073709551616"
  using unsigned_less [of x] by simp

lemma unat_pow2: "n < LENGTH('a) \<Longrightarrow> unat (2 ^ n :: 'a::len word) = 2 ^ n"
  by transfer (simp add: take_bit_eq_mod nat_power_eq nat_mod_distrib)

lemma unat_lt_exp: "unat (x :: 'a::len word) < 2 ^ LENGTH('a)"
  by (rule unsigned_less)

lemma unat_of_nat_small: "n < 2 ^ LENGTH('a) \<Longrightarrow> unat (word_of_nat n :: 'a::len word) = n"
  by (simp add: unsigned_of_nat take_bit_nat_eq_self)

lemma word_mask_eq: "2 ^ n - 1 = (mask n :: 'a::len word)"
  by (simp add: mask_eq_exp_minus_1)

lemma unat_mask: "n < LENGTH('a) \<Longrightarrow> unat (mask n :: 'a::len word) = 2 ^ n - 1"
  by (subst word_mask_eq [symmetric], subst unat_sub) (simp_all add: word_le_nat_alt unat_pow2)

lemma unat_add_no_wrap:
  "unat x + unat y < 18446744073709551616 \<Longrightarrow> unat (x + y) = unat x + unat (y :: u64)"
  by (simp add: unat_word_ariths)

lemma unat_take_bit_mod: "unat (take_bit k (x :: 'a::len word)) = unat x mod 2 ^ k"
  by (simp add: unsigned_take_bit_eq flip: take_bit_eq_mod)

subsection \<open>Lists\<close>

lemma sum_list_update_less:
  fixes f g :: "'a \<Rightarrow> nat"
  assumes "i < length xs" "g y < f (xs ! i)" "\<And>x. x \<in> set xs \<Longrightarrow> g x \<le> f x"
  shows "sum_list (map g (xs[i := y])) < sum_list (map f xs)"
  using assms
proof (induction xs arbitrary: i)
  case (Cons x xs)
  have "sum_list (map g xs) \<le> sum_list (map f xs)" using Cons.prems(3) by (intro sum_list_mono) simp
  with Cons show ?case by (cases i) (auto intro: add_less_le_mono add_le_less_mono)
qed simp

subsection \<open>Address ranges\<close>

text \<open>The bytes of a block, given by its address and its size.\<close>

definition span :: "nat \<times> nat \<Rightarrow> nat set" where
  "span b = {fst b ..< fst b + snd b}"

end
