(* ===== verification/Z_Bit_Field.thy ===== *)
theory Z_Bit_Field
  imports Zgc_Prelude
begin

text \<open>
  \<open>zBitField.hpp\<close> and the two entry layouts built from it: \<open>zMarkStackEntry.hpp\<close> and
  \<open>zForwardingEntry.hpp\<close>. A bit field is given by its template parameters (shift and
  width of the field, shift of the value); the container is \<open>uint64_t\<close> in every use.
  The \<open>ValueType\<close> conversion of \<open>decode\<close> is the identity for \<open>size_t\<close> and
  \<open>uintptr_t\<close> and the test against zero for \<open>bool\<close>.
\<close>

subsection \<open>ZBitField\<close>

record bit_field =
  FieldShift :: nat
  FieldBits :: nat
  ValueShift :: nat

definition FieldMask :: "bit_field \<Rightarrow> u64" where
  "FieldMask f = push_bit (FieldBits f) 1 - 1"

definition bf_decode :: "bit_field \<Rightarrow> u64 \<Rightarrow> u64" where
  "bf_decode f container =
     push_bit (ValueShift f) (drop_bit (FieldShift f) container AND FieldMask f)"

definition bf_encode :: "bit_field \<Rightarrow> u64 \<Rightarrow> u64" where
  "bf_encode f value = push_bit (FieldShift f) (drop_bit (ValueShift f) value)"

text \<open>The assertion of \<open>encode\<close> and the static assertions of the template.\<close>

definition bf_value_ok :: "bit_field \<Rightarrow> u64 \<Rightarrow> bool" where
  "bf_value_ok f value \<longleftrightarrow> value AND push_bit (ValueShift f) (FieldMask f) = value"

definition bf_layout_ok :: "bit_field \<Rightarrow> bool" where
  "bf_layout_ok f \<longleftrightarrow> FieldBits f < 64 \<and> FieldShift f + FieldBits f \<le> 64
     \<and> ValueShift f + FieldBits f \<le> 64"

definition bf_disjoint :: "bit_field \<Rightarrow> bit_field \<Rightarrow> bool" where
  "bf_disjoint f g \<longleftrightarrow> FieldShift f + FieldBits f \<le> FieldShift g
     \<or> FieldShift g + FieldBits g \<le> FieldShift f"

lemma bit_FieldMask: "bit (FieldMask f) n \<longleftrightarrow> n < FieldBits f \<and> n < 64"
  by (auto simp: FieldMask_def word_mask_eq bit_mask_iff)

lemma bit_bf_decode:
  "bit (bf_decode f c) n \<longleftrightarrow> n < 64 \<and> ValueShift f \<le> n \<and> n - ValueShift f < FieldBits f
     \<and> bit c (n - ValueShift f + FieldShift f)"
  by (auto simp: bf_decode_def bit_push_bit_iff bit_and_iff bit_drop_bit_eq bit_FieldMask
      add.commute dest: bit_imp_le_length)

lemma bit_bf_encode:
  "bit (bf_encode f v) n \<longleftrightarrow> n < 64 \<and> FieldShift f \<le> n \<and> bit v (n - FieldShift f + ValueShift f)"
  by (auto simp: bf_encode_def bit_push_bit_iff bit_drop_bit_eq add.commute)

lemma bf_value_ok_bit:
  assumes "bf_value_ok f v" "bit v n"
  shows "ValueShift f \<le> n \<and> n - ValueShift f < FieldBits f"
proof -
  have "bit (v AND push_bit (ValueShift f) (FieldMask f)) n"
    using assms by (simp add: bf_value_ok_def)
  then show ?thesis by (simp add: bit_and_iff bit_push_bit_iff bit_FieldMask)
qed

lemma bf_decode_or: "bf_decode f (a OR b) = bf_decode f a OR bf_decode f b"
  by (rule bit_word_eqI) (auto simp: bit_bf_decode bit_or_iff)

lemma bf_decode_encode:
  assumes "bf_layout_ok f" "bf_value_ok f v"
  shows "bf_decode f (bf_encode f v) = v"
proof (rule bit_word_eqI)
  fix n assume "n < LENGTH(64)"
  then show "bit (bf_decode f (bf_encode f v)) n = bit v n"
    using assms bf_value_ok_bit [OF assms(2), of n]
    by (auto simp: bit_bf_decode bit_bf_encode bf_layout_ok_def)
qed

lemma bf_decode_encode_other:
  assumes "bf_disjoint f g" "bf_value_ok g v"
  shows "bf_decode f (bf_encode g v) = 0"
proof (rule bit_word_eqI)
  fix n assume "n < LENGTH(64)"
  have False if h: "bit (bf_decode f (bf_encode g v)) n"
  proof -
    from h have 1: "ValueShift f \<le> n" "n - ValueShift f < FieldBits f"
      and 2: "FieldShift g \<le> n - ValueShift f + FieldShift f"
      and 3: "bit v (n - ValueShift f + FieldShift f - FieldShift g + ValueShift g)"
      by (auto simp: bit_bf_decode bit_bf_encode)
    from bf_value_ok_bit [OF assms(2) 3]
    have "n - ValueShift f + FieldShift f - FieldShift g < FieldBits g" by simp
    with 1 2 assms(1) show False by (auto simp: bf_disjoint_def)
  qed
  then show "bit (bf_decode f (bf_encode g v)) n = bit (0 :: u64) n" by auto
qed

lemma bf_value_ok_of_bool: "ValueShift f = 0 \<Longrightarrow> FieldBits f = 1 \<Longrightarrow> bf_value_ok f (of_bool b)"
  by (cases b) (simp_all add: bf_value_ok_def FieldMask_def)

lemma bf_value_ok_0 [simp]: "bf_value_ok f 0"
  by (simp add: bf_value_ok_def)

lemma bf_value_ok_1: "ValueShift f = 0 \<Longrightarrow> FieldBits f = 1 \<Longrightarrow> bf_value_ok f 1"
  by (simp add: bf_value_ok_def FieldMask_def)

lemma bf_value_ok_small:
  assumes "ValueShift f = 0" "FieldBits f < 64" "unat v < 2 ^ FieldBits f"
  shows "bf_value_ok f v"
proof -
  have "v AND mask (FieldBits f) = v"
  proof -
    have "take_bit (FieldBits f) v = v"
      using assms(2,3) by (simp add: word_unat_eq_iff unat_take_bit_mod)
    then show ?thesis by (simp add: take_bit_eq_mask)
  qed
  with assms(1) show ?thesis by (simp add: bf_value_ok_def FieldMask_def word_mask_eq)
qed

lemmas bf_roundtrip = bf_decode_or bf_decode_encode bf_decode_encode_other

definition bf_flag :: "bit_field \<Rightarrow> u64 \<Rightarrow> bool" where
  "bf_flag f container \<longleftrightarrow> bf_decode f container \<noteq> 0"

lemma bf_flag_or: "bf_flag f (a OR b) \<longleftrightarrow> bf_flag f a \<or> bf_flag f b"
  by (simp add: bf_flag_def bf_decode_or or_eq_0_iff)

lemma bf_flag_encode: "bf_layout_ok f \<Longrightarrow> bf_value_ok f v \<Longrightarrow> bf_flag f (bf_encode f v) \<longleftrightarrow> v \<noteq> 0"
  by (simp add: bf_flag_def bf_decode_encode)

lemma bf_flag_encode_other: "bf_disjoint f g \<Longrightarrow> bf_value_ok g v \<Longrightarrow> \<not> bf_flag f (bf_encode g v)"
  by (simp add: bf_flag_def bf_decode_encode_other)

lemmas bf_rules = bf_decode_or bf_decode_encode bf_decode_encode_other
  bf_flag_or bf_flag_encode bf_flag_encode_other bf_value_ok_of_bool
  bf_value_ok_1

subsection \<open>ZMarkStackEntry\<close>

definition field_finalizable :: bit_field where
  "field_finalizable = \<lparr>FieldShift = 0, FieldBits = 1, ValueShift = 0\<rparr>"

definition field_partial_array :: bit_field where
  "field_partial_array = \<lparr>FieldShift = 1, FieldBits = 1, ValueShift = 0\<rparr>"

definition field_follow :: bit_field where
  "field_follow = \<lparr>FieldShift = 2, FieldBits = 1, ValueShift = 0\<rparr>"

definition field_inc_live :: bit_field where
  "field_inc_live = \<lparr>FieldShift = 3, FieldBits = 1, ValueShift = 0\<rparr>"

definition field_mark :: bit_field where
  "field_mark = \<lparr>FieldShift = 4, FieldBits = 1, ValueShift = 0\<rparr>"

definition field_object_address :: bit_field where
  "field_object_address = \<lparr>FieldShift = 5, FieldBits = 59, ValueShift = 0\<rparr>"

definition field_partial_array_length :: bit_field where
  "field_partial_array_length = \<lparr>FieldShift = 2, FieldBits = 30, ValueShift = 0\<rparr>"

definition field_partial_array_offset :: bit_field where
  "field_partial_array_offset = \<lparr>FieldShift = 32, FieldBits = 32, ValueShift = 0\<rparr>"

lemmas mark_field_defs = field_finalizable_def field_partial_array_def field_follow_def
  field_inc_live_def field_mark_def field_object_address_def field_partial_array_length_def
  field_partial_array_offset_def

definition ZMarkStackEntry_object :: "u64 \<Rightarrow> bool \<Rightarrow> bool \<Rightarrow> bool \<Rightarrow> bool \<Rightarrow> u64" where
  "ZMarkStackEntry_object object_address mark inc_live follow finalizable =
     bf_encode field_object_address object_address OR
     bf_encode field_mark (of_bool mark) OR
     bf_encode field_inc_live (of_bool inc_live) OR
     bf_encode field_follow (of_bool follow) OR
     bf_encode field_partial_array (of_bool False) OR
     bf_encode field_finalizable (of_bool finalizable)"

definition ZMarkStackEntry_partial :: "u64 \<Rightarrow> u64 \<Rightarrow> bool \<Rightarrow> u64" where
  "ZMarkStackEntry_partial partial_array_offset partial_array_length finalizable =
     bf_encode field_partial_array_offset partial_array_offset OR
     bf_encode field_partial_array_length partial_array_length OR
     bf_encode field_partial_array (of_bool True) OR
     bf_encode field_finalizable (of_bool finalizable)"

definition mse_finalizable :: "u64 \<Rightarrow> bool" where
  "mse_finalizable e = bf_flag field_finalizable e"

definition mse_partial_array :: "u64 \<Rightarrow> bool" where
  "mse_partial_array e = bf_flag field_partial_array e"

definition mse_partial_array_offset :: "u64 \<Rightarrow> u64" where
  "mse_partial_array_offset e = bf_decode field_partial_array_offset e"

definition mse_partial_array_length :: "u64 \<Rightarrow> u64" where
  "mse_partial_array_length e = bf_decode field_partial_array_length e"

definition mse_follow :: "u64 \<Rightarrow> bool" where
  "mse_follow e = bf_flag field_follow e"

definition mse_inc_live :: "u64 \<Rightarrow> bool" where
  "mse_inc_live e = bf_flag field_inc_live e"

definition mse_mark :: "u64 \<Rightarrow> bool" where
  "mse_mark e = bf_flag field_mark e"

definition mse_object_address :: "u64 \<Rightarrow> u64" where
  "mse_object_address e = bf_decode field_object_address e"

lemmas mse_defs = ZMarkStackEntry_object_def ZMarkStackEntry_partial_def mse_finalizable_def
  mse_partial_array_def mse_partial_array_offset_def mse_partial_array_length_def
  mse_follow_def mse_inc_live_def mse_mark_def mse_object_address_def

lemma field_object_address_ok:
  "unat a < 2 ^ 59 \<Longrightarrow> bf_value_ok \<lparr>FieldShift = 5, FieldBits = 59, ValueShift = 0\<rparr> a"
  by (rule bf_value_ok_small) simp_all

lemma field_partial_length_ok:
  "unat a < 2 ^ 30 \<Longrightarrow> bf_value_ok \<lparr>FieldShift = 2, FieldBits = 30, ValueShift = 0\<rparr> a"
  by (rule bf_value_ok_small) simp_all

lemma field_partial_offset_ok:
  "unat a < 2 ^ 32 \<Longrightarrow> bf_value_ok \<lparr>FieldShift = 32, FieldBits = 32, ValueShift = 0\<rparr> a"
  by (rule bf_value_ok_small) simp_all

text \<open>Every field of an object entry of the mark stack is read back as it was written.\<close>

theorem mark_entry_object_roundtrip:
  assumes "unat a < 2 ^ 59"
  shows "mse_object_address (ZMarkStackEntry_object a m i f z) = a
    \<and> (mse_mark (ZMarkStackEntry_object a m i f z) \<longleftrightarrow> m)
    \<and> (mse_inc_live (ZMarkStackEntry_object a m i f z) \<longleftrightarrow> i)
    \<and> (mse_follow (ZMarkStackEntry_object a m i f z) \<longleftrightarrow> f)
    \<and> (mse_finalizable (ZMarkStackEntry_object a m i f z) \<longleftrightarrow> z)
    \<and> \<not> mse_partial_array (ZMarkStackEntry_object a m i f z)"
  using field_object_address_ok [OF assms]
  by (simp add: mse_defs mark_field_defs bf_rules bf_layout_ok_def bf_disjoint_def)

theorem mark_entry_object_roundtrip_witness:
  "mse_object_address (ZMarkStackEntry_object 4660 True False True False) = 4660"
  using mark_entry_object_roundtrip [of 4660 True False True False] by simp

text \<open>Every field of a partial array entry of the mark stack is read back as it was written.\<close>

lemma mark_entry_partial_roundtrip:
  assumes "unat off < 2 ^ 32" "unat len < 2 ^ 30"
  shows "mse_partial_array_offset (ZMarkStackEntry_partial off len z) = off
    \<and> mse_partial_array_length (ZMarkStackEntry_partial off len z) = len
    \<and> (mse_finalizable (ZMarkStackEntry_partial off len z) \<longleftrightarrow> z)
    \<and> mse_partial_array (ZMarkStackEntry_partial off len z)"
  using field_partial_offset_ok [OF assms(1)] field_partial_length_ok [OF assms(2)]
  by (simp add: mse_defs mark_field_defs bf_rules bf_layout_ok_def bf_disjoint_def)

subsection \<open>ZForwardingEntry\<close>

definition field_populated :: bit_field where
  "field_populated = \<lparr>FieldShift = 0, FieldBits = 1, ValueShift = 0\<rparr>"

definition field_to_offset :: bit_field where
  "field_to_offset = \<lparr>FieldShift = 1, FieldBits = 45, ValueShift = 0\<rparr>"

definition field_from_index :: bit_field where
  "field_from_index = \<lparr>FieldShift = 46, FieldBits = 18, ValueShift = 0\<rparr>"

definition ZForwardingEntry_empty :: u64 where
  "ZForwardingEntry_empty = 0"

definition ZForwardingEntry :: "u64 \<Rightarrow> u64 \<Rightarrow> u64" where
  "ZForwardingEntry from_index to_offset =
     bf_encode field_populated (of_bool True) OR
     bf_encode field_to_offset to_offset OR
     bf_encode field_from_index from_index"

definition fe_populated :: "u64 \<Rightarrow> bool" where
  "fe_populated e = bf_flag field_populated e"

definition fe_to_offset :: "u64 \<Rightarrow> u64" where
  "fe_to_offset e = bf_decode field_to_offset e"

definition fe_from_index :: "u64 \<Rightarrow> u64" where
  "fe_from_index e = bf_decode field_from_index e"

lemmas fe_defs = ZForwardingEntry_def fe_populated_def fe_to_offset_def fe_from_index_def
  field_populated_def field_to_offset_def field_from_index_def

lemma field_to_offset_ok:
  "unat a < 2 ^ 45 \<Longrightarrow> bf_value_ok \<lparr>FieldShift = 1, FieldBits = 45, ValueShift = 0\<rparr> a"
  by (rule bf_value_ok_small) simp_all

lemma field_from_index_ok:
  "unat a < 2 ^ 18 \<Longrightarrow> bf_value_ok \<lparr>FieldShift = 46, FieldBits = 18, ValueShift = 0\<rparr> a"
  by (rule bf_value_ok_small) simp_all

lemma fe_populated_empty: "\<not> fe_populated ZForwardingEntry_empty"
  by (simp add: fe_defs ZForwardingEntry_empty_def bf_flag_def bf_decode_def)

lemma forwarding_entry_fields:
  assumes "unat fi < 2 ^ 18" "unat off < 2 ^ 45"
  shows "fe_populated (ZForwardingEntry fi off)" "fe_from_index (ZForwardingEntry fi off) = fi"
    "fe_to_offset (ZForwardingEntry fi off) = off"
  using field_from_index_ok [OF assms(1)] field_to_offset_ok [OF assms(2)]
  by (simp_all add: fe_defs bf_rules bf_layout_ok_def bf_disjoint_def)

end
