(* ===== verification/Linked_Store.thy ===== *)
theory Linked_Store
  imports Zgc_Prelude
begin

text \<open>
  Circular doubly linked lists with a sentinel, in an explicit store of \<open>prev\<close> and
  \<open>next\<close> fields. Two components of the program are built this way: \<open>double_link\<close> with
  the list operations of \<open>buddy_helper.hpp\<close>, and \<open>ZListNode\<close> with \<open>ZList\<close>
  (\<open>zList.inline.hpp\<close>). The predicate \<open>dll s h xs\<close> says that the nodes reached from
  sentinel \<open>h\<close> are exactly \<open>xs\<close>, in this order, with consistent links both ways.
\<close>

record 'p links =
  lprev :: "'p \<Rightarrow> 'p"
  lnext :: "'p \<Rightarrow> 'p"

definition set_prev :: "'p \<Rightarrow> 'p \<Rightarrow> 'p links \<Rightarrow> 'p links" where
  "set_prev p q s = s\<lparr>lprev := (lprev s)(p := q)\<rparr>"

definition set_next :: "'p \<Rightarrow> 'p \<Rightarrow> 'p links \<Rightarrow> 'p links" where
  "set_next p q s = s\<lparr>lnext := (lnext s)(p := q)\<rparr>"

lemma link_simps [simp]:
  "lprev (set_prev p q s) = (lprev s)(p := q)" "lnext (set_prev p q s) = lnext s"
  "lnext (set_next p q s) = (lnext s)(p := q)" "lprev (set_next p q s) = lprev s"
  by (simp_all add: set_prev_def set_next_def)

subsection \<open>Segments and lists\<close>

fun seg :: "'p links \<Rightarrow> 'p \<Rightarrow> 'p list \<Rightarrow> 'p \<Rightarrow> bool" where
  "seg s a [] b \<longleftrightarrow> lnext s a = b \<and> lprev s b = a"
| "seg s a (x # xs) b \<longleftrightarrow> lnext s a = x \<and> lprev s x = a \<and> seg s x xs b"

definition dll :: "'p links \<Rightarrow> 'p \<Rightarrow> 'p list \<Rightarrow> bool" where
  "dll s h xs \<longleftrightarrow> distinct (h # xs) \<and> seg s h xs h"

lemma seg_append: "seg s a (xs @ x # ys) b \<longleftrightarrow> seg s a xs x \<and> seg s x ys b"
  by (induction xs arbitrary: a) auto

lemma seg_snoc: "seg s a (xs @ [x]) b \<longleftrightarrow> seg s a xs x \<and> lnext s x = b \<and> lprev s b = x"
  by (simp add: seg_append)

lemma seg_cong:
  "(\<And>p. p \<in> set (a # xs) \<Longrightarrow> lnext s p = lnext t p) \<Longrightarrow>
   (\<And>p. p \<in> set (b # xs) \<Longrightarrow> lprev s p = lprev t p) \<Longrightarrow> seg s a xs b \<longleftrightarrow> seg t a xs b"
  by (induction xs arbitrary: a) auto

lemma dll_cong:
  "(\<And>p. p \<in> set (h # xs) \<Longrightarrow> lnext s p = lnext t p \<and> lprev s p = lprev t p) \<Longrightarrow>
   dll s h xs \<longleftrightarrow> dll t h xs"
  unfolding dll_def using seg_cong [of h xs s t h] by auto

lemma seg_first: "seg s a xs b \<Longrightarrow> lnext s a = hd (xs @ [b])"
  by (cases xs) auto

lemma seg_last: "seg s a xs b \<Longrightarrow> lprev s b = last (a # xs)"
  by (induction xs arbitrary: a) auto

lemma seg_prev_in: "seg s a xs b \<Longrightarrow> x \<in> set (b # xs) \<Longrightarrow> lprev s x \<in> set (a # xs)"
  by (induction xs arbitrary: a) auto

lemma seg_next_in: "seg s a xs b \<Longrightarrow> x \<in> set (a # xs) \<Longrightarrow> lnext s x \<in> set (b # xs)"
  by (induction xs arbitrary: a) auto

lemma dll_next_head: "dll s h xs \<Longrightarrow> lnext s h = h \<longleftrightarrow> xs = []"
  by (cases xs) (auto simp: dll_def)

lemma dll_last: "dll s h xs \<Longrightarrow> lprev s h = last (h # xs)"
  unfolding dll_def by (blast dest: seg_last)

text \<open>Splicing a node in after \<open>a\<close>, and unlinking a node, as changes of four fields.\<close>

definition link_between :: "'p \<Rightarrow> 'p \<Rightarrow> 'p \<Rightarrow> 'p links \<Rightarrow> 'p links" where
  "link_between a x b s = s\<lparr>lnext := (lnext s)(a := x, x := b), lprev := (lprev s)(x := a, b := x)\<rparr>"

definition unlink :: "'p \<Rightarrow> 'p \<Rightarrow> 'p links \<Rightarrow> 'p links" where
  "unlink a b s = s\<lparr>lnext := (lnext s)(a := b), lprev := (lprev s)(b := a)\<rparr>"

lemma seg_between:
  assumes "seg s a [] b" "x \<noteq> a" "x \<noteq> b"
  shows "seg (link_between a x b s) a [x] b"
  using assms by (auto simp: link_between_def)

lemma dll_between_end:
  assumes "dll s h xs" "x \<notin> set (h # xs)"
  shows "dll (link_between (last (h # xs)) x h s) h (xs @ [x])"
proof (cases xs rule: rev_cases)
  case Nil
  with assms show ?thesis by (auto simp: dll_def link_between_def)
next
  case (snoc ys y)
  have d: "distinct (h # ys @ [y])" "x \<notin> set (h # ys @ [y])" using assms snoc by (auto simp: dll_def)
  have s1: "seg s h ys y" using assms snoc by (simp add: dll_def seg_snoc)
  have "seg (link_between y x h s) h ys y"
    using s1 d by (subst seg_cong [where t = s]) (auto simp: link_between_def)
  moreover have "seg (link_between y x h s) y [x] h" using d by (auto simp: link_between_def)
  ultimately have "seg (link_between y x h s) h (ys @ y # [x]) h" by (simp add: seg_append del: seg.simps)
  then show ?thesis using d snoc by (auto simp: dll_def)
qed

lemma dll_between_after:
  assumes "dll s h (xs @ y # ys)" "x \<notin> set (h # xs @ y # ys)"
  shows "dll (link_between y x (hd (ys @ [h])) s) h (xs @ y # x # ys)"
proof -
  let ?b = "hd (ys @ [h])" let ?t = "link_between y x ?b s"
  have d: "distinct (h # xs @ y # ys)" using assms by (simp add: dll_def)
  have s1: "seg s h xs y" and s2: "seg s y ys h" using assms by (simp_all add: dll_def seg_append)
  have b: "?b \<noteq> y" "?b \<notin> set xs" "?b \<in> set (h # ys)" "?b \<noteq> x"
    using d assms(2) by (cases ys; auto)+
  have "seg ?t h xs y"
    using s1 d assms(2) b by (subst seg_cong [where t = s]) (auto simp: link_between_def)
  moreover have "seg ?t x ys h"
  proof (cases ys)
    case Nil
    then show ?thesis using d assms(2) by (auto simp: link_between_def)
  next
    case (Cons z zs)
    have "seg s z zs h" using s2 Cons by simp
    then have "seg ?t z zs h"
      using d assms(2) Cons by (subst seg_cong [where t = s]) (auto simp: link_between_def)
    then show ?thesis using Cons d assms(2) by (auto simp: link_between_def)
  qed
  moreover have "lnext ?t y = x" "lprev ?t x = y" using d assms(2) b by (auto simp: link_between_def)
  ultimately show ?thesis using d assms(2) by (auto simp: dll_def seg_append)
qed

lemma dll_unlink:
  assumes "dll s h (xs @ x # ys)"
  shows "dll (unlink (last (h # xs)) (hd (ys @ [h])) s) h (xs @ ys)"
proof -
  let ?a = "last (h # xs)" let ?b = "hd (ys @ [h])" let ?t = "unlink ?a ?b s"
  have d: "distinct (h # xs @ x # ys)" using assms by (simp add: dll_def)
  have s1: "seg s h xs x" and s2: "seg s x ys h" using assms by (simp_all add: dll_def seg_append)
  have b: "?b \<in> set (h # ys)" by (cases ys) auto
  have a: "?a \<in> set (h # xs)" by (cases xs) auto
  have tail: "seg ?t ?a ys h"
  proof (cases ys)
    case Nil
    then show ?thesis by (simp add: unlink_def)
  next
    case (Cons z zs)
    have "seg s z zs h" using s2 Cons by simp
    then have "seg ?t z zs h"
    proof (subst seg_cong [where t = s])
      have "?a \<notin> set (z # zs)" using d a Cons by auto
      then show "lnext ?t p = lnext s p" if "p \<in> set (z # zs)" for p
        using that by (auto simp: unlink_def)
      show "lprev ?t p = lprev s p" if "p \<in> set (h # zs)" for p
        using that d Cons by (auto simp: unlink_def)
    qed
    then show ?thesis using Cons by (simp add: unlink_def)
  qed
  show ?thesis
  proof (cases xs rule: rev_cases)
    case Nil
    then show ?thesis using tail d by (simp add: dll_def)
  next
    case (snoc zs z)
    have "seg s h zs z" using s1 snoc by (simp add: seg_snoc)
    then have "seg ?t h zs z"
      using d b snoc by (subst seg_cong [where t = s]) (auto simp: unlink_def)
    then show ?thesis using tail d snoc by (simp add: dll_def seg_append)
  qed
qed

lemma dll_neighbours:
  assumes "dll s h (xs @ x # ys)"
  shows "lprev s x = last (h # xs)" "lnext s x = hd (ys @ [h])"
proof -
  have "seg s h xs x" "seg s x ys h" using assms by (simp_all add: dll_def seg_append)
  then show "lprev s x = last (h # xs)" "lnext s x = hd (ys @ [h])"
    by (simp_all add: seg_last seg_first)
qed

lemma dll_last_neighbour: "dll s h xs \<Longrightarrow> lnext s (last (h # xs)) = h"
  by (cases xs rule: rev_cases) (auto simp: dll_def seg_snoc)

end
