(* ===== verification/Z_List.thy ===== *)
theory Z_List
  imports Linked_Store
begin

text \<open>
  \<open>ZList\<close> (\<open>zList.inline.hpp\<close>): a counted circular list with the sentinel inside the
  list object. The state is the link store, the sentinel and \<open>_size\<close>; element and node
  are the same pointer (\<open>cast_to_inner\<close> and \<open>cast_to_outer\<close> shift by a constant). The
  \<open>verify_*\<close> functions are debug assertions; the invariant \<open>zl_rep\<close> implies them.
\<close>

record 'p zlist =
  zl_links :: "'p links"
  zl_head :: 'p
  zl_size :: nat

definition verify_links :: "'p links \<Rightarrow> 'p \<Rightarrow> bool" where
  "verify_links s p \<longleftrightarrow> lprev s (lnext s p) = p \<and> lnext s (lprev s p) = p"

definition verify_links_linked :: "'p links \<Rightarrow> 'p \<Rightarrow> bool" where
  "verify_links_linked s p \<longleftrightarrow> lnext s p \<noteq> p \<and> lprev s p \<noteq> p \<and> verify_links s p"

definition verify_links_unlinked :: "'p links \<Rightarrow> 'p \<Rightarrow> bool" where
  "verify_links_unlinked s p \<longleftrightarrow> lnext s p = p \<and> lprev s p = p"

definition zl_new :: "'p links \<Rightarrow> 'p \<Rightarrow> 'p zlist" where
  "zl_new s head = \<lparr>zl_links = set_prev head head (set_next head head s), zl_head = head, zl_size = 0\<rparr>"

definition zl_insert :: "'p zlist \<Rightarrow> 'p \<Rightarrow> 'p \<Rightarrow> 'p zlist" where
  "zl_insert z before node =
     (let s = set_prev node before (zl_links z);
          s = set_next node (lnext s before) s;
          s = set_next before node s;
          s = set_prev (lnext s node) node s
      in z\<lparr>zl_links := s, zl_size := zl_size z + 1\<rparr>)"

definition zl_is_empty :: "'p zlist \<Rightarrow> bool" where
  "zl_is_empty z \<longleftrightarrow> zl_size z = 0"

definition zl_first :: "'p zlist \<Rightarrow> 'p option" where
  "zl_first z = (if zl_is_empty z then None else Some (lnext (zl_links z) (zl_head z)))"

definition zl_last :: "'p zlist \<Rightarrow> 'p option" where
  "zl_last z = (if zl_is_empty z then None else Some (lprev (zl_links z) (zl_head z)))"

definition zl_next :: "'p zlist \<Rightarrow> 'p \<Rightarrow> 'p option" where
  "zl_next z elem = (let next = lnext (zl_links z) elem in if next = zl_head z then None else Some next)"

definition zl_prev :: "'p zlist \<Rightarrow> 'p \<Rightarrow> 'p option" where
  "zl_prev z elem = (let prev = lprev (zl_links z) elem in if prev = zl_head z then None else Some prev)"

definition zl_insert_first :: "'p zlist \<Rightarrow> 'p \<Rightarrow> 'p zlist" where
  "zl_insert_first z elem = zl_insert z (zl_head z) elem"

definition zl_insert_last :: "'p zlist \<Rightarrow> 'p \<Rightarrow> 'p zlist" where
  "zl_insert_last z elem = zl_insert z (lprev (zl_links z) (zl_head z)) elem"

definition zl_insert_before :: "'p zlist \<Rightarrow> 'p \<Rightarrow> 'p \<Rightarrow> 'p zlist" where
  "zl_insert_before z before elem = zl_insert z (lprev (zl_links z) before) elem"

definition zl_insert_after :: "'p zlist \<Rightarrow> 'p \<Rightarrow> 'p \<Rightarrow> 'p zlist" where
  "zl_insert_after z after elem = zl_insert z after elem"

definition zl_remove :: "'p zlist \<Rightarrow> 'p \<Rightarrow> 'p zlist" where
  "zl_remove z node =
     (let s = zl_links z;
          next = lnext s node;
          prev = lprev s node;
          s = set_next node (lnext s prev) s;
          s = set_prev node (lprev s next) s;
          s = set_prev next prev s;
          s = set_next prev next s
      in z\<lparr>zl_links := s, zl_size := zl_size z - 1\<rparr>)"

definition zl_remove_first :: "'p zlist \<Rightarrow> 'p option \<times> 'p zlist" where
  "zl_remove_first z =
     (case zl_first z of None \<Rightarrow> (None, z) | Some elem \<Rightarrow> (Some elem, zl_remove z elem))"

definition zl_remove_last :: "'p zlist \<Rightarrow> 'p option \<times> 'p zlist" where
  "zl_remove_last z =
     (case zl_last z of None \<Rightarrow> (None, z) | Some elem \<Rightarrow> (Some elem, zl_remove z elem))"

text \<open>The iterators: the state is the pointer to the next element.\<close>

definition zl_iter_new :: "bool \<Rightarrow> 'p zlist \<Rightarrow> 'p option" where
  "zl_iter_new forward z = (if forward then zl_first z else zl_last z)"

definition zl_iter_next :: "bool \<Rightarrow> 'p zlist \<Rightarrow> 'p option \<Rightarrow> 'p option \<times> 'p option" where
  "zl_iter_next forward z nxt =
     (case nxt of None \<Rightarrow> (None, None)
      | Some e \<Rightarrow> (Some e, if forward then zl_next z e else zl_prev z e))"

definition zl_remove_iter_next :: "bool \<Rightarrow> 'p zlist \<Rightarrow> 'p option \<times> 'p zlist" where
  "zl_remove_iter_next forward z = (if forward then zl_remove_first z else zl_remove_last z)"

fun zl_iterate :: "bool \<Rightarrow> 'p zlist \<Rightarrow> nat \<Rightarrow> 'p option \<Rightarrow> 'p list" where
  "zl_iterate forward z 0 nxt = []"
| "zl_iterate forward z (Suc fuel) nxt =
     (case zl_iter_next forward z nxt of
        (None, _) \<Rightarrow> []
      | (Some e, nxt') \<Rightarrow> e # zl_iterate forward z fuel nxt')"

subsection \<open>Representation\<close>

definition zl_rep :: "'p zlist \<Rightarrow> 'p list \<Rightarrow> bool" where
  "zl_rep z xs \<longleftrightarrow> dll (zl_links z) (zl_head z) xs \<and> zl_size z = length xs"

lemma zl_new_rep: "zl_rep (zl_new s h) []"
  by (simp add: zl_rep_def zl_new_def dll_def)

lemma zl_is_empty_rep: "zl_rep z xs \<Longrightarrow> zl_is_empty z \<longleftrightarrow> xs = []"
  by (simp add: zl_rep_def zl_is_empty_def)

lemma zl_first_rep: "zl_rep z xs \<Longrightarrow> zl_first z = (case xs of [] \<Rightarrow> None | x # _ \<Rightarrow> Some x)"
  by (cases xs) (auto simp: zl_rep_def zl_first_def zl_is_empty_def dll_def)

lemma zl_last_rep: "zl_rep z xs \<Longrightarrow> zl_last z = (if xs = [] then None else Some (last xs))"
  using dll_last [of "zl_links z" "zl_head z" xs]
  by (auto simp: zl_rep_def zl_last_def zl_is_empty_def)

lemma zl_next_rep:
  assumes "zl_rep z (xs @ x # ys)"
  shows "zl_next z x = (case ys of [] \<Rightarrow> None | y # _ \<Rightarrow> Some y)"
  using assms dll_neighbours [of "zl_links z" "zl_head z" xs x ys]
  by (cases ys) (auto simp: zl_rep_def zl_next_def dll_def)

lemma zl_prev_rep:
  assumes "zl_rep z (xs @ x # ys)"
  shows "zl_prev z x = (if xs = [] then None else Some (last xs))"
proof -
  have d: "dll (zl_links z) (zl_head z) (xs @ x # ys)" using assms by (simp add: zl_rep_def)
  have "zl_head z \<notin> set xs" using d by (simp add: dll_def)
  then have "xs \<noteq> [] \<Longrightarrow> last xs \<noteq> zl_head z" by (metis last_in_set)
  then show ?thesis using dll_neighbours(1) [OF d] by (simp add: zl_prev_def Let_def)
qed

lemma zl_insert_links:
  assumes "lnext (zl_links z) a = b" "x \<noteq> a" "x \<noteq> b"
  shows "zl_links (zl_insert z a x) = link_between a x b (zl_links z)"
  using assms by (simp add: zl_insert_def Let_def link_between_def set_prev_def set_next_def fun_upd_twist)

lemma zl_insert_fields:
  "zl_head (zl_insert z a x) = zl_head z" "zl_size (zl_insert z a x) = Suc (zl_size z)"
  by (simp_all add: zl_insert_def Let_def)

lemma zl_insert_rep:
  assumes r: "zl_rep z (xs @ y # ys)" and x: "x \<notin> set (zl_head z # xs @ y # ys)"
  shows "zl_rep (zl_insert z y x) (xs @ y # x # ys)"
proof -
  let ?b = "hd (ys @ [zl_head z])"
  have d: "dll (zl_links z) (zl_head z) (xs @ y # ys)" using r by (simp add: zl_rep_def)
  have n: "lnext (zl_links z) y = ?b" by (rule dll_neighbours(2) [OF d])
  have "x \<noteq> y" "x \<noteq> ?b" using x by (cases ys; auto)+
  with zl_insert_links [OF n, of x]
  have "zl_links (zl_insert z y x) = link_between y x ?b (zl_links z)" by simp
  with dll_between_after [OF d x] r show ?thesis by (simp add: zl_rep_def zl_insert_fields)
qed

lemma zl_insert_head_rep:
  assumes r: "zl_rep z xs" and x: "x \<notin> set (zl_head z # xs)"
  shows "zl_rep (zl_insert_first z x) (x # xs)"
proof -
  let ?s = "zl_links z" let ?h = "zl_head z" let ?b = "hd (xs @ [?h])"
  let ?t = "link_between ?h x ?b ?s"
  have d: "dll ?s ?h xs" using r by (simp add: zl_rep_def)
  have n: "lnext ?s ?h = ?b" using d by (simp add: dll_def seg_first)
  have xb: "x \<noteq> ?h" "x \<noteq> ?b" using x by (cases xs; auto)+
  have "zl_links (zl_insert z ?h x) = ?t"
    by (rule zl_insert_links [OF n xb])
  moreover have "dll ?t ?h (x # xs)"
  proof (cases xs)
    case Nil
    then show ?thesis using x by (auto simp: dll_def link_between_def)
  next
    case (Cons y ys)
    have "seg ?s y ys ?h" "distinct (?h # y # ys)" using d Cons by (auto simp: dll_def)
    then have "seg ?t y ys ?h"
      using x Cons by (subst seg_cong [where t = ?s]) (auto simp: link_between_def)
    then show ?thesis using d x Cons by (auto simp: dll_def link_between_def)
  qed
  ultimately show ?thesis
    using r by (simp add: zl_insert_first_def zl_rep_def zl_insert_fields)
qed

lemma zl_insert_last_rep:
  assumes r: "zl_rep z xs" and x: "x \<notin> set (zl_head z # xs)"
  shows "zl_rep (zl_insert_last z x) (xs @ [x])"
proof (cases xs rule: rev_cases)
  case Nil
  then show ?thesis
    using zl_insert_head_rep [OF r x] r
    by (simp add: zl_insert_last_def zl_insert_first_def zl_rep_def dll_def)
next
  case (snoc ys y)
  then have "lprev (zl_links z) (zl_head z) = y"
    using r dll_last [of "zl_links z" "zl_head z" xs] by (simp add: zl_rep_def)
  then show ?thesis
    using zl_insert_rep [of z ys y "[]" x] r x snoc by (simp add: zl_insert_last_def)
qed

lemma zl_insert_before_rep:
  assumes r: "zl_rep z (xs @ y # ys)" and x: "x \<notin> set (zl_head z # xs @ y # ys)"
  shows "zl_rep (zl_insert_before z y x) (xs @ x # y # ys)"
proof -
  have d: "dll (zl_links z) (zl_head z) (xs @ y # ys)" using r by (simp add: zl_rep_def)
  show ?thesis
  proof (cases xs rule: rev_cases)
    case Nil
    then show ?thesis
      using zl_insert_head_rep [OF r x] dll_neighbours(1) [OF d]
      by (simp add: zl_insert_before_def zl_insert_first_def)
  next
    case (snoc zs w)
    then show ?thesis
      using zl_insert_rep [of z zs w "y # ys" x] r x dll_neighbours(1) [OF d]
      by (simp add: zl_insert_before_def)
  qed
qed

lemma zl_remove_links:
  assumes d: "dll s h (xs @ x # ys)" and "z = \<lparr>zl_links = s, zl_head = h, zl_size = n\<rparr>"
  shows "zl_links (zl_remove z x) =
    set_next x x (set_prev x x (unlink (last (h # xs)) (hd (ys @ [h])) s))"
proof -
  let ?a = "last (h # xs)" let ?b = "hd (ys @ [h])"
  have dd: "distinct (h # xs @ x # ys)" using d by (simp add: dll_def)
  have ab: "?a \<noteq> x" "?b \<noteq> x"
    using dd by (cases xs rule: rev_cases; auto) (use dd in \<open>cases ys; auto\<close>)
  have s: "seg s h xs x" "seg s x ys h" using d by (simp_all add: dll_def seg_append)
  have n: "lprev s x = ?a" "lnext s x = ?b" by (rule dll_neighbours [OF d])+
  have "lnext s ?a = x" using s(1) by (cases xs rule: rev_cases) (auto simp: seg_snoc)
  moreover have "lprev s ?b = x" using s(2) by (cases ys) auto
  ultimately show ?thesis
    using n ab assms(2)
    by (simp add: zl_remove_def Let_def unlink_def set_prev_def set_next_def fun_upd_twist
        del: last.simps)
qed

lemma zl_remove_rep:
  assumes r: "zl_rep z (xs @ x # ys)"
  shows "zl_rep (zl_remove z x) (xs @ ys) \<and> verify_links_unlinked (zl_links (zl_remove z x)) x"
proof -
  have d: "dll (zl_links z) (zl_head z) (xs @ x # ys)" using r by (simp add: zl_rep_def)
  have l: "zl_links (zl_remove z x) = set_next x x (set_prev x x
      (unlink (last (zl_head z # xs)) (hd (ys @ [zl_head z])) (zl_links z)))"
    by (rule zl_remove_links [OF d, of _ "zl_size z"]) simp
  have f: "zl_head (zl_remove z x) = zl_head z" "zl_size (zl_remove z x) = zl_size z - 1"
    by (simp_all add: zl_remove_def Let_def)
  have u: "dll (unlink (last (zl_head z # xs)) (hd (ys @ [zl_head z])) (zl_links z)) (zl_head z) (xs @ ys)"
    by (rule dll_unlink [OF d])
  have "dll (zl_links (zl_remove z x)) (zl_head z) (xs @ ys)"
    unfolding l using u by (rule dll_cong [THEN iffD2, rotated]) (use d in \<open>auto simp: dll_def\<close>)
  with r show ?thesis by (simp add: zl_rep_def f l verify_links_unlinked_def)
qed

text \<open>The debug assertions of the list code hold in every represented list.\<close>

lemma seg_verify_links:
  assumes "dll s h xs" "p \<in> set (h # xs)"
  shows "verify_links s p"
proof (cases "p = h")
  case True
  have "lnext s (lprev s h) = h" using dll_last [OF assms(1)] dll_last_neighbour [OF assms(1)] by simp
  moreover have "lprev s (lnext s h) = h" using assms(1) by (cases xs) (auto simp: dll_def)
  ultimately show ?thesis using True by (simp add: verify_links_def)
next
  case False
  with assms(2) obtain ys zs where e: "xs = ys @ p # zs" by (auto dest: split_list)
  with assms(1) have "seg s h ys p" "seg s p zs h" by (simp_all add: dll_def seg_append)
  then show ?thesis
    unfolding verify_links_def by (cases zs; cases ys rule: rev_cases) (auto simp: seg_snoc)
qed

lemma zl_rep_verified:
  "zl_rep z xs \<Longrightarrow> p \<in> set (zl_head z # xs) \<Longrightarrow> verify_links (zl_links z) p"
  by (auto simp: zl_rep_def intro: seg_verify_links)

lemma zl_iterate_forward:
  "zl_rep z (xs @ ys) \<Longrightarrow> length ys \<le> n \<Longrightarrow>
   zl_iterate True z n (case ys of [] \<Rightarrow> None | y # _ \<Rightarrow> Some y) = ys"
proof (induction ys arbitrary: xs n)
  case Nil
  then show ?case by (cases n) (simp_all add: zl_iter_next_def)
next
  case (Cons y ys)
  obtain m where m: "n = Suc m" using Cons.prems(2) by (cases n) auto
  have "zl_iterate True z m (case ys of [] \<Rightarrow> None | y # _ \<Rightarrow> Some y) = ys"
    using Cons.IH [of "xs @ [y]" m] Cons.prems m by simp
  then show ?case using m zl_next_rep [OF Cons.prems(1)] by (simp add: zl_iter_next_def)
qed

lemma zl_iterate_backward:
  "zl_rep z (xs @ ys) \<Longrightarrow> length xs \<le> n \<Longrightarrow>
   zl_iterate False z n (if xs = [] then None else Some (last xs)) = rev xs"
proof (induction xs arbitrary: ys n rule: rev_induct)
  case Nil
  then show ?case by (cases n) (simp_all add: zl_iter_next_def)
next
  case (snoc x xs)
  obtain m where m: "n = Suc m" using snoc.prems(2) by (cases n) auto
  have r: "zl_rep z (xs @ x # ys)" using snoc.prems(1) by simp
  have "zl_iterate False z m (if xs = [] then None else Some (last xs)) = rev xs"
    using snoc.IH [of "x # ys" m] r snoc.prems(2) m by simp
  then show ?case using m zl_prev_rep [OF r] by (simp add: zl_iter_next_def)
qed

lemma zl_remove_first_rep:
  assumes "zl_rep z xs"
  shows "fst (zl_remove_first z) = (if xs = [] then None else Some (hd xs)) \<and> zl_rep (snd (zl_remove_first z)) (tl xs)"
proof (cases xs)
  case Nil
  then show ?thesis using assms zl_first_rep [OF assms] by (simp add: zl_remove_first_def)
next
  case (Cons y ys)
  then show ?thesis using zl_first_rep [OF assms] assms zl_remove_rep [of z "[]" y ys] by (simp add: zl_remove_first_def)
qed

lemma zl_remove_last_rep:
  assumes "zl_rep z xs"
  shows "fst (zl_remove_last z) = (if xs = [] then None else Some (last xs)) \<and> zl_rep (snd (zl_remove_last z)) (butlast xs)"
proof (cases xs rule: rev_cases)
  case Nil
  then show ?thesis using assms zl_last_rep [OF assms] by (simp add: zl_remove_last_def)
next
  case (snoc ys y)
  then show ?thesis using zl_last_rep [OF assms] assms zl_remove_rep [of z ys y "[]"] by (simp add: zl_remove_last_def)
qed

lemma zl_size_rep: "zl_rep z xs \<Longrightarrow> zl_size z = length xs"
  by (simp add: zl_rep_def)

text \<open>C39. \<open>ZList\<close> refines a sequence: on a list that stands for the sequence \<open>xs\<close>, empty or not, the count is its
  length, an element that is not in the list is inserted first, last, before or after an element as the operation's
  name says, any element can be removed and is unlinked, and removing the first or the last element returns it
  and keeps the rest in order, while on the empty list it returns nothing and changes nothing.\<close>

theorem zlist_refines_sequence:
  assumes "zl_rep z xs" "x \<notin> set (zl_head z # xs)"
  shows "zl_size z = length xs \<and> (zl_is_empty z \<longleftrightarrow> xs = [])
    \<and> zl_rep (zl_insert_first z x) (x # xs)
    \<and> zl_rep (zl_insert_last z x) (xs @ [x])
    \<and> (\<forall>ys y zs. xs = ys @ y # zs \<longrightarrow>
          zl_rep (zl_insert_before z y x) (ys @ x # y # zs) \<and> zl_rep (zl_insert_after z y x) (ys @ y # x # zs)
          \<and> zl_rep (zl_remove z y) (ys @ zs) \<and> verify_links_unlinked (zl_links (zl_remove z y)) y)
    \<and> fst (zl_remove_first z) = (if xs = [] then None else Some (hd xs)) \<and> zl_rep (snd (zl_remove_first z)) (tl xs)
    \<and> fst (zl_remove_last z) = (if xs = [] then None else Some (last xs)) \<and> zl_rep (snd (zl_remove_last z)) (butlast xs)"
proof -
  have "zl_rep (zl_insert_before z y x) (ys @ x # y # zs) \<and> zl_rep (zl_insert_after z y x) (ys @ y # x # zs)
      \<and> zl_rep (zl_remove z y) (ys @ zs) \<and> verify_links_unlinked (zl_links (zl_remove z y)) y" if "xs = ys @ y # zs" for ys y zs
    using assms zl_insert_before_rep [of z ys y zs x] zl_insert_rep [of z ys y zs x] zl_remove_rep [of z ys y zs] that
    by (simp add: zl_insert_after_def)
  moreover note zl_size_rep [OF assms(1)] zl_insert_head_rep [OF assms] zl_insert_last_rep [OF assms]
    zl_remove_first_rep [OF assms(1)] zl_remove_last_rep [OF assms(1)]
  ultimately show ?thesis by (simp add: zl_is_empty_def)
qed

theorem zlist_refines_sequence_witness:
  "fst (zl_remove_last (zl_insert_last (zl_insert_first (zl_new \<lparr>lprev = id, lnext = id\<rparr> (0::nat)) 7) 8)) = Some 8
   \<and> fst (zl_remove_first (zl_insert_last (zl_insert_first (zl_new \<lparr>lprev = id, lnext = id\<rparr> (0::nat)) 7) 8)) = Some 7"
proof -
  let ?e = "zl_new \<lparr>lprev = id, lnext = id\<rparr> (0::nat)"
  have h: "zl_head (zl_insert_first ?e 7) = 0" "zl_head (zl_insert_last (zl_insert_first ?e 7) 8) = 0"
    by (simp_all add: zl_insert_last_def zl_insert_first_def zl_insert_def zl_new_def Let_def)
  have "zl_rep ?e []" "zl_head ?e = 0" using zl_new_rep by (simp_all add: zl_new_def)
  then have "zl_rep (zl_insert_first ?e 7) [7]" using zlist_refines_sequence [of ?e "[]" 7] by simp
  then have "zl_rep (zl_insert_last (zl_insert_first ?e 7) 8) [7, 8]"
    using zlist_refines_sequence [of "zl_insert_first ?e 7" "[7]" 8] h(1) by simp
  from zlist_refines_sequence [OF this, of 9] h(2) show ?thesis by simp
qed

text \<open>Iterating a list forwards yields its elements in order, iterating backwards yields
  them in reverse order, and both end after one step per element.\<close>

theorem zlist_iterates_all:
  assumes "zl_rep z xs"
  shows "zl_iterate True z (length xs) (zl_iter_new True z) = xs
    \<and> zl_iterate False z (length xs) (zl_iter_new False z) = rev xs"
  using zl_iterate_forward [of z "[]" xs "length xs"] zl_iterate_backward [of z xs "[]" "length xs"]
    zl_first_rep [OF assms] zl_last_rep [OF assms] assms
  by (simp add: zl_iter_new_def)

theorem zlist_iterates_all_witness:
  "zl_iterate True (zl_insert_last (zl_new \<lparr>lprev = id, lnext = id\<rparr> (0::nat)) 7) 1
     (zl_iter_new True (zl_insert_last (zl_new \<lparr>lprev = id, lnext = id\<rparr> (0::nat)) 7)) = [7]"
proof -
  have "zl_rep (zl_insert_last (zl_new \<lparr>lprev = id, lnext = id\<rparr> (0::nat)) 7) [7]"
    using zl_insert_last_rep [OF zl_new_rep, of 7 _ "0::nat"] by (simp add: zl_new_def)
  from zlist_iterates_all [OF this] show ?thesis by simp
qed

end
