(* ===== verification/Z_Address.thy ===== *)
theory Z_Address
  imports Zgc_Prelude
begin

text \<open>
  Coloured pointers: \<open>zAddress.hpp\<close>, \<open>zAddress.inline.hpp\<close>, \<open>zAddress.cpp\<close>. A
  \<open>zpointer\<close> is an address shifted left with metadata bits below it; the global masks
  that say which colours are good are one record, changed by the four \<open>flip\<close> functions
  at the starts of the marking and relocation phases.

  \<open>remap_bits\<close> and \<open>load_shift_lookup\<close> come from the CPU header, which is not part of
  the repository: they are arguments (\<open>rb\<close> and \<open>lsl\<close>). The predicate
  \<open>remap_bits_masks\<close> states what \<open>zAddress.hpp\<close> documents for the x86 layout, where a
  pointer holds exactly the remapped bit itself, and \<open>table_lookup\<close> that the shift is
  read from \<open>ZPointerLoadShiftTable\<close>. \<open>pd_set_good_masks\<close> only publishes the masks to
  the platform's barriers and is left out.
\<close>

subsection \<open>Metadata bits\<close>

definition z_pointer_mask :: "nat \<Rightarrow> nat \<Rightarrow> u64" where
  "z_pointer_mask shift bits = push_bit shift (push_bit bits 1 - 1)"

definition z_pointer_bit :: "nat \<Rightarrow> nat \<Rightarrow> u64" where
  "z_pointer_bit shift offset = push_bit (shift + offset) 1"

definition ZPointerReservedShift :: nat where "ZPointerReservedShift = 0"
definition ZPointerReservedBits :: nat where "ZPointerReservedBits = 4"
definition ZPointerReservedMask :: u64 where
  "ZPointerReservedMask = z_pointer_mask ZPointerReservedShift ZPointerReservedBits"

definition ZPointerRememberedShift :: nat where
  "ZPointerRememberedShift = ZPointerReservedShift + ZPointerReservedBits"
definition ZPointerRememberedBits :: nat where "ZPointerRememberedBits = 2"
definition ZPointerRememberedMask :: u64 where
  "ZPointerRememberedMask = z_pointer_mask ZPointerRememberedShift ZPointerRememberedBits"
definition ZPointerRemembered0 :: u64 where
  "ZPointerRemembered0 = z_pointer_bit ZPointerRememberedShift 0"
definition ZPointerRemembered1 :: u64 where
  "ZPointerRemembered1 = z_pointer_bit ZPointerRememberedShift 1"

definition ZPointerMarkedShift :: nat where
  "ZPointerMarkedShift = ZPointerRememberedShift + ZPointerRememberedBits"
definition ZPointerMarkedBits :: nat where "ZPointerMarkedBits = 6"
definition ZPointerMarkedMask :: u64 where
  "ZPointerMarkedMask = z_pointer_mask ZPointerMarkedShift ZPointerMarkedBits"
definition ZPointerFinalizable0 :: u64 where "ZPointerFinalizable0 = z_pointer_bit ZPointerMarkedShift 0"
definition ZPointerFinalizable1 :: u64 where "ZPointerFinalizable1 = z_pointer_bit ZPointerMarkedShift 1"
definition ZPointerMarkedYoung0 :: u64 where "ZPointerMarkedYoung0 = z_pointer_bit ZPointerMarkedShift 2"
definition ZPointerMarkedYoung1 :: u64 where "ZPointerMarkedYoung1 = z_pointer_bit ZPointerMarkedShift 3"
definition ZPointerMarkedOld0 :: u64 where "ZPointerMarkedOld0 = z_pointer_bit ZPointerMarkedShift 4"
definition ZPointerMarkedOld1 :: u64 where "ZPointerMarkedOld1 = z_pointer_bit ZPointerMarkedShift 5"

definition ZPointerRemappedShift :: nat where
  "ZPointerRemappedShift = ZPointerMarkedShift + ZPointerMarkedBits"
definition ZPointerRemappedBits :: nat where "ZPointerRemappedBits = 4"
definition ZPointerRemappedMask :: u64 where
  "ZPointerRemappedMask = z_pointer_mask ZPointerRemappedShift ZPointerRemappedBits"
definition ZPointerRemapped00 :: u64 where "ZPointerRemapped00 = z_pointer_bit ZPointerRemappedShift 0"
definition ZPointerRemapped01 :: u64 where "ZPointerRemapped01 = z_pointer_bit ZPointerRemappedShift 1"
definition ZPointerRemapped10 :: u64 where "ZPointerRemapped10 = z_pointer_bit ZPointerRemappedShift 2"
definition ZPointerRemapped11 :: u64 where "ZPointerRemapped11 = z_pointer_bit ZPointerRemappedShift 3"

definition ZPointerLoadShiftTable :: "nat list" where
  "ZPointerLoadShiftTable =
     [ZPointerRemappedShift + ZPointerRemappedShift, ZPointerRemappedShift + 1,
      ZPointerRemappedShift + 2, 0, ZPointerRemappedShift + 3, 0, 0, 0, ZPointerRemappedShift + 4]"

definition ZPointerLoadMetadataMask :: u64 where "ZPointerLoadMetadataMask = ZPointerRemappedMask"
definition ZPointerMarkMetadataMask :: u64 where
  "ZPointerMarkMetadataMask = ZPointerLoadMetadataMask OR ZPointerMarkedMask"
definition ZPointerStoreMetadataMask :: u64 where
  "ZPointerStoreMetadataMask = ZPointerMarkMetadataMask OR ZPointerRememberedMask"
definition ZPointerAllMetadataMask :: u64 where "ZPointerAllMetadataMask = ZPointerStoreMetadataMask"

lemmas z_mask_defs = z_pointer_mask_def z_pointer_bit_def ZPointerReservedShift_def
  ZPointerReservedBits_def ZPointerReservedMask_def ZPointerRememberedShift_def
  ZPointerRememberedBits_def ZPointerRememberedMask_def ZPointerRemembered0_def
  ZPointerRemembered1_def ZPointerMarkedShift_def ZPointerMarkedBits_def ZPointerMarkedMask_def
  ZPointerFinalizable0_def ZPointerFinalizable1_def ZPointerMarkedYoung0_def
  ZPointerMarkedYoung1_def ZPointerMarkedOld0_def ZPointerMarkedOld1_def
  ZPointerRemappedShift_def ZPointerRemappedBits_def ZPointerRemappedMask_def
  ZPointerRemapped00_def ZPointerRemapped01_def ZPointerRemapped10_def ZPointerRemapped11_def
  ZPointerLoadMetadataMask_def ZPointerMarkMetadataMask_def ZPointerStoreMetadataMask_def
  ZPointerAllMetadataMask_def

subsection \<open>The global masks\<close>

record zglobals =
  ZPointerRemapped :: u64
  ZPointerRemappedYoungMask :: u64
  ZPointerRemappedOldMask :: u64
  ZPointerMarkedYoung :: u64
  ZPointerMarkedOld :: u64
  ZPointerFinalizable :: u64
  ZPointerRemembered :: u64
  ZPointerLoadGoodMask :: u64
  ZPointerLoadBadMask :: u64
  ZPointerMarkGoodMask :: u64
  ZPointerMarkBadMask :: u64
  ZPointerStoreGoodMask :: u64
  ZPointerStoreBadMask :: u64

definition set_good_masks :: "(u64 \<Rightarrow> u64) \<Rightarrow> zglobals \<Rightarrow> zglobals" where
  "set_good_masks rb g =
     (let g = g\<lparr>ZPointerRemapped := ZPointerRemappedOldMask g AND ZPointerRemappedYoungMask g\<rparr>;
          g = g\<lparr>ZPointerLoadGoodMask := rb (ZPointerRemapped g)\<rparr>;
          g = g\<lparr>ZPointerMarkGoodMask := ZPointerLoadGoodMask g OR ZPointerMarkedYoung g OR ZPointerMarkedOld g\<rparr>;
          g = g\<lparr>ZPointerStoreGoodMask := ZPointerMarkGoodMask g OR ZPointerRemembered g\<rparr>;
          g = g\<lparr>ZPointerLoadBadMask := ZPointerLoadGoodMask g XOR ZPointerLoadMetadataMask\<rparr>;
          g = g\<lparr>ZPointerMarkBadMask := ZPointerMarkGoodMask g XOR ZPointerMarkMetadataMask\<rparr>
      in g\<lparr>ZPointerStoreBadMask := ZPointerStoreGoodMask g XOR ZPointerStoreMetadataMask\<rparr>)"

text \<open>Static storage is zero before \<open>initialize\<close> runs.\<close>

definition zglobals_zero :: zglobals where
  "zglobals_zero = \<lparr>ZPointerRemapped = 0, ZPointerRemappedYoungMask = 0, ZPointerRemappedOldMask = 0,
     ZPointerMarkedYoung = 0, ZPointerMarkedOld = 0, ZPointerFinalizable = 0, ZPointerRemembered = 0,
     ZPointerLoadGoodMask = 0, ZPointerLoadBadMask = 0, ZPointerMarkGoodMask = 0,
     ZPointerMarkBadMask = 0, ZPointerStoreGoodMask = 0, ZPointerStoreBadMask = 0\<rparr>"

definition zglobals_initialize :: "(u64 \<Rightarrow> u64) \<Rightarrow> zglobals \<Rightarrow> zglobals" where
  "zglobals_initialize rb g = set_good_masks rb
     (g\<lparr>ZPointerRemappedYoungMask := ZPointerRemapped10 OR ZPointerRemapped00,
        ZPointerRemappedOldMask := ZPointerRemapped01 OR ZPointerRemapped00,
        ZPointerMarkedYoung := ZPointerMarkedYoung0,
        ZPointerMarkedOld := ZPointerMarkedOld0,
        ZPointerFinalizable := ZPointerFinalizable0,
        ZPointerRemembered := ZPointerRemembered0\<rparr>)"

definition flip_young_mark_start :: "(u64 \<Rightarrow> u64) \<Rightarrow> zglobals \<Rightarrow> zglobals" where
  "flip_young_mark_start rb g = set_good_masks rb
     (g\<lparr>ZPointerMarkedYoung := ZPointerMarkedYoung g XOR (ZPointerMarkedYoung0 OR ZPointerMarkedYoung1),
        ZPointerRemembered := ZPointerRemembered g XOR (ZPointerRemembered0 OR ZPointerRemembered1)\<rparr>)"

definition flip_young_relocate_start :: "(u64 \<Rightarrow> u64) \<Rightarrow> zglobals \<Rightarrow> zglobals" where
  "flip_young_relocate_start rb g = set_good_masks rb
     (g\<lparr>ZPointerRemappedYoungMask := ZPointerRemappedYoungMask g XOR ZPointerRemappedMask\<rparr>)"

definition flip_old_mark_start :: "(u64 \<Rightarrow> u64) \<Rightarrow> zglobals \<Rightarrow> zglobals" where
  "flip_old_mark_start rb g = set_good_masks rb
     (g\<lparr>ZPointerMarkedOld := ZPointerMarkedOld g XOR (ZPointerMarkedOld0 OR ZPointerMarkedOld1),
        ZPointerFinalizable := ZPointerFinalizable g XOR (ZPointerFinalizable0 OR ZPointerFinalizable1)\<rparr>)"

definition flip_old_relocate_start :: "(u64 \<Rightarrow> u64) \<Rightarrow> zglobals \<Rightarrow> zglobals" where
  "flip_old_relocate_start rb g = set_good_masks rb
     (g\<lparr>ZPointerRemappedOldMask := ZPointerRemappedOldMask g XOR ZPointerRemappedMask\<rparr>)"

lemmas flip_defs = zglobals_initialize_def flip_young_mark_start_def flip_young_relocate_start_def
  flip_old_mark_start_def flip_old_relocate_start_def set_good_masks_def Let_def

text \<open>The states the virtual machine goes through.\<close>

inductive zglobals_reachable :: "(u64 \<Rightarrow> u64) \<Rightarrow> zglobals \<Rightarrow> bool" for rb where
  init: "zglobals_reachable rb (zglobals_initialize rb zglobals_zero)"
| young_mark: "zglobals_reachable rb g \<Longrightarrow> zglobals_reachable rb (flip_young_mark_start rb g)"
| young_relocate: "zglobals_reachable rb g \<Longrightarrow> zglobals_reachable rb (flip_young_relocate_start rb g)"
| old_mark: "zglobals_reachable rb g \<Longrightarrow> zglobals_reachable rb (flip_old_mark_start rb g)"
| old_relocate: "zglobals_reachable rb g \<Longrightarrow> zglobals_reachable rb (flip_old_relocate_start rb g)"

subsection \<open>Predicates on coloured pointers\<close>

definition is_null_any :: "u64 \<Rightarrow> bool" where
  "is_null_any ptr \<longleftrightarrow> ptr AND NOT ZPointerAllMetadataMask = 0"

definition is_load_bad :: "zglobals \<Rightarrow> u64 \<Rightarrow> bool" where
  "is_load_bad g ptr \<longleftrightarrow> ptr AND ZPointerLoadBadMask g \<noteq> 0"

definition is_load_good :: "zglobals \<Rightarrow> u64 \<Rightarrow> bool" where
  "is_load_good g ptr \<longleftrightarrow> \<not> is_load_bad g ptr \<and> ptr \<noteq> 0"

definition is_load_good_or_null :: "zglobals \<Rightarrow> u64 \<Rightarrow> bool" where
  "is_load_good_or_null g ptr \<longleftrightarrow> \<not> is_load_bad g ptr"

definition is_young_load_good :: "(u64 \<Rightarrow> u64) \<Rightarrow> zglobals \<Rightarrow> u64 \<Rightarrow> bool" where
  "is_young_load_good rb g ptr \<longleftrightarrow> rb ptr AND ZPointerRemappedYoungMask g \<noteq> 0"

definition is_old_load_good :: "(u64 \<Rightarrow> u64) \<Rightarrow> zglobals \<Rightarrow> u64 \<Rightarrow> bool" where
  "is_old_load_good rb g ptr \<longleftrightarrow> rb ptr AND ZPointerRemappedOldMask g \<noteq> 0"

definition is_mark_bad :: "zglobals \<Rightarrow> u64 \<Rightarrow> bool" where
  "is_mark_bad g ptr \<longleftrightarrow> ptr AND ZPointerMarkBadMask g \<noteq> 0"

definition is_mark_good :: "zglobals \<Rightarrow> u64 \<Rightarrow> bool" where
  "is_mark_good g ptr \<longleftrightarrow> \<not> is_mark_bad g ptr \<and> ptr \<noteq> 0"

definition is_mark_good_or_null :: "zglobals \<Rightarrow> u64 \<Rightarrow> bool" where
  "is_mark_good_or_null g ptr \<longleftrightarrow> \<not> is_mark_bad g ptr"

definition is_store_bad :: "zglobals \<Rightarrow> u64 \<Rightarrow> bool" where
  "is_store_bad g ptr \<longleftrightarrow> ptr AND ZPointerStoreBadMask g \<noteq> 0"

definition is_store_good :: "zglobals \<Rightarrow> u64 \<Rightarrow> bool" where
  "is_store_good g ptr \<longleftrightarrow> \<not> is_store_bad g ptr \<and> ptr \<noteq> 0"

definition is_store_good_or_null :: "zglobals \<Rightarrow> u64 \<Rightarrow> bool" where
  "is_store_good_or_null g ptr \<longleftrightarrow> \<not> is_store_bad g ptr"

definition is_marked_finalizable :: "zglobals \<Rightarrow> u64 \<Rightarrow> bool" where
  "is_marked_finalizable g ptr \<longleftrightarrow> ptr AND ZPointerFinalizable g \<noteq> 0"

definition is_marked_old :: "zglobals \<Rightarrow> u64 \<Rightarrow> bool" where
  "is_marked_old g ptr \<longleftrightarrow> ptr AND ZPointerMarkedOld g \<noteq> 0"

definition is_marked_young :: "zglobals \<Rightarrow> u64 \<Rightarrow> bool" where
  "is_marked_young g ptr \<longleftrightarrow> ptr AND ZPointerMarkedYoung g \<noteq> 0"

definition is_marked_any_old :: "zglobals \<Rightarrow> u64 \<Rightarrow> bool" where
  "is_marked_any_old g ptr \<longleftrightarrow> ptr AND (ZPointerMarkedOld g OR ZPointerFinalizable g) \<noteq> 0"

definition is_remapped :: "(u64 \<Rightarrow> u64) \<Rightarrow> zglobals \<Rightarrow> u64 \<Rightarrow> bool" where
  "is_remapped rb g ptr \<longleftrightarrow> rb ptr AND ZPointerRemapped g \<noteq> 0"

definition is_remembered_exact :: "zglobals \<Rightarrow> u64 \<Rightarrow> bool" where
  "is_remembered_exact g ptr \<longleftrightarrow> ptr AND ZPointerRemembered g = ZPointerRemembered g"

definition set_remset_bits :: "u64 \<Rightarrow> u64" where
  "set_remset_bits ptr = ptr OR (ZPointerRemembered0 OR ZPointerRemembered1)"

definition load_shift_lookup_index :: "u64 \<Rightarrow> nat" where
  "load_shift_lookup_index v =
     unat (drop_bit ZPointerRemappedShift v AND (push_bit ZPointerRemappedBits 1 - 1))"

subsection \<open>Colouring and uncolouring\<close>

definition uncolor :: "(u64 \<Rightarrow> nat) \<Rightarrow> u64 \<Rightarrow> u64" where
  "uncolor lsl ptr = drop_bit (lsl ptr) ptr"

definition color :: "(u64 \<Rightarrow> nat) \<Rightarrow> u64 \<Rightarrow> u64 \<Rightarrow> u64" where
  "color lsl addr c = push_bit (lsl c) addr OR c"

definition color_null :: "(u64 \<Rightarrow> nat) \<Rightarrow> zglobals \<Rightarrow> u64" where
  "color_null lsl g = color lsl 0 (ZPointerStoreGoodMask g OR ZPointerRememberedMask)"

definition z_load_good :: "(u64 \<Rightarrow> nat) \<Rightarrow> zglobals \<Rightarrow> u64 \<Rightarrow> u64 \<Rightarrow> u64" where
  "z_load_good lsl g addr prev =
     (if is_null_any prev then color_null lsl g
      else let non_load_bits_mask = ZPointerLoadMetadataMask XOR ZPointerAllMetadataMask;
               non_load_prev_bits = prev AND non_load_bits_mask
           in color lsl addr (ZPointerLoadGoodMask g OR non_load_prev_bits OR ZPointerRememberedMask))"

definition z_finalizable_good :: "(u64 \<Rightarrow> nat) \<Rightarrow> zglobals \<Rightarrow> u64 \<Rightarrow> u64 \<Rightarrow> u64" where
  "z_finalizable_good lsl g addr prev =
     (if is_null_any prev then color_null lsl g
      else let non_mark_bits_mask = ZPointerMarkMetadataMask XOR ZPointerAllMetadataMask;
               non_mark_prev_bits = prev AND non_mark_bits_mask
           in color lsl addr (ZPointerLoadGoodMask g OR ZPointerMarkedYoung g OR ZPointerFinalizable g
                OR non_mark_prev_bits OR ZPointerRememberedMask))"

definition z_mark_good :: "(u64 \<Rightarrow> nat) \<Rightarrow> zglobals \<Rightarrow> u64 \<Rightarrow> u64 \<Rightarrow> u64" where
  "z_mark_good lsl g addr prev =
     (if is_null_any prev then color_null lsl g
      else let non_mark_bits_mask = ZPointerMarkMetadataMask XOR ZPointerAllMetadataMask;
               non_mark_prev_bits = prev AND non_mark_bits_mask
           in color lsl addr (ZPointerLoadGoodMask g OR ZPointerMarkedYoung g OR ZPointerMarkedOld g
                OR non_mark_prev_bits OR ZPointerRememberedMask))"

definition z_mark_old_good :: "(u64 \<Rightarrow> nat) \<Rightarrow> zglobals \<Rightarrow> u64 \<Rightarrow> u64 \<Rightarrow> u64" where
  "z_mark_old_good lsl g addr prev =
     (if is_null_any prev then color_null lsl g
      else let young_marked_mask = ZPointerMarkedYoung0 OR ZPointerMarkedYoung1;
               young_marked = prev AND young_marked_mask
           in color lsl addr (ZPointerLoadGoodMask g OR ZPointerMarkedOld g OR young_marked
                OR ZPointerRememberedMask))"

definition z_mark_young_good :: "(u64 \<Rightarrow> nat) \<Rightarrow> zglobals \<Rightarrow> u64 \<Rightarrow> u64 \<Rightarrow> u64" where
  "z_mark_young_good lsl g addr prev =
     (if is_null_any prev then color_null lsl g
      else let old_marked_mask = ZPointerMarkedMask XOR (ZPointerMarkedYoung0 OR ZPointerMarkedYoung1);
               old_marked = prev AND old_marked_mask
           in color lsl addr (ZPointerLoadGoodMask g OR ZPointerMarkedYoung g OR old_marked
                OR ZPointerRememberedMask))"

definition z_store_good :: "(u64 \<Rightarrow> nat) \<Rightarrow> zglobals \<Rightarrow> u64 \<Rightarrow> u64" where
  "z_store_good lsl g addr = color lsl addr (ZPointerStoreGoodMask g)"

definition z_store_good_or_null :: "(u64 \<Rightarrow> nat) \<Rightarrow> zglobals \<Rightarrow> u64 \<Rightarrow> u64" where
  "z_store_good_or_null lsl g addr = (if addr = 0 then 0 else z_store_good lsl g addr)"

text \<open>Addresses and offsets, relative to the heap base and the offset mask.\<close>

definition zoffset_address :: "u64 \<Rightarrow> u64 \<Rightarrow> u64" where
  "zoffset_address ZAddressHeapBase offset = offset OR ZAddressHeapBase"

definition zaddress_offset :: "u64 \<Rightarrow> u64 \<Rightarrow> u64" where
  "zaddress_offset ZAddressOffsetMask addr = addr AND ZAddressOffsetMask"

definition zaddress_is_valid :: "u64 \<Rightarrow> u64 \<Rightarrow> u64 \<Rightarrow> bool" where
  "zaddress_is_valid ZAddressHeapBase ZAddressOffsetMax addr \<longleftrightarrow>
     addr = 0 \<or>
     addr AND 7 = 0 \<and> addr AND ZAddressHeapBase \<noteq> 0 \<and> addr < ZAddressHeapBase + ZAddressOffsetMax"

subsection \<open>The masks as numbers\<close>

lemma z_masks:
  "ZPointerRememberedMask = 0x30" "ZPointerRemembered0 = 0x10" "ZPointerRemembered1 = 0x20"
  "ZPointerMarkedMask = 0xFC0" "ZPointerFinalizable0 = 0x40" "ZPointerFinalizable1 = 0x80"
  "ZPointerMarkedYoung0 = 0x100" "ZPointerMarkedYoung1 = 0x200" "ZPointerMarkedOld0 = 0x400"
  "ZPointerMarkedOld1 = 0x800" "ZPointerRemappedMask = 0xF000" "ZPointerRemapped00 = 0x1000"
  "ZPointerRemapped01 = 0x2000" "ZPointerRemapped10 = 0x4000" "ZPointerRemapped11 = 0x8000"
  "ZPointerLoadMetadataMask = 0xF000" "ZPointerMarkMetadataMask = 0xFFC0"
  "ZPointerStoreMetadataMask = 0xFFF0" "ZPointerAllMetadataMask = 0xFFF0"
  by (simp_all add: z_mask_defs)

text \<open>What the documentation in \<open>zAddress.hpp\<close> says of the platform functions on x86.\<close>

definition remap_bits_masks :: "(u64 \<Rightarrow> u64) \<Rightarrow> bool" where
  "remap_bits_masks rb \<longleftrightarrow> (\<forall>c. rb c = c AND ZPointerRemappedMask)"

definition table_lookup :: "(u64 \<Rightarrow> nat) \<Rightarrow> bool" where
  "table_lookup lsl \<longleftrightarrow> (\<forall>v. load_shift_lookup_index v < 9 \<longrightarrow>
     lsl v = ZPointerLoadShiftTable ! load_shift_lookup_index v)"

text \<open>One of the sixteen epochs: which of the two young mark (and remembered) colours, old
  mark colours, young and old remap colours is current. The masks are written out: a good mask is the sum of
  the good bits, and a bad mask holds all other bits of the same kinds.\<close>

definition epoch_globals :: "bool \<Rightarrow> bool \<Rightarrow> bool \<Rightarrow> bool \<Rightarrow> zglobals" where
  "epoch_globals ym om yr olr =
     (let remapped = (if yr then if olr then 0x8000 else 0x2000 else if olr then 0x4000 else 0x1000);
          marked_young = (if ym then 0x200 else 0x100);
          marked_old = (if om then 0x800 else 0x400);
          remembered = (if ym then 0x20 else 0x10)
      in \<lparr>ZPointerRemapped = remapped,
          ZPointerRemappedYoungMask = (if yr then 0xA000 else 0x5000),
          ZPointerRemappedOldMask = (if olr then 0xC000 else 0x3000),
          ZPointerMarkedYoung = marked_young,
          ZPointerMarkedOld = marked_old,
          ZPointerFinalizable = (if om then 0x80 else 0x40),
          ZPointerRemembered = remembered,
          ZPointerLoadGoodMask = remapped,
          ZPointerLoadBadMask = 0xF000 - remapped,
          ZPointerMarkGoodMask = remapped + marked_old + marked_young,
          ZPointerMarkBadMask = 0xFFC0 - (remapped + marked_old + marked_young),
          ZPointerStoreGoodMask = remapped + marked_old + marked_young + remembered,
          ZPointerStoreBadMask = 0xFFF0 - (remapped + marked_old + marked_young + remembered)\<rparr>)"

lemma epoch_step:
  assumes "remap_bits_masks rb"
  shows "zglobals_initialize rb zglobals_zero = epoch_globals False False False False"
    "flip_young_mark_start rb (epoch_globals a b c d) = epoch_globals (\<not> a) b c d"
    "flip_young_relocate_start rb (epoch_globals a b c d) = epoch_globals a b (\<not> c) d"
    "flip_old_mark_start rb (epoch_globals a b c d) = epoch_globals a (\<not> b) c d"
    "flip_old_relocate_start rb (epoch_globals a b c d) = epoch_globals a b c (\<not> d)"
proof -
  note d = flip_defs epoch_globals_def zglobals_zero_def remap_bits_masks_def z_masks
  show "zglobals_initialize rb zglobals_zero = epoch_globals False False False False"
    using assms by (simp add: d)
  show "flip_young_mark_start rb (epoch_globals a b c d) = epoch_globals (\<not> a) b c d"
    using assms by (cases a; cases b; cases c; cases d; simp add: d)
  show "flip_young_relocate_start rb (epoch_globals a b c d) = epoch_globals a b (\<not> c) d"
    using assms by (cases a; cases b; cases c; cases d; simp add: d)
  show "flip_old_mark_start rb (epoch_globals a b c d) = epoch_globals a (\<not> b) c d"
    using assms by (cases a; cases b; cases c; cases d; simp add: d)
  show "flip_old_relocate_start rb (epoch_globals a b c d) = epoch_globals a b c (\<not> d)"
    using assms by (cases a; cases b; cases c; cases d; simp add: d)
qed

lemma epoch_masks:
  "ZPointerLoadGoodMask (epoch_globals a b c d) =
     (if c then if d then 0x8000 else 0x2000 else if d then 0x4000 else 0x1000)"
  "ZPointerLoadBadMask (epoch_globals a b c d) =
     (if c then if d then 0x7000 else 0xD000 else if d then 0xB000 else 0xE000)"
  "ZPointerMarkedYoung (epoch_globals a b c d) = (if a then 0x200 else 0x100)"
  "ZPointerMarkedOld (epoch_globals a b c d) = (if b then 0x800 else 0x400)"
  "ZPointerFinalizable (epoch_globals a b c d) = (if b then 0x80 else 0x40)"
  "ZPointerRemembered (epoch_globals a b c d) = (if a then 0x20 else 0x10)"
  "ZPointerRemappedYoungMask (epoch_globals a b c d) = (if c then 0xA000 else 0x5000)"
  "ZPointerRemappedOldMask (epoch_globals a b c d) = (if d then 0xC000 else 0x3000)"
  "ZPointerRemapped (epoch_globals a b c d) = ZPointerLoadGoodMask (epoch_globals a b c d)"
  "ZPointerMarkGoodMask (epoch_globals a b c d) = ZPointerLoadGoodMask (epoch_globals a b c d)
     OR ZPointerMarkedYoung (epoch_globals a b c d) OR ZPointerMarkedOld (epoch_globals a b c d)"
  "ZPointerStoreGoodMask (epoch_globals a b c d) = ZPointerMarkGoodMask (epoch_globals a b c d)
     OR ZPointerRemembered (epoch_globals a b c d)"
  "ZPointerMarkBadMask (epoch_globals a b c d) = ZPointerMarkGoodMask (epoch_globals a b c d) XOR 0xFFC0"
  "ZPointerStoreBadMask (epoch_globals a b c d) = ZPointerStoreGoodMask (epoch_globals a b c d) XOR 0xFFF0"
  by (simp_all add: epoch_globals_def Let_def)

lemma reachable_epoch:
  assumes "zglobals_reachable rb g" "remap_bits_masks rb"
  shows "\<exists>a b c d. g = epoch_globals a b c d"
  using assms(1)
proof (induction rule: zglobals_reachable.induct)
  case init
  show ?case using epoch_step(1) [OF assms(2)] by blast
qed (use epoch_step [OF assms(2)] in blast)+

text \<open>C37. From initialisation on, the global masks are always those of one of the sixteen epochs: the load, mark
  and store good masks consist of exactly the bits that the current remap colour, the current mark colours and the
  current remembered bit give, and the bad masks of exactly the other bits of the same kinds; and each flip changes
  exactly the colour its name says.\<close>

theorem globals_follow_epochs:
  assumes "zglobals_reachable rb g" "remap_bits_masks rb"
  shows "\<exists>ym om yr olr. g = epoch_globals ym om yr olr
    \<and> flip_young_mark_start rb g = epoch_globals (\<not> ym) om yr olr
    \<and> flip_old_mark_start rb g = epoch_globals ym (\<not> om) yr olr
    \<and> flip_young_relocate_start rb g = epoch_globals ym om (\<not> yr) olr
    \<and> flip_old_relocate_start rb g = epoch_globals ym om yr (\<not> olr)"
  using reachable_epoch [OF assms] epoch_step [OF assms(2)] by blast

lemma remap_bits_masks_and: "remap_bits_masks (\<lambda>c. c AND ZPointerRemappedMask)"
  by (simp add: remap_bits_masks_def)

theorem globals_follow_epochs_witness:
  "\<exists>ym om yr olr. zglobals_initialize (\<lambda>c. c AND ZPointerRemappedMask) zglobals_zero
     = epoch_globals ym om yr olr"
  using globals_follow_epochs [OF zglobals_reachable.init remap_bits_masks_and] by blast

lemma and_zero_mono:
  assumes "(p :: u64) AND m = 0" "m AND n = n"
  shows "p AND n = 0"
proof -
  have "p AND n = (p AND m) AND n" by (simp only: and.assoc assms(2))
  then show ?thesis by (simp only: assms(1)) simp
qed

lemma bad_masks_nested:
  "ZPointerStoreBadMask (epoch_globals a b c d) AND ZPointerMarkBadMask (epoch_globals a b c d)
     = ZPointerMarkBadMask (epoch_globals a b c d)"
  "ZPointerMarkBadMask (epoch_globals a b c d) AND ZPointerLoadBadMask (epoch_globals a b c d)
     = ZPointerLoadBadMask (epoch_globals a b c d)"
  by (simp_all add: epoch_masks)

text \<open>The barriers are nested: in every epoch a store good pointer is mark good, and a mark
  good pointer is load good.\<close>

theorem good_colours_nested:
  assumes "zglobals_reachable rb g" "remap_bits_masks rb"
  shows "(is_store_good g p \<longrightarrow> is_mark_good g p) \<and> (is_mark_good g p \<longrightarrow> is_load_good g p)"
proof -
  obtain a b c d where g: "g = epoch_globals a b c d" using reachable_epoch [OF assms] by blast
  show ?thesis
    using and_zero_mono [OF _ bad_masks_nested(1)] and_zero_mono [OF _ bad_masks_nested(2)]
    by (auto simp: g is_store_good_def is_store_bad_def is_mark_good_def is_mark_bad_def
        is_load_good_def is_load_bad_def)
qed

theorem good_colours_nested_witness:
  "is_load_good (epoch_globals False False False False) 0x1510"
proof -
  have r: "zglobals_reachable (\<lambda>c. c AND ZPointerRemappedMask) (epoch_globals False False False False)"
    using zglobals_reachable.init epoch_step(1) [OF remap_bits_masks_and] by metis
  have "is_store_good (epoch_globals False False False False) 0x1510"
    by (simp add: is_store_good_def is_store_bad_def epoch_masks)
  with good_colours_nested [OF r remap_bits_masks_and, of "0x1510"] show ?thesis by blast
qed

text \<open>Starting a relocation phase of either generation makes every pointer that was load good
  load bad, so the first load of it takes the slow path.\<close>

theorem relocate_start_invalidates:
  assumes "zglobals_reachable rb g" "remap_bits_masks rb" "is_remapped rb g p"
  shows "is_load_bad (flip_young_relocate_start rb g) p \<and> is_load_bad (flip_old_relocate_start rb g) p"
proof -
  obtain a b c d where g: "g = epoch_globals a b c d" using reachable_epoch [OF assms(1,2)] by blast
  let ?m = "ZPointerLoadGoodMask g"
  have "ZPointerRemapped g = ?m" unfolding g by (rule epoch_masks)
  then have "p AND (ZPointerRemappedMask AND ?m) \<noteq> 0"
    using assms(2,3) by (simp only: is_remapped_def remap_bits_masks_def and.assoc simp_thms)
  moreover have "ZPointerRemappedMask AND ?m = ?m" by (simp add: g epoch_masks z_masks)
  ultimately have nz: "p AND ?m \<noteq> 0" by simp
  have y: "ZPointerLoadBadMask (flip_young_relocate_start rb g) AND ?m = ?m"
    and old: "ZPointerLoadBadMask (flip_old_relocate_start rb g) AND ?m = ?m"
    by (simp_all add: g epoch_step [OF assms(2)] epoch_masks)
  show ?thesis
    using nz and_zero_mono [OF _ y, of p] and_zero_mono [OF _ old, of p] by (auto simp: is_load_bad_def)
qed

theorem relocate_start_invalidates_witness:
  "is_load_bad (flip_young_relocate_start (\<lambda>c. c AND ZPointerRemappedMask)
     (zglobals_initialize (\<lambda>c. c AND ZPointerRemappedMask) zglobals_zero)) 0x8001510"
proof -
  have "is_remapped (\<lambda>c. c AND ZPointerRemappedMask)
      (zglobals_initialize (\<lambda>c. c AND ZPointerRemappedMask) zglobals_zero) 0x8001510"
    unfolding epoch_step(1) [OF remap_bits_masks_and] by (simp add: is_remapped_def epoch_masks z_masks)
  from relocate_start_invalidates [OF zglobals_reachable.init remap_bits_masks_and this]
  show ?thesis by blast
qed

subsection \<open>Colouring round trips\<close>

text \<open>A well formed colour: one remapped bit and, below it, mark and remembered bits.\<close>

definition colour_ok :: "nat \<Rightarrow> u64 \<Rightarrow> bool" where
  "colour_ok i c \<longleftrightarrow> i < 4 \<and> c AND NOT 0xFFF = push_bit (12 + i) 1"

definition heap_address :: "u64 \<Rightarrow> bool" where
  "heap_address a \<longleftrightarrow> a AND 7 = 0 \<and> unat a < 2 ^ 48"

lemma mask12: "(0xFFF :: u64) = mask 12" and mask16: "(0xFFFF :: u64) = mask 16"
  and mask3: "(7 :: u64) = mask 3" and mask4: "(15 :: u64) = mask 4"
  by (simp_all add: mask_eq_exp_minus_1)

lemma colour_ok_bit:
  assumes "colour_ok i c" "12 \<le> n"
  shows "bit c n \<longleftrightarrow> n = 12 + i"
proof -
  have "bit (c AND NOT (mask 12)) n \<longleftrightarrow> bit (push_bit (12 + i) 1 :: u64) n"
    using assms(1) by (simp only: colour_ok_def mask12)
  then show ?thesis
    using assms by (auto simp: bit_and_iff bit_not_iff bit_mask_iff bit_push_bit_iff bit_1_iff
        bit_exp_iff colour_ok_def dest: bit_imp_le_length)
qed

lemma heap_address_bit:
  assumes "heap_address a" "bit a n"
  shows "3 \<le> n \<and> n < 48"
proof
  show "3 \<le> n"
  proof (rule ccontr)
    assume "\<not> 3 \<le> n"
    then have "bit (a AND mask 3) n" using assms(2) by (simp add: bit_and_iff bit_mask_iff)
    then show False using assms(1) by (simp add: heap_address_def mask3)
  qed
  have "take_bit 48 a = a" using assms(1) by (simp add: heap_address_def word_unat_eq_iff unat_take_bit_mod)
  then have "bit (take_bit 48 a) n" using assms(2) by simp
  then show "n < 48" by (simp add: bit_take_bit_iff)
qed

lemma lookup_index_bits:
  assumes "\<And>n. 12 \<le> n \<Longrightarrow> n < 16 \<Longrightarrow> bit v n \<longleftrightarrow> n = 12 + i" "i < 4"
  shows "load_shift_lookup_index v = 2 ^ i"
proof -
  have "drop_bit 12 v AND mask 4 = push_bit i 1"
  proof (rule bit_word_eqI)
    fix n assume "n < LENGTH(64)"
    show "bit (drop_bit 12 v AND mask 4) n = bit (push_bit i 1 :: u64) n"
      using assms(1) [of "12 + n"] assms(2)
      by (auto simp: bit_and_iff bit_drop_bit_eq bit_mask_iff bit_exp_iff)
  qed
  then have "load_shift_lookup_index v = unat (2 ^ i :: u64)"
    by (simp add: load_shift_lookup_index_def z_mask_defs mask4)
  then show ?thesis using assms(2) by (simp add: unat_pow2)
qed

lemma table_lookup_pow2:
  assumes "table_lookup lsl" "load_shift_lookup_index v = 2 ^ i" "i < 4"
  shows "lsl v = 13 + i"
proof -
  have "i = 0 \<or> i = 1 \<or> i = 2 \<or> i = 3" using assms(3) by linarith
  then show ?thesis
    using assms(1,2) by (auto simp: table_lookup_def ZPointerLoadShiftTable_def z_mask_defs)
qed

lemma colour_shift:
  "table_lookup lsl \<Longrightarrow> colour_ok i c \<Longrightarrow> lsl c = 13 + i"
  by (rule table_lookup_pow2, assumption, rule lookup_index_bits)
    (auto simp: colour_ok_bit colour_ok_def)

lemma bit_color:
  assumes "table_lookup lsl" "colour_ok i c" "heap_address a"
  shows "bit (color lsl a c) n \<longleftrightarrow> (16 + i \<le> n \<and> bit a (n - (13 + i))) \<or> bit c n"
proof -
  have "13 + i \<le> n \<and> bit a (n - (13 + i)) \<longleftrightarrow> 16 + i \<le> n \<and> bit a (n - (13 + i))"
    using heap_address_bit [OF assms(3), of "n - (13 + i)"] by auto
  moreover have "bit a (n - (13 + i)) \<Longrightarrow> n < 64"
    using heap_address_bit [OF assms(3), of "n - (13 + i)"] assms(2) by (auto simp: colour_ok_def)
  ultimately show ?thesis
    by (auto simp: color_def colour_shift [OF assms(1,2)] bit_or_iff bit_push_bit_iff)
qed

lemma color_shift:
  assumes "table_lookup lsl" "colour_ok i c" "heap_address a"
  shows "lsl (color lsl a c) = 13 + i"
proof (rule table_lookup_pow2 [OF assms(1)])
  show "load_shift_lookup_index (color lsl a c) = 2 ^ i"
    by (rule lookup_index_bits)
      (use assms in \<open>auto simp: bit_color [OF assms] colour_ok_bit [OF assms(2)] colour_ok_def\<close>)
  show "i < 4" using assms(2) by (simp add: colour_ok_def)
qed

lemma uncolor_color:
  assumes "table_lookup lsl" "colour_ok i c" "heap_address a"
  shows "uncolor lsl (color lsl a c) = a"
proof (rule bit_word_eqI)
  fix n assume "n < LENGTH(64)"
  have "bit a n \<Longrightarrow> 3 \<le> n" using heap_address_bit [OF assms(3)] by blast
  then show "bit (uncolor lsl (color lsl a c)) n = bit a n"
    by (auto simp: uncolor_def color_shift [OF assms] bit_drop_bit_eq bit_color [OF assms]
        colour_ok_bit [OF assms(2)])
qed

lemma color_and_metadata:
  assumes "table_lookup lsl" "colour_ok i c" "heap_address a" "m AND NOT 0xFFFF = 0"
  shows "color lsl a c AND m = c AND m"
proof (rule bit_word_eqI)
  fix n assume "n < LENGTH(64)"
  have "bit m n \<Longrightarrow> n < 16"
  proof (rule ccontr)
    assume "bit m n" "\<not> n < 16"
    then have "bit (m AND NOT (mask 16)) n"
      using \<open>n < LENGTH(64)\<close> by (simp add: bit_and_iff bit_not_iff bit_mask_iff)
    then show False using assms(4) by (simp add: mask16)
  qed
  then show "bit (color lsl a c AND m) n = bit (c AND m) n"
    by (auto simp: bit_and_iff bit_color [OF assms(1-3)])
qed

lemma color_nonzero:
  assumes "table_lookup lsl" "colour_ok i c" "heap_address a"
  shows "color lsl a c \<noteq> 0"
proof
  assume "color lsl a c = 0"
  then have "\<not> bit (color lsl a c) (12 + i)" by simp
  then show False using bit_color [OF assms, of "12 + i"] colour_ok_bit [OF assms(2), of "12 + i"] by simp
qed

lemma store_good_colour_ok:
  "\<exists>i. colour_ok i (ZPointerStoreGoodMask (epoch_globals a b c d))"
  by (cases c; cases d; cases a; cases b)
    (auto simp: epoch_masks colour_ok_def intro: exI [of _ 0] exI [of _ 1] exI [of _ 2] exI [of _ 3])

text \<open>C38. The colour a store barrier gives an address is store good in the current epoch, and
  removing it gives the address back.\<close>

theorem store_good_roundtrip:
  assumes "zglobals_reachable rb g" "remap_bits_masks rb" "table_lookup lsl" "heap_address addr"
  shows "is_store_good g (z_store_good lsl g addr) \<and> uncolor lsl (z_store_good lsl g addr) = addr"
proof -
  obtain a b c d where g: "g = epoch_globals a b c d" using reachable_epoch [OF assms(1,2)] by blast
  obtain i where i: "colour_ok i (ZPointerStoreGoodMask g)" using store_good_colour_ok g by blast
  have m: "ZPointerStoreBadMask g AND NOT 0xFFFF = 0" by (simp add: g epoch_masks)
  have "z_store_good lsl g addr AND ZPointerStoreBadMask g
      = ZPointerStoreGoodMask g AND ZPointerStoreBadMask g"
    unfolding z_store_good_def by (rule color_and_metadata [OF assms(3) i assms(4) m])
  also have "\<dots> = 0" by (simp add: g epoch_masks)
  finally show ?thesis
    using color_nonzero [OF assms(3) i assms(4)] uncolor_color [OF assms(3) i assms(4)]
    by (simp add: is_store_good_def is_store_bad_def z_store_good_def)
qed

definition x86_load_shift :: "u64 \<Rightarrow> nat" where
  "x86_load_shift v = (if load_shift_lookup_index v < 9
     then ZPointerLoadShiftTable ! load_shift_lookup_index v else 0)"

lemma table_lookup_x86: "table_lookup x86_load_shift"
  by (simp add: table_lookup_def x86_load_shift_def)

theorem store_good_roundtrip_witness:
  "uncolor x86_load_shift (z_store_good x86_load_shift
     (zglobals_initialize (\<lambda>c. c AND ZPointerRemappedMask) zglobals_zero) 0x40000000010) = 0x40000000010"
  using store_good_roundtrip [OF zglobals_reachable.init remap_bits_masks_and table_lookup_x86,
    of "0x40000000010"] by (simp add: heap_address_def)

end
