(* ===== verification/Bit_Utils.thy ===== *)
theory Bit_Utils
  imports Zgc_Prelude
begin

text \<open>
  The bit tricks the allocators share: \<open>TLSFUtil.inline.hpp\<close>, \<open>JSMallocUtil.inline.hpp\<close>
  (whose alignment and logarithm functions are the same code) and the bitmap part of
  \<open>buddy_helper.hpp\<close>. \<open>size_t\<close> and \<open>uintptr_t\<close> are \<open>64 word\<close>, a byte array is a list
  of \<open>8 word\<close>. The two compiler builtins are written out from their documentation.
\<close>

subsection \<open>Compiler builtins\<close>

fun ctz_nat :: "nat \<Rightarrow> nat" where
  "ctz_nat n = (if n = 0 \<or> odd n then 0 else Suc (ctz_nat (n div 2)))"

declare ctz_nat.simps [simp del]

definition builtin_clzl :: "u64 \<Rightarrow> nat" where
  "builtin_clzl x = 64 - floorlog 2 (unat x)"

definition builtin_ffsl :: "u64 \<Rightarrow> nat" where
  "builtin_ffsl x = (if x = 0 then 0 else Suc (ctz_nat (unat x)))"

subsection \<open>TLSFUtil and JSMallocUtil\<close>

definition is_aligned :: "u64 \<Rightarrow> u64 \<Rightarrow> bool" where
  "is_aligned sz alignment \<longleftrightarrow> sz AND (alignment - 1) = 0"

definition align_up :: "u64 \<Rightarrow> u64 \<Rightarrow> u64" where
  "align_up sz alignment = (sz + (alignment - 1)) AND NOT (alignment - 1)"

definition align_down :: "u64 \<Rightarrow> u64 \<Rightarrow> u64" where
  "align_down sz alignment = sz - (sz AND (alignment - 1))"

definition util_ffs :: "u64 \<Rightarrow> u64" where
  "util_ffs number = word_of_nat (builtin_ffsl number) - 1"

definition util_fls :: "u64 \<Rightarrow> u64" where
  "util_fls number = 64 - word_of_nat (builtin_clzl number)"

definition util_ilog2 :: "u64 \<Rightarrow> u64" where
  "util_ilog2 number = util_fls number - 1"

definition get_bits :: "u64 \<Rightarrow> bool \<Rightarrow> u32" where
  "get_bits value lower = (if lower then ucast (value AND 0xFFFFFFFF) else ucast (drop_bit 32 value))"

text \<open>A pointer is its address, \<open>nullptr\<close> is 0.\<close>

definition from_offset :: "u64 \<Rightarrow> bool \<Rightarrow> u64 \<Rightarrow> u64" where
  "from_offset base lower value =
     (let offset = get_bits value lower
      in if offset = 0xFFFFFFFF then 0 else base + ucast offset)"

definition set_offset :: "bool \<Rightarrow> u32 \<Rightarrow> u64 \<Rightarrow> u64" where
  "set_offset lower offset value =
     (if lower then (value AND 0xFFFFFFFF00000000) OR ucast offset
      else push_bit 32 (ucast offset) OR (value AND 0xFFFFFFFF))"

definition combine_halfwords :: "u32 \<Rightarrow> u32 \<Rightarrow> u64" where
  "combine_halfwords upper lower = push_bit 32 (ucast upper) OR ucast lower"

lemma low_half_mask: "(0xFFFFFFFF :: u64) = mask 32"
  by (simp add: mask_eq_exp_minus_1)

lemma high_half_mask: "(0xFFFFFFFF00000000 :: u64) = NOT (mask 32)"
  by (simp add: mask_eq_exp_minus_1)

lemma bit_get_bits:
  "bit (get_bits v lower) n \<longleftrightarrow> n < 32 \<and> bit v (if lower then n else n + 32)"
  by (auto simp: get_bits_def bit_ucast_iff low_half_mask bit_and_iff bit_mask_iff bit_drop_bit_eq
      add.commute)

lemma bit_set_offset:
  "bit (set_offset lower off v) n \<longleftrightarrow> n < 64 \<and>
     (if lower then (if n < 32 then bit off n else bit v n)
      else (if n < 32 then bit v n else bit off (n - 32)))"
  by (auto simp: set_offset_def low_half_mask high_half_mask bit_or_iff bit_and_iff bit_not_iff
      bit_mask_iff bit_ucast_iff bit_push_bit_iff dest: bit_imp_le_length)

lemma get_bits_set_offset:
  "get_bits (set_offset lower off v) lower' = (if lower = lower' then off else get_bits v lower')"
  by (rule bit_word_eqI) (auto simp: bit_get_bits bit_set_offset)

lemma get_bits_combine:
  "get_bits (combine_halfwords up lo) lower = (if lower then lo else up)"
  by (rule bit_word_eqI)
    (auto simp: bit_get_bits combine_halfwords_def bit_or_iff bit_push_bit_iff bit_ucast_iff
      dest: bit_imp_le_length)

subsection \<open>Alignment\<close>

lemma unat_and_not_mask: "unat (x AND NOT (mask k) :: 'a::len word) = unat x div 2 ^ k * 2 ^ k"
proof -
  have "x AND NOT (mask k) = push_bit k (drop_bit k x)"
    by (rule bit_word_eqI) (auto simp: bit_and_iff bit_not_iff bit_mask_iff bit_push_bit_iff
        bit_drop_bit_eq)
  moreover have "unat x div 2 ^ k * 2 ^ k < 2 ^ LENGTH('a)"
    using div_mult_pow2_le [of "unat x" k] unat_lt_exp [of x] by linarith
  moreover have "unat (push_bit k (drop_bit k x)) = take_bit LENGTH('a) (unat x div 2 ^ k * 2 ^ k)"
    unfolding unsigned_push_bit_eq unat_drop_bit_eq by (simp add: push_bit_eq_mult drop_bit_eq_div)
  ultimately show ?thesis by (simp add: take_bit_nat_eq_self)
qed

lemma unat_align_up:
  assumes "k < 64" "unat s + 2 ^ k - 1 < 18446744073709551616"
  shows "unat (align_up s (2 ^ k)) = (unat s + 2 ^ k - 1) div 2 ^ k * 2 ^ k"
proof -
  have m: "unat (mask k :: u64) = 2 ^ k - 1"
    using assms(1) by (simp add: unat_mask)
  have "unat (s + mask k) = unat s + (2 ^ k - 1)"
    using assms by (subst unat_add_no_wrap) (simp_all add: m)
  then show ?thesis
    by (simp add: align_up_def word_mask_eq unat_and_not_mask)
qed

lemma unat_align_down:
  assumes "k < 64"
  shows "unat (align_down s (2 ^ k)) = unat s div 2 ^ k * 2 ^ k"
proof -
  have "unat (take_bit k s) = unat s mod 2 ^ k" by (rule unat_take_bit_mod)
  then have "unat (s - take_bit k s) = unat s - unat s mod 2 ^ k"
    by (subst unat_sub) (simp_all add: word_le_nat_alt)
  also have "\<dots> = unat s div 2 ^ k * 2 ^ k" by (simp add: minus_mod_eq_div_mult)
  finally show ?thesis by (simp add: align_down_def word_mask_eq flip: take_bit_eq_mask)
qed

lemma is_aligned_iff: "is_aligned s (2 ^ k) \<longleftrightarrow> 2 ^ k dvd unat s"
proof -
  have "s AND mask k = 0 \<longleftrightarrow> unat (take_bit k s) = 0"
    by (simp add: take_bit_eq_mask unat_eq_0)
  also have "\<dots> \<longleftrightarrow> 2 ^ k dvd unat s" by (simp add: unat_take_bit_mod dvd_eq_mod_eq_0)
  finally show ?thesis by (simp add: is_aligned_def word_mask_eq)
qed

text \<open>\<open>align_up\<close> returns the least multiple of the alignment that is not below its argument.\<close>

lemma align_up_least:
  assumes "k < 64" "unat s + 2 ^ k - 1 < 18446744073709551616"
  shows "is_aligned (align_up s (2 ^ k)) (2 ^ k) \<and> s \<le> align_up s (2 ^ k)
    \<and> (\<forall>t. s \<le> t \<and> is_aligned t (2 ^ k) \<longrightarrow> align_up s (2 ^ k) \<le> t)"
proof -
  let ?n = "unat s" and ?p = "(2::nat) ^ k"
  have e: "unat (align_up s (2 ^ k)) = (?n + ?p - 1) div ?p * ?p" by (rule unat_align_up [OF assms])
  have lo: "?n \<le> (?n + ?p - 1) div ?p * ?p"
    using less_div_mult_pow2 [of "?n + ?p - 1" k] by (simp add: less_eq_Suc_le)
  have hi: "(?n + ?p - 1) div ?p * ?p \<le> m" if "?n \<le> m" "?p dvd m" for m
  proof -
    from that(2) obtain c where c: "m = ?p * c" by auto
    have "?n + ?p - 1 < m + ?p" using that(1) zero_less_power [of "2::nat" k] by linarith
    then have "?n + ?p - 1 < Suc c * ?p" by (simp add: c mult.commute)
    then have "(?n + ?p - 1) div ?p < Suc c" by (simp add: div_less_iff_less_mult)
    then show ?thesis using c by (simp add: less_Suc_eq_le)
  qed
  show ?thesis using lo hi by (auto simp: is_aligned_iff e word_le_nat_alt)
qed

subsection \<open>Logarithms and first set bits\<close>

lemma floorlog_le_64: "floorlog 2 (unat (x :: u64)) \<le> 64"
  using unsigned_less [of x] by (simp add: floorlog_le_iff)

lemma floorlog_pos: "0 < n \<Longrightarrow> 0 < floorlog 2 n"
  using floorlog_eq_zero_iff [of 2 n] by linarith

lemma unat_util_ilog2:
  assumes "x \<noteq> 0"
  shows "unat (util_ilog2 x) = floorlog 2 (unat x) - 1"
proof -
  let ?f = "floorlog 2 (unat x)"
  have p: "0 < ?f" using assms by (intro floorlog_pos) (simp add: unat_gt_0)
  have l: "?f \<le> 64" by (rule floorlog_le_64)
  have "util_fls x = word_of_nat ?f"
    using l by (simp add: util_fls_def builtin_clzl_def of_nat_diff)
  moreover have "(word_of_nat ?f :: u64) - 1 = word_of_nat (?f - 1)"
    using p by (simp add: of_nat_diff)
  ultimately have "util_ilog2 x = word_of_nat (?f - 1)" by (simp add: util_ilog2_def)
  moreover have "?f - 1 < 2 ^ 64" using l by (simp add: le_less_trans)
  ultimately show ?thesis by (simp add: unat_of_nat_small)
qed

lemma ilog2_bounds:
  assumes "x \<noteq> 0"
  shows "2 ^ unat (util_ilog2 x) \<le> unat x" "unat x < 2 * 2 ^ unat (util_ilog2 x)"
proof -
  have g: "0 < unat x" using assms by (simp add: unat_gt_0)
  have "0 < floorlog 2 (unat x)" using floorlog_pos [OF g] .
  then have "(2::nat) * 2 ^ (floorlog 2 (unat x) - 1) = 2 ^ floorlog 2 (unat x)"
    by (simp flip: power_Suc)
  then show "2 ^ unat (util_ilog2 x) \<le> unat x" "unat x < 2 * 2 ^ unat (util_ilog2 x)"
    using floorlog_bounds [OF g, of 2] by (simp_all add: unat_util_ilog2 [OF assms])
qed

lemma ilog2_unique:
  assumes "2 ^ e \<le> unat x" "unat x < 2 * 2 ^ e"
  shows "unat (util_ilog2 x) = e"
proof -
  have nz: "x \<noteq> 0" using assms(1) by (auto simp: unat_eq_0)
  have b: "2 ^ unat (util_ilog2 x) < (2::nat) ^ Suc e" "(2::nat) ^ e < 2 ^ Suc (unat (util_ilog2 x))"
    using ilog2_bounds [OF nz] assms by (auto intro: le_less_trans)
  show ?thesis
    using power_less_imp_less_exp [OF _ b(1)] power_less_imp_less_exp [OF _ b(2)] by simp
qed

lemma ctz_nat_bit: "n \<noteq> 0 \<Longrightarrow> bit n (ctz_nat n) \<and> (\<forall>i < ctz_nat n. \<not> bit n i)"
proof (induction n rule: ctz_nat.induct)
  case (1 n)
  show ?case
  proof (cases "odd n")
    case True
    then show ?thesis by (simp add: ctz_nat.simps [of n] bit_0)
  next
    case False
    then have nz: "n div 2 \<noteq> 0" using "1.prems" by auto
    have IH: "bit (n div 2) (ctz_nat (n div 2)) \<and> (\<forall>i < ctz_nat (n div 2). \<not> bit (n div 2) i)"
      using "1.IH" False "1.prems" nz by simp
    have "\<not> bit n i" if "i < Suc (ctz_nat (n div 2))" for i
      using that IH False by (cases i) (auto simp: bit_0 bit_Suc)
    then show ?thesis using IH False "1.prems" by (simp add: ctz_nat.simps [of n] bit_Suc)
  qed
qed

lemma util_ffs_bit:
  assumes "x \<noteq> 0"
  shows "bit x (unat (util_ffs x))" "\<And>i. i < unat (util_ffs x) \<Longrightarrow> \<not> bit x i"
    "unat (util_ffs x) < 64"
proof -
  let ?c = "ctz_nat (unat x)"
  have nz: "unat x \<noteq> 0" using assms by (simp add: unat_eq_0)
  have b: "bit x ?c" "\<And>i. i < ?c \<Longrightarrow> \<not> bit x i"
    using ctz_nat_bit [OF nz] by (auto simp: bit_unsigned_iff dest: bit_imp_le_length)
  have l: "?c < 64" using bit_imp_le_length [OF b(1)] by simp
  have "util_ffs x = word_of_nat ?c"
    using assms by (simp add: util_ffs_def builtin_ffsl_def)
  then have e: "unat (util_ffs x) = ?c" using l by (simp add: unat_of_nat_small)
  show "bit x (unat (util_ffs x))" "\<And>i. i < unat (util_ffs x) \<Longrightarrow> \<not> bit x i"
    "unat (util_ffs x) < 64" using b l by (simp_all add: e)
qed

subsection \<open>BuddyHelper: bitmaps\<close>

definition bit_is_set :: "u8 list \<Rightarrow> nat \<Rightarrow> bool" where
  "bit_is_set bitmap index \<longleftrightarrow> bitmap ! (index div 8) AND push_bit (index mod 8) 1 \<noteq> 0"

definition bh_set_bit :: "u8 list \<Rightarrow> nat \<Rightarrow> u8 list" where
  "bh_set_bit bitmap index =
     bitmap[index div 8 := bitmap ! (index div 8) OR push_bit (index mod 8) 1]"

definition bh_clear_bit :: "u8 list \<Rightarrow> nat \<Rightarrow> u8 list" where
  "bh_clear_bit bitmap index =
     bitmap[index div 8 := bitmap ! (index div 8) AND NOT (push_bit (index mod 8) 1)]"

definition bh_flip_bit :: "u8 list \<Rightarrow> nat \<Rightarrow> u8 list" where
  "bh_flip_bit bitmap index =
     bitmap[index div 8 := bitmap ! (index div 8) XOR push_bit (index mod 8) 1]"

lemma bit_is_set_bit: "bit_is_set bm i \<longleftrightarrow> bit (bm ! (i div 8)) (i mod 8)"
  by (simp add: bit_is_set_def bit_iff_and_push_bit_not_eq_0)

lemma div_mod_8_eq: "(i::nat) div 8 = j div 8 \<Longrightarrow> i mod 8 = j mod 8 \<Longrightarrow> i = j"
  by (metis div_mult_mod_eq)

lemma bm_length [simp]:
  "length (bh_set_bit bm i) = length bm" "length (bh_clear_bit bm i) = length bm"
  "length (bh_flip_bit bm i) = length bm"
  by (simp_all add: bh_set_bit_def bh_clear_bit_def bh_flip_bit_def)

lemma bit_is_set_set:
  "i div 8 < length bm \<Longrightarrow> bit_is_set (bh_set_bit bm i) j \<longleftrightarrow> j = i \<or> bit_is_set bm j"
  by (cases "j div 8 = i div 8")
    (auto simp: bit_is_set_bit bh_set_bit_def bit_or_iff bit_push_bit_iff bit_exp_iff
      dest: div_mod_8_eq)

lemma bit_is_set_clear:
  "i div 8 < length bm \<Longrightarrow> bit_is_set (bh_clear_bit bm i) j \<longleftrightarrow> j \<noteq> i \<and> bit_is_set bm j"
  by (cases "j div 8 = i div 8")
    (auto simp: bit_is_set_bit bh_clear_bit_def bit_and_iff bit_not_iff bit_push_bit_iff bit_exp_iff
      dest: div_mod_8_eq)

lemma bit_is_set_flip:
  "i div 8 < length bm \<Longrightarrow> bit_is_set (bh_flip_bit bm i) j \<longleftrightarrow> (j = i) \<noteq> bit_is_set bm j"
  by (cases "j div 8 = i div 8")
    (auto simp: bit_is_set_bit bh_flip_bit_def bit_xor_iff bit_push_bit_iff bit_exp_iff
      dest: div_mod_8_eq)

lemmas bitmap_simps = bit_is_set_set bit_is_set_clear bit_is_set_flip

subsection \<open>BuddyHelper: rounding up to a power of two\<close>

definition round_up_pow2 :: "u64 \<Rightarrow> u64" where
  "round_up_pow2 sz =
     (if sz = 0 then 1
      else let sz = sz - 1;
               sz = sz OR drop_bit 1 sz;
               sz = sz OR drop_bit 2 sz;
               sz = sz OR drop_bit 4 sz;
               sz = sz OR drop_bit 8 sz;
               sz = sz OR drop_bit 16 sz
           in sz + 1)"

lemma bit_smear_step:
  assumes "\<And>n. bit (y :: u64) n \<longleftrightarrow> (\<exists>j<w. bit x (n + j))"
  shows "bit (y OR drop_bit w y) n \<longleftrightarrow> (\<exists>j<w + w. bit x (n + j))"
proof -
  have "(\<exists>j<w. bit x (n + j)) \<or> (\<exists>j<w. bit x (w + n + j)) \<longleftrightarrow> (\<exists>j<w + w. bit x (n + j))" (is "?L \<longleftrightarrow> ?R")
  proof
    assume ?L
    then show ?R
    proof
      assume "\<exists>j<w. bit x (w + n + j)"
      then obtain j where "j < w" "bit x (n + (w + j))" by (auto simp: ac_simps)
      then show ?R by (intro exI [of _ "w + j"]) simp
    qed (auto intro: trans_less_add1)
  next
    assume ?R
    then obtain j where j: "j < w + w" "bit x (n + j)" by blast
    show ?L
    proof (cases "j < w")
      case False
      then have "bit x (w + n + (j - w))" "j - w < w" using j by simp_all
      then show ?thesis by blast
    qed (use j in blast)
  qed
  then show ?thesis by (simp add: bit_or_iff bit_drop_bit_eq assms)
qed

lemma bit_smear:
  fixes x :: u64
  defines "a \<equiv> x OR drop_bit 1 x"
  defines "b \<equiv> a OR drop_bit 2 a"
  defines "c \<equiv> b OR drop_bit 4 b"
  defines "d \<equiv> c OR drop_bit 8 c"
  shows "bit (d OR drop_bit 16 d) n \<longleftrightarrow> (\<exists>j<32. bit x (n + j))"
proof -
  have 0: "bit x n \<longleftrightarrow> (\<exists>j<1. bit x (n + j))" for n by simp
  have 1: "bit a n \<longleftrightarrow> (\<exists>j<2. bit x (n + j))" for n
    unfolding a_def using bit_smear_step [of x 1 x n, OF 0] by (simp only: one_add_one)
  have 2: "bit b n \<longleftrightarrow> (\<exists>j<4. bit x (n + j))" for n
    unfolding b_def using bit_smear_step [of a 2 x n, OF 1] by simp
  have 3: "bit c n \<longleftrightarrow> (\<exists>j<8. bit x (n + j))" for n
    unfolding c_def using bit_smear_step [of b 4 x n, OF 2] by simp
  have 4: "bit d n \<longleftrightarrow> (\<exists>j<16. bit x (n + j))" for n
    unfolding d_def using bit_smear_step [of c 8 x n, OF 3] by simp
  show ?thesis using bit_smear_step [of d 16 x n, OF 4] by simp
qed

lemma high_bit_below:
  fixes x :: u64
  assumes "unat x < 2 ^ e"
  shows "bit x n \<Longrightarrow> n < e"
proof (rule ccontr)
  assume b: "bit x n" and "\<not> n < e"
  have "n < 64" using bit_imp_le_length [OF b] by simp
  have "take_bit e x = x"
    using assms by (simp add: word_unat_eq_iff unat_take_bit_mod)
  then have "bit (take_bit e x) n" using b by simp
  with \<open>\<not> n < e\<close> show False by (simp add: bit_take_bit_iff)
qed

lemma smear_mask:
  fixes x :: u64
  assumes "2 ^ e \<le> unat x" "unat x < 2 * 2 ^ e" "e < 32"
  shows "(\<exists>j<32. bit x (n + j)) \<longleftrightarrow> n \<le> e"
proof -
  have x2: "unat x < 2 ^ Suc e" using assms(2) by simp
  have be: "bit x e"
  proof (rule ccontr)
    assume ne: "\<not> bit x e"
    have "x = take_bit e x"
    proof (rule bit_word_eqI)
      fix n assume "n < LENGTH(64)"
      show "bit x n = bit (take_bit e x) n"
        using high_bit_below [OF x2, of n] ne by (auto simp: bit_take_bit_iff less_Suc_eq)
    qed
    then have "unat x = unat x mod 2 ^ e" by (metis unat_take_bit_mod)
    also have "\<dots> < 2 ^ e" by simp
    finally show False using assms(1) by simp
  qed
  show ?thesis
  proof
    assume "\<exists>j<32. bit x (n + j)"
    then obtain j where "bit x (n + j)" by blast
    from high_bit_below [OF x2 this] show "n \<le> e" by simp
  next
    assume "n \<le> e"
    then have "bit x (n + (e - n))" "e - n < 32" using be assms(3) by simp_all
    then show "\<exists>j<32. bit x (n + j)" by blast
  qed
qed

lemma unat_round_up_pow2:
  assumes "2 ^ e < unat sz" "unat sz \<le> 2 * 2 ^ e" "e < 32"
  shows "unat (round_up_pow2 sz) = 2 * 2 ^ e"
proof -
  have nz: "sz \<noteq> 0" using assms(1) by (auto simp: unat_eq_0)
  have u1: "unat (sz - 1) = unat sz - 1"
    using nz by (subst unat_sub) (simp_all add: word_le_nat_alt Suc_le_eq unat_gt_0)
  define a where "a = (sz - 1) OR drop_bit 1 (sz - 1)"
  define b where "b = a OR drop_bit 2 a"
  define c where "c = b OR drop_bit 4 b"
  define d where "d = c OR drop_bit 8 c"
  have eq: "d OR drop_bit 16 d = mask (Suc e)"
  proof (rule bit_word_eqI)
    fix n assume "n < LENGTH(64)"
    have "bit (d OR drop_bit 16 d) n \<longleftrightarrow> (\<exists>j<32. bit (sz - 1) (n + j))"
      unfolding d_def c_def b_def a_def by (rule bit_smear)
    also have "\<dots> \<longleftrightarrow> n \<le> e" by (rule smear_mask) (use assms in \<open>auto simp: u1\<close>)
    finally show "bit (d OR drop_bit 16 d) n = bit (mask (Suc e) :: u64) n"
      using \<open>n < LENGTH(64)\<close> by (auto simp: bit_mask_iff)
  qed
  have "round_up_pow2 sz = (d OR drop_bit 16 d) + 1"
    using nz by (simp add: round_up_pow2_def Let_def a_def b_def c_def d_def)
  also have "\<dots> = 2 ^ Suc e"
    by (simp only: eq word_mask_eq [symmetric]) simp
  finally show ?thesis
    using assms(3) by (simp only:) (subst unat_pow2, simp_all)
qed

lemma round_up_pow2_small: "round_up_pow2 0 = 1" "round_up_pow2 1 = 1"
  by (simp_all add: round_up_pow2_def)

text \<open>For sizes up to four gigabytes \<open>round_up_pow2\<close> returns the least power of two that is
  not below its argument.\<close>

lemma round_up_pow2_least:
  assumes "unat sz \<le> 2 ^ 32"
  shows "\<exists>e. unat (round_up_pow2 sz) = 2 ^ e \<and> unat sz \<le> 2 ^ e \<and> (\<forall>f. unat sz \<le> 2 ^ f \<longrightarrow> e \<le> f)"
proof (cases "unat sz \<le> 1")
  case True
  then have "unat sz = unat (0 :: u64) \<or> unat sz = unat (1 :: u64)" by (simp add: le_Suc_eq)
  then have "sz = 0 \<or> sz = 1" by (simp only: word_unat_eq_iff)
  then show ?thesis using round_up_pow2_small by (intro exI [of _ 0]) auto
next
  case False
  let ?e = "floorlog 2 (unat sz - 1) - 1"
  have p: "0 < unat sz - 1" using False by simp
  have "0 < floorlog 2 (unat sz - 1)" by (rule floorlog_pos [OF p])
  then have s: "(2::nat) ^ floorlog 2 (unat sz - 1) = 2 * 2 ^ ?e" by (simp flip: power_Suc)
  have b: "2 ^ ?e < unat sz" "unat sz \<le> 2 * 2 ^ ?e"
    using floorlog_bounds [OF p, of 2] s by linarith+
  have "(2::nat) ^ ?e < 2 ^ 32" using b(1) assms by linarith
  then have e: "?e < 32" by (rule power_less_imp_less_exp [rotated]) simp
  show ?thesis
  proof (intro exI [of _ "Suc ?e"] conjI allI impI)
    fix f assume "unat sz \<le> 2 ^ f"
    then have "(2::nat) ^ ?e < 2 ^ f" using b(1) by linarith
    then show "Suc ?e \<le> f" by (simp add: Suc_le_eq)
  qed (use unat_round_up_pow2 [OF b e] b in simp_all)
qed

end
