(* ===== verification/Buddy_Links.thy ===== *)
theory Buddy_Links
  imports Linked_Store
begin

text \<open>
  The intrusive free lists of the buddy allocators: \<open>double_link\<close> and the list half of
  \<open>BuddyHelper\<close> in \<open>buddy_helper.hpp\<close>. The store maps a link's address to its two
  fields, each statement of the source is one store update, in the order of the source.
  The locale \<open>free_list_store\<close> is the interface the allocators rely on: a family of
  lists named by their sentinels, with a representation predicate.
\<close>

subsection \<open>The operations\<close>

definition list_empty :: "'p links \<Rightarrow> 'p \<Rightarrow> bool" where
  "list_empty s head \<longleftrightarrow> lnext s head = head"

definition list_remove :: "'p links \<Rightarrow> 'p \<Rightarrow> 'p links" where
  "list_remove s node =
     (let s = set_next (lprev s node) (lnext s node) s;
          s = set_prev (lnext s node) (lprev s node) s;
          s = set_prev node node s
      in set_next node node s)"

definition push_back :: "'p links \<Rightarrow> 'p \<Rightarrow> 'p \<Rightarrow> 'p links" where
  "push_back s head node =
     (let s = set_prev node (lprev s head) s;
          s = set_next node head s;
          s = set_next (lprev s head) node s
      in set_prev head node s)"

definition pop_first :: "'p links \<Rightarrow> 'p \<Rightarrow> 'p option \<times> 'p links" where
  "pop_first s head =
     (if list_empty s head then (None, s)
      else let first = lnext s head;
               s = set_prev (lnext s first) head s;
               s = set_next head (lnext s first) s
           in (Some first, s))"

subsection \<open>Effect on one list\<close>

lemma push_back_eq:
  assumes "dll s h xs" "x \<notin> set (h # xs)"
  shows "push_back s h x = link_between (last (h # xs)) x h s"
proof -
  have l: "lprev s h = last (h # xs)" by (rule dll_last [OF assms(1)])
  have "last (h # xs) \<noteq> x" using assms(2) by (metis last_in_set list.distinct(1))
  moreover have "h \<noteq> x" using assms(2) by auto
  ultimately show ?thesis
    unfolding push_back_def Let_def link_between_def
    by (simp add: set_prev_def set_next_def l fun_upd_twist)
qed

lemma push_back_dll:
  "dll s h xs \<Longrightarrow> x \<notin> set (h # xs) \<Longrightarrow> dll (push_back s h x) h (xs @ [x])"
  using push_back_eq [of s h xs x] dll_between_end [of s h xs x] by simp

lemma dll_self_links:
  assumes "dll s h xs" "x \<notin> set (h # xs)"
  shows "dll (set_next x x (set_prev x x s)) h xs"
  using assms(1) by (rule dll_cong [THEN iffD2, rotated]) (use assms(2) in auto)

lemma list_remove_eq:
  assumes "dll s h (xs @ x # ys)"
  shows "list_remove s x =
    set_next x x (set_prev x x (unlink (last (h # xs)) (hd (ys @ [h])) s))"
proof -
  have d: "distinct (h # xs @ x # ys)" using assms by (simp add: dll_def)
  then have a: "last (h # xs) \<noteq> x" and b: "hd (ys @ [h]) \<noteq> x"
    by (cases xs rule: rev_cases; auto) (use d in \<open>cases ys; auto\<close>)
  show ?thesis
    using a b dll_neighbours [OF assms]
    by (simp add: list_remove_def Let_def unlink_def set_prev_def set_next_def del: last.simps)
qed

lemma list_remove_dll:
  assumes "dll s h (xs @ x # ys)"
  shows "dll (list_remove s x) h (xs @ ys)"
  using dll_self_links [OF dll_unlink [OF assms], of x] assms
  by (auto simp: list_remove_eq [OF assms] dll_def)

lemma pop_first_eq:
  assumes "dll s h (x # xs)"
  shows "pop_first s h = (Some x, unlink h (hd (xs @ [h])) s)"
proof -
  have n: "lnext s h = x" "lnext s x = hd (xs @ [h])" "h \<noteq> x"
    using assms dll_neighbours [of s h "[]" x xs] by (auto simp: dll_def)
  then show ?thesis
    by (simp add: pop_first_def list_empty_def Let_def unlink_def set_prev_def set_next_def)
qed

lemma pop_first_dll:
  assumes "dll s h (x # xs)"
  shows "dll (snd (pop_first s h)) h xs"
  using dll_unlink [of s h "[]" x xs] assms by (simp add: pop_first_eq [OF assms])

lemma list_empty_dll: "dll s h xs \<Longrightarrow> list_empty s h \<longleftrightarrow> xs = []"
  by (simp add: list_empty_def dll_next_head)

subsection \<open>A family of lists in one store\<close>

definition lists_rep :: "'p set \<Rightarrow> 'p links \<Rightarrow> ('p \<Rightarrow> 'p list) \<Rightarrow> bool" where
  "lists_rep H s L \<longleftrightarrow> (\<forall>h\<in>H. dll s h (L h))
     \<and> (\<forall>h\<in>H. \<forall>k\<in>H. h \<noteq> k \<longrightarrow> set (h # L h) \<inter> set (k # L k) = {})"

lemma unlink_other:
  "dll s k ys \<Longrightarrow> a \<notin> set (k # ys) \<Longrightarrow> b \<notin> set (k # ys) \<Longrightarrow> dll (unlink a b s) k ys"
  by (erule dll_cong [THEN iffD2, rotated]) (auto simp: unlink_def)

lemma between_other:
  "dll s k ys \<Longrightarrow> a \<notin> set (k # ys) \<Longrightarrow> b \<notin> set (k # ys) \<Longrightarrow> x \<notin> set (k # ys) \<Longrightarrow>
   dll (link_between a x b s) k ys"
  by (erule dll_cong [THEN iffD2, rotated]) (auto simp: link_between_def)

lemma lists_rep_dll: "lists_rep H s L \<Longrightarrow> h \<in> H \<Longrightarrow> dll s h (L h)"
  by (simp add: lists_rep_def)

lemma lists_rep_disjoint:
  "lists_rep H s L \<Longrightarrow> h \<in> H \<Longrightarrow> k \<in> H \<Longrightarrow> h \<noteq> k \<Longrightarrow> set (h # L h) \<inter> set (k # L k) = {}"
  by (simp add: lists_rep_def)

lemma lists_rep_update:
  assumes "lists_rep H s L" "h \<in> H" "dll t h xs" "set xs \<subseteq> insert n (set (L h))"
    and "\<And>k. k \<in> H \<Longrightarrow> k \<noteq> h \<Longrightarrow> dll t k (L k)"
    and "\<And>k. k \<in> H \<Longrightarrow> k \<noteq> h \<Longrightarrow> n \<notin> set (k # L k)"
  shows "lists_rep H t (L(h := xs))"
proof -
  have "set (h # xs) \<inter> set (k # L k) = {}" if k: "k \<in> H" "k \<noteq> h" for k
  proof -
    have "set (h # L h) \<inter> set (k # L k) = {}"
      using lists_rep_disjoint [OF assms(1,2) k(1)] k(2) by simp
    then show ?thesis using assms(4) assms(6) [OF k] by auto
  qed
  then show ?thesis
    using assms(1,3,5) unfolding lists_rep_def by (auto simp: Int_commute)
qed

lemma lists_rep_push:
  assumes r: "lists_rep H s L" and h: "h \<in> H" and x: "\<And>k. k \<in> H \<Longrightarrow> x \<notin> set (k # L k)"
  shows "lists_rep H (push_back s h x) (L(h := L h @ [x]))"
proof (rule lists_rep_update [OF r h, where n = x])
  have d: "dll s h (L h)" by (rule lists_rep_dll [OF r h])
  show "dll (push_back s h x) h (L h @ [x])" by (rule push_back_dll [OF d x [OF h]])
  have e: "push_back s h x = link_between (last (h # L h)) x h s" by (rule push_back_eq [OF d x [OF h]])
  have m: "last (h # L h) \<in> set (h # L h)" by (rule last_in_set) simp
  show "dll (push_back s h x) k (L k)" if k: "k \<in> H" "k \<noteq> h" for k
    unfolding e
    by (rule between_other [OF lists_rep_dll [OF r k(1)]])
      (use lists_rep_disjoint [OF r h k(1)] k(2) m x [OF k(1)] in auto)
qed (use x in auto)

lemma lists_rep_pop:
  assumes r: "lists_rep H s L" and h: "h \<in> H" and e: "L h = x # xs"
  shows "\<exists>t. pop_first s h = (Some x, t) \<and> lists_rep H t (L(h := xs))"
proof -
  have d: "dll s h (x # xs)" using lists_rep_dll [OF r h] e by simp
  let ?t = "unlink h (hd (xs @ [h])) s"
  have m: "hd (xs @ [h]) \<in> set (h # L h)" using e by (cases xs) auto
  have "lists_rep H ?t (L(h := xs))"
  proof (rule lists_rep_update [OF r h, where n = x])
    show "dll ?t h xs" using pop_first_dll [OF d] pop_first_eq [OF d] by simp
    show "dll ?t k (L k)" if k: "k \<in> H" "k \<noteq> h" for k
      by (rule unlink_other [OF lists_rep_dll [OF r k(1)]])
        (use lists_rep_disjoint [OF r h k(1)] k(2) m in auto)
    show "x \<notin> set (k # L k)" if "k \<in> H" "k \<noteq> h" for k
      using lists_rep_disjoint [OF r h that(1)] that(2) e by auto
  qed (use e in auto)
  then show ?thesis using pop_first_eq [OF d] by blast
qed

lemma lists_rep_remove:
  assumes r: "lists_rep H s L" and h: "h \<in> H" and x: "x \<in> set (L h)"
  shows "lists_rep H (list_remove s x) (L(h := remove1 x (L h)))"
proof -
  from x obtain xs ys where e: "L h = xs @ x # ys" by (meson split_list)
  have d: "dll s h (xs @ x # ys)" using lists_rep_dll [OF r h] e by simp
  have re: "remove1 x (L h) = xs @ ys" using d e by (auto simp: dll_def remove1_append)
  let ?a = "last (h # xs)" let ?b = "hd (ys @ [h])"
  have m: "?a \<in> set (h # L h)" "?b \<in> set (h # L h)"
    using e by (cases xs rule: rev_cases; auto) (use e in \<open>cases ys; auto\<close>)
  show ?thesis
  proof (rule lists_rep_update [OF r h, where n = x])
    show "dll (list_remove s x) h (remove1 x (L h))" using list_remove_dll [OF d] re by simp
    show xk: "x \<notin> set (k # L k)" if "k \<in> H" "k \<noteq> h" for k
      using lists_rep_disjoint [OF r h that(1)] that(2) x by auto
    show "dll (list_remove s x) k (L k)" if k: "k \<in> H" "k \<noteq> h" for k
      unfolding list_remove_eq [OF d]
      by (rule dll_self_links [OF unlink_other [OF lists_rep_dll [OF r k(1)]] xk [OF k]])
        (use lists_rep_disjoint [OF r h k(1)] k(2) m in auto)
  qed (auto dest: notin_set_remove1)
qed

subsection \<open>The interface of the free lists\<close>

locale free_list_store =
  fixes H :: "'p set"
    and rep :: "'s \<Rightarrow> ('p \<Rightarrow> 'p list) \<Rightarrow> bool"
    and empty_list :: "'s \<Rightarrow> 'p \<Rightarrow> bool"
    and push :: "'s \<Rightarrow> 'p \<Rightarrow> 'p \<Rightarrow> 's"
    and pop :: "'s \<Rightarrow> 'p \<Rightarrow> 'p option \<times> 's"
    and unlink_node :: "'s \<Rightarrow> 'p \<Rightarrow> 's"
  assumes empty_law: "rep s L \<Longrightarrow> h \<in> H \<Longrightarrow> empty_list s h \<longleftrightarrow> L h = []"
    and push_law: "rep s L \<Longrightarrow> h \<in> H \<Longrightarrow> (\<And>k. k \<in> H \<Longrightarrow> x \<notin> set (k # L k)) \<Longrightarrow>
      rep (push s h x) (L(h := L h @ [x]))"
    and pop_law: "rep s L \<Longrightarrow> h \<in> H \<Longrightarrow> L h = x # xs \<Longrightarrow>
      \<exists>t. pop s h = (Some x, t) \<and> rep t (L(h := xs))"
    and pop_empty_law: "rep s L \<Longrightarrow> h \<in> H \<Longrightarrow> L h = [] \<Longrightarrow> pop s h = (None, s)"
    and remove_law: "rep s L \<Longrightarrow> h \<in> H \<Longrightarrow> x \<in> set (L h) \<Longrightarrow>
      rep (unlink_node s x) (L(h := remove1 x (L h)))"
    and distinct_law: "rep s L \<Longrightarrow> h \<in> H \<Longrightarrow> distinct (h # L h)"
    and disjoint_law: "rep s L \<Longrightarrow> h \<in> H \<Longrightarrow> k \<in> H \<Longrightarrow> h \<noteq> k \<Longrightarrow>
      set (h # L h) \<inter> set (k # L k) = {}"
begin

lemma pop_cases:
  assumes "rep s L" "h \<in> H"
  obtains (none) "L h = []" "pop s h = (None, s)" "empty_list s h"
  | (some) x xs t where "L h = x # xs" "pop s h = (Some x, t)" "rep t (L(h := xs))" "\<not> empty_list s h"
proof (cases "L h")
  case Nil
  then show thesis using none pop_empty_law [OF assms] empty_law [OF assms] by simp
next
  case (Cons x xs)
  then show thesis using some pop_law [OF assms Cons] empty_law [OF assms] by auto
qed

lemma popped_is_unlinked:
  assumes "rep s L" "h \<in> H" "L h = x # xs" "k \<in> H"
  shows "x \<notin> set (k # (L(h := xs)) k)"
  using distinct_law [OF assms(1,2)] disjoint_law [OF assms(1,2,4)] assms(3) by auto

lemma removed_is_unlinked:
  assumes "rep s L" "h \<in> H" "x \<in> set (L h)" "k \<in> H"
  shows "x \<notin> set (k # (L(h := remove1 x (L h))) k)"
  using distinct_law [OF assms(1,2)] disjoint_law [OF assms(1,2,4)] assms(3) by auto

lemma pop_after_push:
  assumes "rep s L" "h \<in> H" "L h = []" "\<And>k. k \<in> H \<Longrightarrow> x \<notin> set (k # L k)"
  shows "fst (pop (push s h x) h) = Some x"
  using pop_law [OF push_law [OF assms(1,2,4)] assms(2), of x "[]"] assms(3) by auto

end

interpretation bl: free_list_store H "lists_rep H" list_empty push_back pop_first list_remove
  for H :: "'p set"
proof unfold_locales
  fix s :: "'p links" and L h k x xs
  assume r: "lists_rep H s L" and h: "h \<in> H"
  show "list_empty s h \<longleftrightarrow> L h = []" by (rule list_empty_dll [OF lists_rep_dll [OF r h]])
  then show "L h = [] \<Longrightarrow> pop_first s h = (None, s)" by (simp add: pop_first_def)
  show "distinct (h # L h)" using lists_rep_dll [OF r h] by (simp add: dll_def)
qed (blast intro: lists_rep_push lists_rep_pop lists_rep_remove dest: lists_rep_disjoint)+

end
