(* ===== verification/Buddy_Base.thy ===== *)
theory Buddy_Base
  imports Bit_Utils Buddy_Links
begin

text \<open>
  The base class of the buddy allocators: \<open>buddy_config.hpp\<close>, \<open>buddy_allocator.hpp\<close> and
  \<open>buddy_allocator.cpp\<close>. The template parameter \<open>Config\<close> is a record argument, the
  object a record; the two virtual functions \<open>allocate_internal\<close> and
  \<open>deallocate_internal\<close> are function arguments of the operations that call them. The
  record is extensible, so the subclasses add their fields and reuse every operation.

  Addresses, levels and block indices are natural numbers with the conversions to
  \<open>uint8_t\<close>, \<open>unsigned int\<close> and \<open>uintptr_t\<close> written out. Bitmaps are byte lists.
  Links live in a store indexed by \<open>link_ptr\<close>: the sentinels inside the object and the
  links written into free blocks. A mutex matters only through \<open>try_lock\<close>; the argument
  \<open>contended\<close> says which locks another thread holds at that moment.
\<close>

subsection \<open>BuddyConfig\<close>

record buddy_config =
  minBlockSizeLog2 :: nat
  maxBlockSizeLog2 :: nat
  numRegions :: nat
  useSizeMap :: bool
  sizeBits :: nat

definition minBlockSize :: "buddy_config \<Rightarrow> nat" where
  "minBlockSize c = w32 (2 ^ minBlockSizeLog2 c)"

definition maxBlockSize :: "buddy_config \<Rightarrow> nat" where
  "maxBlockSize c = w32 (2 ^ maxBlockSizeLog2 c)"

definition numLevels :: "buddy_config \<Rightarrow> nat" where
  "numLevels c = w8 (maxBlockSizeLog2 c - minBlockSizeLog2 c + 1)"

definition allocedBitmapSize :: "buddy_config \<Rightarrow> nat" where
  "allocedBitmapSize c = w32 (2 ^ numLevels c) div 8"

definition sizeBitmapSize :: "buddy_config \<Rightarrow> nat" where
  "sizeBitmapSize c =
     (if \<not> useSizeMap c then 0
      else if sizeBits c = 0 then w32 (2 ^ (numLevels c - 1)) div 8
      else sizeBits c * maxBlockSize c div minBlockSize c div 8)"

definition ZConfig :: buddy_config where
  "ZConfig = \<lparr>minBlockSizeLog2 = 4, maxBlockSizeLog2 = 18, numRegions = 8, useSizeMap = True, sizeBits = 4\<rparr>"

definition SmallSingleConfig :: buddy_config where
  "SmallSingleConfig =
     \<lparr>minBlockSizeLog2 = 4, maxBlockSizeLog2 = 8, numRegions = 1, useSizeMap = True, sizeBits = 0\<rparr>"

definition SmallDoubleConfig :: buddy_config where
  "SmallDoubleConfig =
     \<lparr>minBlockSizeLog2 = 4, maxBlockSizeLog2 = 8, numRegions = 2, useSizeMap = True, sizeBits = 4\<rparr>"

definition LargeQuadConfig :: buddy_config where
  "LargeQuadConfig =
     \<lparr>minBlockSizeLog2 = 4, maxBlockSizeLog2 = 21, numRegions = 4, useSizeMap = True, sizeBits = 0\<rparr>"

definition MallocConfig :: buddy_config where
  "MallocConfig =
     \<lparr>minBlockSizeLog2 = 4, maxBlockSizeLog2 = 26, numRegions = 16, useSizeMap = True, sizeBits = 0\<rparr>"

lemmas config_defs = ZConfig_def SmallSingleConfig_def SmallDoubleConfig_def LargeQuadConfig_def
  MallocConfig_def

text \<open>The static assertions of the constructor.\<close>

definition config_asserts :: "buddy_config \<Rightarrow> bool" where
  "config_asserts c \<longleftrightarrow> 0 < numLevels c \<and> 4 \<le> minBlockSizeLog2 c
     \<and> minBlockSizeLog2 c < maxBlockSizeLog2 c
     \<and> (sizeBits c = 0 \<or> sizeBits c = 4 \<or> sizeBits c = 8)
     \<and> \<not> (sizeBits c = 4 \<and> maxBlockSizeLog2 c - minBlockSizeLog2 c > 16)"

subsection \<open>The object\<close>

datatype link_ptr = FreeHead nat nat | LazyHead nat | Block nat

datatype buddy_lock = RegionLock nat | LazyLock nat

record buddy =
  bstart :: nat
  freeSizes :: "nat list"
  topLevel :: "nat list"
  sizeMap :: "u8 list list"
  freeBlocks :: "u8 list list"
  blinks :: "link_ptr links"
  lazyThresholds :: "nat list"
  lazyListSize :: "nat list"

definition rup2 :: "nat \<Rightarrow> nat" where
  "rup2 n = unat (round_up_pow2 (word_of_nat n))"

subsection \<open>Geometry\<close>

text \<open>\<open>region << n\<close> promotes a \<open>uint8_t\<close> to \<open>int\<close>, so the shift keeps 32 bits, and the sign is
  extended when the result is added to a \<open>uintptr_t\<close>: from bit 31 on it is no longer the product.\<close>

definition int_shl :: "nat \<Rightarrow> nat \<Rightarrow> nat" where
  "int_shl a n = (let v = w32 (a * 2 ^ n) in if v < 2147483648 then v else v + 18446744069414584320)"

definition region_start :: "buddy_config \<Rightarrow> ('a) buddy_scheme \<Rightarrow> nat \<Rightarrow> nat" where
  "region_start c s region = w64 (bstart s + int_shl region (maxBlockSizeLog2 c))"

definition size_of_level :: "buddy_config \<Rightarrow> nat \<Rightarrow> nat" where
  "size_of_level c level = maxBlockSize c div 2 ^ level"

definition index_in_level :: "buddy_config \<Rightarrow> ('a) buddy_scheme \<Rightarrow> nat \<Rightarrow> nat \<Rightarrow> nat \<Rightarrow> nat" where
  "index_in_level c s ptr region level =
     w32 (sub64 ptr (region_start c s region) div 2 ^ (numLevels c + minBlockSizeLog2 c - level - 1))"

definition index_of_level :: "nat \<Rightarrow> nat" where
  "index_of_level level = 2 ^ level - 1"

definition level_of_index :: "nat \<Rightarrow> nat" where
  "level_of_index index = 31 - (32 - floorlog 2 (w32 (index + 1)))"

definition block_index :: "buddy_config \<Rightarrow> ('a) buddy_scheme \<Rightarrow> nat \<Rightarrow> nat \<Rightarrow> nat \<Rightarrow> nat" where
  "block_index c s ptr region level =
     w32 (index_of_level level + index_in_level c s ptr region level)"

definition buddy_index :: "buddy_config \<Rightarrow> ('a) buddy_scheme \<Rightarrow> nat \<Rightarrow> nat \<Rightarrow> nat \<Rightarrow> nat" where
  "buddy_index c s ptr region level =
     (let block_idx = block_index c s ptr region level
      in if block_idx mod 2 = 0 then sub32 block_idx 1 else w32 (block_idx + 1))"

definition get_region :: "buddy_config \<Rightarrow> ('a) buddy_scheme \<Rightarrow> nat \<Rightarrow> nat" where
  "get_region c s ptr = w8 (sub64 ptr (bstart s) div 2 ^ maxBlockSizeLog2 c)"

definition num_blocks :: "buddy_config \<Rightarrow> nat \<Rightarrow> nat \<Rightarrow> nat" where
  "num_blocks c sz level = w32 (rup2 sz div size_of_level c level)"

definition get_buddy :: "buddy_config \<Rightarrow> ('a) buddy_scheme \<Rightarrow> nat \<Rightarrow> nat \<Rightarrow> nat" where
  "get_buddy c s ptr level =
     (if level = 0 then ptr
      else let region = get_region c s ptr;
               buddy_idx = buddy_index c s ptr region level
           in w64 (region_start c s region
                + w32 (size_of_level c level * sub32 buddy_idx (index_of_level level))))"

definition align_left :: "buddy_config \<Rightarrow> ('a) buddy_scheme \<Rightarrow> nat \<Rightarrow> nat \<Rightarrow> nat" where
  "align_left c s ptr level =
     (let region = get_region c s ptr
      in w64 (region_start c s region
           + w32 (size_of_level c level * index_in_level c s ptr region level)))"

fun count_shifts :: "nat \<Rightarrow> nat" where
  "count_shifts n = (if n div 2 = 0 then 0 else Suc (count_shifts (n div 2)))"

declare count_shifts.simps [simp del]

definition get_address :: "buddy_config \<Rightarrow> ('a) buddy_scheme \<Rightarrow> nat \<Rightarrow> nat \<Rightarrow> nat" where
  "get_address c s region blockIndex =
     (let level = count_shifts (w32 (blockIndex + 1))
      in w64 (region_start c s region
           + w32 (sub32 blockIndex (index_of_level level) * size_of_level c level)))"

text \<open>The loop of \<open>find_smallest_block_level\<close> runs \<open>n\<close> more times; -1 becomes 255.\<close>

fun find_level_loop :: "buddy_config \<Rightarrow> nat \<Rightarrow> nat \<Rightarrow> nat \<Rightarrow> nat" where
  "find_level_loop c sz 0 i = 255"
| "find_level_loop c sz (Suc n) i =
     (if sz \<le> w32 (2 ^ i) then w8 (maxBlockSizeLog2 c - i) else find_level_loop c sz n (i + 1))"

definition find_smallest_block_level :: "buddy_config \<Rightarrow> nat \<Rightarrow> nat" where
  "find_smallest_block_level c sz =
     find_level_loop c sz (maxBlockSizeLog2 c + 1 - minBlockSizeLog2 c) (minBlockSizeLog2 c)"

fun level_from_split_bits :: "buddy_config \<Rightarrow> ('a) buddy_scheme \<Rightarrow> nat \<Rightarrow> nat \<Rightarrow> nat \<Rightarrow> nat" where
  "level_from_split_bits c s ptr region 0 = 0"
| "level_from_split_bits c s ptr region (Suc i) =
     (if bit_is_set (sizeMap s ! region) (block_index c s ptr region i) then Suc i
      else level_from_split_bits c s ptr region i)"

definition get_level :: "buddy_config \<Rightarrow> ('a) buddy_scheme \<Rightarrow> nat \<Rightarrow> nat \<Rightarrow> nat" where
  "get_level c s ptr sz =
     (let region = get_region c s ptr
      in if sz > 0 then find_smallest_block_level c sz
         else if sizeBits c \<noteq> 0 then
           let index = sub64 ptr (region_start c s region) div minBlockSize c
           in if sizeBits c = 8 then unat (sizeMap s ! region ! index)
              else let byteIndex = index div 2; bitOffset = (index mod 2) * 4
                   in unat (drop_bit bitOffset (sizeMap s ! region ! byteIndex) AND 0xF)
         else level_from_split_bits c s ptr region (numLevels c - 1))"

definition get_alloc_size :: "buddy_config \<Rightarrow> ('a) buddy_scheme \<Rightarrow> nat \<Rightarrow> nat" where
  "get_alloc_size c s ptr = size_of_level c (get_level c s ptr 0)"

subsection \<open>Size map and bitmaps\<close>

definition upd2 :: "'b list list \<Rightarrow> nat \<Rightarrow> nat \<Rightarrow> 'b \<Rightarrow> 'b list list" where
  "upd2 m r i v = m[r := (m ! r)[i := v]]"

definition set_level :: "buddy_config \<Rightarrow> ('a) buddy_scheme \<Rightarrow> nat \<Rightarrow> nat \<Rightarrow> nat \<Rightarrow> ('a) buddy_scheme" where
  "set_level c s ptr region level =
     (let index = w32 (sub64 ptr (region_start c s region) div minBlockSize c)
      in if sizeBits c = 8 then s\<lparr>sizeMap := upd2 (sizeMap s) region index (word_of_nat level)\<rparr>
         else let byteIndex = index div 2; bitOffset = (index mod 2) * 4;
                  b = sizeMap s ! region ! byteIndex;
                  b = b AND NOT (push_bit bitOffset 0xF);
                  b = b OR push_bit bitOffset (word_of_nat level)
              in s\<lparr>sizeMap := upd2 (sizeMap s) region byteIndex b\<rparr>)"

definition set_split_block :: "('a) buddy_scheme \<Rightarrow> nat \<Rightarrow> nat \<Rightarrow> bool \<Rightarrow> ('a) buddy_scheme" where
  "set_split_block s region blockIndex split =
     s\<lparr>sizeMap := (sizeMap s)[region :=
        (if split then bh_set_bit (sizeMap s ! region) blockIndex
         else bh_clear_bit (sizeMap s ! region) blockIndex)]\<rparr>"

definition set_allocated_block :: "('a) buddy_scheme \<Rightarrow> nat \<Rightarrow> nat \<Rightarrow> bool \<Rightarrow> ('a) buddy_scheme" where
  "set_allocated_block s region blockIndex allocated =
     s\<lparr>freeBlocks := (freeBlocks s)[region :=
        (if allocated then bh_set_bit (freeBlocks s ! region) blockIndex
         else bh_clear_bit (freeBlocks s ! region) blockIndex)]\<rparr>"

definition flip_allocated_block :: "('a) buddy_scheme \<Rightarrow> nat \<Rightarrow> nat \<Rightarrow> ('a) buddy_scheme" where
  "flip_allocated_block s region blockIndex =
     s\<lparr>freeBlocks := (freeBlocks s)[region := bh_flip_bit (freeBlocks s ! region) blockIndex]\<rparr>"

definition block_is_split :: "('a) buddy_scheme \<Rightarrow> nat \<Rightarrow> nat \<Rightarrow> bool" where
  "block_is_split s region blockIndex = bit_is_set (sizeMap s ! region) blockIndex"

definition block_is_allocated :: "('a) buddy_scheme \<Rightarrow> nat \<Rightarrow> nat \<Rightarrow> bool" where
  "block_is_allocated s region blockIndex = bit_is_set (freeBlocks s ! region) blockIndex"

fun split_bits_loop :: "buddy_config \<Rightarrow> nat \<Rightarrow> nat \<Rightarrow> nat \<Rightarrow> nat \<Rightarrow> ('a) buddy_scheme \<Rightarrow> ('a) buddy_scheme" where
  "split_bits_loop c ptr region i 0 s = s"
| "split_bits_loop c ptr region i (Suc n) s =
     (if i < numLevels c - 1
      then split_bits_loop c ptr region (i + 1) n (set_split_block s region (block_index c s ptr region i) True)
      else s)"

definition split_bits :: "buddy_config \<Rightarrow> ('a) buddy_scheme \<Rightarrow> nat \<Rightarrow> nat \<Rightarrow> nat \<Rightarrow> nat \<Rightarrow> ('a) buddy_scheme" where
  "split_bits c s ptr region level_start level_end =
     split_bits_loop c ptr region level_start (level_end - level_start) s"

definition set_bitmaps :: "buddy_config \<Rightarrow> ('a) buddy_scheme \<Rightarrow> u8 \<Rightarrow> u8 \<Rightarrow> ('a) buddy_scheme" where
  "set_bitmaps c s freeBlocksPattern sizeMapPattern =
     (let s = s\<lparr>freeBlocks := replicate (numRegions c) (replicate (allocedBitmapSize c) freeBlocksPattern)\<rparr>
      in if \<not> useSizeMap c then s
         else if sizeBits c = 0
         then s\<lparr>sizeMap := replicate (numRegions c) (replicate (sizeBitmapSize c) sizeMapPattern)\<rparr>
         else s)"

subsection \<open>Free lists\<close>

definition push_free_list :: "('a) buddy_scheme \<Rightarrow> nat \<Rightarrow> nat \<Rightarrow> nat \<Rightarrow> ('a) buddy_scheme" where
  "push_free_list s ptr region level = s\<lparr>blinks := push_back (blinks s) (FreeHead region level) (Block ptr)\<rparr>"

definition free_list_empty :: "('a) buddy_scheme \<Rightarrow> nat \<Rightarrow> nat \<Rightarrow> bool" where
  "free_list_empty s region level = list_empty (blinks s) (FreeHead region level)"

text \<open>A link pointer read back as an address; \<open>nullptr\<close> is 0.\<close>

definition link_address :: "link_ptr option \<Rightarrow> nat" where
  "link_address p = (case p of Some (Block a) \<Rightarrow> a | _ \<Rightarrow> 0)"

definition pop_free_list :: "('a) buddy_scheme \<Rightarrow> nat \<Rightarrow> nat \<Rightarrow> nat \<times> ('a) buddy_scheme" where
  "pop_free_list s region level =
     (case pop_first (blinks s) (FreeHead region level) of
        (p, t) \<Rightarrow> (link_address p, s\<lparr>blinks := t\<rparr>))"

definition self_link :: "link_ptr \<Rightarrow> link_ptr links \<Rightarrow> link_ptr links" where
  "self_link h t = set_next h h (set_prev h h t)"

definition init_free_lists :: "buddy_config \<Rightarrow> ('a) buddy_scheme \<Rightarrow> ('a) buddy_scheme" where
  "init_free_lists c s = s\<lparr>blinks :=
     foldl (\<lambda>t r. foldl (\<lambda>t l. self_link (FreeHead r l) t) t [0..<numLevels c]) (blinks s) [0..<numRegions c]\<rparr>"

fun lazy_thresholds_loop :: "nat \<Rightarrow> nat \<Rightarrow> nat list \<Rightarrow> nat list" where
  "lazy_thresholds_loop lazyThreshold 0 ts = ts"
| "lazy_thresholds_loop lazyThreshold (Suc level) ts =
     (if lazyThreshold > 0
      then lazy_thresholds_loop (lazyThreshold div 2) level (ts[Suc level := lazyThreshold])
      else ts)"

definition init_lazy_lists :: "buddy_config \<Rightarrow> ('a) buddy_scheme \<Rightarrow> nat \<Rightarrow> ('a) buddy_scheme" where
  "init_lazy_lists c s lazyThreshold =
     s\<lparr>blinks := foldl (\<lambda>t l. self_link (LazyHead l) t) (blinks s) [0..<numLevels c],
       lazyThresholds := lazy_thresholds_loop lazyThreshold (numLevels c - 1) (lazyThresholds s)\<rparr>"

text \<open>The constructor on storage already obtained: the in-class initialisers, then its body.\<close>

definition buddy_new :: "buddy_config \<Rightarrow> link_ptr links \<Rightarrow> u8 list list \<Rightarrow> u8 list list \<Rightarrow> nat \<Rightarrow> nat \<Rightarrow> bool \<Rightarrow> buddy" where
  "buddy_new c links0 sm0 fb0 start lazyThreshold startFull =
     (let s = \<lparr>bstart = 0, freeSizes = replicate (numRegions c + 1) 0,
               topLevel = replicate (numRegions c) 0, sizeMap = sm0, freeBlocks = fb0,
               blinks = links0, lazyThresholds = replicate (numLevels c) 0,
               lazyListSize = replicate (numLevels c) 0\<rparr>;
          s = init_free_lists c s;
          s = s\<lparr>bstart := start\<rparr>;
          s = s\<lparr>freeSizes := map (\<lambda>i. if i < numRegions c
                 then (if startFull then 0 else maxBlockSize c) else freeSizes s ! i)
                 [0..<numRegions c + 1]\<rparr>
      in init_lazy_lists c s lazyThreshold)"

definition free_size :: "buddy_config \<Rightarrow> ('a) buddy_scheme \<Rightarrow> nat" where
  "free_size c s = w64 (sum_list (take (numRegions c + 1) (freeSizes s)))"

definition add_free_size :: "('a) buddy_scheme \<Rightarrow> nat \<Rightarrow> nat \<Rightarrow> ('a) buddy_scheme" where
  "add_free_size s i n = s\<lparr>freeSizes := (freeSizes s)[i := w64 (freeSizes s ! i + n)]\<rparr>"

definition sub_free_size :: "('a) buddy_scheme \<Rightarrow> nat \<Rightarrow> nat \<Rightarrow> ('a) buddy_scheme" where
  "sub_free_size s i n = s\<lparr>freeSizes := (freeSizes s)[i := sub64 (freeSizes s ! i) n]\<rparr>"

subsection \<open>Public operations\<close>

text \<open>\<open>nullptr\<close> is \<open>None\<close>. \<open>alloc_internal\<close> and \<open>dealloc_internal\<close> are the virtual functions.\<close>

definition buddy_allocate ::
  "buddy_config \<Rightarrow> (buddy_lock \<Rightarrow> bool) \<Rightarrow> (('a) buddy_scheme \<Rightarrow> nat \<Rightarrow> nat option \<times> ('a) buddy_scheme)
   \<Rightarrow> ('a) buddy_scheme \<Rightarrow> nat \<Rightarrow> nat option \<times> ('a) buddy_scheme" where
  "buddy_allocate c contended alloc_internal s totalSize =
     (if totalSize > maxBlockSize c then (None, s)
      else let level = find_smallest_block_level c totalSize
           in if lazyListSize s ! level > 0 \<and> \<not> contended (LazyLock level)
              then case pop_first (blinks s) (LazyHead level) of
                (block, t) \<Rightarrow>
                  (Some (link_address block),
                   sub_free_size
                     (s\<lparr>blinks := t, lazyListSize := (lazyListSize s)[level := lazyListSize s ! level - 1]\<rparr>)
                     (numRegions c) (rup2 totalSize))
              else alloc_internal s totalSize)"

definition buddy_deallocate_sized ::
  "buddy_config \<Rightarrow> (('a) buddy_scheme \<Rightarrow> nat \<Rightarrow> nat \<Rightarrow> ('a) buddy_scheme)
   \<Rightarrow> ('a) buddy_scheme \<Rightarrow> nat \<Rightarrow> nat \<Rightarrow> ('a) buddy_scheme" where
  "buddy_deallocate_sized c dealloc_internal s ptr sz =
     (if ptr = 0 \<or> ptr < bstart s \<or> ptr \<ge> w64 (bstart s + numRegions c * maxBlockSize c) then s
      else let sz = (if sz < minBlockSize c then minBlockSize c else sz);
               level = find_smallest_block_level c sz
           in if lazyListSize s ! level < lazyThresholds s ! level
              then add_free_size
                     (s\<lparr>blinks := push_back (blinks s) (LazyHead level) (Block ptr),
                        lazyListSize := (lazyListSize s)[level := lazyListSize s ! level + 1]\<rparr>)
                     (numRegions c) (rup2 sz)
              else dealloc_internal s ptr (rup2 sz))"

definition buddy_deallocate ::
  "buddy_config \<Rightarrow> (('a) buddy_scheme \<Rightarrow> nat \<Rightarrow> nat \<Rightarrow> ('a) buddy_scheme)
   \<Rightarrow> ('a) buddy_scheme \<Rightarrow> nat \<Rightarrow> ('a) buddy_scheme" where
  "buddy_deallocate c dealloc_internal s ptr =
     (if ptr = 0 \<or> ptr < bstart s \<or> ptr \<ge> w64 (bstart s + numRegions c * maxBlockSize c) then s
      else buddy_deallocate_sized c dealloc_internal s ptr (get_alloc_size c s ptr))"

fun empty_lazy_level ::
  "buddy_config \<Rightarrow> (('a) buddy_scheme \<Rightarrow> nat \<Rightarrow> nat \<Rightarrow> ('a) buddy_scheme) \<Rightarrow> nat \<Rightarrow> nat
   \<Rightarrow> ('a) buddy_scheme \<Rightarrow> ('a) buddy_scheme" where
  "empty_lazy_level c dealloc_internal l 0 s = s"
| "empty_lazy_level c dealloc_internal l (Suc n) s =
     (if lazyListSize s ! l > 0
      then case pop_first (blinks s) (LazyHead l) of
        (block, t) \<Rightarrow>
          let s = s\<lparr>blinks := t, lazyListSize := (lazyListSize s)[l := lazyListSize s ! l - 1]\<rparr>;
              level_size = size_of_level c l;
              s = dealloc_internal s (link_address block) level_size
          in empty_lazy_level c dealloc_internal l n (sub_free_size s (numRegions c) level_size)
      else s)"

definition empty_lazy_list ::
  "buddy_config \<Rightarrow> (('a) buddy_scheme \<Rightarrow> nat \<Rightarrow> nat \<Rightarrow> ('a) buddy_scheme)
   \<Rightarrow> ('a) buddy_scheme \<Rightarrow> ('a) buddy_scheme" where
  "empty_lazy_list c dealloc_internal s =
     foldl (\<lambda>s l. empty_lazy_level c dealloc_internal l (lazyListSize s ! l) s) s [0..<numLevels c]"

definition buddy_fill ::
  "buddy_config \<Rightarrow> (('a) buddy_scheme \<Rightarrow> bool \<Rightarrow> ('a) buddy_scheme) \<Rightarrow> ('a) buddy_scheme \<Rightarrow> ('a) buddy_scheme" where
  "buddy_fill c init_bitmaps s =
     (let s = init_free_lists c (init_bitmaps s True)
      in s\<lparr>freeSizes := map (\<lambda>_. 0) (freeSizes s)\<rparr>)"

subsection \<open>Releasing a range\<close>

fun alignment_loop :: "nat \<Rightarrow> nat \<Rightarrow> nat \<Rightarrow> nat" where
  "alignment_loop offset level mk =
     (if mk = 0 \<or> (word_of_nat offset AND word_of_nat mk :: u64) = 0 then level
      else alignment_loop offset (w8 (level + 1)) (mk div 2))"

declare alignment_loop.simps [simp del]

definition level_alignment :: "buddy_config \<Rightarrow> ('a) buddy_scheme \<Rightarrow> nat \<Rightarrow> nat \<Rightarrow> nat \<Rightarrow> nat" where
  "level_alignment c s ptr region start_level =
     (if start_level \<ge> numLevels c then numLevels c - 1
      else let offset = sub64 ptr (region_start c s region);
               mk = 2 ^ (maxBlockSizeLog2 c - start_level) - 1
           in alignment_loop offset start_level mk)"

definition range_block :: "buddy_config \<Rightarrow> ('a) buddy_scheme \<Rightarrow> nat \<Rightarrow> nat \<Rightarrow> nat \<Rightarrow> nat \<times> nat" where
  "range_block c s r start sz =
     (let max_level = find_smallest_block_level c sz
      in if size_of_level c max_level = sz \<and> max_level = level_alignment c s start r max_level
         then (max_level, sz)
         else let level = level_alignment c s start r (w8 (max_level + 1)) in (level, size_of_level c level))"

definition clear_split_bits :: "buddy_config \<Rightarrow> ('a) buddy_scheme \<Rightarrow> nat \<Rightarrow> nat \<Rightarrow> nat \<Rightarrow> nat \<Rightarrow> ('a) buddy_scheme" where
  "clear_split_bits c s r start level block_size =
     foldl (\<lambda>s i. let start_block_idx = block_index c s start r i
        in foldl (\<lambda>s j. if sizeBits c = 0 \<and> useSizeMap c \<and> i < numLevels c - 1
                        then set_split_block s r j False else s)
             s [start_block_idx ..< start_block_idx + num_blocks c block_size i])
       s [level + 1 ..< numLevels c]"

definition mark_range_block :: "buddy_config \<Rightarrow> ('a) buddy_scheme \<Rightarrow> nat \<Rightarrow> nat \<Rightarrow> nat \<Rightarrow> ('a) buddy_scheme" where
  "mark_range_block c s r start level =
     (if useSizeMap c
      then if sizeBits c = 0 \<and> level < numLevels c - 1
           then set_split_block s r (block_index c s start r level) False
           else if sizeBits c \<noteq> 0 then set_level c s start r level else s
      else s)"

text \<open>The inner loop of \<open>deallocate_range\<close> over one region, with fuel: every turn that
  releases a block shortens the range.\<close>

fun dealloc_region_loop ::
  "buddy_config \<Rightarrow> (('a) buddy_scheme \<Rightarrow> nat \<Rightarrow> nat \<Rightarrow> ('a) buddy_scheme) \<Rightarrow> nat \<Rightarrow> nat \<Rightarrow> nat \<Rightarrow> nat \<Rightarrow> nat
   \<Rightarrow> ('a) buddy_scheme \<Rightarrow> ('a) buddy_scheme option" where
  "dealloc_region_loop c dealloc_internal r 0 start end sz s = (if start < end then None else Some s)"
| "dealloc_region_loop c dealloc_internal r (Suc n) start end sz s =
     (if start < end
      then case range_block c s r start sz of
        (level, block_size) \<Rightarrow>
          let s = clear_split_bits c s r start level block_size;
              s = mark_range_block c s r start level;
              s = dealloc_internal s start block_size
          in dealloc_region_loop c dealloc_internal r n (w64 (start + block_size)) end
               (sub64 sz block_size) s
      else Some s)"

fun dealloc_regions ::
  "buddy_config \<Rightarrow> (('a) buddy_scheme \<Rightarrow> nat \<Rightarrow> nat \<Rightarrow> ('a) buddy_scheme) \<Rightarrow> nat \<Rightarrow> nat \<Rightarrow> nat list
   \<Rightarrow> ('a) buddy_scheme \<Rightarrow> ('a) buddy_scheme option" where
  "dealloc_regions c dealloc_internal aligned_start end [] s = Some s"
| "dealloc_regions c dealloc_internal aligned_start end (r # rs) s =
     (let rstart = region_start c s r; rend = region_start c s (w8 (r + 1));
          rstart = (if rstart < aligned_start then aligned_start else rstart);
          rend = (if rend < end then rend else end);
          sz = sub64 rend rstart
      in case dealloc_region_loop c dealloc_internal r (rend - rstart) rstart rend sz s of
           None \<Rightarrow> None | Some s \<Rightarrow> dealloc_regions c dealloc_internal aligned_start end rs s)"

definition deallocate_range ::
  "buddy_config \<Rightarrow> (('a) buddy_scheme \<Rightarrow> nat \<Rightarrow> nat \<Rightarrow> ('a) buddy_scheme)
   \<Rightarrow> ('a) buddy_scheme \<Rightarrow> nat \<Rightarrow> nat \<Rightarrow> ('a) buddy_scheme option" where
  "deallocate_range c dealloc_internal s ptr sz =
     (let aligned_start = align_left c s (sub64 (w64 (ptr + minBlockSize c)) 1) (numLevels c - 1);
          end = align_left c s (w64 (ptr + sz)) (numLevels c - 1)
      in if aligned_start \<ge> end then Some s
         else dealloc_regions c dealloc_internal aligned_start end
                [get_region c s aligned_start ..< get_region c s (sub64 end 1) + 1] s)"

end
