(* ===== verification/Buddy_Geometry.thy ===== *)
theory Buddy_Geometry
  imports Buddy_Base
begin

text \<open>
  The block geometry of the buddy allocators: for a configuration that passes the static
  assertions and a heap that fits the address space, no conversion of the index
  arithmetic loses anything, and the heap numbering of blocks, the buddy relation, the
  search for the smallest level and the packed size map mean what they should.
\<close>

text \<open>The heap of all regions is smaller than 2 GiB: \<open>region_start\<close> shifts an \<open>int\<close>, which is exact
  below \<open>2 ^ 31\<close> only. The largest configuration of \<open>buddy_config.hpp\<close> has 1 GiB.\<close>

definition cfg_ok :: "buddy_config \<Rightarrow> bool" where
  "cfg_ok c \<longleftrightarrow> config_asserts c \<and> maxBlockSizeLog2 c < 31 \<and> 0 < numRegions c \<and> numRegions c < 256
     \<and> numRegions c * 2 ^ maxBlockSizeLog2 c < 2147483648"

definition placed :: "buddy_config \<Rightarrow> ('a) buddy_scheme \<Rightarrow> bool" where
  "placed c s \<longleftrightarrow> 0 < bstart s \<and> bstart s + numRegions c * 2 ^ maxBlockSizeLog2 c < 18446744073709551616"

definition baddr :: "buddy_config \<Rightarrow> ('a) buddy_scheme \<Rightarrow> nat \<Rightarrow> nat \<Rightarrow> nat" where
  "baddr c s r off = bstart s + r * 2 ^ maxBlockSizeLog2 c + off"

definition bsize :: "buddy_config \<Rightarrow> nat \<Rightarrow> nat" where
  "bsize c l = 2 ^ (maxBlockSizeLog2 c - l)"

lemma cfg_okD:
  assumes "cfg_ok c"
  shows "4 \<le> minBlockSizeLog2 c" "minBlockSizeLog2 c < maxBlockSizeLog2 c" "maxBlockSizeLog2 c < 31"
    "0 < numRegions c" "numRegions c < 256" "numRegions c * 2 ^ maxBlockSizeLog2 c < 2147483648"
  using assms by (simp_all add: cfg_ok_def config_asserts_def)

lemma numLevels_eq: "cfg_ok c \<Longrightarrow> numLevels c = maxBlockSizeLog2 c - minBlockSizeLog2 c + 1"
  using cfg_okD [of c] by (simp add: numLevels_def w8_id)

lemma pow2_31: "n < 32 \<Longrightarrow> (2::nat) ^ n < 4294967296"
  using power_strict_increasing [of n 32 "2::nat"] by simp

lemma maxBlockSize_eq: "cfg_ok c \<Longrightarrow> maxBlockSize c = 2 ^ maxBlockSizeLog2 c"
  using cfg_okD [of c] by (simp add: maxBlockSize_def w32_id pow2_31)

lemma minBlockSize_eq: "cfg_ok c \<Longrightarrow> minBlockSize c = 2 ^ minBlockSizeLog2 c"
  using cfg_okD [of c] by (simp add: minBlockSize_def w32_id pow2_31)

lemma size_of_level_eq: "cfg_ok c \<Longrightarrow> l \<le> maxBlockSizeLog2 c \<Longrightarrow> size_of_level c l = bsize c l"
  by (simp add: size_of_level_def maxBlockSize_eq bsize_def power_diff)

lemma level_le_max: "cfg_ok c \<Longrightarrow> l < numLevels c \<Longrightarrow> l \<le> maxBlockSizeLog2 c"
  by (simp add: numLevels_eq)

lemma bsize_pos [simp]: "0 < bsize c l"
  by (simp add: bsize_def)

lemma bsize_0 [simp]: "bsize c 0 = 2 ^ maxBlockSizeLog2 c"
  by (simp add: bsize_def)

lemma bsize_Suc: "l < maxBlockSizeLog2 c \<Longrightarrow> bsize c l = 2 * bsize c (Suc l)"
  by (simp add: bsize_def flip: power_Suc Suc_diff_Suc)

lemma bsize_dvd: "l \<le> k \<Longrightarrow> bsize c k dvd bsize c l"
  by (simp add: bsize_def le_imp_power_dvd)

lemma bsize_mono: "l \<le> k \<Longrightarrow> bsize c k \<le> bsize c l"
  by (simp add: bsize_def)

lemma int_shl_exact: "a * 2 ^ n < 2147483648 \<Longrightarrow> int_shl a n = a * 2 ^ n"
  by (simp add: int_shl_def w32_id)

text \<open>Without that bound the code computes something else: for 4 regions of 1 GiB, which every static
  assertion admits, region 2 would start 2 GiB below the heap.\<close>

lemma region_start_overflows:
  assumes "c = \<lparr>minBlockSizeLog2 = 4, maxBlockSizeLog2 = 30, numRegions = 4, useSizeMap = False, sizeBits = 0\<rparr>"
    "2147483648 \<le> bstart s" "bstart s < 18446744073709551616"
  shows "config_asserts c \<and> region_start c s 2 = bstart s - 2147483648"
proof
  show "config_asserts c" by (simp add: assms(1) config_asserts_def numLevels_def w8_def)
  have "int_shl 2 30 = 18446744071562067968" by (simp add: int_shl_def w32_def Let_def)
  then show "region_start c s 2 = bstart s - 2147483648"
    using assms(2,3) by (simp add: assms(1) region_start_def w64_def mod_if)
qed

lemma region_start_eq:
  assumes "cfg_ok c" "placed c s" "r \<le> numRegions c"
  shows "region_start c s r = baddr c s r 0"
proof -
  have p: "placed c s" and r: "r \<le> numRegions c" by fact+
  have "r * 2 ^ maxBlockSizeLog2 c \<le> numRegions c * 2 ^ maxBlockSizeLog2 c" by (rule mult_le_mono1 [OF r])
  then have "bstart s + r * 2 ^ maxBlockSizeLog2 c < 18446744073709551616"
    using p unfolding placed_def by linarith
  moreover have "r * 2 ^ maxBlockSizeLog2 c < 2147483648"
    using \<open>r * 2 ^ maxBlockSizeLog2 c \<le> numRegions c * 2 ^ maxBlockSizeLog2 c\<close> cfg_okD(6) [OF assms(1)] by linarith
  ultimately show ?thesis by (simp add: region_start_def baddr_def w64_id int_shl_exact)
qed

lemma sub64_baddr: "sub64 (baddr c s r off) (baddr c s r 0) = off"
  by (simp add: baddr_def sub64_id)

lemma baddr_lt:
  assumes "placed c s" "r < numRegions c" "off < 2 ^ maxBlockSizeLog2 c"
  shows "baddr c s r off < bstart s + numRegions c * 2 ^ maxBlockSizeLog2 c"
proof -
  have "Suc r * 2 ^ maxBlockSizeLog2 c \<le> numRegions c * 2 ^ maxBlockSizeLog2 c"
    by (rule mult_le_mono1) (use assms in simp)
  then show ?thesis using assms by (simp add: baddr_def)
qed

lemma get_region_baddr:
  assumes "cfg_ok c" "placed c s" "r < numRegions c" "off < 2 ^ maxBlockSizeLog2 c"
  shows "get_region c s (baddr c s r off) = r"
proof -
  have "sub64 (baddr c s r off) (bstart s) = off + r * 2 ^ maxBlockSizeLog2 c"
    by (simp add: baddr_def sub64_id)
  then show ?thesis using assms cfg_okD(5) [OF assms(1)] by (simp add: get_region_def w8_id)
qed

lemma shift_amount: "cfg_ok c \<Longrightarrow> l < numLevels c \<Longrightarrow>
   numLevels c + minBlockSizeLog2 c - Suc l = maxBlockSizeLog2 c - l"
  using cfg_okD [of c] by (simp add: numLevels_eq)

lemma off_div_lt:
  assumes "cfg_ok c" "l < numLevels c" "off < 2 ^ maxBlockSizeLog2 c"
  shows "off div bsize c l < 2 ^ l"
proof -
  have "(2::nat) ^ maxBlockSizeLog2 c = 2 ^ l * bsize c l"
    unfolding bsize_def by (rule pow2_split [OF level_le_max [OF assms(1,2)]])
  with assms(3) show ?thesis by (simp add: div_less_iff_less_mult)
qed

lemma index_in_level_eq:
  assumes "cfg_ok c" "placed c s" "r < numRegions c" "off < 2 ^ maxBlockSizeLog2 c" "l < numLevels c"
  shows "index_in_level c s (baddr c s r off) r l = off div bsize c l"
proof -
  have "off div bsize c l \<le> off" by simp
  also have "off < 4294967296" using assms(4) pow2_31 [of "maxBlockSizeLog2 c"] cfg_okD(3) [OF assms(1)] by simp
  finally show ?thesis
    using assms(3) by (simp add: index_in_level_def region_start_eq [OF assms(1,2)] sub64_baddr
        shift_amount [OF assms(1,5)] bsize_def [symmetric] w32_id)
qed

lemma level_index_lt:
  assumes "cfg_ok c" "l < numLevels c" "k < 2 ^ l"
  shows "index_of_level l + k < 4294967295"
proof -
  have "l < 31" using assms(2) cfg_okD [OF assms(1)] by (simp add: numLevels_eq [OF assms(1)])
  then have "(2::nat) ^ l \<le> 2 ^ 30" by (intro power_increasing) simp_all
  with assms(3) show ?thesis by (simp add: index_of_level_def)
qed

lemma block_index_eq:
  assumes "cfg_ok c" "placed c s" "r < numRegions c" "off < 2 ^ maxBlockSizeLog2 c" "l < numLevels c"
  shows "block_index c s (baddr c s r off) r l = index_of_level l + off div bsize c l"
  using level_index_lt [OF assms(1,5) off_div_lt [OF assms(1,5,4)]]
  by (simp add: block_index_def index_in_level_eq [OF assms] w32_id)

lemma align_left_eq:
  assumes "cfg_ok c" "placed c s" "r < numRegions c" "off < 2 ^ maxBlockSizeLog2 c" "l < numLevels c"
  shows "align_left c s (baddr c s r off) l = baddr c s r (off div bsize c l * bsize c l)"
proof -
  let ?o = "off div bsize c l * bsize c l"
  have o: "?o \<le> off" by (simp add: bsize_def)
  from le_less_trans [OF o assms(4)] have lt: "?o < 2 ^ maxBlockSizeLog2 c" .
  then have 1: "?o < 4294967296" using pow2_31 [of "maxBlockSizeLog2 c"] cfg_okD(3) [OF assms(1)] by simp
  have 2: "baddr c s r ?o < 18446744073709551616"
    using baddr_lt [OF assms(2,3) lt] assms(2) by (simp add: placed_def)
  have "baddr c s r 0 + ?o = baddr c s r ?o" by (simp add: baddr_def)
  with 1 2 show ?thesis
    using assms(3) by (simp add: align_left_def Let_def get_region_baddr [OF assms(1-4)]
        index_in_level_eq [OF assms] size_of_level_eq [OF assms(1) level_le_max [OF assms(1,5)]]
        region_start_eq [OF assms(1,2)] w32_id w64_id mult.commute)
qed

subsection \<open>Heap numbering\<close>

lemma count_shifts_floorlog: "0 < n \<Longrightarrow> count_shifts n = floorlog 2 n - 1"
proof (induction n rule: count_shifts.induct)
  case (1 n)
  show ?case
  proof (cases "n div 2 = 0")
    case True
    then have "n = 1" using "1.prems" by simp
    then show ?thesis by (simp add: count_shifts.simps compute_floorlog)
  next
    case False
    then have "count_shifts (n div 2) = floorlog 2 (n div 2) - 1" using "1.IH" by simp
    moreover have "floorlog 2 n = floorlog 2 (n div 2) + 1" using "1.prems" by (simp add: compute_floorlog)
    moreover have "0 < floorlog 2 (n div 2)" by (rule floorlog_pos) (use False in simp)
    ultimately show ?thesis using False by (simp add: count_shifts.simps [of n])
  qed
qed

lemma floorlog_heap: "k < 2 ^ l \<Longrightarrow> floorlog 2 (2 ^ l + k) = Suc l"
  using floorlog_ge_SucI [of 2 l "2 ^ l + k"] floorlog_leI [of "2 ^ l + k" 2 "Suc l"] by simp

lemma index_of_level_Suc: "Suc (index_of_level l + k) = 2 ^ l + k"
  by (simp add: index_of_level_def)

lemma count_shifts_heap: "k < 2 ^ l \<Longrightarrow> count_shifts (Suc (index_of_level l + k)) = l"
  unfolding index_of_level_Suc using count_shifts_floorlog [of "2 ^ l + k"] floorlog_heap [of k l] by simp

lemma level_of_index_heap:
  assumes "k < 2 ^ l" "l < 31"
  shows "level_of_index (index_of_level l + k) = l"
proof -
  have "(2::nat) ^ l + k < 2 ^ Suc l" using assms(1) by simp
  also have "(2::nat) ^ Suc l \<le> 2 ^ 31" using assms(2) by (intro power_increasing) simp_all
  finally have b: "2 ^ l + k < 2147483648" by simp
  have "w32 (index_of_level l + k + 1) = 2 ^ l + k" using b index_of_level_Suc [of l k] by (simp add: w32_id)
  then show ?thesis using assms(2) floorlog_heap [OF assms(1)] by (simp add: level_of_index_def)
qed

lemma get_address_eq:
  assumes "cfg_ok c" "placed c s" "r < numRegions c" "l < numLevels c" "k < 2 ^ l"
  shows "get_address c s r (index_of_level l + k) = baddr c s r (k * bsize c l)"
proof -
  have i: "index_of_level l + k < 4294967295" by (rule level_index_lt [OF assms(1,4,5)])
  have "(2::nat) ^ maxBlockSizeLog2 c = 2 ^ l * bsize c l"
    unfolding bsize_def by (rule pow2_split [OF level_le_max [OF assms(1,4)]])
  then have o: "k * bsize c l < 2 ^ maxBlockSizeLog2 c" using assms(5) by simp
  have 1: "k * bsize c l < 4294967296"
    using o pow2_31 [of "maxBlockSizeLog2 c"] cfg_okD(3) [OF assms(1)] by simp
  have 2: "baddr c s r (k * bsize c l) < 18446744073709551616"
    using baddr_lt [OF assms(2,3) o] assms(2) by (simp add: placed_def)
  have e: "baddr c s r 0 + k * bsize c l = baddr c s r (k * bsize c l)" by (simp add: baddr_def)
  have cs: "count_shifts (w32 (Suc (index_of_level l + k))) = l"
    using i count_shifts_heap [OF assms(5)] by (simp add: w32_id)
  have sl: "sub32 (index_of_level l + k) (index_of_level l) = k" by (simp add: sub32_id)
  show ?thesis
    using assms(3) 1 2 e
    by (simp add: get_address_def cs Let_def sl size_of_level_eq [OF assms(1) level_le_max [OF assms(1,4)]]
        region_start_eq [OF assms(1,2)] w32_id w64_id)
qed

text \<open>The heap number of a block and its address determine each other: \<open>get_address\<close> undoes
  \<open>block_index\<close> up to aligning the pointer to its block, and \<open>level_of_index\<close> returns the level.\<close>

theorem block_index_roundtrip:
  assumes "cfg_ok c" "placed c s" "r < numRegions c" "off < 2 ^ maxBlockSizeLog2 c" "l < numLevels c"
  shows "get_address c s r (block_index c s (baddr c s r off) r l) = align_left c s (baddr c s r off) l
    \<and> level_of_index (block_index c s (baddr c s r off) r l) = l
    \<and> get_region c s (baddr c s r off) = r"
proof -
  have k: "off div bsize c l < 2 ^ l" by (rule off_div_lt [OF assms(1,5,4)])
  have "l < 31" using assms(5) cfg_okD [OF assms(1)] by (simp add: numLevels_eq [OF assms(1)])
  with k show ?thesis
    by (simp add: block_index_eq [OF assms] get_address_eq [OF assms(1-3,5)] align_left_eq [OF assms]
        level_of_index_heap get_region_baddr [OF assms(1-4)])
qed

definition geometry_demo :: buddy where
  "geometry_demo = buddy_new SmallDoubleConfig \<lparr>lprev = id, lnext = id\<rparr>
     (replicate 2 (replicate 8 0)) (replicate 2 (replicate 4 0)) 4096 0 True"

lemma small_double_ok: "cfg_ok SmallDoubleConfig"
  by (simp add: cfg_ok_def config_asserts_def numLevels_def SmallDoubleConfig_def w8_def)

lemma bstart_new [simp]: "bstart (buddy_new c l sm fb st lt sf) = st"
  by (simp add: buddy_new_def Let_def init_lazy_lists_def init_free_lists_def)

lemma geometry_demo_placed: "placed SmallDoubleConfig geometry_demo"
  by (simp add: placed_def geometry_demo_def SmallDoubleConfig_def)

theorem block_index_roundtrip_witness:
  "level_of_index (block_index SmallDoubleConfig geometry_demo
     (baddr SmallDoubleConfig geometry_demo 1 0x90) 1 3) = 3"
  using block_index_roundtrip [OF small_double_ok geometry_demo_placed, of 1 "0x90" 3]
  by (simp add: SmallDoubleConfig_def numLevels_def w8_def)

subsection \<open>Levels\<close>

lemma find_level_loop_spec:
  assumes "maxBlockSizeLog2 c < 31" "sz \<le> 2 ^ maxBlockSizeLog2 c"
  shows "i + n = maxBlockSizeLog2 c + 1 \<Longrightarrow> i \<le> maxBlockSizeLog2 c \<Longrightarrow>
    \<exists>j. find_level_loop c sz n i = maxBlockSizeLog2 c - j \<and> i \<le> j \<and> j \<le> maxBlockSizeLog2 c \<and> sz \<le> 2 ^ j
      \<and> (\<forall>m. i \<le> m \<and> m < j \<longrightarrow> 2 ^ m < sz)"
proof (induction n arbitrary: i)
  case (Suc n)
  have w: "w32 (2 ^ i) = 2 ^ i" "w8 (maxBlockSizeLog2 c - i) = maxBlockSizeLog2 c - i"
    using Suc.prems assms(1) by (simp_all add: w32_id pow2_31 w8_id)
  show ?case
  proof (cases "sz \<le> 2 ^ i")
    case True
    then show ?thesis using Suc.prems w by (intro exI [of _ i]) simp
  next
    case False
    then have "i \<noteq> maxBlockSizeLog2 c" using assms(2) by auto
    then obtain j where j: "find_level_loop c sz n (i + 1) = maxBlockSizeLog2 c - j" "i + 1 \<le> j"
      "j \<le> maxBlockSizeLog2 c" "sz \<le> 2 ^ j" "\<forall>m. i + 1 \<le> m \<and> m < j \<longrightarrow> 2 ^ m < sz"
      using Suc.IH [of "i + 1"] Suc.prems by auto
    have "\<forall>m. i \<le> m \<and> m < j \<longrightarrow> 2 ^ m < sz"
      using j(5) False by (metis Suc_eq_plus1 Suc_leI le_neq_implies_less not_le)
    then show ?thesis using j False w by (intro exI [of _ j]) simp
  qed
qed simp

lemma find_level_best:
  assumes "cfg_ok c" "sz \<le> maxBlockSize c"
  shows "find_smallest_block_level c sz < numLevels c
    \<and> sz \<le> size_of_level c (find_smallest_block_level c sz)
    \<and> (\<forall>l. find_smallest_block_level c sz < l \<and> l < numLevels c \<longrightarrow> size_of_level c l < sz)"
proof -
  note k = cfg_okD [OF assms(1)]
  obtain j where j: "find_smallest_block_level c sz = maxBlockSizeLog2 c - j" "minBlockSizeLog2 c \<le> j"
    "j \<le> maxBlockSizeLog2 c" "sz \<le> 2 ^ j" "\<forall>m. minBlockSizeLog2 c \<le> m \<and> m < j \<longrightarrow> 2 ^ m < sz"
    using find_level_loop_spec [of c sz "minBlockSizeLog2 c" "maxBlockSizeLog2 c + 1 - minBlockSizeLog2 c"]
      assms(2) k by (auto simp: find_smallest_block_level_def maxBlockSize_eq [OF assms(1)])
  have "size_of_level c l < sz" if "maxBlockSizeLog2 c - j < l" "l < numLevels c" for l
  proof -
    have "minBlockSizeLog2 c \<le> maxBlockSizeLog2 c - l" "maxBlockSizeLog2 c - l < j"
      using that j(3) k numLevels_eq [OF assms(1)] by linarith+
    then show ?thesis using j(5) [rule_format, of "maxBlockSizeLog2 c - l"]
    by (simp add: size_of_level_eq [OF assms(1) level_le_max [OF assms(1) that(2)]] bsize_def numLevels_eq [OF assms(1)])
  qed
  moreover have "maxBlockSizeLog2 c - j < numLevels c" using j(2) numLevels_eq [OF assms(1)] by linarith
  moreover have "sz \<le> size_of_level c (maxBlockSizeLog2 c - j)"
    using j(3,4) by (simp add: size_of_level_eq [OF assms(1)] bsize_def)
  ultimately show ?thesis unfolding j(1) by blast
qed

text \<open>For every size up to the maximum the search returns the deepest level whose blocks are large
  enough: the blocks one level below are too small, unless the level is already the last one.\<close>

theorem find_smallest_block_level_best:
  assumes "cfg_ok c" "sz \<le> maxBlockSize c"
  shows "find_smallest_block_level c sz < numLevels c
    \<and> sz \<le> size_of_level c (find_smallest_block_level c sz)
    \<and> (\<forall>l. find_smallest_block_level c sz < l \<and> l < numLevels c \<longrightarrow> size_of_level c l < sz)"
  by (rule find_level_best [OF assms])

theorem find_smallest_block_level_best_witness:
  "find_smallest_block_level SmallDoubleConfig 33 < 5 \<and> 33 \<le> size_of_level SmallDoubleConfig (find_smallest_block_level SmallDoubleConfig 33)"
  using find_smallest_block_level_best [OF small_double_ok, of 33]
  by (simp add: maxBlockSize_def numLevels_def SmallDoubleConfig_def w32_def w8_def)

subsection \<open>Buddies\<close>

definition boff :: "buddy_config \<Rightarrow> nat \<Rightarrow> nat \<Rightarrow> nat" where
  "boff c l off = (if even (off div bsize c l) then off + bsize c l else off - bsize c l)"

lemma buddy_index_eq:
  assumes "cfg_ok c" "placed c s" "r < numRegions c" "off < 2 ^ maxBlockSizeLog2 c"
    "l < numLevels c" "0 < l"
  shows "buddy_index c s (baddr c s r off) r l = index_of_level l +
    (if even (off div bsize c l) then off div bsize c l + 1 else off div bsize c l - 1)"
proof -
  let ?k = "off div bsize c l"
  have k: "?k < 2 ^ l" by (rule off_div_lt [OF assms(1,5,4)])
  have i: "index_of_level l + ?k < 4294967295" by (rule level_index_lt [OF assms(1,5) k])
  have odd: "odd (index_of_level l)" using assms(6) by (simp add: index_of_level_def even_diff_nat)
  show ?thesis
  proof (cases "even ?k")
    case True
    then have "(index_of_level l + ?k) mod 2 \<noteq> 0" using odd by (metis even_add even_iff_mod_2_eq_zero)
    then show ?thesis
      using True i by (simp add: buddy_index_def Let_def block_index_eq [OF assms(1-5)] w32_id)
  next
    case False
    then have "(index_of_level l + ?k) mod 2 = 0" using odd by (metis even_add even_iff_mod_2_eq_zero)
    moreover have "1 \<le> ?k" using False by (cases ?k) auto
    ultimately show ?thesis
      using False by (simp add: buddy_index_def Let_def block_index_eq [OF assms(1-5)] sub32_id)
  qed
qed

lemma even_index_next: "even (k::nat) \<Longrightarrow> k < 2 ^ l \<Longrightarrow> 0 < l \<Longrightarrow> k + 1 < 2 ^ l"
proof -
  assume "even k" "k < 2 ^ l" "0 < l"
  then have "even ((2::nat) ^ l)" by simp
  with \<open>even k\<close> \<open>k < 2 ^ l\<close> show ?thesis by presburger
qed

lemma get_buddy_eq:
  assumes "cfg_ok c" "placed c s" "r < numRegions c" "off < 2 ^ maxBlockSizeLog2 c"
    "l < numLevels c" "0 < l" "bsize c l dvd off"
  shows "get_buddy c s (baddr c s r off) l = baddr c s r (boff c l off)"
    "boff c l off < 2 ^ maxBlockSizeLog2 c" "bsize c l dvd boff c l off"
proof -
  let ?k = "off div bsize c l"
  have k: "?k < 2 ^ l" by (rule off_div_lt [OF assms(1,5,4)])
  let ?j = "if even ?k then ?k + 1 else ?k - 1"
  have j: "?j < 2 ^ l" using even_index_next [OF _ k assms(6)] k by auto
  have oe: "off = ?k * bsize c l" using assms(7) by simp
  have jo: "?j * bsize c l = boff c l off"
  proof (cases "even ?k")
    case True
    then show ?thesis using oe by (simp add: boff_def)
  next
    case False
    then have "1 \<le> ?k" by (cases ?k) auto
    then show ?thesis using False oe by (simp add: boff_def diff_mult_distrib)
  qed
  have p: "(2::nat) ^ maxBlockSizeLog2 c = 2 ^ l * bsize c l"
    unfolding bsize_def by (rule pow2_split [OF level_le_max [OF assms(1,5)]])
  show b: "boff c l off < 2 ^ maxBlockSizeLog2 c" using j jo p by (metis bsize_pos mult_less_cancel2)
  show "bsize c l dvd boff c l off" using jo by (metis dvd_triv_right)
  have 1: "boff c l off < 4294967296"
    using b pow2_31 [of "maxBlockSizeLog2 c"] cfg_okD(3) [OF assms(1)] by simp
  have 2: "baddr c s r (boff c l off) < 18446744073709551616"
    using baddr_lt [OF assms(2,3) b] assms(2) by (simp add: placed_def)
  have e: "baddr c s r 0 + boff c l off = baddr c s r (boff c l off)" by (simp add: baddr_def)
  have "sub32 (buddy_index c s (baddr c s r off) r l) (index_of_level l) = ?j"
    by (simp add: buddy_index_eq [OF assms(1-6)] sub32_id)
  then show "get_buddy c s (baddr c s r off) l = baddr c s r (boff c l off)"
    using assms(3,6) 1 2 e jo
    by (simp add: get_buddy_def Let_def get_region_baddr [OF assms(1-4)] region_start_eq [OF assms(1,2)]
        size_of_level_eq [OF assms(1) level_le_max [OF assms(1,5)]] w32_id w64_id mult.commute)
qed

lemma boff_flip:
  assumes "bsize c l dvd off"
  shows "boff c l off div bsize c l = (if even (off div bsize c l) then off div bsize c l + 1 else off div bsize c l - 1)"
    and "even (boff c l off div bsize c l) \<longleftrightarrow> odd (off div bsize c l)" "boff c l (boff c l off) = off"
proof -
  obtain k where k: "off = k * bsize c l" using assms by (metis dvd_def mult.commute)
  have kk: "off div bsize c l = k" by (simp add: k)
  have e: "boff c l off = (if even k then k + 1 else k - 1) * bsize c l"
    by (cases k) (auto simp: boff_def kk k diff_mult_distrib)
  show 1: "boff c l off div bsize c l = (if even (off div bsize c l) then off div bsize c l + 1 else off div bsize c l - 1)"
    unfolding e kk by (rule nonzero_mult_div_cancel_right) (use bsize_pos [of c l] in simp)
  then show "even (boff c l off div bsize c l) \<longleftrightarrow> odd (off div bsize c l)"
    unfolding kk by (cases k) auto
  then show "boff c l (boff c l off) = off"
    using e k kk 1 by (cases "even k"; cases k) (auto simp: boff_def)
qed

text \<open>Below the root the buddy of an aligned block is another aligned block of the same region and
  level, the buddy of the buddy is the block itself, and both have the same parent block.\<close>

lemma get_buddy_involution:
  assumes "cfg_ok c" "placed c s" "r < numRegions c" "off < 2 ^ maxBlockSizeLog2 c"
    "l < numLevels c" "0 < l" "bsize c l dvd off"
  shows "\<exists>off'. get_buddy c s (baddr c s r off) l = baddr c s r off' \<and> off' < 2 ^ maxBlockSizeLog2 c
    \<and> off' \<noteq> off \<and> bsize c l dvd off'
    \<and> get_buddy c s (baddr c s r off') l = baddr c s r off
    \<and> align_left c s (baddr c s r off') (l - 1) = align_left c s (baddr c s r off) (l - 1)"
proof -
  let ?o = "boff c l off"
  note b = get_buddy_eq [OF assms]
  have l1: "l - 1 < numLevels c" using assms(5) by simp
  have "l - 1 < maxBlockSizeLog2 c" using level_le_max [OF assms(1,5)] assms(6) by simp
  then have s2: "bsize c (l - 1) = 2 * bsize c l" using bsize_Suc [of "l - 1" c] assms(6) by simp
  have d2: "x div (2 * bsize c l) = x div bsize c l div 2" for x by (simp add: div_mult2_eq mult.commute)
  have "?o div bsize c l div 2 = off div bsize c l div 2"
    unfolding boff_flip(1) [OF assms(7)] by (auto elim: oddE evenE)
  then have "align_left c s (baddr c s r ?o) (l - 1) = align_left c s (baddr c s r off) (l - 1)"
    unfolding align_left_eq [OF assms(1-3) b(2) l1] align_left_eq [OF assms(1-4) l1] s2 d2 by simp
  moreover have "get_buddy c s (baddr c s r ?o) l = baddr c s r off"
    using get_buddy_eq(1) [OF assms(1-3) b(2) assms(5,6) b(3)] boff_flip(3) [OF assms(7)] by simp
  moreover have "?o \<noteq> off" using boff_flip(2) [OF assms(7)] by auto
  ultimately show ?thesis using b by blast
qed

subsection \<open>Blocks as address ranges\<close>

definition block_size_for :: "buddy_config \<Rightarrow> nat \<Rightarrow> nat" where
  "block_size_for c sz = size_of_level c (find_smallest_block_level c sz)"

end
