(* ===== verification/Bb_Buddy.thy ===== *)
theory Bb_Buddy
  imports Buddy_Geometry
begin

text \<open>
  The binary buddy allocator, \<open>bbuddy.hpp\<close> and \<open>bbuddy.cpp\<close>: one free list per region and
  level, and one bit per pair of buddies that tells whether exactly one of them is free. The
  class adds no field to \<open>BuddyAllocator\<close>. The search loop of \<open>allocate_internal\<close> restarts
  after every split, so it is a partial function; it is shown to return in \<open>Bb_Alloc\<close>.
\<close>

definition bb_map_index :: "nat \<Rightarrow> nat" where
  "bb_map_index index = (if index = 0 then 0 else (index - 1) div 2 + 1)"

definition bb_init_bitmaps :: "buddy_config \<Rightarrow> ('a) buddy_scheme \<Rightarrow> bool \<Rightarrow> ('a) buddy_scheme" where
  "bb_init_bitmaps c s startFull = set_bitmaps c s 0 (if startFull then 0xFF else 0)"

definition bb_new :: "buddy_config \<Rightarrow> link_ptr links \<Rightarrow> u8 list list \<Rightarrow> u8 list list \<Rightarrow> nat \<Rightarrow> nat \<Rightarrow> bool \<Rightarrow> buddy" where
  "bb_new c links0 sm0 fb0 start lazyThreshold startFull =
     (let s = bb_init_bitmaps c (buddy_new c links0 sm0 fb0 start lazyThreshold startFull) startFull
      in if startFull then s
         else foldl (\<lambda>s r. push_free_list s (region_start c s r) r 0) s [0..<numRegions c])"

text \<open>Splitting the first free block of a level.\<close>

definition bb_split :: "buddy_config \<Rightarrow> ('a) buddy_scheme \<Rightarrow> nat \<Rightarrow> nat \<Rightarrow> ('a) buddy_scheme" where
  "bb_split c s r block_level =
     (case pop_free_list s r block_level of
        (block, s1) \<Rightarrow>
          let block_idx = block_index c s1 block r block_level;
              s2 = (if sizeBits c = 0 \<and> useSizeMap c then set_split_block s1 r block_idx True else s1);
              s3 = (if block_level > 0 then flip_allocated_block s2 r (bb_map_index block_idx) else s2);
              buddy_addr = w64 (block + size_of_level c (block_level + 1));
              s4 = push_free_list s3 block r (block_level + 1)
          in push_free_list s4 buddy_addr r (block_level + 1))"

text \<open>The loop over \<open>found\<close> in one region: the level found, if any.\<close>

partial_function (option) bb_search ::
    "buddy_config \<Rightarrow> nat \<Rightarrow> nat \<Rightarrow> nat \<Rightarrow> ('a) buddy_scheme \<Rightarrow> (nat option \<times> ('a) buddy_scheme) option" where
  "bb_search c start_block_level r block_level s =
     (if \<not> free_list_empty s r block_level then Some (Some block_level, s)
      else if block_level > 0 then
        if \<not> free_list_empty s r (block_level - 1)
        then bb_search c start_block_level r start_block_level (bb_split c s r (block_level - 1))
        else bb_search c start_block_level r (block_level - 1) s
      else Some (None, s))"

definition bb_take :: "buddy_config \<Rightarrow> ('a) buddy_scheme \<Rightarrow> nat \<Rightarrow> nat \<Rightarrow> nat \<Rightarrow> nat \<times> ('a) buddy_scheme" where
  "bb_take c s r block_level totalSize =
     (case pop_free_list s r block_level of
        (block, s1) \<Rightarrow>
          let s2 = flip_allocated_block s1 r (bb_map_index (block_index c s1 block r block_level));
              s3 = (if sizeBits c \<noteq> 0 \<and> useSizeMap c then set_level c s2 block r block_level else s2)
          in (block, sub_free_size s3 r (rup2 totalSize)))"

fun bb_attempt :: "buddy_config \<Rightarrow> (nat \<Rightarrow> bool) \<Rightarrow> nat \<Rightarrow> nat \<Rightarrow> nat list \<Rightarrow> ('a) buddy_scheme
    \<Rightarrow> (nat option \<times> ('a) buddy_scheme) option" where
  "bb_attempt c locked level totalSize [] s = Some (None, s)"
| "bb_attempt c locked level totalSize (r # rs) s =
     (if locked r then bb_attempt c locked level totalSize rs s
      else case bb_search c level r level s of
          None \<Rightarrow> None
        | Some (None, s') \<Rightarrow> bb_attempt c locked level totalSize rs s'
        | Some (Some l, s') \<Rightarrow> (case bb_take c s' r l totalSize of (p, s2) \<Rightarrow> Some (Some p, s2)))"

definition bb_allocate_internal :: "buddy_config \<Rightarrow> (buddy_lock \<Rightarrow> bool) \<Rightarrow> ('a) buddy_scheme \<Rightarrow> nat
    \<Rightarrow> (nat option \<times> ('a) buddy_scheme) option" where
  "bb_allocate_internal c contended s totalSize =
     (let level = find_smallest_block_level c totalSize; regions = [0..<numRegions c];
          locked = (\<lambda>r. contended (RegionLock r))
      in case bb_attempt c locked level totalSize regions s of
           None \<Rightarrow> None
         | Some (Some p, s') \<Rightarrow> Some (Some p, s')
         | Some (None, s') \<Rightarrow>
             if list_ex locked regions then bb_attempt c (\<lambda>_. False) level totalSize regions s'
             else Some (None, s'))"

text \<open>The merging loop of \<open>deallocate_internal\<close>: the merged block, its level and the state.\<close>

fun bb_merge :: "buddy_config \<Rightarrow> nat \<Rightarrow> nat \<Rightarrow> nat \<Rightarrow> nat \<Rightarrow> ('a) buddy_scheme \<Rightarrow> nat \<times> nat \<times> ('a) buddy_scheme" where
  "bb_merge c region 0 block bud s = (block, 0, s)"
| "bb_merge c region (Suc l) block bud s =
     (if block_is_allocated s region (bb_map_index (block_index c s bud region (Suc l))) then (block, Suc l, s)
      else
        let s1 = (if Suc l < numLevels c - 1 \<and> sizeBits c = 0 \<and> useSizeMap c
                  then set_split_block s region (block_index c s block region (Suc l)) False else s);
            s2 = s1\<lparr>blinks := list_remove (blinks s1) (Block bud)\<rparr>;
            block' = (if bud < block then bud else block)
        in if l > 0
           then bb_merge c region l block' (get_buddy c s2 block' l)
                  (flip_allocated_block s2 region (bb_map_index (block_index c s2 block' region l)))
           else bb_merge c region l block' bud s2)"

definition bb_deallocate_internal :: "buddy_config \<Rightarrow> ('a) buddy_scheme \<Rightarrow> nat \<Rightarrow> nat \<Rightarrow> ('a) buddy_scheme" where
  "bb_deallocate_internal c s ptr sz =
     (let region = get_region c s ptr;
          level = get_level c s ptr sz;
          s1 = flip_allocated_block s region (bb_map_index (block_index c s ptr region level));
          bud = get_buddy c s1 ptr (get_level c s1 ptr sz)
      in case bb_merge c region level ptr bud s1 of
           (block, level', s2) \<Rightarrow>
             let s3 = (if level' < numLevels c - 1 \<and> sizeBits c = 0 \<and> useSizeMap c
                       then set_split_block s2 region (block_index c s2 block region level') False else s2);
                 s4 = add_free_size s3 region sz
             in push_free_list s4 block region level')"

text \<open>The public operations of the base class on these virtual functions. \<open>bb_alloc\<close> reads the
  result of \<open>allocate_internal\<close>, which always returns.\<close>

definition bb_alloc :: "buddy_config \<Rightarrow> (buddy_lock \<Rightarrow> bool) \<Rightarrow> ('a) buddy_scheme \<Rightarrow> nat \<Rightarrow> nat option \<times> ('a) buddy_scheme" where
  "bb_alloc c contended s sz = the (bb_allocate_internal c contended s sz)"

definition bb_allocate :: "buddy_config \<Rightarrow> (buddy_lock \<Rightarrow> bool) \<Rightarrow> ('a) buddy_scheme \<Rightarrow> nat \<Rightarrow> nat option \<times> ('a) buddy_scheme" where
  "bb_allocate c contended = buddy_allocate c contended (bb_alloc c contended)"

definition bb_free_sized :: "buddy_config \<Rightarrow> ('a) buddy_scheme \<Rightarrow> nat \<Rightarrow> nat \<Rightarrow> ('a) buddy_scheme" where
  "bb_free_sized c = buddy_deallocate_sized c (bb_deallocate_internal c)"

definition bb_free :: "buddy_config \<Rightarrow> ('a) buddy_scheme \<Rightarrow> nat \<Rightarrow> ('a) buddy_scheme" where
  "bb_free c = buddy_deallocate c (bb_deallocate_internal c)"

definition bb_free_range :: "buddy_config \<Rightarrow> ('a) buddy_scheme \<Rightarrow> nat \<Rightarrow> nat \<Rightarrow> ('a) buddy_scheme option" where
  "bb_free_range c = deallocate_range c (bb_deallocate_internal c)"

definition bb_aggregate :: "buddy_config \<Rightarrow> ('a) buddy_scheme \<Rightarrow> ('a) buddy_scheme" where
  "bb_aggregate c = empty_lazy_list c (bb_deallocate_internal c)"

definition bb_reset :: "buddy_config \<Rightarrow> ('a) buddy_scheme \<Rightarrow> ('a) buddy_scheme" where
  "bb_reset c = buddy_fill c (bb_init_bitmaps c)"

end
