(* ===== verification/Buddy_Nodes.thy ===== *)
theory Buddy_Nodes
  imports Zgc_Prelude
begin

text \<open>
  The specification of one region of the binary buddy allocator: the set of its free blocks.
  A block is a pair of its level and its index in the level, and stands for the set of
  smallest units below it. In a region that is fully merged no two buddies are both free, so
  an aligned block whose units are all free lies inside one free block.
\<close>

type_synonym node = "nat \<times> nat"

definition nspan :: "nat \<Rightarrow> node \<Rightarrow> nat set" where
  "nspan n b = {u. u div 2 ^ (n - 1 - fst b) = snd b}"

definition node_ok :: "nat \<Rightarrow> node \<Rightarrow> bool" where
  "node_ok n b \<longleftrightarrow> fst b < n \<and> snd b < 2 ^ fst b"

definition free_units :: "nat \<Rightarrow> node set \<Rightarrow> nat set" where
  "free_units n F = (\<Union>b \<in> F. nspan n b)"

definition nodes_ok :: "nat \<Rightarrow> node set \<Rightarrow> bool" where
  "nodes_ok n F \<longleftrightarrow> (\<forall>b \<in> F. node_ok n b) \<and> (\<forall>a \<in> F. \<forall>b \<in> F. a \<noteq> b \<longrightarrow> nspan n a \<inter> nspan n b = {})"

text \<open>Both children of a block free, except the children of the blocks in \<open>X\<close>.\<close>

definition merged :: "node set \<Rightarrow> node set \<Rightarrow> bool" where
  "merged X F \<longleftrightarrow> (\<forall>l i. (l, i) \<notin> X \<longrightarrow> \<not> ((Suc l, 2 * i) \<in> F \<and> (Suc l, Suc (2 * i)) \<in> F))"

definition pair_bit :: "node set \<Rightarrow> nat \<Rightarrow> nat \<Rightarrow> bool" where
  "pair_bit F l i \<longleftrightarrow> ((Suc l, 2 * i) \<in> F) \<noteq> ((Suc l, Suc (2 * i)) \<in> F)"

definition buddy_of :: "node \<Rightarrow> node" where
  "buddy_of b = (fst b, if even (snd b) then snd b + 1 else snd b - 1)"

definition parent_of :: "node \<Rightarrow> node" where
  "parent_of b = (fst b - 1, snd b div 2)"

lemma nspan_nonempty: "nspan n b \<noteq> {}"
proof -
  have "snd b * 2 ^ (n - 1 - fst b) \<in> nspan n b" by (simp add: nspan_def)
  then show ?thesis by blast
qed

lemma level_div:
  fixes u :: nat
  assumes "m \<le> l" "l < n"
  shows "u div 2 ^ (n - 1 - m) = (u div 2 ^ (n - 1 - l)) div 2 ^ (l - m)"
proof -
  have "n - 1 - m = (n - 1 - l) + (l - m)" using assms by simp
  then show ?thesis by (simp add: power_add div_mult2_eq)
qed

lemma nspan_interval: "nspan n b = {snd b * 2 ^ (n - 1 - fst b) ..< Suc (snd b) * 2 ^ (n - 1 - fst b)}"
proof -
  have "u div p = k \<longleftrightarrow> k * p \<le> u \<and> u < Suc k * p" if "0 < p" for u k p :: nat
    using that by (metis div_less_iff_less_mult less_Suc_eq_le less_eq_div_iff_mult_less_eq order_antisym order_refl)
  then show ?thesis by (auto simp: nspan_def simp del: mult_Suc)
qed

lemma card_nspan: "card (nspan n b) = 2 ^ (n - 1 - fst b)"
  by (simp add: nspan_interval)

lemma nspan_subset_level:
  assumes "nspan n z \<subseteq> nspan n e" "fst z < n" "fst e < n"
  shows "fst e \<le> fst z"
proof -
  have "(2::nat) ^ (n - 1 - fst z) \<le> 2 ^ (n - 1 - fst e)"
    using card_mono [OF _ assms(1)] by (simp add: card_nspan) (simp add: nspan_interval)
  then have "n - 1 - fst z \<le> n - 1 - fst e" by simp
  then show ?thesis using assms(2,3) by linarith
qed

text \<open>Two blocks overlap only if one contains the other.\<close>

lemma nspan_nested:
  assumes "fst a \<le> fst b" "fst b < n" "nspan n a \<inter> nspan n b \<noteq> {}"
  shows "nspan n b \<subseteq> nspan n a \<and> snd a = snd b div 2 ^ (fst b - fst a)"
  using assms(3) level_div [OF assms(1,2)] by (auto simp: nspan_def)

lemma nspan_same_level: "fst a = fst b \<Longrightarrow> nspan n a \<inter> nspan n b \<noteq> {} \<Longrightarrow> a = b"
  by (auto simp: nspan_def prod_eq_iff)

lemma nspan_children:
  assumes "Suc l < n"
  shows "nspan n (l, i) = nspan n (Suc l, 2 * i) \<union> nspan n (Suc l, Suc (2 * i))"
proof -
  have "u div 2 ^ (n - 1 - l) = u div 2 ^ (n - 1 - Suc l) div 2" for u :: nat
    using level_div [of l "Suc l" n u] assms by simp
  then show ?thesis by (auto simp: nspan_def; presburger)
qed

lemma children_disjoint: "nspan n (Suc l, 2 * i) \<inter> nspan n (Suc l, Suc (2 * i)) = {}"
  by (auto simp: nspan_def)

lemma nspan_parent:
  assumes "node_ok n b" "0 < fst b"
  shows "nspan n (parent_of b) = nspan n b \<union> nspan n (buddy_of b)" "nspan n b \<inter> nspan n (buddy_of b) = {}"
proof -
  obtain l i where b: "b = (Suc l, i)" using assms(2) by (cases b) (auto dest: gr0_implies_Suc)
  have n: "Suc l < n" using assms(1) b by (simp add: node_ok_def)
  show "nspan n (parent_of b) = nspan n b \<union> nspan n (buddy_of b)"
  proof (cases "even i")
    case True
    then show ?thesis using nspan_children [OF n, of "i div 2"] by (simp add: b parent_of_def buddy_of_def)
  next
    case False
    then have "Suc (2 * (i div 2)) = i" "2 * (i div 2) = i - Suc 0" by presburger+
    then show ?thesis using False nspan_children [OF n, of "i div 2"] by (simp add: b parent_of_def buddy_of_def Un_commute)
  qed
  have "snd (buddy_of b) \<noteq> snd b" by (auto simp: buddy_of_def elim: oddE)
  moreover have "fst (buddy_of b) = fst b" by (simp add: buddy_of_def)
  ultimately show "nspan n b \<inter> nspan n (buddy_of b) = {}" by (auto simp: nspan_def)
qed

lemma parent_ok: "node_ok n b \<Longrightarrow> 0 < fst b \<Longrightarrow> node_ok n (parent_of b)"
  by (cases b; cases "fst b") (auto simp: node_ok_def parent_of_def)

lemma buddy_ok: "node_ok n b \<Longrightarrow> 0 < fst b \<Longrightarrow> node_ok n (buddy_of b)"
proof -
  assume "node_ok n b" "0 < fst b"
  moreover have "even (2 ^ fst b :: nat)" if "0 < fst b" using that by simp
  ultimately show ?thesis by (auto simp: node_ok_def buddy_of_def; presburger)
qed

lemma nodes_ok_disjoint: "nodes_ok n F \<Longrightarrow> a \<in> F \<Longrightarrow> b \<in> F \<Longrightarrow> nspan n a \<inter> nspan n b \<noteq> {} \<Longrightarrow> a = b"
  by (auto simp: nodes_ok_def)

text \<open>An aligned block with only free units lies in a free block.\<close>

lemma free_block_covers:
  assumes ok: "nodes_ok n F" and mg: "merged {} F"
  shows "node_ok n b \<Longrightarrow> nspan n b \<subseteq> free_units n F \<Longrightarrow> \<exists>a \<in> F. nspan n b \<subseteq> nspan n a"
proof (induction "n - fst b" arbitrary: b)
  case 0
  then show ?case by (simp add: node_ok_def)
next
  case (Suc d)
  obtain l i where b: "b = (l, i)" by (cases b)
  show ?case
  proof (cases "Suc l < n")
    case False
    then have l: "n - 1 - l = 0" by simp
    then have one: "nspan n b = {i}" by (auto simp: b nspan_def)
    then obtain a where "a \<in> F" "i \<in> nspan n a" using Suc.prems(2) by (auto simp: free_units_def)
    then show ?thesis using one by auto
  next
    case True
    let ?x = "(Suc l, 2 * i)" and ?y = "(Suc l, Suc (2 * i))"
    have k: "node_ok n ?x" "node_ok n ?y" using Suc.prems(1) True by (auto simp: b node_ok_def)
    have bs: "nspan n b = nspan n ?x \<union> nspan n ?y" unfolding b by (rule nspan_children [OF True])
    have d: "d = n - fst ?x" "d = n - fst ?y" using Suc.hyps(2) True by (auto simp: b)
    obtain a where a: "a \<in> F" "nspan n ?x \<subseteq> nspan n a" using Suc.hyps(1) [OF d(1) k(1)] Suc.prems(2) bs by blast
    obtain c where c: "c \<in> F" "nspan n ?y \<subseteq> nspan n c" using Suc.hyps(1) [OF d(2) k(2)] Suc.prems(2) bs by blast
    have up: "nspan n b \<subseteq> nspan n e" if e: "e \<in> F" "nspan n z \<subseteq> nspan n e" "z = ?x \<or> z = ?y" "e \<noteq> z" for e z
    proof -
      have ne: "nspan n e \<inter> nspan n z \<noteq> {}" using e(2) nspan_nonempty [of n z] by blast
      have eo: "node_ok n e" using ok e(1) by (simp add: nodes_ok_def)
      have "fst e \<le> fst z" by (rule nspan_subset_level [OF e(2)]) (use eo e(3) True in \<open>auto simp: node_ok_def\<close>)
      moreover have "fst e \<noteq> fst z" using nspan_same_level [of e z n] ne e(4) by auto
      ultimately have "fst e \<le> l" using e(3) by auto
      then have "fst e \<le> fst b" by (simp add: b)
      moreover have "nspan n e \<inter> nspan n b \<noteq> {}" using ne bs e(3) by auto
      ultimately show ?thesis using nspan_nested [of e b n] True by (simp add: b)
    qed
    show ?thesis
    proof (cases "a = ?x \<and> c = ?y")
      case True
      then show ?thesis using mg a c by (auto simp: merged_def)
    next
      case False
      then show ?thesis using up [OF a] up [OF c] a c by auto
    qed
  qed
qed

subsection \<open>Taking, splitting and adding blocks\<close>

lemma nodes_ok_remove: "nodes_ok n F \<Longrightarrow> nodes_ok n (F - X)"
  by (auto simp: nodes_ok_def)

lemma units_remove: "nodes_ok n F \<Longrightarrow> b \<in> F \<Longrightarrow> free_units n (F - {b}) = free_units n F - nspan n b"
  by (auto simp: free_units_def nodes_ok_def)

lemma units_insert: "free_units n (insert b F) = nspan n b \<union> free_units n F"
  by (simp add: free_units_def)

lemma nodes_ok_insert:
  "nodes_ok n F \<Longrightarrow> node_ok n b \<Longrightarrow> nspan n b \<inter> free_units n F = {} \<Longrightarrow> nodes_ok n (insert b F)"
  by (auto simp: nodes_ok_def free_units_def)

lemma split_ok:
  assumes ok: "nodes_ok n F" and b: "(l, i) \<in> F" and n: "Suc l < n"
  defines "G \<equiv> insert (Suc l, 2 * i) (insert (Suc l, Suc (2 * i)) (F - {(l, i)}))"
  shows "nodes_ok n G" "free_units n G = free_units n F"
    "(Suc l, 2 * i) \<notin> F" "(Suc l, Suc (2 * i)) \<notin> F"
proof -
  let ?x = "(Suc l, 2 * i)" and ?y = "(Suc l, Suc (2 * i))"
  have bo: "node_ok n (l, i)" using ok b by (simp add: nodes_ok_def)
  then have k: "node_ok n ?x" "node_ok n ?y" using n by (auto simp: node_ok_def)
  have sp: "nspan n (l, i) = nspan n ?x \<union> nspan n ?y" by (rule nspan_children [OF n])
  have rest: "free_units n (F - {(l, i)}) = free_units n F - nspan n (l, i)" by (rule units_remove [OF ok b])
  have sub: "nspan n (l, i) \<subseteq> free_units n F" using b by (auto simp: free_units_def)
  show "nodes_ok n G"
    unfolding G_def
    by (rule nodes_ok_insert [OF nodes_ok_insert [OF nodes_ok_remove [OF ok] k(2)] k(1)])
      (use rest sp children_disjoint [of n l i] in \<open>auto simp: units_insert\<close>)
  show "free_units n G = free_units n F" unfolding G_def using rest sp sub by (auto simp: units_insert)
  have "z \<notin> F" if "nspan n z \<subseteq> nspan n (l, i)" "z \<noteq> (l, i)" for z
    using nodes_ok_disjoint [OF ok _ b, of z] that nspan_nonempty [of n z] by blast
  then show "?x \<notin> F" "?y \<notin> F" using sp by auto
qed

lemma merged_split:
  assumes "merged X F" "X \<subseteq> {(l - 1, i div 2)}" "(l, i) \<in> F"
    "\<forall>j. (Suc l, j) \<notin> F" "nodes_ok n F"
  shows "merged {(l, i)} (insert (Suc l, 2 * i) (insert (Suc l, Suc (2 * i)) (F - {(l, i)})))"
  unfolding merged_def
proof (intro allI impI notI)
  fix m j
  assume m: "(m, j) \<notin> {(l, i)}"
  let ?G = "insert (Suc l, 2 * i) (insert (Suc l, Suc (2 * i)) (F - {(l, i)}))"
  assume both: "(Suc m, 2 * j) \<in> ?G \<and> (Suc m, Suc (2 * j)) \<in> ?G"
  show False
  proof (cases "m = l")
    case True
    then show False using both m assms(4) by auto
  next
    case ml: False
    then have in_F: "(Suc m, 2 * j) \<in> F - {(l, i)}" "(Suc m, Suc (2 * j)) \<in> F - {(l, i)}" using both by auto
    show False
    proof (cases "(m, j) \<in> X")
      case True
      then have e: "m = l - 1" "j = i div 2" using assms(2) by auto
      show False
      proof (cases l)
        case 0
        then show False using ml e by simp
      next
        case (Suc k)
        then have "(l, i) = (Suc m, 2 * j) \<or> (l, i) = (Suc m, Suc (2 * j))" using e by (auto; presburger)
        then show False using in_F by auto
      qed
    next
      case False
      then show False using assms(1) in_F by (auto simp: merged_def)
    qed
  qed
qed

lemma merged_remove:
  assumes "merged X F" "X \<subseteq> {(l - 1, i div 2)}" "0 < l \<or> X = {}"
  shows "merged {} (F - {(l, i)})"
  unfolding merged_def
proof (intro allI impI notI)
  fix m j
  assume both: "(Suc m, 2 * j) \<in> F - {(l, i)} \<and> (Suc m, Suc (2 * j)) \<in> F - {(l, i)}"
  then have "(m, j) \<in> X" using assms(1) by (auto simp: merged_def)
  then have "m = l - 1" "j = i div 2" "0 < l" using assms(2,3) by auto
  then have "(l, i) = (Suc m, 2 * j) \<or> (l, i) = (Suc m, Suc (2 * j))" by (auto; presburger)
  then show False using both by auto
qed

lemma merged_add:
  assumes "merged {} F" "fst b = 0 \<or> buddy_of b \<notin> F"
  shows "merged {} (insert b F)"
  unfolding merged_def
proof (intro allI impI notI)
  fix l i
  assume both: "(Suc l, 2 * i) \<in> insert b F \<and> (Suc l, Suc (2 * i)) \<in> insert b F"
  have "b = (Suc l, 2 * i) \<or> b = (Suc l, Suc (2 * i))" using both assms(1) by (auto simp: merged_def)
  then have "buddy_of b \<in> F" using both by (auto simp: buddy_of_def)
  then show False using assms(2) \<open>b = _ \<or> b = _\<close> by auto
qed

lemma merged_subset: "merged X F \<Longrightarrow> G \<subseteq> F \<Longrightarrow> merged X G"
  by (auto simp: merged_def)

text \<open>The pair bit after one block of a pair changes.\<close>

lemma pair_bit_toggle:
  assumes "0 < fst b" "(b \<in> F) \<noteq> (b \<in> G)" "\<And>a. a \<noteq> b \<Longrightarrow> a \<in> G \<longleftrightarrow> a \<in> F"
  shows "pair_bit G l i \<longleftrightarrow> pair_bit F l i \<noteq> ((l, i) = parent_of b)"
proof -
  obtain k j where b: "b = (Suc k, j)" using assms(1) by (cases b) (auto dest: gr0_implies_Suc)
  have p: "(l, i) = parent_of b \<longleftrightarrow> (Suc l, 2 * i) = b \<or> (Suc l, Suc (2 * i)) = b"
    by (auto simp: b parent_of_def; presburger)
  have "\<not> ((Suc l, 2 * i) = b \<and> (Suc l, Suc (2 * i)) = b)" by (auto simp: b; presburger)
  then show ?thesis unfolding pair_bit_def p using assms(2) assms(3) by (metis (no_types))
qed

lemma pair_bit_buddy:
  assumes "0 < fst b" "b \<in> G"
  shows "pair_bit G (fst (parent_of b)) (snd (parent_of b)) \<longleftrightarrow> buddy_of b \<notin> G"
proof -
  obtain k j where b: "b = (Suc k, j)" using assms(1) by (cases b) (auto dest: gr0_implies_Suc)
  show ?thesis
  proof (cases "even j")
    case True
    then show ?thesis using assms(2) by (auto simp: b pair_bit_def buddy_of_def parent_of_def)
  next
    case False
    then have "Suc (2 * (j div 2)) = j" "2 * (j div 2) = j - Suc 0" by presburger+
    then show ?thesis using assms(2) False by (auto simp: b pair_bit_def buddy_of_def parent_of_def)
  qed
qed

end
