(* ===== verification/Bb_Rep.thy ===== *)
theory Bb_Rep
  imports Bb_Buddy Buddy_Nodes
begin

text \<open>
  The state of the binary buddy allocator stands for its free blocks: \<open>X r l\<close> is the sequence
  of indices of the free blocks of level \<open>l\<close> in region \<open>r\<close>, in list order, and \<open>Z l\<close> the
  addresses in the lazy list of the level. Effects of the list and bitmap operations on this
  representation.
\<close>

definition bb_heads :: "buddy_config \<Rightarrow> link_ptr set" where
  "bb_heads c = {FreeHead r l | r l. r < numRegions c \<and> l < numLevels c} \<union> {LazyHead l | l. l < numLevels c}"

definition naddr :: "buddy_config \<Rightarrow> ('a) buddy_scheme \<Rightarrow> nat \<Rightarrow> node \<Rightarrow> nat" where
  "naddr c s r b = baddr c s r (snd b * bsize c (fst b))"

definition bb_lists :: "buddy_config \<Rightarrow> ('a) buddy_scheme \<Rightarrow> (nat \<Rightarrow> nat \<Rightarrow> nat list) \<Rightarrow> (nat \<Rightarrow> nat list) \<Rightarrow> link_ptr \<Rightarrow> link_ptr list" where
  "bb_lists c s X Z h =
     (case h of FreeHead r l \<Rightarrow> map (\<lambda>i. Block (naddr c s r (l, i))) (X r l)
      | LazyHead l \<Rightarrow> map Block (Z l)
      | Block a \<Rightarrow> [])"

definition free_nodes :: "buddy_config \<Rightarrow> (nat \<Rightarrow> nat \<Rightarrow> nat list) \<Rightarrow> nat \<Rightarrow> node set" where
  "free_nodes c X r = {(l, i). l < numLevels c \<and> i \<in> set (X r l)}"

definition bits_ok :: "buddy_config \<Rightarrow> ('a) buddy_scheme \<Rightarrow> nat \<Rightarrow> node set \<Rightarrow> bool" where
  "bits_ok c s r F \<longleftrightarrow> length (freeBlocks s ! r) = allocedBitmapSize c
     \<and> (\<forall>l i. Suc l < numLevels c \<longrightarrow> i < 2 ^ l \<longrightarrow> (block_is_allocated s r (2 ^ l + i) \<longleftrightarrow> pair_bit F l i))"

definition bb_links :: "buddy_config \<Rightarrow> ('a) buddy_scheme \<Rightarrow> (nat \<Rightarrow> nat \<Rightarrow> nat list) \<Rightarrow> (nat \<Rightarrow> nat list) \<Rightarrow> bool" where
  "bb_links c s X Z \<longleftrightarrow> lists_rep (bb_heads c) (blinks s) (bb_lists c s X Z)"

text \<open>No block in a lazy list starts inside a free block.\<close>

definition uaddr :: "buddy_config \<Rightarrow> ('a) buddy_scheme \<Rightarrow> nat \<Rightarrow> nat \<Rightarrow> nat" where
  "uaddr c s r u = baddr c s r (u * 2 ^ minBlockSizeLog2 c)"

definition lazy_apart :: "buddy_config \<Rightarrow> ('a) buddy_scheme \<Rightarrow> nat \<Rightarrow> nat set \<Rightarrow> (nat \<Rightarrow> nat list) \<Rightarrow> bool" where
  "lazy_apart c s r U Z \<longleftrightarrow> (\<forall>l < numLevels c. \<forall>u \<in> U. uaddr c s r u \<notin> set (Z l))"

text \<open>\<open>Y r\<close> are the blocks of region \<open>r\<close> whose two children may be free at the same time.\<close>

definition bb_gen :: "buddy_config \<Rightarrow> ('a) buddy_scheme \<Rightarrow> (nat \<Rightarrow> nat \<Rightarrow> nat list) \<Rightarrow> (nat \<Rightarrow> nat list) \<Rightarrow> (nat \<Rightarrow> node set) \<Rightarrow> bool" where
  "bb_gen c s X Z Y \<longleftrightarrow> placed c s \<and> length (freeBlocks s) = numRegions c \<and> bb_links c s X Z
     \<and> (\<forall>r < numRegions c. nodes_ok (numLevels c) (free_nodes c X r) \<and> merged (Y r) (free_nodes c X r)
          \<and> bits_ok c s r (free_nodes c X r) \<and> lazy_apart c s r (free_units (numLevels c) (free_nodes c X r)) Z)"

definition bb_inv :: "buddy_config \<Rightarrow> ('a) buddy_scheme \<Rightarrow> (nat \<Rightarrow> nat \<Rightarrow> nat list) \<Rightarrow> (nat \<Rightarrow> nat list) \<Rightarrow> bool" where
  "bb_inv c s X Z \<longleftrightarrow> bb_gen c s X Z (\<lambda>_. {})"

definition upX :: "(nat \<Rightarrow> nat \<Rightarrow> nat list) \<Rightarrow> nat \<Rightarrow> nat \<Rightarrow> nat list \<Rightarrow> nat \<Rightarrow> nat \<Rightarrow> nat list" where
  "upX X r l xs = X(r := (X r)(l := xs))"

definition lazy_same :: "('a) buddy_scheme \<Rightarrow> ('a) buddy_scheme \<Rightarrow> bool" where
  "lazy_same s s' \<longleftrightarrow> bstart s' = bstart s \<and> lazyListSize s' = lazyListSize s \<and> lazyThresholds s' = lazyThresholds s"

lemma lazy_same_refl [simp]: "lazy_same s s"
  by (simp add: lazy_same_def)

lemma lazy_same_trans: "lazy_same s t \<Longrightarrow> lazy_same t u \<Longrightarrow> lazy_same s u"
  by (simp add: lazy_same_def)

lemma push_free_list_bstart [simp]: "bstart (push_free_list s p r l) = bstart s"
  by (simp add: push_free_list_def)

subsection \<open>Addresses of blocks\<close>

lemma upX_nth [simp]: "upX X r l xs r' k = (if r' = r \<and> k = l then xs else X r' k)"
  by (simp add: upX_def)

lemma free_nodes_up: "l < numLevels c \<Longrightarrow>
   free_nodes c (upX X r l xs) r' = (if r' = r then {b \<in> free_nodes c X r. fst b \<noteq> l} \<union> {(l, i) | i. i \<in> set xs} else free_nodes c X r')"
  by (auto simp: free_nodes_def split: if_splits)

lemma bb_lists_up: "bb_lists c s (upX X r l xs) Z = (bb_lists c s X Z)(FreeHead r l := map (\<lambda>i. Block (naddr c s r (l, i))) xs)"
  by (rule ext) (auto simp: bb_lists_def split: link_ptr.splits)

lemma naddr_cong: "bstart s' = bstart s \<Longrightarrow> naddr c s' = naddr c s"
  by (intro ext) (simp add: naddr_def baddr_def)

lemma bb_lists_cong:
  assumes "bstart s' = bstart s"
  shows "bb_lists c s' = bb_lists c s"
  by (intro ext) (simp only: bb_lists_def naddr_cong [OF assms])

lemma bb_links_cong:
  assumes "bstart s' = bstart s" "blinks s' = blinks s"
  shows "bb_links c s' X Z = bb_links c s X Z"
  unfolding bb_links_def bb_lists_cong [OF assms(1)] assms(2) ..

lemma node_offset:
  assumes "cfg_ok c" "node_ok (numLevels c) b"
  shows "snd b * bsize c (fst b) < 2 ^ maxBlockSizeLog2 c" "snd b * bsize c (fst b) + bsize c (fst b) \<le> 2 ^ maxBlockSizeLog2 c"
proof -
  have l: "fst b < numLevels c" "snd b < 2 ^ fst b" using assms(2) by (simp_all add: node_ok_def)
  have "(2::nat) ^ maxBlockSizeLog2 c = 2 ^ fst b * bsize c (fst b)"
    unfolding bsize_def by (rule pow2_split [OF level_le_max [OF assms(1) l(1)]])
  moreover have "Suc (snd b) * bsize c (fst b) \<le> 2 ^ fst b * bsize c (fst b)" using l(2) by (intro mult_le_mono1) simp
  ultimately show "snd b * bsize c (fst b) + bsize c (fst b) \<le> 2 ^ maxBlockSizeLog2 c" by simp
  then show "snd b * bsize c (fst b) < 2 ^ maxBlockSizeLog2 c" using bsize_pos [of c "fst b"] by linarith
qed

lemma bsize_units:
  assumes "cfg_ok c" "l < numLevels c"
  shows "bsize c l = 2 ^ (numLevels c - 1 - l) * 2 ^ minBlockSizeLog2 c"
  using assms cfg_okD [of c] by (simp add: bsize_def numLevels_eq flip: power_add)

lemma uaddr_cong: "bstart s' = bstart s \<Longrightarrow> uaddr c s' r u = uaddr c s r u"
  by (simp add: uaddr_def baddr_def)

lemma lazy_apart_cong: "bstart s' = bstart s \<Longrightarrow> lazy_apart c s' r U Z = lazy_apart c s r U Z"
  by (simp add: lazy_apart_def uaddr_def baddr_def)

lemma lazy_apart_mono: "lazy_apart c s r U Z \<Longrightarrow> V \<subseteq> U \<Longrightarrow> lazy_apart c s r V Z"
  by (auto simp: lazy_apart_def)

lemma naddr_unit:
  assumes "cfg_ok c" "node_ok (numLevels c) b"
  shows "naddr c s r b = uaddr c s r (snd b * 2 ^ (numLevels c - 1 - fst b))"
    "snd b * 2 ^ (numLevels c - 1 - fst b) \<in> nspan (numLevels c) b"
  using assms(2) by (simp_all add: naddr_def uaddr_def node_ok_def bsize_units [OF assms(1)] nspan_def mult.assoc)

lemma lazy_apart_naddr:
  assumes "cfg_ok c" "node_ok (numLevels c) b" "lazy_apart c s r (nspan (numLevels c) b) Z" "l < numLevels c"
  shows "naddr c s r b \<notin> set (Z l)"
  using assms(3,4) naddr_unit(2) [OF assms(1,2)] unfolding lazy_apart_def naddr_unit(1) [OF assms(1,2)] by blast

lemma naddr_overlap:
  assumes "cfg_ok c" "placed c s" "r < numRegions c" "r' < numRegions c"
    "node_ok (numLevels c) a" "node_ok (numLevels c) b" "naddr c s r a = naddr c s r' b"
  shows "r = r' \<and> nspan (numLevels c) a \<inter> nspan (numLevels c) b \<noteq> {}"
proof -
  have r: "r = r'"
    using get_region_baddr [OF assms(1,2,3) node_offset(1) [OF assms(1,5)]]
      get_region_baddr [OF assms(1,2,4) node_offset(1) [OF assms(1,6)]] assms(7) by (simp add: naddr_def)
  then have "snd a * bsize c (fst a) = snd b * bsize c (fst b)" using assms(7) by (simp add: naddr_def baddr_def)
  then have "snd a * 2 ^ (numLevels c - 1 - fst a) = snd b * 2 ^ (numLevels c - 1 - fst b)"
    using assms(5,6) by (simp add: bsize_units [OF assms(1)] node_ok_def)
  then have "snd a * 2 ^ (numLevels c - 1 - fst a) \<in> nspan (numLevels c) a \<inter> nspan (numLevels c) b"
    by (simp add: nspan_def) (metis nonzero_mult_div_cancel_right power_not_zero zero_neq_numeral)
  then show ?thesis using r by blast
qed

lemma naddr_region:
  assumes "cfg_ok c" "placed c s" "r < numRegions c" "node_ok (numLevels c) b"
  shows "get_region c s (naddr c s r b) = r"
  using get_region_baddr [OF assms(1-3) node_offset(1) [OF assms(1,4)]] by (simp add: naddr_def)

lemma naddr_pos: "placed c s \<Longrightarrow> 0 < naddr c s r b"
  by (simp add: naddr_def baddr_def placed_def)

lemma map_index_node:
  assumes "cfg_ok c" "placed c s" "r < numRegions c" "node_ok (numLevels c) b"
  shows "bb_map_index (block_index c s (naddr c s r b) r (fst b))
    = (if fst b = 0 then 0 else 2 ^ (fst b - 1) + snd b div 2)"
proof -
  obtain l i where b: "b = (l, i)" by (cases b)
  have n: "l < numLevels c" "i < 2 ^ l" using assms(4) by (simp_all add: b node_ok_def)
  have idx: "block_index c s (naddr c s r b) r l = index_of_level l + i"
    using block_index_eq [OF assms(1-3) node_offset(1) [OF assms(1,4)] n(1)] by (simp add: b naddr_def)
  show ?thesis
  proof (cases l)
    case 0
    then show ?thesis using idx n by (simp add: b index_of_level_def bb_map_index_def)
  next
    case (Suc k)
    have "(1::nat) \<le> 2 ^ k" by simp
    then obtain p where p: "(2::nat) ^ k = Suc p" by (cases "(2::nat) ^ k") auto
    then show ?thesis using idx by (simp add: b Suc index_of_level_def bb_map_index_def)
  qed
qed

lemma buddy_addr:
  assumes "cfg_ok c" "placed c s" "r < numRegions c" "node_ok (numLevels c) b" "0 < fst b"
  shows "get_buddy c s (naddr c s r b) (fst b) = naddr c s r (buddy_of b)"
proof -
  have d: "bsize c (fst b) dvd snd b * bsize c (fst b)" by simp
  have n: "fst b < numLevels c" using assms(4) by (simp add: node_ok_def)
  have "boff c (fst b) (snd b * bsize c (fst b)) = snd (buddy_of b) * bsize c (fst b)"
    by (cases "snd b") (auto simp: boff_def buddy_of_def diff_mult_distrib)
  then show ?thesis
    using get_buddy_eq(1) [OF assms(1-3) node_offset(1) [OF assms(1,4)] n assms(5) d]
    by (simp add: naddr_def buddy_of_def)
qed

lemma parent_addr:
  assumes "cfg_ok c" "node_ok (numLevels c) b" "0 < fst b"
  shows "(if naddr c s r (buddy_of b) < naddr c s r b then naddr c s r (buddy_of b) else naddr c s r b)
    = naddr c s r (parent_of b)"
proof -
  obtain l i where b: "b = (Suc l, i)" using assms(3) by (cases b) (auto dest: gr0_implies_Suc)
  have "Suc l \<le> maxBlockSizeLog2 c" using assms(2) level_le_max [OF assms(1)] by (simp add: b node_ok_def)
  then have z: "bsize c l = 2 * bsize c (Suc l)" by (intro bsize_Suc) simp
  show ?thesis
  proof (cases "even i")
    case True
    then obtain j where "i = 2 * j" by (elim evenE)
    then show ?thesis using z by (simp add: b naddr_def baddr_def buddy_of_def parent_of_def)
  next
    case False
    then obtain j where "i = Suc (2 * j)" by (elim oddE) auto
    then show ?thesis using z by (simp add: b naddr_def baddr_def buddy_of_def parent_of_def)
  qed
qed

lemma child_addr:
  assumes "cfg_ok c" "placed c s" "r < numRegions c" "node_ok (numLevels c) (l, i)" "Suc l < numLevels c"
  shows "naddr c s r (Suc l, 2 * i) = naddr c s r (l, i)"
    "w64 (naddr c s r (l, i) + size_of_level c (l + 1)) = naddr c s r (Suc l, Suc (2 * i))"
proof -
  have "Suc l \<le> maxBlockSizeLog2 c" using level_le_max [OF assms(1,5)] .
  then have z: "bsize c l = 2 * bsize c (Suc l)" "size_of_level c (Suc l) = bsize c (Suc l)"
    using size_of_level_eq [OF assms(1)] by (auto intro!: bsize_Suc)
  show "naddr c s r (Suc l, 2 * i) = naddr c s r (l, i)" using z by (simp add: naddr_def mult.assoc mult.left_commute)
  have k: "node_ok (numLevels c) (Suc l, Suc (2 * i))" using assms(4,5) by (simp add: node_ok_def)
  have "naddr c s r (Suc l, Suc (2 * i)) < 18446744073709551616"
    using baddr_lt [OF assms(2,3) node_offset(1) [OF assms(1) k]] assms(2) by (simp add: naddr_def placed_def)
  moreover have "naddr c s r (l, i) + size_of_level c (l + 1) = naddr c s r (Suc l, Suc (2 * i))"
    using z by (simp add: naddr_def baddr_def)
  ultimately show "w64 (naddr c s r (l, i) + size_of_level c (l + 1)) = naddr c s r (Suc l, Suc (2 * i))"
    by (simp add: w64_id)
qed

subsection \<open>List operations\<close>

lemma free_head: "r < numRegions c \<Longrightarrow> l < numLevels c \<Longrightarrow> FreeHead r l \<in> bb_heads c"
  by (auto simp: bb_heads_def)

lemma head_notin_lists: "h \<in> bb_heads c \<Longrightarrow> Block a \<noteq> h"
  by (auto simp: bb_heads_def)

text \<open>A block disjoint from the free blocks and from the lazy blocks is in no list.\<close>

lemma unlisted_notin:
  assumes "cfg_ok c" "placed c s" "r < numRegions c" "node_ok (numLevels c) b"
    "nspan (numLevels c) b \<inter> free_units (numLevels c) (free_nodes c X r) = {}" "lazy_apart c s r (nspan (numLevels c) b) Z"
    "\<And>r. r < numRegions c \<Longrightarrow> nodes_ok (numLevels c) (free_nodes c X r)" "h \<in> bb_heads c"
  shows "Block (naddr c s r b) \<notin> set (h # bb_lists c s X Z h)"
proof -
  have "naddr c s r b \<noteq> naddr c s r' (l, i)" if "r' < numRegions c" "l < numLevels c" "i \<in> set (X r' l)" for r' l i
  proof
    assume e: "naddr c s r b = naddr c s r' (l, i)"
    have m: "(l, i) \<in> free_nodes c X r'" using that by (simp add: free_nodes_def)
    then have "node_ok (numLevels c) (l, i)" using assms(7) [OF that(1)] by (auto simp: nodes_ok_def)
    from naddr_overlap [OF assms(1-3) that(1) assms(4) this e] m assms(5)
    show False by (auto simp: free_units_def)
  qed
  then show ?thesis
    using assms(8) lazy_apart_naddr [OF assms(1,4,6)]
    by (cases h) (fastforce simp: bb_heads_def bb_lists_def)+
qed

lemma push_links:
  assumes "cfg_ok c" "placed c s" "bb_links c s X Z" "r < numRegions c" "node_ok (numLevels c) (l, i)"
    "\<And>h. h \<in> bb_heads c \<Longrightarrow> Block (naddr c s r (l, i)) \<notin> set (h # bb_lists c s X Z h)"
  shows "bb_links c (push_free_list s (naddr c s r (l, i)) r l) (upX X r l (X r l @ [i])) Z"
proof -
  have l: "l < numLevels c" using assms(5) by (simp add: node_ok_def)
  have "lists_rep (bb_heads c) (push_back (blinks s) (FreeHead r l) (Block (naddr c s r (l, i))))
      ((bb_lists c s X Z)(FreeHead r l := bb_lists c s X Z (FreeHead r l) @ [Block (naddr c s r (l, i))]))"
    by (rule bl.push_law [OF assms(3) [unfolded bb_links_def] free_head [OF assms(4) l] assms(6)])
  moreover have "bb_lists c s X Z (FreeHead r l) = map (\<lambda>i. Block (naddr c s r (l, i))) (X r l)" by (simp add: bb_lists_def)
  ultimately show ?thesis
    unfolding bb_links_def bb_lists_cong [of "push_free_list s (naddr c s r (l, i)) r l" s, OF push_free_list_bstart]
    by (simp add: bb_lists_up push_free_list_def)
qed

lemma pop_links:
  assumes "bb_links c s X Z" "r < numRegions c" "l < numLevels c" "X r l = i # is"
  shows "\<exists>t. pop_free_list s r l = (naddr c s r (l, i), s\<lparr>blinks := t\<rparr>) \<and> bb_links c (s\<lparr>blinks := t\<rparr>) (upX X r l is) Z"
proof -
  have "bb_lists c s X Z (FreeHead r l) = Block (naddr c s r (l, i)) # map (\<lambda>i. Block (naddr c s r (l, i))) is"
    using assms(4) by (simp add: bb_lists_def)
  from bl.pop_law [OF assms(1) [unfolded bb_links_def] free_head [OF assms(2,3)] this]
  obtain t where t: "pop_first (blinks s) (FreeHead r l) = (Some (Block (naddr c s r (l, i))), t)"
    "lists_rep (bb_heads c) t ((bb_lists c s X Z)(FreeHead r l := map (\<lambda>i. Block (naddr c s r (l, i))) is))" by blast
  have "bstart (s\<lparr>blinks := t\<rparr>) = bstart s" by simp
  then have "bb_links c (s\<lparr>blinks := t\<rparr>) (upX X r l is) Z"
    unfolding bb_links_def bb_lists_cong [OF \<open>bstart (s\<lparr>blinks := t\<rparr>) = bstart s\<close>] bb_lists_up using t(2) by simp
  then show ?thesis using t(1) by (auto simp: pop_free_list_def link_address_def)
qed

lemma remove1_map: "inj f \<Longrightarrow> remove1 (f x) (map f xs) = map f (remove1 x xs)"
  by (induction xs) (auto simp: inj_eq)

lemma remove_links:
  assumes "cfg_ok c" "bb_links c s X Z" "r < numRegions c" "l < numLevels c" "i \<in> set (X r l)"
  shows "bb_links c (s\<lparr>blinks := list_remove (blinks s) (Block (naddr c s r (l, i)))\<rparr>) (upX X r l (remove1 i (X r l))) Z"
proof -
  have inj: "inj (\<lambda>i. Block (naddr c s r (l, i)))"
    by (rule injI) (use bsize_pos [of c l] in \<open>simp add: naddr_def baddr_def\<close>)
  let ?u = "s\<lparr>blinks := list_remove (blinks s) (Block (naddr c s r (l, i)))\<rparr>"
  have e: "bb_lists c s X Z (FreeHead r l) = map (\<lambda>i. Block (naddr c s r (l, i))) (X r l)" by (simp add: bb_lists_def)
  have "Block (naddr c s r (l, i)) \<in> set (bb_lists c s X Z (FreeHead r l))" using assms(5) e by auto
  from bl.remove_law [OF assms(2) [unfolded bb_links_def] free_head [OF assms(3,4)] this]
  have "lists_rep (bb_heads c) (blinks ?u) ((bb_lists c s X Z)(FreeHead r l := map (\<lambda>i. Block (naddr c s r (l, i))) (remove1 i (X r l))))"
    using remove1_map [OF inj, of i "X r l"] by (simp add: e)
  moreover have "bstart ?u = bstart s" by simp
  ultimately show ?thesis unfolding bb_links_def bb_lists_cong [OF \<open>bstart ?u = bstart s\<close>] bb_lists_up by simp
qed

lemma links_empty:
  assumes "bb_links c s X Z" "r < numRegions c" "l < numLevels c"
  shows "free_list_empty s r l \<longleftrightarrow> X r l = []"
  using bl.empty_law [OF assms(1) [unfolded bb_links_def] free_head [OF assms(2,3)]]
  by (simp add: free_list_empty_def bb_lists_def)

lemma links_distinct:
  assumes "bb_links c s X Z" "r < numRegions c" "l < numLevels c"
  shows "distinct (X r l)"
  using bl.distinct_law [OF assms(1) [unfolded bb_links_def] free_head [OF assms(2,3)]]
  by (simp add: bb_lists_def distinct_map)

subsection \<open>Pair bits\<close>

lemma flip_bits:
  assumes "3 \<le> numLevels c" "length (freeBlocks s) = numRegions c" "r < numRegions c"
    "length (freeBlocks s ! r) = allocedBitmapSize c" "numLevels c < 32" "k < 2 ^ (numLevels c - 1)"
  shows "length (freeBlocks (flip_allocated_block s r k)) = numRegions c"
    "length (freeBlocks (flip_allocated_block s r k) ! r') = length (freeBlocks s ! r')"
    "block_is_allocated (flip_allocated_block s r k) r' j \<longleftrightarrow> block_is_allocated s r' j \<noteq> (r' = r \<and> j = k)"
proof -
  obtain n where n: "numLevels c = 3 + n" using assms(1) le_Suc_ex by blast
  have "(2::nat) ^ (numLevels c - 1) \<le> 2 ^ numLevels c" by simp
  then have "k < 2 ^ numLevels c" using assms(6) by linarith
  moreover have p: "(2::nat) ^ numLevels c = 2 ^ n * 8" by (simp add: n power_add)
  ultimately have "k div 8 < 2 ^ n" by (intro less_mult_imp_div_less) simp
  then have "k div 8 < 2 ^ numLevels c div 8" unfolding p by simp
  then have k: "k div 8 < length (freeBlocks s ! r)"
    using assms(4,5) by (simp add: allocedBitmapSize_def w32_id pow2_31)
  let ?f = "flip_allocated_block s r k"
  show "length (freeBlocks ?f) = numRegions c" using assms(2) by (simp add: flip_allocated_block_def)
  have "freeBlocks ?f ! r' = (if r' = r then bh_flip_bit (freeBlocks s ! r) k else freeBlocks s ! r')"
    using assms(2,3) by (simp add: flip_allocated_block_def)
  then show "length (freeBlocks ?f ! r') = length (freeBlocks s ! r')"
    "block_is_allocated ?f r' j \<longleftrightarrow> block_is_allocated s r' j \<noteq> (r' = r \<and> j = k)"
    using bit_is_set_flip [OF k, of j] by (auto simp: block_is_allocated_def)
qed

end
