(* ===== verification/Bb_Alloc.thy ===== *)
theory Bb_Alloc
  imports Bb_Rep
begin

text \<open>
  Correctness of \<open>allocate_internal\<close> and \<open>deallocate_internal\<close> of the binary buddy allocator
  against the specification of \<open>Buddy_Nodes\<close>: allocation takes an aligned block out of the
  free units, or fails only when no aligned block of the size is free; release adds the
  units of any aligned block that was not free, and merges it with its buddies.
\<close>

definition bb_cfg :: "buddy_config \<Rightarrow> bool" where
  "bb_cfg c \<longleftrightarrow> cfg_ok c \<and> 3 \<le> numLevels c"

lemma bb_cfgD:
  assumes "bb_cfg c"
  shows "cfg_ok c" "3 \<le> numLevels c" "numLevels c < 32"
  using assms cfg_okD [of c] by (auto simp: bb_cfg_def numLevels_eq)

text \<open>The frame of one region: what a change of region \<open>r\<close> must establish.\<close>

lemma bb_gen_update:
  assumes g: "bb_gen c s X Z Y" and r: "r < numRegions c" and f: "bstart s' = bstart s"
    and len: "length (freeBlocks s') = numRegions c" and lk: "bb_links c s' X' Z"
    and own: "nodes_ok (numLevels c) (free_nodes c X' r)" "merged W (free_nodes c X' r)" "bits_ok c s' r (free_nodes c X' r)"
      "lazy_apart c s r (free_units (numLevels c) (free_nodes c X' r)) Z"
    and other: "\<And>r' l. r' \<noteq> r \<Longrightarrow> X' r' l = X r' l"
      "\<And>r'. r' \<noteq> r \<Longrightarrow> freeBlocks s' ! r' = freeBlocks s ! r'"
  shows "bb_gen c s' X' Z (Y(r := W))"
proof -
  have nodes: "free_nodes c X' r' = free_nodes c X r'" if "r' \<noteq> r" for r'
    using other(1) [OF that] by (simp add: free_nodes_def)
  have bits: "bits_ok c s' r' (free_nodes c X' r') = bits_ok c s r' (free_nodes c X r')" if "r' \<noteq> r" for r'
    using nodes [OF that] other(2) [OF that] by (simp add: bits_ok_def block_is_allocated_def)
  have apart: "lazy_apart c s' r' U Z = lazy_apart c s r' U Z" for r' U by (rule lazy_apart_cong [OF f])
  have "placed c s'" using g f by (simp add: bb_gen_def placed_def)
  then show ?thesis
    unfolding bb_gen_def apart using g len lk own nodes bits
    by (auto simp: bb_gen_def) 
qed

lemma trivial_upd: "(\<lambda>_. {})(r := {}) = (\<lambda>_. {})"
  by (rule ext) simp

text \<open>Changes of fields the invariant does not read.\<close>

lemma bb_gen_cong:
  assumes "bb_gen c s X Z Y" "bstart s' = bstart s" "blinks s' = blinks s" "freeBlocks s' = freeBlocks s"
  shows "bb_gen c s' X Z Y"
  using assms(1) bb_links_cong [OF assms(2,3)] lazy_apart_cong [OF assms(2)] assms(2,4)
  by (simp add: bb_gen_def placed_def bits_ok_def block_is_allocated_def)

lemma bb_field_ops [simp]:
  "bstart (flip_allocated_block s r k) = bstart s" "blinks (flip_allocated_block s r k) = blinks s"
  "bstart (set_split_block s r k b) = bstart s" "blinks (set_split_block s r k b) = blinks s"
  "freeBlocks (set_split_block s r k b) = freeBlocks s"
  "bstart (set_level c s p r l) = bstart s" "blinks (set_level c s p r l) = blinks s"
  "freeBlocks (set_level c s p r l) = freeBlocks s"
  "bstart (sub_free_size s r n) = bstart s" "blinks (sub_free_size s r n) = blinks s"
  "freeBlocks (sub_free_size s r n) = freeBlocks s"
  "bstart (add_free_size s r n) = bstart s" "blinks (add_free_size s r n) = blinks s"
  "freeBlocks (add_free_size s r n) = freeBlocks s"
  "freeBlocks (push_free_list s p r l) = freeBlocks s"
  by (simp_all add: flip_allocated_block_def set_split_block_def set_level_def sub_free_size_def add_free_size_def
      push_free_list_def Let_def)

lemma lazy_same_ops [simp]:
  "lazy_same s (flip_allocated_block t r k) = lazy_same s t" "lazy_same s (set_split_block t r k b) = lazy_same s t"
  "lazy_same s (set_level c t p r l) = lazy_same s t" "lazy_same s (sub_free_size t r n) = lazy_same s t"
  "lazy_same s (add_free_size t r n) = lazy_same s t" "lazy_same s (push_free_list t p r l) = lazy_same s t"
  "lazy_same s (t\<lparr>blinks := u\<rparr>) = lazy_same s t"
  by (simp_all add: lazy_same_def flip_allocated_block_def set_split_block_def set_level_def sub_free_size_def
      add_free_size_def push_free_list_def Let_def)

lemma geometry_cong:
  assumes "bstart s' = bstart s"
  shows "block_index c s' p r l = block_index c s p r l" "get_buddy c s' p l = get_buddy c s p l"
    "get_region c s' p = get_region c s p"
  using assms by (simp_all add: block_index_def index_in_level_def region_start_def get_buddy_def get_region_def
      buddy_index_def)

lemma heap_index_less: "node_ok n b \<Longrightarrow> 0 < fst b \<Longrightarrow> (2::nat) ^ (fst b - 1) + snd b div 2 < 2 ^ (n - 1)"
proof -
  assume b: "node_ok n b" "0 < fst b"
  then obtain k where k: "fst b = Suc k" by (auto dest: gr0_implies_Suc)
  then have "snd b div 2 < 2 ^ k" using b by (intro less_mult_imp_div_less) (simp add: node_ok_def)
  moreover have "(2::nat) ^ Suc k \<le> 2 ^ (n - 1)" using b k by (intro power_increasing) (auto simp: node_ok_def)
  ultimately show ?thesis using k by simp
qed

lemma heap_index_inj:
  assumes "i < 2 ^ l" "j < 2 ^ m" "(2::nat) ^ l + i = 2 ^ m + j"
  shows "l = m \<and> i = j"
proof -
  have "floorlog 2 (2 ^ l + i) = Suc l" "floorlog 2 (2 ^ m + j) = Suc m" using floorlog_heap assms by blast+
  then show ?thesis using assms(3) by simp
qed

text \<open>Flipping the bit of a block's pair follows a change of the block's membership.\<close>

lemma bits_flip:
  assumes c: "bb_cfg c" and len: "length (freeBlocks s) = numRegions c" and r: "r < numRegions c"
    and bits: "bits_ok c s r F" and b: "node_ok (numLevels c) b"
    and tog: "0 < fst b \<Longrightarrow> (b \<in> F) \<noteq> (b \<in> G)" "\<And>a. fst a \<noteq> 0 \<Longrightarrow> a \<noteq> b \<Longrightarrow> a \<in> G \<longleftrightarrow> a \<in> F"
    and k: "k = (if fst b = 0 then 0 else 2 ^ (fst b - 1) + snd b div 2)"
  shows "bits_ok c (flip_allocated_block s r k) r G"
    "length (freeBlocks (flip_allocated_block s r k)) = numRegions c"
    "\<And>r'. r' \<noteq> r \<Longrightarrow> freeBlocks (flip_allocated_block s r k) ! r' = freeBlocks s ! r'"
proof -
  have N: "3 \<le> numLevels c" "numLevels c < 32" using bb_cfgD [OF c] by simp_all
  have "k < 2 ^ (numLevels c - 1)" using heap_index_less [OF b] by (simp add: k)
  note fl = flip_bits [OF N(1) len r _ N(2) this]
  have l0: "length (freeBlocks s ! r) = allocedBitmapSize c" using bits by (simp add: bits_ok_def)
  show "length (freeBlocks (flip_allocated_block s r k)) = numRegions c" by (rule fl(1) [OF l0])
  show "\<And>r'. r' \<noteq> r \<Longrightarrow> freeBlocks (flip_allocated_block s r k) ! r' = freeBlocks s ! r'"
    by (simp add: flip_allocated_block_def)
  have "pair_bit G l i \<longleftrightarrow> pair_bit F l i \<noteq> (2 ^ l + i = k)" if li: "Suc l < numLevels c" "i < 2 ^ l" for l i
  proof (cases "fst b = 0")
    case True
    then have "(Suc l, j) \<in> G \<longleftrightarrow> (Suc l, j) \<in> F" for j using tog(2) [of "(Suc l, j)"] by fastforce
    then have "pair_bit G l i = pair_bit F l i" by (simp add: pair_bit_def)
    moreover have "2 ^ l + i \<noteq> k" using True k by simp
    ultimately show ?thesis by simp
  next
    case False
    define G' where "G' = (if b \<in> G then insert b F else F - {b})"
    have "pair_bit G' l i \<longleftrightarrow> pair_bit F l i \<noteq> ((l, i) = parent_of b)"
      by (rule pair_bit_toggle) (use False tog(1) in \<open>auto simp: G'_def\<close>)
    moreover have "(Suc l, j) \<in> G' \<longleftrightarrow> (Suc l, j) \<in> G" for j
      using tog(2) [of "(Suc l, j)"] by (cases "(Suc l, j) = b") (auto simp: G'_def)
    then have "pair_bit G' l i = pair_bit G l i" by (simp add: pair_bit_def)
    moreover have "(l, i) = parent_of b \<longleftrightarrow> 2 ^ l + i = k"
    proof -
      have "snd b div 2 < 2 ^ (fst b - 1)" using parent_ok [OF b] False by (simp add: node_ok_def parent_of_def)
      from heap_index_inj [OF li(2) this] show ?thesis using False by (auto simp: k parent_of_def)
    qed
    ultimately show ?thesis by simp
  qed
  then show "bits_ok c (flip_allocated_block s r k) r G"
    using bits fl(2,3) [OF l0] by (simp add: bits_ok_def)
qed

subsection \<open>Splitting\<close>

lemma pair_bit_kids:
  assumes "(Suc l, 2 * i) \<notin> F" "(Suc l, Suc (2 * i)) \<notin> F"
  shows "pair_bit (insert (Suc l, 2 * i) (insert (Suc l, Suc (2 * i)) F)) k j = pair_bit F k j"
proof (cases "k = l \<and> j = i")
  case True
  then show ?thesis using assms by (simp add: pair_bit_def)
next
  case False
  then have "(Suc k, 2 * j) \<noteq> (Suc l, Suc (2 * i))" "(Suc k, Suc (2 * j)) \<noteq> (Suc l, 2 * i)"
    "(Suc k, 2 * j) \<noteq> (Suc l, 2 * i)" "(Suc k, Suc (2 * j)) \<noteq> (Suc l, Suc (2 * i))"
    by (simp_all; presburger)+
  then have "(Suc k, 2 * j) \<in> insert (Suc l, 2 * i) (insert (Suc l, Suc (2 * i)) F) \<longleftrightarrow> (Suc k, 2 * j) \<in> F"
    "(Suc k, Suc (2 * j)) \<in> insert (Suc l, 2 * i) (insert (Suc l, Suc (2 * i)) F) \<longleftrightarrow> (Suc k, Suc (2 * j)) \<in> F"
    by blast+
  then show ?thesis unfolding pair_bit_def by simp
qed

lemma bits_ok_cong:
  assumes "bits_ok c s r F" "freeBlocks s' ! r = freeBlocks s ! r" "\<And>l i. pair_bit G l i = pair_bit F l i"
  shows "bits_ok c s' r G"
  using assms by (simp add: bits_ok_def block_is_allocated_def)

lemma free_nodes_pop:
  assumes "X r l = i # is" "l < numLevels c" "distinct (X r l)"
  shows "free_nodes c (upX X r l is) r = free_nodes c X r - {(l, i)}"
  using assms by (auto simp: free_nodes_def split: if_splits)

lemma free_nodes_push:
  assumes "l < numLevels c"
  shows "free_nodes c (upX X r l (X r l @ [i])) r = insert (l, i) (free_nodes c X r)"
  using assms by (auto simp: free_nodes_def split: if_splits)

lemma free_nodes_other: "r' \<noteq> r \<Longrightarrow> free_nodes c (upX X r l xs) r' = free_nodes c X r'"
  by (simp add: free_nodes_def)

lemma bb_genD:
  assumes "bb_gen c s X Z Y"
  shows "placed c s" "length (freeBlocks s) = numRegions c" "bb_links c s X Z"
    "r < numRegions c \<Longrightarrow> nodes_ok (numLevels c) (free_nodes c X r)"
    "r < numRegions c \<Longrightarrow> merged (Y r) (free_nodes c X r)"
    "r < numRegions c \<Longrightarrow> bits_ok c s r (free_nodes c X r)"
    "r < numRegions c \<Longrightarrow> lazy_apart c s r (free_units (numLevels c) (free_nodes c X r)) Z"
  using assms by (simp_all add: bb_gen_def)

text \<open>Pushing a block that is neither free nor lazy.\<close>

lemma push_block:
  assumes c: "bb_cfg c" and p: "placed c s" and lk: "bb_links c s X Z" and r: "r < numRegions c"
    and nodes: "\<And>r. r < numRegions c \<Longrightarrow> nodes_ok (numLevels c) (free_nodes c X r)"
    and b: "node_ok (numLevels c) (l, i)" "nspan (numLevels c) (l, i) \<inter> free_units (numLevels c) (free_nodes c X r) = {}"
      "lazy_apart c s r (nspan (numLevels c) (l, i)) Z"
  shows "bb_links c (push_free_list s (naddr c s r (l, i)) r l) (upX X r l (X r l @ [i])) Z"
    "\<And>r'. r' < numRegions c \<Longrightarrow> nodes_ok (numLevels c) (free_nodes c (upX X r l (X r l @ [i])) r')"
proof -
  have cf: "cfg_ok c" using bb_cfgD [OF c] by simp
  show "bb_links c (push_free_list s (naddr c s r (l, i)) r l) (upX X r l (X r l @ [i])) Z"
    by (rule push_links [OF cf p lk r b(1)]) (rule unlisted_notin [OF cf p r b nodes])
  have "l < numLevels c" using b(1) by (simp add: node_ok_def)
  then show "nodes_ok (numLevels c) (free_nodes c (upX X r l (X r l @ [i])) r')" if "r' < numRegions c" for r'
    using nodes_ok_insert [OF nodes [OF r] b(1,2)] nodes [OF that]
    by (cases "r' = r") (simp_all add: free_nodes_push free_nodes_other)
qed

lemma split_step:
  assumes c: "bb_cfg c" and g: "bb_gen c s X Z ((\<lambda>_. {})(r := Y))" and r: "r < numRegions c"
    and n: "Suc l < numLevels c" and x: "X r l = i # is" and e: "X r (Suc l) = []" and Y: "Y \<subseteq> {(l - 1, i div 2)}"
  defines "X' \<equiv> upX (upX X r l is) r (Suc l) [2 * i, Suc (2 * i)]"
  shows "bb_gen c (bb_split c s r l) X' Z ((\<lambda>_. {})(r := {(l, i)})) \<and> lazy_same s (bb_split c s r l)
    \<and> free_units (numLevels c) (free_nodes c X' r) = free_units (numLevels c) (free_nodes c X r)"
proof -
  let ?N = "numLevels c" and ?F = "free_nodes c X r" and ?b = "(l, i)"
  let ?x = "(Suc l, 2 * i)" and ?y = "(Suc l, Suc (2 * i))"
  note gd = bb_genD [OF g] and cf = bb_cfgD [OF c]
  have l: "l < ?N" using n by simp
  have dist: "distinct (X r l)" by (rule links_distinct [OF gd(3) r l])
  have bF: "?b \<in> ?F" using x l by (simp add: free_nodes_def)
  then have bo: "node_ok ?N ?b" using gd(4) [OF r] by (simp add: nodes_ok_def)
  have ko: "node_ok ?N ?x" "node_ok ?N ?y" using bo n by (auto simp: node_ok_def)
  note sp = nspan_children [OF n, of i] and dj = children_disjoint [of ?N l i]
  note so = split_ok [OF gd(4) [OF r] bF n]
  obtain t where t: "pop_free_list s r l = (naddr c s r ?b, s\<lparr>blinks := t\<rparr>)"
    "bb_links c (s\<lparr>blinks := t\<rparr>) (upX X r l is) Z" using pop_links [OF gd(3) r l x] by blast
  let ?X1 = "upX X r l is" and ?s1 = "s\<lparr>blinks := t\<rparr>"
  have F1: "free_nodes c ?X1 r = ?F - {?b}" by (rule free_nodes_pop) (fact x l dist)+
  let ?idx = "block_index c ?s1 (naddr c s r ?b) r l"
  define s2 where "s2 = (if sizeBits c = 0 \<and> useSizeMap c then set_split_block ?s1 r ?idx True else ?s1)"
  define s3 where "s3 = (if l > 0 then flip_allocated_block s2 r (bb_map_index ?idx) else s2)"
  have f2: "bstart s2 = bstart s" "freeBlocks s2 = freeBlocks s" "blinks s2 = t" by (simp_all add: s2_def)
  have f3: "bstart s3 = bstart s" "blinks s3 = t" using f2 by (simp_all add: s3_def)
  have p3: "placed c s3" using gd(1) f3 by (simp add: placed_def)
  have na: "naddr c s3 = naddr c s" by (rule naddr_cong [OF f3(1)])
  have split: "bb_split c s r l = push_free_list (push_free_list s3 (naddr c s r ?x) r (Suc l)) (naddr c s r ?y) r (Suc l)"
    using child_addr [OF cf(1) gd(1) r bo n] by (simp add: bb_split_def t(1) Let_def s3_def s2_def)
  have lk1: "bb_links c s3 ?X1 Z" using t(2) bb_links_cong [of s3 ?s1] f3 by simp
  have n1: "nodes_ok ?N (free_nodes c ?X1 r')" if "r' < numRegions c" for r'
    using nodes_ok_remove [OF gd(4) [OF r]] gd(4) [OF that] F1 by (cases "r' = r") (simp_all add: free_nodes_other)
  have rest: "free_units ?N (?F - {?b}) = free_units ?N ?F - nspan ?N ?b" by (rule units_remove [OF gd(4) [OF r] bF])
  have sub: "nspan ?N ?b \<subseteq> free_units ?N ?F" using bF by (auto simp: free_units_def)
  have ap: "lazy_apart c s3 r (nspan ?N ?x) Z" "lazy_apart c s3 r (nspan ?N ?y) Z"
    using gd(7) [OF r] lazy_apart_cong [OF f3(1)] sub sp by (auto intro!: lazy_apart_mono [OF gd(7) [OF r]])
  have d1: "nspan ?N ?x \<inter> free_units ?N (free_nodes c ?X1 r) = {}" unfolding F1 rest using sp by blast
  let ?X2 = "upX ?X1 r (Suc l) (?X1 r (Suc l) @ [2 * i])"
  note push1 = push_block [OF c p3 lk1 r n1 ko(1) d1 ap(1)]
  let ?s4 = "push_free_list s3 (naddr c s r ?x) r (Suc l)"
  have lk2: "bb_links c ?s4 ?X2 Z" using push1(1) unfolding na .
  have F2: "free_nodes c ?X2 r = insert ?x (?F - {?b})" using free_nodes_push [OF n, of ?X1 r "2 * i"] F1 by simp
  have p4: "placed c ?s4" using p3 by (simp add: placed_def)
  have na4: "naddr c ?s4 = naddr c s" by (rule naddr_cong) (simp add: f3)
  have d2: "nspan ?N ?y \<inter> free_units ?N (free_nodes c ?X2 r) = {}" unfolding F2 units_insert rest using sp dj by blast
  have ap4: "lazy_apart c ?s4 r (nspan ?N ?y) Z" using ap(2) lazy_apart_cong [of ?s4 s3] by simp
  note push2 = push_block [OF c p4 lk2 r push1(2) ko(2) d2 ap4]
  have X': "X' = upX ?X2 r (Suc l) (?X2 r (Suc l) @ [Suc (2 * i)])"
    using e by (intro ext) (simp add: X'_def)
  have F': "free_nodes c X' r = insert ?x (insert ?y (?F - {?b}))"
    using free_nodes_push [OF n, of ?X2 r "Suc (2 * i)"] F2 X' by auto
  have len3: "length (freeBlocks s3) = numRegions c" and b3: "bits_ok c s3 r (?F - {?b})"
    and o3: "\<And>r'. r' \<noteq> r \<Longrightarrow> freeBlocks s3 ! r' = freeBlocks s ! r'"
  proof -
    have bits2: "bits_ok c s2 r ?F" by (rule bits_ok_cong [OF gd(6) [OF r]]) (simp_all add: f2)
    have len2: "length (freeBlocks s2) = numRegions c" using gd(2) f2 by simp
    have mi: "bb_map_index ?idx = (if l = 0 then 0 else 2 ^ (l - 1) + i div 2)"
      using map_index_node [OF cf(1) gd(1) r bo] geometry_cong(1) [of ?s1 s] by simp
    have tog: "0 < fst ?b \<Longrightarrow> (?b \<in> ?F) \<noteq> (?b \<in> ?F - {?b})"
      "\<And>a. fst a \<noteq> 0 \<Longrightarrow> a \<noteq> ?b \<Longrightarrow> a \<in> ?F - {?b} \<longleftrightarrow> a \<in> ?F" using bF by auto
    have k: "bb_map_index ?idx = (if fst ?b = 0 then 0 else 2 ^ (fst ?b - 1) + snd ?b div 2)" using mi by simp
    note fl = bits_flip [OF c len2 r bits2 bo tog k]
    show "length (freeBlocks s3) = numRegions c" using fl(2) len2 by (simp add: s3_def)
    show "\<And>r'. r' \<noteq> r \<Longrightarrow> freeBlocks s3 ! r' = freeBlocks s ! r'" using fl(3) f2 by (simp add: s3_def)
    show "bits_ok c s3 r (?F - {?b})"
    proof (cases "l > 0")
      case True
      then show ?thesis using fl(1) by (simp add: s3_def)
    next
      case False
      then show ?thesis unfolding s3_def by (auto intro!: bits_ok_cong [OF bits2] simp: pair_bit_def)
    qed
  qed
  have "bb_gen c (bb_split c s r l) X' Z (((\<lambda>_. {})(r := Y))(r := {(l, i)}))"
    unfolding split
  proof (rule bb_gen_update [OF g r])
    show "bb_links c (push_free_list ?s4 (naddr c s r ?y) r (Suc l)) X' Z" using push2(1) unfolding na4 X' .
    show "nodes_ok ?N (free_nodes c X' r)" unfolding F' by (rule so(1))
    show "merged {(l, i)} (free_nodes c X' r)"
      unfolding F' by (rule merged_split [OF gd(5) [OF r, simplified] Y bF _ gd(4) [OF r]]) (simp add: free_nodes_def e)
    show "bits_ok c (push_free_list ?s4 (naddr c s r ?y) r (Suc l)) r (free_nodes c X' r)"
      by (rule bits_ok_cong [OF b3]) (simp, use so(3,4) in \<open>simp add: F' pair_bit_kids\<close>)
    show "lazy_apart c s r (free_units ?N (free_nodes c X' r)) Z" unfolding F' so(2) by (rule gd(7) [OF r])
    show "X' r' k = X r' k" if "r' \<noteq> r" for r' k using that by (simp add: X'_def)
  qed (use f3 len3 o3 in simp_all)
  moreover have "lazy_same s (bb_split c s r l)" unfolding split by (simp add: s3_def s2_def)
  moreover have "free_units ?N (free_nodes c X' r) = free_units ?N ?F" unfolding F' by (rule so(2))
  ultimately show ?thesis by simp
qed

subsection \<open>Allocation\<close>

lemma search_climb:
  assumes lk: "bb_links c s X Z" and r: "r < numRegions c"
  shows "m < l \<Longrightarrow> l < numLevels c \<Longrightarrow> X r m \<noteq> [] \<Longrightarrow> \<forall>k. m < k \<and> k \<le> l \<longrightarrow> X r k = [] \<Longrightarrow>
    bb_search c start r l s = bb_search c start r start (bb_split c s r m)"
proof (induction l)
  case (Suc l)
  have e: "free_list_empty s r k \<longleftrightarrow> X r k = []" if "k < numLevels c" for k by (rule links_empty [OF lk r that])
  show ?case
  proof (cases "m = l")
    case True
    then show ?thesis using Suc.prems e by (subst bb_search.simps) simp
  next
    case False
    then have "bb_search c start r (Suc l) s = bb_search c start r l s"
      using Suc.prems e by (subst bb_search.simps) simp
    then show ?thesis using Suc False by simp
  qed
qed simp

lemma search_none:
  assumes lk: "bb_links c s X Z" and r: "r < numRegions c"
  shows "l < numLevels c \<Longrightarrow> \<forall>k \<le> l. X r k = [] \<Longrightarrow> bb_search c start r l s = Some (None, s)"
proof (induction l)
  case 0
  then show ?case using links_empty [OF lk r] by (subst bb_search.simps) simp
next
  case (Suc l)
  then show ?case using links_empty [OF lk r] by (subst bb_search.simps) simp
qed

lemma search_found:
  assumes c: "bb_cfg c" and r: "r < numRegions c" and start: "start < numLevels c"
  shows "bb_gen c s X Z ((\<lambda>_. {})(r := Y)) \<Longrightarrow> m \<le> start \<Longrightarrow> X r m = i # is \<Longrightarrow>
    \<forall>k. m < k \<and> k \<le> start \<longrightarrow> X r k = [] \<Longrightarrow> Y \<subseteq> {(m - 1, i div 2)} \<Longrightarrow> 0 < m \<or> Y = {} \<Longrightarrow>
    \<exists>s' X' j js Y'. bb_search c start r start s = Some (Some start, s') \<and> bb_gen c s' X' Z ((\<lambda>_. {})(r := Y'))
      \<and> X' r start = j # js \<and> Y' \<subseteq> {(start - 1, j div 2)} \<and> (0 < start \<or> Y' = {}) \<and> lazy_same s s'
      \<and> free_units (numLevels c) (free_nodes c X' r) = free_units (numLevels c) (free_nodes c X r)
      \<and> (\<forall>r'. r' \<noteq> r \<longrightarrow> X' r' = X r')"
proof (induction "start - m" arbitrary: m s X Y i "is")
  case 0
  then have "m = start" by simp
  moreover have "bb_search c start r start s = Some (Some start, s)"
    using links_empty [OF bb_genD(3) [OF 0(2)] r start] 0(4) \<open>m = start\<close> by (subst bb_search.simps) simp
  ultimately show ?case using 0 by (intro exI [of _ s] exI [of _ X] exI [of _ i] exI [of _ "is"] exI [of _ Y]) simp
next
  case (Suc d)
  have m: "m < start" using Suc.hyps(2) by simp
  then have n: "Suc m < numLevels c" using start by simp
  have e: "X r (Suc m) = []" using Suc.prems(4) m by simp
  let ?X = "upX (upX X r m is) r (Suc m) [2 * i, Suc (2 * i)]" and ?s = "bb_split c s r m"
  have sp: "bb_gen c ?s ?X Z ((\<lambda>_. {})(r := {(m, i)}))" "lazy_same s ?s"
    "free_units (numLevels c) (free_nodes c ?X r) = free_units (numLevels c) (free_nodes c X r)"
    using split_step [OF c Suc.prems(1) r n Suc.prems(3) e Suc.prems(5)] by auto
  have eq: "bb_search c start r start s = bb_search c start r start ?s"
    by (rule search_climb [OF bb_genD(3) [OF Suc.prems(1)] r m start]) (use Suc.prems in auto)
  have d: "d = start - Suc m" using Suc.hyps(2) by simp
  have pr: "Suc m \<le> start" "?X r (Suc m) = 2 * i # [Suc (2 * i)]"
    "\<forall>k. Suc m < k \<and> k \<le> start \<longrightarrow> ?X r k = []" "{(m, i)} \<subseteq> {(Suc m - 1, 2 * i div 2)}"
    "0 < Suc m \<or> {(m, i)} = {}"
    using m Suc.prems(4) by simp_all
  from Suc.hyps(1) [OF d sp(1) pr]
  obtain s' X' j js Y' where h: "bb_search c start r start ?s = Some (Some start, s')"
    "bb_gen c s' X' Z ((\<lambda>_. {})(r := Y'))" "X' r start = j # js" "Y' \<subseteq> {(start - 1, j div 2)}" "0 < start \<or> Y' = {}"
    "lazy_same ?s s'" "free_units (numLevels c) (free_nodes c X' r) = free_units (numLevels c) (free_nodes c ?X r)"
    "\<forall>r'. r' \<noteq> r \<longrightarrow> X' r' = ?X r'"
    by blast
  have "X' r' = X r'" if "r' \<noteq> r" for r' using h(8) that by (simp add: upX_def)
  then show ?case using h eq sp(3) lazy_same_trans [OF sp(2) h(6)] by auto
qed

lemma take_step:
  assumes c: "bb_cfg c" and g: "bb_gen c s X Z ((\<lambda>_. {})(r := Y))" and r: "r < numRegions c" and l: "l < numLevels c"
    and x: "X r l = i # is" and Y: "Y \<subseteq> {(l - 1, i div 2)}" "0 < l \<or> Y = {}"
  shows "\<exists>s'. bb_take c s r l sz = (naddr c s r (l, i), s') \<and> bb_inv c s' (upX X r l is) Z \<and> lazy_same s s'
    \<and> node_ok (numLevels c) (l, i) \<and> nspan (numLevels c) (l, i) \<subseteq> free_units (numLevels c) (free_nodes c X r)
    \<and> free_units (numLevels c) (free_nodes c (upX X r l is) r)
        = free_units (numLevels c) (free_nodes c X r) - nspan (numLevels c) (l, i)"
proof -
  let ?N = "numLevels c" and ?F = "free_nodes c X r" and ?b = "(l, i)" and ?X = "upX X r l is"
  note gd = bb_genD [OF g] and cf = bb_cfgD [OF c]
  have dist: "distinct (X r l)" by (rule links_distinct [OF gd(3) r l])
  have bF: "?b \<in> ?F" using x l by (simp add: free_nodes_def)
  then have bo: "node_ok ?N ?b" using gd(4) [OF r] by (simp add: nodes_ok_def)
  obtain t where t: "pop_free_list s r l = (naddr c s r ?b, s\<lparr>blinks := t\<rparr>)" "bb_links c (s\<lparr>blinks := t\<rparr>) ?X Z"
    using pop_links [OF gd(3) r l x] by blast
  let ?s1 = "s\<lparr>blinks := t\<rparr>" and ?k = "if l = 0 then 0 else 2 ^ (l - 1) + i div 2"
  have mi: "bb_map_index (block_index c ?s1 (naddr c s r ?b) r l) = ?k"
    using map_index_node [OF cf(1) gd(1) r bo] geometry_cong(1) [of ?s1 s] by simp
  let ?s2 = "flip_allocated_block ?s1 r ?k"
  define s3 where "s3 = (if sizeBits c \<noteq> 0 \<and> useSizeMap c then set_level c ?s2 (naddr c s r ?b) r l else ?s2)"
  have tk: "bb_take c s r l sz = (naddr c s r ?b, sub_free_size s3 r (rup2 sz))"
    by (simp add: bb_take_def t(1) mi s3_def Let_def)
  have F: "free_nodes c ?X r = ?F - {?b}" by (rule free_nodes_pop) (fact x l dist)+
  have len1: "length (freeBlocks ?s1) = numRegions c" using gd(2) by simp
  have bits1: "bits_ok c ?s1 r ?F" by (rule bits_ok_cong [OF gd(6) [OF r]]) simp_all
  have tog: "0 < fst ?b \<Longrightarrow> (?b \<in> ?F) \<noteq> (?b \<in> ?F - {?b})"
    "\<And>a. fst a \<noteq> 0 \<Longrightarrow> a \<noteq> ?b \<Longrightarrow> a \<in> ?F - {?b} \<longleftrightarrow> a \<in> ?F" using bF by auto
  have k: "?k = (if fst ?b = 0 then 0 else 2 ^ (fst ?b - 1) + snd ?b div 2)" by simp
  note fl = bits_flip [OF c len1 r bits1 bo tog k]
  have units: "free_units ?N (?F - {?b}) = free_units ?N ?F - nspan ?N ?b" by (rule units_remove [OF gd(4) [OF r] bF])
  have "bb_gen c ?s2 ?X Z (((\<lambda>_. {})(r := Y))(r := {}))"
  proof (rule bb_gen_update [OF g r])
    show "bb_links c ?s2 ?X Z" using t(2) bb_links_cong [of ?s2 ?s1] by simp
    show "nodes_ok ?N (free_nodes c ?X r)" unfolding F by (rule nodes_ok_remove [OF gd(4) [OF r]])
    show "merged {} (free_nodes c ?X r)" unfolding F by (rule merged_remove [OF gd(5) [OF r, simplified] Y])
    show "bits_ok c ?s2 r (free_nodes c ?X r)" unfolding F by (rule fl(1))
    show "lazy_apart c s r (free_units ?N (free_nodes c ?X r)) Z"
      unfolding F units by (rule lazy_apart_mono [OF gd(7) [OF r]]) blast
  qed (use fl(2,3) in simp_all)
  then have "bb_gen c ?s2 ?X Z (\<lambda>_. {})" unfolding fun_upd_upd trivial_upd .
  then have "bb_inv c (sub_free_size s3 r (rup2 sz)) ?X Z"
    unfolding bb_inv_def by (rule bb_gen_cong) (simp_all add: s3_def)
  moreover have "lazy_same s (sub_free_size s3 r (rup2 sz))" by (simp add: s3_def)
  moreover have "nspan ?N ?b \<subseteq> free_units ?N ?F" using bF by (auto simp: free_units_def)
  ultimately show ?thesis using tk bo F units by simp
qed

definition region_units_of :: "buddy_config \<Rightarrow> (nat \<Rightarrow> nat \<Rightarrow> nat list) \<Rightarrow> nat \<Rightarrow> nat set" where
  "region_units_of c X r = free_units (numLevels c) (free_nodes c X r)"

definition bb_took :: "buddy_config \<Rightarrow> ('a) buddy_scheme \<Rightarrow> (nat \<Rightarrow> nat \<Rightarrow> nat list) \<Rightarrow> (nat \<Rightarrow> nat list) \<Rightarrow> nat \<Rightarrow> nat \<Rightarrow> ('a) buddy_scheme \<Rightarrow> bool" where
  "bb_took c s X Z l p s' \<longleftrightarrow> (\<exists>X' r i. r < numRegions c \<and> node_ok (numLevels c) (l, i) \<and> p = naddr c s r (l, i)
     \<and> nspan (numLevels c) (l, i) \<subseteq> region_units_of c X r \<and> bb_inv c s' X' Z \<and> lazy_same s s'
     \<and> (\<forall>r' < numRegions c. region_units_of c X' r' = region_units_of c X r' - (if r' = r then nspan (numLevels c) (l, i) else {})))"

lemma bb_attempt_cases:
  assumes c: "bb_cfg c" and inv: "bb_inv c s X Z" and l: "l < numLevels c"
  shows "set rs \<subseteq> {..< numRegions c} \<Longrightarrow>
    \<exists>res. bb_attempt c locked l sz rs s = Some res \<and>
      (case res of (Some p, s') \<Rightarrow> bb_took c s X Z l p s'
       | (None, s') \<Rightarrow> s' = s \<and> (\<forall>r \<in> set rs. \<not> locked r \<longrightarrow> (\<forall>k \<le> l. X r k = [])))"
proof (induction rs)
  case (Cons r rs)
  have g: "bb_gen c s X Z ((\<lambda>_. {})(r := {}))" using inv unfolding bb_inv_def trivial_upd .
  note gd = bb_genD [OF g]
  have r: "r < numRegions c" "set rs \<subseteq> {..< numRegions c}" using Cons.prems by simp_all
  obtain res where ih: "bb_attempt c locked l sz rs s = Some res"
    "case res of (Some p, s') \<Rightarrow> bb_took c s X Z l p s'
       | (None, s') \<Rightarrow> s' = s \<and> (\<forall>r \<in> set rs. \<not> locked r \<longrightarrow> (\<forall>k \<le> l. X r k = []))"
    using Cons.IH [OF r(2)] by blast
  note r = r(1)
  show ?case
  proof (cases "locked r")
    case True
    then show ?thesis using ih by (intro exI [of _ res]) (cases res; cases "fst res"; auto)
  next
    case False
    show ?thesis
    proof (cases "\<forall>k \<le> l. X r k = []")
      case True
      have "bb_search c l r l s = Some (None, s)" by (rule search_none [OF gd(3) r l True])
      then show ?thesis using False True ih by (intro exI [of _ res]) (cases res; cases "fst res"; auto)
    next
      case ex: False
      define m where "m = (GREATEST k. k \<le> l \<and> X r k \<noteq> [])"
      have "m \<le> l \<and> X r m \<noteq> []"
        unfolding m_def by (rule GreatestI_ex_nat [where b = l]) (use ex in auto)
      moreover have "X r k = []" if "m < k" "k \<le> l" for k
        using Greatest_le_nat [of "\<lambda>k. k \<le> l \<and> X r k \<noteq> []" k l] that unfolding m_def by auto
      ultimately obtain i "is" where m: "m \<le> l" "X r m = i # is" "\<forall>k. m < k \<and> k \<le> l \<longrightarrow> X r k = []"
        by (cases "X r m") auto
      obtain s' X' j js Y' where h: "bb_search c l r l s = Some (Some l, s')"
        "bb_gen c s' X' Z ((\<lambda>_. {})(r := Y'))" "X' r l = j # js" "Y' \<subseteq> {(l - 1, j div 2)}" "0 < l \<or> Y' = {}"
        "lazy_same s s'" "free_units (numLevels c) (free_nodes c X' r) = free_units (numLevels c) (free_nodes c X r)"
        "\<forall>r'. r' \<noteq> r \<longrightarrow> X' r' = X r'"
        using search_found [OF c r l g m] by auto
      obtain s2 where t: "bb_take c s' r l sz = (naddr c s' r (l, j), s2)" "bb_inv c s2 (upX X' r l js) Z" "lazy_same s' s2"
        "node_ok (numLevels c) (l, j)" "nspan (numLevels c) (l, j) \<subseteq> free_units (numLevels c) (free_nodes c X' r)"
        "free_units (numLevels c) (free_nodes c (upX X' r l js) r)
          = free_units (numLevels c) (free_nodes c X' r) - nspan (numLevels c) (l, j)"
        using take_step [OF c h(2) r l h(3-5)] by blast
      have "naddr c s' r (l, j) = naddr c s r (l, j)" using h(6) by (simp add: lazy_same_def naddr_def baddr_def)
      moreover have "free_nodes c (upX X' r l js) r' = free_nodes c X r'" if "r' \<noteq> r" for r'
        using h(8) that by (simp add: free_nodes_def)
      ultimately have "bb_took c s X Z l (naddr c s' r (l, j)) s2"
        unfolding bb_took_def region_units_of_def
        using r t(2,4,5,6) h(7) lazy_same_trans [OF h(6) t(3)] by (intro exI [of _ "upX X' r l js"] exI [of _ r] exI [of _ j]) auto
      then show ?thesis using False h(1) t(1) by simp
    qed
  qed
qed simp

lemma no_block_of_level:
  assumes inv: "bb_inv c s X Z" and r: "r < numRegions c" and e: "\<forall>k \<le> l. X r k = []" and b: "node_ok (numLevels c) (l, i)"
  shows "\<not> nspan (numLevels c) (l, i) \<subseteq> region_units_of c X r"
proof
  assume sub: "nspan (numLevels c) (l, i) \<subseteq> region_units_of c X r"
  have g: "nodes_ok (numLevels c) (free_nodes c X r)" "merged {} (free_nodes c X r)"
    using inv r by (simp_all add: bb_inv_def bb_gen_def)
  from free_block_covers [OF g b] sub obtain a where a: "a \<in> free_nodes c X r" "nspan (numLevels c) (l, i) \<subseteq> nspan (numLevels c) a"
    by (auto simp: region_units_of_def)
  then have "fst a \<le> l" using nspan_subset_level [OF a(2)] b g(1) by (auto simp: node_ok_def nodes_ok_def)
  then show False using a(1) e by (auto simp: free_nodes_def)
qed

lemma bb_allocate_cases:
  assumes c: "bb_cfg c" and inv: "bb_inv c s X Z" and sz: "sz \<le> maxBlockSize c"
  defines "l \<equiv> find_smallest_block_level c sz"
  shows "\<exists>res. bb_allocate_internal c contended s sz = Some res \<and>
    (case res of (Some p, s') \<Rightarrow> bb_took c s X Z l p s'
     | (None, s') \<Rightarrow> s' = s \<and> (\<forall>r < numRegions c. \<forall>i. node_ok (numLevels c) (l, i) \<longrightarrow> \<not> nspan (numLevels c) (l, i) \<subseteq> region_units_of c X r))"
proof -
  have l: "l < numLevels c" using find_level_best [OF bb_cfgD(1) [OF c] sz] by (simp add: l_def)
  let ?rs = "[0..<numRegions c]" and ?locked = "\<lambda>r. contended (RegionLock r)"
  have sub: "set ?rs \<subseteq> {..< numRegions c}" by auto
  obtain res where res: "bb_attempt c ?locked l sz ?rs s = Some res"
    "case res of (Some p, s') \<Rightarrow> bb_took c s X Z l p s'
     | (None, s') \<Rightarrow> s' = s \<and> (\<forall>r \<in> set ?rs. \<not> ?locked r \<longrightarrow> (\<forall>k \<le> l. X r k = []))"
    using bb_attempt_cases [OF c inv l sub] by blast
  obtain res2 where res2: "bb_attempt c (\<lambda>_. False) l sz ?rs s = Some res2"
    "case res2 of (Some p, s') \<Rightarrow> bb_took c s X Z l p s'
     | (None, s') \<Rightarrow> s' = s \<and> (\<forall>r \<in> set ?rs. \<forall>k \<le> l. X r k = [])"
    using bb_attempt_cases [OF c inv l sub, of "\<lambda>_. False" sz] unfolding not_False_eq_True simp_thms by blast
  have none: "\<forall>r < numRegions c. \<forall>i. node_ok (numLevels c) (l, i) \<longrightarrow> \<not> nspan (numLevels c) (l, i) \<subseteq> region_units_of c X r"
    if "\<forall>r \<in> set ?rs. \<forall>k \<le> l. X r k = []" using no_block_of_level [OF inv] that by auto
  show ?thesis
  proof (cases "fst res")
    case (Some p)
    then show ?thesis using res by (cases res) (simp add: bb_allocate_internal_def l_def)
  next
    case None
    then have rs: "snd res = s" "\<forall>r \<in> set ?rs. \<not> ?locked r \<longrightarrow> (\<forall>k \<le> l. X r k = [])" using res(2) by (cases res; simp)+
    show ?thesis
    proof (cases "list_ex ?locked ?rs")
      case True
      then have "bb_allocate_internal c contended s sz = Some res2"
        using res(1) res2(1) None rs(1) by (cases res) (simp add: bb_allocate_internal_def l_def)
      then show ?thesis using res2(2) none by (cases res2; cases "fst res2") auto
    next
      case False
      then have "bb_allocate_internal c contended s sz = Some (None, s)"
        using res(1) None rs(1) by (cases res) (simp add: bb_allocate_internal_def l_def)
      then show ?thesis using rs(2) False none by (auto simp: list_ex_iff)
    qed
  qed
qed

end
