(* ===== verification/Bb_Free.thy ===== *)
theory Bb_Free
  imports Bb_Alloc
begin

text \<open>
  Release in the binary buddy allocator: the merging loop keeps one block aside, which is not
  in any list while its bit is already set, and ends when the buddy of this block is not free.
\<close>

text \<open>The state of region \<open>r\<close> while block \<open>b\<close> is aside.\<close>

definition bb_open :: "buddy_config \<Rightarrow> ('a) buddy_scheme \<Rightarrow> (nat \<Rightarrow> nat \<Rightarrow> nat list) \<Rightarrow> (nat \<Rightarrow> nat list) \<Rightarrow> nat \<Rightarrow> node \<Rightarrow> bool" where
  "bb_open c s X Z r b \<longleftrightarrow> placed c s \<and> length (freeBlocks s) = numRegions c \<and> bb_links c s X Z
     \<and> node_ok (numLevels c) b \<and> nspan (numLevels c) b \<inter> region_units_of c X r = {}
     \<and> lazy_apart c s r (nspan (numLevels c) b) Z
     \<and> (\<forall>r' < numRegions c. nodes_ok (numLevels c) (free_nodes c X r') \<and> merged {} (free_nodes c X r')
          \<and> bits_ok c s r' (if r' = r then insert b (free_nodes c X r') else free_nodes c X r')
          \<and> lazy_apart c s r' (region_units_of c X r') Z)"

lemma bb_openD:
  assumes "bb_open c s X Z r b"
  shows "placed c s" "length (freeBlocks s) = numRegions c" "bb_links c s X Z"
    "node_ok (numLevels c) b" "nspan (numLevels c) b \<inter> region_units_of c X r = {}"
    "lazy_apart c s r (nspan (numLevels c) b) Z"
    "r' < numRegions c \<Longrightarrow> nodes_ok (numLevels c) (free_nodes c X r')"
    "r' < numRegions c \<Longrightarrow> merged {} (free_nodes c X r')"
    "r' < numRegions c \<Longrightarrow> bits_ok c s r' (if r' = r then insert b (free_nodes c X r') else free_nodes c X r')"
    "r' < numRegions c \<Longrightarrow> lazy_apart c s r' (region_units_of c X r') Z"
  using assms by (simp_all add: bb_open_def)

lemma bb_open_cong:
  assumes "bb_open c s X Z r b" "bstart s' = bstart s" "blinks s' = blinks s" "freeBlocks s' = freeBlocks s"
  shows "bb_open c s' X Z r b"
  using assms(1) bb_links_cong [OF assms(2,3)] lazy_apart_cong [OF assms(2)] assms(2,4)
  by (simp add: bb_open_def placed_def bits_ok_def block_is_allocated_def)

lemma aside_not_free:
  assumes "nspan n b \<inter> free_units n F = {}" "nspan n a \<inter> nspan n b \<noteq> {}"
  shows "a \<notin> F"
  using assms by (auto simp: free_units_def)

text \<open>The two children of one block leave the set: the pair bits stay.\<close>

lemma pair_bit_both:
  assumes "0 < fst b" "b \<notin> F" "buddy_of b \<notin> F"
  shows "pair_bit (insert b (insert (buddy_of b) F)) k j = pair_bit F k j"
proof -
  obtain l i where b: "b = (Suc l, i)" using assms(1) by (cases b) (auto dest: gr0_implies_Suc)
  have "(b = (Suc l, 2 * (i div 2)) \<and> buddy_of b = (Suc l, Suc (2 * (i div 2))))
      \<or> (buddy_of b = (Suc l, 2 * (i div 2)) \<and> b = (Suc l, Suc (2 * (i div 2))))"
    by (cases "even i") (auto simp: b buddy_of_def; presburger)+
  then show ?thesis
  proof
    assume e: "b = (Suc l, 2 * (i div 2)) \<and> buddy_of b = (Suc l, Suc (2 * (i div 2)))"
    show ?thesis using pair_bit_kids [of l "i div 2" F] assms(2,3) e by metis
  next
    assume e: "buddy_of b = (Suc l, 2 * (i div 2)) \<and> b = (Suc l, Suc (2 * (i div 2)))"
    show ?thesis using pair_bit_kids [of l "i div 2" F] assms(2,3) e insert_commute by metis
  qed
qed

lemma flip_other_region [simp]: "r' \<noteq> r \<Longrightarrow> freeBlocks (flip_allocated_block s r k) ! r' = freeBlocks s ! r'"
  by (simp add: flip_allocated_block_def)

lemma lazy_same_flip [simp]: "lazy_same (flip_allocated_block s r k) t = lazy_same s t"
  by (simp add: lazy_same_def flip_allocated_block_def)

lemma pair_bit_root: "fst b = 0 \<Longrightarrow> pair_bit (insert b F) k j = pair_bit F k j"
  by (auto simp: pair_bit_def)

lemma buddy_same_level [simp]: "fst (buddy_of b) = fst b"
  by (simp add: buddy_of_def)

lemma buddy_differs: "buddy_of b \<noteq> b"
  by (cases b) (auto simp: buddy_of_def elim: oddE)

lemma buddy_half: "snd (buddy_of b) div 2 = snd b div 2"
  by (auto simp: buddy_of_def elim: oddE)

text \<open>One turn of the loop.\<close>

lemma merge_turn:
  assumes c: "bb_cfg c" and o: "bb_open c s X Z r b" and r: "r < numRegions c" and l: "0 < fst b"
    and free: "buddy_of b \<in> free_nodes c X r"
  defines "p \<equiv> parent_of b" and "X1 \<equiv> upX X r (fst b) (remove1 (snd (buddy_of b)) (X r (fst b)))"
    and "s1 \<equiv> s\<lparr>blinks := list_remove (blinks s) (Block (naddr c s r (buddy_of b)))\<rparr>"
    and "k \<equiv> if fst b = 1 then 0 else 2 ^ (fst b - 2) + snd b div 2 div 2"
  shows "bb_open c (if 1 < fst b then flip_allocated_block s1 r k else s1) X1 Z r p"
    "\<And>r'. region_units_of c X1 r' \<union> (if r' = r then nspan (numLevels c) p else {})
       = region_units_of c X r' \<union> (if r' = r then nspan (numLevels c) b else {})"
proof -
  let ?N = "numLevels c" and ?F = "free_nodes c X r" and ?u = "buddy_of b"
  note od = bb_openD [OF o] and cf = bb_cfgD [OF c]
  have bN: "fst b < ?N" using od(4) by (simp add: node_ok_def)
  have inX: "snd ?u \<in> set (X r (fst b))" using free by (auto simp: free_nodes_def buddy_of_def)
  have dist: "distinct (X r (fst b))" by (rule links_distinct [OF od(3) r bN])
  have ub: "?u = (fst b, snd ?u)" by (simp add: prod_eq_iff)
  have "free_nodes c X1 r = ?F - {(fst b, snd ?u)}"
    using bN dist by (auto simp: free_nodes_def X1_def split: if_splits)
  then have F1: "free_nodes c X1 r = ?F - {?u}" using ub by simp
  have other: "free_nodes c X1 r' = free_nodes c X r'" if "r' \<noteq> r" for r'
    using that by (simp add: free_nodes_def X1_def)
  have units1: "free_units ?N (?F - {?u}) = free_units ?N ?F - nspan ?N ?u"
    by (rule units_remove [OF od(7) [OF r] free])
  have sub: "nspan ?N ?u \<subseteq> free_units ?N ?F" using free by (auto simp: free_units_def)
  note sp = nspan_parent [OF od(4) l]
  have po: "node_ok ?N p" unfolding p_def by (rule parent_ok [OF od(4) l])
  have disj: "nspan ?N b \<inter> free_units ?N ?F = {}" using od(5) by (simp add: region_units_of_def)
  show units: "region_units_of c X1 r' \<union> (if r' = r then nspan ?N p else {})
       = region_units_of c X r' \<union> (if r' = r then nspan ?N b else {})" for r'
    using units1 sub sp(1) other [of r'] by (cases "r' = r") (auto simp: region_units_of_def F1 p_def)
  have b_notin: "b \<notin> ?F" by (rule aside_not_free [OF disj]) (simp add: nspan_nonempty)
  have p_notin: "p \<notin> ?F" by (rule aside_not_free [OF disj]) (use sp(1) nspan_nonempty [of ?N b] in \<open>auto simp: p_def\<close>)
  have lk: "bb_links c s1 X1 Z"
    using remove_links [OF cf(1) od(3) r bN inX] unfolding s1_def X1_def using ub by simp
  have na: "fst p = fst b - 1" "snd p = snd b div 2" by (simp_all add: p_def parent_of_def)
  define G where "G = insert p (?F - {?u})"
  have bits: "bits_ok c s r (insert b ?F)" using od(9) [OF r] by simp
  have same: "pair_bit (?F - {?u}) i j = pair_bit (insert b ?F) i j" for i j
  proof -
    have "insert b (insert ?u (?F - {?u})) = insert b ?F" using free by blast
    then show ?thesis using pair_bit_both [of b "?F - {?u}" i j] l b_notin buddy_differs [of b] by auto
  qed
  have bits1: "bits_ok c s1 r (?F - {?u})" by (rule bits_ok_cong [OF bits]) (simp_all add: s1_def same)
  have len1: "length (freeBlocks s1) = numRegions c" using od(2) by (simp add: s1_def)
  let ?t = "if 1 < fst b then flip_allocated_block s1 r k else s1"
  have kk: "k = (if fst p = 0 then 0 else 2 ^ (fst p - 1) + snd p div 2)" using l na by (auto simp: k_def)
  have fl: "bits_ok c ?t r G" "length (freeBlocks ?t) = numRegions c" "\<And>r'. r' \<noteq> r \<Longrightarrow> freeBlocks ?t ! r' = freeBlocks s ! r'"
  proof -
    have tog: "0 < fst p \<Longrightarrow> (p \<in> ?F - {?u}) \<noteq> (p \<in> G)"
      "\<And>a. fst a \<noteq> 0 \<Longrightarrow> a \<noteq> p \<Longrightarrow> a \<in> G \<longleftrightarrow> a \<in> ?F - {?u}"
      using p_notin by (auto simp: G_def)
    note fb = bits_flip [OF c len1 r bits1 po tog kk]
    have root: "bits_ok c s1 r G" if "\<not> 1 < fst b"
      unfolding G_def by (rule bits_ok_cong [OF bits1]) (use that na in \<open>simp_all add: pair_bit_root\<close>)
    show "bits_ok c ?t r G" using fb(1) root by auto
    show "length (freeBlocks ?t) = numRegions c" using fb(2) len1 by simp
    show "freeBlocks ?t ! r' = freeBlocks s ! r'" if "r' \<noteq> r" for r' using that by (simp add: s1_def)
  qed
  have ft: "bstart ?t = bstart s" "blinks ?t = blinks s1" by (simp_all add: s1_def)
  have apc: "lazy_apart c ?t r' U Z = lazy_apart c s r' U Z" for r' U by (rule lazy_apart_cong [OF ft(1)])
  have "placed c ?t" using od(1) ft(1) by (simp add: placed_def)
  moreover have "bb_links c ?t X1 Z" using lk bb_links_cong [of ?t s1] ft by (simp add: s1_def)
  moreover have "nspan ?N p \<inter> region_units_of c X1 r = {}"
    using units1 sp(1) disj by (auto simp: region_units_of_def F1 p_def)
  moreover have "lazy_apart c ?t r (nspan ?N p) Z"
    unfolding apc using od(6) lazy_apart_mono [OF od(10) [OF r], of "nspan ?N ?u"] sub sp(1)
    by (auto simp: lazy_apart_def p_def region_units_of_def)
  moreover have "nodes_ok ?N (free_nodes c X1 r') \<and> merged {} (free_nodes c X1 r')
      \<and> bits_ok c ?t r' (if r' = r then insert p (free_nodes c X1 r') else free_nodes c X1 r')
      \<and> lazy_apart c ?t r' (region_units_of c X1 r') Z" if r': "r' < numRegions c" for r'
  proof (cases "r' = r")
    case True
    have "lazy_apart c s r (region_units_of c X1 r) Z"
      by (rule lazy_apart_mono [OF od(10) [OF r]]) (use units1 in \<open>auto simp: region_units_of_def F1\<close>)
    then show ?thesis
      using True nodes_ok_remove [OF od(7) [OF r], of "{?u}"] merged_subset [OF od(8) [OF r], of "?F - {?u}"] fl(1)
      unfolding apc by (auto simp: F1 G_def)
  next
    case False
    have "bits_ok c ?t r' (free_nodes c X r')"
      by (rule bits_ok_cong [of c s]) (use od(9) [OF r'] False fl(3) [OF False] in simp_all)
    then show ?thesis using False od(7,8,10) [OF r'] other [OF False] unfolding apc
      by (simp add: region_units_of_def)
  qed
  ultimately show "bb_open c ?t X1 Z r p" using po fl(2) unfolding bb_open_def by blast
qed

text \<open>The loop ends with a block whose buddy is not free.\<close>

lemma merge_loop:
  assumes c: "bb_cfg c" and r: "r < numRegions c"
  shows "fst b = l \<Longrightarrow> bb_open c s X Z r b \<Longrightarrow> (0 < l \<Longrightarrow> bud = naddr c s r (buddy_of b)) \<Longrightarrow>
    \<exists>b' s' X'. bb_merge c r l (naddr c s r b) bud s = (naddr c s r b', fst b', s') \<and> bb_open c s' X' Z r b'
      \<and> (fst b' = 0 \<or> buddy_of b' \<notin> free_nodes c X' r) \<and> lazy_same s s'
      \<and> (\<forall>r'. region_units_of c X' r' \<union> (if r' = r then nspan (numLevels c) b' else {})
           = region_units_of c X r' \<union> (if r' = r then nspan (numLevels c) b else {}))"
proof (induction l arbitrary: b s X bud)
  case 0
  then show ?case by (intro exI [of _ b] exI [of _ s] exI [of _ X]) simp
next
  case (Suc l)
  let ?N = "numLevels c" and ?F = "free_nodes c X r" and ?u = "buddy_of b"
  note o = Suc.prems(2)
  note od = bb_openD [OF o] and cf = bb_cfgD [OF c]
  have lb: "0 < fst b" "fst b = Suc l" using Suc.prems(1) by simp_all
  have bud: "bud = naddr c s r ?u" using Suc.prems(3) by simp
  have uo: "node_ok ?N ?u" by (rule buddy_ok [OF od(4) lb(1)])
  have bit: "block_is_allocated s r (bb_map_index (block_index c s bud r (Suc l))) \<longleftrightarrow> ?u \<notin> ?F"
  proof -
    have "bb_map_index (block_index c s bud r (Suc l)) = 2 ^ l + snd b div 2"
      using map_index_node [OF cf(1) od(1) r uo] lb(2) by (simp add: bud buddy_half)
    moreover have "snd b div 2 < 2 ^ l" "Suc l < ?N"
      using parent_ok [OF od(4) lb(1)] od(4) lb(2) by (simp_all add: node_ok_def parent_of_def)
    then have "block_is_allocated s r (2 ^ l + snd b div 2) \<longleftrightarrow> pair_bit (insert b ?F) l (snd b div 2)"
      using od(9) [OF r] by (simp add: bits_ok_def)
    moreover have "pair_bit (insert b ?F) l (snd b div 2) \<longleftrightarrow> ?u \<notin> insert b ?F"
      using pair_bit_buddy [OF lb(1), of "insert b ?F"] lb(2) by (simp add: parent_of_def)
    ultimately show ?thesis using buddy_differs [of b] by simp
  qed
  show ?case
  proof (cases "?u \<in> ?F")
    case False
    then have "bb_merge c r (Suc l) (naddr c s r b) bud s = (naddr c s r b, fst b, s)" using bit lb by simp
    then show ?thesis using False o by (intro exI [of _ b] exI [of _ s] exI [of _ X]) simp
  next
    case True
    let ?p = "parent_of b" and ?X1 = "upX X r (fst b) (remove1 (snd ?u) (X r (fst b)))"
    define sa where "sa = (if Suc l < ?N - 1 \<and> sizeBits c = 0 \<and> useSizeMap c
      then set_split_block s r (block_index c s (naddr c s r b) r (Suc l)) False else s)"
    let ?s1 = "sa\<lparr>blinks := list_remove (blinks sa) (Block (naddr c sa r ?u))\<rparr>"
    let ?k = "if fst b = 1 then 0 else 2 ^ (fst b - 2) + snd b div 2 div 2"
    let ?t = "if 1 < fst b then flip_allocated_block ?s1 r ?k else ?s1"
    have fa: "bstart sa = bstart s" "blinks sa = blinks s" "freeBlocks sa = freeBlocks s" by (simp_all add: sa_def)
    have na: "naddr c sa = naddr c s" by (rule naddr_cong [OF fa(1)])
    have oa: "bb_open c sa X Z r b" by (rule bb_open_cong [OF o fa])
    note turn = merge_turn [OF c oa r lb(1) True]
    have po: "node_ok ?N ?p" "fst ?p = l" using parent_ok [OF od(4) lb(1)] lb by (simp_all add: parent_of_def)
    have blk: "(if bud < naddr c s r b then bud else naddr c s r b) = naddr c s r ?p"
      unfolding bud by (rule parent_addr [OF cf(1) od(4) lb(1)])
    have t: "bstart ?t = bstart s" using fa by simp
    have nt: "naddr c ?t = naddr c s" by (rule naddr_cong [OF t])
    have pt: "placed c ?t" using od(1) t by (simp add: placed_def)
    have s1: "sa\<lparr>blinks := list_remove (blinks sa) (Block bud)\<rparr> = ?s1" unfolding na bud ..
    define bud' where "bud' = (if l > 0 then get_buddy c ?s1 (naddr c s r ?p) l else bud)"
    have step: "bb_merge c r (Suc l) (naddr c s r b) bud s = bb_merge c r l (naddr c s r ?p) bud' ?t"
    proof (cases l)
      case 0
      then show ?thesis using True bit lb unfolding bb_merge.simps Let_def sa_def [symmetric] blk s1 by (simp add: bud'_def)
    next
      case (Suc m)
      have p1: "placed c ?s1" using od(1) fa(1) by (simp add: placed_def)
      have "naddr c ?s1 r ?p = naddr c s r ?p" by (simp add: naddr_def baddr_def fa)
      then have "bb_map_index (block_index c ?s1 (naddr c s r ?p) r l) = ?k"
        using map_index_node [OF cf(1) p1 r po(1)] po(2) Suc lb by (simp add: parent_of_def)
      then show ?thesis using Suc True bit lb unfolding bb_merge.simps Let_def sa_def [symmetric] blk s1 by (simp add: bud'_def)
    qed
    have "bud' = naddr c ?t r (buddy_of ?p)" if "0 < l"
    proof -
      have p1: "placed c ?s1" using od(1) fa(1) by (simp add: placed_def)
      have n1: "naddr c ?s1 = naddr c s" by (rule naddr_cong) (simp add: fa)
      show ?thesis using buddy_addr [OF cf(1) p1 r po(1)] po(2) that unfolding nt n1 by (simp add: bud'_def)
    qed
    from Suc.IH [OF po(2) turn(1) this]
    obtain b' s' X' where h: "bb_merge c r l (naddr c ?t r ?p) bud' ?t = (naddr c ?t r b', fst b', s')"
      "bb_open c s' X' Z r b'" "fst b' = 0 \<or> buddy_of b' \<notin> free_nodes c X' r" "lazy_same ?t s'"
      "\<forall>r'. region_units_of c X' r' \<union> (if r' = r then nspan ?N b' else {})
           = region_units_of c ?X1 r' \<union> (if r' = r then nspan ?N ?p else {})"
      by blast
    have "lazy_same s ?t" by (simp add: sa_def)
    then have "lazy_same s s'" using h(4) lazy_same_trans by blast
    then show ?thesis using h(1-3,5) step turn(2) unfolding nt by (intro exI [of _ b'] exI [of _ s'] exI [of _ X']) simp
  qed
qed

definition bb_released :: "buddy_config \<Rightarrow> ('a) buddy_scheme \<Rightarrow> (nat \<Rightarrow> nat \<Rightarrow> nat list) \<Rightarrow> (nat \<Rightarrow> nat list) \<Rightarrow> nat \<Rightarrow> node \<Rightarrow> ('a) buddy_scheme \<Rightarrow> bool" where
  "bb_released c s X Z r b s' \<longleftrightarrow> (\<exists>X'. bb_inv c s' X' Z \<and> lazy_same s s'
     \<and> (\<forall>r' < numRegions c. region_units_of c X' r' = region_units_of c X r' \<union> (if r' = r then nspan (numLevels c) b else {})))"

lemma get_level_flip [simp]: "get_level c (flip_allocated_block s r k) p n = get_level c s p n"
proof -
  have f: "bstart (flip_allocated_block s r k) = bstart s" "sizeMap (flip_allocated_block s r k) = sizeMap s"
    by (simp_all add: flip_allocated_block_def)
  have "level_from_split_bits c (flip_allocated_block s r k) p q m = level_from_split_bits c s p q m" for q m
    by (induction m) (simp_all add: f block_index_def index_in_level_def region_start_def)
  then show ?thesis
    by (simp add: get_level_def f get_region_def region_start_def Let_def)
qed

lemma bb_deallocate_cases:
  assumes c: "bb_cfg c" and inv: "bb_inv c s X Z" and r: "r < numRegions c" and b: "node_ok (numLevels c) b"
    and used: "nspan (numLevels c) b \<inter> region_units_of c X r = {}" and apart: "lazy_apart c s r (nspan (numLevels c) b) Z"
    and lev: "get_level c s (naddr c s r b) sz = fst b"
  shows "bb_released c s X Z r b (bb_deallocate_internal c s (naddr c s r b) sz)"
proof -
  let ?N = "numLevels c" and ?F = "free_nodes c X r" and ?a = "naddr c s r b"
  let ?k = "if fst b = 0 then 0 else 2 ^ (fst b - 1) + snd b div 2"
  note gd = bb_genD [OF inv [unfolded bb_inv_def]] and cf = bb_cfgD [OF c]
  have reg: "get_region c s ?a = r" by (rule naddr_region [OF cf(1) gd(1) r b])
  have mi: "bb_map_index (block_index c s ?a r (fst b)) = ?k" by (rule map_index_node [OF cf(1) gd(1) r b])
  let ?s1 = "flip_allocated_block s r ?k"
  have b_notin: "b \<notin> ?F"
    by (rule aside_not_free [of ?N b]) (use used in \<open>simp_all add: region_units_of_def nspan_nonempty\<close>)
  have tog: "0 < fst b \<Longrightarrow> (b \<in> ?F) \<noteq> (b \<in> insert b ?F)"
    "\<And>a. fst a \<noteq> 0 \<Longrightarrow> a \<noteq> b \<Longrightarrow> a \<in> insert b ?F \<longleftrightarrow> a \<in> ?F" using b_notin by auto
  note fl = bits_flip [OF c gd(2) r gd(6) [OF r] b tog refl]
  have f1: "bstart ?s1 = bstart s" "blinks ?s1 = blinks s" by simp_all
  have n1: "naddr c ?s1 = naddr c s" by (rule naddr_cong [OF f1(1)])
  have p1: "placed c ?s1" using gd(1) by (simp add: placed_def)
  have op: "bb_open c ?s1 X Z r b"
    unfolding bb_open_def
  proof (intro conjI allI impI)
    show "bb_links c ?s1 X Z" using gd(3) bb_links_cong [OF f1] by simp
    show "lazy_apart c ?s1 r (nspan ?N b) Z" using apart lazy_apart_cong [OF f1(1)] by simp
    show "bits_ok c ?s1 r' (if r' = r then insert b (free_nodes c X r') else free_nodes c X r')" if "r' < numRegions c" for r'
      using fl(1) bits_ok_cong [OF gd(6) [OF that], of ?s1] by auto
    show "lazy_apart c ?s1 r' (region_units_of c X r') Z" if "r' < numRegions c" for r'
      using gd(7) [OF that] lazy_apart_cong [OF f1(1)] by (simp add: region_units_of_def)
  qed (use p1 fl(2) b used gd(4,5) in simp_all)
  have bud: "get_buddy c ?s1 ?a (fst b) = naddr c ?s1 r (buddy_of b)" if "0 < fst b"
    using buddy_addr [OF cf(1) p1 r b that] unfolding n1 .
  obtain b' s2 X' where h: "bb_merge c r (fst b) (naddr c ?s1 r b) (get_buddy c ?s1 ?a (fst b)) ?s1 = (naddr c ?s1 r b', fst b', s2)"
    "bb_open c s2 X' Z r b'" "fst b' = 0 \<or> buddy_of b' \<notin> free_nodes c X' r" "lazy_same ?s1 s2"
    "\<forall>r'. region_units_of c X' r' \<union> (if r' = r then nspan ?N b' else {})
           = region_units_of c X r' \<union> (if r' = r then nspan ?N b else {})"
    using merge_loop [OF c r refl op bud] by blast
  define s3 where "s3 = add_free_size (if fst b' < ?N - 1 \<and> sizeBits c = 0 \<and> useSizeMap c
    then set_split_block s2 r (block_index c s2 (naddr c ?s1 r b') r (fst b')) False else s2) r sz"
  have f3: "bstart s3 = bstart s2" "blinks s3 = blinks s2" "freeBlocks s3 = freeBlocks s2" by (simp_all add: s3_def)
  have st: "bstart s2 = bstart s" using h(4) by (simp add: lazy_same_def)
  have n3: "naddr c s3 = naddr c s" by (rule naddr_cong) (simp add: f3 st)
  have res: "bb_deallocate_internal c s ?a sz = push_free_list s3 (naddr c s r b') r (fst b')"
    using h(1) unfolding n1 by (simp add: bb_deallocate_internal_def reg lev mi s3_def n1 Let_def)
  have o3: "bb_open c s3 X' Z r b'" by (rule bb_open_cong [OF h(2) f3])
  note od = bb_openD [OF o3]
  let ?X = "upX X' r (fst b') (X' r (fst b') @ [snd b'])" and ?s4 = "push_free_list s3 (naddr c s r b') r (fst b')"
  have bb: "node_ok ?N (fst b', snd b')" "nspan ?N (fst b', snd b') \<inter> free_units ?N (free_nodes c X' r) = {}"
    "lazy_apart c s3 r (nspan ?N (fst b', snd b')) Z"
    using od(4-6) by (simp_all add: region_units_of_def)
  note push = push_block [OF c od(1) od(3) r od(7) bb]
  have Fn: "free_nodes c ?X r = insert b' (free_nodes c X' r)"
    using free_nodes_push [of "fst b'" c X' r "snd b'"] bb(1) by (simp add: node_ok_def)
  have Fo: "free_nodes c ?X r' = free_nodes c X' r'" if "r' \<noteq> r" for r' by (rule free_nodes_other [OF that])
  have ap4: "lazy_apart c ?s4 r' U Z = lazy_apart c s3 r' U Z" for r' U by (rule lazy_apart_cong) simp
  have "bb_gen c ?s4 ?X Z (\<lambda>_. {})"
    unfolding bb_gen_def
  proof (intro conjI allI impI)
    show "placed c ?s4" using od(1) by (simp add: placed_def)
    show "length (freeBlocks ?s4) = numRegions c" using od(2) by simp
    show "bb_links c ?s4 ?X Z" using push(1) unfolding n3 by simp
    fix r' assume r': "r' < numRegions c"
    show "nodes_ok ?N (free_nodes c ?X r')" by (rule push(2)) (use r' in simp_all)
    show "merged {} (free_nodes c ?X r')"
      using merged_add [OF od(8) [OF r] h(3)] od(8) [OF r'] by (cases "r' = r") (simp_all only: Fn Fo simp_thms if_True)
    have "bits_ok c s3 r' (free_nodes c ?X r')"
      using od(9) [OF r'] by (cases "r' = r") (simp_all only: Fn Fo simp_thms if_True if_False)
    then show "bits_ok c ?s4 r' (free_nodes c ?X r')" by (rule bits_ok_cong) simp_all
    show "lazy_apart c ?s4 r' (free_units ?N (free_nodes c ?X r')) Z"
    proof (cases "r' = r")
      case True
      then show ?thesis unfolding ap4 using od(6) od(10) [OF r'] by (auto simp: Fn units_insert region_units_of_def lazy_apart_def)
    next
      case False
      then show ?thesis unfolding ap4 Fo [OF False] using od(10) [OF r'] by (simp add: region_units_of_def)
    qed
  qed
  moreover have "lazy_same s ?s4" using h(4) by (simp add: s3_def)
  moreover have "region_units_of c ?X r' = region_units_of c X r' \<union> (if r' = r then nspan ?N b else {})" for r'
  proof (cases "r' = r")
    case True
    then show ?thesis using h(5) [rule_format, of r] by (simp add: region_units_of_def Fn units_insert Un_commute)
  next
    case False
    then show ?thesis using h(5) [rule_format, of r'] Fo [OF False] by (simp add: region_units_of_def)
  qed
  ultimately show ?thesis unfolding res bb_released_def bb_inv_def by blast
qed

end
