(* ===== verification/Bt_Buddy.thy ===== *)
theory Bt_Buddy
  imports Buddy_Geometry
begin

text \<open>
  The bitmap tree buddy allocator, \<open>btbuddy.hpp\<close> and \<open>btbuddy.cpp\<close>. Each region has a
  complete binary tree over its blocks; the value of a node is the height of the largest
  free block below it. The lowest three levels are packed into 2, 2 and 1 bits.
\<close>

record bt_buddy = buddy +
  btTree :: "u8 list list"
  btBits :: "nat list"
  levelOffsets :: "nat list"

definition bitmask_table :: "nat list list" where
  "bitmask_table =
     [[0xFE, 0xFD, 0xFB, 0xF7, 0xEF, 0xDF, 0xBF, 0x7F],
      [0xFC, 0, 0xF3, 0, 0xCF, 0, 0x3F, 0],
      [0, 0, 0, 0, 0, 0, 0, 0],
      [0xF0, 0, 0, 0, 0x0F, 0, 0, 0]]"

definition set_tree :: "buddy_config \<Rightarrow> ('a) bt_buddy_scheme \<Rightarrow> nat \<Rightarrow> nat \<Rightarrow> nat \<Rightarrow> ('a) bt_buddy_scheme" where
  "set_tree c s region index val =
     (let level = level_of_index index
      in if level < numLevels c - 3
         then s\<lparr>btTree := upd2 (btTree s) region index (word_of_nat val)\<rparr>
         else
           let level_start = index_of_level level;
               offset = levelOffsets s ! level;
               num_bits = btBits s ! level;
               byte_offset = offset + (index - level_start) * num_bits div 8;
               bit_offset = (index - level_start) * num_bits mod 8;
               byte = btTree s ! region ! byte_offset
           in s\<lparr>btTree := upd2 (btTree s) region byte_offset
                ((byte AND word_of_nat (bitmask_table ! (num_bits - 1) ! bit_offset))
                 OR push_bit bit_offset (word_of_nat val))\<rparr>)"

definition get_tree :: "buddy_config \<Rightarrow> ('a) bt_buddy_scheme \<Rightarrow> nat \<Rightarrow> nat \<Rightarrow> nat" where
  "get_tree c s region index =
     (let level = level_of_index index
      in if level < numLevels c - 3 then unat (btTree s ! region ! index)
         else
           let level_start = index_of_level level;
               offset = levelOffsets s ! level;
               num_bits = btBits s ! level;
               byte_offset = offset + (index - level_start) * num_bits div 8;
               bit_offset = (index - level_start) * num_bits mod 8;
               byte = btTree s ! region ! byte_offset
           in unat (drop_bit bit_offset byte AND drop_bit (8 - num_bits) 0xFF))"

definition bt_init_bitmaps :: "buddy_config \<Rightarrow> ('a) bt_buddy_scheme \<Rightarrow> bool \<Rightarrow> ('a) bt_buddy_scheme" where
  "bt_init_bitmaps c s startFull =
     (let s = set_bitmaps c s 0 (if startFull then 0xFF else 0)
      in foldl (\<lambda>s r.
           if startFull then foldl (\<lambda>s i. set_tree c s r i 0) s [0..<2 ^ numLevels c - 1]
           else foldl (\<lambda>s l. foldl (\<lambda>s i. set_tree c s r i (numLevels c - l)) s
                   [index_of_level l ..< index_of_level (l + 1)]) s [0..<numLevels c])
         s [0..<numRegions c])"

definition bt_bits_table :: "buddy_config \<Rightarrow> nat list" where
  "bt_bits_table c =
     (let n = numLevels c;
          bits = (8 # replicate (n - 1) 0)[n - 1 := 1, n - 2 := 2, n - 3 := 2]
      in foldl (\<lambda>b i. b[i := 8]) bits (rev [0..<n - 3]))"

fun level_offsets_loop :: "nat list \<Rightarrow> nat \<Rightarrow> nat \<Rightarrow> nat \<Rightarrow> nat list \<Rightarrow> nat list" where
  "level_offsets_loop bits i start_offset 0 offs = offs"
| "level_offsets_loop bits i start_offset (Suc n) offs =
     (let level_size = (2 ^ i * bits ! i + 7) div 8 * 8;
          start_offset = start_offset + level_size div 8
      in level_offsets_loop bits (i + 1) start_offset n (offs[i + 1 := start_offset]))"

definition bt_new :: "buddy_config \<Rightarrow> link_ptr links \<Rightarrow> u8 list list \<Rightarrow> u8 list list \<Rightarrow> u8 list list
    \<Rightarrow> nat \<Rightarrow> nat \<Rightarrow> bool \<Rightarrow> bt_buddy" where
  "bt_new c links0 sm0 fb0 tree0 start lazyThreshold startFull =
     (let s = buddy.extend (buddy_new c links0 sm0 fb0 start lazyThreshold startFull)
            (bt_buddy.fields tree0 (8 # replicate (numLevels c - 1) 0) (replicate (numLevels c) 0));
          s = (if startFull then s
               else foldl (\<lambda>s r. push_free_list s (region_start c s r) r 0) s [0..<numRegions c]);
          s = s\<lparr>btBits := bt_bits_table c\<rparr>;
          s = s\<lparr>levelOffsets := level_offsets_loop (btBits s) 0 0 (numLevels c - 1) (levelOffsets s)\<rparr>
      in bt_init_bitmaps c s startFull)"

definition tree_height :: "buddy_config \<Rightarrow> nat \<Rightarrow> nat" where
  "tree_height c sz = w8 (256 + numLevels c - find_smallest_block_level c sz)"

fun bt_descend :: "buddy_config \<Rightarrow> ('a) bt_buddy_scheme \<Rightarrow> nat \<Rightarrow> nat \<Rightarrow> nat \<Rightarrow> nat \<Rightarrow> nat" where
  "bt_descend c s r block_height 0 tree_index = tree_index"
| "bt_descend c s r block_height (Suc n) tree_index =
     (let tree_index = 2 * tree_index + 1;
          tree_index = (if get_tree c s r tree_index < block_height then tree_index + 1 else tree_index)
      in bt_descend c s r block_height n tree_index)"

fun bt_alloc_parents :: "buddy_config \<Rightarrow> nat \<Rightarrow> nat \<Rightarrow> nat \<Rightarrow> ('a) bt_buddy_scheme \<Rightarrow> ('a) bt_buddy_scheme" where
  "bt_alloc_parents c r 0 tree_index s = s"
| "bt_alloc_parents c r (Suc n) tree_index s =
     (let left_value = get_tree c s r (2 * tree_index + 1);
          right_value = get_tree c s r (2 * tree_index + 2);
          s = (if left_value > right_value then set_tree c s r tree_index left_value
               else set_tree c s r tree_index right_value);
          s = (if sizeBits c = 0 \<and> useSizeMap c then set_split_block s r tree_index True else s)
      in bt_alloc_parents c r n ((tree_index - 1) div 2) s)"

definition bt_alloc_in :: "buddy_config \<Rightarrow> ('a) bt_buddy_scheme \<Rightarrow> nat \<Rightarrow> nat \<Rightarrow> nat \<Rightarrow> nat \<times> ('a) bt_buddy_scheme" where
  "bt_alloc_in c s r block_height totalSize =
     (let tree_index = bt_descend c s r block_height (numLevels c - block_height) 0;
          s = set_tree c s r tree_index 0;
          block = get_address c s r tree_index;
          s = (if sizeBits c \<noteq> 0 \<and> useSizeMap c then set_level c s block r (numLevels c - block_height) else s);
          s = bt_alloc_parents c r (numLevels c - block_height) ((tree_index - 1) div 2) s
      in (block, sub_free_size s r (rup2 totalSize)))"

text \<open>One attempt over the regions; \<open>locked\<close> says which regions are passed over because
  \<open>try_lock\<close> failed. The second attempt waits for the locks and passes over none.\<close>

fun bt_attempt :: "buddy_config \<Rightarrow> (nat \<Rightarrow> bool) \<Rightarrow> nat \<Rightarrow> nat \<Rightarrow> nat list \<Rightarrow> ('a) bt_buddy_scheme
    \<Rightarrow> (nat \<times> ('a) bt_buddy_scheme) option" where
  "bt_attempt c locked block_height totalSize [] s = None"
| "bt_attempt c locked block_height totalSize (r # rs) s =
     (if locked r \<or> get_tree c s r 0 < block_height
      then bt_attempt c locked block_height totalSize rs s
      else Some (bt_alloc_in c s r block_height totalSize))"

definition bt_allocate_internal :: "buddy_config \<Rightarrow> (buddy_lock \<Rightarrow> bool) \<Rightarrow> ('a) bt_buddy_scheme \<Rightarrow> nat
    \<Rightarrow> nat option \<times> ('a) bt_buddy_scheme" where
  "bt_allocate_internal c contended s totalSize =
     (let block_height = tree_height c totalSize; regions = [0..<numRegions c];
          locked = (\<lambda>r. contended (RegionLock r))
      in case bt_attempt c locked block_height totalSize regions s of
           Some (p, s') \<Rightarrow> (Some p, s')
         | None \<Rightarrow>
             (if \<exists>r \<in> set regions. locked r
              then case bt_attempt c (\<lambda>_. False) block_height totalSize regions s of
                     Some (p, s') \<Rightarrow> (Some p, s') | None \<Rightarrow> (None, s)
              else (None, s)))"

fun bt_dealloc_parents :: "buddy_config \<Rightarrow> nat \<Rightarrow> nat \<Rightarrow> nat \<Rightarrow> nat \<Rightarrow> ('a) bt_buddy_scheme \<Rightarrow> ('a) bt_buddy_scheme" where
  "bt_dealloc_parents c region l 0 block_idx s = s"
| "bt_dealloc_parents c region l (Suc n) block_idx s =
     (let left_value = get_tree c s region (w32 (2 * block_idx + 1));
          right_value = get_tree c s region (w32 (2 * block_idx + 2));
          s = (if left_value = right_value \<and> left_value = l
               then set_split_block (set_tree c s region block_idx (l + 1)) region block_idx False
               else set_tree c s region block_idx
                      (if left_value > right_value then left_value else right_value))
      in bt_dealloc_parents c region (l + 1) n (sub32 block_idx 1 div 2) s)"

definition bt_deallocate_internal :: "buddy_config \<Rightarrow> ('a) bt_buddy_scheme \<Rightarrow> nat \<Rightarrow> nat \<Rightarrow> ('a) bt_buddy_scheme" where
  "bt_deallocate_internal c s ptr sz =
     (let region = get_region c s ptr;
          level = get_level c s ptr sz;
          block_height = tree_height c sz;
          block_idx = block_index c s ptr region level;
          s = set_tree c s region block_idx block_height;
          s = bt_dealloc_parents c region block_height (numLevels c - block_height) (sub32 block_idx 1 div 2) s
      in add_free_size s region sz)"

definition bt_allocate :: "buddy_config \<Rightarrow> (buddy_lock \<Rightarrow> bool) \<Rightarrow> ('a) bt_buddy_scheme \<Rightarrow> nat
    \<Rightarrow> nat option \<times> ('a) bt_buddy_scheme" where
  "bt_allocate c contended = buddy_allocate c contended (bt_allocate_internal c contended)"

definition bt_deallocate_sized :: "buddy_config \<Rightarrow> ('a) bt_buddy_scheme \<Rightarrow> nat \<Rightarrow> nat \<Rightarrow> ('a) bt_buddy_scheme" where
  "bt_deallocate_sized c = buddy_deallocate_sized c (bt_deallocate_internal c)"

definition bt_deallocate :: "buddy_config \<Rightarrow> ('a) bt_buddy_scheme \<Rightarrow> nat \<Rightarrow> ('a) bt_buddy_scheme" where
  "bt_deallocate c = buddy_deallocate c (bt_deallocate_internal c)"

end
