(* ===== verification/Bt_Store.thy ===== *)
theory Bt_Store
  imports Bt_Buddy
begin

text \<open>
  The packed tree of the bitmap tree buddy allocator is an array of node values: reading a
  node returns what was last written to it, and writing one leaves every other node alone,
  although four or eight nodes share a byte.
\<close>

definition bt_cfg :: "buddy_config \<Rightarrow> bool" where
  "bt_cfg c \<longleftrightarrow> cfg_ok c \<and> 3 \<le> numLevels c"

definition node_bits :: "buddy_config \<Rightarrow> nat \<Rightarrow> nat" where
  "node_bits c l = (if l = numLevels c - 1 then 1 else if numLevels c - 3 \<le> l then 2 else 8)"

fun node_base :: "buddy_config \<Rightarrow> nat \<Rightarrow> nat" where
  "node_base c 0 = 0"
| "node_base c (Suc l) = node_base c l + (2 ^ l * node_bits c l + 7) div 8"

definition bt_shape :: "buddy_config \<Rightarrow> ('a) bt_buddy_scheme \<Rightarrow> bool" where
  "bt_shape c s \<longleftrightarrow> btBits s = bt_bits_table c
     \<and> levelOffsets s = level_offsets_loop (bt_bits_table c) 0 0 (numLevels c - 1) (replicate (numLevels c) 0)
     \<and> length (btTree s) = numRegions c \<and> (\<forall>r < numRegions c. length (btTree s ! r) = 2 ^ numLevels c)"

lemma bt_cfgD:
  assumes "bt_cfg c"
  shows "cfg_ok c" "3 \<le> numLevels c" "numLevels c \<le> 28"
  using assms cfg_okD [of c] numLevels_eq [of c] by (auto simp: bt_cfg_def)

subsection \<open>Slots\<close>

lemma foldl_update_nth:
  "j < length bs \<Longrightarrow> foldl (\<lambda>b i. b[i := v]) bs xs ! j = (if j \<in> set xs then v else bs ! j)"
  by (induction xs arbitrary: bs) auto

lemma foldl_update_length [simp]: "length (foldl (\<lambda>b i. b[i := v]) bs xs) = length bs"
  by (induction xs arbitrary: bs) auto

lemma bits_table_gen:
  assumes "length b = n" "3 \<le> n"
  shows "length (foldl (\<lambda>b i. b[i := 8]) (b[n - 1 := 1, n - 2 := 2, n - 3 := 2]) xs) = n"
    "l < n \<Longrightarrow> set xs = {0..<n - 3} \<Longrightarrow>
     foldl (\<lambda>b i. b[i := 8]) (b[n - 1 := 1, n - 2 := 2, n - 3 := 2]) xs ! l
       = (if l = n - 1 then 1 else if n - 3 \<le> l then 2 else 8)"
  using assms by (auto simp: foldl_update_nth nth_list_update)

lemma bits_table_nth:
  assumes "3 \<le> numLevels c" "l < numLevels c"
  shows "bt_bits_table c ! l = node_bits c l"
  unfolding bt_bits_table_def Let_def node_bits_def
  by (rule bits_table_gen(2)) (use assms in auto)

lemma offsets_loop_nth:
  "i + n < length offs \<Longrightarrow> level_offsets_loop bits i st n offs ! j =
     (if i < j \<and> j \<le> i + n then st + (\<Sum>k = i..<j. (2 ^ k * bits ! k + 7) div 8) else offs ! j)"
proof (induction n arbitrary: i st offs)
  case (Suc n)
  show ?case
  proof (cases "j = i + 1")
    case True
    then show ?thesis using Suc by (simp add: Let_def)
  next
    case False
    then have "i + 1 < j \<Longrightarrow> {i..<j} = insert i {i + 1..<j}" by auto
    then show ?thesis using False Suc by (auto simp: Let_def)
  qed
qed simp

lemma node_base_sum: "node_base c j = (\<Sum>k = 0..<j. (2 ^ k * node_bits c k + 7) div 8)"
  by (induction j) auto

lemma levelOffsets_nth:
  assumes "bt_cfg c" "bt_shape c s" "l < numLevels c"
  shows "levelOffsets s ! l = node_base c l" "btBits s ! l = node_bits c l"
proof -
  show "btBits s ! l = node_bits c l"
    using assms bt_cfgD [OF assms(1)] bits_table_nth by (simp add: bt_shape_def)
  have "(\<Sum>k = 0..<l. (2 ^ k * bt_bits_table c ! k + 7) div 8) = node_base c l"
    unfolding node_base_sum using assms bt_cfgD [OF assms(1)] by (intro sum.cong) (auto simp: bits_table_nth)
  then show "levelOffsets s ! l = node_base c l"
    using assms offsets_loop_nth [of 0 "numLevels c - 1" "replicate (numLevels c) 0" "bt_bits_table c" 0 l]
    by (cases l) (auto simp: bt_shape_def)
qed

lemma node_base_top: "l \<le> numLevels c - 3 \<Longrightarrow> 3 \<le> numLevels c \<Longrightarrow> node_base c l = 2 ^ l - 1"
proof (induction l)
  case (Suc l)
  then have "node_bits c l = 8" by (simp add: node_bits_def)
  then have "node_base c (Suc l) = (2 ^ l - 1) + (2 ^ l * 8 + 7) div 8" using Suc by simp
  also have "(2 ^ l * 8 + 7) div 8 = (2::nat) ^ l" by simp
  finally show ?case by simp
qed simp

lemma node_base_mono: "l \<le> m \<Longrightarrow> node_base c l \<le> node_base c m"
  by (induction m) (auto simp: le_Suc_eq)

lemma slot_in_level:
  assumes "k < 2 ^ l"
  shows "node_base c l \<le> node_base c l + k * node_bits c l div 8"
    "node_base c l + k * node_bits c l div 8 < node_base c (Suc l)"
proof -
  have b: "1 \<le> node_bits c l" by (simp add: node_bits_def)
  have "Suc k * node_bits c l \<le> 2 ^ l * node_bits c l" by (rule mult_le_mono1) (use assms in simp)
  then have "k * node_bits c l + 8 \<le> 2 ^ l * node_bits c l + 7" using b by simp
  then have "(k * node_bits c l + 8) div 8 \<le> (2 ^ l * node_bits c l + 7) div 8" by (rule div_le_mono)
  then show "node_base c l + k * node_bits c l div 8 < node_base c (Suc l)" by simp
qed simp

lemma slot_levels_differ:
  assumes "k < 2 ^ l" "k' < 2 ^ l'" "l \<noteq> l'"
  shows "node_base c l + k * node_bits c l div 8 \<noteq> node_base c l' + k' * node_bits c l' div 8"
  using slot_in_level [OF assms(1), of c] slot_in_level [OF assms(2), of c]
    node_base_mono [of "Suc l" l' c] node_base_mono [of "Suc l'" l c] assms(3)
  by (cases "l < l'") auto

lemma node_base_end: "3 \<le> numLevels c \<Longrightarrow> node_base c (numLevels c) \<le> 2 ^ numLevels c"
proof -
  assume n: "3 \<le> numLevels c"
  then obtain m where m: "numLevels c = m + 3" using le_Suc_ex by (metis add.commute)
  have "node_base c m = 2 ^ m - 1" using node_base_top [of m c] m by simp
  moreover have "node_bits c m = 2" "node_bits c (Suc m) = 2" "node_bits c (Suc (Suc m)) = 1"
    by (simp_all add: node_bits_def m)
  ultimately have e: "node_base c (Suc (Suc (Suc m)))
      = 2 ^ m - 1 + (2 ^ m * 2 + 7) div 8 + (2 ^ m * 4 + 7) div 8 + (2 ^ m * 4 + 7) div 8"
    by (simp add: mult.commute)
  have "x - 1 + (x * 2 + 7) div 8 + (x * 4 + 7) div 8 + (x * 4 + 7) div 8 \<le> 8 * x" for x :: nat
    using div_times_less_eq_dividend [of "x * 2 + 7" 8] div_times_less_eq_dividend [of "x * 4 + 7" 8]
    by (cases "x = 0", simp, linarith)
  then have "node_base c (Suc (Suc (Suc m))) \<le> 8 * 2 ^ m" unfolding e .
  moreover have "numLevels c = Suc (Suc (Suc m))" "(2::nat) ^ Suc (Suc (Suc m)) = 8 * 2 ^ m" using m by simp_all
  ultimately show ?thesis by simp
qed

lemma slot_in_array:
  assumes "3 \<le> numLevels c" "l < numLevels c" "k < 2 ^ l"
  shows "node_base c l + k * node_bits c l div 8 < 2 ^ numLevels c"
  using slot_in_level(2) [OF assms(3), of c] node_base_mono [of "Suc l" "numLevels c" c]
    node_base_end [OF assms(1)] assms(2) by linarith

subsection \<open>Bits of a byte\<close>

definition read_slot :: "u8 \<Rightarrow> nat \<Rightarrow> nat \<Rightarrow> nat" where
  "read_slot b off w = unat (drop_bit off b AND drop_bit (8 - w) 0xFF)"

definition write_slot :: "u8 \<Rightarrow> nat \<Rightarrow> nat \<Rightarrow> nat \<Rightarrow> u8" where
  "write_slot b off w v = (b AND word_of_nat (bitmask_table ! (w - 1) ! off)) OR push_bit off (word_of_nat v)"

definition slot_ok :: "nat \<Rightarrow> nat \<Rightarrow> bool" where
  "slot_ok off w \<longleftrightarrow> off < 8 \<and> (w = 1 \<or> w = 2 \<and> even off)"

lemma slot_ok_cases:
  "slot_ok off w \<Longrightarrow> (off, w) \<in> {(0,1),(1,1),(2,1),(3,1),(4,1),(5,1),(6,1),(7,1),(0,2),(2,2),(4,2),(6,2)}"
proof -
  assume a: "slot_ok off w"
  then have "off = 0 \<or> off = 1 \<or> off = 2 \<or> off = 3 \<or> off = 4 \<or> off = 5 \<or> off = 6 \<or> off = 7"
    unfolding slot_ok_def by presburger
  with a show ?thesis by (auto simp: slot_ok_def)
qed

lemma bitmask_entry:
  "slot_ok off w \<Longrightarrow> (word_of_nat (bitmask_table ! (w - 1) ! off) :: u8) = NOT (push_bit off (mask w))"
  by (drule slot_ok_cases) (auto simp: bitmask_table_def mask_numeral)

lemma read_mask: "slot_ok off w \<Longrightarrow> (drop_bit (8 - w) 0xFF :: u8) = mask w"
  by (auto simp: slot_ok_def mask_numeral)

lemma bit_small: "v < 2 ^ w \<Longrightarrow> w \<le> 8 \<Longrightarrow> bit (word_of_nat v :: u8) j \<Longrightarrow> j < w"
proof (rule ccontr)
  assume v: "v < 2 ^ w" and b: "bit (word_of_nat v :: u8) j" and j: "\<not> j < w"
  have "(2::nat) ^ w \<le> 2 ^ j" using j by (intro power_increasing) simp_all
  then have "v < 2 ^ j" using v by linarith
  then have "v div 2 ^ j = 0" by simp
  then show False using b unfolding bit_of_nat_iff by (simp add: bit_iff_odd)
qed

lemma write_slot_bit:
  assumes "slot_ok off w" "v < 2 ^ w" "m < 8"
  shows "bit (write_slot b off w v) m \<longleftrightarrow>
    (if off \<le> m \<and> m < off + w then bit (word_of_nat v :: u8) (m - off) else bit b m)"
proof -
  have w: "w \<le> 8" using assms(1) by (auto simp: slot_ok_def)
  show ?thesis
    using assms(3) bit_small [OF assms(2) w, of "m - off"]
    unfolding write_slot_def bitmask_entry [OF assms(1)]
    by (auto simp: bit_or_iff bit_and_iff bit_not_iff bit_push_bit_iff bit_mask_iff)
qed

lemma read_slot_alt: "slot_ok off w \<Longrightarrow> read_slot b off w = unat (drop_bit off b AND mask w)"
  by (simp add: read_slot_def read_mask)

lemma read_write_same:
  assumes "slot_ok off w" "v < 2 ^ w"
  shows "read_slot (write_slot b off w v) off w = v"
proof -
  have w: "off + w \<le> 8" "w \<le> 2" using slot_ok_cases [OF assms(1)] by auto
  have "drop_bit off (write_slot b off w v) AND mask w = (word_of_nat v :: u8)"
  proof (rule bit_word_eqI)
    fix n assume "n < LENGTH(8)"
    show "bit (drop_bit off (write_slot b off w v) AND mask w) n \<longleftrightarrow> bit (word_of_nat v :: u8) n"
      using write_slot_bit [OF assms, of "off + n" b] w bit_small [OF assms(2), of n]
      by (auto simp: bit_and_iff bit_mask_iff bit_drop_bit_eq)
  qed
  moreover have "v < 256"
  proof -
    have "(2::nat) ^ w \<le> 2 ^ 2" using w by (intro power_increasing) simp_all
    then show ?thesis using assms(2) by simp
  qed
  ultimately show ?thesis using assms(1) by (simp add: read_slot_alt unat_of_nat_small)
qed

lemma read_write_other:
  assumes "slot_ok off w" "slot_ok off' w" "off \<noteq> off'" "v < 2 ^ w"
  shows "read_slot (write_slot b off w v) off' w = read_slot b off' w"
proof -
  have d: "off + w \<le> off' \<or> off' + w \<le> off"
    using assms(1-3) unfolding slot_ok_def by presburger
  have w: "off' + w \<le> 8" using slot_ok_cases [OF assms(2)] by auto
  have "drop_bit off' (write_slot b off w v) AND mask w = drop_bit off' b AND mask w"
  proof (rule bit_word_eqI)
    fix n assume "n < LENGTH(8)"
    show "bit (drop_bit off' (write_slot b off w v) AND mask w) n \<longleftrightarrow> bit (drop_bit off' b AND mask w) n"
      using write_slot_bit [OF assms(1,4), of "off' + n" b] w d
      by (auto simp: bit_and_iff bit_mask_iff bit_drop_bit_eq)
  qed
  then show ?thesis using assms(2) by (simp add: read_slot_alt)
qed

subsection \<open>The array of node values\<close>

definition node_slot :: "buddy_config \<Rightarrow> nat \<Rightarrow> nat \<Rightarrow> nat \<times> nat" where
  "node_slot c l k = (node_base c l + k * node_bits c l div 8, k * node_bits c l mod 8)"

lemma node_decompose:
  assumes "i < 2 ^ n - 1"
  obtains l k where "i = index_of_level l + k" "k < 2 ^ l" "l < n"
  using assms
proof (induction n arbitrary: thesis)
  case (Suc n)
  show ?case
  proof (cases "i < 2 ^ n - 1")
    case True
    then show ?thesis using Suc.IH Suc.prems(1) less_Suc_eq by metis
  next
    case False
    show ?thesis
      by (rule Suc.prems(1) [of n "i - (2 ^ n - 1)"]) (use False Suc.prems(2) in \<open>auto simp: index_of_level_def\<close>)
  qed
qed simp

lemma bt_level:
  assumes "bt_cfg c" "l < numLevels c" "k < 2 ^ l"
  shows "level_of_index (index_of_level l + k) = l"
  by (rule level_of_index_heap) (use assms bt_cfgD [OF assms(1)] in auto)

lemma node_slot_ok:
  assumes "bt_cfg c" "l < numLevels c" "numLevels c - 3 \<le> l"
  shows "slot_ok (snd (node_slot c l k)) (node_bits c l)"
proof (cases "l = numLevels c - 1")
  case False
  then show ?thesis using assms(3)
    by (simp add: node_slot_def node_bits_def slot_ok_def dvd_mod_iff)
qed (simp add: node_slot_def node_bits_def slot_ok_def)

lemma get_tree_slot:
  assumes "bt_cfg c" "bt_shape c s" "l < numLevels c" "k < 2 ^ l"
  shows "get_tree c s r (index_of_level l + k) =
    (let b = btTree s ! r ! fst (node_slot c l k)
     in if l < numLevels c - 3 then unat b else read_slot b (snd (node_slot c l k)) (node_bits c l))"
proof (cases "l < numLevels c - 3")
  case True
  then have "node_bits c l = 8" "node_base c l = index_of_level l"
    using bt_cfgD [OF assms(1)] by (simp_all add: node_bits_def node_base_top index_of_level_def)
  then show ?thesis using True
    by (simp add: get_tree_def bt_level [OF assms(1,3,4)] node_slot_def)
qed (simp add: get_tree_def Let_def bt_level [OF assms(1,3,4)] levelOffsets_nth [OF assms(1-3)] node_slot_def read_slot_def)

lemma set_tree_slot:
  assumes "bt_cfg c" "bt_shape c s" "l < numLevels c" "k < 2 ^ l"
  shows "set_tree c s r (index_of_level l + k) v = s\<lparr>btTree := upd2 (btTree s) r (fst (node_slot c l k))
    (if l < numLevels c - 3 then word_of_nat v
     else write_slot (btTree s ! r ! fst (node_slot c l k)) (snd (node_slot c l k)) (node_bits c l) v)\<rparr>"
proof (cases "l < numLevels c - 3")
  case True
  then have "node_bits c l = 8" "node_base c l = index_of_level l"
    using bt_cfgD [OF assms(1)] by (simp_all add: node_bits_def node_base_top index_of_level_def)
  then show ?thesis using True
    by (simp add: set_tree_def bt_level [OF assms(1,3,4)] node_slot_def)
qed (simp add: set_tree_def Let_def bt_level [OF assms(1,3,4)] levelOffsets_nth [OF assms(1-3)] node_slot_def write_slot_def)

lemma upd2_nth:
  "upd2 m r i v ! r' ! j = (if r' = r \<and> j = i \<and> r < length m \<and> i < length (m ! r) then v else m ! r' ! j)"
  by (cases "r < length m"; cases "i < length (m ! r)") (auto simp: upd2_def nth_list_update not_less list_update_beyond)

lemma upd2_shape [simp]: "length (upd2 m r i v) = length m" "length (upd2 m r i v ! r') = length (m ! r')"
  by (cases "r < length m"; cases "r' = r"; simp add: upd2_def nth_list_update not_less list_update_beyond)+

lemma set_tree_shape: "bt_shape c s \<Longrightarrow> bt_shape c (set_tree c s r i v)"
  by (simp add: bt_shape_def set_tree_def Let_def)

lemma set_tree_fields [simp]:
  "bstart (set_tree c s r i v) = bstart s" "sizeMap (set_tree c s r i v) = sizeMap s"
  "freeSizes (set_tree c s r i v) = freeSizes s" "freeBlocks (set_tree c s r i v) = freeBlocks s"
  "blinks (set_tree c s r i v) = blinks s" "lazyListSize (set_tree c s r i v) = lazyListSize s"
  "lazyThresholds (set_tree c s r i v) = lazyThresholds s" "topLevel (set_tree c s r i v) = topLevel s"
  by (simp_all add: set_tree_def Let_def)

lemma node_slot_inj:
  assumes "bt_cfg c" "l < numLevels c" "k < 2 ^ l" "l' < numLevels c" "k' < 2 ^ l'"
    "node_slot c l k = node_slot c l' k'"
  shows "l = l' \<and> k = k'"
proof -
  have l: "l = l'" using slot_levels_differ [OF assms(3,5), of c] assms(6) by (auto simp: node_slot_def)
  have "k * node_bits c l = k' * node_bits c l"
    using assms(6) l by (metis (no_types, lifting) add_left_cancel div_mult_mod_eq node_slot_def prod.inject)
  then show ?thesis using l by (simp add: node_bits_def split: if_splits)
qed

lemma get_tree_bound:
  assumes "bt_cfg c" "bt_shape c s" "l < numLevels c" "k < 2 ^ l"
  shows "get_tree c s r (index_of_level l + k) < 2 ^ node_bits c l"
proof (cases "l < numLevels c - 3")
  case True
  have "unat (x :: u8) < 256" for x using unsigned_less [of x] by simp
  moreover have "node_bits c l = 8" using True by (simp add: node_bits_def)
  ultimately show ?thesis using True by (simp add: get_tree_slot [OF assms] Let_def)
next
  case False
  then have ok: "slot_ok (snd (node_slot c l k)) (node_bits c l)" using node_slot_ok [OF assms(1,3)] by simp
  have "unat (x AND mask (node_bits c l) :: u8) < 2 ^ node_bits c l" for x
    unfolding take_bit_eq_mask [symmetric] unat_take_bit_mod by simp
  then show ?thesis using False by (simp add: get_tree_slot [OF assms] Let_def read_slot_alt [OF ok])
qed

lemma get_set_tree_level:
  assumes "bt_cfg c" "bt_shape c s" "r < numRegions c" "l < numLevels c" "k < 2 ^ l" "l' < numLevels c" "k' < 2 ^ l'"
    "v < 2 ^ node_bits c l"
  shows "get_tree c (set_tree c s r (index_of_level l + k) v) r' (index_of_level l' + k') =
    (if r' = r \<and> l' = l \<and> k' = k then v else get_tree c s r' (index_of_level l' + k'))"
proof -
  let ?s' = "set_tree c s r (index_of_level l + k) v"
  have sh: "bt_shape c ?s'" by (rule set_tree_shape [OF assms(2)])
  have len: "r < length (btTree s)" "fst (node_slot c l k) < length (btTree s ! r)"
    using assms(2,3) slot_in_array [OF bt_cfgD(2) [OF assms(1)] assms(4,5)] by (simp_all add: bt_shape_def node_slot_def)
  have st: "btTree ?s' = upd2 (btTree s) r (fst (node_slot c l k)) (if l < numLevels c - 3 then word_of_nat v
     else write_slot (btTree s ! r ! fst (node_slot c l k)) (snd (node_slot c l k)) (node_bits c l) v)"
    by (simp add: set_tree_slot [OF assms(1,2,4,5)])
  note g = get_tree_slot [OF assms(1) sh assms(6,7), unfolded st] get_tree_slot [OF assms(1,2,6,7)]
  show ?thesis
  proof (cases "r' = r \<and> fst (node_slot c l' k') = fst (node_slot c l k)")
    case False
    then have "\<not> (r' = r \<and> l' = l \<and> k' = k)" by auto
    then show ?thesis using False unfolding g by (auto simp: upd2_nth Let_def)
  next
    case True
    then have l: "l' = l" using slot_levels_differ [OF assms(5,7), of c] by (auto simp: node_slot_def)
    show ?thesis
    proof (cases "l < numLevels c - 3")
      case top: True
      then have "node_bits c l = 8" by (simp add: node_bits_def)
      then have "k' = k" "v < 256" using True l assms(8) by (simp_all add: node_slot_def)
      then show ?thesis using True top l len unfolding g by (simp add: upd2_nth Let_def unat_of_nat_small)
    next
      case False
      then have ok: "slot_ok (snd (node_slot c l j)) (node_bits c l)" for j
        using node_slot_ok [OF assms(1,4)] by simp
      have "k' = k \<longleftrightarrow> snd (node_slot c l k) = snd (node_slot c l k')"
        using node_slot_inj [OF assms(1,4,5,4), of k'] assms(7) True l by (metis prod_eqI)
      then show ?thesis using True False l len
        unfolding g by (auto simp: upd2_nth Let_def read_write_same [OF ok assms(8)]
            read_write_other [OF ok ok _ assms(8)])
    qed
  qed
qed

text \<open>The packed tree behaves as an array: after a write that fits the node's width, the node
  reads as written and every other node of every region reads as before.\<close>

theorem packed_tree_is_array:
  assumes "bt_cfg c" "bt_shape c s" "r < numRegions c" "i < 2 ^ numLevels c - 1" "j < 2 ^ numLevels c - 1"
    "v < 2 ^ node_bits c (level_of_index i)"
  shows "get_tree c (set_tree c s r i v) r' j = (if r' = r \<and> j = i then v else get_tree c s r' j)
    \<and> bt_shape c (set_tree c s r i v)"
proof -
  obtain l k where i: "i = index_of_level l + k" "k < 2 ^ l" "l < numLevels c" using node_decompose [OF assms(4)] .
  obtain l' k' where j: "j = index_of_level l' + k'" "k' < 2 ^ l'" "l' < numLevels c" using node_decompose [OF assms(5)] .
  have "j = i \<longleftrightarrow> l' = l \<and> k' = k"
    using i j bt_level [OF assms(1) i(3,2)] bt_level [OF assms(1) j(3,2)] by auto
  then show ?thesis
    using get_set_tree_level [OF assms(1-3) i(3,2) j(3,2), of v r'] assms(6) i j bt_level [OF assms(1) i(3,2)]
      set_tree_shape [OF assms(2)] by auto
qed

end
