(* ===== verification/Buddy_Tree.thy ===== *)
theory Buddy_Tree
  imports Buddy_Geometry
begin

text \<open>
  The abstract specification of a buddy allocator. A region is a tree of free, used and
  split blocks; its meaning is the set of used blocks, pairs of an offset in minimum-size
  units and a height. Taking a block adds a disjoint block, giving it back removes it, and
  a request fails only if no aligned block of its size is free.
\<close>

datatype blk = Free | Used | Node blk blk

fun lkid :: "blk \<Rightarrow> blk" where
  "lkid (Node l r) = l" | "lkid t = Free"

fun rkid :: "blk \<Rightarrow> blk" where
  "rkid (Node l r) = r" | "rkid t = Free"

fun avail :: "nat \<Rightarrow> blk \<Rightarrow> nat" where
  "avail h Free = h"
| "avail h Used = 0"
| "avail h (Node l r) = max (avail (h - 1) l) (avail (h - 1) r)"

fun tree_wf :: "nat \<Rightarrow> blk \<Rightarrow> bool" where
  "tree_wf h (Node l r) \<longleftrightarrow> 2 \<le> h \<and> tree_wf (h - 1) l \<and> tree_wf (h - 1) r \<and> \<not> (l = Free \<and> r = Free)"
| "tree_wf h t \<longleftrightarrow> 1 \<le> h"

fun used :: "nat \<Rightarrow> nat \<Rightarrow> blk \<Rightarrow> (nat \<times> nat) set" where
  "used h off Free = {}"
| "used h off Used = {(off, h)}"
| "used h off (Node l r) = used (h - 1) off l \<union> used (h - 1) (off + 2 ^ (h - 2)) r"

definition mk_node :: "blk \<Rightarrow> blk \<Rightarrow> blk" where
  "mk_node l r = (if l = Free \<and> r = Free then Free else Node l r)"

fun tree_alloc :: "nat \<Rightarrow> nat \<Rightarrow> blk \<Rightarrow> blk" where
  "tree_alloc bh 0 t = Used"
| "tree_alloc bh (Suc n) t =
     (if avail (bh + n) (lkid t) < bh then Node (lkid t) (tree_alloc bh n (rkid t))
      else Node (tree_alloc bh n (lkid t)) (rkid t))"

text \<open>The position of the block taken, counted in blocks of its own size.\<close>

fun alloc_pos :: "nat \<Rightarrow> nat \<Rightarrow> blk \<Rightarrow> nat \<Rightarrow> nat" where
  "alloc_pos bh 0 t k = k"
| "alloc_pos bh (Suc n) t k =
     (if avail (bh + n) (lkid t) < bh then alloc_pos bh n (rkid t) (2 * k + 1)
      else alloc_pos bh n (lkid t) (2 * k))"

fun tree_free :: "nat \<Rightarrow> nat \<Rightarrow> blk \<Rightarrow> blk" where
  "tree_free 0 k t = Free"
| "tree_free (Suc n) k t =
     (if k < 2 ^ n then mk_node (tree_free n k (lkid t)) (rkid t)
      else mk_node (lkid t) (tree_free n (k - 2 ^ n) (rkid t)))"

definition covers :: "nat \<times> nat \<Rightarrow> nat set" where
  "covers b = {fst b ..< fst b + 2 ^ (snd b - 1)}"

lemma avail_le: "tree_wf h t \<Longrightarrow> avail h t \<le> h"
  by (induction h t rule: tree_wf.induct) auto

lemma avail_full: "tree_wf h t \<Longrightarrow> avail h t = h \<longleftrightarrow> t = Free"
proof (cases t)
  case (Node l r)
  assume w: "tree_wf h t"
  then have "avail (h - 1) l \<le> h - 1" "avail (h - 1) r \<le> h - 1" using Node by (auto intro: avail_le)
  then show ?thesis using w Node by auto
qed auto

lemma used_nonempty: "tree_wf h t \<Longrightarrow> used h off t = {} \<longleftrightarrow> t = Free"
  by (induction h off t rule: used.induct) auto

lemma pow2_half: "2 \<le> h \<Longrightarrow> (2::nat) ^ (h - 1) = 2 ^ (h - 2) + 2 ^ (h - 2)"
  by (cases h; cases "h - 1") auto

lemma used_within:
  "tree_wf h t \<Longrightarrow> (p, b) \<in> used h off t \<Longrightarrow> 1 \<le> b \<and> b \<le> h \<and> off \<le> p \<and> p + 2 ^ (b - 1) \<le> off + 2 ^ (h - 1)"
proof (induction h off t rule: used.induct)
  case (3 h off l r)
  have p: "2 ^ (h - 1) = (2::nat) ^ (h - 2) + 2 ^ (h - 2)" by (rule pow2_half) (use "3.prems" in simp)
  have e: "h - 1 - 1 = h - 2" by simp
  have w: "tree_wf (h - 1) l" "tree_wf (h - 1) r" using "3.prems" by auto
  from "3.prems"(2) consider "(p, b) \<in> used (h - 1) off l" | "(p, b) \<in> used (h - 1) (off + 2 ^ (h - 2)) r"
    by auto
  then show ?case
  proof cases
    case 1
    from "3.IH"(1) [OF w(1) this, unfolded e] show ?thesis unfolding p by linarith
  next
    case 2
    from "3.IH"(2) [OF w(2) this, unfolded e] show ?thesis unfolding p by linarith
  qed
qed auto

lemma used_disjoint:
  "tree_wf h t \<Longrightarrow> x \<in> used h off t \<Longrightarrow> y \<in> used h off t \<Longrightarrow> x \<noteq> y \<Longrightarrow> covers x \<inter> covers y = {}"
proof (induction h off t rule: used.induct)
  case (3 h off l r)
  have w: "tree_wf (h - 1) l" "tree_wf (h - 1) r" using "3.prems" by auto
  have e: "h - Suc (Suc 0) = h - 2" by simp
  have lr: "covers a \<inter> covers b = {}"
    if "a \<in> used (h - 1) off l" "b \<in> used (h - 1) (off + 2 ^ (h - 2)) r" for a b
    using used_within [OF w(1), of "fst a" "snd a" off] used_within [OF w(2), of "fst b" "snd b" "off + 2 ^ (h - 2)"] that
    by (auto simp: covers_def e)
  have "x \<in> used (h - 1) off l \<or> x \<in> used (h - 1) (off + 2 ^ (h - 2)) r"
    "y \<in> used (h - 1) off l \<or> y \<in> used (h - 1) (off + 2 ^ (h - 2)) r"
    using "3.prems" by auto
  then show ?case using "3.IH"(1) [OF w(1)] "3.IH"(2) [OF w(2)] "3.prems"(4) lr [of x y] lr [of y x]
    by (metis Int_commute)
qed auto

text \<open>Taking a block.\<close>

lemma kids_wf: "tree_wf h t \<Longrightarrow> 2 \<le> h \<Longrightarrow> tree_wf (h - 1) (lkid t) \<and> tree_wf (h - 1) (rkid t)"
  by (cases t) auto

lemma kids_avail:
  "tree_wf h t \<Longrightarrow> 2 \<le> h \<Longrightarrow> 0 < bh \<Longrightarrow> bh < h \<Longrightarrow> bh \<le> avail h t \<Longrightarrow>
   bh \<le> avail (h - 1) (lkid t) \<or> bh \<le> avail (h - 1) (rkid t)"
  by (cases t) auto

lemma kids_used: "2 \<le> h \<Longrightarrow> bh \<le> avail h t \<Longrightarrow> 0 < bh \<Longrightarrow>
   used h off t = used (h - 1) off (lkid t) \<union> used (h - 1) (off + 2 ^ (h - 2)) (rkid t)"
  by (cases t) auto

lemma tree_alloc_not_free: "tree_alloc bh n t \<noteq> Free"
  by (cases n) auto

lemma tree_alloc_wf:
  "0 < bh \<Longrightarrow> tree_wf (bh + n) t \<Longrightarrow> bh \<le> avail (bh + n) t \<Longrightarrow> tree_wf (bh + n) (tree_alloc bh n t)"
proof (induction n arbitrary: t)
  case (Suc n)
  have k: "tree_wf (bh + n) (lkid t)" "tree_wf (bh + n) (rkid t)"
    using kids_wf [of "bh + Suc n" t] Suc.prems by auto
  have a: "bh \<le> avail (bh + n) (lkid t) \<or> bh \<le> avail (bh + n) (rkid t)"
    using kids_avail [of "bh + Suc n" t bh] Suc.prems by auto
  show ?case using Suc.IH Suc.prems(1) k a by (auto simp: tree_alloc_not_free)
qed auto

lemma kids_used_Suc: "Suc q \<le> avail (Suc (Suc m)) t \<Longrightarrow>
   used (Suc (Suc m)) off t = used (Suc m) off (lkid t) \<union> used (Suc m) (off + 2 ^ m) (rkid t)"
  by (cases t) auto

lemma pos_halves: "(k::nat) * (2 * 2 ^ m) = 2 * k * 2 ^ m" "2 * k * 2 ^ m + 2 ^ m = Suc (2 * k) * 2 ^ m"
  by (simp_all add: algebra_simps)

lemma kids_serve:
  assumes "tree_wf (Suc (q + Suc n)) t" "Suc q \<le> avail (Suc (q + Suc n)) t"
  shows "tree_wf (Suc (q + n)) (lkid t)" "tree_wf (Suc (q + n)) (rkid t)"
    "Suc q \<le> avail (Suc (q + n)) (lkid t) \<or> Suc q \<le> avail (Suc (q + n)) (rkid t)"
  using kids_wf [OF assms(1)] kids_avail [OF assms(1), of "Suc q"] assms(2) by simp_all

lemma whole_free: "tree_wf h t \<Longrightarrow> h \<le> avail h t \<Longrightarrow> t = Free"
  using avail_le [of h t] avail_full [of h t] by simp

lemma tree_alloc_used:
  "tree_wf (Suc (q + n)) t \<Longrightarrow> Suc q \<le> avail (Suc (q + n)) t \<Longrightarrow>
   used (Suc (q + n)) (k * 2 ^ (q + n)) (tree_alloc (Suc q) n t)
     = insert (alloc_pos (Suc q) n t k * 2 ^ q, Suc q) (used (Suc (q + n)) (k * 2 ^ (q + n)) t)"
proof (induction n arbitrary: t k)
  case 0
  then show ?case using whole_free [of "Suc q" t] by simp
next
  case (Suc n)
  note k = kids_serve [OF Suc.prems]
  have u: "used (Suc (Suc (q + n))) off t = used (Suc (q + n)) off (lkid t) \<union> used (Suc (q + n)) (off + 2 ^ (q + n)) (rkid t)" for off
    using kids_used_Suc [of q "q + n" t off] Suc.prems(2) by simp
  show ?case
  proof (cases "avail (Suc (q + n)) (lkid t) < Suc q")
    case True
    then have "Suc q \<le> avail (Suc (q + n)) (rkid t)" using k(3) by simp
    from Suc.IH [OF k(2) this, of "Suc (2 * k)"] show ?thesis
      using True u [of "k * (2 * 2 ^ (q + n))"] by (simp add: pos_halves del: mult_Suc)
  next
    case False
    then have "Suc q \<le> avail (Suc (q + n)) (lkid t)" by simp
    from Suc.IH [OF k(1) this, of "2 * k"] show ?thesis
      using False u [of "k * (2 * 2 ^ (q + n))"] by (simp add: pos_halves del: mult_Suc)
  qed
qed

lemma alloc_pos_range:
  "k * 2 ^ n \<le> alloc_pos bh n t k \<and> alloc_pos bh n t k < (k + 1) * 2 ^ n"
proof (induction n arbitrary: t k)
  case (Suc n)
  then show ?case using Suc [of "2 * k + 1" "rkid t"] Suc [of "2 * k" "lkid t"] by (auto simp: algebra_simps)
qed simp

lemma alloc_pos_block:
  "k * 2 ^ (q + n) \<le> alloc_pos bh n t k * 2 ^ q \<and> alloc_pos bh n t k * 2 ^ q + 2 ^ q \<le> Suc k * 2 ^ (q + n)"
proof -
  have "Suc (alloc_pos bh n t k) * 2 ^ q \<le> Suc k * 2 ^ n * 2 ^ q"
    using alloc_pos_range [of k n bh t] by (intro mult_le_mono1) simp
  moreover have "k * 2 ^ n * 2 ^ q \<le> alloc_pos bh n t k * 2 ^ q"
    using alloc_pos_range [of k n bh t] by (intro mult_le_mono1) simp
  ultimately show ?thesis by (simp add: power_add algebra_simps)
qed

lemma tree_alloc_fresh:
  "tree_wf (Suc (q + n)) t \<Longrightarrow> Suc q \<le> avail (Suc (q + n)) t \<Longrightarrow>
   x \<in> used (Suc (q + n)) (k * 2 ^ (q + n)) t \<Longrightarrow>
   covers (alloc_pos (Suc q) n t k * 2 ^ q, Suc q) \<inter> covers x = {}"
proof (induction n arbitrary: t k)
  case 0
  then show ?case using whole_free [of "Suc q" t] by simp
next
  case (Suc n)
  note kw = kids_serve [OF Suc.prems(1,2)]
  have u: "x \<in> used (Suc (q + n)) (2 * k * 2 ^ (q + n)) (lkid t) \<or>
           x \<in> used (Suc (q + n)) (Suc (2 * k) * 2 ^ (q + n)) (rkid t)"
    using kids_used_Suc [of q "q + n" t "k * (2 * 2 ^ (q + n))"] Suc.prems(2,3)
    by (simp add: pos_halves del: mult_Suc)
  have l: "fst x + 2 ^ (snd x - 1) \<le> Suc (2 * k) * 2 ^ (q + n)"
    if "x \<in> used (Suc (q + n)) (2 * k * 2 ^ (q + n)) (lkid t)"
    using used_within [OF kw(1), of "fst x" "snd x"] that by force
  have r: "Suc (2 * k) * 2 ^ (q + n) \<le> fst x"
    if "x \<in> used (Suc (q + n)) (Suc (2 * k) * 2 ^ (q + n)) (rkid t)"
    using used_within [OF kw(2), of "fst x" "snd x"] that by force
  show ?case
  proof (cases "avail (Suc (q + n)) (lkid t) < Suc q")
    case True
    then have "Suc q \<le> avail (Suc (q + n)) (rkid t)" using kw(3) by simp
    note ih = Suc.IH [OF kw(2) this, of "Suc (2 * k)"]
    show ?thesis using u
    proof
      assume "x \<in> used (Suc (q + n)) (2 * k * 2 ^ (q + n)) (lkid t)"
      from l [OF this] alloc_pos_block [of "Suc (2 * k)" q n "Suc q" "rkid t"] show ?thesis
        using True by (auto simp: covers_def simp del: mult_Suc)
    qed (use ih True in simp)
  next
    case False
    then have "Suc q \<le> avail (Suc (q + n)) (lkid t)" by simp
    note ih = Suc.IH [OF kw(1) this, of "2 * k"]
    show ?thesis using u
    proof
      assume "x \<in> used (Suc (q + n)) (Suc (2 * k) * 2 ^ (q + n)) (rkid t)"
      from r [OF this] alloc_pos_block [of "2 * k" q n "Suc q" "lkid t"] show ?thesis
        using False by (auto simp: covers_def simp del: mult_Suc)
    qed (use ih False in simp)
  qed
qed

text \<open>A request that the tree cannot serve finds no free aligned block.\<close>

lemma avail_complete:
  "tree_wf h t \<Longrightarrow> 0 < bh \<Longrightarrow> bh \<le> h \<Longrightarrow> avail h t < bh \<Longrightarrow>
   k * 2 ^ (h - bh) \<le> j \<Longrightarrow> j < (k + 1) * 2 ^ (h - bh) \<Longrightarrow>
   \<exists>x \<in> used h (k * 2 ^ (h - 1)) t. covers (j * 2 ^ (bh - 1), bh) \<inter> covers x \<noteq> {}"
proof (induction h t arbitrary: k rule: tree_wf.induct [case_names node free whole])
  case (node h l r)
  show ?case
  proof (cases "bh = h")
    case True
    then have j: "j = k" using node.prems by simp
    have "used h (k * 2 ^ (h - 1)) (Node l r) \<noteq> {}" using node.prems(1) used_nonempty [of h "Node l r"] by simp
    then obtain x where x: "x \<in> used h (k * 2 ^ (h - 1)) (Node l r)" by blast
    have "k * 2 ^ (h - 1) \<le> fst x" "fst x + 2 ^ (snd x - 1) \<le> k * 2 ^ (h - 1) + 2 ^ (h - 1)"
      using used_within [OF node.prems(1), of "fst x" "snd x"] x by simp_all
    moreover have "(0::nat) < 2 ^ (snd x - 1)" by simp
    ultimately have "fst x < k * 2 ^ (h - 1) + 2 ^ (h - 1)" by linarith
    with \<open>k * 2 ^ (h - 1) \<le> fst x\<close> have "fst x \<in> covers (j * 2 ^ (bh - 1), bh) \<inter> covers x"
      using True j by (simp add: covers_def)
    with x show ?thesis by blast
  next
    case False
    then have bh: "bh \<le> h - 1" using node.prems by simp
    have e: "h - bh = Suc (h - 1 - bh)" using False node.prems by simp
    have jr: "2 * k * 2 ^ (h - 1 - bh) \<le> j" "j < Suc (Suc (2 * k)) * 2 ^ (h - 1 - bh)"
      using node.prems(5,6) unfolding e by (simp_all add: algebra_simps)
    have av: "avail (h - 1) l < bh" "avail (h - 1) r < bh" using node.prems(4) by simp_all
    have w: "tree_wf (h - 1) l" "tree_wf (h - 1) r" using node.prems(1) by simp_all
    obtain m where m: "h = Suc (Suc m)" using node.prems(1) by (cases h; cases "h - 1") auto
    have p: "k * 2 ^ (h - 1) = 2 * k * 2 ^ (h - 1 - 1)"
      "2 * k * 2 ^ (h - 1 - 1) + 2 ^ (h - 2) = Suc (2 * k) * 2 ^ (h - 1 - 1)"
      by (simp_all add: m)
    have u: "used h (k * 2 ^ (h - 1)) (Node l r)
      = used (h - 1) (2 * k * 2 ^ (h - 1 - 1)) l \<union> used (h - 1) (Suc (2 * k) * 2 ^ (h - 1 - 1)) r"
      unfolding used.simps p ..
    show ?thesis
    proof (cases "j < Suc (2 * k) * 2 ^ (h - 1 - bh)")
      case True
      have "\<exists>x \<in> used (h - 1) (2 * k * 2 ^ (h - 1 - 1)) l. covers (j * 2 ^ (bh - 1), bh) \<inter> covers x \<noteq> {}"
        by (rule node.IH(1) [OF w(1) node.prems(2) bh av(1) jr(1)]) (use True in simp)
      then show ?thesis unfolding u by blast
    next
      case False
      have "\<exists>x \<in> used (h - 1) (Suc (2 * k) * 2 ^ (h - 1 - 1)) r. covers (j * 2 ^ (bh - 1), bh) \<inter> covers x \<noteq> {}"
        by (rule node.IH(2) [OF w(2) node.prems(2) bh av(2)]) (use False jr(2) in simp_all)
      then show ?thesis unfolding u by blast
    qed
  qed
next
  case (whole h)
  have "j * 2 ^ (bh - 1) + 2 ^ (bh - 1) \<le> (k + 1) * 2 ^ (h - bh) * 2 ^ (bh - 1)"
    using mult_le_mono1 [of "Suc j" "(k + 1) * 2 ^ (h - bh)" "2 ^ (bh - 1)"] whole by simp
  moreover have "k * 2 ^ (h - bh) * 2 ^ (bh - 1) \<le> j * 2 ^ (bh - 1)"
    by (rule mult_le_mono1) (use whole in simp)
  moreover have "(2::nat) ^ (h - 1) = 2 ^ (h - bh) * 2 ^ (bh - 1)"
    using whole by (simp flip: power_add)
  then have "k * 2 ^ (h - 1) = k * 2 ^ (h - bh) * 2 ^ (bh - 1)"
    "(k + 1) * 2 ^ (h - bh) * 2 ^ (bh - 1) = k * 2 ^ (h - 1) + 2 ^ (h - 1)" by (simp_all add: algebra_simps)
  moreover have "(0::nat) < 2 ^ (bh - 1)" by simp
  ultimately have "k * 2 ^ (h - 1) \<le> j * 2 ^ (bh - 1)" "j * 2 ^ (bh - 1) < k * 2 ^ (h - 1) + 2 ^ (h - 1)"
    by linarith+
  then have "j * 2 ^ (bh - 1) \<in> covers (j * 2 ^ (bh - 1), bh) \<inter> covers (k * 2 ^ (h - 1), h)"
    by (simp add: covers_def)
  then show ?case by auto
qed auto

text \<open>Giving a block back.\<close>

lemma tree_free_wf: "tree_wf h t \<Longrightarrow> n < h \<Longrightarrow> tree_wf h (tree_free n k t)"
proof (induction n arbitrary: h k t)
  case (Suc n)
  have kw: "tree_wf (h - 1) (lkid t)" "tree_wf (h - 1) (rkid t)"
    using kids_wf [of h t] Suc.prems by auto
  show ?case using Suc.IH [of "h - 1"] kw Suc.prems by (auto simp: mk_node_def)
qed auto

lemma used_mk_node: "used h off (mk_node l r) = used (h - 1) off l \<union> used (h - 1) (off + 2 ^ (h - 2)) r"
  by (simp add: mk_node_def)

lemma tree_free_used:
  "tree_wf (Suc (q + n)) t \<Longrightarrow> k < 2 ^ n \<Longrightarrow> (off + k * 2 ^ q, Suc q) \<in> used (Suc (q + n)) off t \<Longrightarrow>
   used (Suc (q + n)) off (tree_free n k t) = used (Suc (q + n)) off t - {(off + k * 2 ^ q, Suc q)}"
proof (induction n arbitrary: k t off)
  case 0
  have "t = Used"
  proof (cases t)
    case (Node l r)
    then show ?thesis using used_within [of q l off "Suc q" off] used_within [of q r off "Suc q" "off + 2 ^ (q - 1)"] 0
      by auto
  qed (use 0 in auto)
  then show ?case using 0 by simp
next
  case (Suc n)
  have "t \<noteq> Free" "t \<noteq> Used" using Suc.prems(3) by auto
  then obtain l r where t: "t = Node l r" by (cases t) auto
  have kw: "tree_wf (Suc (q + n)) l" "tree_wf (Suc (q + n)) r" using Suc.prems(1) t by auto
  let ?p = "off + k * 2 ^ q"
  have mem: "(?p, Suc q) \<in> used (Suc (q + n)) off l \<or> (?p, Suc q) \<in> used (Suc (q + n)) (off + 2 ^ (q + n)) r"
    using Suc.prems(3) t by simp
  have in_l: "?p + 2 ^ q \<le> off + 2 ^ (q + n)" if "(?p, Suc q) \<in> used (Suc (q + n)) off l"
    using used_within [OF kw(1) that] by simp
  have in_r: "off + 2 ^ (q + n) \<le> ?p" if "(?p, Suc q) \<in> used (Suc (q + n)) (off + 2 ^ (q + n)) r"
    using used_within [OF kw(2) that] by simp
  show ?case
  proof (cases "k < 2 ^ n")
    case True
    then have "?p < off + 2 ^ (q + n)" by (simp add: power_add)
    then have nr: "(?p, Suc q) \<notin> used (Suc (q + n)) (off + 2 ^ (q + n)) r" using in_r by linarith
    then have "(?p, Suc q) \<in> used (Suc (q + n)) off l" using mem by simp
    from Suc.IH [OF kw(1) True this] nr show ?thesis using True t by (auto simp: used_mk_node)
  next
    case False
    then obtain m where m: "k = 2 ^ n + m" using le_Suc_ex by (metis not_less)
    then have mn: "m < 2 ^ n" using Suc.prems(2) by simp
    have o: "?p = off + 2 ^ (q + n) + m * 2 ^ q" by (simp add: m power_add algebra_simps)
    have "(2::nat) ^ q > 0" by simp
    then have nl: "(?p, Suc q) \<notin> used (Suc (q + n)) off l" using in_l o by linarith
    then have "(off + 2 ^ (q + n) + m * 2 ^ q, Suc q) \<in> used (Suc (q + n)) (off + 2 ^ (q + n)) r"
      using mem unfolding o by simp
    from Suc.IH [OF kw(2) mn this] nl have
      "used (Suc (q + n)) (off + 2 ^ (q + n)) (tree_free n m r) = used (Suc (q + n)) (off + 2 ^ (q + n)) r - {(?p, Suc q)}"
      unfolding o by simp
    with nl have "used (Suc (q + n)) off l \<union> used (Suc (q + n)) (off + 2 ^ (q + n)) (tree_free n m r)
      = used (Suc (q + n)) off l \<union> used (Suc (q + n)) (off + 2 ^ (q + n)) r - {(?p, Suc q)}" by blast
    then show ?thesis using False t by (simp add: used_mk_node m)
  qed
qed

end
