(* ===== verification/Bt_Climb.thy ===== *)
theory Bt_Climb
  imports Bt_Store Buddy_Tree
begin

text \<open>
  The array of node values represents an abstract block tree: each value is the height of
  the largest free block below its node. Changing one node and recomputing its ancestors,
  as allocation and release do, is one replacement in the abstract tree.
\<close>

fun tree_rep :: "(nat \<Rightarrow> nat) \<Rightarrow> nat \<Rightarrow> nat \<Rightarrow> blk \<Rightarrow> bool" where
  "tree_rep f 0 i t \<longleftrightarrow> True"
| "tree_rep f (Suc h) i t \<longleftrightarrow> f i = avail (Suc h) t
     \<and> tree_rep f h (2 * i + 1) (lkid t) \<and> tree_rep f h (2 * i + 2) (rkid t)"

fun nodes :: "nat \<Rightarrow> nat \<Rightarrow> nat set" where
  "nodes 0 i = {}"
| "nodes (Suc h) i = insert i (nodes h (2 * i + 1) \<union> nodes h (2 * i + 2))"

definition parent_value :: "bool \<Rightarrow> (nat \<Rightarrow> nat) \<Rightarrow> nat \<Rightarrow> nat \<Rightarrow> nat" where
  "parent_value merge f i h =
     (if merge \<and> f (2 * i + 1) = f (2 * i + 2) \<and> f (2 * i + 1) = h - 1 then h
      else max (f (2 * i + 1)) (f (2 * i + 2)))"

fun climb :: "bool \<Rightarrow> nat \<Rightarrow> nat \<Rightarrow> nat \<Rightarrow> (nat \<Rightarrow> nat) \<Rightarrow> nat \<Rightarrow> nat" where
  "climb merge 0 h i f = f"
| "climb merge (Suc n) h i f = climb merge n (h + 1) ((i - 1) div 2) (f(i := parent_value merge f i h))"

fun tree_put :: "blk \<Rightarrow> nat \<Rightarrow> nat \<Rightarrow> blk \<Rightarrow> blk" where
  "tree_put x 0 k t = x"
| "tree_put x (Suc n) k t =
     (if k < 2 ^ n then mk_node (tree_put x n k (lkid t)) (rkid t)
      else mk_node (lkid t) (tree_put x n (k - 2 ^ n) (rkid t)))"

fun tree_at :: "nat \<Rightarrow> nat \<Rightarrow> blk \<Rightarrow> blk" where
  "tree_at 0 k t = t"
| "tree_at (Suc n) k t = (if k < 2 ^ n then tree_at n k (lkid t) else tree_at n (k - 2 ^ n) (rkid t))"

definition dsc :: "nat \<Rightarrow> nat \<Rightarrow> nat \<Rightarrow> nat" where
  "dsc j n k = Suc j * 2 ^ n + k - 1"

subsection \<open>Nodes of a subtree\<close>

lemma nodes_under: "j \<in> nodes h i \<Longrightarrow> \<exists>d < h. Suc j div 2 ^ d = Suc i"
proof (induction h i rule: nodes.induct)
  case (2 h i)
  consider "j = i" | "j \<in> nodes h (2 * i + 1)" | "j \<in> nodes h (2 * i + 2)" using "2.prems" by auto
  then show ?case
  proof cases
    case 1
    then show ?thesis by (intro exI [of _ 0]) simp
  next
    case 2
    from "2.IH"(1) [OF this] obtain d where d: "d < h" "Suc j div 2 ^ d = Suc (2 * i + 1)" by blast
    then have "Suc j div 2 ^ Suc d = Suc (2 * i + 1) div 2" by (metis div_mult2_eq mult.commute power_Suc)
    then show ?thesis using d(1) by (intro exI [of _ "Suc d"]) simp
  next
    case 3
    from "2.IH"(2) [OF this] obtain d where d: "d < h" "Suc j div 2 ^ d = Suc (2 * i + 2)" by blast
    then have "Suc j div 2 ^ Suc d = Suc (2 * i + 2) div 2" by (metis div_mult2_eq mult.commute power_Suc)
    then show ?thesis using d(1) by (intro exI [of _ "Suc d"]) simp
  qed
qed simp

lemma under_unique:
  assumes "Suc j div 2 ^ d = Suc a" "Suc j div 2 ^ e = Suc b" "d \<le> e"
  shows "Suc b = Suc a div 2 ^ (e - d)"
proof -
  have "Suc j div 2 ^ e = Suc j div 2 ^ d div 2 ^ (e - d)"
    using assms(3) by (simp flip: div_mult2_eq power_add)
  then show ?thesis using assms by simp
qed

lemma half_lt: "Suc m \<le> Suc a div 2 ^ d \<Longrightarrow> 0 < d \<Longrightarrow> 2 * Suc m \<le> Suc a"
proof -
  assume a: "Suc m \<le> Suc a div 2 ^ d" "0 < d"
  have "Suc a div 2 ^ d \<le> Suc a div 2 ^ 1"
    using a(2) by (intro div_le_mono2) (auto simp: self_le_power)
  then show ?thesis using a(1) by simp
qed

lemma nodes_root_not: "i \<notin> nodes h (2 * i + 1)" "i \<notin> nodes h (2 * i + 2)"
proof -
  have *: "i \<notin> nodes h m" if "i < m" for m
  proof
    assume "i \<in> nodes h m"
    then obtain d where "Suc i div 2 ^ d = Suc m" using nodes_under by blast
    moreover have "Suc i div 2 ^ d \<le> Suc i" by simp
    ultimately show False using that by simp
  qed
  show "i \<notin> nodes h (2 * i + 1)" "i \<notin> nodes h (2 * i + 2)" by (simp_all add: *)
qed

lemma nodes_siblings: "nodes h (2 * i + 1) \<inter> nodes h (2 * i + 2) = {}"
proof -
  have "False" if j: "j \<in> nodes h (2 * i + 1)" "j \<in> nodes h (2 * i + 2)" for j
  proof -
    obtain d where d: "Suc j div 2 ^ d = Suc (2 * i + 1)" using nodes_under [OF j(1)] by blast
    obtain e where e: "Suc j div 2 ^ e = Suc (2 * i + 2)" using nodes_under [OF j(2)] by blast
    show False
    proof (cases "d \<le> e")
      case True
      from under_unique [OF d e True] half_lt [of "2 * i + 2" "2 * i + 1" "e - d"] show False
        by (cases "e - d") auto
    next
      case False
      from under_unique [OF e d] half_lt [of "2 * i + 1" "2 * i + 2" "d - e"] False show False
        by (cases "d - e") auto
    qed
  qed
  then show ?thesis by blast
qed

lemma nodes_bound: "j \<in> nodes h 0 \<Longrightarrow> j < 2 ^ h - 1"
proof -
  assume "j \<in> nodes h 0"
  then obtain d where d: "d < h" "Suc j div 2 ^ d = 1" using nodes_under [of j h 0] by auto
  have "Suc j < (Suc j div 2 ^ d + 1) * 2 ^ d" by (simp add: dividend_less_div_times)
  also have "\<dots> = 2 ^ Suc d" using d by simp
  also have "(2::nat) ^ Suc d \<le> 2 ^ h" using d by (intro power_increasing) simp_all
  finally show ?thesis by simp
qed

lemma tree_rep_cong: "(\<And>j. j \<in> nodes h i \<Longrightarrow> f j = g j) \<Longrightarrow> tree_rep f h i t = tree_rep g h i t"
  by (induction h arbitrary: i t) auto

lemma tree_rep_root: "tree_rep f h i t \<Longrightarrow> 0 < h \<Longrightarrow> f i = avail h t"
  by (cases h) auto

subsection \<open>Paths\<close>

lemma dsc_0: "dsc j 0 0 = j"
  by (simp add: dsc_def)

lemma dsc_left: "dsc j (Suc n) k = dsc (2 * j + 1) n k"
  by (simp add: dsc_def algebra_simps)

lemma dsc_right: "2 ^ n \<le> k \<Longrightarrow> dsc j (Suc n) k = dsc (2 * j + 2) n (k - 2 ^ n)"
  by (simp add: dsc_def algebra_simps)

lemma dsc_Suc: "Suc (dsc j n k) = Suc j * 2 ^ n + k"
proof -
  have "1 \<le> Suc j * 2 ^ n" using one_le_power [of "2::nat" n] by (simp add: trans_le_add1)
  then show ?thesis unfolding dsc_def by linarith
qed

lemma parent_div: "(i - 1) div 2 = Suc i div 2 - 1" if "0 < i"
  using that by (cases i) auto

lemma parent_iter: "Suc (((\<lambda>i. (i - 1) div 2) ^^ n) i) = Suc i div 2 ^ n" if "2 ^ n \<le> Suc i"
  using that
proof (induction n)
  case (Suc n)
  let ?p = "((\<lambda>i. (i - 1) div 2) ^^ n) i"
  have p: "Suc ?p = Suc i div 2 ^ n" using Suc by simp
  have "2 \<le> Suc ?p" unfolding p using Suc.prems
    by (simp add: less_eq_div_iff_mult_less_eq mult.commute)
  then have "Suc ((?p - 1) div 2) = Suc ?p div 2" using parent_div [of ?p] by simp
  also have "\<dots> = Suc i div 2 ^ Suc n" unfolding p by (simp add: mult.commute flip: div_mult2_eq)
  finally show ?case by simp
qed simp

lemma dsc_ancestor: "k < 2 ^ n \<Longrightarrow> ((\<lambda>i. (i - 1) div 2) ^^ n) (dsc j n k) = j"
proof -
  assume k: "k < 2 ^ n"
  have "2 ^ n \<le> Suc (dsc j n k)" by (simp add: dsc_Suc)
  from parent_iter [OF this] have "Suc (((\<lambda>i. (i - 1) div 2) ^^ n) (dsc j n k)) = (Suc j * 2 ^ n + k) div 2 ^ n"
    by (simp only: dsc_Suc)
  also have "\<dots> = Suc j" using k div_mult_self3 [of "2 ^ n" "Suc j" k] by (simp add: add.commute del: mult_Suc)
  finally show ?thesis by simp
qed

lemma climb_last:
  "climb m (Suc n) h i f = (let g = climb m n h i f; p = ((\<lambda>i. (i - 1) div 2) ^^ n) i
     in g(p := parent_value m g p (h + n)))"
proof (induction n arbitrary: h i f)
  case (Suc n)
  have "climb m (Suc (Suc n)) h i f = climb m (Suc n) (h + 1) ((i - 1) div 2) (f(i := parent_value m f i h))"
    by simp
  also have "\<dots> = (let g = climb m (Suc n) h i f; p = ((\<lambda>i. (i - 1) div 2) ^^ Suc n) i
     in g(p := parent_value m g p (h + Suc n)))"
    unfolding Suc.IH [of "h + 1"] funpow_Suc_right o_apply by (simp add: Let_def)
  finally show ?case .
qed (simp add: Let_def)

lemma parent_value_mk_node:
  assumes "tree_wf (Suc h) l" "tree_wf (Suc h) r" "f (2 * i + 1) = avail (Suc h) l" "f (2 * i + 2) = avail (Suc h) r"
    "merge \<or> \<not> (l = Free \<and> r = Free)"
  shows "parent_value merge f i (Suc (Suc h)) = avail (Suc (Suc h)) (mk_node l r)"
  using avail_full [OF assms(1)] avail_full [OF assms(2)] assms(3-5)
  by (auto simp: parent_value_def mk_node_def)

lemma mk_node_kids [simp]: "lkid (mk_node l r) = l" "rkid (mk_node l r) = r"
  by (auto simp: mk_node_def)

lemma tree_put_wf: "tree_wf (Suc (q + n)) t \<Longrightarrow> tree_wf (Suc q) x \<Longrightarrow> tree_wf (Suc (q + n)) (tree_put x n k t)"
proof (induction n arbitrary: k t)
  case (Suc n)
  have kw: "tree_wf (Suc (q + n)) (lkid t)" "tree_wf (Suc (q + n)) (rkid t)"
    using kids_wf [of "Suc (q + Suc n)" t] Suc.prems by auto
  show ?case using Suc.IH kw Suc.prems(2) by (auto simp: mk_node_def)
qed simp

lemma tree_put_not_free: "x \<noteq> Free \<Longrightarrow> tree_put x n k t \<noteq> Free"
  by (induction n arbitrary: k t) (auto simp: mk_node_def)

lemma parent_step:
  assumes "tree_rep g (Suc m) (2 * j + 1) l" "tree_rep g (Suc m) (2 * j + 2) r" "tree_wf (Suc m) l" "tree_wf (Suc m) r"
    "merge \<or> \<not> (l = Free \<and> r = Free)"
  shows "tree_rep (g(j := parent_value merge g j (Suc (Suc m)))) (Suc (Suc m)) j (mk_node l r)"
proof -
  let ?g = "g(j := parent_value merge g j (Suc (Suc m)))"
  have c: "tree_rep ?g h i t = tree_rep g h i t" if "j \<notin> nodes h i" for h i t
    by (rule tree_rep_cong) (use that in auto)
  have "parent_value merge g j (Suc (Suc m)) = avail (Suc (Suc m)) (mk_node l r)"
    by (rule parent_value_mk_node) (use assms in auto)
  then have "?g j = avail (Suc (Suc m)) (mk_node l r)" by simp
  moreover have "tree_rep ?g (Suc m) (2 * j + 1) l" "tree_rep ?g (Suc m) (2 * j + 2) r"
    using assms(1,2) c nodes_root_not by blast+
  ultimately show ?thesis unfolding tree_rep.simps(2) [of _ "Suc m"] mk_node_kids by blast
qed

lemma climb_put:
  assumes "tree_wf (Suc q) x" "x = Free \<or> x = Used" "merge \<or> x \<noteq> Free"
  shows "tree_rep f (Suc (q + n)) j t \<Longrightarrow> tree_wf (Suc (q + n)) t \<Longrightarrow> k < 2 ^ n \<Longrightarrow>
    tree_at n k t = Free \<or> tree_at n k t = Used \<Longrightarrow>
    g = climb merge n (Suc (Suc q)) ((dsc j n k - 1) div 2) (f(dsc j n k := avail (Suc q) x)) \<Longrightarrow>
    tree_rep g (Suc (q + n)) j (tree_put x n k t) \<and> (\<forall>p. p \<notin> nodes (Suc (q + n)) j \<longrightarrow> g p = f p)"
proof (induction n arbitrary: j k t g)
  case 0
  have kids: "lkid x = Free" "rkid x = Free" "lkid t = Free" "rkid t = Free" using assms(2) 0 by auto
  have k0: "k = 0" using "0.prems"(3) by simp
  have g: "g = f(j := avail (Suc q) x)" using "0.prems"(5) unfolding k0 dsc_0 climb.simps .
  have c: "tree_rep (f(j := v)) q m Free = tree_rep f q m Free" if "j \<notin> nodes q m" for v m
    by (rule tree_rep_cong) (use that in auto)
  have "tree_rep f q (2 * j + 1) Free" "tree_rep f q (2 * j + 2) Free" using "0.prems"(1) kids by simp_all
  then have "tree_rep g (Suc (q + 0)) j x"
    unfolding g using c [OF nodes_root_not(1)] c [OF nodes_root_not(2)] kids by simp
  moreover have "\<forall>p. p \<notin> nodes (Suc (q + 0)) j \<longrightarrow> g p = f p" by (simp add: g)
  ultimately show ?case unfolding tree_put.simps by (rule conjI)
next
  case (Suc n)
  let ?i = "dsc j (Suc n) k" and ?h = "Suc (q + n)"
  let ?par = "\<lambda>i. (i - 1) div 2 :: nat"
  let ?g0 = "climb merge n (Suc (Suc q)) (?par ?i) (f(?i := avail (Suc q) x))"
  have kw: "tree_wf ?h (lkid t)" "tree_wf ?h (rkid t)"
    using kids_wf [of "Suc (q + Suc n)" t] Suc.prems by auto
  have rp: "tree_rep f ?h (2 * j + 1) (lkid t)" "tree_rep f ?h (2 * j + 2) (rkid t)" using Suc.prems(1) by simp_all
  have anc: "(?par ^^ n) (?par ?i) = j" using dsc_ancestor [OF Suc.prems(3), of j] unfolding funpow_Suc_right o_apply .
  have g: "g = ?g0(j := parent_value merge ?g0 j (Suc (Suc (q + n))))"
    using Suc.prems(5) unfolding climb_last Let_def anc by (simp only: add_Suc)
  have key: "tree_rep g (Suc ?h) j (mk_node l' r')"
    if "tree_rep ?g0 ?h (2 * j + 1) l'" "tree_rep ?g0 ?h (2 * j + 2) r'" "tree_wf ?h l'" "tree_wf ?h r'"
      "merge \<or> \<not> (l' = Free \<and> r' = Free)" for l' r'
    unfolding g by (rule parent_step [OF that])
  show ?case
  proof (cases "k < 2 ^ n")
    case True
    have ta: "tree_at n k (lkid t) = Free \<or> tree_at n k (lkid t) = Used" using Suc.prems(4) True by simp
    have "tree_rep ?g0 ?h (2 * j + 1) (tree_put x n k (lkid t)) \<and> (\<forall>p. p \<notin> nodes ?h (2 * j + 1) \<longrightarrow> ?g0 p = f p)"
      by (rule Suc.IH [OF rp(1) kw(1) True ta]) (simp only: dsc_left)
    then have ih: "tree_rep ?g0 ?h (2 * j + 1) (tree_put x n k (lkid t))" "\<forall>p. p \<notin> nodes ?h (2 * j + 1) \<longrightarrow> ?g0 p = f p"
      by blast+
    have "tree_rep ?g0 ?h (2 * j + 2) (rkid t) = tree_rep f ?h (2 * j + 2) (rkid t)"
      by (rule tree_rep_cong) (use ih(2) nodes_siblings [of ?h j] in blast)
    then have r: "tree_rep ?g0 ?h (2 * j + 2) (rkid t)" using rp by simp
    have "tree_rep g (Suc ?h) j (mk_node (tree_put x n k (lkid t)) (rkid t))"
      by (rule key) (use ih r kw tree_put_wf [OF kw(1) assms(1)] assms(3) tree_put_not_free in auto)
    moreover have "g p = f p" if "p \<notin> nodes (Suc ?h) j" for p using that ih(2) g by auto
    ultimately show ?thesis using True by simp
  next
    case False
    have "tree_at n (k - 2 ^ n) (rkid t) = Free \<or> tree_at n (k - 2 ^ n) (rkid t) = Used" using Suc.prems(4) False by simp
    moreover have "k - 2 ^ n < 2 ^ n" using Suc.prems(3) False by simp
    moreover have "2 ^ n \<le> k" using False by simp
    ultimately
    have "tree_rep ?g0 ?h (2 * j + 2) (tree_put x n (k - 2 ^ n) (rkid t)) \<and> (\<forall>p. p \<notin> nodes ?h (2 * j + 2) \<longrightarrow> ?g0 p = f p)"
      by (intro Suc.IH [OF rp(2) kw(2)]) (simp_all only: dsc_right)
    then have ih: "tree_rep ?g0 ?h (2 * j + 2) (tree_put x n (k - 2 ^ n) (rkid t))" "\<forall>p. p \<notin> nodes ?h (2 * j + 2) \<longrightarrow> ?g0 p = f p"
      by blast+
    have "tree_rep ?g0 ?h (2 * j + 1) (lkid t) = tree_rep f ?h (2 * j + 1) (lkid t)"
      by (rule tree_rep_cong) (use ih(2) nodes_siblings [of ?h j] in blast)
    then have r: "tree_rep ?g0 ?h (2 * j + 1) (lkid t)" using rp by simp
    have "tree_rep g (Suc ?h) j (mk_node (lkid t) (tree_put x n (k - 2 ^ n) (rkid t)))"
      by (rule key) (use ih r kw tree_put_wf [OF kw(2) assms(1)] assms(3) tree_put_not_free in auto)
    moreover have "g p = f p" if "p \<notin> nodes (Suc ?h) j" for p using that ih(2) g by auto
    ultimately show ?thesis using False by simp
  qed
qed

subsection \<open>Allocation and release as replacements\<close>

lemma tree_free_put: "tree_free n k t = tree_put Free n k t"
  by (induction n arbitrary: k t) auto

lemma alloc_pos_shift: "alloc_pos bh n t k = k * 2 ^ n + alloc_pos bh n t 0"
proof (induction n arbitrary: t k)
  case (Suc n)
  show ?case using Suc [of "rkid t" "2 * k + 1"] Suc [of "rkid t" 1] Suc [of "lkid t" "2 * k"]
    by (simp add: algebra_simps)
qed simp

lemma alloc_pos_lt: "alloc_pos bh n t 0 < 2 ^ n"
  using alloc_pos_range [of 0 n bh t] by simp

lemma tree_alloc_put:
  "tree_wf (Suc (q + n)) t \<Longrightarrow> Suc q \<le> avail (Suc (q + n)) t \<Longrightarrow>
   tree_alloc (Suc q) n t = tree_put Used n (alloc_pos (Suc q) n t 0) t \<and> tree_at n (alloc_pos (Suc q) n t 0) t = Free"
proof (induction n arbitrary: t)
  case 0
  then show ?case using whole_free [of "Suc q" t] by simp
next
  case (Suc n)
  note k = kids_serve [OF Suc.prems]
  show ?case
  proof (cases "avail (Suc (q + n)) (lkid t) < Suc q")
    case True
    then have "Suc q \<le> avail (Suc (q + n)) (rkid t)" using k(3) by simp
    from Suc.IH [OF k(2) this] show ?thesis
      using True alloc_pos_shift [of "Suc q" n "rkid t" 1]
      by (simp add: mk_node_def tree_put_not_free)
  next
    case False
    then have "Suc q \<le> avail (Suc (q + n)) (lkid t)" by simp
    from Suc.IH [OF k(1) this] show ?thesis
      using False alloc_pos_lt [of "Suc q" n "lkid t"]
      by (simp add: mk_node_def tree_put_not_free)
  qed
qed

end
