(* ===== verification/Bt_Refine.thy ===== *)
theory Bt_Refine
  imports Bt_Climb
begin

text \<open>
  The bitmap tree buddy allocator refines the specification of \<open>Buddy_Tree\<close>: its state
  stands for a set of allocated blocks (address and size), allocation adds a block disjoint
  from all others or fails only if no aligned block of the size is free, and release
  removes the block.
\<close>

definition tv :: "buddy_config \<Rightarrow> ('a) bt_buddy_scheme \<Rightarrow> nat \<Rightarrow> nat \<Rightarrow> nat" where
  "tv c s r j = (if j < 2 ^ numLevels c - 1 then get_tree c s r j else 0)"

definition at_level :: "nat \<Rightarrow> nat \<Rightarrow> bool" where
  "at_level l i \<longleftrightarrow> 2 ^ l \<le> Suc i \<and> Suc i < 2 ^ Suc l"

lemma at_level_index: "at_level l i \<Longrightarrow> \<exists>k < 2 ^ l. i = index_of_level l + k"
  by (rule exI [of _ "Suc i - 2 ^ l"]) (auto simp: at_level_def index_of_level_def)

lemma at_level_valid: "at_level l i \<Longrightarrow> l < n \<Longrightarrow> i < 2 ^ n - 1"
proof -
  assume a: "at_level l i" "l < n"
  have "(2::nat) ^ Suc l \<le> 2 ^ n" using a(2) by (intro power_increasing) simp_all
  then have "Suc i < 2 ^ n" using a(1) unfolding at_level_def by linarith
  then show ?thesis by linarith
qed

lemma at_level_kids: "at_level l i \<Longrightarrow> at_level (Suc l) (2 * i + 1)" "at_level l i \<Longrightarrow> at_level (Suc l) (2 * i + 2)"
  by (auto simp: at_level_def)

lemma at_level_parent: "at_level (Suc l) i \<Longrightarrow> at_level l ((i - 1) div 2)"
proof -
  assume a: "at_level (Suc l) i"
  have "(1::nat) \<le> 2 ^ l" by simp
  with a have "0 < i" unfolding at_level_def power_Suc by linarith
  then have "Suc ((i - 1) div 2) = Suc i div 2" by (cases i) auto
  then show ?thesis using a
    by (simp add: at_level_def div_less_iff_less_mult less_eq_div_iff_mult_less_eq algebra_simps)
qed

lemma node_bits_mono: "l \<le> m \<Longrightarrow> m < numLevels c \<Longrightarrow> node_bits c m \<le> node_bits c l"
  by (auto simp: node_bits_def)

lemma tv_bound:
  assumes "bt_cfg c" "bt_shape c s" "at_level l i" "l < numLevels c"
  shows "tv c s r i < 2 ^ node_bits c l"
  using at_level_index [OF assms(3)] get_tree_bound [OF assms(1,2,4)] at_level_valid [OF assms(3,4)]
  by (auto simp: tv_def)

lemma tv_set:
  assumes "bt_cfg c" "bt_shape c s" "r < numRegions c" "at_level l i" "l < numLevels c" "v < 2 ^ node_bits c l"
  shows "tv c (set_tree c s r i v) r = (tv c s r)(i := v)"
    "r' \<noteq> r \<Longrightarrow> tv c (set_tree c s r i v) r' = tv c s r'"
proof -
  obtain k where k: "k < 2 ^ l" "i = index_of_level l + k" using at_level_index [OF assms(4)] by blast
  have "get_tree c (set_tree c s r i v) r' j = (if r' = r \<and> j = i then v else get_tree c s r' j)"
    if jn: "j < 2 ^ numLevels c - 1" for r' j
  proof -
    obtain l' k' where j: "j = index_of_level l' + k'" "k' < 2 ^ l'" "l' < numLevels c" using node_decompose [OF jn] .
    have "j = i \<longleftrightarrow> l' = l \<and> k' = k"
      using k j bt_level [OF assms(1,5) k(1)] bt_level [OF assms(1) j(3,2)] by auto
    then show ?thesis
      using get_set_tree_level [OF assms(1-3,5) k(1) j(3,2) assms(6), of r'] k j by auto
  qed
  then show "tv c (set_tree c s r i v) r = (tv c s r)(i := v)"
    "r' \<noteq> r \<Longrightarrow> tv c (set_tree c s r i v) r' = tv c s r'"
    using at_level_valid [OF assms(4,5)] by (auto simp: tv_def fun_eq_iff)
qed

lemma get_tree_tv: "at_level l i \<Longrightarrow> l < numLevels c \<Longrightarrow> get_tree c s r i = tv c s r i"
  using at_level_valid by (simp add: tv_def)

lemma tree_indep [simp]:
  "get_tree c (set_split_block s r i b) r' j = get_tree c s r' j" "bt_shape c (set_split_block s r i b) = bt_shape c s"
  "get_tree c (set_level c s p r l) r' j = get_tree c s r' j" "bt_shape c (set_level c s p r l) = bt_shape c s"
  "get_tree c (add_free_size s i n) r' j = get_tree c s r' j" "bt_shape c (add_free_size s i n) = bt_shape c s"
  "get_tree c (sub_free_size s i n) r' j = get_tree c s r' j" "bt_shape c (sub_free_size s i n) = bt_shape c s"
  by (simp_all add: get_tree_def set_split_block_def set_level_def add_free_size_def sub_free_size_def bt_shape_def Let_def)

lemma tv_indep [simp]:
  "tv c (set_split_block s r i b) = tv c s" "tv c (set_level c s p r l) = tv c s"
  "tv c (add_free_size s i n) = tv c s" "tv c (sub_free_size s i n) = tv c s"
  by (simp_all add: tv_def fun_eq_iff)

definition same_place :: "('a) bt_buddy_scheme \<Rightarrow> ('a) bt_buddy_scheme \<Rightarrow> bool" where
  "same_place s s' \<longleftrightarrow> bstart s' = bstart s \<and> blinks s' = blinks s \<and> lazyListSize s' = lazyListSize s
     \<and> lazyThresholds s' = lazyThresholds s"

lemma same_place_trans: "same_place s t \<Longrightarrow> same_place t u \<Longrightarrow> same_place s u"
  by (simp add: same_place_def)

lemma same_place_ops [simp]:
  "same_place s s" "same_place s (set_tree c s r i v)" "same_place s (set_split_block s r i b)"
  "same_place s (set_level c s p r l)" "same_place s (add_free_size s i n)" "same_place s (sub_free_size s i n)"
  "same_place s (set_split_block (set_tree c s r i v) r i' b)"
  by (simp_all add: same_place_def set_split_block_def set_level_def add_free_size_def sub_free_size_def Let_def)

subsection \<open>The loops over the ancestors\<close>

lemma alloc_parents_climb:
  assumes "bt_cfg c" "r < numRegions c"
  shows "bt_shape c s \<Longrightarrow> n < numLevels c \<Longrightarrow> (n \<noteq> 0 \<Longrightarrow> at_level (n - 1) i) \<Longrightarrow>
    let s' = bt_alloc_parents c r n i s in
      bt_shape c s' \<and> same_place s s' \<and> tv c s' r = climb False n h i (tv c s r) \<and> (\<forall>r'. r' \<noteq> r \<longrightarrow> tv c s' r' = tv c s r')"
proof (induction n arbitrary: i s h)
  case (Suc n)
  let ?l = "get_tree c s r (2 * i + 1)" and ?r = "get_tree c s r (2 * i + 2)"
  let ?s1 = "set_tree c s r i (max ?l ?r)"
  let ?s2 = "if sizeBits c = 0 \<and> useSizeMap c then set_split_block ?s1 r i True else ?s1"
  have lv: "at_level n i" "n < numLevels c" "Suc n < numLevels c" using Suc.prems by auto
  have kids: "?l = tv c s r (2 * i + 1)" "?r = tv c s r (2 * i + 2)"
    using get_tree_tv [OF at_level_kids(1) [OF lv(1)] lv(3)] get_tree_tv [OF at_level_kids(2) [OF lv(1)] lv(3)] by auto
  have "?l < 2 ^ node_bits c (Suc n)" "?r < 2 ^ node_bits c (Suc n)"
    unfolding kids using tv_bound [OF assms(1) Suc.prems(1) _ lv(3)] at_level_kids [OF lv(1)] by auto
  moreover have "(2::nat) ^ node_bits c (Suc n) \<le> 2 ^ node_bits c n"
    using node_bits_mono [of n "Suc n" c] lv by (intro power_increasing) simp_all
  ultimately have v: "max ?l ?r < 2 ^ node_bits c n" by linarith
  note set = tv_set [OF assms(1) Suc.prems(1) assms(2) lv(1,2) v]
  have s2: "bt_shape c ?s2" "same_place s ?s2" "tv c ?s2 r = (tv c s r)(i := parent_value False (tv c s r) i h)"
    "\<And>r'. r' \<noteq> r \<Longrightarrow> tv c ?s2 r' = tv c s r'"
    using set set_tree_shape [OF Suc.prems(1)] kids by (auto simp: parent_value_def)
  have step: "bt_alloc_parents c r (Suc n) i s = bt_alloc_parents c r n ((i - 1) div 2) ?s2"
    by (simp add: Let_def max_def)
  have "n \<noteq> 0 \<Longrightarrow> at_level (n - 1) ((i - 1) div 2)" using at_level_parent [of "n - 1" i] lv(1) by (cases n) auto
  from Suc.IH [OF s2(1) lv(2) this, of "h + 1"] show ?case
    unfolding step climb.simps s2(3) Let_def using s2(2,4) same_place_trans [of s ?s2] by simp
qed (simp add: Let_def)

lemma height_fits: "bt_cfg c \<Longrightarrow> l < numLevels c \<Longrightarrow> numLevels c - l < 2 ^ node_bits c l"
  using bt_cfgD [of c] by (auto simp: node_bits_def)

lemma dealloc_parents_climb:
  assumes "bt_cfg c" "r < numRegions c"
  shows "bt_shape c s \<Longrightarrow> n < numLevels c \<Longrightarrow> (n \<noteq> 0 \<Longrightarrow> at_level (n - 1) i) \<Longrightarrow> l + n = numLevels c \<Longrightarrow>
    let s' = bt_dealloc_parents c r l n i s in
      bt_shape c s' \<and> same_place s s' \<and> tv c s' r = climb True n (l + 1) i (tv c s r) \<and> (\<forall>r'. r' \<noteq> r \<longrightarrow> tv c s' r' = tv c s r')"
proof (induction n arbitrary: i s l)
  case (Suc n)
  have lv: "at_level n i" "n < numLevels c" "Suc n < numLevels c" using Suc.prems by auto
  have "i < 2 ^ numLevels c - 1" by (rule at_level_valid [OF lv(1,2)])
  moreover have "(2::nat) ^ numLevels c \<le> 2 ^ 28"
    using bt_cfgD(3) [OF assms(1)] by (intro power_increasing) simp_all
  ultimately have i: "i < 268435455" by simp
  let ?l = "get_tree c s r (2 * i + 1)" and ?r = "get_tree c s r (2 * i + 2)"
  let ?v = "if ?l = ?r \<and> ?l = l then l + 1 else max ?l ?r"
  let ?s1 = "set_tree c s r i ?v"
  let ?s2 = "if ?l = ?r \<and> ?l = l then set_split_block ?s1 r i False else ?s1"
  have kids: "?l = tv c s r (2 * i + 1)" "?r = tv c s r (2 * i + 2)"
    using get_tree_tv [OF at_level_kids(1) [OF lv(1)] lv(3)] get_tree_tv [OF at_level_kids(2) [OF lv(1)] lv(3)] by auto
  have "?l < 2 ^ node_bits c (Suc n)" "?r < 2 ^ node_bits c (Suc n)"
    unfolding kids using tv_bound [OF assms(1) Suc.prems(1) _ lv(3)] at_level_kids [OF lv(1)] by auto
  moreover have "(2::nat) ^ node_bits c (Suc n) \<le> 2 ^ node_bits c n"
    using node_bits_mono [of n "Suc n" c] lv by (intro power_increasing) simp_all
  moreover have "l + 1 < 2 ^ node_bits c n" using height_fits [OF assms(1) lv(2)] Suc.prems(4) by (simp add: algebra_simps)
  ultimately have "?l < 2 ^ node_bits c n" "?r < 2 ^ node_bits c n" "l + 1 < 2 ^ node_bits c n" by linarith+
  then have v: "?v < 2 ^ node_bits c n" by simp
  note set = tv_set [OF assms(1) Suc.prems(1) assms(2) lv(1,2) v]
  have s2: "bt_shape c ?s2" "same_place s ?s2" "tv c ?s2 r = (tv c s r)(i := parent_value True (tv c s r) i (l + 1))"
    "\<And>r'. r' \<noteq> r \<Longrightarrow> tv c ?s2 r' = tv c s r'"
    using set set_tree_shape [OF Suc.prems(1)] kids by (auto simp: parent_value_def)
  have step: "bt_dealloc_parents c r l (Suc n) i s = bt_dealloc_parents c r (l + 1) n (sub32 i 1 div 2) ?s2"
    using i by (simp add: Let_def max_def w32_id)
  show ?case
  proof (cases n)
    case 0
    then show ?thesis unfolding step climb.simps s2(3) [symmetric] Let_def using s2 by simp
  next
    case (Suc m)
    have "(1::nat) \<le> 2 ^ m" by simp
    then have "0 < i" using lv(1) unfolding Suc at_level_def power_Suc by linarith
    then have si: "sub32 i 1 = i - 1" by (simp add: sub32_id)
    have "at_level (n - 1) ((i - 1) div 2)" using at_level_parent [of m i] lv(1) Suc by simp
    from Suc.IH [OF s2(1) lv(2) this, of "l + 1"] show ?thesis
      unfolding step climb.simps s2(3) [symmetric] Let_def si
      using s2(2,4) same_place_trans [of s ?s2] Suc.prems(4) by simp
  qed
qed (simp add: Let_def)

subsection \<open>One region\<close>

definition bt_rep :: "buddy_config \<Rightarrow> ('a) bt_buddy_scheme \<Rightarrow> nat \<Rightarrow> blk \<Rightarrow> bool" where
  "bt_rep c s r t \<longleftrightarrow> tree_rep (tv c s r) (numLevels c) 0 t \<and> tree_wf (numLevels c) t"

lemma descend_pos:
  "tree_rep (tv c s r) (bh + n) i t \<Longrightarrow> 0 < bh \<Longrightarrow> at_level l i \<Longrightarrow> l + n < numLevels c \<Longrightarrow>
   bt_descend c s r bh n i = dsc i n (alloc_pos bh n t 0) \<and> at_level (l + n) (dsc i n (alloc_pos bh n t 0))"
proof (induction n arbitrary: i t l)
  case (Suc n)
  have rp: "tree_rep (tv c s r) (bh + n) (2 * i + 1) (lkid t)" "tree_rep (tv c s r) (bh + n) (2 * i + 2) (rkid t)"
    using Suc.prems(1) by simp_all
  have g: "get_tree c s r (2 * i + 1) = avail (bh + n) (lkid t)"
  proof -
    have "Suc l < numLevels c" "0 < bh + n" using Suc.prems(2,4) by simp_all
    then show ?thesis
      using get_tree_tv [OF at_level_kids(1) [OF Suc.prems(3)], of c s r] tree_rep_root [OF rp(1)] by simp
  qed
  show ?case
  proof (cases "avail (bh + n) (lkid t) < bh")
    case True
    from Suc.IH [OF rp(2) Suc.prems(2) at_level_kids(2) [OF Suc.prems(3)]] show ?thesis
      using True g Suc.prems(4) dsc_right [of n "2 ^ n + alloc_pos bh n (rkid t) 0" i]
        alloc_pos_shift [of bh n "rkid t" 1] by simp
  next
    case False
    from Suc.IH [OF rp(1) Suc.prems(2) at_level_kids(1) [OF Suc.prems(3)]] show ?thesis
      using False g Suc.prems(4) dsc_left [of i n "alloc_pos bh n (lkid t) 0"] by simp
  qed
qed (simp add: dsc_0)

lemma dsc_root: "dsc 0 n k = index_of_level n + k"
  by (simp add: dsc_def index_of_level_def)

lemma alloc_in_rep:
  assumes "bt_cfg c" "placed c s" "bt_shape c s" "r < numRegions c" "bt_rep c s r t" "0 < bh" "bh \<le> avail (numLevels c) t"
  defines "n \<equiv> numLevels c - bh"
  shows "let (p, s') = bt_alloc_in c s r bh sz in
    p = baddr c s r (alloc_pos bh n t 0 * bsize c n) \<and> bt_shape c s' \<and> same_place s s'
    \<and> bt_rep c s' r (tree_alloc bh n t) \<and> (\<forall>r'. r' \<noteq> r \<longrightarrow> tv c s' r' = tv c s r')"
proof -
  have wf: "tree_wf (numLevels c) t" and rep: "tree_rep (tv c s r) (numLevels c) 0 t" using assms(5) by (auto simp: bt_rep_def)
  have bh: "bh \<le> numLevels c" using avail_le [OF wf] assms(7) by simp
  obtain q where q: "bh = Suc q" using assms(6) by (cases bh) auto
  have N: "numLevels c = Suc (q + n)" using bh q by (simp add: n_def)
  then have nl: "n < numLevels c" by simp
  let ?k = "alloc_pos bh n t 0" and ?i = "dsc 0 n (alloc_pos bh n t 0)"
  have k: "?k < 2 ^ n" by (rule alloc_pos_lt)
  have rep0: "tree_rep (tv c s r) (bh + n) 0 t" using rep N q by simp
  have "at_level 0 0" by (simp add: at_level_def)
  from descend_pos [OF rep0 assms(6) this] have d: "bt_descend c s r bh n 0 = ?i" "at_level n ?i" using nl by simp_all
  have put: "tree_alloc bh n t = tree_put Used n ?k t" "tree_at n ?k t = Free"
    using tree_alloc_put [of q n t] wf assms(7) N q by simp_all
  let ?s1 = "set_tree c s r ?i 0"
  let ?s2 = "if sizeBits c \<noteq> 0 \<and> useSizeMap c then set_level c ?s1 (get_address c ?s1 r ?i) r n else ?s1"
  let ?s3 = "bt_alloc_parents c r n ((?i - 1) div 2) ?s2"
  have "0 < (2::nat) ^ node_bits c n" by simp
  note set = tv_set [OF assms(1,3,4) d(2) nl this]
  have s2: "bt_shape c ?s2" "same_place s ?s2" "tv c ?s2 r = (tv c s r)(?i := 0)" "\<And>r'. r' \<noteq> r \<Longrightarrow> tv c ?s2 r' = tv c s r'"
    using set set_tree_shape [OF assms(3)] same_place_trans [of s ?s1] by auto
  have "n \<noteq> 0 \<Longrightarrow> at_level (n - 1) ((?i - 1) div 2)" using at_level_parent [of "n - 1" ?i] d(2) by (cases n) auto
  from alloc_parents_climb [OF assms(1,4) s2(1) nl this, of "Suc (Suc q)"]
  have s3: "bt_shape c ?s3" "same_place ?s2 ?s3" "tv c ?s3 r = climb False n (Suc (Suc q)) ((?i - 1) div 2) ((tv c s r)(?i := 0))"
    "\<forall>r'. r' \<noteq> r \<longrightarrow> tv c ?s3 r' = tv c ?s2 r'"
    unfolding Let_def s2(3) by blast+
  have "tree_rep (tv c ?s3 r) (Suc (q + n)) 0 (tree_put Used n ?k t) \<and> (\<forall>p. p \<notin> nodes (Suc (q + n)) 0 \<longrightarrow> tv c ?s3 r p = tv c s r p)"
    by (rule climb_put [where x = Used and merge = False]) (use rep wf N k put s3(3) in simp_all)
  moreover have "tree_wf (numLevels c) (tree_alloc bh n t)"
    using tree_alloc_wf [of bh n t] wf assms(6,7) bh by (simp add: n_def)
  ultimately have "bt_rep c ?s3 r (tree_alloc bh n t)" by (simp add: bt_rep_def N put)
  moreover have "get_address c ?s1 r ?i = baddr c s r (?k * bsize c n)"
    using get_address_eq [OF bt_cfgD(1) [OF assms(1)] _ assms(4) nl k, of ?s1] assms(2)
    by (simp add: dsc_root placed_def baddr_def)
  moreover have "bt_alloc_in c s r bh sz = (get_address c ?s1 r ?i, sub_free_size ?s3 r (rup2 sz))"
    using d(1) by (simp add: bt_alloc_in_def n_def Let_def)
  moreover have "bt_rep c (sub_free_size u r m) r v = bt_rep c u r v" for u :: "('a) bt_buddy_scheme" and m v
    by (simp add: bt_rep_def)
  ultimately show ?thesis
    using s3(1,4) s2(4) same_place_trans [OF s2(2) s3(2)] same_place_trans [of s ?s3 "sub_free_size ?s3 r (rup2 sz)"]
    by simp
qed

end
