(* ===== verification/Bt_Alloc.thy ===== *)
theory Bt_Alloc
  imports Bt_Refine
begin

text \<open>
  Correctness of \<open>allocate_internal\<close> and \<open>deallocate_internal\<close> of the bitmap tree buddy
  allocator over all regions, in terms of the set of allocated blocks.
\<close>

subsection \<open>Release in one region\<close>

lemma used_at:
  "tree_wf (Suc (q + n)) t \<Longrightarrow> k < 2 ^ n \<Longrightarrow> (off + k * 2 ^ q, Suc q) \<in> used (Suc (q + n)) off t \<Longrightarrow>
   tree_at n k t = Used"
proof (induction n arbitrary: k t off)
  case 0
  show ?case
  proof (cases t)
    case (Node l r)
    then show ?thesis using used_within [of q l off "Suc q" off] used_within [of q r off "Suc q" "off + 2 ^ (q - 1)"] 0
      by auto
  qed (use 0 in auto)
next
  case (Suc n)
  have "t \<noteq> Free" "t \<noteq> Used" using Suc.prems(3) by auto
  then obtain l r where t: "t = Node l r" by (cases t) auto
  have kw: "tree_wf (Suc (q + n)) l" "tree_wf (Suc (q + n)) r" using Suc.prems(1) t by auto
  let ?p = "off + k * 2 ^ q"
  have mem: "(?p, Suc q) \<in> used (Suc (q + n)) off l \<or> (?p, Suc q) \<in> used (Suc (q + n)) (off + 2 ^ (q + n)) r"
    using Suc.prems(3) t by simp
  have in_l: "?p + 2 ^ q \<le> off + 2 ^ (q + n)" if "(?p, Suc q) \<in> used (Suc (q + n)) off l"
    using used_within [OF kw(1) that] by simp
  have in_r: "off + 2 ^ (q + n) \<le> ?p" if "(?p, Suc q) \<in> used (Suc (q + n)) (off + 2 ^ (q + n)) r"
    using used_within [OF kw(2) that] by simp
  show ?case
  proof (cases "k < 2 ^ n")
    case True
    then have "?p < off + 2 ^ (q + n)" by (simp add: power_add)
    then have "(?p, Suc q) \<in> used (Suc (q + n)) off l" using mem in_r by (meson not_less)
    from Suc.IH [OF kw(1) True this] show ?thesis using True t by simp
  next
    case False
    then obtain m where m: "k = 2 ^ n + m" using le_Suc_ex by (metis not_less)
    then have mn: "m < 2 ^ n" using Suc.prems(2) by simp
    have o: "?p = off + 2 ^ (q + n) + m * 2 ^ q" by (simp add: m power_add algebra_simps)
    have "(2::nat) ^ q > 0" by simp
    then have "(?p, Suc q) \<notin> used (Suc (q + n)) off l" using in_l o by linarith
    then have "(off + 2 ^ (q + n) + m * 2 ^ q, Suc q) \<in> used (Suc (q + n)) (off + 2 ^ (q + n)) r"
      using mem unfolding o by simp
    from Suc.IH [OF kw(2) mn this] show ?thesis using False t m by simp
  qed
qed

lemma height_of_level: "bt_cfg c \<Longrightarrow> find_smallest_block_level c sz = l \<Longrightarrow> l < numLevels c \<Longrightarrow>
   tree_height c sz = numLevels c - l"
  using bt_cfgD [of c] mod_add_self1 [of 256 "numLevels c - l"] by (simp add: tree_height_def w8_def)

lemma dealloc_rep:
  assumes "bt_cfg c" "placed c s" "bt_shape c s" "r < numRegions c" "bt_rep c s r t"
    "find_smallest_block_level c sz = l" "0 < sz" "l < numLevels c" "k < 2 ^ l" "tree_at l k t = Used"
  shows "let s' = bt_deallocate_internal c s (baddr c s r (k * bsize c l)) sz in
    bt_shape c s' \<and> same_place s s' \<and> bt_rep c s' r (tree_free l k t) \<and> (\<forall>r'. r' \<noteq> r \<longrightarrow> tv c s' r' = tv c s r')"
proof -
  have wf: "tree_wf (numLevels c) t" and rep: "tree_rep (tv c s r) (numLevels c) 0 t" using assms(5) by (auto simp: bt_rep_def)
  note cf = bt_cfgD [OF assms(1)]
  let ?off = "k * bsize c l" and ?i = "dsc 0 l k"
  let ?p = "baddr c s r ?off"
  obtain q where q: "numLevels c - l = Suc q" using assms(8) by (cases "numLevels c - l") auto
  then have N: "numLevels c = Suc (q + l)" using assms(8) by simp
  have "(2::nat) ^ maxBlockSizeLog2 c = 2 ^ l * bsize c l"
    unfolding bsize_def by (rule pow2_split [OF level_le_max [OF cf(1) assms(8)]])
  then have off: "?off < 2 ^ maxBlockSizeLog2 c" using assms(9) by simp
  have reg: "get_region c s ?p = r" by (rule get_region_baddr [OF cf(1) assms(2,4) off])
  have lev: "get_level c s ?p sz = l" using assms(6,7) by (simp add: get_level_def)
  have idx: "block_index c s ?p r l = ?i"
    using block_index_eq [OF cf(1) assms(2,4) off assms(8)] by (simp add: dsc_root)
  have th: "tree_height c sz = Suc q" using height_of_level [OF assms(1,6,8)] q by simp
  have at: "at_level l ?i" using assms(9) by (simp add: at_level_def dsc_Suc)
  let ?s1 = "set_tree c s r ?i (Suc q)"
  let ?j = "sub32 ?i 1 div 2"
  let ?s3 = "bt_dealloc_parents c r (Suc q) l ?j ?s1"
  have "Suc q < 2 ^ node_bits c l" using height_fits [OF assms(1,8)] q by simp
  note set = tv_set [OF assms(1,3,4) at assms(8) this]
  have j: "?j = (?i - 1) div 2 \<and> at_level (l - 1) ?j" if l0: "l \<noteq> 0"
  proof -
    obtain m where m: "l = Suc m" using l0 by (cases l) auto
    have "(1::nat) \<le> 2 ^ m" by simp
    then have "0 < ?i" using at unfolding m at_level_def power_Suc by linarith
    then show ?thesis using at_level_parent [of "l - 1" ?i] at l0 sub32_id [of 1 ?i] by simp
  qed
  have cl: "climb True l h ?j f = climb True l h ((?i - 1) div 2) f" for h f using j by (cases "l = 0") auto
  have sh: "bt_shape c ?s1" by (rule set_tree_shape [OF assms(3)])
  have lq: "Suc q + l = numLevels c" using N by simp
  have "l \<noteq> 0 \<Longrightarrow> at_level (l - 1) ?j" using j by blast
  from dealloc_parents_climb [OF assms(1,4) sh assms(8) this lq]
  have s3: "bt_shape c ?s3" "same_place ?s1 ?s3" "tv c ?s3 r = climb True l (Suc (Suc q)) ((?i - 1) div 2) ((tv c s r)(?i := Suc q))"
    "\<forall>r'. r' \<noteq> r \<longrightarrow> tv c ?s3 r' = tv c ?s1 r'"
    unfolding Let_def set(1) cl by simp_all
  have "tree_rep (tv c ?s3 r) (Suc (q + l)) 0 (tree_put Free l k t) \<and> (\<forall>p. p \<notin> nodes (Suc (q + l)) 0 \<longrightarrow> tv c ?s3 r p = tv c s r p)"
    by (rule climb_put [where x = Free and merge = True]) (use rep wf N assms(9,10) s3(3) in simp_all)
  moreover have "tree_wf (numLevels c) (tree_free l k t)" by (rule tree_free_wf [OF wf assms(8)])
  ultimately have "bt_rep c ?s3 r (tree_free l k t)" by (simp add: bt_rep_def N tree_free_put)
  moreover have "bt_deallocate_internal c s ?p sz = add_free_size ?s3 r sz"
    using N by (simp add: bt_deallocate_internal_def Let_def reg lev idx th)
  moreover have "bt_rep c (add_free_size u r m) r v = bt_rep c u r v" for u :: "('a) bt_buddy_scheme" and m v
    by (simp add: bt_rep_def)
  moreover have "same_place s ?s3" by (rule same_place_trans [OF _ s3(2)]) simp
  ultimately show ?thesis
    using s3(1,4) set(2) same_place_trans [of s ?s3 "add_free_size ?s3 r sz"] by simp
qed

subsection \<open>Blocks as address ranges\<close>

definition byte_blk :: "buddy_config \<Rightarrow> ('a) buddy_scheme \<Rightarrow> nat \<Rightarrow> nat \<times> nat \<Rightarrow> nat \<times> nat" where
  "byte_blk c s r x = (baddr c s r (fst x * 2 ^ minBlockSizeLog2 c), 2 ^ (snd x - 1) * 2 ^ minBlockSizeLog2 c)"

definition in_region :: "buddy_config \<Rightarrow> nat \<times> nat \<Rightarrow> bool" where
  "in_region c x \<longleftrightarrow> 1 \<le> snd x \<and> fst x + 2 ^ (snd x - 1) \<le> 2 ^ (numLevels c - 1)"

lemma region_units: "cfg_ok c \<Longrightarrow> (2::nat) ^ maxBlockSizeLog2 c = 2 ^ (numLevels c - 1) * 2 ^ minBlockSizeLog2 c"
  using cfg_okD [of c] by (simp add: numLevels_eq flip: power_add)

lemma byte_blk_within:
  assumes "cfg_ok c" "in_region c x"
  shows "fst x * 2 ^ minBlockSizeLog2 c + snd (byte_blk c s r x) \<le> 2 ^ maxBlockSizeLog2 c"
proof -
  have "(fst x + 2 ^ (snd x - 1)) * 2 ^ minBlockSizeLog2 c \<le> 2 ^ (numLevels c - 1) * 2 ^ minBlockSizeLog2 c"
    by (rule mult_le_mono1) (use assms(2) in \<open>simp add: in_region_def\<close>)
  then show ?thesis using assms(2) unfolding region_units [OF assms(1)]
    by (simp add: byte_blk_def algebra_simps)
qed

lemma byte_blk_inj:
  assumes "cfg_ok c" "placed c s" "r < numRegions c" "r' < numRegions c" "in_region c x" "in_region c y"
    "byte_blk c s r x = byte_blk c s r' y"
  shows "r = r' \<and> x = y"
proof -
  have pos: "0 < snd (byte_blk c s r x)" for r x by (simp add: byte_blk_def)
  have x: "fst x * 2 ^ minBlockSizeLog2 c < 2 ^ maxBlockSizeLog2 c"
    using byte_blk_within [OF assms(1,5), of s r] pos [of r x] by linarith
  have y: "fst y * 2 ^ minBlockSizeLog2 c < 2 ^ maxBlockSizeLog2 c"
    using byte_blk_within [OF assms(1,6), of s r'] pos [of r' y] by linarith
  have a: "baddr c s r (fst x * 2 ^ minBlockSizeLog2 c) = baddr c s r' (fst y * 2 ^ minBlockSizeLog2 c)"
    using assms(7) by (simp add: byte_blk_def)
  have r: "r = r'" using get_region_baddr [OF assms(1,2,3) x] get_region_baddr [OF assms(1,2,4) y] a by simp
  then have "fst x = fst y" using a by (simp add: baddr_def)
  moreover have "snd x - 1 = snd y - 1" using assms(7) by (simp add: byte_blk_def)
  then have "snd x = snd y" using assms(5,6) unfolding in_region_def by linarith
  ultimately show ?thesis using r by (simp add: prod_eq_iff)
qed

lemma scaled_disjoint:
  assumes "0 < (m::nat)" "0 < (k::nat)" "0 < k'"
  shows "{a + u * m ..< a + u * m + k * m} \<inter> {a + v * m ..< a + v * m + k' * m} = {} \<longleftrightarrow> {u ..< u + k} \<inter> {v ..< v + k'} = {}"
proof -
  have d: "{x ..< x + p} \<inter> {y ..< y + q} = {} \<longleftrightarrow> x + p \<le> y \<or> y + q \<le> x" if "0 < p" "0 < q" for x y p q :: nat
  proof
    assume e: "{x ..< x + p} \<inter> {y ..< y + q} = {}"
    have "max x y \<notin> {x ..< x + p} \<inter> {y ..< y + q}" unfolding e by simp
    then show "x + p \<le> y \<or> y + q \<le> x" using that by (auto simp: max_def split: if_splits)
  qed auto
  have "a + u * m + k * m \<le> a + v * m \<longleftrightarrow> (u + k) * m \<le> v * m" "a + v * m + k' * m \<le> a + u * m \<longleftrightarrow> (v + k') * m \<le> u * m"
    by (simp_all add: algebra_simps)
  then have "a + u * m + k * m \<le> a + v * m \<longleftrightarrow> u + k \<le> v" "a + v * m + k' * m \<le> a + u * m \<longleftrightarrow> v + k' \<le> u"
    using assms(1) by simp_all
  moreover have "0 < k * m" "0 < k' * m" using assms by simp_all
  ultimately show ?thesis using d [of "k * m" "k' * m" "a + u * m" "a + v * m"] d [OF assms(2,3), of u v] by blast
qed

lemma span_same_region:
  assumes "1 \<le> snd x" "1 \<le> snd y"
  shows "span (byte_blk c s r x) \<inter> span (byte_blk c s r y) = {} \<longleftrightarrow> covers x \<inter> covers y = {}"
  using scaled_disjoint [of "2 ^ minBlockSizeLog2 c" "2 ^ (snd x - 1)" "2 ^ (snd y - 1)" "bstart s + r * 2 ^ maxBlockSizeLog2 c" "fst x" "fst y"] assms
  by (simp add: span_def byte_blk_def covers_def baddr_def)

lemma span_region:
  assumes "cfg_ok c" "in_region c x"
  shows "span (byte_blk c s r x) \<subseteq> {baddr c s r 0 ..< baddr c s (Suc r) 0}"
  using byte_blk_within [OF assms, of s r] by (auto simp: span_def byte_blk_def baddr_def)

lemma span_other_region:
  assumes "cfg_ok c" "in_region c x" "in_region c y" "r \<noteq> r'"
  shows "span (byte_blk c s r x) \<inter> span (byte_blk c s r' y) = {}"
proof -
  have mono: "baddr c s (Suc a) 0 \<le> baddr c s b 0" if "a < b" for a b
    using mult_le_mono1 [of "Suc a" b "2 ^ maxBlockSizeLog2 c"] that by (simp add: baddr_def)
  have "{baddr c s r 0 ..< baddr c s (Suc r) 0} \<inter> {baddr c s r' 0 ..< baddr c s (Suc r') 0} = {}"
  proof (cases "r < r'")
    case True
    then show ?thesis using mono [of r r'] by auto
  next
    case False
    then have "r' < r" using assms(4) by simp
    then show ?thesis using mono [of r' r] by auto
  qed
  then show ?thesis using span_region [OF assms(1,2), of s r] span_region [OF assms(1,3), of s r'] by blast
qed

subsection \<open>The whole allocator\<close>

definition region_blocks :: "buddy_config \<Rightarrow> ('a) buddy_scheme \<Rightarrow> (nat \<Rightarrow> blk) \<Rightarrow> nat \<Rightarrow> (nat \<times> nat) set" where
  "region_blocks c s ts r = byte_blk c s r ` used (numLevels c) 0 (ts r)"

definition bt_inv :: "buddy_config \<Rightarrow> ('a) bt_buddy_scheme \<Rightarrow> (nat \<times> nat) set \<Rightarrow> bool" where
  "bt_inv c s A \<longleftrightarrow> placed c s \<and> bt_shape c s \<and> (\<exists>ts. (\<forall>r < numRegions c. bt_rep c s r (ts r))
     \<and> A = (\<Union>r < numRegions c. region_blocks c s ts r))"

lemma used_in_region: "tree_wf (numLevels c) t \<Longrightarrow> x \<in> used (numLevels c) 0 t \<Longrightarrow> in_region c x"
  using used_within [of "numLevels c" t "fst x" "snd x" 0] by (simp add: in_region_def)

lemma placed_bstart: "bstart s' = bstart s \<Longrightarrow> placed c s' = placed c s"
  by (simp add: placed_def)

lemma byte_blk_bstart: "bstart s' = bstart s \<Longrightarrow> byte_blk c s' = byte_blk c s"
  by (simp add: byte_blk_def baddr_def fun_eq_iff)

lemma bt_rep_tv: "tv c s' r = tv c s r \<Longrightarrow> bt_rep c s' r t = bt_rep c s r t"
  by (simp add: bt_rep_def)

lemma bt_inv_update:
  assumes "bt_shape c s'" "same_place s s'" "placed c s" "\<forall>r < numRegions c. bt_rep c s r (ts r)" "r < numRegions c"
    "bt_rep c s' r t'" "\<forall>r'. r' \<noteq> r \<longrightarrow> tv c s' r' = tv c s r'"
  shows "bt_inv c s' (\<Union>i < numRegions c. region_blocks c s (ts(r := t')) i)"
proof -
  have b: "bstart s' = bstart s" using assms(2) by (simp add: same_place_def)
  have "\<forall>i < numRegions c. bt_rep c s' i ((ts(r := t')) i)"
    using assms(4,6,7) bt_rep_tv [of c s' _ s] by simp
  moreover have "region_blocks c s' = region_blocks c s"
    by (simp add: region_blocks_def fun_eq_iff byte_blk_bstart [OF b])
  ultimately show ?thesis using assms(1,3) placed_bstart [OF b] unfolding bt_inv_def by metis
qed

lemma blocks_update:
  assumes "r < numRegions c"
  shows "(\<Union>i < numRegions c. region_blocks c s (ts(r := t)) i)
    = byte_blk c s r ` used (numLevels c) 0 t \<union> (\<Union>i \<in> {..<numRegions c} - {r}. region_blocks c s ts i)"
  using assms by (auto simp: region_blocks_def split: if_splits)

lemma blocks_split:
  assumes "r < numRegions c"
  shows "(\<Union>i < numRegions c. region_blocks c s ts i)
    = byte_blk c s r ` used (numLevels c) 0 (ts r) \<union> (\<Union>i \<in> {..<numRegions c} - {r}. region_blocks c s ts i)"
  using blocks_update [OF assms, of s ts "ts r"] by simp

lemma attempt_cases:
  "case bt_attempt c locked bh sz rs s of
     Some x \<Rightarrow> \<exists>r \<in> set rs. \<not> locked r \<and> bh \<le> get_tree c s r 0 \<and> x = bt_alloc_in c s r bh sz
   | None \<Rightarrow> \<forall>r \<in> set rs. locked r \<or> get_tree c s r 0 < bh"
  by (induction rs) (auto split: option.splits)

lemma allocate_internal_cases:
  obtains (none) "bt_allocate_internal c contended s sz = (None, s)"
      "\<forall>r < numRegions c. get_tree c s r 0 < tree_height c sz"
    | (some) r where "r < numRegions c" "tree_height c sz \<le> get_tree c s r 0"
      "bt_allocate_internal c contended s sz = map_prod Some id (bt_alloc_in c s r (tree_height c sz) sz)"
proof -
  let ?bh = "tree_height c sz" and ?rs = "[0..<numRegions c]" and ?l = "\<lambda>r. contended (RegionLock r)"
  show thesis
  proof (cases "bt_attempt c ?l ?bh sz ?rs s")
    case (Some x)
    then show thesis using attempt_cases [where c = c and locked = ?l and bh = ?bh and sz = sz and rs = ?rs and s = s]
      by (auto simp: bt_allocate_internal_def Let_def intro!: some split: prod.splits)
  next
    case None
    then have n: "\<forall>r < numRegions c. ?l r \<or> get_tree c s r 0 < ?bh"
      using attempt_cases [where c = c and locked = ?l and bh = ?bh and sz = sz and rs = ?rs and s = s] by simp
    show thesis
    proof (cases "\<exists>r \<in> set ?rs. ?l r")
      case False
      then show thesis using none None n by (auto simp: bt_allocate_internal_def Let_def)
    next
      case True
      then show thesis
      proof (cases "bt_attempt c (\<lambda>_. False) ?bh sz ?rs s")
        case (Some x)
        have e: "bt_allocate_internal c contended s sz = map_prod Some id x"
          unfolding bt_allocate_internal_def Let_def None Some using True by (simp split: prod.split)
        obtain r where "r < numRegions c" "?bh \<le> get_tree c s r 0" "x = bt_alloc_in c s r ?bh sz"
          using attempt_cases [where c = c and locked = "\<lambda>_. False" and bh = ?bh and sz = sz and rs = ?rs and s = s] Some
          by auto
        then show thesis using some [of r] e by simp
      next
        case None2: None
        then show thesis using attempt_cases [where c = c and locked = "\<lambda>_. False" and bh = ?bh and sz = sz and rs = ?rs and s = s] True None none
          by (auto simp: bt_allocate_internal_def Let_def)
      qed
    qed
  qed
qed

lemma avail_tree_root: "bt_cfg c \<Longrightarrow> bt_rep c s r t \<Longrightarrow> get_tree c s r 0 = avail (numLevels c) t"
proof -
  assume c: "bt_cfg c" and b: "bt_rep c s r t"
  have "at_level 0 0" "0 < numLevels c" using bt_cfgD [OF c] by (simp_all add: at_level_def)
  then show ?thesis using get_tree_tv [of 0 0 c s r] tree_rep_root b by (simp add: bt_rep_def)
qed

lemma size_level:
  assumes "bt_cfg c" "sz \<le> maxBlockSize c"
  obtains l q where "find_smallest_block_level c sz = l" "l < numLevels c" "numLevels c = Suc (q + l)"
    "tree_height c sz = Suc q" "block_size_for c sz = 2 ^ q * 2 ^ minBlockSizeLog2 c" "block_size_for c sz = bsize c l"
    "sz \<le> block_size_for c sz"
proof -
  note cf = bt_cfgD [OF assms(1)]
  let ?l = "find_smallest_block_level c sz"
  have l: "?l < numLevels c" "sz \<le> size_of_level c ?l" using find_level_best [OF cf(1) assms(2)] by auto
  obtain q where q: "numLevels c - ?l = Suc q" using l by (cases "numLevels c - ?l") auto
  have N: "numLevels c = Suc (q + ?l)" using l q by simp
  have b: "block_size_for c sz = bsize c ?l"
    by (simp add: block_size_for_def size_of_level_eq [OF cf(1) level_le_max [OF cf(1) l(1)]])
  have "maxBlockSizeLog2 c - ?l = q + minBlockSizeLog2 c"
    using N numLevels_eq [OF cf(1)] cfg_okD [OF cf(1)] by linarith
  then have "block_size_for c sz = 2 ^ q * 2 ^ minBlockSizeLog2 c" by (simp add: b bsize_def power_add)
  with that [OF refl l(1) N _ _ b] l(2) height_of_level [OF assms(1) refl l(1)] q show thesis
    by (simp add: block_size_for_def)
qed

lemma alloc_internal_cases:
  assumes "bt_cfg c" "bt_inv c s A" "sz \<le> maxBlockSize c"
  shows "case bt_allocate_internal c contended s sz of
      (Some p, s') \<Rightarrow> sz \<le> block_size_for c sz \<and> bt_inv c s' (insert (p, block_size_for c sz) A)
        \<and> (\<forall>b \<in> A. span (p, block_size_for c sz) \<inter> span b = {}) \<and> block_size_for c sz dvd p - bstart s
    | (None, s') \<Rightarrow> s' = s \<and> (\<forall>r < numRegions c. \<forall>j < 2 ^ find_smallest_block_level c sz.
        \<exists>b \<in> A. span (baddr c s r (j * block_size_for c sz), block_size_for c sz) \<inter> span b \<noteq> {})"
proof -
  note cf = bt_cfgD [OF assms(1)]
  obtain l q where l: "find_smallest_block_level c sz = l" "l < numLevels c" "numLevels c = Suc (q + l)"
    "tree_height c sz = Suc q" "block_size_for c sz = 2 ^ q * 2 ^ minBlockSizeLog2 c" "block_size_for c sz = bsize c l"
    "sz \<le> block_size_for c sz" using size_level [OF assms(1,3)] .
  obtain ts where ts: "placed c s" "bt_shape c s" "\<forall>r < numRegions c. bt_rep c s r (ts r)"
    "A = (\<Union>r < numRegions c. region_blocks c s ts r)" using assms(2) by (auto simp: bt_inv_def)
  have wf: "tree_wf (numLevels c) (ts r)" if "r < numRegions c" for r using ts(3) that by (simp add: bt_rep_def)
  show ?thesis
  proof (rule allocate_internal_cases [of c contended s sz])
    fix r assume r: "r < numRegions c" "tree_height c sz \<le> get_tree c s r 0"
      and e: "bt_allocate_internal c contended s sz = map_prod Some id (bt_alloc_in c s r (tree_height c sz) sz)"
    obtain p s' where ps: "bt_alloc_in c s r (Suc q) sz = (p, s')" by fastforce
    have av: "Suc q \<le> avail (numLevels c) (ts r)" using r l(4) avail_tree_root [OF assms(1), of s r "ts r"] ts(3) by simp
    let ?k = "alloc_pos (Suc q) l (ts r) 0" and ?t = "tree_alloc (Suc q) l (ts r)"
    have n: "numLevels c - Suc q = l" using l(3) by simp
    from alloc_in_rep [OF assms(1) ts(1,2) r(1) _ _ av, of sz] ts(3) r(1) ps
    have out: "p = baddr c s r (?k * bsize c l)" "bt_shape c s'" "same_place s s'" "bt_rep c s' r ?t"
      "\<forall>r'. r' \<noteq> r \<longrightarrow> tv c s' r' = tv c s r'" by (simp_all add: n)
    let ?x = "(?k * 2 ^ q, Suc q)"
    have px: "(p, block_size_for c sz) = byte_blk c s r ?x"
      using l(5,6) by (simp add: byte_blk_def out(1) mult.assoc)
    have us: "used (numLevels c) 0 ?t = insert ?x (used (numLevels c) 0 (ts r))"
      using tree_alloc_used [of q l "ts r" 0] wf [OF r(1)] av by (simp add: l(3))
    have fresh: "\<And>y. y \<in> used (numLevels c) 0 (ts r) \<Longrightarrow> covers ?x \<inter> covers y = {}"
      using tree_alloc_fresh [of q l "ts r" _ 0] wf [OF r(1)] av by (simp add: l(3))
    have xr: "in_region c ?x"
      by (rule used_in_region [of c ?t]) (use out(4) us in \<open>simp_all add: bt_rep_def\<close>)
    have new: "(\<Union>i < numRegions c. region_blocks c s (ts(r := ?t)) i) = insert (p, block_size_for c sz) A"
      unfolding ts(4) blocks_update [OF r(1)] blocks_split [OF r(1), of s ts] us px by simp
    have "span (p, block_size_for c sz) \<inter> span b = {}" if "b \<in> A" for b
    proof -
      obtain i y where y: "i < numRegions c" "y \<in> used (numLevels c) 0 (ts i)" "b = byte_blk c s i y"
        using \<open>b \<in> A\<close> by (auto simp: ts(4) region_blocks_def)
      have yr: "in_region c y" by (rule used_in_region [OF wf [OF y(1)] y(2)])
      show ?thesis
      proof (cases "i = r")
        case True
        then show ?thesis using fresh y span_same_region [of ?x y c s r] yr by (simp add: px in_region_def)
      next
        case False
        then show ?thesis using span_other_region [OF cf(1) xr yr, of r i s] y by (simp add: px)
      qed
    qed
    moreover have "block_size_for c sz dvd p - bstart s"
    proof -
      have "bsize c l dvd 2 ^ maxBlockSizeLog2 c" using bsize_dvd [of 0 l c] by simp
      then show ?thesis by (simp add: out(1) baddr_def l(6))
    qed
    moreover have "bt_inv c s' (insert (p, block_size_for c sz) A)"
      using bt_inv_update [OF out(2,3) ts(1,3) r(1) out(4,5)] new by simp
    ultimately show ?thesis using e ps l(4,7) by simp
  next
    assume e: "bt_allocate_internal c contended s sz = (None, s)" and full: "\<forall>r < numRegions c. get_tree c s r 0 < tree_height c sz"
    have "\<exists>b \<in> A. span (baddr c s r (j * bsize c l), block_size_for c sz) \<inter> span b \<noteq> {}"
      if r: "r < numRegions c" and j: "j < 2 ^ l" for r j
    proof -
      have "avail (numLevels c) (ts r) = get_tree c s r 0" using avail_tree_root [OF assms(1), of s r "ts r"] ts(3) r by simp
      then have "avail (numLevels c) (ts r) < Suc q" using full r l(4) by simp
      then obtain y where y: "y \<in> used (numLevels c) 0 (ts r)" "covers (j * 2 ^ q, Suc q) \<inter> covers y \<noteq> {}"
        using avail_complete [of "numLevels c" "ts r" "Suc q" 0 j] wf [OF r] j l(3) by auto
      have yr: "in_region c y" by (rule used_in_region [OF wf [OF r] y(1)])
      have "(baddr c s r (j * bsize c l), block_size_for c sz) = byte_blk c s r (j * 2 ^ q, Suc q)"
        using l(5,6) by (simp add: byte_blk_def mult.assoc)
      then have "span (baddr c s r (j * bsize c l), block_size_for c sz) \<inter> span (byte_blk c s r y) \<noteq> {}"
        using y(2) span_same_region [of "(j * 2 ^ q, Suc q)" y c s r] yr by (simp add: in_region_def)
      then show ?thesis using y(1) r by (auto simp: ts(4) region_blocks_def)
    qed
    then show ?thesis using e l(1,6) by simp
  qed
qed

lemma byte_blk_position:
  assumes "in_region c x" "x = (off, Suc q)" "tree_wf (Suc (q + l)) t" "x \<in> used (Suc (q + l)) 0 t"
  shows "\<exists>k < 2 ^ l. off = k * 2 ^ q"
  using assms(3,4) unfolding assms(2)
proof -
  have "\<exists>k < 2 ^ n. off = o' + k * 2 ^ q" if "tree_wf (Suc (q + n)) t'" "(off, Suc q) \<in> used (Suc (q + n)) o' t'" for n t' o'
    using that
  proof (induction n arbitrary: t' o')
    case 0
    then show ?case using used_within [OF 0] by simp
  next
    case (Suc n)
    show ?case
    proof (cases t')
      case Used
      then show ?thesis using Suc.prems(2) by simp
    next
      case (Node lt rt)
      then have kw: "tree_wf (Suc (q + n)) lt" "tree_wf (Suc (q + n)) rt"
        and m: "(off, Suc q) \<in> used (Suc (q + n)) o' lt \<or> (off, Suc q) \<in> used (Suc (q + n)) (o' + 2 ^ (q + n)) rt"
        using Suc.prems by simp_all
      from m show ?thesis
      proof
        assume "(off, Suc q) \<in> used (Suc (q + n)) o' lt"
        from Suc.IH [OF kw(1) this] obtain k where "k < 2 ^ n" "off = o' + k * 2 ^ q" by blast
        then show ?thesis by (intro exI [of _ k]) simp
      next
        assume "(off, Suc q) \<in> used (Suc (q + n)) (o' + 2 ^ (q + n)) rt"
        from Suc.IH [OF kw(2) this] obtain k where "k < 2 ^ n" "off = o' + 2 ^ (q + n) + k * 2 ^ q" by blast
        then show ?thesis by (intro exI [of _ "2 ^ n + k"]) (simp add: power_add algebra_simps)
      qed
    qed (use Suc.prems in simp)
  qed
  from this [of l t 0] assms(3,4) show ?thesis unfolding assms(2) by simp
qed

lemma dealloc_internal_case:
  assumes "bt_cfg c" "bt_inv c s A" "(p, block_size_for c sz) \<in> A" "0 < sz" "sz \<le> maxBlockSize c"
  shows "bt_inv c (bt_deallocate_internal c s p sz) (A - {(p, block_size_for c sz)})"
proof -
  note cf = bt_cfgD [OF assms(1)]
  obtain l q where l: "find_smallest_block_level c sz = l" "l < numLevels c" "numLevels c = Suc (q + l)"
    "tree_height c sz = Suc q" "block_size_for c sz = 2 ^ q * 2 ^ minBlockSizeLog2 c" "block_size_for c sz = bsize c l"
    "sz \<le> block_size_for c sz" using size_level [OF assms(1,5)] .
  obtain ts where ts: "placed c s" "bt_shape c s" "\<forall>r < numRegions c. bt_rep c s r (ts r)"
    "A = (\<Union>r < numRegions c. region_blocks c s ts r)" using assms(2) by (auto simp: bt_inv_def)
  have wf: "tree_wf (numLevels c) (ts r)" if "r < numRegions c" for r using ts(3) that by (simp add: bt_rep_def)
  obtain r x where r: "r < numRegions c" and x: "x \<in> used (numLevels c) 0 (ts r)" and px: "(p, block_size_for c sz) = byte_blk c s r x"
    using assms(3) by (auto simp: ts(4) region_blocks_def)
  have xr: "in_region c x" by (rule used_in_region [OF wf [OF r] x])
  have "2 ^ (snd x - 1) = (2::nat) ^ q" using px l(5) by (simp add: byte_blk_def)
  then have "snd x - 1 = q" by simp
  then have h: "snd x = Suc q" using xr unfolding in_region_def by linarith
  have xe: "x = (fst x, Suc q)" using h by (metis prod.collapse)
  obtain k where k: "k < 2 ^ l" "fst x = k * 2 ^ q"
    using byte_blk_position [OF xr xe, of l "ts r"] wf [OF r] x l(3) by auto
  have xk: "x = (0 + k * 2 ^ q, Suc q)" using xe k(2) by simp
  have at: "tree_at l k (ts r) = Used"
    by (rule used_at [of q l "ts r" k 0]) (use wf [OF r] x k(1) xk l(3) in simp_all)
  have us: "used (numLevels c) 0 (tree_free l k (ts r)) = used (numLevels c) 0 (ts r) - {x}"
    using tree_free_used [of q l "ts r" k 0] wf [OF r] x k(1) xk l(3) by simp
  have p: "p = baddr c s r (k * bsize c l)" using px k(2) l(5,6) by (simp add: byte_blk_def mult.assoc)
  have rep: "bt_rep c s r (ts r)" using ts(3) r by simp
  from dealloc_rep [OF assms(1) ts(1,2) r rep l(1) assms(4) l(2) k(1) at]
  have out: "bt_shape c (bt_deallocate_internal c s p sz)" "same_place s (bt_deallocate_internal c s p sz)"
    "bt_rep c (bt_deallocate_internal c s p sz) r (tree_free l k (ts r))"
    "\<forall>r'. r' \<noteq> r \<longrightarrow> tv c (bt_deallocate_internal c s p sz) r' = tv c s r'"
    unfolding p Let_def by blast+
  have "x \<notin> used (numLevels c) 0 (ts r) - {x}" by simp
  have same: "byte_blk c s r ` (used (numLevels c) 0 (ts r) - {x}) = byte_blk c s r ` used (numLevels c) 0 (ts r) - {byte_blk c s r x}"
    using byte_blk_inj [OF cf(1) ts(1) r r] used_in_region [OF wf [OF r]] xr by blast
  have other: "byte_blk c s r x \<notin> region_blocks c s ts i" if "i < numRegions c" "i \<noteq> r" for i
    using byte_blk_inj [OF cf(1) ts(1) r that(1) xr] used_in_region [OF wf [OF that(1)]] that by (auto simp: region_blocks_def)
  have "(\<Union>i < numRegions c. region_blocks c s (ts(r := tree_free l k (ts r))) i) = A - {byte_blk c s r x}"
    unfolding ts(4) blocks_update [OF r] blocks_split [OF r, of s ts] us same using other by blast
  then show ?thesis using bt_inv_update [OF out(1,2) ts(1,3) r out(3,4)] px by simp
qed

end
