(* ===== verification/Bt_Init.thy ===== *)
theory Bt_Init
  imports Bt_Alloc
begin

text \<open>
  The constructor of the bitmap tree buddy allocator establishes the invariant with no
  block allocated, and the concrete allocators used as examples.
\<close>

lemma set_tree_list:
  assumes "bt_cfg c" "r < numRegions c" "l < numLevels c" "v < 2 ^ node_bits c l"
  shows "bt_shape c s \<Longrightarrow> \<forall>i \<in> set xs. at_level l i \<Longrightarrow>
    let s' = foldl (\<lambda>s i. set_tree c s r i v) s xs in bt_shape c s' \<and> same_place s s'
      \<and> tv c s' r = (\<lambda>i. if i \<in> set xs then v else tv c s r i) \<and> (\<forall>r'. r' \<noteq> r \<longrightarrow> tv c s' r' = tv c s r')"
proof (induction xs arbitrary: s)
  case (Cons x xs)
  have x: "at_level l x" using Cons.prems(2) by simp
  note st = tv_set [OF assms(1) Cons.prems(1) assms(2) x assms(3,4)]
  have rest: "\<forall>i \<in> set xs. at_level l i" using Cons.prems(2) by simp
  from Cons.IH [OF set_tree_shape [OF Cons.prems(1)] rest, of r x v] show ?case
    using st same_place_trans [of s "set_tree c s r x v"] by (auto simp: Let_def fun_eq_iff)
qed (simp add: Let_def)

lemma level_range: "set [index_of_level l ..< index_of_level (l + 1)] = {i. at_level l i}"
  by (auto simp: at_level_def index_of_level_def)

definition level_heights :: "buddy_config \<Rightarrow> nat \<Rightarrow> (nat \<Rightarrow> nat) \<Rightarrow> bool" where
  "level_heights c n f \<longleftrightarrow> (\<forall>l i. l < n \<longrightarrow> at_level l i \<longrightarrow> f i = numLevels c - l)"

lemma at_level_unique: "at_level l i \<Longrightarrow> at_level m i \<Longrightarrow> l = m"
proof (rule ccontr)
  assume a: "at_level l i" "at_level m i" "l \<noteq> m"
  have "False" if "at_level l i" "at_level m i" "l < m" for l m
  proof -
    have "(2::nat) ^ Suc l \<le> 2 ^ m" using \<open>l < m\<close> by (intro power_increasing) simp_all
    then show False using that unfolding at_level_def by linarith
  qed
  then show False using a by (metis linorder_neqE_nat)
qed

definition init_region :: "buddy_config \<Rightarrow> nat \<Rightarrow> nat list \<Rightarrow> ('a) bt_buddy_scheme \<Rightarrow> ('a) bt_buddy_scheme" where
  "init_region c r ls s = foldl (\<lambda>s l. foldl (\<lambda>s i. set_tree c s r i (numLevels c - l)) s
     [index_of_level l ..< index_of_level (l + 1)]) s ls"

lemma init_region_levels:
  assumes "bt_cfg c" "r < numRegions c" "bt_shape c s"
  shows "n \<le> numLevels c \<Longrightarrow> let s' = init_region c r [0..<n] s in bt_shape c s' \<and> same_place s s'
      \<and> level_heights c n (tv c s' r) \<and> (\<forall>r'. r' \<noteq> r \<longrightarrow> tv c s' r' = tv c s r')"
proof (induction n)
  case 0
  then show ?case using assms(3) by (simp add: init_region_def level_heights_def Let_def)
next
  case (Suc n)
  let ?s = "init_region c r [0..<n] s"
  let ?xs = "[index_of_level n ..< index_of_level (n + 1)]"
  let ?s' = "foldl (\<lambda>s i. set_tree c s r i (numLevels c - n)) ?s ?xs"
  have n: "n < numLevels c" using Suc.prems by simp
  have ih: "bt_shape c ?s" "same_place s ?s" "level_heights c n (tv c ?s r)" "\<forall>r'. r' \<noteq> r \<longrightarrow> tv c ?s r' = tv c s r'"
    using Suc by (simp_all add: Let_def)
  have "\<forall>i \<in> set ?xs. at_level n i" unfolding level_range by simp
  from set_tree_list [OF assms(1,2) n height_fits [OF assms(1) n] ih(1) this]
  have st: "bt_shape c ?s'" "same_place ?s ?s'" "tv c ?s' r = (\<lambda>i. if at_level n i then numLevels c - n else tv c ?s r i)"
    "\<forall>r'. r' \<noteq> r \<longrightarrow> tv c ?s' r' = tv c ?s r'"
    unfolding Let_def level_range by simp_all
  have "level_heights c (Suc n) (tv c ?s' r)"
    using ih(3) unfolding st(3) level_heights_def by (auto simp: less_Suc_eq dest: at_level_unique)
  moreover have "init_region c r [0..<Suc n] s = ?s'" by (simp add: init_region_def)
  ultimately show ?case using st(1,2,4) ih(2,4) same_place_trans [OF ih(2) st(2)] unfolding Let_def by simp
qed

lemma init_regions:
  assumes "bt_cfg c" "bt_shape c s"
  shows "m \<le> numRegions c \<Longrightarrow> let s' = foldl (\<lambda>s r. init_region c r [0..<numLevels c] s) s [0..<m] in
    bt_shape c s' \<and> same_place s s' \<and> (\<forall>r < m. level_heights c (numLevels c) (tv c s' r))"
proof (induction m)
  case 0
  then show ?case using assms by (simp add: Let_def)
next
  case (Suc m)
  let ?s = "foldl (\<lambda>s r. init_region c r [0..<numLevels c] s) s [0..<m]"
  have ih: "bt_shape c ?s" "same_place s ?s" "\<forall>r < m. level_heights c (numLevels c) (tv c ?s r)"
    using Suc by (simp_all add: Let_def)
  have m: "m < numRegions c" using Suc.prems by simp
  from init_region_levels [OF assms(1) m ih(1), of "numLevels c"] show ?case
    using ih same_place_trans [OF ih(2)] by (simp add: Let_def less_Suc_eq)
qed

lemma rep_free:
  "level_heights c (numLevels c) f \<Longrightarrow> at_level l i \<Longrightarrow> l + h = numLevels c \<Longrightarrow> tree_rep f h i Free"
proof (induction h arbitrary: i l)
  case (Suc h)
  have "f i = numLevels c - l" using Suc.prems by (simp add: level_heights_def)
  moreover have "tree_rep f h (2 * i + 1) Free" "tree_rep f h (2 * i + 2) Free"
    using Suc.IH [OF Suc.prems(1), of "Suc l"] at_level_kids [OF Suc.prems(2)] Suc.prems(3) by simp_all
  moreover have "numLevels c - l = Suc h" using Suc.prems(3) by simp
  ultimately show ?case by simp
qed simp

definition tree_storage :: "buddy_config \<Rightarrow> u8 list list \<Rightarrow> bool" where
  "tree_storage c tree \<longleftrightarrow> length tree = numRegions c \<and> (\<forall>r < numRegions c. length (tree ! r) = 2 ^ numLevels c)"

lemma push_free_lists_fields:
  "bstart (foldl (\<lambda>s r. push_free_list s (g r) r 0) s rs) = bstart s"
  "btTree (foldl (\<lambda>s r. push_free_list s (g r) r 0) t rs) = btTree t"
  "levelOffsets (foldl (\<lambda>s r. push_free_list s (g r) r 0) t rs) = levelOffsets t"
  by (induction rs arbitrary: s t) (simp_all add: push_free_list_def)

lemma set_bitmaps_bt [simp]:
  "bt_shape c (set_bitmaps c s a b) = bt_shape c s" "bstart (set_bitmaps c s a b) = bstart s"
  by (simp_all add: set_bitmaps_def Let_def bt_shape_def)

text \<open>The constructor with nothing allocated.\<close>

lemma bt_new_inv:
  assumes "bt_cfg c" "tree_storage c tree0" "0 < start" "start + numRegions c * 2 ^ maxBlockSizeLog2 c < 18446744073709551616"
  shows "bt_inv c (bt_new c links0 sm0 fb0 tree0 start lazyThreshold False) {}"
proof -
  note cf = bt_cfgD [OF assms(1)]
  let ?s0 = "buddy.extend (buddy_new c links0 sm0 fb0 start lazyThreshold False)
            (bt_buddy.fields tree0 (8 # replicate (numLevels c - 1) 0) (replicate (numLevels c) 0)) :: bt_buddy"
  let ?s1 = "foldl (\<lambda>s r. push_free_list s (region_start c s r) r 0) ?s0 [0..<numRegions c]"
  have same: "foldl (\<lambda>s r. push_free_list s (region_start c s r) r 0) u rs
      = foldl (\<lambda>s r. push_free_list s (region_start c u r) r 0) u rs" for u :: bt_buddy and rs
  proof (induction rs arbitrary: u)
    case (Cons x rs)
    have "region_start c (push_free_list u (region_start c u x) x 0) = region_start c u"
      by (simp add: region_start_def push_free_list_def fun_eq_iff)
    then show ?case using Cons [of "push_free_list u (region_start c u x) x 0"] by simp
  qed simp
  have f: "bstart ?s1 = start" "btTree ?s1 = tree0" "levelOffsets ?s1 = replicate (numLevels c) 0"
    unfolding same push_free_lists_fields
    by (simp_all add: buddy.defs bt_buddy.defs)
  let ?s2 = "?s1\<lparr>btBits := bt_bits_table c\<rparr>"
  let ?s3 = "?s2\<lparr>levelOffsets := level_offsets_loop (btBits ?s2) 0 0 (numLevels c - 1) (levelOffsets ?s2)\<rparr>"
  let ?s4 = "set_bitmaps c ?s3 0 0"
  have "bt_shape c ?s3" using f assms(2) by (simp add: bt_shape_def tree_storage_def)
  then have sh: "bt_shape c ?s4" by simp
  have st: "bstart ?s4 = start" using f by simp
  have new: "bt_new c links0 sm0 fb0 tree0 start lazyThreshold False
     = foldl (\<lambda>s r. init_region c r [0..<numLevels c] s) ?s4 [0..<numRegions c]" (is "?n = _")
    by (simp add: bt_new_def bt_init_bitmaps_def init_region_def Let_def)
  from init_regions [OF assms(1) sh, of "numRegions c"]
  have r: "bt_shape c ?n" "same_place ?s4 ?n" "\<forall>r < numRegions c. level_heights c (numLevels c) (tv c ?n r)"
    unfolding new Let_def by simp_all
  have "bt_rep c ?n r Free" if "r < numRegions c" for r
    unfolding bt_rep_def
    using rep_free [of c "tv c ?n r" 0 0 "numLevels c"] r(3) that cf(2) by (simp add: at_level_def)
  moreover have "placed c ?n" using r(2) st assms(3,4) by (simp add: placed_def same_place_def)
  ultimately show ?thesis using r(1) unfolding bt_inv_def
    by (intro conjI exI [of _ "\<lambda>_. Free"]) (simp_all add: region_blocks_def)
qed

lemma alloc_empty:
  assumes "bt_cfg c" "bt_inv c s {}" "sz \<le> maxBlockSize c"
  shows "\<exists>p s'. bt_allocate_internal c contended s sz = (Some p, s') \<and> bt_inv c s' {(p, block_size_for c sz)}"
proof -
  have n: "0 < numRegions c" "(0::nat) < 2 ^ find_smallest_block_level c sz"
    using cfg_okD [OF bt_cfgD(1) [OF assms(1)]] by simp_all
  obtain x s' where x: "bt_allocate_internal c contended s sz = (x, s')" by fastforce
  note c = alloc_internal_cases [OF assms, of contended, unfolded x]
  have "x \<noteq> None"
  proof
    assume "x = None"
    then have "\<forall>j < 2 ^ find_smallest_block_level c sz :: nat. False" using c n(1) by auto
    then show False using n(2) by blast
  qed
  then show ?thesis using c x by auto
qed

text \<open>A newly constructed bitmap tree allocator holds no allocated block, and its first
  allocation of any size up to the maximum succeeds, whichever locks are contended.\<close>

theorem bt_new_allocates:
  assumes "bt_cfg c" "tree_storage c tree0" "0 < start" "start + numRegions c * 2 ^ maxBlockSizeLog2 c < 18446744073709551616"
    "sz \<le> maxBlockSize c"
  shows "bt_inv c (bt_new c links0 sm0 fb0 tree0 start lazyThreshold False) {}
    \<and> (\<exists>p s'. bt_allocate_internal c contended (bt_new c links0 sm0 fb0 tree0 start lazyThreshold False) sz = (Some p, s')
        \<and> bt_inv c s' {(p, block_size_for c sz)})"
proof -
  let ?n = "bt_new c links0 sm0 fb0 tree0 start lazyThreshold False"
  have i: "bt_inv c ?n {}" by (rule bt_new_inv [OF assms(1-4)])
  show ?thesis using i alloc_empty [OF assms(1) i assms(5)] by blast
qed

definition bt_demo :: bt_buddy where
  "bt_demo = bt_new SmallDoubleConfig \<lparr>lprev = id, lnext = id\<rparr> (replicate 2 (replicate 8 0))
     (replicate 2 (replicate 4 0)) (replicate 2 (replicate 32 0)) 4096 0 False"

lemma small_double_bt: "bt_cfg SmallDoubleConfig"
  using small_double_ok by (simp add: bt_cfg_def numLevels_def SmallDoubleConfig_def w8_def)

lemma small_double_levels: "numLevels SmallDoubleConfig = 5" "numRegions SmallDoubleConfig = 2"
  "maxBlockSizeLog2 SmallDoubleConfig = 8" "minBlockSizeLog2 SmallDoubleConfig = 4"
  "maxBlockSize SmallDoubleConfig = 256" "minBlockSize SmallDoubleConfig = 16" "sizeBits SmallDoubleConfig = 4"
  by (simp_all add: SmallDoubleConfig_def numLevels_def w8_def maxBlockSize_def minBlockSize_def w32_def)

lemma find_level_loop_step: "find_level_loop c sz n i =
   (if n = 0 then 255 else if sz \<le> w32 (2 ^ i) then w8 (maxBlockSizeLog2 c - i) else find_level_loop c sz (n - 1) (i + 1))"
  by (cases n) auto

lemma small_double_sizes:
  "find_smallest_block_level SmallDoubleConfig 40 = 2" "find_smallest_block_level SmallDoubleConfig 16 = 4"
  "find_smallest_block_level SmallDoubleConfig 256 = 0"
  "maxBlockSize SmallDoubleConfig = 256" "block_size_for SmallDoubleConfig 40 = 64"
  by (simp_all add: block_size_for_def find_smallest_block_level_def small_double_levels size_of_level_def
      find_level_loop_step w32_def w8_def)

lemma bt_demo_inv: "bt_inv SmallDoubleConfig bt_demo {}"
  unfolding bt_demo_def
  by (rule bt_new_inv [OF small_double_bt]) (simp_all add: tree_storage_def SmallDoubleConfig_def numLevels_def w8_def nth_Cons')

text \<open>C30. Allocation inside the bitmap tree allocator: whichever region locks are contended, the
  result is a block of the smallest sufficient size that overlaps no allocated block, and
  exactly that block joins the allocated set; or nothing changes and every aligned
  position for such a block, in every region, overlaps an allocated block. The regions together are smaller
  than 2 GiB (\<open>cfg_ok\<close>); from there on the code's \<open>region_start\<close> overflows.\<close>

theorem bt_allocate_internal_correct:
  assumes "bt_cfg c" "bt_inv c s A" "sz \<le> maxBlockSize c"
  shows "case bt_allocate_internal c contended s sz of
      (Some p, s') \<Rightarrow> sz \<le> block_size_for c sz \<and> bt_inv c s' (insert (p, block_size_for c sz) A)
        \<and> (\<forall>b \<in> A. span (p, block_size_for c sz) \<inter> span b = {}) \<and> block_size_for c sz dvd p - bstart s
    | (None, s') \<Rightarrow> s' = s \<and> (\<forall>r < numRegions c. \<forall>j < 2 ^ find_smallest_block_level c sz.
        \<exists>b \<in> A. span (baddr c s r (j * block_size_for c sz), block_size_for c sz) \<inter> span b \<noteq> {})"
  by (rule alloc_internal_cases [OF assms])

theorem bt_allocate_internal_correct_witness:
  "case bt_allocate_internal SmallDoubleConfig (\<lambda>l. l = RegionLock 0) bt_demo 40 of
     (Some p, s') \<Rightarrow> 64 dvd p - bstart bt_demo | (None, s') \<Rightarrow> s' = bt_demo"
  using bt_allocate_internal_correct [OF small_double_bt bt_demo_inv, of 40 "\<lambda>l. l = RegionLock 0"]
  by (simp add: small_double_sizes split: prod.splits option.splits)

text \<open>C31. Release inside the bitmap tree allocator: giving back an allocated block with any size that
  selects its level removes exactly that block from the allocated set, merging free
  buddies all the way up, in a heap of less than 2 GiB.\<close>

theorem bt_deallocate_internal_correct:
  assumes "bt_cfg c" "bt_inv c s A" "(p, block_size_for c sz) \<in> A" "0 < sz" "sz \<le> maxBlockSize c"
  shows "bt_inv c (bt_deallocate_internal c s p sz) (A - {(p, block_size_for c sz)})"
  by (rule dealloc_internal_case [OF assms])

theorem bt_new_allocates_witness:
  "\<exists>p s'. bt_allocate_internal SmallDoubleConfig (\<lambda>_. True) bt_demo 40 = (Some p, s')
     \<and> bt_inv SmallDoubleConfig s' {(p, 64)}"
  using bt_new_allocates [OF small_double_bt, where ?tree0.0 = "replicate 2 (replicate 32 0)" and start = 4096
      and sz = 40 and contended = "\<lambda>_. True" and ?links0.0 = "\<lparr>lprev = id, lnext = id\<rparr>"
      and ?sm0.0 = "replicate 2 (replicate 8 0)" and ?fb0.0 = "replicate 2 (replicate 4 0)" and lazyThreshold = 0]
  by (simp add: small_double_sizes bt_demo_def tree_storage_def small_double_levels nth_Cons')

theorem packed_tree_is_array_witness:
  "get_tree SmallDoubleConfig (set_tree SmallDoubleConfig bt_demo 1 9 1) 1 9 = 1"
proof -
  have "bt_shape SmallDoubleConfig bt_demo" using bt_demo_inv by (simp add: bt_inv_def)
  moreover have "(1::nat) < 2 ^ node_bits SmallDoubleConfig (level_of_index 9)" by (simp add: node_bits_def)
  ultimately show ?thesis
    using packed_tree_is_array [OF small_double_bt, of bt_demo 1 9 9 1 1] by (simp add: small_double_levels)
qed

text \<open>A concrete state with one block allocated, for the examples below.\<close>

definition bt_demo1 :: bt_buddy where
  "bt_demo1 = snd (bt_allocate_internal SmallDoubleConfig (\<lambda>_. False) bt_demo 40)"

lemma bt_demo1_inv: "\<exists>p. bt_inv SmallDoubleConfig bt_demo1 {(p, 64)}"
proof -
  have "40 \<le> maxBlockSize SmallDoubleConfig" by (simp add: small_double_sizes)
  from alloc_empty [OF small_double_bt bt_demo_inv this, of "\<lambda>_. False"] show ?thesis
    by (auto simp: small_double_sizes bt_demo1_def)
qed

theorem bt_deallocate_internal_correct_witness:
  "\<exists>p. bt_inv SmallDoubleConfig (bt_deallocate_internal SmallDoubleConfig bt_demo1 p 40) {}"
proof -
  obtain p where p: "bt_inv SmallDoubleConfig bt_demo1 {(p, 64)}" using bt_demo1_inv by blast
  show ?thesis
    using bt_deallocate_internal_correct [OF small_double_bt p, of p 40] by (auto simp: small_double_sizes)
qed

end
