(* ===== verification/Buddy_Contract.thy ===== *)
theory Buddy_Contract
  imports Buddy_Geometry Buddy_Links
begin

text \<open>
  The contract between \<open>BuddyAllocator\<close> and its derived classes. \<open>owns s A Z\<close> says that the
  blocks \<open>A\<close>, pairs of an address and a size, are handed out by the derived class and that
  \<open>Z l\<close> is the lazy list of level \<open>l\<close>, whose blocks are handed out to the base class. What a
  client holds are the other blocks of \<open>A\<close>. The public operations of the base class are
  proved against the contract once; both buddy allocators meet it.
\<close>

definition lazy_heads :: "buddy_config \<Rightarrow> link_ptr set" where
  "lazy_heads c = LazyHead ` {..< numLevels c}"

definition lazy_lists :: "(nat \<Rightarrow> nat list) \<Rightarrow> link_ptr \<Rightarrow> link_ptr list" where
  "lazy_lists Z h = (case h of LazyHead l \<Rightarrow> map Block (Z l) | _ \<Rightarrow> [])"

definition lazy_ok :: "buddy_config \<Rightarrow> ('a) buddy_scheme \<Rightarrow> (nat \<times> nat) set \<Rightarrow> (nat \<Rightarrow> nat list) \<Rightarrow> bool" where
  "lazy_ok c s A Z \<longleftrightarrow> length (lazyListSize s) = numLevels c
     \<and> (\<forall>l < numLevels c. lazyListSize s ! l = length (Z l) \<and> (\<forall>p \<in> set (Z l). (p, bsize c l) \<in> A))"

definition lazy_push :: "('a) buddy_scheme \<Rightarrow> nat \<Rightarrow> nat \<Rightarrow> ('a) buddy_scheme" where
  "lazy_push s l p = s\<lparr>blinks := push_back (blinks s) (LazyHead l) (Block p),
     lazyListSize := (lazyListSize s)[l := lazyListSize s ! l + 1]\<rparr>"

definition lazy_pop :: "('a) buddy_scheme \<Rightarrow> nat \<Rightarrow> ('a) buddy_scheme" where
  "lazy_pop s l = s\<lparr>blinks := snd (pop_first (blinks s) (LazyHead l)),
     lazyListSize := (lazyListSize s)[l := lazyListSize s ! l - 1]\<rparr>"

definition cached :: "buddy_config \<Rightarrow> (nat \<Rightarrow> nat list) \<Rightarrow> (nat \<times> nat) set" where
  "cached c Z = {(p, bsize c l) | p l. l < numLevels c \<and> p \<in> set (Z l)}"

definition held :: "buddy_config \<Rightarrow> (nat \<times> nat) set \<Rightarrow> (nat \<Rightarrow> nat list) \<Rightarrow> (nat \<times> nat) set" where
  "held c A Z = A - cached c Z"

definition heap_range :: "buddy_config \<Rightarrow> ('a) buddy_scheme \<Rightarrow> nat set" where
  "heap_range c s = {bstart s ..< bstart s + numRegions c * 2 ^ maxBlockSizeLog2 c}"

text \<open>Every aligned position for a block of the size overlaps a block that is handed out.\<close>

definition no_room :: "buddy_config \<Rightarrow> ('a) buddy_scheme \<Rightarrow> (nat \<times> nat) set \<Rightarrow> nat \<Rightarrow> bool" where
  "no_room c s A sz \<longleftrightarrow> (\<forall>r < numRegions c. \<forall>j < 2 ^ find_smallest_block_level c sz.
     \<exists>b \<in> A. span (baddr c s r (j * block_size_for c sz), block_size_for c sz) \<inter> span b \<noteq> {})"

lemma cached_insert:
  assumes "l < numLevels c" "\<And>q k. q \<in> set (Z' k) \<longleftrightarrow> q \<in> set (Z k) \<or> (k = l \<and> q = p)"
  shows "cached c Z' = insert (p, bsize c l) (cached c Z)"
  unfolding cached_def assms(2) using assms(1) by blast

subsection \<open>Rounding to a power of two keeps the level\<close>

lemma block_size_level:
  assumes "cfg_ok c" "sz \<le> maxBlockSize c"
  shows "find_smallest_block_level c sz < numLevels c" "block_size_for c sz = bsize c (find_smallest_block_level c sz)"
    "sz \<le> block_size_for c sz"
  using find_level_best [OF assms] size_of_level_eq [OF assms(1)] level_le_max [OF assms(1)]
  by (auto simp: block_size_for_def)

lemma level_unique:
  assumes "cfg_ok c" "a \<le> b" "b \<le> block_size_for c a" "a \<le> maxBlockSize c" "b \<le> maxBlockSize c"
  shows "find_smallest_block_level c b = find_smallest_block_level c a"
proof -
  note a = find_level_best [OF assms(1,4)] and b = find_level_best [OF assms(1,5)]
  have "\<not> find_smallest_block_level c a < find_smallest_block_level c b"
    using a b assms(2) by (meson le_less_trans less_le_not_le le_trans)
  moreover have "\<not> find_smallest_block_level c b < find_smallest_block_level c a"
    using a b assms(3) by (auto simp: block_size_for_def)
  ultimately show ?thesis by simp
qed

lemma rup2_level:
  assumes "cfg_ok c" "sz \<le> maxBlockSize c"
  shows "find_smallest_block_level c (rup2 sz) = find_smallest_block_level c sz" "0 < rup2 sz" "rup2 sz \<le> maxBlockSize c"
proof -
  note k = cfg_okD [OF assms(1)] and b = block_size_level [OF assms]
  have m: "maxBlockSize c = 2 ^ maxBlockSizeLog2 c" by (rule maxBlockSize_eq [OF assms(1)])
  have "(2::nat) ^ maxBlockSizeLog2 c \<le> 2 ^ 31" using k(3) by (intro power_increasing) simp_all
  then have s: "sz \<le> 2 ^ 31" using assms(2) m by linarith
  then have u: "unat (word_of_nat sz :: u64) = sz" by (intro unat_of_nat_small) simp
  obtain e where e: "rup2 sz = 2 ^ e" "sz \<le> 2 ^ e" "\<forall>f. sz \<le> 2 ^ f \<longrightarrow> e \<le> f"
    using round_up_pow2_least [of "word_of_nat sz"] s by (auto simp: rup2_def u)
  have "e \<le> maxBlockSizeLog2 c - find_smallest_block_level c sz" using e(3) b(2,3) by (simp add: bsize_def)
  then have r: "rup2 sz \<le> block_size_for c sz" unfolding e(1) b(2) bsize_def by (rule power_increasing) simp
  have "bsize c (find_smallest_block_level c sz) \<le> bsize c 0" by (rule bsize_mono) simp
  then show "rup2 sz \<le> maxBlockSize c" using r b(2) by (simp add: m)
  then show "find_smallest_block_level c (rup2 sz) = find_smallest_block_level c sz"
    using level_unique [OF assms(1) _ r assms(2)] e by simp
  show "0 < rup2 sz" by (simp add: e(1))
qed

lemma level_of_bsize:
  assumes "cfg_ok c" "l < numLevels c"
  shows "block_size_for c (bsize c l) = bsize c l" "0 < bsize c l" "bsize c l \<le> maxBlockSize c"
proof -
  have le: "bsize c l \<le> maxBlockSize c" using bsize_mono [of 0 l c] by (simp add: maxBlockSize_eq [OF assms(1)])
  note b = block_size_level [OF assms(1) le] and f = find_level_best [OF assms(1) le]
  let ?k = "find_smallest_block_level c (bsize c l)"
  have "\<not> ?k < l" using f assms(2) size_of_level_eq [OF assms(1) level_le_max [OF assms]] by fastforce
  then have "bsize c ?k \<le> bsize c l" by (intro bsize_mono) simp
  then show "block_size_for c (bsize c l) = bsize c l" using b by simp
qed (use bsize_mono [of 0 l c] in \<open>simp_all add: maxBlockSize_eq [OF assms(1)]\<close>)

subsection \<open>A client\<close>

text \<open>A client of the public interface holds the blocks \<open>H\<close>, each with the size it asked for.
  \<open>Allocate\<close> comes with the locks that are contended at that moment; \<open>Release\<close> names a block
  by its position.\<close>

datatype client_op = Allocate nat "buddy_lock \<Rightarrow> bool" | Release nat | Aggregate

fun client_step ::
  "buddy_config \<Rightarrow> ((buddy_lock \<Rightarrow> bool) \<Rightarrow> ('a) buddy_scheme \<Rightarrow> nat \<Rightarrow> nat option \<times> ('a) buddy_scheme)
   \<Rightarrow> (('a) buddy_scheme \<Rightarrow> nat \<Rightarrow> nat \<Rightarrow> ('a) buddy_scheme) \<Rightarrow> client_op
   \<Rightarrow> ('a) buddy_scheme \<times> (nat \<times> nat) list \<Rightarrow> ('a) buddy_scheme \<times> (nat \<times> nat) list" where
  "client_step c alloc dealloc (Allocate sz k) (s, H) =
     (case buddy_allocate c k (alloc k) s sz of (Some p, s') \<Rightarrow> (s', H @ [(p, sz)]) | (None, s') \<Rightarrow> (s', H))"
| "client_step c alloc dealloc (Release i) (s, H) =
     (if i < length H
      then (buddy_deallocate_sized c dealloc s (fst (H ! i)) (snd (H ! i)), take i H @ drop (Suc i) H)
      else (s, H))"
| "client_step c alloc dealloc Aggregate (s, H) = (empty_lazy_list c dealloc s, H)"

definition client_run where
  "client_run c alloc dealloc ops sH = foldl (\<lambda>sH x. client_step c alloc dealloc x sH) sH ops"

text \<open>What every client may rely on.\<close>

definition blocks_apart :: "buddy_config \<Rightarrow> ('a) buddy_scheme \<times> (nat \<times> nat) list \<Rightarrow> bool" where
  "blocks_apart c sH \<longleftrightarrow>
     (\<forall>i < length (snd sH). span (snd sH ! i) \<subseteq> heap_range c (fst sH)
        \<and> (\<forall>j < i. span (snd sH ! i) \<inter> span (snd sH ! j) = {}))"

definition block_for :: "buddy_config \<Rightarrow> nat \<times> nat \<Rightarrow> nat \<times> nat" where
  "block_for c b = (fst b, block_size_for c (snd b))"

lemma small_block:
  assumes "cfg_ok c" "sz \<le> maxBlockSize c"
  shows "block_size_for c (max sz (minBlockSize c)) = block_size_for c sz"
proof -
  note b = block_size_level [OF assms] and k = cfg_okD [OF assms(1)]
  have "minBlockSize c \<le> block_size_for c sz"
  proof -
    have "minBlockSizeLog2 c \<le> maxBlockSizeLog2 c - find_smallest_block_level c sz"
      using b(1) k(2) numLevels_eq [OF assms(1)] by linarith
    then show ?thesis using b(2) by (simp add: minBlockSize_eq [OF assms(1)] bsize_def)
  qed
  moreover have "minBlockSize c \<le> maxBlockSize c"
    using k by (simp add: minBlockSize_eq [OF assms(1)] maxBlockSize_eq [OF assms(1)])
  ultimately have "find_smallest_block_level c (max sz (minBlockSize c)) = find_smallest_block_level c sz"
    using b(3) assms by (intro level_unique) auto
  then show ?thesis by (simp add: block_size_for_def)
qed

subsection \<open>The contract\<close>

locale buddy_backend =
  fixes c :: buddy_config
    and alloc :: "(buddy_lock \<Rightarrow> bool) \<Rightarrow> ('s) buddy_scheme \<Rightarrow> nat \<Rightarrow> nat option \<times> ('s) buddy_scheme"
    and dealloc :: "('s) buddy_scheme \<Rightarrow> nat \<Rightarrow> nat \<Rightarrow> ('s) buddy_scheme"
    and owns :: "('s) buddy_scheme \<Rightarrow> (nat \<times> nat) set \<Rightarrow> (nat \<Rightarrow> nat list) \<Rightarrow> bool"
  assumes cfg_law: "owns s A Z \<Longrightarrow> cfg_ok c"
    and placed_law: "owns s A Z \<Longrightarrow> placed c s"
    and lazy_law: "owns s A Z \<Longrightarrow> lazy_ok c s A Z"
    and heads_law: "owns s A Z \<Longrightarrow> lists_rep (lazy_heads c) (blinks s) (lazy_lists Z)"
    and disjoint_law: "owns s A Z \<Longrightarrow> a \<in> A \<Longrightarrow> b \<in> A \<Longrightarrow> a \<noteq> b \<Longrightarrow> span a \<inter> span b = {}"
    and within_law: "owns s A Z \<Longrightarrow> a \<in> A \<Longrightarrow> 0 < snd a \<and> span a \<subseteq> heap_range c s"
    and alloc_law: "owns s A Z \<Longrightarrow> sz \<le> maxBlockSize c \<Longrightarrow>
      case alloc k s sz of
        (Some p, s') \<Rightarrow> owns s' (insert (p, block_size_for c sz) A) Z \<and> (p, block_size_for c sz) \<notin> A \<and> bstart s' = bstart s
      | (None, s') \<Rightarrow> s' = s \<and> no_room c s A sz"
    and dealloc_law: "owns s A Z \<Longrightarrow> (p, block_size_for c sz) \<in> A \<Longrightarrow> (p, block_size_for c sz) \<notin> cached c Z \<Longrightarrow>
      0 < sz \<Longrightarrow> sz \<le> maxBlockSize c \<Longrightarrow>
      owns (dealloc s p sz) (A - {(p, block_size_for c sz)}) Z \<and> bstart (dealloc s p sz) = bstart s"
    and push_law: "owns s A Z \<Longrightarrow> l < numLevels c \<Longrightarrow> (p, bsize c l) \<in> A \<Longrightarrow> (p, bsize c l) \<notin> cached c Z \<Longrightarrow>
      owns (lazy_push s l p) A (Z(l := Z l @ [p]))"
    and pop_law: "owns s A Z \<Longrightarrow> l < numLevels c \<Longrightarrow> Z l = p # ps \<Longrightarrow> owns (lazy_pop s l) A (Z(l := ps))"
    and add_free_law: "owns s A Z \<Longrightarrow> owns (add_free_size s i n) A Z"
    and sub_free_law: "owns s A Z \<Longrightarrow> owns (sub_free_size s i n) A Z"
begin

lemma address_unique: "owns s A Z \<Longrightarrow> (p, n) \<in> A \<Longrightarrow> (p, m) \<in> A \<Longrightarrow> n = m"
  using disjoint_law [of s A Z "(p, n)" "(p, m)"] within_law [of s A Z "(p, n)"] within_law [of s A Z "(p, m)"]
  by (fastforce simp: span_def)

lemma cached_sub: "owns s A Z \<Longrightarrow> cached c Z \<subseteq> A"
  using lazy_law by (auto simp: cached_def lazy_ok_def)

lemma cached_level:
  assumes "owns s A Z" "l < numLevels c" "p \<in> set (Z l)" "k < numLevels c"
  shows "p \<in> set (Z k) \<longleftrightarrow> k = l"
proof
  assume k: "p \<in> set (Z k)"
  show "k = l"
  proof (rule ccontr)
    assume "k \<noteq> l"
    then have "set (LazyHead k # lazy_lists Z (LazyHead k)) \<inter> set (LazyHead l # lazy_lists Z (LazyHead l)) = {}"
      using lists_rep_disjoint [OF heads_law [OF assms(1)], of "LazyHead k" "LazyHead l"] assms(2,4)
      by (simp add: lazy_heads_def)
    then show False using k assms(3) by (auto simp: lazy_lists_def)
  qed
qed (use assms in simp)

lemma lazy_distinct: "owns s A Z \<Longrightarrow> l < numLevels c \<Longrightarrow> distinct (Z l)"
  using bl.distinct_law [OF heads_law, of s A Z "LazyHead l"] by (simp add: lazy_heads_def lazy_lists_def distinct_map)

lemma popped:
  assumes o: "owns s A Z" and l: "l < numLevels c" and z: "Z l = p # ps"
  shows "\<exists>t. pop_first (blinks s) (LazyHead l) = (Some (Block p), t)
       \<and> lazy_pop s l = s\<lparr>blinks := t, lazyListSize := (lazyListSize s)[l := lazyListSize s ! l - 1]\<rparr>"
    "(p, bsize c l) \<in> A" "(p, bsize c l) \<notin> held c A Z" "(p, bsize c l) \<notin> cached c (Z(l := ps))"
    "held c A (Z(l := ps)) = insert (p, bsize c l) (held c A Z)"
proof -
  have "LazyHead l \<in> lazy_heads c" "lazy_lists Z (LazyHead l) = Block p # map Block ps"
    using l z by (simp_all add: lazy_heads_def lazy_lists_def)
  from bl.pop_law [OF heads_law [OF o] this]
  show "\<exists>t. pop_first (blinks s) (LazyHead l) = (Some (Block p), t)
       \<and> lazy_pop s l = s\<lparr>blinks := t, lazyListSize := (lazyListSize s)[l := lazyListSize s ! l - 1]\<rparr>" by (auto simp: lazy_pop_def)
  show inA: "(p, bsize c l) \<in> A" using lazy_law [OF o] l z by (simp add: lazy_ok_def)
  have "p \<notin> set ps" using lazy_distinct [OF o l] z by simp
  moreover have "p \<notin> set (Z k)" if "k < numLevels c" "k \<noteq> l" for k
    using cached_level [OF o l _ that(1), of p] z that(2) by simp
  ultimately show n: "(p, bsize c l) \<notin> cached c (Z(l := ps))" by (auto simp: cached_def split: if_splits)
  have e: "cached c Z = insert (p, bsize c l) (cached c (Z(l := ps)))"
    by (rule cached_insert [OF l]) (use z in auto)
  then show "(p, bsize c l) \<notin> held c A Z" by (simp add: held_def)
  show "held c A (Z(l := ps)) = insert (p, bsize c l) (held c A Z)" using e n inA by (auto simp: held_def)
qed

text \<open>Allocation through the base class.\<close>

lemma allocate_correct:
  assumes o: "owns s A Z"
  shows "case buddy_allocate c k (alloc k) s sz of
      (Some p, s') \<Rightarrow> sz \<le> block_size_for c sz \<and> (p, block_size_for c sz) \<notin> held c A Z
        \<and> bstart s' = bstart s
        \<and> (\<exists>A' Z'. owns s' A' Z' \<and> held c A' Z' = insert (p, block_size_for c sz) (held c A Z))
    | (None, s') \<Rightarrow> s' = s \<and> (maxBlockSize c < sz \<or> no_room c s A sz)"
proof (cases "maxBlockSize c < sz")
  case True
  then show ?thesis by (simp add: buddy_allocate_def)
next
  case False
  let ?l = "find_smallest_block_level c sz"
  have sz: "sz \<le> maxBlockSize c" using False by simp
  note lv = block_size_level [OF cfg_law [OF o] sz]
  show ?thesis
  proof (cases "lazyListSize s ! ?l > 0 \<and> \<not> k (LazyLock ?l)")
    case True
    then have "Z ?l \<noteq> []" using lazy_law [OF o] lv(1) by (auto simp: lazy_ok_def)
    then obtain p ps where z: "Z ?l = p # ps" by (cases "Z ?l") auto
    note pp = popped [OF o lv(1) z]
    have "buddy_allocate c k (alloc k) s sz = (Some p, sub_free_size (lazy_pop s ?l) (numRegions c) (rup2 sz))"
      using True False pp(1) by (auto simp: buddy_allocate_def Let_def link_address_def)
    moreover have "owns (sub_free_size (lazy_pop s ?l) (numRegions c) (rup2 sz)) A (Z(?l := ps))"
      by (rule sub_free_law [OF pop_law [OF o lv(1) z]])
    moreover have "bstart (sub_free_size (lazy_pop s ?l) (numRegions c) (rup2 sz)) = bstart s"
      by (simp add: sub_free_size_def lazy_pop_def)
    ultimately show ?thesis using pp(3,5) lv(2,3) by auto
  next
    case no_lazy: False
    then have e: "buddy_allocate c k (alloc k) s sz = alloc k s sz" using False by (auto simp: buddy_allocate_def Let_def)
    obtain x s' where x: "alloc k s sz = (x, s')" by fastforce
    note al = alloc_law [OF o sz, of k]
    show ?thesis
    proof (cases x)
      case None
      then show ?thesis using al x e by simp
    next
      case (Some p)
      then have "held c (insert (p, block_size_for c sz) A) Z = insert (p, block_size_for c sz) (held c A Z)"
        using al x cached_sub [OF o] by (auto simp: held_def)
      then show ?thesis using al x e Some lv(3) by (auto simp: held_def)
    qed
  qed
qed

text \<open>Release through the base class.\<close>

lemma in_heap:
  assumes "owns s A Z" "(p, n) \<in> A"
  shows "\<not> (p = 0 \<or> p < bstart s \<or> p \<ge> w64 (bstart s + numRegions c * maxBlockSize c))"
proof -
  have pl: "placed c s" by (rule placed_law [OF assms(1)])
  have "p \<in> heap_range c s" using within_law [OF assms] by (auto simp: span_def)
  then show ?thesis using pl by (simp add: placed_def heap_range_def maxBlockSize_eq [OF cfg_law [OF assms(1)]] w64_id)
qed

lemma deallocate_correct:
  assumes o: "owns s A Z" and p: "(p, block_size_for c (max sz (minBlockSize c))) \<in> held c A Z" and sz: "sz \<le> maxBlockSize c"
  shows "\<exists>A' Z'. owns (buddy_deallocate_sized c dealloc s p sz) A' Z'
    \<and> held c A' Z' = held c A Z - {(p, block_size_for c (max sz (minBlockSize c)))}
    \<and> bstart (buddy_deallocate_sized c dealloc s p sz) = bstart s"
proof -
  define n where "n = max sz (minBlockSize c)"
  let ?l = "find_smallest_block_level c n"
  have "minBlockSize c \<le> maxBlockSize c"
    using cfg_okD [OF cfg_law [OF o]] by (simp add: minBlockSize_eq [OF cfg_law [OF o]] maxBlockSize_eq [OF cfg_law [OF o]])
  then have n: "n \<le> maxBlockSize c" using sz by (simp add: n_def)
  note lv = block_size_level [OF cfg_law [OF o] n] and ru = rup2_level [OF cfg_law [OF o] n]
  have inA: "(p, block_size_for c n) \<in> A" "(p, block_size_for c n) \<notin> cached c Z"
    using p by (simp_all add: held_def n_def)
  have nn: "(if sz < minBlockSize c then minBlockSize c else sz) = n" by (simp add: n_def)
  have e: "buddy_deallocate_sized c dealloc s p sz = (if lazyListSize s ! ?l < lazyThresholds s ! ?l
      then add_free_size (lazy_push s ?l p) (numRegions c) (rup2 n) else dealloc s p (rup2 n))"
    using in_heap [OF o inA(1)] unfolding buddy_deallocate_sized_def nn lazy_push_def Let_def by simp
  show ?thesis
  proof (cases "lazyListSize s ! ?l < lazyThresholds s ! ?l")
    case True
    have "owns (add_free_size (lazy_push s ?l p) (numRegions c) (rup2 n)) A (Z(?l := Z ?l @ [p]))"
      using add_free_law [OF push_law [OF o lv(1)]] inA lv(2) by simp
    moreover have "cached c (Z(?l := Z ?l @ [p])) = insert (p, block_size_for c n) (cached c Z)"
      unfolding lv(2) by (rule cached_insert [OF lv(1)]) auto
    then have "held c A (Z(?l := Z ?l @ [p])) = held c A Z - {(p, block_size_for c n)}" by (auto simp: held_def)
    ultimately show ?thesis using True e unfolding n_def [symmetric]
      by (auto simp: add_free_size_def lazy_push_def)
  next
    case False
    have rs: "block_size_for c (rup2 n) = block_size_for c n" using ru(1) by (simp add: block_size_for_def)
    have "owns (dealloc s p (rup2 n)) (A - {(p, block_size_for c n)}) Z \<and> bstart (dealloc s p (rup2 n)) = bstart s"
      using dealloc_law [OF o, of p "rup2 n"] inA ru(2,3) unfolding rs by simp
    moreover have "held c (A - {(p, block_size_for c n)}) Z = held c A Z - {(p, block_size_for c n)}"
      by (auto simp: held_def)
    ultimately show ?thesis using False e unfolding n_def [symmetric] by auto
  qed
qed

text \<open>Emptying the lazy lists gives every cached block back and leaves the client's alone.\<close>

lemma empty_level_correct:
  "owns s A Z \<Longrightarrow> l < numLevels c \<Longrightarrow> m = length (Z l) \<Longrightarrow>
    \<exists>A'. owns (empty_lazy_level c dealloc l m s) A' (Z(l := [])) \<and> held c A' (Z(l := [])) = held c A Z
      \<and> bstart (empty_lazy_level c dealloc l m s) = bstart s"
proof (induction m arbitrary: s A Z)
  case 0
  then show ?case by (intro exI [of _ A]) (simp add: fun_upd_idem)
next
  case (Suc m)
  note o = Suc.prems(1) and l = Suc.prems(2)
  obtain p ps where z: "Z l = p # ps" using Suc.prems(3) by (cases "Z l") auto
  note pp = popped [OF o l z] and lb = level_of_bsize [OF cfg_law [OF o] l]
  have pos: "lazyListSize s ! l > 0" using lazy_law [OF o] l z by (simp add: lazy_ok_def)
  have sl: "size_of_level c l = bsize c l" using size_of_level_eq [OF cfg_law [OF o] level_le_max [OF cfg_law [OF o] l]] .
  let ?s1 = "lazy_pop s l" and ?Z1 = "Z(l := ps)" and ?A1 = "A - {(p, bsize c l)}"
  have o1: "owns ?s1 A ?Z1" by (rule pop_law [OF o l z])
  have d: "owns (dealloc ?s1 p (bsize c l)) ?A1 ?Z1 \<and> bstart (dealloc ?s1 p (bsize c l)) = bstart ?s1"
    using dealloc_law [OF o1, of p "bsize c l"] pp(2,4) lb by simp
  let ?s2 = "sub_free_size (dealloc ?s1 p (bsize c l)) (numRegions c) (bsize c l)"
  have o2: "owns ?s2 ?A1 ?Z1" using sub_free_law d by blast
  have st: "empty_lazy_level c dealloc l (Suc m) s = empty_lazy_level c dealloc l m ?s2"
    using pos pp(1) by (auto simp: link_address_def sl Let_def)
  have h: "held c ?A1 ?Z1 = held c A Z" using pp(3,5) by (auto simp: held_def)
  have "m = length (?Z1 l)" using Suc.prems(3) z by simp
  from Suc.IH [OF o2 l this]
  obtain A' where ih: "owns (empty_lazy_level c dealloc l m ?s2) A' (Z(l := []))" "held c A' (Z(l := [])) = held c A Z"
    "bstart (empty_lazy_level c dealloc l m ?s2) = bstart ?s2"
    unfolding fun_upd_upd h by blast
  have "bstart ?s2 = bstart (dealloc ?s1 p (bsize c l))" "bstart ?s1 = bstart s"
    by (simp_all add: sub_free_size_def lazy_pop_def)
  then show ?case unfolding st using ih d by (intro exI [of _ A'] conjI) (assumption | simp only:)+
qed

lemma aggregate_levels:
  "owns s A Z \<Longrightarrow> set ls \<subseteq> {..< numLevels c} \<Longrightarrow>
    \<exists>A' Z'. owns (foldl (\<lambda>s l. empty_lazy_level c dealloc l (lazyListSize s ! l) s) s ls) A' Z' \<and> held c A' Z' = held c A Z
      \<and> (\<forall>l. Z' l = (if l \<in> set ls then [] else Z l))
      \<and> bstart (foldl (\<lambda>s l. empty_lazy_level c dealloc l (lazyListSize s ! l) s) s ls) = bstart s"
proof (induction ls arbitrary: s A Z)
  case (Cons l ls)
  have l: "l < numLevels c" "set ls \<subseteq> {..< numLevels c}" using Cons.prems(2) by simp_all
  have m: "lazyListSize s ! l = length (Z l)" using lazy_law [OF Cons.prems(1)] l by (simp add: lazy_ok_def)
  let ?s = "empty_lazy_level c dealloc l (lazyListSize s ! l) s"
  obtain A1 where a: "owns ?s A1 (Z(l := []))" "held c A1 (Z(l := [])) = held c A Z" "bstart ?s = bstart s"
    using empty_level_correct [OF Cons.prems(1) l(1) m] by blast
  from Cons.IH [OF a(1) l(2)] obtain A' Z' where h:
    "owns (foldl (\<lambda>s l. empty_lazy_level c dealloc l (lazyListSize s ! l) s) ?s ls) A' Z'" "held c A' Z' = held c A Z"
    "\<forall>k. Z' k = (if k \<in> set ls then [] else (Z(l := [])) k)"
    "bstart (foldl (\<lambda>s l. empty_lazy_level c dealloc l (lazyListSize s ! l) s) ?s ls) = bstart s"
    unfolding a(2,3) by blast
  have "\<forall>k. Z' k = (if k \<in> set (l # ls) then [] else Z k)" using h(3) by simp
  then show ?case using h(1,2,4) unfolding foldl.simps by blast
qed auto

lemma aggregate_correct:
  assumes o: "owns s A Z"
  shows "\<exists>Z'. owns (empty_lazy_list c dealloc s) (held c A Z) Z' \<and> (\<forall>l < numLevels c. Z' l = [])
    \<and> bstart (empty_lazy_list c dealloc s) = bstart s"
proof -
  have sub: "set [0..<numLevels c] \<subseteq> {..< numLevels c}" by auto
  from aggregate_levels [OF o sub]
  obtain A' Z' where h: "owns (empty_lazy_list c dealloc s) A' Z'" "held c A' Z' = held c A Z"
    "\<forall>l. Z' l = (if l \<in> set [0..<numLevels c] then [] else Z l)" "bstart (empty_lazy_list c dealloc s) = bstart s"
    unfolding empty_lazy_list_def by blast
  then have "cached c Z' = {}" by (auto simp: cached_def)
  then show ?thesis using h by (intro exI [of _ Z']) (auto simp: held_def)
qed


text \<open>Any sequence of operations.\<close>

definition client_ok :: "('s) buddy_scheme \<times> (nat \<times> nat) list \<Rightarrow> bool" where
  "client_ok sH \<longleftrightarrow> (\<exists>A Z. owns (fst sH) A Z \<and> set (map (block_for c) (snd sH)) = held c A Z
     \<and> distinct (map (block_for c) (snd sH)) \<and> (\<forall>b \<in> set (snd sH). snd b \<le> maxBlockSize c))"

lemma step_ok:
  assumes ok: "client_ok (s, H)"
  shows "client_ok (client_step c alloc dealloc x (s, H)) \<and> bstart (fst (client_step c alloc dealloc x (s, H))) = bstart s"
proof -
  obtain A Z where h: "owns s A Z" "set (map (block_for c) H) = held c A Z" "distinct (map (block_for c) H)"
    "\<forall>b \<in> set H. snd b \<le> maxBlockSize c" using ok by (auto simp: client_ok_def)
  show ?thesis
  proof (cases x)
    case (Allocate sz k)
    obtain y s' where y: "buddy_allocate c k (alloc k) s sz = (y, s')" by fastforce
    note al = allocate_correct [OF h(1), of sz k, unfolded y]
    show ?thesis
    proof (cases y)
      case None
      then show ?thesis using Allocate y al ok by simp
    next
      case (Some p)
      then obtain A' Z' where a: "owns s' A' Z'" "held c A' Z' = insert (p, block_size_for c sz) (held c A Z)"
        "(p, block_size_for c sz) \<notin> held c A Z" "bstart s' = bstart s" using al by auto
      have "sz \<le> maxBlockSize c" using y Some by (auto simp: buddy_allocate_def split: if_splits)
      then have "client_ok (s', H @ [(p, sz)])"
        unfolding client_ok_def using a h by (intro exI [of _ A'] exI [of _ Z']) (auto simp: block_for_def)
      then show ?thesis using Allocate y Some a(4) by simp
    qed
  next
    case (Release i)
    show ?thesis
    proof (cases "i < length H")
      case True
      obtain p sz where b: "H ! i = (p, sz)" by fastforce
      have sz: "sz \<le> maxBlockSize c" using h(4) True b by (metis nth_mem snd_conv)
      let ?n = "block_size_for c sz" and ?H = "take i H @ drop (Suc i) H"
      have n: "block_size_for c (max sz (minBlockSize c)) = ?n" by (rule small_block [OF cfg_law [OF h(1)] sz])
      have bi: "block_for c (H ! i) = (p, ?n)" by (simp add: block_for_def b)
      have "block_for c (H ! i) \<in> set (map (block_for c) H)" using True by simp
      then have "(p, ?n) \<in> held c A Z" unfolding h(2) bi .
      then obtain A' Z' where a: "owns (buddy_deallocate_sized c dealloc s p sz) A' Z'"
        "held c A' Z' = held c A Z - {(p, ?n)}" "bstart (buddy_deallocate_sized c dealloc s p sz) = bstart s"
        using deallocate_correct [OF h(1), of p sz] sz unfolding n by blast
      have e: "map (block_for c) H = map (block_for c) (take i H) @ (p, ?n) # map (block_for c) (drop (Suc i) H)"
        using True bi by (metis id_take_nth_drop list.simps(9) map_append)
      then have d: "set (map (block_for c) ?H) = held c A Z - {(p, ?n)}" "distinct (map (block_for c) ?H)"
        using h(2,3) by auto
      have "\<forall>b \<in> set ?H. snd b \<le> maxBlockSize c" using h(4) by (auto dest: in_set_takeD in_set_dropD)
      then have "client_ok (buddy_deallocate_sized c dealloc s p sz, ?H)"
        unfolding client_ok_def using a(1,2) d by (intro exI [of _ A'] exI [of _ Z']) simp
      then show ?thesis using Release True b a(3) by simp
    qed (use ok Release in simp)
  next
    case Aggregate
    obtain Z' where a: "owns (empty_lazy_list c dealloc s) (held c A Z) Z'" "\<forall>l < numLevels c. Z' l = []"
      "bstart (empty_lazy_list c dealloc s) = bstart s" using aggregate_correct [OF h(1)] by blast
    have "held c (held c A Z) Z' = held c A Z" using a(2) by (auto simp: held_def cached_def)
    then have "client_ok (empty_lazy_list c dealloc s, H)"
      unfolding client_ok_def using a h by (intro exI [of _ "held c A Z"] exI [of _ Z']) simp
    then show ?thesis using Aggregate a(3) by simp
  qed
qed

lemma run_ok: "client_ok sH \<Longrightarrow> client_ok (client_run c alloc dealloc ops sH)"
proof (induction ops arbitrary: sH)
  case (Cons x ops)
  then have "client_ok (client_step c alloc dealloc x sH)" using step_ok by (cases sH) blast
  then show ?case using Cons.IH by (simp add: client_run_def)
qed (simp add: client_run_def)

lemma client_apart:
  assumes "client_ok sH"
  shows "blocks_apart c sH"
proof -
  obtain s H where sH: "sH = (s, H)" by fastforce
  obtain A Z where h: "owns s A Z" "set (map (block_for c) H) = held c A Z" "distinct (map (block_for c) H)"
    "\<forall>b \<in> set H. snd b \<le> maxBlockSize c" using assms by (auto simp: client_ok_def sH)
  have inside: "span (H ! i) \<subseteq> span (block_for c (H ! i))" if "i < length H" for i
    using block_size_level(3) [OF cfg_law [OF h(1)], of "snd (H ! i)"] h(4) that by (auto simp: span_def block_for_def)
  have inA: "block_for c (H ! i) \<in> A" if "i < length H" for i
  proof -
    have "block_for c (H ! i) \<in> held c A Z" unfolding h(2) [symmetric] using that by simp
    then show ?thesis by (simp add: held_def)
  qed
  have "span (H ! i) \<subseteq> heap_range c s" if "i < length H" for i
    using inside [OF that] within_law [OF h(1) inA [OF that]] by blast
  moreover have "span (H ! i) \<inter> span (H ! j) = {}" if "i < length H" "j < i" for i j
  proof -
    have j: "j < length H" using that by simp
    have "block_for c (H ! i) \<noteq> block_for c (H ! j)"
      using nth_eq_iff_index_eq [OF h(3), of i j] that by simp
    then have "span (block_for c (H ! i)) \<inter> span (block_for c (H ! j)) = {}"
      by (rule disjoint_law [OF h(1) inA [OF that(1)] inA [OF j]])
    then show ?thesis using inside [OF that(1)] inside [OF j] by blast
  qed
  ultimately show ?thesis by (simp add: blocks_apart_def sH)
qed

lemma run_apart:
  assumes "owns s {} Z" "\<forall>l < numLevels c. Z l = []"
  shows "blocks_apart c (client_run c alloc dealloc ops (s, []))"
proof -
  have "client_ok (s, [])" unfolding client_ok_def using assms by (auto simp: held_def)
  then show ?thesis by (rule client_apart [OF run_ok])
qed

end

end
