(* ===== verification/Bb_Public.thy ===== *)
theory Bb_Public
  imports Bb_Free Bt_Init Buddy_Contract
begin

text \<open>
  The binary buddy allocator meets the contract of the base class: its public operations
  never hand out overlapping blocks, release exactly the block they are given, and fail only
  when no aligned block of the size is left.
\<close>

subsection \<open>Blocks in bytes\<close>

definition unit_blk :: "nat \<Rightarrow> node \<Rightarrow> nat \<times> nat" where
  "unit_blk n b = (snd b * 2 ^ (n - 1 - fst b), n - fst b)"

definition bb_blk :: "buddy_config \<Rightarrow> ('a) buddy_scheme \<Rightarrow> nat \<Rightarrow> node \<Rightarrow> nat \<times> nat" where
  "bb_blk c s r b = (naddr c s r b, bsize c (fst b))"

lemma unit_blk_ok:
  assumes "node_ok (numLevels c) b"
  shows "in_region c (unit_blk (numLevels c) b)" "covers (unit_blk (numLevels c) b) = nspan (numLevels c) b"
proof -
  obtain l i where b: "b = (l, i)" by (cases b)
  have l: "l < numLevels c" "i < 2 ^ l" using assms by (simp_all add: b node_ok_def)
  then obtain d where d: "numLevels c = Suc (l + d)" using less_iff_Suc_add by auto
  have "Suc i * 2 ^ d \<le> 2 ^ l * 2 ^ d" using l(2) by (intro mult_le_mono1) simp
  then show "in_region c (unit_blk (numLevels c) b)"
    by (simp add: in_region_def unit_blk_def b d power_add)
  show "covers (unit_blk (numLevels c) b) = nspan (numLevels c) b"
    by (simp add: covers_def unit_blk_def nspan_interval b d add.commute)
qed

lemma bb_blk_bytes:
  assumes "cfg_ok c" "node_ok (numLevels c) b"
  shows "bb_blk c s r b = byte_blk c s r (unit_blk (numLevels c) b)"
  using assms(2) by (simp add: bb_blk_def byte_blk_def unit_blk_def naddr_def bsize_units [OF assms(1)] node_ok_def mult.assoc)

lemma bb_blk_span:
  assumes "cfg_ok c" "node_ok (numLevels c) a" "node_ok (numLevels c) b"
  shows "span (bb_blk c s r a) \<inter> span (bb_blk c s r' b) = {} \<longleftrightarrow> r \<noteq> r' \<or> nspan (numLevels c) a \<inter> nspan (numLevels c) b = {}"
proof -
  note u = unit_blk_ok [OF assms(2)] unit_blk_ok [OF assms(3)]
  show ?thesis
  proof (cases "r = r'")
    case True
    then show ?thesis
      unfolding bb_blk_bytes [OF assms(1,2)] bb_blk_bytes [OF assms(1,3)]
      using span_same_region [of "unit_blk (numLevels c) a" "unit_blk (numLevels c) b" c s r] u by (simp add: in_region_def)
  next
    case False
    then show ?thesis
      unfolding bb_blk_bytes [OF assms(1,2)] bb_blk_bytes [OF assms(1,3)]
      using span_other_region [OF assms(1) u(1,3) False] by simp
  qed
qed

lemma bb_blk_pos [simp]: "0 < snd (bb_blk c s r b)"
  by (simp add: bb_blk_def)

lemma bb_blk_heap:
  assumes "cfg_ok c" "node_ok (numLevels c) b" "r < numRegions c"
  shows "span (bb_blk c s r b) \<subseteq> heap_range c s"
proof -
  have "Suc r * 2 ^ maxBlockSizeLog2 c \<le> numRegions c * 2 ^ maxBlockSizeLog2 c" using assms(3) by (intro mult_le_mono1) simp
  then have "baddr c s (Suc r) 0 \<le> bstart s + numRegions c * 2 ^ maxBlockSizeLog2 c" "bstart s \<le> baddr c s r 0"
    by (simp_all add: baddr_def)
  then show ?thesis
    using span_region [OF assms(1) unit_blk_ok(1) [OF assms(2)], of s r] bb_blk_bytes [OF assms(1,2), of s r]
    by (auto simp: heap_range_def)
qed

lemma uaddr_inj:
  assumes "cfg_ok c" "placed c s" "r < numRegions c" "r' < numRegions c" "u < 2 ^ (numLevels c - 1)" "v < 2 ^ (numLevels c - 1)"
    "uaddr c s r u = uaddr c s r' v"
  shows "r = r' \<and> u = v"
proof -
  have o: "x * 2 ^ minBlockSizeLog2 c < 2 ^ maxBlockSizeLog2 c" if "x < 2 ^ (numLevels c - 1)" for x :: nat
    unfolding region_units [OF assms(1)] using that by simp
  have "r = r'" using get_region_baddr [OF assms(1,2,3) o [OF assms(5)]] get_region_baddr [OF assms(1,2,4) o [OF assms(6)]] assms(7)
    by (simp add: uaddr_def)
  then show ?thesis using assms(7) by (simp add: uaddr_def baddr_def)
qed

lemma nspan_bound:
  assumes "node_ok n b" "u \<in> nspan n b"
  shows "u < 2 ^ (n - 1)"
proof -
  have n: "fst b < n" "snd b < 2 ^ fst b" using assms(1) by (simp_all add: node_ok_def)
  have "Suc (snd b) * 2 ^ (n - 1 - fst b) \<le> 2 ^ fst b * 2 ^ (n - 1 - fst b)" using n(2) by (intro mult_le_mono1) simp
  also have "\<dots> = 2 ^ (n - 1)" using n(1) by (simp flip: power_add)
  finally show ?thesis using assms(2) by (simp add: nspan_interval)
qed

lemma bsize_inj: "cfg_ok c \<Longrightarrow> l < numLevels c \<Longrightarrow> k < numLevels c \<Longrightarrow> bsize c l = bsize c k \<Longrightarrow> l = k"
  using level_le_max [of c l] level_le_max [of c k] by (auto simp: bsize_def)

subsection \<open>The invariant\<close>

text \<open>\<open>B r\<close> are the blocks of region \<open>r\<close> that are handed out; they and the free blocks tile it.\<close>

definition bb_tiled :: "buddy_config \<Rightarrow> (nat \<Rightarrow> nat \<Rightarrow> nat list) \<Rightarrow> (nat \<Rightarrow> node set) \<Rightarrow> bool" where
  "bb_tiled c X B \<longleftrightarrow> (\<forall>r < numRegions c. nodes_ok (numLevels c) (B r)
     \<and> region_units_of c X r = {..< 2 ^ (numLevels c - 1)} - free_units (numLevels c) (B r))"

definition bb_blocks :: "buddy_config \<Rightarrow> ('a) buddy_scheme \<Rightarrow> (nat \<Rightarrow> node set) \<Rightarrow> (nat \<times> nat) set" where
  "bb_blocks c s B = (\<Union>r < numRegions c. bb_blk c s r ` B r)"

definition bb_owns :: "buddy_config \<Rightarrow> ('a) buddy_scheme \<Rightarrow> (nat \<times> nat) set \<Rightarrow> (nat \<Rightarrow> nat list) \<Rightarrow> bool" where
  "bb_owns c s A Z \<longleftrightarrow> bb_cfg c \<and> lazy_ok c s A Z
     \<and> (\<exists>X B. bb_inv c s X Z \<and> bb_tiled c X B \<and> A = bb_blocks c s B)"

lemma bb_blk_cong: "bstart s' = bstart s \<Longrightarrow> bb_blk c s' = bb_blk c s"
  by (simp add: bb_blk_def fun_eq_iff naddr_def baddr_def)

lemma bb_blocks_cong: "bstart s' = bstart s \<Longrightarrow> bb_blocks c s' B = bb_blocks c s B"
  unfolding bb_blocks_def using bb_blk_cong by metis

lemma bb_tiledD:
  assumes "bb_tiled c X B" "r < numRegions c" "b \<in> B r"
  shows "node_ok (numLevels c) b" "nspan (numLevels c) b \<inter> region_units_of c X r = {}"
  using assms by (auto simp: bb_tiled_def nodes_ok_def free_units_def)

lemma bb_invD: "bb_inv c s X Z \<Longrightarrow> placed c s" "bb_inv c s X Z \<Longrightarrow> bb_links c s X Z"
  "bb_inv c s X Z \<Longrightarrow> r < numRegions c \<Longrightarrow> nodes_ok (numLevels c) (free_nodes c X r)"
  by (simp_all add: bb_inv_def bb_gen_def)

text \<open>A cached block that starts inside a handed-out block is this block.\<close>

lemma cached_is_block:
  assumes c: "bb_cfg c" and inv: "bb_inv c s X Z" and ti: "bb_tiled c X B" and lz: "lazy_ok c s (bb_blocks c s B) Z"
    and r: "r < numRegions c" and b: "b \<in> B r" and u: "u \<in> nspan (numLevels c) b" and l: "l < numLevels c"
    and z: "uaddr c s r u \<in> set (Z l)"
  shows "(naddr c s r b, bsize c (fst b)) \<in> cached c Z"
proof -
  note cf = bb_cfgD [OF c]
  have "(uaddr c s r u, bsize c l) \<in> bb_blocks c s B" using lz l z by (simp add: lazy_ok_def)
  then obtain r' a where a: "r' < numRegions c" "a \<in> B r'" "naddr c s r' a = uaddr c s r u" "bsize c (fst a) = bsize c l"
    by (auto simp: bb_blocks_def bb_blk_def)
  have na: "node_ok (numLevels c) a" and nb: "node_ok (numLevels c) b"
    using bb_tiledD(1) [OF ti a(1,2)] bb_tiledD(1) [OF ti r b] by simp_all
  note un = naddr_unit(1) [OF cf(1) na, of s r'] naddr_unit(2) [OF cf(1) na]
  have "r' = r \<and> snd a * 2 ^ (numLevels c - 1 - fst a) = u"
    by (rule uaddr_inj [OF cf(1) bb_invD(1) [OF inv] a(1) r nspan_bound [OF na un(2)] nspan_bound [OF nb u]]) (use un(1) a(3) in simp)
  then have "u \<in> nspan (numLevels c) a" "r' = r" using un(2) by simp_all
  then have "a = b" using ti r a(2) b u by (auto simp: bb_tiled_def nodes_ok_def)
  then show ?thesis using a(3,4) l z \<open>r' = r\<close> by (auto simp: cached_def)
qed

lemma block_apart:
  assumes "bb_cfg c" "bb_inv c s X Z" "bb_tiled c X B" "lazy_ok c s (bb_blocks c s B) Z" "r < numRegions c" "b \<in> B r"
    "bb_blk c s r b \<notin> cached c Z"
  shows "lazy_apart c s r (nspan (numLevels c) b) Z"
  using cached_is_block [OF assms(1-6)] assms(7) by (auto simp: lazy_apart_def bb_blk_def)

subsection \<open>The laws of the contract\<close>

lemma lazy_heads_sub: "lazy_heads c \<subseteq> bb_heads c"
  by (auto simp: lazy_heads_def bb_heads_def)

lemma bb_lists_lazy: "h \<in> lazy_heads c \<Longrightarrow> bb_lists c s X Z h = lazy_lists Z h"
  by (auto simp: lazy_heads_def bb_lists_def lazy_lists_def)

lemma lists_rep_part:
  assumes "lists_rep H t L" "K \<subseteq> H" "\<And>h. h \<in> K \<Longrightarrow> M h = L h"
  shows "lists_rep K t M"
  unfolding lists_rep_def
proof (intro conjI ballI impI)
  fix h k assume h: "h \<in> K"
  then have H: "h \<in> H" using assms(2) by blast
  show "dll t h (M h)" using lists_rep_dll [OF assms(1) H] assms(3) [OF h] by simp
  assume k: "k \<in> K" and ne: "h \<noteq> k"
  have "k \<in> H" using k assms(2) by blast
  from lists_rep_disjoint [OF assms(1) H this ne] show "set (h # M h) \<inter> set (k # M k) = {}"
    using assms(3) [OF h] assms(3) [OF k] by simp
qed

lemma bb_heads_law:
  assumes "bb_owns c s A Z"
  shows "lists_rep (lazy_heads c) (blinks s) (lazy_lists Z)"
proof -
  obtain X where "lists_rep (bb_heads c) (blinks s) (bb_lists c s X Z)"
    using assms by (auto simp: bb_owns_def bb_inv_def bb_gen_def bb_links_def)
  then show ?thesis by (rule lists_rep_part [OF _ lazy_heads_sub]) (simp add: bb_lists_lazy)
qed

lemma bb_disjoint:
  assumes "bb_owns c s A Z" "a \<in> A" "b \<in> A" "a \<noteq> b"
  shows "span a \<inter> span b = {}"
proof -
  obtain X B where o: "bb_cfg c" "bb_inv c s X Z" "bb_tiled c X B" "A = bb_blocks c s B" using assms(1) by (auto simp: bb_owns_def)
  obtain r x r' y where x: "r < numRegions c" "x \<in> B r" "a = bb_blk c s r x" and y: "r' < numRegions c" "y \<in> B r'" "b = bb_blk c s r' y"
    using assms(2,3) by (auto simp: o(4) bb_blocks_def)
  have "r \<noteq> r' \<or> nspan (numLevels c) x \<inter> nspan (numLevels c) y = {}"
  proof (cases "r = r'")
    case True
    then have "x \<noteq> y" using x(3) y(3) assms(4) by auto
    moreover have "nodes_ok (numLevels c) (B r)" using o(3) x(1) by (simp add: bb_tiled_def)
    ultimately show ?thesis using x(2) y(2) True by (auto simp: nodes_ok_def)
  qed simp
  then show ?thesis
    using bb_blk_span [OF bb_cfgD(1) [OF o(1)] bb_tiledD(1) [OF o(3) x(1,2)] bb_tiledD(1) [OF o(3) y(1,2)], where s = s and r = r and r' = r'] x(3) y(3) by simp
qed

lemma bb_within:
  assumes "bb_owns c s A Z" "a \<in> A"
  shows "0 < snd a \<and> span a \<subseteq> heap_range c s"
proof -
  obtain X B where o: "bb_cfg c" "bb_tiled c X B" "A = bb_blocks c s B" using assms(1) by (auto simp: bb_owns_def)
  obtain r x where x: "r < numRegions c" "x \<in> B r" "a = bb_blk c s r x" using assms(2) by (auto simp: o(3) bb_blocks_def)
  then show ?thesis using bb_blk_heap [OF bb_cfgD(1) [OF o(1)] bb_tiledD(1) [OF o(2) x(1,2)] x(1)] by simp
qed

lemma lazy_ok_mono: "lazy_ok c s A Z \<Longrightarrow> lazy_same s s' \<Longrightarrow> A \<subseteq> A' \<Longrightarrow> lazy_ok c s' A' Z"
  by (auto simp: lazy_ok_def lazy_same_def)

lemma bb_blocks_insert:
  assumes "r < numRegions c"
  shows "bb_blocks c s (B(r := insert b (B r))) = insert (bb_blk c s r b) (bb_blocks c s B)"
proof -
  have e: "{..< numRegions c} = insert r ({..< numRegions c} - {r})" using assms by auto
  have "bb_blocks c s D = bb_blk c s r ` D r \<union> (\<Union>i \<in> {..< numRegions c} - {r}. bb_blk c s i ` D i)" for D
    unfolding bb_blocks_def by (subst e) (simp only: UN_insert)
  then show ?thesis by simp
qed

lemma bb_alloc_some:
  assumes o: "bb_owns c s A Z" and sz: "sz \<le> maxBlockSize c" and took: "bb_took c s X Z (find_smallest_block_level c sz) p s'"
    and X: "bb_inv c s X Z" "bb_tiled c X B" "A = bb_blocks c s B"
  shows "bb_owns c s' (insert (p, block_size_for c sz) A) Z \<and> (p, block_size_for c sz) \<notin> A \<and> bstart s' = bstart s"
proof -
  let ?N = "numLevels c" and ?l = "find_smallest_block_level c sz"
  have c: "bb_cfg c" and lz: "lazy_ok c s A Z" using o by (simp_all add: bb_owns_def)
  note cf = bb_cfgD [OF c] and lv = block_size_level [OF cf(1) sz]
  obtain X' r i where t: "r < numRegions c" "node_ok ?N (?l, i)" "p = naddr c s r (?l, i)"
    "nspan ?N (?l, i) \<subseteq> region_units_of c X r" "bb_inv c s' X' Z" "lazy_same s s'"
    "\<forall>r' < numRegions c. region_units_of c X' r' = region_units_of c X r' - (if r' = r then nspan ?N (?l, i) else {})"
    using took by (auto simp: bb_took_def)
  let ?B = "B(r := insert (?l, i) (B r))"
  have st: "bstart s' = bstart s" using t(6) by (simp add: lazy_same_def)
  have blk: "(p, block_size_for c sz) = bb_blk c s r (?l, i)" using t(3) lv(2) by (simp add: bb_blk_def)
  have disj: "nspan ?N (?l, i) \<inter> free_units ?N (B r) = {}" using t(1,4) X(2) by (auto simp: bb_tiled_def)
  have "nodes_ok ?N (?B r')" if "r' < numRegions c" for r'
    using nodes_ok_insert [OF _ t(2) disj] X(2) that by (simp add: bb_tiled_def)
  moreover have "region_units_of c X' r' = {..< 2 ^ (?N - 1)} - free_units ?N (?B r')" if "r' < numRegions c" for r'
    using t(7) X(2) that by (auto simp: bb_tiled_def units_insert)
  ultimately have "bb_tiled c X' ?B" by (simp add: bb_tiled_def)
  moreover have A': "insert (p, block_size_for c sz) A = bb_blocks c s' ?B"
    unfolding bb_blocks_cong [OF st] bb_blocks_insert [OF t(1)] X(3) blk ..
  moreover have "lazy_ok c s' (insert (p, block_size_for c sz) A) Z" by (rule lazy_ok_mono [OF lz t(6)]) blast
  moreover have "(p, block_size_for c sz) \<notin> A"
  proof
    assume "(p, block_size_for c sz) \<in> A"
    then obtain r' a where a: "r' < numRegions c" "a \<in> B r'" "bb_blk c s r (?l, i) = bb_blk c s r' a"
      unfolding blk X(3) bb_blocks_def by auto
    have "span (bb_blk c s r (?l, i)) \<inter> span (bb_blk c s r' a) \<noteq> {}" unfolding a(3) [symmetric]
      using bb_blk_pos [of c s r "(?l, i)"] by (simp add: span_def)
    then have "r = r'" "nspan ?N (?l, i) \<inter> nspan ?N a \<noteq> {}"
      using bb_blk_span [OF cf(1) t(2) bb_tiledD(1) [OF X(2) a(1,2)], where s = s and r = r and r' = r'] by simp_all
    then show False using disj a(2) by (auto simp: free_units_def)
  qed
  ultimately show ?thesis using t(5) c st unfolding bb_owns_def by blast
qed

lemma bb_alloc_law:
  assumes o: "bb_owns c s A Z" and sz: "sz \<le> maxBlockSize c"
  shows "case bb_alloc c k s sz of
      (Some p, s') \<Rightarrow> bb_owns c s' (insert (p, block_size_for c sz) A) Z \<and> (p, block_size_for c sz) \<notin> A \<and> bstart s' = bstart s
    | (None, s') \<Rightarrow> s' = s \<and> no_room c s A sz"
proof -
  let ?N = "numLevels c" and ?l = "find_smallest_block_level c sz"
  obtain X B where X: "bb_inv c s X Z" "bb_tiled c X B" "A = bb_blocks c s B" and c: "bb_cfg c" using o by (auto simp: bb_owns_def)
  note cf = bb_cfgD [OF c] and lv = block_size_level [OF cf(1) sz]
  obtain x s' where res: "bb_allocate_internal c k s sz = Some (x, s')"
    "case x of Some p \<Rightarrow> bb_took c s X Z ?l p s'
     | None \<Rightarrow> s' = s \<and> (\<forall>r < numRegions c. \<forall>i. node_ok ?N (?l, i) \<longrightarrow> \<not> nspan ?N (?l, i) \<subseteq> region_units_of c X r)"
    using bb_allocate_cases [OF c X(1) sz, of k] by auto
  show ?thesis
  proof (cases x)
    case (Some p)
    then show ?thesis using res bb_alloc_some [OF o sz _ X] by (simp add: bb_alloc_def)
  next
    case None
    have "no_room c s A sz"
      unfolding no_room_def
    proof (intro allI impI)
      fix r j assume r: "r < numRegions c" and j: "(j::nat) < 2 ^ ?l"
      have nb: "node_ok ?N (?l, j)" using lv(1) j by (simp add: node_ok_def)
      then obtain u where u: "u \<in> nspan ?N (?l, j)" "u \<notin> region_units_of c X r" using res(2) r None by auto
      then obtain b where b: "b \<in> B r" "u \<in> nspan ?N b"
        using X(2) r nspan_bound [OF nb u(1)] by (auto simp: bb_tiled_def free_units_def)
      have "span (bb_blk c s r (?l, j)) \<inter> span (bb_blk c s r b) \<noteq> {}"
        using bb_blk_span [OF cf(1) nb bb_tiledD(1) [OF X(2) r b(1)], where s = s and r = r and r' = r] u(1) b(2) by auto
      moreover have "bb_blk c s r (?l, j) = (baddr c s r (j * block_size_for c sz), block_size_for c sz)"
        using lv(2) by (simp add: bb_blk_def naddr_def)
      moreover have "bb_blk c s r b \<in> A" using b(1) r by (auto simp: X(3) bb_blocks_def)
      ultimately show "\<exists>b \<in> A. span (baddr c s r (j * block_size_for c sz), block_size_for c sz) \<inter> span b \<noteq> {}" by auto
    qed
    then show ?thesis using res None by (simp add: bb_alloc_def)
  qed
qed

lemma bb_dealloc_law:
  assumes o: "bb_owns c s A Z" and p: "(p, block_size_for c sz) \<in> A" "(p, block_size_for c sz) \<notin> cached c Z"
    and sz: "0 < sz" "sz \<le> maxBlockSize c"
  shows "bb_owns c (bb_deallocate_internal c s p sz) (A - {(p, block_size_for c sz)}) Z
    \<and> bstart (bb_deallocate_internal c s p sz) = bstart s"
proof -
  let ?N = "numLevels c" and ?l = "find_smallest_block_level c sz" and ?s = "bb_deallocate_internal c s p sz"
  obtain X B where X: "bb_inv c s X Z" "bb_tiled c X B" "A = bb_blocks c s B" and c: "bb_cfg c" and lz: "lazy_ok c s A Z"
    using o by (auto simp: bb_owns_def)
  note cf = bb_cfgD [OF c] and lv = block_size_level [OF cf(1) sz(2)]
  obtain r b where b: "r < numRegions c" "b \<in> B r" "(p, block_size_for c sz) = bb_blk c s r b"
    using p(1) by (auto simp: X(3) bb_blocks_def)
  have nb: "node_ok ?N b" by (rule bb_tiledD(1) [OF X(2) b(1,2)])
  have pb: "p = naddr c s r b" "bsize c ?l = bsize c (fst b)" using b(3) lv(2) by (simp_all add: bb_blk_def)
  have lb: "?l = fst b" by (rule bsize_inj [OF cf(1) lv(1) _ pb(2)]) (use nb in \<open>simp add: node_ok_def\<close>)
  have ap: "lazy_apart c s r (nspan ?N b) Z"
    by (rule block_apart [OF c X(1,2) lz [unfolded X(3)] b(1,2)]) (use p(2) in \<open>simp add: b(3)\<close>)
  have gl: "get_level c s (naddr c s r b) sz = fst b" using sz(1) lb by (simp add: get_level_def Let_def)
  from bb_deallocate_cases [OF c X(1) b(1) nb bb_tiledD(2) [OF X(2) b(1,2)] ap gl]
  obtain X' where d: "bb_inv c ?s X' Z" "lazy_same s ?s"
    "\<forall>r' < numRegions c. region_units_of c X' r' = region_units_of c X r' \<union> (if r' = r then nspan ?N b else {})"
    by (auto simp: bb_released_def pb(1))
  have st: "bstart ?s = bstart s" using d(2) by (simp add: lazy_same_def)
  let ?B = "B(r := B r - {b})"
  have sub: "nspan ?N b \<subseteq> {..< 2 ^ (?N - 1)}" using nspan_bound [OF nb] by auto
  have nB: "nodes_ok ?N (B r)" using X(2) b(1) by (simp add: bb_tiled_def)
  have "nodes_ok ?N (?B r')" if "r' < numRegions c" for r'
    using nodes_ok_remove [OF nB] X(2) that by (simp add: bb_tiled_def)
  moreover have "region_units_of c X' r' = {..< 2 ^ (?N - 1)} - free_units ?N (?B r')" if "r' < numRegions c" for r'
    using d(3) X(2) that units_remove [OF nB b(2)] sub by (auto simp: bb_tiled_def)
  ultimately have ti: "bb_tiled c X' ?B" by (simp add: bb_tiled_def)
  have other: "bb_blk c s r' a \<noteq> bb_blk c s r b" if "r' < numRegions c" "a \<in> ?B r'" for r' a
  proof
    assume e: "bb_blk c s r' a = bb_blk c s r b"
    have a: "a \<in> B r'" using that(2) by (auto split: if_splits)
    have "span (bb_blk c s r' a) \<inter> span (bb_blk c s r b) \<noteq> {}" unfolding e using bb_blk_pos [of c s r b] by (simp add: span_def)
    then have r': "r' = r" "nspan ?N a \<inter> nspan ?N b \<noteq> {}"
      using bb_blk_span [OF cf(1) bb_tiledD(1) [OF X(2) that(1) a] nb, where s = s and r = r' and r' = r] by simp_all
    then have "a = b" using nodes_ok_disjoint [OF nB _ b(2)] a by auto
    then show False using that(2) r'(1) by simp
  qed
  have A': "A - {(p, block_size_for c sz)} = bb_blocks c ?s ?B"
  proof -
    have "insert b (B r - {b}) = B r" using b(2) by blast
    then have "bb_blocks c s B = insert (bb_blk c s r b) (bb_blocks c s ?B)"
      using bb_blocks_insert [OF b(1), of s ?B b] by (simp add: fun_upd_idem)
    moreover have "bb_blk c s r b \<notin> bb_blocks c s ?B"
    proof
      assume "bb_blk c s r b \<in> bb_blocks c s ?B"
      then obtain i a where "i < numRegions c" "a \<in> ?B i" "bb_blk c s r b = bb_blk c s i a" unfolding bb_blocks_def by blast
      then show False using other [of i a] by simp
    qed
    ultimately show ?thesis unfolding bb_blocks_cong [OF st] X(3) b(3) by simp
  qed
  have "lazy_ok c ?s (A - {(p, block_size_for c sz)}) Z"
    using lz d(2) p(2) by (auto simp: lazy_ok_def lazy_same_def cached_def)
  then show ?thesis using c d(1) ti A' st unfolding bb_owns_def by blast
qed

text \<open>Moving a block into or out of a lazy list.\<close>

lemma bb_lists_lazy_up:
  "bb_lists c s X (Z(l := ps)) = (bb_lists c s X Z)(LazyHead l := map Block ps)"
  by (rule ext) (auto simp: bb_lists_def split: link_ptr.splits)

lemma lazy_apart_fewer: "lazy_apart c s r U Z \<Longrightarrow> (\<And>k. set (Z' k) \<subseteq> set (Z k)) \<Longrightarrow> lazy_apart c s r U Z'"
  unfolding lazy_apart_def by blast

lemma bb_inv_lazy:
  assumes inv: "bb_inv c s X Z" and st: "bstart s' = bstart s" and fb: "freeBlocks s' = freeBlocks s"
    and lk: "bb_links c s' X Z'"
    and ap: "\<And>r. r < numRegions c \<Longrightarrow> lazy_apart c s r (free_units (numLevels c) (free_nodes c X r)) Z'"
  shows "bb_inv c s' X Z'"
proof -
  have "lazy_apart c s' r U Z' = lazy_apart c s r U Z'" for r U by (rule lazy_apart_cong [OF st])
  then show ?thesis using inv st fb lk ap
    by (simp add: bb_inv_def bb_gen_def placed_def bits_ok_def block_is_allocated_def)
qed

lemma lazy_fields [simp]:
  "bstart (lazy_push s l p) = bstart s" "freeBlocks (lazy_push s l p) = freeBlocks s"
  "blinks (lazy_push s l p) = push_back (blinks s) (LazyHead l) (Block p)"
  "lazyListSize (lazy_push s l p) = (lazyListSize s)[l := lazyListSize s ! l + 1]"
  "bstart (lazy_pop s l) = bstart s" "freeBlocks (lazy_pop s l) = freeBlocks s"
  "blinks (lazy_pop s l) = snd (pop_first (blinks s) (LazyHead l))"
  "lazyListSize (lazy_pop s l) = (lazyListSize s)[l := lazyListSize s ! l - 1]"
  by (simp_all add: lazy_push_def lazy_pop_def)

lemma lazy_ok_push:
  assumes "lazy_ok c s A Z" "l < numLevels c" "(p, bsize c l) \<in> A"
  shows "lazy_ok c (lazy_push s l p) A (Z(l := Z l @ [p]))"
  using assms by (auto simp: lazy_ok_def nth_list_update)

lemma lazy_ok_pop:
  assumes "lazy_ok c s A Z" "l < numLevels c" "Z l = p # ps"
  shows "lazy_ok c (lazy_pop s l) A (Z(l := ps))"
  using assms by (auto simp: lazy_ok_def nth_list_update)

lemma bb_push_law:
  assumes o: "bb_owns c s A Z" and l: "l < numLevels c" and p: "(p, bsize c l) \<in> A" "(p, bsize c l) \<notin> cached c Z"
  shows "bb_owns c (lazy_push s l p) A (Z(l := Z l @ [p]))"
proof -
  let ?N = "numLevels c" and ?s = "lazy_push s l p" and ?Z = "Z(l := Z l @ [p])"
  obtain X B where X: "bb_inv c s X Z" "bb_tiled c X B" "A = bb_blocks c s B" and c: "bb_cfg c" and lz: "lazy_ok c s A Z"
    using o by (auto simp: bb_owns_def)
  note cf = bb_cfgD [OF c] and iv = bb_invD [OF X(1)]
  obtain r b where b: "r < numRegions c" "b \<in> B r" "(p, bsize c l) = bb_blk c s r b"
    using p(1) by (auto simp: X(3) bb_blocks_def)
  have nb: "node_ok ?N b" by (rule bb_tiledD(1) [OF X(2) b(1,2)])
  have pb: "p = naddr c s r b" using b(3) by (simp add: bb_blk_def)
  have ap: "lazy_apart c s r (nspan ?N b) Z"
    by (rule block_apart [OF c X(1,2) lz [unfolded X(3)] b(1,2)]) (use p(2) in \<open>simp add: b(3)\<close>)
  have dj: "nspan ?N b \<inter> region_units_of c X r = {}" by (rule bb_tiledD(2) [OF X(2) b(1,2)])
  have un: "Block p \<notin> set (h # bb_lists c s X Z h)" if "h \<in> bb_heads c" for h
    unfolding pb by (rule unlisted_notin [OF cf(1) iv(1) b(1) nb _ ap iv(3) that]) (use dj in \<open>simp add: region_units_of_def\<close>)
  have hd: "LazyHead l \<in> bb_heads c" using l by (auto simp: bb_heads_def)
  have "lists_rep (bb_heads c) (blinks ?s) ((bb_lists c s X Z)(LazyHead l := bb_lists c s X Z (LazyHead l) @ [Block p]))"
    using bl.push_law [OF iv(2) [unfolded bb_links_def] hd un] by simp
  moreover have "(bb_lists c s X Z)(LazyHead l := bb_lists c s X Z (LazyHead l) @ [Block p]) = bb_lists c s X ?Z"
    unfolding bb_lists_lazy_up by (simp add: bb_lists_def)
  ultimately have lk: "bb_links c ?s X ?Z" unfolding bb_links_def bb_lists_cong [of ?s s, OF lazy_fields(1)] by simp
  have "bb_inv c ?s X ?Z"
  proof (rule bb_inv_lazy [OF X(1) _ _ lk])
    fix r' assume r': "r' < numRegions c"
    have "uaddr c s r' u \<noteq> p" if u: "u \<in> region_units_of c X r'" for u
    proof
      assume e: "uaddr c s r' u = p"
      have "u < 2 ^ (?N - 1)" using u X(2) r' by (auto simp: bb_tiled_def)
      note ui = uaddr_inj [OF cf(1) iv(1) r' b(1) this nspan_bound [OF nb naddr_unit(2) [OF cf(1) nb]]]
      have "r' = r \<and> u = snd b * 2 ^ (?N - 1 - fst b)" by (rule ui) (simp add: e pb naddr_unit(1) [OF cf(1) nb])
      then show False using u dj naddr_unit(2) [OF cf(1) nb] by blast
    qed
    moreover have "lazy_apart c s r' (region_units_of c X r') Z"
      using X(1) r' by (simp add: bb_inv_def bb_gen_def region_units_of_def)
    ultimately show "lazy_apart c s r' (free_units ?N (free_nodes c X r')) ?Z"
      by (auto simp: lazy_apart_def region_units_of_def)
  qed simp_all
  moreover have "lazy_ok c ?s A ?Z" by (rule lazy_ok_push [OF lz l p(1)])
  moreover have "A = bb_blocks c ?s B" unfolding bb_blocks_cong [of ?s s, OF lazy_fields(1)] by (rule X(3))
  ultimately show ?thesis using c X(2) unfolding bb_owns_def by blast
qed

lemma bb_pop_law:
  assumes o: "bb_owns c s A Z" and l: "l < numLevels c" and z: "Z l = p # ps"
  shows "bb_owns c (lazy_pop s l) A (Z(l := ps))"
proof -
  let ?s = "lazy_pop s l" and ?Z = "Z(l := ps)"
  obtain X B where X: "bb_inv c s X Z" "bb_tiled c X B" "A = bb_blocks c s B" and c: "bb_cfg c" and lz: "lazy_ok c s A Z"
    using o by (auto simp: bb_owns_def)
  have hd: "LazyHead l \<in> bb_heads c" "bb_lists c s X Z (LazyHead l) = Block p # map Block ps"
    using l z by (auto simp: bb_heads_def bb_lists_def)
  have "lists_rep (bb_heads c) (blinks ?s) ((bb_lists c s X Z)(LazyHead l := map Block ps))"
    using bl.pop_law [OF bb_invD(2) [OF X(1), unfolded bb_links_def] hd] by auto
  then have lk: "bb_links c ?s X ?Z"
    unfolding bb_links_def bb_lists_cong [of ?s s, OF lazy_fields(5)] bb_lists_lazy_up .
  have "bb_inv c ?s X ?Z"
  proof (rule bb_inv_lazy [OF X(1) _ _ lk])
    fix r assume r: "r < numRegions c"
    have "lazy_apart c s r (free_units (numLevels c) (free_nodes c X r)) Z"
      using X(1) r by (simp add: bb_inv_def bb_gen_def)
    moreover have "set (?Z k) \<subseteq> set (Z k)" for k using z by auto
    ultimately show "lazy_apart c s r (free_units (numLevels c) (free_nodes c X r)) ?Z" by (rule lazy_apart_fewer)
  qed simp_all
  moreover have "lazy_ok c ?s A ?Z" by (rule lazy_ok_pop [OF lz l z])
  moreover have "A = bb_blocks c ?s B" unfolding bb_blocks_cong [of ?s s, OF lazy_fields(5)] by (rule X(3))
  ultimately show ?thesis using c X(2) unfolding bb_owns_def by blast
qed

lemma bb_owns_free_size:
  assumes o: "bb_owns c s A Z"
  shows "bb_owns c (s\<lparr>freeSizes := fs\<rparr>) A Z"
proof -
  let ?s = "s\<lparr>freeSizes := fs\<rparr>"
  obtain X B where X: "bb_inv c s X Z" "bb_tiled c X B" "A = bb_blocks c s B" and c: "bb_cfg c" and lz: "lazy_ok c s A Z"
    using o by (auto simp: bb_owns_def)
  have "bb_inv c ?s X Z" unfolding bb_inv_def by (rule bb_gen_cong [OF X(1) [unfolded bb_inv_def]]) simp_all
  moreover have "lazy_ok c ?s A Z" using lz by (simp add: lazy_ok_def)
  moreover have "bb_blocks c ?s B = bb_blocks c s B" by (rule bb_blocks_cong) simp
  ultimately show ?thesis using c X(2,3) unfolding bb_owns_def by auto
qed

interpretation bb: buddy_backend c "bb_alloc c" "bb_deallocate_internal c" "bb_owns c" for c
proof unfold_locales
  fix s :: "('a) buddy_scheme" and A Z
  assume o: "bb_owns c s A Z"
  show "cfg_ok c" using o bb_cfgD by (auto simp: bb_owns_def)
  show "placed c s" using o bb_invD by (auto simp: bb_owns_def)
  show "lazy_ok c s A Z" using o by (simp add: bb_owns_def)
  show "bb_owns c (add_free_size s i n) A Z" "bb_owns c (sub_free_size s i n) A Z" for i n
    unfolding add_free_size_def sub_free_size_def by (rule bb_owns_free_size [OF o])+
qed (fact bb_heads_law bb_disjoint bb_within bb_alloc_law bb_dealloc_law bb_push_law bb_pop_law)+

end
