(* ===== verification/Bb_Init.thy ===== *)
theory Bb_Init
  imports Bb_Public
begin

text \<open>
  The constructor of the binary buddy allocator, started empty (all memory free) or full (all
  memory handed out, to be released in blocks), and what follows for every client.
\<close>

subsection \<open>Sentinels\<close>

lemma self_link_fields [simp]:
  "lnext (self_link h t) = (lnext t)(h := h)" "lprev (self_link h t) = (lprev t)(h := h)"
  by (simp_all add: self_link_def)

lemma self_links_row:
  "lnext (foldl (\<lambda>t l. self_link (f l) t) t ls) p = (if p \<in> f ` set ls then p else lnext t p)"
  "lprev (foldl (\<lambda>t l. self_link (f l) t) t ls) p = (if p \<in> f ` set ls then p else lprev t p)"
  by (induction ls arbitrary: t) auto

lemma self_links_grid:
  "lnext (foldl (\<lambda>t r. foldl (\<lambda>t l. self_link (f r l) t) t ls) t rs) p = (if \<exists>r \<in> set rs. p \<in> f r ` set ls then p else lnext t p)"
  "lprev (foldl (\<lambda>t r. foldl (\<lambda>t l. self_link (f r l) t) t ls) t rs) p = (if \<exists>r \<in> set rs. p \<in> f r ` set ls then p else lprev t p)"
  by (induction rs arbitrary: t) (auto simp: self_links_row)

lemma buddy_new_links: "lists_rep (bb_heads c) (blinks (buddy_new c links0 sm fb st th full)) (\<lambda>_. [])"
proof -
  let ?t = "blinks (buddy_new c links0 sm fb st th full)"
  have t: "?t = foldl (\<lambda>t l. self_link (LazyHead l) t)
      (foldl (\<lambda>t r. foldl (\<lambda>t l. self_link (FreeHead r l) t) t [0..<numLevels c]) links0 [0..<numRegions c]) [0..<numLevels c]"
    by (simp add: buddy_new_def init_free_lists_def init_lazy_lists_def Let_def)
  have "lnext ?t h = h \<and> lprev ?t h = h" if "h \<in> bb_heads c" for h
  proof -
    have "h \<in> LazyHead ` set [0..<numLevels c] \<or> (\<exists>r \<in> set [0..<numRegions c]. h \<in> FreeHead r ` set [0..<numLevels c])"
      using that by (auto simp: bb_heads_def image_iff)
    then show ?thesis unfolding t self_links_row self_links_grid by auto
  qed
  then show ?thesis by (auto simp: lists_rep_def dll_def)
qed

lemma buddy_new_fields [simp]:
  "lazyListSize (buddy_new c links0 sm fb st th full) = replicate (numLevels c) 0"
  by (simp add: buddy_new_def init_free_lists_def init_lazy_lists_def Let_def)

lemma set_bitmaps_fields [simp]:
  "lazyListSize (set_bitmaps c s a b) = lazyListSize s" "blinks (set_bitmaps c s a b) = blinks s"
  "bstart (set_bitmaps c s a b) = bstart s"
  "freeBlocks (set_bitmaps c s a b) = replicate (numRegions c) (replicate (allocedBitmapSize c) a)"
  by (simp_all add: set_bitmaps_def Let_def)

subsection \<open>The first blocks\<close>

definition first_blocks :: "nat \<Rightarrow> nat \<Rightarrow> nat \<Rightarrow> nat list" where
  "first_blocks m r l = (if l = 0 \<and> r < m then [0] else [])"

lemma root_ok: "bb_cfg c \<Longrightarrow> node_ok (numLevels c) (0, 0)"
  using bb_cfgD [of c] by (simp add: node_ok_def)

lemma root_span: "nspan n (0, 0) = {..< 2 ^ (n - 1)}"
  by (auto simp: nspan_interval)

lemma first_nodes: "bb_cfg c \<Longrightarrow> free_nodes c (first_blocks m) r = (if r < m then {(0, 0)} else {})"
  using bb_cfgD [of c] by (auto simp: free_nodes_def first_blocks_def split: if_splits)

lemma first_nodes_ok: "bb_cfg c \<Longrightarrow> nodes_ok (numLevels c) (free_nodes c (first_blocks m) r)"
  using root_ok [of c] by (simp add: first_nodes nodes_ok_def)

lemma push_free_lazy [simp]: "lazyListSize (push_free_list s p r l) = lazyListSize s"
  by (simp add: push_free_list_def)

lemma push_regions:
  assumes c: "bb_cfg c" and pl: "placed c s" and lk: "bb_links c s (first_blocks 0) (\<lambda>_. [])"
  shows "m \<le> numRegions c \<Longrightarrow>
    let s' = foldl (\<lambda>s r. push_free_list s (region_start c s r) r 0) s [0..<m]
    in bb_links c s' (first_blocks m) (\<lambda>_. []) \<and> bstart s' = bstart s \<and> freeBlocks s' = freeBlocks s \<and> lazyListSize s' = lazyListSize s"
proof (induction m)
  case 0
  then show ?case using lk by simp
next
  case (Suc m)
  note cf = bb_cfgD [OF c]
  let ?s = "foldl (\<lambda>s r. push_free_list s (region_start c s r) r 0) s [0..<m]"
  have ih: "bb_links c ?s (first_blocks m) (\<lambda>_. [])" "bstart ?s = bstart s" "freeBlocks ?s = freeBlocks s"
    "lazyListSize ?s = lazyListSize s" using Suc by (simp_all add: Let_def)
  have p: "placed c ?s" using pl ih(2) by (simp add: placed_def)
  have m: "m < numRegions c" using Suc.prems by simp
  have a: "region_start c ?s m = naddr c ?s m (0, 0)" using region_start_eq [OF cf(1) p less_imp_le [OF m]] by (simp add: naddr_def)
  have e: "free_nodes c (first_blocks m) m = {}" by (simp add: first_nodes [OF c])
  have "bb_links c (push_free_list ?s (naddr c ?s m (0, 0)) m 0) (upX (first_blocks m) m 0 (first_blocks m m 0 @ [0])) (\<lambda>_. [])"
    by (rule push_block(1) [OF c p ih(1) m first_nodes_ok [OF c] root_ok [OF c]])
      (simp_all add: e free_units_def lazy_apart_def)
  moreover have "upX (first_blocks m) m 0 (first_blocks m m 0 @ [0]) = first_blocks (Suc m)"
    by (intro ext) (auto simp: first_blocks_def less_Suc_eq)
  ultimately show ?case using ih(2-4) by (simp add: Let_def a)
qed

lemma clear_bits:
  assumes c: "bb_cfg c" and r: "r < numRegions c" and fb: "freeBlocks s = replicate (numRegions c) (replicate (allocedBitmapSize c) 0)"
    and F: "F \<subseteq> {(0, 0)}"
  shows "bits_ok c s r F"
proof -
  have N: "3 \<le> numLevels c" "numLevels c < 32" using bb_cfgD [OF c] by simp_all
  have "\<not> block_is_allocated s r (2 ^ l + i)" if "Suc l < numLevels c" "i < 2 ^ l" for l i
  proof -
    obtain n where n: "numLevels c = 3 + n" using N(1) le_Suc_ex by blast
    have p: "(2::nat) ^ numLevels c = 2 ^ n * 8" by (simp add: n power_add)
    have "(2::nat) ^ l + i < 2 ^ Suc l" using that(2) by simp
    also have "\<dots> \<le> 2 ^ numLevels c" using that(1) by (intro power_increasing) simp_all
    finally have "(2 ^ l + i) div 8 < 2 ^ n" unfolding p by (rule less_mult_imp_div_less)
    moreover have "w32 (2 ^ numLevels c) = 2 ^ numLevels c" using N(2) by (simp add: w32_id pow2_31)
    then have "allocedBitmapSize c = 2 ^ n" unfolding allocedBitmapSize_def by (simp only: p)
    ultimately show ?thesis using r by (simp add: block_is_allocated_def fb bit_is_set_def)
  qed
  moreover have "\<not> pair_bit F l i" for l i using F by (auto simp: pair_bit_def)
  ultimately show ?thesis using r by (simp add: bits_ok_def fb)
qed

definition bb_storage :: "buddy_config \<Rightarrow> nat \<Rightarrow> bool" where
  "bb_storage c start \<longleftrightarrow> 0 < start \<and> start + numRegions c * 2 ^ maxBlockSizeLog2 c < 18446744073709551616"

lemma first_inv:
  assumes c: "bb_cfg c" and pl: "placed c s" and lk: "bb_links c s (first_blocks m) (\<lambda>_. [])"
    and fb: "freeBlocks s = replicate (numRegions c) (replicate (allocedBitmapSize c) 0)"
  shows "bb_inv c s (first_blocks m) (\<lambda>_. [])"
proof -
  have "merged {} (free_nodes c (first_blocks m) r)" for r by (simp add: first_nodes [OF c] merged_def)
  moreover have "bits_ok c s r (free_nodes c (first_blocks m) r)" if "r < numRegions c" for r
    by (rule clear_bits [OF c that fb]) (simp add: first_nodes [OF c])
  ultimately show ?thesis
    unfolding bb_inv_def bb_gen_def using pl lk fb first_nodes_ok [OF c] by (simp add: lazy_apart_def)
qed

lemma bb_new_owns:
  assumes c: "bb_cfg c" and st: "bb_storage c start"
  shows "bb_owns c (bb_new c links0 sm fb start th False) {} (\<lambda>_. [])"
    "bb_owns c (bb_new c links0 sm fb start th True) ((\<lambda>r. (start + r * maxBlockSize c, maxBlockSize c)) ` {..< numRegions c}) (\<lambda>_. [])"
proof -
  note cf = bb_cfgD [OF c]
  define s0 where "s0 full = bb_init_bitmaps c (buddy_new c links0 sm fb start th full) full" for full
  have f: "bstart (s0 full) = start" "blinks (s0 full) = blinks (buddy_new c links0 sm fb start th full)"
    "lazyListSize (s0 full) = replicate (numLevels c) 0"
    "freeBlocks (s0 full) = replicate (numRegions c) (replicate (allocedBitmapSize c) 0)" for full
    by (simp_all add: s0_def bb_init_bitmaps_def)
  have pl: "placed c (s0 full)" for full using st f by (simp add: placed_def bb_storage_def)
  have "bb_lists c (s0 full) (first_blocks 0) (\<lambda>_. []) = (\<lambda>_. [])" for full
    by (rule ext) (simp add: bb_lists_def first_blocks_def split: link_ptr.split)
  then have lk: "bb_links c (s0 full) (first_blocks 0) (\<lambda>_. [])" for full
    using buddy_new_links by (simp add: bb_links_def f)
  have rs: "nodes_ok (numLevels c) {(0, 0)}" using root_ok [OF c] by (simp add: nodes_ok_def)
  have "bb_inv c (s0 True) (first_blocks 0) (\<lambda>_. [])" by (rule first_inv [OF c pl lk f(4)])
  moreover have "bb_tiled c (first_blocks 0) (\<lambda>_. {(0, 0)})"
    using rs by (simp add: bb_tiled_def region_units_of_def first_nodes [OF c] free_units_def root_span)
  moreover have "bb_blocks c (s0 True) (\<lambda>_. {(0, 0)}) = (\<lambda>r. (start + r * maxBlockSize c, maxBlockSize c)) ` {..< numRegions c}"
    by (auto simp: bb_blocks_def bb_blk_def naddr_def baddr_def f maxBlockSize_eq [OF cf(1)])
  ultimately show "bb_owns c (bb_new c links0 sm fb start th True)
      ((\<lambda>r. (start + r * maxBlockSize c, maxBlockSize c)) ` {..< numRegions c}) (\<lambda>_. [])"
    unfolding bb_owns_def using c by (auto simp: bb_new_def s0_def [symmetric] lazy_ok_def f)
  let ?s = "foldl (\<lambda>s r. push_free_list s (region_start c s r) r 0) (s0 False) [0..<numRegions c]"
  from push_regions [OF c pl lk, of "numRegions c"]
  have p: "bb_links c ?s (first_blocks (numRegions c)) (\<lambda>_. [])" "bstart ?s = start"
    "freeBlocks ?s = replicate (numRegions c) (replicate (allocedBitmapSize c) 0)" "lazyListSize ?s = replicate (numLevels c) 0"
    by (simp_all add: Let_def f)
  have "placed c ?s" using pl p(2) by (simp add: placed_def f)
  then have "bb_inv c ?s (first_blocks (numRegions c)) (\<lambda>_. [])" by (rule first_inv [OF c _ p(1,3)])
  moreover have "bb_tiled c (first_blocks (numRegions c)) (\<lambda>_. {})"
    by (simp add: bb_tiled_def region_units_of_def first_nodes [OF c] free_units_def root_span nodes_ok_def)
  moreover have "bb_blocks c ?s (\<lambda>_. {}) = {}" by (simp add: bb_blocks_def)
  ultimately show "bb_owns c (bb_new c links0 sm fb start th False) {} (\<lambda>_. [])"
    unfolding bb_owns_def using c p(4) by (auto simp: bb_new_def s0_def [symmetric] lazy_ok_def Let_def)
qed

end
