(* ===== verification/Bt_Public.thy ===== *)
theory Bt_Public
  imports Bb_Init
begin

text \<open>
  The bitmap tree buddy allocator meets the contract of the base class as well. Its tree does
  not use the links of the blocks, so only the lazy lists are kept in the store.
\<close>

definition bt_owns :: "buddy_config \<Rightarrow> ('a) bt_buddy_scheme \<Rightarrow> (nat \<times> nat) set \<Rightarrow> (nat \<Rightarrow> nat list) \<Rightarrow> bool" where
  "bt_owns c s A Z \<longleftrightarrow> bt_cfg c \<and> bt_inv c s A \<and> lazy_ok c s A Z \<and> lists_rep (lazy_heads c) (blinks s) (lazy_lists Z)"

subsection \<open>The tree operations keep the lists\<close>

lemma alloc_parents_place: "same_place s (bt_alloc_parents c r n i s)"
proof (induction n arbitrary: i s)
  case (Suc n)
  let ?s = "if get_tree c s r (2 * i + 1) > get_tree c s r (2 * i + 2) then set_tree c s r i (get_tree c s r (2 * i + 1))
    else set_tree c s r i (get_tree c s r (2 * i + 2))"
  let ?t = "if sizeBits c = 0 \<and> useSizeMap c then set_split_block ?s r i True else ?s"
  have "same_place s ?t" by simp
  then show ?case using same_place_trans [OF _ Suc] by (simp add: Let_def)
qed simp

lemma dealloc_parents_place: "same_place s (bt_dealloc_parents c r l n i s)"
proof (induction n arbitrary: i s l)
  case (Suc n)
  let ?l = "get_tree c s r (w32 (2 * i + 1))" and ?r = "get_tree c s r (w32 (2 * i + 2))"
  let ?t = "if ?l = ?r \<and> ?l = l then set_split_block (set_tree c s r i (l + 1)) r i False
    else set_tree c s r i (if ?l > ?r then ?l else ?r)"
  have "same_place s ?t" by simp
  then show ?case using same_place_trans [OF _ Suc] by (simp add: Let_def)
qed simp

lemma alloc_in_place: "same_place s (snd (bt_alloc_in c s r bh sz))"
proof -
  let ?i = "bt_descend c s r bh (numLevels c - bh) 0"
  let ?s = "set_tree c s r ?i 0"
  let ?t = "if sizeBits c \<noteq> 0 \<and> useSizeMap c then set_level c ?s (get_address c ?s r ?i) r (numLevels c - bh) else ?s"
  let ?u = "bt_alloc_parents c r (numLevels c - bh) ((?i - 1) div 2) ?t"
  have t: "same_place s ?t" using same_place_trans [of s ?s ?t] by simp
  have "same_place s ?u" by (rule same_place_trans [OF t alloc_parents_place])
  then show ?thesis using same_place_trans [of s ?u "sub_free_size ?u r (rup2 sz)"] by (simp add: bt_alloc_in_def Let_def)
qed

lemma dealloc_place: "same_place s (bt_deallocate_internal c s p sz)"
proof -
  let ?r = "get_region c s p" and ?h = "tree_height c sz"
  let ?i = "block_index c s p ?r (get_level c s p sz)"
  let ?s = "set_tree c s ?r ?i ?h"
  let ?u = "bt_dealloc_parents c ?r ?h (numLevels c - ?h) (sub32 ?i 1 div 2) ?s"
  have "same_place s ?u" by (rule same_place_trans [OF _ dealloc_parents_place]) simp
  then show ?thesis using same_place_trans [of s ?u "add_free_size ?u ?r sz"] by (simp add: bt_deallocate_internal_def Let_def)
qed

lemma alloc_place: "same_place s (snd (bt_allocate_internal c k s sz))"
  by (rule allocate_internal_cases [of c k s sz]) (simp_all add: alloc_in_place snd_map_prod)

subsection \<open>The laws of the contract\<close>

lemma bt_blocks:
  assumes "bt_cfg c" "bt_inv c s A" "a \<in> A"
  obtains r x ts where "r < numRegions c" "tree_wf (numLevels c) (ts r)" "x \<in> used (numLevels c) 0 (ts r)" "a = byte_blk c s r x"
    "in_region c x" "A = (\<Union>r < numRegions c. region_blocks c s ts r)" "\<forall>r < numRegions c. tree_wf (numLevels c) (ts r)"
proof -
  obtain ts where ts: "\<forall>r < numRegions c. bt_rep c s r (ts r)" "A = (\<Union>r < numRegions c. region_blocks c s ts r)"
    using assms(2) by (auto simp: bt_inv_def)
  then obtain r x where "r < numRegions c" "x \<in> used (numLevels c) 0 (ts r)" "a = byte_blk c s r x"
    using assms(3) by (auto simp: region_blocks_def)
  then show thesis using that [of r ts x] ts used_in_region [of c "ts r" x] by (auto simp: bt_rep_def)
qed

lemma bt_disjoint:
  assumes "bt_cfg c" "bt_inv c s A" "a \<in> A" "b \<in> A" "a \<noteq> b"
  shows "span a \<inter> span b = {}"
proof -
  obtain r x ts where x: "r < numRegions c" "tree_wf (numLevels c) (ts r)" "x \<in> used (numLevels c) 0 (ts r)" "a = byte_blk c s r x"
    "in_region c x" "A = (\<Union>r < numRegions c. region_blocks c s ts r)" "\<forall>r < numRegions c. tree_wf (numLevels c) (ts r)"
    by (rule bt_blocks [OF assms(1-3)])
  obtain r' y where y: "r' < numRegions c" "y \<in> used (numLevels c) 0 (ts r')" "b = byte_blk c s r' y"
    using assms(4) by (auto simp: x(6) region_blocks_def)
  have yr: "in_region c y" by (rule used_in_region [OF _ y(2)]) (use x(7) y(1) in simp)
  show ?thesis
  proof (cases "r = r'")
    case True
    then have "x \<noteq> y" using x(4) y(3) assms(5) by auto
    then have "covers x \<inter> covers y = {}" using used_disjoint [OF x(2,3)] y(2) True by simp
    then show ?thesis using span_same_region [of x y c s r] x(4,5) y(3) yr True by (simp add: in_region_def)
  next
    case False
    then show ?thesis using span_other_region [OF bt_cfgD(1) [OF assms(1)] x(5) yr, of r r' s] x(4) y(3) by simp
  qed
qed

lemma bt_within:
  assumes "bt_cfg c" "bt_inv c s A" "a \<in> A"
  shows "0 < snd a \<and> span a \<subseteq> heap_range c s"
proof -
  obtain r x where x: "r < numRegions c" "a = byte_blk c s r x" "in_region c x" by (rule bt_blocks [OF assms])
  have "Suc r * 2 ^ maxBlockSizeLog2 c \<le> numRegions c * 2 ^ maxBlockSizeLog2 c" using x(1) by (intro mult_le_mono1) simp
  then have "baddr c s (Suc r) 0 \<le> bstart s + numRegions c * 2 ^ maxBlockSizeLog2 c" "bstart s \<le> baddr c s r 0"
    by (simp_all add: baddr_def)
  moreover have "0 < snd a" by (simp add: x(2) byte_blk_def)
  ultimately show ?thesis
    using span_region [OF bt_cfgD(1) [OF assms(1)] x(3), of s r] by (auto simp: heap_range_def x(2))
qed

lemma lazy_same_place: "same_place s s' \<Longrightarrow> lazy_same s s'"
  by (simp add: same_place_def lazy_same_def)

lemma bt_inv_fields:
  "bt_inv c (s\<lparr>freeSizes := f\<rparr>) A = bt_inv c s A" "bt_inv c (lazy_push s l p) A = bt_inv c s A" "bt_inv c (lazy_pop s l) A = bt_inv c s A"
proof -
  have *: "bt_inv c s' A = bt_inv c s A" if "bstart s' = bstart s" "btTree s' = btTree s" "btBits s' = btBits s" "levelOffsets s' = levelOffsets s"
    for s' :: "('a) bt_buddy_scheme"
  proof -
    have "get_tree c s' = get_tree c s" using that by (simp add: get_tree_def fun_eq_iff Let_def)
    then have "tv c s' = tv c s" by (simp add: tv_def fun_eq_iff)
    then have "bt_rep c s' = bt_rep c s" by (intro ext bt_rep_tv) simp
    moreover have "byte_blk c s' = byte_blk c s" by (rule byte_blk_bstart [OF that(1)])
    ultimately show ?thesis using that by (simp add: bt_inv_def placed_def bt_shape_def region_blocks_def)
  qed
  show "bt_inv c (s\<lparr>freeSizes := f\<rparr>) A = bt_inv c s A" "bt_inv c (lazy_push s l p) A = bt_inv c s A" "bt_inv c (lazy_pop s l) A = bt_inv c s A"
    by (rule *; simp add: lazy_push_def lazy_pop_def)+
qed

lemma bt_alloc_law:
  assumes o: "bt_owns c s A Z" and sz: "sz \<le> maxBlockSize c"
  shows "case bt_allocate_internal c k s sz of
      (Some p, s') \<Rightarrow> bt_owns c s' (insert (p, block_size_for c sz) A) Z \<and> (p, block_size_for c sz) \<notin> A \<and> bstart s' = bstart s
    | (None, s') \<Rightarrow> s' = s \<and> no_room c s A sz"
proof -
  obtain x s' where x: "bt_allocate_internal c k s sz = (x, s')" by fastforce
  have c: "bt_cfg c" and i: "bt_inv c s A" and lz: "lazy_ok c s A Z" and ls: "lists_rep (lazy_heads c) (blinks s) (lazy_lists Z)"
    using o by (simp_all add: bt_owns_def)
  have sp: "same_place s s'" using alloc_place [of s c k sz] x by simp
  note al = alloc_internal_cases [OF c i sz, of k, unfolded x]
  show ?thesis
  proof (cases x)
    case None
    then show ?thesis using al x by (simp add: no_room_def)
  next
    case (Some p)
    have "0 < block_size_for c sz"
      using block_size_level [OF bt_cfgD(1) [OF c] sz] by simp
    then have "(p, block_size_for c sz) \<notin> A" using al Some by (auto simp: span_def)
    moreover have "lazy_ok c s' (insert (p, block_size_for c sz) A) Z"
      by (rule lazy_ok_mono [OF lz lazy_same_place [OF sp]]) blast
    ultimately show ?thesis using al x Some c ls sp by (simp add: bt_owns_def same_place_def)
  qed
qed

lemma bt_dealloc_law:
  assumes o: "bt_owns c s A Z" and p: "(p, block_size_for c sz) \<in> A" "(p, block_size_for c sz) \<notin> cached c Z"
    and sz: "0 < sz" "sz \<le> maxBlockSize c"
  shows "bt_owns c (bt_deallocate_internal c s p sz) (A - {(p, block_size_for c sz)}) Z
    \<and> bstart (bt_deallocate_internal c s p sz) = bstart s"
proof -
  let ?s = "bt_deallocate_internal c s p sz"
  have c: "bt_cfg c" and i: "bt_inv c s A" and lz: "lazy_ok c s A Z" and ls: "lists_rep (lazy_heads c) (blinks s) (lazy_lists Z)"
    using o by (simp_all add: bt_owns_def)
  have sp: "same_place s ?s" by (rule dealloc_place)
  have "lazy_ok c ?s (A - {(p, block_size_for c sz)}) Z"
    using lz p(2) sp by (auto simp: lazy_ok_def same_place_def cached_def)
  then show ?thesis using dealloc_internal_case [OF c i p(1) sz] c ls sp by (simp add: bt_owns_def same_place_def)
qed

lemma bt_push_law:
  assumes o: "bt_owns c s A Z" and l: "l < numLevels c" and p: "(p, bsize c l) \<in> A" "(p, bsize c l) \<notin> cached c Z"
  shows "bt_owns c (lazy_push s l p) A (Z(l := Z l @ [p]))"
proof -
  have c: "bt_cfg c" and i: "bt_inv c s A" and lz: "lazy_ok c s A Z" and ls: "lists_rep (lazy_heads c) (blinks s) (lazy_lists Z)"
    using o by (simp_all add: bt_owns_def)
  have "p \<notin> set (Z k)" if "k < numLevels c" for k
  proof
    assume k: "p \<in> set (Z k)"
    then have "(p, bsize c k) \<in> A" using lz that by (simp add: lazy_ok_def)
    then have "bsize c k = bsize c l"
      using bt_disjoint [OF c i p(1), of "(p, bsize c k)"] by (fastforce simp: span_def)
    then show False using k that p(2) by (auto simp: cached_def)
  qed
  then have un: "Block p \<notin> set (h # lazy_lists Z h)" if "h \<in> lazy_heads c" for h
    using that by (auto simp: lazy_heads_def lazy_lists_def)
  have hd: "LazyHead l \<in> lazy_heads c" using l by (simp add: lazy_heads_def)
  have "(lazy_lists Z)(LazyHead l := lazy_lists Z (LazyHead l) @ [Block p]) = lazy_lists (Z(l := Z l @ [p]))"
    by (rule ext) (simp add: lazy_lists_def split: link_ptr.split)
  then have "lists_rep (lazy_heads c) (push_back (blinks s) (LazyHead l) (Block p)) (lazy_lists (Z(l := Z l @ [p])))"
    using bl.push_law [OF ls hd un] by simp
  then show ?thesis
    using c i lazy_ok_push [OF lz l p(1)] by (simp add: bt_owns_def bt_inv_fields)
qed

lemma bt_pop_law:
  assumes o: "bt_owns c s A Z" and l: "l < numLevels c" and z: "Z l = p # ps"
  shows "bt_owns c (lazy_pop s l) A (Z(l := ps))"
proof -
  have c: "bt_cfg c" and i: "bt_inv c s A" and lz: "lazy_ok c s A Z" and ls: "lists_rep (lazy_heads c) (blinks s) (lazy_lists Z)"
    using o by (simp_all add: bt_owns_def)
  have hd: "LazyHead l \<in> lazy_heads c" "lazy_lists Z (LazyHead l) = Block p # map Block ps"
    using l z by (simp_all add: lazy_heads_def lazy_lists_def)
  have "(lazy_lists Z)(LazyHead l := map Block ps) = lazy_lists (Z(l := ps))"
    by (rule ext) (simp add: lazy_lists_def split: link_ptr.split)
  then have "lists_rep (lazy_heads c) (snd (pop_first (blinks s) (LazyHead l))) (lazy_lists (Z(l := ps)))"
    using bl.pop_law [OF ls hd] by auto
  then show ?thesis using c i lazy_ok_pop [OF lz l z] by (simp add: bt_owns_def bt_inv_fields)
qed

lemma bt_owns_free_size: "bt_owns c s A Z \<Longrightarrow> bt_owns c (s\<lparr>freeSizes := f\<rparr>) A Z"
  by (simp add: bt_owns_def bt_inv_fields lazy_ok_def)

interpretation bt: buddy_backend c "bt_allocate_internal c" "bt_deallocate_internal c" "bt_owns c" for c
proof unfold_locales
  fix s :: "('a) bt_buddy_scheme" and A Z
  assume o: "bt_owns c s A Z"
  have c: "bt_cfg c" and i: "bt_inv c s A" using o by (simp_all add: bt_owns_def)
  show "cfg_ok c" using bt_cfgD(1) [OF c] .
  show "placed c s" using i by (simp add: bt_inv_def)
  show "lazy_ok c s A Z" "lists_rep (lazy_heads c) (blinks s) (lazy_lists Z)" using o by (simp_all add: bt_owns_def)
  show "span a \<inter> span b = {}" if "a \<in> A" "b \<in> A" "a \<noteq> b" for a b by (rule bt_disjoint [OF c i that])
  show "0 < snd a \<and> span a \<subseteq> heap_range c s" if "a \<in> A" for a by (rule bt_within [OF c i that])
  show "bt_owns c (add_free_size s i n) A Z" "bt_owns c (sub_free_size s i n) A Z" for i n
    unfolding add_free_size_def sub_free_size_def by (rule bt_owns_free_size [OF o])+
qed (fact bt_alloc_law bt_dealloc_law bt_push_law bt_pop_law)+

end
