(* ===== verification/Buddy_Clients.thy ===== *)
theory Buddy_Clients
  imports Bt_Public
begin

text \<open>
  What the clients of the two buddy allocators get: the public operations of \<open>BuddyAllocator\<close>
  on a newly constructed allocator, in any order and with any pattern of contended locks: allocation, release with
  the size that was asked for, and emptying of the lazy lists. Release without a size, release of a range and \<open>fill\<close>
  are modelled in \<open>Buddy_Base\<close> but not client operations here: the bitmap tree allocator does not support them (its
  \<open>deallocate_internal\<close> clears split bits in a size map of levels, and a tree that starts full or was filled does not
  record what lies below a block that is released).
\<close>

lemma foldl_place:
  assumes "\<And>s x. same_place s (f s x)"
  shows "same_place s (foldl f s xs)"
proof (induction xs arbitrary: s)
  case (Cons x xs)
  show ?case using same_place_trans [OF assms Cons] by simp
qed simp

lemma init_bitmaps_place: "bstart (bt_init_bitmaps c s b) = bstart s \<and> blinks (bt_init_bitmaps c s b) = blinks s
    \<and> lazyListSize (bt_init_bitmaps c s b) = lazyListSize s"
proof -
  have regions: "same_place t (foldl (\<lambda>s r. if b then foldl (\<lambda>s i. set_tree c s r i 0) s [0..<2 ^ numLevels c - 1]
      else foldl (\<lambda>s l. foldl (\<lambda>s i. set_tree c s r i (numLevels c - l)) s [index_of_level l ..< index_of_level (l + 1)]) s [0..<numLevels c]) t rs)"
    for t :: "('a) bt_buddy_scheme" and rs
    by (rule foldl_place) (simp add: foldl_place)
  show ?thesis
    using regions [of "set_bitmaps c s 0 (if b then 0xFF else 0)" "[0..<numRegions c]"]
    by (simp add: bt_init_bitmaps_def same_place_def Let_def cong: if_cong)
qed

lemma bt_new_owns:
  assumes c: "bt_cfg c" and tree: "tree_storage c tree0" and st: "bb_storage c start"
  shows "bt_owns c (bt_new c links0 sm fb tree0 start th False) {} (\<lambda>_. [])"
proof -
  let ?s0 = "buddy.extend (buddy_new c links0 sm fb start th False)
            (bt_buddy.fields tree0 (8 # replicate (numLevels c - 1) 0) (replicate (numLevels c) 0)) :: bt_buddy"
  let ?s1 = "foldl (\<lambda>s r. push_free_list s (region_start c s r) r 0) ?s0 [0..<numRegions c]"
  let ?n = "bt_new c links0 sm fb tree0 start th False"
  have cb: "bb_cfg c" using c by (simp add: bt_cfg_def bb_cfg_def)
  have f: "bstart ?s0 = start" "blinks ?s0 = blinks (buddy_new c links0 sm fb start th False)"
    "lazyListSize ?s0 = replicate (numLevels c) 0"
    using buddy_new_fields [of c links0 sm fb start th False] by (simp_all add: buddy.defs bt_buddy.defs)
  have pl: "placed c ?s0" using st by (simp only: placed_def bb_storage_def f)
  have "bb_lists c ?s0 (first_blocks 0) (\<lambda>_. []) = (\<lambda>_. [])"
    by (rule ext) (simp add: bb_lists_def first_blocks_def split: link_ptr.split)
  then have "bb_links c ?s0 (first_blocks 0) (\<lambda>_. [])" using buddy_new_links by (simp only: bb_links_def f)
  from push_regions [OF cb pl this order_refl]
  have p: "bb_links c ?s1 (first_blocks (numRegions c)) (\<lambda>_. [])" "lazyListSize ?s1 = replicate (numLevels c) 0"
    by (simp_all only: Let_def f)
  have fields: "blinks ?n = blinks ?s1" "lazyListSize ?n = lazyListSize ?s1"
    by (simp_all add: bt_new_def init_bitmaps_place Let_def)
  have "bt_inv c ?n {}" by (rule bt_new_inv [OF c tree]) (use st in \<open>simp_all add: bb_storage_def\<close>)
  moreover have "lazy_ok c ?n {} (\<lambda>_. [])" unfolding lazy_ok_def fields p(2) by simp
  moreover have "lists_rep (lazy_heads c) (blinks ?n) (lazy_lists (\<lambda>_. []))"
    unfolding fields by (rule lists_rep_part [OF p(1) [unfolded bb_links_def] lazy_heads_sub]) (simp add: bb_lists_lazy)
  ultimately show ?thesis using c by (simp add: bt_owns_def)
qed

subsection \<open>The binary buddy allocator\<close>

definition bb_demo :: buddy where
  "bb_demo = bb_new SmallDoubleConfig \<lparr>lprev = id, lnext = id\<rparr> (replicate 2 (replicate 8 0))
     (replicate 2 (replicate 4 0)) 4096 2 False"

lemma small_double_bb: "bb_cfg SmallDoubleConfig"
  using small_double_bt by (simp add: bt_cfg_def bb_cfg_def)

lemma demo_storage: "bb_storage SmallDoubleConfig 4096"
  by (simp add: bb_storage_def small_double_levels)

lemma bb_demo_owns: "bb_owns SmallDoubleConfig bb_demo {} (\<lambda>_. [])"
  unfolding bb_demo_def by (rule bb_new_owns(1) [OF small_double_bb demo_storage])

text \<open>Allocation from the binary buddy allocator returns a block that is large enough and that no
  client holds, and exactly this block is held in addition afterwards; or it changes nothing,
  and then the size is above the maximum or every aligned position for such a block overlaps
  a block that is handed out.\<close>

theorem bb_allocate_correct:
  assumes "bb_owns c s A Z"
  shows "case bb_allocate c contended s sz of
      (Some p, s') \<Rightarrow> sz \<le> block_size_for c sz \<and> (p, block_size_for c sz) \<notin> held c A Z \<and> bstart s' = bstart s
        \<and> (\<exists>A' Z'. bb_owns c s' A' Z' \<and> held c A' Z' = insert (p, block_size_for c sz) (held c A Z))
    | (None, s') \<Rightarrow> s' = s \<and> (maxBlockSize c < sz \<or> no_room c s A sz)"
  unfolding bb_allocate_def by (rule bb.allocate_correct [OF assms])

theorem bb_allocate_correct_witness:
  "case bb_allocate SmallDoubleConfig (\<lambda>_. False) bb_demo 40 of
     (Some p, s') \<Rightarrow> bstart s' = bstart bb_demo | (None, s') \<Rightarrow> s' = bb_demo"
  using bb_allocate_correct [OF bb_demo_owns, where contended = "\<lambda>_. False" and sz = 40] by (auto split: prod.splits option.splits)

lemma demo_first_block:
  "\<exists>p (s' :: buddy) A Z. bb_owns SmallDoubleConfig s' A Z \<and> (p, 64) \<in> held SmallDoubleConfig A Z"
proof -
  obtain x s' where x: "bb_allocate SmallDoubleConfig (\<lambda>_. False) bb_demo 40 = (x, s')" by fastforce
  note al = bb.allocate_correct [OF bb_demo_owns, where k = "\<lambda>_. False" and sz = 40, folded bb_allocate_def, unfolded x]
  have "\<not> no_room SmallDoubleConfig bb_demo {} 40"
  proof
    assume "no_room SmallDoubleConfig bb_demo {} 40"
    then have "\<not> (0 < numRegions SmallDoubleConfig \<and> (0::nat) < 2 ^ find_smallest_block_level SmallDoubleConfig 40)"
      unfolding no_room_def bex_empty by blast
    then show False by (simp add: small_double_levels small_double_sizes)
  qed
  then obtain p A Z where "bb_owns SmallDoubleConfig s' A Z"
    "held SmallDoubleConfig A Z = insert (p, block_size_for SmallDoubleConfig 40) (held SmallDoubleConfig {} (\<lambda>_. []))"
    using al by (cases x) (auto simp: small_double_levels)
  then show ?thesis by (intro exI [of _ p] exI [of _ s'] exI [of _ A] exI [of _ Z]) (simp add: small_double_sizes)
qed

text \<open>Releasing a block that a client holds, with the size it asked for, takes exactly this block out
  of what clients hold, whether it goes to a lazy list or is merged with its buddies.\<close>

theorem bb_free_sized_correct:
  assumes "bb_owns c s A Z" "(p, block_size_for c (max sz (minBlockSize c))) \<in> held c A Z" "sz \<le> maxBlockSize c"
  shows "\<exists>A' Z'. bb_owns c (bb_free_sized c s p sz) A' Z'
    \<and> held c A' Z' = held c A Z - {(p, block_size_for c (max sz (minBlockSize c)))}"
  unfolding bb_free_sized_def using bb.deallocate_correct [OF assms] by blast

theorem bb_free_sized_correct_witness:
  "\<exists>p (s :: buddy) A Z. (p, 64) \<notin> held SmallDoubleConfig A Z \<and> bb_owns SmallDoubleConfig (bb_free_sized SmallDoubleConfig s p 40) A Z"
proof -
  obtain p A Z and s :: buddy where h: "bb_owns SmallDoubleConfig s A Z" "(p, 64) \<in> held SmallDoubleConfig A Z"
    using demo_first_block by blast
  have sz: "block_size_for SmallDoubleConfig (max 40 (minBlockSize SmallDoubleConfig)) = 64"
    by (simp add: small_double_levels small_double_sizes)
  have "(40::nat) \<le> maxBlockSize SmallDoubleConfig" by (simp add: small_double_levels)
  from bb_free_sized_correct [OF h(1) _ this, unfolded sz, OF h(2)]
  obtain A' Z' where "bb_owns SmallDoubleConfig (bb_free_sized SmallDoubleConfig s p 40) A' Z'"
    "held SmallDoubleConfig A' Z' = held SmallDoubleConfig A Z - {(p, 64)}" by blast
  then show ?thesis by (intro exI [of _ p] exI [of _ s] exI [of _ A'] exI [of _ Z']) simp
qed

text \<open>Aggregation gives every cached block back to the binary buddy allocator: what clients hold stays,
  nothing is cached afterwards, and exactly the held blocks are handed out.\<close>

theorem bb_aggregate_correct:
  assumes "bb_owns c s A Z"
  shows "\<exists>Z'. bb_owns c (bb_aggregate c s) (held c A Z) Z' \<and> (\<forall>l < numLevels c. Z' l = [])"
  unfolding bb_aggregate_def using bb.aggregate_correct [OF assms] by blast

theorem bb_aggregate_correct_witness:
  "\<exists>p (s :: buddy) A. (p, 64) \<in> A \<and> (\<exists>Z'. bb_owns SmallDoubleConfig (bb_aggregate SmallDoubleConfig s) A Z')"
proof -
  obtain p A Z and s :: buddy where h: "bb_owns SmallDoubleConfig s A Z" "(p, 64) \<in> held SmallDoubleConfig A Z"
    using demo_first_block by blast
  from bb_aggregate_correct [OF h(1)] h(2) show ?thesis by blast
qed

text \<open>The search loop of the binary buddy allocator ends: \<open>allocate_internal\<close> returns on every state of
  the invariant, whatever locks are contended.\<close>

theorem bb_allocate_internal_returns:
  assumes "bb_owns c s A Z" "sz \<le> maxBlockSize c"
  shows "\<exists>x s'. bb_allocate_internal c contended s sz = Some (x, s')"
proof -
  obtain X where "bb_cfg c" "bb_inv c s X Z" using assms(1) by (auto simp: bb_owns_def)
  then show ?thesis using bb_allocate_cases [OF _ _ assms(2), of s X Z contended] by fast
qed

theorem bb_allocate_internal_returns_witness:
  "\<exists>x s'. bb_allocate_internal SmallDoubleConfig (\<lambda>l. l = RegionLock 0) bb_demo 16 = Some (x, s')"
  by (rule bb_allocate_internal_returns [OF bb_demo_owns]) (simp add: small_double_levels)

text \<open>C34. Clients of a new, empty binary buddy allocator that allocate any sizes, release blocks with the size
  they asked for and empty the lazy lists, in any order and with any locks contended, never hold two
  overlapping blocks, and every byte they hold is in the heap.\<close>

theorem bb_clients_apart:
  assumes "bb_cfg c" "bb_storage c start"
  shows "blocks_apart c (client_run c (bb_alloc c) (bb_deallocate_internal c) ops (bb_new c links0 sm0 fb0 start lazyThreshold False, []))"
  by (rule bb.run_apart [OF bb_new_owns(1) [OF assms]]) simp

theorem bb_clients_apart_witness:
  "blocks_apart SmallDoubleConfig (client_run SmallDoubleConfig (bb_alloc SmallDoubleConfig)
     (bb_deallocate_internal SmallDoubleConfig) [Allocate 40 (\<lambda>_. False), Allocate 16 (\<lambda>_. True), Release 0, Aggregate] (bb_demo, []))"
  unfolding bb_demo_def by (rule bb_clients_apart [OF small_double_bb demo_storage])

subsection \<open>The bitmap tree buddy allocator\<close>

text \<open>C35. Clients of a new, empty bitmap tree buddy allocator that allocate any sizes, release blocks with the size
  they asked for and empty the lazy lists, in any order and with any locks contended, never hold two
  overlapping blocks, and every byte they hold is in the heap.\<close>

theorem bt_clients_apart:
  assumes "bt_cfg c" "tree_storage c tree0" "bb_storage c start"
  shows "blocks_apart c (client_run c (bt_allocate_internal c) (bt_deallocate_internal c) ops
    (bt_new c links0 sm0 fb0 tree0 start lazyThreshold False, []))"
  by (rule bt.run_apart [OF bt_new_owns [OF assms]]) simp

theorem bt_clients_apart_witness:
  "blocks_apart SmallDoubleConfig (client_run SmallDoubleConfig (bt_allocate_internal SmallDoubleConfig)
     (bt_deallocate_internal SmallDoubleConfig) [Allocate 40 (\<lambda>_. False), Allocate 16 (\<lambda>_. True), Release 0, Aggregate] (bt_demo, []))"
  unfolding bt_demo_def
  by (rule bt_clients_apart [OF small_double_bt _ demo_storage]) (simp add: tree_storage_def small_double_levels nth_Cons')

end
