(* ===== verification/Z_Memory.thy ===== *)
theory Z_Memory
  imports Zgc_Prelude
begin

text \<open>
  The free-list manager of address ranges, \<open>zMemory.hpp\<close>, \<open>zMemory.inline.hpp\<close> and
  \<open>zMemory.cpp\<close>, used for virtual and for physical memory. A \<open>ZMemory\<close> is a half-open range
  of offsets. The free list is the sequence that a \<open>ZList\<close> represents (theory \<open>Z_List\<close>).
  Callbacks are recorded in a trace, if registered, with the area as they see it. An
  address of \<open>UINTPTR_MAX\<close>, out of memory, is \<open>None\<close>. Assertions that bound offsets are
  invariants, not branches.
\<close>

record zmemory =
  zm_start :: nat
  zm_end :: nat

definition zm_new :: "nat \<Rightarrow> nat \<Rightarrow> zmemory" where
  "zm_new start sz = \<lparr>zm_start = start, zm_end = start + sz\<rparr>"

definition zm_size :: "zmemory \<Rightarrow> nat" where
  "zm_size a = zm_end a - zm_start a"

definition zm_shrink_from_front :: "zmemory \<Rightarrow> nat \<Rightarrow> zmemory" where
  "zm_shrink_from_front a sz = a\<lparr>zm_start := zm_start a + sz\<rparr>"

definition zm_shrink_from_back :: "zmemory \<Rightarrow> nat \<Rightarrow> zmemory" where
  "zm_shrink_from_back a sz = a\<lparr>zm_end := zm_end a - sz\<rparr>"

definition zm_grow_from_front :: "zmemory \<Rightarrow> nat \<Rightarrow> zmemory" where
  "zm_grow_from_front a sz = a\<lparr>zm_start := zm_start a - sz\<rparr>"

definition zm_grow_from_back :: "zmemory \<Rightarrow> nat \<Rightarrow> zmemory" where
  "zm_grow_from_back a sz = a\<lparr>zm_end := zm_end a + sz\<rparr>"

datatype zm_callback = CbCreate | CbDestroy | CbShrinkFront | CbShrinkBack | CbGrowFront | CbGrowBack

record zm_event =
  ev_kind :: zm_callback
  ev_area :: zmemory
  ev_size :: nat

record zm_manager =
  freelist :: "zmemory list"
  registered :: "zm_callback \<Rightarrow> bool"
  trace :: "zm_event list"

definition zmm_new :: zm_manager where
  "zmm_new = \<lparr>freelist = [], registered = (\<lambda>_. False), trace = []\<rparr>"

definition register_callbacks :: "zm_manager \<Rightarrow> (zm_callback \<Rightarrow> bool) \<Rightarrow> zm_manager" where
  "register_callbacks m cb = m\<lparr>registered := cb\<rparr>"

definition call_back :: "zm_manager \<Rightarrow> zm_callback \<Rightarrow> zmemory \<Rightarrow> nat \<Rightarrow> zm_manager" where
  "call_back m k a sz =
     (if registered m k then m\<lparr>trace := trace m @ [\<lparr>ev_kind = k, ev_area = a, ev_size = sz\<rparr>]\<rparr> else m)"

text \<open>Each of these returns the manager and, except for destruction, the area after the change.\<close>

definition zmm_create :: "zm_manager \<Rightarrow> nat \<Rightarrow> nat \<Rightarrow> zmemory \<times> zm_manager" where
  "zmm_create m start sz = (zm_new start sz, call_back m CbCreate (zm_new start sz) 0)"

definition zmm_destroy :: "zm_manager \<Rightarrow> zmemory \<Rightarrow> zm_manager" where
  "zmm_destroy m area = call_back m CbDestroy area 0"

definition zmm_shrink_from_front :: "zm_manager \<Rightarrow> zmemory \<Rightarrow> nat \<Rightarrow> zmemory \<times> zm_manager" where
  "zmm_shrink_from_front m area sz = (zm_shrink_from_front area sz, call_back m CbShrinkFront area sz)"

definition zmm_shrink_from_back :: "zm_manager \<Rightarrow> zmemory \<Rightarrow> nat \<Rightarrow> zmemory \<times> zm_manager" where
  "zmm_shrink_from_back m area sz = (zm_shrink_from_back area sz, call_back m CbShrinkBack area sz)"

definition zmm_grow_from_front :: "zm_manager \<Rightarrow> zmemory \<Rightarrow> nat \<Rightarrow> zmemory \<times> zm_manager" where
  "zmm_grow_from_front m area sz = (zm_grow_from_front area sz, call_back m CbGrowFront area sz)"

definition zmm_grow_from_back :: "zm_manager \<Rightarrow> zmemory \<Rightarrow> nat \<Rightarrow> zmemory \<times> zm_manager" where
  "zmm_grow_from_back m area sz = (zm_grow_from_back area sz, call_back m CbGrowBack area sz)"

definition free_is_contiguous :: "zm_manager \<Rightarrow> bool" where
  "free_is_contiguous m \<longleftrightarrow> length (freelist m) = 1"

definition peek_low_address :: "zm_manager \<Rightarrow> nat option" where
  "peek_low_address m = (case freelist m of area # _ \<Rightarrow> Some (zm_start area) | [] \<Rightarrow> None)"

text \<open>The loops keep the areas already passed in \<open>pre\<close>, so the list can be put together again.\<close>

fun alloc_low_loop :: "zm_manager \<Rightarrow> nat \<Rightarrow> zmemory list \<Rightarrow> zmemory list \<Rightarrow> nat option \<times> zm_manager" where
  "alloc_low_loop m sz pre [] = (None, m)"
| "alloc_low_loop m sz pre (area # rest) =
     (if zm_size area \<ge> sz
      then if zm_size area = sz
           then (Some (zm_start area), zmm_destroy (m\<lparr>freelist := pre @ rest\<rparr>) area)
           else (case zmm_shrink_from_front m area sz of (area', m') \<Rightarrow>
             (Some (zm_start area), m'\<lparr>freelist := pre @ area' # rest\<rparr>))
      else alloc_low_loop m sz (pre @ [area]) rest)"

definition alloc_low_address :: "zm_manager \<Rightarrow> nat \<Rightarrow> nat option \<times> zm_manager" where
  "alloc_low_address m sz = alloc_low_loop m sz [] (freelist m)"

definition alloc_low_address_at_most :: "zm_manager \<Rightarrow> nat \<Rightarrow> (nat option \<times> nat) \<times> zm_manager" where
  "alloc_low_address_at_most m sz =
     (case freelist m of
        area # rest \<Rightarrow>
          if zm_size area \<le> sz
          then ((Some (zm_start area), zm_size area), zmm_destroy (m\<lparr>freelist := rest\<rparr>) area)
          else (case zmm_shrink_from_front m area sz of (area', m') \<Rightarrow>
                 ((Some (zm_start area), sz), m'\<lparr>freelist := area' # rest\<rparr>))
      | [] \<Rightarrow> ((None, 0), m))"

text \<open>The reverse loop runs over the reversed list; \<open>post\<close> holds the areas already passed.\<close>

fun alloc_high_loop :: "zm_manager \<Rightarrow> nat \<Rightarrow> zmemory list \<Rightarrow> zmemory list \<Rightarrow> nat option \<times> zm_manager" where
  "alloc_high_loop m sz post [] = (None, m)"
| "alloc_high_loop m sz post (area # rest) =
     (if zm_size area \<ge> sz
      then if zm_size area = sz
           then (Some (zm_start area), zmm_destroy (m\<lparr>freelist := rev rest @ post\<rparr>) area)
           else (case zmm_shrink_from_back m area sz of (area', m') \<Rightarrow>
             (Some (zm_end area'), m'\<lparr>freelist := rev rest @ area' # post\<rparr>))
      else alloc_high_loop m sz (area # post) rest)"

definition alloc_high_address :: "zm_manager \<Rightarrow> nat \<Rightarrow> nat option \<times> zm_manager" where
  "alloc_high_address m sz = alloc_high_loop m sz [] (rev (freelist m))"

text \<open>\<open>pre\<close> holds the areas already passed, the last one first.\<close>

fun free_loop :: "zm_manager \<Rightarrow> nat \<Rightarrow> nat \<Rightarrow> zmemory list \<Rightarrow> zmemory list \<Rightarrow> zm_manager" where
  "free_loop m start sz pre [] =
     (case pre of
        final # before \<Rightarrow>
          if start = zm_end final
          then (case zmm_grow_from_back m final sz of (final', m') \<Rightarrow> m'\<lparr>freelist := rev before @ [final']\<rparr>)
          else (case zmm_create m start sz of (new_area, m') \<Rightarrow> m'\<lparr>freelist := rev pre @ [new_area]\<rparr>)
      | [] \<Rightarrow> (case zmm_create m start sz of (new_area, m') \<Rightarrow> m'\<lparr>freelist := [new_area]\<rparr>))"
| "free_loop m start sz pre (area # rest) =
     (if start < zm_start area
      then
        let end = start + sz; touches_prev = (case pre of [] \<Rightarrow> False | prev # _ \<Rightarrow> start = zm_end prev)
        in if touches_prev
           then if end = zm_start area
                then (case zmm_grow_from_back m (hd pre) (sz + zm_size area) of (prev', m') \<Rightarrow>
                       m'\<lparr>freelist := rev (tl pre) @ prev' # rest\<rparr>)
                else (case zmm_grow_from_back m (hd pre) sz of (prev', m') \<Rightarrow>
                       m'\<lparr>freelist := rev (tl pre) @ prev' # area # rest\<rparr>)
           else if end = zm_start area
           then (case zmm_grow_from_front m area sz of (area', m') \<Rightarrow> m'\<lparr>freelist := rev pre @ area' # rest\<rparr>)
           else (case zmm_create m start sz of (new_area, m') \<Rightarrow>
                  m'\<lparr>freelist := rev pre @ new_area # area # rest\<rparr>)
      else free_loop m start sz (area # pre) rest)"

definition zmm_free :: "zm_manager \<Rightarrow> nat \<Rightarrow> nat \<Rightarrow> zm_manager" where
  "zmm_free m start sz = free_loop m start sz [] (freelist m)"

lemmas zm_ops = zm_new_def zm_size_def zm_shrink_from_front_def zm_shrink_from_back_def
  zm_grow_from_front_def zm_grow_from_back_def zmm_create_def zmm_destroy_def zmm_shrink_from_front_def
  zmm_shrink_from_back_def zmm_grow_from_front_def zmm_grow_from_back_def

subsection \<open>Specification\<close>

text \<open>The areas are not empty, sorted and neither overlap nor touch; they stand for a set of offsets.\<close>

fun areas_ok :: "nat \<Rightarrow> zmemory list \<Rightarrow> bool" where
  "areas_ok lo [] \<longleftrightarrow> True"
| "areas_ok lo (a # as) \<longleftrightarrow> lo \<le> zm_start a \<and> zm_start a < zm_end a \<and> areas_ok (Suc (zm_end a)) as"

definition area_set :: "zmemory \<Rightarrow> nat set" where
  "area_set a = {zm_start a ..< zm_end a}"

definition free_set :: "zm_manager \<Rightarrow> nat set" where
  "free_set m = (\<Union>a \<in> set (freelist m). area_set a)"

definition zmm_inv :: "zm_manager \<Rightarrow> bool" where
  "zmm_inv m \<longleftrightarrow> areas_ok 0 (freelist m)"

definition fits :: "nat set \<Rightarrow> nat \<Rightarrow> nat \<Rightarrow> bool" where
  "fits F sz p \<longleftrightarrow> {p ..< p + sz} \<subseteq> F"

text \<open>What a client that hears every callback believes to be free.\<close>

definition hear :: "nat set \<Rightarrow> zm_event \<Rightarrow> nat set" where
  "hear F e = (let a = ev_area e; n = ev_size e in
     case ev_kind e of
       CbCreate \<Rightarrow> F \<union> area_set a
     | CbDestroy \<Rightarrow> F - area_set a
     | CbShrinkFront \<Rightarrow> F - {zm_start a ..< zm_start a + n}
     | CbShrinkBack \<Rightarrow> F - {zm_end a - n ..< zm_end a}
     | CbGrowFront \<Rightarrow> F \<union> {zm_start a - n ..< zm_start a}
     | CbGrowBack \<Rightarrow> F \<union> {zm_end a ..< zm_end a + n})"

definition heard :: "zm_manager \<Rightarrow> nat set" where
  "heard m = foldl hear {} (trace m)"

lemma call_back_freelist [simp]: "freelist (call_back m k a n) = freelist m"
  by (simp add: call_back_def)

lemma areas_ok_mono: "areas_ok lo as \<Longrightarrow> lo' \<le> lo \<Longrightarrow> areas_ok lo' as"
  by (cases as) auto

lemma areas_ok_append:
  "areas_ok lo (xs @ a # ys) \<longleftrightarrow> areas_ok lo xs \<and> (\<forall>b \<in> set xs. zm_end b < zm_start a) \<and> lo \<le> zm_start a
     \<and> zm_start a < zm_end a \<and> areas_ok (Suc (zm_end a)) ys"
proof (induction xs arbitrary: lo)
  case (Cons x xs)
  then show ?case by (auto simp: Suc_le_eq)
qed auto

lemma areas_ok_after: "areas_ok lo as \<Longrightarrow> b \<in> set as \<Longrightarrow> lo \<le> zm_start b \<and> zm_start b < zm_end b"
  by (induction as arbitrary: lo) fastforce+

lemma area_end_not_free: "areas_ok lo as \<Longrightarrow> a \<in> set as \<Longrightarrow> zm_end a \<notin> (\<Union>b \<in> set as. area_set b)"
proof -
  assume ok: "areas_ok lo as" and a: "a \<in> set as"
  obtain xs ys where as: "as = xs @ a # ys" using a by (auto simp: in_set_conv_decomp)
  have ys: "areas_ok (Suc (zm_end a)) ys" and xs: "\<forall>b \<in> set xs. zm_end b < zm_start a" and a1: "zm_start a < zm_end a"
    using ok unfolding as areas_ok_append by auto
  show ?thesis
    using xs a1 areas_ok_after [OF ys] by (fastforce simp: as area_set_def)
qed

text \<open>A contiguous free range lies in a single area, because areas do not touch.\<close>

lemma fits_one_area:
  assumes "areas_ok lo as" "0 < sz" "fits (\<Union>b \<in> set as. area_set b) sz q"
  shows "\<exists>a \<in> set as. zm_start a \<le> q \<and> q + sz \<le> zm_end a"
proof -
  have "q \<in> {q ..< q + sz}" using assms(2) by simp
  then have "q \<in> (\<Union>b \<in> set as. area_set b)" using assms(3) unfolding fits_def by blast
  then obtain a where a: "a \<in> set as" "zm_start a \<le> q" "q < zm_end a" by (auto simp: area_set_def)
  have "\<not> zm_end a < q + sz"
  proof
    assume "zm_end a < q + sz"
    then have "zm_end a \<in> (\<Union>b \<in> set as. area_set b)" using assms(3) a unfolding fits_def by fastforce
    then show False using area_end_not_free [OF assms(1) a(1)] by blast
  qed
  then show ?thesis using a by (intro bexI [of _ a]) auto
qed

lemma free_set_split:
  "freelist m = xs @ a # ys \<Longrightarrow> free_set m = (\<Union>b \<in> set xs. area_set b) \<union> area_set a \<union> (\<Union>b \<in> set ys. area_set b)"
  by (auto simp: free_set_def)

lemma others_disjoint:
  assumes "areas_ok lo (xs @ a # ys)" "b \<in> set xs \<union> set ys"
  shows "area_set b \<inter> area_set a = {}"
proof -
  have ys: "areas_ok (Suc (zm_end a)) ys" and xs: "\<forall>b \<in> set xs. zm_end b < zm_start a"
    using assms(1) unfolding areas_ok_append by auto
  show ?thesis using assms(2) xs areas_ok_after [OF ys, of b] by (auto simp: area_set_def)
qed

subsection \<open>Allocation\<close>

text \<open>Taking a range out of one area.\<close>

lemma take_front:
  assumes "areas_ok 0 (xs @ a # ys)" "freelist m = xs @ a # ys" "freelist m' = xs @ a' # ys"
    "zm_start a' = zm_start a + sz" "zm_end a' = zm_end a" "sz < zm_size a" "0 < sz"
  shows "zmm_inv m' \<and> free_set m' = free_set m - {zm_start a ..< zm_start a + sz}"
proof -
  have "area_set a' = area_set a - {zm_start a ..< zm_start a + sz}" "{zm_start a ..< zm_start a + sz} \<subseteq> area_set a"
    using assms(4-6) by (auto simp: area_set_def zm_size_def)
  moreover have "zmm_inv m'" using assms by (auto simp: zmm_inv_def areas_ok_append zm_size_def)
  ultimately show ?thesis using others_disjoint [OF assms(1)]
    unfolding free_set_split [OF assms(2)] free_set_split [OF assms(3)] by blast
qed

lemma take_back:
  assumes "areas_ok 0 (xs @ a # ys)" "freelist m = xs @ a # ys" "freelist m' = xs @ a' # ys"
    "zm_start a' = zm_start a" "zm_end a' = zm_end a - sz" "sz < zm_size a" "0 < sz"
  shows "zmm_inv m' \<and> free_set m' = free_set m - {zm_end a' ..< zm_end a' + sz}"
proof -
  have "area_set a' = area_set a - {zm_end a' ..< zm_end a' + sz}" "{zm_end a' ..< zm_end a' + sz} \<subseteq> area_set a"
    using assms(4-6) by (auto simp: area_set_def zm_size_def)
  moreover have "zmm_inv m'"
    using assms by (auto simp: zmm_inv_def areas_ok_append zm_size_def intro: areas_ok_mono)
  ultimately show ?thesis using others_disjoint [OF assms(1)]
    unfolding free_set_split [OF assms(2)] free_set_split [OF assms(3)] by blast
qed

lemma take_all:
  assumes "areas_ok 0 (xs @ a # ys)" "freelist m = xs @ a # ys" "freelist m' = xs @ ys"
  shows "zmm_inv m' \<and> free_set m' = free_set m - area_set a"
proof -
  have "zmm_inv m'" using assms
  proof (cases ys)
    case (Cons y ys')
    then show ?thesis using assms by (auto simp: zmm_inv_def areas_ok_append)
  qed (auto simp: zmm_inv_def areas_ok_append)
  moreover have "free_set m' = (\<Union>b \<in> set xs. area_set b) \<union> (\<Union>b \<in> set ys. area_set b)"
    using assms(3) by (auto simp: free_set_def)
  ultimately show ?thesis using others_disjoint [OF assms(1)] unfolding free_set_split [OF assms(2)] by blast
qed

lemma alloc_low_loop_spec:
  "freelist m = pre @ rest \<Longrightarrow> areas_ok 0 (pre @ rest) \<Longrightarrow> \<forall>a \<in> set pre. zm_size a < sz \<Longrightarrow> 0 < sz \<Longrightarrow>
   case alloc_low_loop m sz pre rest of
     (Some p, m') \<Rightarrow> zmm_inv m' \<and> fits (free_set m) sz p \<and> free_set m' = free_set m - {p ..< p + sz}
       \<and> (\<forall>q < p. \<not> fits (free_set m) sz q)
   | (None, m') \<Rightarrow> m' = m \<and> (\<forall>q. \<not> fits (free_set m) sz q)"
proof (induction rest arbitrary: pre)
  case Nil
  have "\<not> fits (free_set m) sz q" for q
    using fits_one_area [OF Nil(2,4), of q] Nil(1,3) by (force simp: free_set_def zm_size_def)
  then show ?case by simp
next
  case (Cons a rest)
  show ?case
  proof (cases "sz \<le> zm_size a")
    case False
    then have "\<forall>b \<in> set (pre @ [a]). zm_size b < sz" using Cons.prems(3) by auto
    then show ?thesis using Cons.IH [of "pre @ [a]"] Cons.prems False by simp
  next
    case True
    have fit: "fits (free_set m) sz (zm_start a)"
      unfolding fits_def free_set_split [OF Cons.prems(1)] using True by (auto simp: area_set_def zm_size_def)
    have low: "\<not> fits (free_set m) sz q" if "q < zm_start a" for q
    proof
      assume "fits (free_set m) sz q"
      then obtain b where b: "b \<in> set (pre @ a # rest)" "zm_start b \<le> q" "q + sz \<le> zm_end b"
        using fits_one_area [OF Cons.prems(2,4), of q] Cons.prems(1) by (auto simp: free_set_def)
      have "areas_ok (Suc (zm_end a)) rest" "zm_start a < zm_end a" using Cons.prems(2) unfolding areas_ok_append by auto
      then have "b \<notin> set rest" using areas_ok_after [of _ rest b] b(2) that by fastforce
      then have "b \<in> set pre" using b that by auto
      then show False using Cons.prems(3) b(2,3) by (auto simp: zm_size_def)
    qed
    show ?thesis
    proof (cases "zm_size a = sz")
      case sz: True
      have "0 < zm_size a" using sz Cons.prems(4) by simp
      then have e: "area_set a = {zm_start a ..< zm_start a + sz}" using sz by (auto simp: area_set_def zm_size_def)
      show ?thesis using take_all [OF Cons.prems(2,1), of "zmm_destroy (m\<lparr>freelist := pre @ rest\<rparr>) a"] True sz fit low
        by (simp add: zmm_destroy_def e)
    next
      case sz: False
      then have "sz < zm_size a" using True by simp
      then show ?thesis
        using take_front [OF Cons.prems(2,1), of "(call_back m CbShrinkFront a sz)\<lparr>freelist := pre @ zm_shrink_from_front a sz # rest\<rparr>"
            "zm_shrink_from_front a sz" sz] True sz fit low Cons.prems(4)
        by (simp add: zmm_shrink_from_front_def zm_shrink_from_front_def)
    qed
  qed
qed

lemma alloc_high_loop_spec:
  "freelist m = rev rest @ post \<Longrightarrow> areas_ok 0 (rev rest @ post) \<Longrightarrow> \<forall>a \<in> set post. zm_size a < sz \<Longrightarrow> 0 < sz \<Longrightarrow>
   case alloc_high_loop m sz post rest of
     (Some p, m') \<Rightarrow> zmm_inv m' \<and> fits (free_set m) sz p \<and> free_set m' = free_set m - {p ..< p + sz}
       \<and> (\<forall>q > p. \<not> fits (free_set m) sz q)
   | (None, m') \<Rightarrow> m' = m \<and> (\<forall>q. \<not> fits (free_set m) sz q)"
proof (induction rest arbitrary: post)
  case Nil
  have "\<not> fits (free_set m) sz q" for q
    using fits_one_area [OF Nil(2,4), of q] Nil(1,3) by (force simp: free_set_def zm_size_def)
  then show ?case by simp
next
  case (Cons a rest)
  have fl: "freelist m = rev rest @ a # post" "areas_ok 0 (rev rest @ a # post)" using Cons.prems by simp_all
  show ?case
  proof (cases "sz \<le> zm_size a")
    case False
    then have "\<forall>b \<in> set (a # post). zm_size b < sz" using Cons.prems(3) by auto
    then show ?thesis using Cons.IH [of "a # post"] fl Cons.prems(4) False by simp
  next
    case True
    let ?p = "zm_end a - sz"
    have ae: "zm_start a < zm_end a" using fl(2) unfolding areas_ok_append by auto
    have fit: "fits (free_set m) sz ?p"
      unfolding fits_def free_set_split [OF fl(1)] using True by (auto simp: area_set_def zm_size_def)
    have high: "\<not> fits (free_set m) sz q" if "?p < q" for q
    proof
      assume "fits (free_set m) sz q"
      then obtain b where b: "b \<in> set (rev rest @ a # post)" "zm_start b \<le> q" "q + sz \<le> zm_end b"
        using fits_one_area [OF fl(2) Cons.prems(4), of q] fl(1) by (auto simp: free_set_def)
      have "\<forall>b \<in> set rest. zm_end b < zm_start a" using fl(2) unfolding areas_ok_append by simp
      then have "b \<notin> set rest" using b(3) that ae by fastforce
      then have "b \<in> set post" using b that by auto
      then show False using Cons.prems(3) b(2,3) by (auto simp: zm_size_def)
    qed
    show ?thesis
    proof (cases "zm_size a = sz")
      case sz: True
      then have e: "area_set a = {?p ..< ?p + sz}" "?p = zm_start a" using ae by (auto simp: area_set_def zm_size_def)
      show ?thesis using take_all [OF fl(2,1), of "zmm_destroy (m\<lparr>freelist := rev rest @ post\<rparr>) a"] True sz fit high
        by (simp add: zmm_destroy_def e)
    next
      case sz: False
      then have "sz < zm_size a" using True by simp
      then show ?thesis
        using take_back [OF fl(2,1), of "(call_back m CbShrinkBack a sz)\<lparr>freelist := rev rest @ zm_shrink_from_back a sz # post\<rparr>"
            "zm_shrink_from_back a sz" sz] True sz fit high Cons.prems(4)
        by (simp add: zmm_shrink_from_back_def zm_shrink_from_back_def)
    qed
  qed
qed

text \<open>Allocation from the low end returns the lowest address at which a free range of the size
  begins, takes exactly that range out of the free set and keeps the list sorted and
  coalesced; it fails, changing nothing, only if no such range is free.\<close>

theorem alloc_low_address_lowest:
  assumes "zmm_inv m" "0 < sz"
  shows "case alloc_low_address m sz of
     (Some p, m') \<Rightarrow> zmm_inv m' \<and> fits (free_set m) sz p \<and> free_set m' = free_set m - {p ..< p + sz}
       \<and> (\<forall>q < p. \<not> fits (free_set m) sz q)
   | (None, m') \<Rightarrow> m' = m \<and> (\<forall>q. \<not> fits (free_set m) sz q)"
  unfolding alloc_low_address_def
  by (rule alloc_low_loop_spec) (use assms in \<open>simp_all add: zmm_inv_def\<close>)

text \<open>Allocation from the high end returns the highest address at which a free range of the size
  begins, takes exactly that range and keeps the list sorted and coalesced.\<close>

theorem alloc_high_address_highest:
  assumes "zmm_inv m" "0 < sz"
  shows "case alloc_high_address m sz of
     (Some p, m') \<Rightarrow> zmm_inv m' \<and> fits (free_set m) sz p \<and> free_set m' = free_set m - {p ..< p + sz}
       \<and> (\<forall>q > p. \<not> fits (free_set m) sz q)
   | (None, m') \<Rightarrow> m' = m \<and> (\<forall>q. \<not> fits (free_set m) sz q)"
  unfolding alloc_high_address_def
  by (rule alloc_high_loop_spec) (use assms in \<open>simp_all add: zmm_inv_def\<close>)

definition zmm_demo :: zm_manager where
  "zmm_demo = \<lparr>freelist = [\<lparr>zm_start = 2, zm_end = 5\<rparr>, \<lparr>zm_start = 8, zm_end = 16\<rparr>],
     registered = (\<lambda>_. True),
     trace = [\<lparr>ev_kind = CbCreate, ev_area = \<lparr>zm_start = 2, zm_end = 5\<rparr>, ev_size = 0\<rparr>,
       \<lparr>ev_kind = CbCreate, ev_area = \<lparr>zm_start = 8, zm_end = 16\<rparr>, ev_size = 0\<rparr>]\<rparr>"

lemma zmm_demo_inv: "zmm_inv zmm_demo"
  by (simp add: zmm_inv_def zmm_demo_def)

theorem alloc_low_address_lowest_witness:
  "fst (alloc_low_address zmm_demo 4) = Some 8 \<and> zmm_inv (snd (alloc_low_address zmm_demo 4))"
  using alloc_low_address_lowest [OF zmm_demo_inv, of 4]
  by (simp add: alloc_low_address_def zmm_demo_def zm_ops)

theorem alloc_high_address_highest_witness:
  "fst (alloc_high_address zmm_demo 3) = Some 13 \<and> zmm_inv (snd (alloc_high_address zmm_demo 3))"
  using alloc_high_address_highest [OF zmm_demo_inv, of 3]
  by (simp add: alloc_high_address_def zmm_demo_def zm_ops)

subsection \<open>Release\<close>

lemma areas_ok_two:
  "areas_ok lo (xs @ a # b # ys) \<longleftrightarrow> areas_ok lo (xs @ [a]) \<and> zm_end a < zm_start b \<and> zm_start b < zm_end b
     \<and> areas_ok (Suc (zm_end b)) ys"
  by (auto simp: areas_ok_append Suc_le_eq)

lemma free_loop_spec:
  "freelist m = rev pre @ rest \<Longrightarrow> areas_ok 0 (rev pre @ rest) \<Longrightarrow> \<forall>b \<in> set pre. zm_end b \<le> start \<Longrightarrow>
   {start ..< start + sz} \<inter> free_set m = {} \<Longrightarrow> 0 < sz \<Longrightarrow>
   zmm_inv (free_loop m start sz pre rest)
     \<and> free_set (free_loop m start sz pre rest) = free_set m \<union> {start ..< start + sz}"
proof (induction rest arbitrary: pre)
  case Nil
  show ?case
  proof (cases pre)
    case Nil
    then show ?thesis using Nil.prems by (auto simp: zmm_inv_def free_set_def area_set_def zm_ops)
  next
    case (Cons p before)
    then have fl: "freelist m = rev before @ p # []" "areas_ok 0 (rev before @ p # [])" using Nil.prems by simp_all
    show ?thesis
    proof (cases "start = zm_end p")
      case True
      let ?p = "zm_grow_from_back p sz"
      have m: "freelist (free_loop m start sz pre []) = rev before @ ?p # []"
        using Cons True by (simp add: zmm_grow_from_back_def)
      have "area_set ?p = area_set p \<union> {start ..< start + sz}"
        using True fl(2) unfolding areas_ok_append by (auto simp: area_set_def zm_grow_from_back_def)
      moreover have "areas_ok 0 (rev before @ ?p # [])"
        using fl(2) by (auto simp: areas_ok_append zm_grow_from_back_def)
      ultimately show ?thesis using m unfolding zmm_inv_def free_set_split [OF fl(1)] free_set_split [OF m] by auto
    next
      case False
      then have lt: "zm_end p < start" using Nil.prems(3) Cons by auto
      have m: "freelist (free_loop m start sz pre []) = rev before @ p # zm_new start sz # []"
        using Cons False by (simp add: zmm_create_def Let_def)
      have "areas_ok 0 (rev before @ p # zm_new start sz # [])"
        using fl(2) lt Nil.prems(5) by (auto simp: areas_ok_append zm_new_def)
      then show ?thesis using m unfolding zmm_inv_def free_set_split [OF fl(1)] free_set_split [OF m]
        by (auto simp: area_set_def zm_new_def)
    qed
  qed
next
  case (Cons a rest)
  have ae: "zm_start a < zm_end a" "areas_ok (Suc (zm_end a)) rest" and before: "\<forall>b \<in> set pre. zm_end b < zm_start a"
    and okp: "areas_ok 0 (rev pre)"
    using Cons.prems(2) unfolding areas_ok_append by auto
  have as: "area_set a \<subseteq> free_set m" using Cons.prems(1) by (auto simp: free_set_def)
  show ?case
  proof (cases "start < zm_start a")
    case False
    have "zm_end a \<le> start"
    proof (rule ccontr)
      assume "\<not> zm_end a \<le> start"
      then have "start \<in> area_set a" "start \<in> {start ..< start + sz}" using False Cons.prems(5) by (simp_all add: area_set_def)
      then show False using as Cons.prems(4) by blast
    qed
    then show ?thesis using Cons.IH [of "a # pre"] Cons.prems False by simp
  next
    case True
    have endle: "start + sz \<le> zm_start a"
    proof (rule ccontr)
      assume "\<not> start + sz \<le> zm_start a"
      then have "zm_start a \<in> {start ..< start + sz}" "zm_start a \<in> area_set a" using True ae by (simp_all add: area_set_def)
      then show False using as Cons.prems(4) by blast
    qed
    let ?m' = "free_loop m start sz pre (a # rest)"
    show ?thesis
    proof (cases "\<exists>p before. pre = p # before \<and> start = zm_end p")
      case t: True
      then obtain p bef where p: "pre = p # bef" "start = zm_end p" by blast
      have fl: "freelist m = rev bef @ p # a # rest" using Cons.prems(1) p by simp
      have ok: "areas_ok 0 (rev bef @ p # [])" using okp p by simp
      then have pe: "zm_start p < zm_end p" unfolding areas_ok_append by simp
      show ?thesis
      proof (cases "start + sz = zm_start a")
        case e: True
        let ?p = "zm_grow_from_back p (sz + zm_size a)"
        have m: "freelist ?m' = rev bef @ ?p # rest" using p True e by (simp add: zmm_grow_from_back_def)
        have "zm_end ?p = zm_end a" using p e ae by (simp add: zm_grow_from_back_def zm_size_def)
        then have "areas_ok 0 (rev bef @ ?p # rest)"
          using ok ae pe p(2) True by (auto simp: areas_ok_append zm_grow_from_back_def)
        moreover have "area_set ?p = area_set p \<union> {start ..< start + sz} \<union> area_set a"
          using p e ae pe by (auto simp: area_set_def zm_grow_from_back_def zm_size_def)
        ultimately show ?thesis using m unfolding zmm_inv_def free_set_split [OF fl] free_set_split [OF m] by auto
      next
        case e: False
        let ?p = "zm_grow_from_back p sz"
        have m: "freelist ?m' = rev bef @ ?p # a # rest" using p True e by (simp add: zmm_grow_from_back_def)
        have "areas_ok 0 (rev bef @ ?p # a # rest)"
          using ok ae pe p(2) endle e by (auto simp: areas_ok_append zm_grow_from_back_def)
        moreover have "area_set ?p = area_set p \<union> {start ..< start + sz}"
          using p pe by (auto simp: area_set_def zm_grow_from_back_def)
        ultimately show ?thesis using m unfolding zmm_inv_def free_set_split [OF fl] free_set_split [OF m] by auto
      qed
    next
      case t: False
      then have np: "(case pre of [] \<Rightarrow> False | prev # _ \<Rightarrow> start = zm_end prev) = False" by (cases pre) auto
      have gap: "\<forall>b \<in> set pre. zm_end b < start"
      proof (cases pre)
        case (Cons p bef)
        have "zm_end p < start" using t Cons Cons.prems(3) by fastforce
        moreover have "\<forall>b \<in> set bef. zm_end b < zm_start p" "zm_start p < zm_end p"
          using okp unfolding Cons rev.simps areas_ok_append by auto
        ultimately show ?thesis using Cons by fastforce
      qed simp
      show ?thesis
      proof (cases "start + sz = zm_start a")
        case e: True
        let ?a = "zm_grow_from_front a sz"
        have m: "freelist ?m' = rev pre @ ?a # rest" using True e np by (simp add: zmm_grow_from_front_def Let_def)
        have st: "zm_start ?a = start" "zm_end ?a = zm_end a" using e by (simp_all add: zm_grow_from_front_def)
        have "areas_ok 0 (rev pre @ ?a # rest)" using okp gap ae True st by (simp add: areas_ok_append)
        moreover have "area_set ?a = {start ..< start + sz} \<union> area_set a"
          using st e ae by (auto simp: area_set_def)
        ultimately show ?thesis using m unfolding zmm_inv_def free_set_split [OF Cons.prems(1)] free_set_split [OF m] by auto
      next
        case e: False
        let ?n = "zm_new start sz"
        have m: "freelist ?m' = rev pre @ ?n # a # rest" using True e np by (simp add: zmm_create_def Let_def)
        have "areas_ok 0 (rev pre @ ?n # a # rest)"
          using okp gap ae Cons.prems(5) endle e by (simp add: areas_ok_append zm_new_def)
        moreover have "area_set ?n = {start ..< start + sz}" by (simp add: area_set_def zm_new_def)
        ultimately show ?thesis using m unfolding zmm_inv_def free_set_split [OF Cons.prems(1)] free_set_split [OF m] by auto
      qed
    qed
  qed
qed

text \<open>C36. Releasing a range that is not free adds exactly that range to the free set and keeps the list
  sorted and coalesced, in every way the range can touch its neighbours.\<close>

theorem zmm_free_adds:
  assumes "zmm_inv m" "{start ..< start + sz} \<inter> free_set m = {}" "0 < sz"
  shows "zmm_inv (zmm_free m start sz) \<and> free_set (zmm_free m start sz) = free_set m \<union> {start ..< start + sz}"
  unfolding zmm_free_def
  by (rule free_loop_spec) (use assms in \<open>simp_all add: zmm_inv_def\<close>)

theorem zmm_free_adds_witness:
  "free_set (zmm_free zmm_demo 5 3) = {2 ..< 16} \<and> length (freelist (zmm_free zmm_demo 5 3)) = 1"
proof -
  have "free_set zmm_demo = {2 ..< 5} \<union> {8 ..< 16}" by (simp add: free_set_def zmm_demo_def area_set_def)
  moreover have "({2 ..< 5} \<union> {8 ..< 16}) \<inter> {5 ..< 8} = ({} :: nat set)"
    "{2 ..< 5} \<union> {8 ..< 16} \<union> {5 ..< 8} = {2 ..< 16 :: nat}" by auto
  ultimately have "free_set (zmm_free zmm_demo 5 3) = {2 ..< 16}"
    using zmm_free_adds [OF zmm_demo_inv, of 5 3] by (simp add: Int_commute)
  moreover have "length (freelist (zmm_free zmm_demo 5 3)) = 1" by (simp add: zmm_free_def zmm_demo_def zm_ops)
  ultimately show ?thesis by blast
qed

subsection \<open>Callbacks\<close>

lemma heard_call_back:
  "registered m k \<Longrightarrow> heard (call_back m k a n) = hear (heard m) \<lparr>ev_kind = k, ev_area = a, ev_size = n\<rparr>"
  by (simp add: heard_def call_back_def)

lemma heard_freelist [simp]: "heard (m\<lparr>freelist := l\<rparr>) = heard m" "registered (m\<lparr>freelist := l\<rparr>) = registered m"
  by (simp_all add: heard_def)

lemma registered_call_back [simp]: "registered (call_back m k a n) = registered m"
  by (simp add: call_back_def)

lemma zm_area_events:
  "zm_start a + n \<le> zm_end a \<Longrightarrow> {zm_start a ..< zm_start a + n} \<subseteq> area_set a"
  by (auto simp: area_set_def)

lemma alloc_low_loop_heard:
  "\<forall>k. registered m k \<Longrightarrow> \<forall>a \<in> set rest. zm_start a < zm_end a \<Longrightarrow>
   heard (snd (alloc_low_loop m sz pre rest)) =
     (case fst (alloc_low_loop m sz pre rest) of Some p \<Rightarrow> heard m - {p ..< p + sz} | None \<Rightarrow> heard m)"
proof (induction rest arbitrary: pre)
  case (Cons a rest)
  then show ?case
    by (auto simp: zmm_destroy_def zmm_shrink_from_front_def heard_call_back hear_def area_set_def zm_size_def)
qed simp

lemma alloc_high_loop_heard:
  "\<forall>k. registered m k \<Longrightarrow> \<forall>a \<in> set rest. zm_start a < zm_end a \<Longrightarrow>
   heard (snd (alloc_high_loop m sz post rest)) =
     (case fst (alloc_high_loop m sz post rest) of Some p \<Rightarrow> heard m - {p ..< p + sz} | None \<Rightarrow> heard m)"
proof (induction rest arbitrary: post)
  case (Cons a rest)
  then show ?case
    by (auto simp: zmm_destroy_def zmm_shrink_from_back_def heard_call_back hear_def area_set_def zm_size_def
        zm_shrink_from_back_def)
qed simp

lemma free_loop_heard:
  "\<forall>k. registered m k \<Longrightarrow> (\<Union>a \<in> set rest. area_set a) \<subseteq> heard m \<Longrightarrow>
   heard (free_loop m start sz pre rest) = heard m \<union> {start ..< start + sz}"
proof (induction rest arbitrary: pre)
  case Nil
  then show ?case
    by (cases pre) (auto simp: zmm_create_def zmm_grow_from_back_def heard_call_back hear_def area_set_def zm_new_def)
next
  case (Cons a rest)
  show ?case
  proof (cases "start < zm_start a")
    case False
    then show ?thesis using Cons by simp
  next
    case True
    have "area_set a \<subseteq> heard m" using Cons.prems by simp
    then show ?thesis using True Cons.prems(1)
      by (cases pre) (auto simp: zmm_create_def zmm_grow_from_back_def zmm_grow_from_front_def heard_call_back hear_def
          area_set_def zm_new_def zm_size_def Let_def)
  qed
qed

text \<open>A client that registers every callback always knows the free set: after an allocation from
  either end and after a release, the ranges announced so far add up to the free set.\<close>

theorem callbacks_track_free_set:
  assumes "zmm_inv m" "\<forall>k. registered m k" "heard m = free_set m" "0 < sz"
  shows "heard (snd (alloc_low_address m sz)) = free_set (snd (alloc_low_address m sz))
    \<and> heard (snd (alloc_high_address m sz)) = free_set (snd (alloc_high_address m sz))
    \<and> ({start ..< start + sz} \<inter> free_set m = {} \<longrightarrow> heard (zmm_free m start sz) = free_set (zmm_free m start sz))"
proof -
  have ok: "areas_ok 0 (freelist m)" using assms(1) by (simp add: zmm_inv_def)
  have ne: "\<forall>a \<in> set (freelist m). zm_start a < zm_end a" using areas_ok_after [OF ok] by blast
  have "heard (snd (alloc_low_address m sz)) = free_set (snd (alloc_low_address m sz))"
    using alloc_low_loop_spec [of m "[]" "freelist m" sz] alloc_low_loop_heard [OF assms(2) ne, of sz "[]"] ok assms(3,4)
    by (auto simp: alloc_low_address_def split: option.splits prod.splits)
  moreover have "heard (snd (alloc_high_address m sz)) = free_set (snd (alloc_high_address m sz))"
    using alloc_high_loop_spec [of m "rev (freelist m)" "[]" sz] alloc_high_loop_heard [OF assms(2), of "rev (freelist m)" sz "[]"]
      ne ok assms(3,4)
    by (auto simp: alloc_high_address_def split: option.splits prod.splits)
  moreover have "heard (zmm_free m start sz) = free_set (zmm_free m start sz)" if "{start ..< start + sz} \<inter> free_set m = {}"
    using free_loop_spec [of m "[]" "freelist m" start sz] free_loop_heard [OF assms(2), of "freelist m" start sz "[]"]
      that ok assms(3,4)
    by (simp add: zmm_free_def free_set_def)
  ultimately show ?thesis by blast
qed

theorem callbacks_track_free_set_witness:
  "heard (zmm_free zmm_demo 5 3) = {2 ..< 16}"
proof -
  have h: "heard zmm_demo = free_set zmm_demo"
    by (auto simp: heard_def hear_def free_set_def zmm_demo_def)
  have f: "free_set zmm_demo = {2 ..< 5} \<union> {8 ..< 16}" by (simp add: free_set_def zmm_demo_def area_set_def)
  have "free_set (zmm_free zmm_demo 5 3) = {2 ..< 16}"
    by (auto simp: zmm_free_def zmm_demo_def zm_ops free_set_def area_set_def)
  then show ?thesis
    using callbacks_track_free_set [OF zmm_demo_inv _ h, of 3 5] f by (auto simp: zmm_demo_def)
qed

text \<open>Taking at most a size from the low end takes the front of the first area, as much as it has
  up to the size, and fails only when nothing is free.\<close>

theorem alloc_at_most_front:
  assumes "zmm_inv m" "0 < sz"
  shows "case alloc_low_address_at_most m sz of
     ((Some p, n), m') \<Rightarrow> zmm_inv m' \<and> 0 < n \<and> n \<le> sz \<and> fits (free_set m) n p \<and> (\<forall>q \<in> free_set m. p \<le> q)
       \<and> free_set m' = free_set m - {p ..< p + n} \<and> (n < sz \<longrightarrow> p + n \<notin> free_set m)
   | ((None, n), m') \<Rightarrow> m' = m \<and> n = 0 \<and> free_set m = {}"
proof (cases "freelist m")
  case Nil
  then show ?thesis by (simp add: alloc_low_address_at_most_def free_set_def)
next
  case (Cons a rest)
  then have fl: "freelist m = [] @ a # rest" by simp
  have ok: "areas_ok 0 ([] @ a # rest)" using assms(1) Cons by (simp add: zmm_inv_def)
  then have ae: "zm_start a < zm_end a" "areas_ok (Suc (zm_end a)) rest" by auto
  have low: "\<forall>q \<in> free_set m. zm_start a \<le> q"
    using areas_ok_after [OF ae(2)] ae(1) by (fastforce simp: free_set_def Cons area_set_def)
  have in_a: "area_set a \<subseteq> free_set m" by (auto simp: free_set_def Cons)
  show ?thesis
  proof (cases "zm_size a \<le> sz")
    case True
    have e: "area_set a = {zm_start a ..< zm_start a + zm_size a}" using ae by (auto simp: area_set_def zm_size_def)
    have "zm_start a + zm_size a \<notin> free_set m"
      using area_end_not_free [OF ok, of a] ae Cons by (simp add: free_set_def zm_size_def)
    then show ?thesis
      using take_all [OF ok fl, of "zmm_destroy (m\<lparr>freelist := rest\<rparr>) a"] True Cons ae low in_a
      by (simp add: alloc_low_address_at_most_def zmm_destroy_def e fits_def zm_size_def)
  next
    case False
    then have "{zm_start a ..< zm_start a + sz} \<subseteq> area_set a" by (auto simp: area_set_def zm_size_def)
    then have "{zm_start a ..< zm_start a + sz} \<subseteq> free_set m" using in_a by (rule subset_trans)
    then show ?thesis
      using take_front [OF ok fl, of "(call_back m CbShrinkFront a sz)\<lparr>freelist := zm_shrink_from_front a sz # rest\<rparr>"
          "zm_shrink_from_front a sz" sz] False Cons low assms(2)
      by (simp add: alloc_low_address_at_most_def zmm_shrink_from_front_def zm_shrink_from_front_def fits_def)
  qed
qed

theorem alloc_at_most_front_witness:
  "fst (alloc_low_address_at_most zmm_demo 10) = (Some 2, 3) \<and> zmm_inv (snd (alloc_low_address_at_most zmm_demo 10))"
  using alloc_at_most_front [OF zmm_demo_inv, of 10]
  by (simp add: alloc_low_address_at_most_def zmm_demo_def zm_ops)

end
