(* ===== verification/Z_Forwarding_Table.thy ===== *)
theory Z_Forwarding_Table
  imports Z_Bit_Field
begin

text \<open>
  The hash table of a forwarding: \<open>zHash.inline.hpp\<close> and the entries of
  \<open>zForwarding.inline.hpp\<close> (\<open>nentries\<close>, \<open>at\<close>, \<open>first\<close>, \<open>next\<close>, \<open>find\<close>, \<open>insert\<close>).
  The table is the list of its 64-bit entries, of a power of two length, searched by linear
  probing. \<open>fwd_find\<close> and \<open>fwd_insert\<close> run the code of one thread to its end; their loops
  need not end on a full table, so they are partial functions. \<open>fwd_step\<close> interleaves the
  relocating threads: each step is one atomic load or compare-and-exchange.
\<close>

definition uint32_to_uint32 :: "u32 \<Rightarrow> u32" where
  "uint32_to_uint32 key0 =
     (let key1 = NOT key0 + push_bit 15 key0;
          key2 = key1 XOR drop_bit 12 key1;
          key3 = key2 + push_bit 2 key2;
          key4 = key3 XOR drop_bit 4 key3;
          key5 = key4 * 2057
      in key5 XOR drop_bit 16 key5)"

text \<open>The rounding function is the virtual machine's \<open>round_up_power_of_2\<close>.\<close>

definition fwd_nentries :: "(u32 \<Rightarrow> u32) \<Rightarrow> u32 \<Rightarrow> u32" where
  "fwd_nentries round_up_power_of_2 live_objects = round_up_power_of_2 (live_objects * 2)"

definition fwd_first :: "u64 list \<Rightarrow> u64 \<Rightarrow> nat" where
  "fwd_first es from_index = unat (uint32_to_uint32 (ucast from_index)) AND (length es - 1)"

definition fwd_next :: "u64 list \<Rightarrow> nat \<Rightarrow> nat" where
  "fwd_next es cursor = (cursor + 1) AND (length es - 1)"

text \<open>The loop of \<open>find\<close>, which is also the inner loop of \<open>insert\<close>.\<close>

partial_function (option) fwd_probe :: "u64 list \<Rightarrow> u64 \<Rightarrow> nat \<Rightarrow> (u64 \<times> nat) option" where
  "fwd_probe es from_index cursor =
     (if \<not> fe_populated (es ! cursor) then Some (es ! cursor, cursor)
      else if fe_from_index (es ! cursor) = from_index then Some (es ! cursor, cursor)
      else fwd_probe es from_index (fwd_next es cursor))"

definition fwd_find :: "u64 list \<Rightarrow> u64 \<Rightarrow> (u64 \<times> nat) option" where
  "fwd_find es from_index = fwd_probe es from_index (fwd_first es from_index)"

definition cas_entry :: "u64 list \<Rightarrow> nat \<Rightarrow> u64 \<Rightarrow> u64 \<Rightarrow> u64 list \<times> u64" where
  "cas_entry es cursor old new =
     (if es ! cursor = old then (es[cursor := new], es ! cursor) else (es, es ! cursor))"

partial_function (option) fwd_insert ::
    "u64 list \<Rightarrow> u64 \<Rightarrow> u64 \<Rightarrow> nat \<Rightarrow> (u64 \<times> nat \<times> u64 list) option" where
  "fwd_insert es from_index to_offset cursor =
     (case cas_entry es cursor ZForwardingEntry_empty (ZForwardingEntry from_index to_offset) of
        (es', prev_entry) \<Rightarrow>
          if \<not> fe_populated prev_entry then Some (to_offset, cursor, es')
          else case fwd_probe es' from_index cursor of
              None \<Rightarrow> None
            | Some (entry, cursor') \<Rightarrow>
                if fe_populated entry then Some (fe_to_offset entry, cursor', es')
                else fwd_insert es' from_index to_offset cursor')"

subsection \<open>Interleaved relocation of objects\<close>

text \<open>
  A relocating thread looks the object up (\<open>FindAt\<close>: the next load of \<open>find\<close>), copies it when
  it is not yet forwarded, and inserts its copy (\<open>CasAt\<close>: the compare-and-exchange of
  \<open>insert\<close>, \<open>ProbeAt\<close>: the next load of its inner loop). \<open>Forwarded\<close> holds the offset used.
\<close>

datatype fwd_pc = FindAt nat | CasAt nat | ProbeAt nat | Forwarded u64

record fwd_thread =
  th_from :: u64
  th_to :: u64
  th_pc :: fwd_pc

fun fwd_thread_step :: "u64 list \<Rightarrow> fwd_thread \<Rightarrow> u64 list \<times> fwd_thread" where
  "fwd_thread_step es t =
     (case th_pc t of
        FindAt c \<Rightarrow>
          (es, t\<lparr>th_pc :=
            if \<not> fe_populated (es ! c) then CasAt c
            else if fe_from_index (es ! c) = th_from t then Forwarded (fe_to_offset (es ! c))
            else FindAt (fwd_next es c)\<rparr>)
      | CasAt c \<Rightarrow>
          (case cas_entry es c ZForwardingEntry_empty (ZForwardingEntry (th_from t) (th_to t)) of
             (es', prev_entry) \<Rightarrow>
               (es', t\<lparr>th_pc := if \<not> fe_populated prev_entry then Forwarded (th_to t) else ProbeAt c\<rparr>))
      | ProbeAt c \<Rightarrow>
          (es, t\<lparr>th_pc :=
            if \<not> fe_populated (es ! c) then CasAt c
            else if fe_from_index (es ! c) = th_from t then Forwarded (fe_to_offset (es ! c))
            else ProbeAt (fwd_next es c)\<rparr>)
      | Forwarded off \<Rightarrow> (es, t))"

definition th_running :: "fwd_thread \<Rightarrow> bool" where
  "th_running t = (case th_pc t of Forwarded _ \<Rightarrow> False | _ \<Rightarrow> True)"

inductive fwd_step :: "u64 list \<times> fwd_thread list \<Rightarrow> u64 list \<times> fwd_thread list \<Rightarrow> bool" where
  step: "i < length ts \<Longrightarrow> th_running (ts ! i) \<Longrightarrow> fwd_thread_step es (ts ! i) = (es', t') \<Longrightarrow>
     fwd_step (es, ts) (es', ts[i := t'])"

inductive_cases fwd_stepE: "fwd_step s s'"

definition fwd_thread_start :: "u64 list \<Rightarrow> u64 \<Rightarrow> u64 \<Rightarrow> fwd_thread" where
  "fwd_thread_start es fi off = \<lparr>th_from = fi, th_to = off, th_pc = FindAt (fwd_first es fi)\<rparr>"

subsection \<open>Probe sequences\<close>

definition slot_of :: "u64 list \<Rightarrow> u64 \<Rightarrow> nat \<Rightarrow> nat" where
  "slot_of es fi j = (unat (uint32_to_uint32 (ucast fi)) + j) mod length es"

definition slot_dist :: "u64 list \<Rightarrow> u64 \<Rightarrow> nat \<Rightarrow> nat" where
  "slot_dist es fi c = (c + (length es - unat (uint32_to_uint32 (ucast fi)) mod length es)) mod length es"

definition holds :: "u64 list \<Rightarrow> nat \<Rightarrow> u64 \<Rightarrow> bool" where
  "holds es i fi \<longleftrightarrow> fe_populated (es ! i) \<and> fe_from_index (es ! i) = fi"

definition forwarded :: "u64 list \<Rightarrow> u64 \<Rightarrow> u64 \<Rightarrow> bool" where
  "forwarded es fi off \<longleftrightarrow> (\<exists>i < length es. holds es i fi \<and> fe_to_offset (es ! i) = off)"

definition passed :: "u64 list \<Rightarrow> u64 \<Rightarrow> nat \<Rightarrow> bool" where
  "passed es fi j \<longleftrightarrow> (\<forall>l < j. fe_populated (es ! slot_of es fi l) \<and> \<not> holds es (slot_of es fi l) fi)"

definition cursor_ok :: "u64 list \<Rightarrow> u64 \<Rightarrow> nat \<Rightarrow> bool" where
  "cursor_ok es fi c \<longleftrightarrow> (\<exists>j < length es. c = slot_of es fi j \<and> passed es fi j)"

text \<open>
  The invariant of the table: \<open>live\<close> are the indices of the live objects, fewer than the table
  has entries. Every entry is reached by probing from its hash over other entries.
\<close>

definition table_ok :: "u64 set \<Rightarrow> u64 list \<Rightarrow> bool" where
  "table_ok live es \<longleftrightarrow> (\<exists>k. length es = 2 ^ k) \<and> finite live \<and> card live < length es
     \<and> (\<forall>i < length es. es ! i = ZForwardingEntry_empty \<or> fe_populated (es ! i))
     \<and> (\<forall>i < length es. fe_populated (es ! i) \<longrightarrow> fe_from_index (es ! i) \<in> live
          \<and> cursor_ok es (fe_from_index (es ! i)) i)"

lemma table_pos: "table_ok live es \<Longrightarrow> 0 < length es"
  by (auto simp: table_ok_def)

lemma and_length: "table_ok live es \<Longrightarrow> x AND (length es - 1) = x mod length es"
proof -
  assume "table_ok live es"
  then obtain k where k: "length es = 2 ^ k" by (auto simp: table_ok_def)
  then have "x AND (length es - 1) = x AND mask k" by (simp add: mask_eq_exp_minus_1)
  then show ?thesis using k by (simp add: take_bit_eq_mod flip: take_bit_eq_mask)
qed

lemma slot_first: "table_ok live es \<Longrightarrow> fwd_first es fi = slot_of es fi 0"
  by (simp add: fwd_first_def and_length slot_of_def del: One_nat_def)

lemma slot_next: "table_ok live es \<Longrightarrow> fwd_next es (slot_of es fi j) = slot_of es fi (Suc j)"
  by (simp add: fwd_next_def and_length [of live es] slot_of_def mod_Suc_eq del: One_nat_def)
    (simp add: mod_simps)

lemma slot_less: "table_ok live es \<Longrightarrow> slot_of es fi j < length es"
  using table_pos by (auto simp: slot_of_def)

lemma slot_dist_of:
  assumes "j < length es"
  shows "slot_dist es fi (slot_of es fi j) = j"
proof -
  define n h where "n = length es" and "h = unat (uint32_to_uint32 (ucast fi :: u32))"
  have h: "h mod n < n" using assms unfolding n_def by (intro mod_less_divisor) linarith
  have "((h + j) mod n + (n - h mod n)) mod n = (h mod n + (j + (n - h mod n))) mod n"
    by (simp only: mod_add_left_eq add.assoc)
  also have "h mod n + (j + (n - h mod n)) = n + j" using h by simp
  also have "(n + j) mod n = j" using assms by (simp add: n_def)
  finally show ?thesis by (simp add: slot_dist_def slot_of_def n_def h_def)
qed

lemma slot_inj: "i < length es \<Longrightarrow> j < length es \<Longrightarrow> slot_of es fi i = slot_of es fi j \<Longrightarrow> i = j"
  by (metis slot_dist_of)

lemma slot_surj:
  assumes "table_ok live es" "i < length es"
  shows "\<exists>j < length es. i = slot_of es fi j"
proof -
  have inj: "inj_on (slot_of es fi) {..< length es}" by (auto intro!: inj_onI dest: slot_inj)
  have "slot_of es fi ` {..< length es} \<subseteq> {..< length es}" using slot_less [OF assms(1)] by auto
  then have "slot_of es fi ` {..< length es} = {..< length es}"
    using card_subset_eq [of "{..< length es}" "slot_of es fi ` {..< length es}"]
    by (simp add: card_image [OF inj])
  then show ?thesis using assms(2) by (metis imageE lessThan_iff)
qed

lemma same_from_same_slot:
  assumes "table_ok live es" "i < length es" "j < length es" "holds es i fi" "holds es j fi"
  shows "i = j"
proof -
  obtain a where a: "a < length es" "i = slot_of es fi a" "passed es fi a"
    using assms by (auto simp: table_ok_def holds_def cursor_ok_def)
  obtain b where b: "b < length es" "j = slot_of es fi b" "passed es fi b"
    using assms by (auto simp: table_ok_def holds_def cursor_ok_def)
  have "\<not> a < b" "\<not> b < a" using a b assms(4,5) by (auto simp: passed_def)
  then show ?thesis using a b by simp
qed

lemma free_slot:
  assumes "table_ok live es"
  shows "\<exists>i < length es. \<not> fe_populated (es ! i)"
proof (rule ccontr)
  assume "\<not> ?thesis"
  then have full: "\<And>i. i < length es \<Longrightarrow> fe_populated (es ! i)" by blast
  have inj: "inj_on (\<lambda>i. fe_from_index (es ! i)) {..< length es}"
    using full by (auto intro!: inj_onI same_from_same_slot [OF assms] simp: holds_def)
  have "(\<lambda>i. fe_from_index (es ! i)) ` {..< length es} \<subseteq> live"
    using full assms by (auto simp: table_ok_def)
  then have "card ((\<lambda>i. fe_from_index (es ! i)) ` {..< length es}) \<le> card live"
    using assms by (intro card_mono) (auto simp: table_ok_def)
  then show False using assms by (simp add: card_image [OF inj] table_ok_def)
qed

lemma passed_less:
  assumes ok: "table_ok live es" and p: "passed es fi j"
  shows "j < length es"
proof (rule ccontr)
  assume "\<not> j < length es"
  then have "fe_populated (es ! i)" if i: "i < length es" for i
    using slot_surj [OF ok i, of fi] p by (auto simp: passed_def)
  then show False using free_slot [OF ok] by auto
qed

lemma cursor_first: "table_ok live es \<Longrightarrow> cursor_ok es fi (fwd_first es fi)"
  by (auto simp: cursor_ok_def slot_first passed_def table_pos intro!: exI [of _ 0] dest: table_pos)

lemma cursor_next:
  assumes ok: "table_ok live es" and c: "cursor_ok es fi c" and p: "fe_populated (es ! c)"
    and f: "fe_from_index (es ! c) \<noteq> fi"
  shows "cursor_ok es fi (fwd_next es c) \<and> slot_dist es fi (fwd_next es c) = Suc (slot_dist es fi c)
    \<and> slot_dist es fi (fwd_next es c) < length es"
proof -
  obtain j where j: "j < length es" "c = slot_of es fi j" "passed es fi j"
    using c by (auto simp: cursor_ok_def)
  have "passed es fi (Suc j)" using j p f by (auto simp: passed_def holds_def less_Suc_eq)
  then have "Suc j < length es" by (rule passed_less [OF ok])
  then show ?thesis
    using j \<open>passed es fi (Suc j)\<close> by (auto simp: cursor_ok_def slot_next [OF ok] slot_dist_of)
qed

lemma cursor_less: "table_ok live es \<Longrightarrow> cursor_ok es fi c \<Longrightarrow> c < length es"
  by (auto simp: cursor_ok_def slot_less)

text \<open>An index whose probing stops at an empty slot is not forwarded.\<close>

lemma empty_not_forwarded:
  assumes ok: "table_ok live es" and c: "cursor_ok es fi c" and e: "\<not> fe_populated (es ! c)"
  shows "\<not> forwarded es fi off"
proof
  assume "forwarded es fi off"
  then obtain i where i: "i < length es" "holds es i fi" by (auto simp: forwarded_def)
  then obtain a where a: "i = slot_of es fi a" "passed es fi a"
    using ok by (auto simp: table_ok_def holds_def cursor_ok_def)
  obtain j where j: "c = slot_of es fi j" "passed es fi j" using c by (auto simp: cursor_ok_def)
  consider "a < j" | "a = j" | "j < a" by linarith
  then show False using a j i e by cases (auto simp: passed_def holds_def)
qed

lemma probe_result:
  assumes ok: "table_ok live es" and c: "cursor_ok es fi c"
  shows "\<exists>c'. fwd_probe es fi c = Some (es ! c', c') \<and> cursor_ok es fi c' \<and> (fe_populated (es ! c') \<longrightarrow> holds es c' fi)"
  using c
proof (induction "length es - slot_dist es fi c" arbitrary: c rule: less_induct)
  case less
  show ?case
  proof (cases "fe_populated (es ! c) \<and> fe_from_index (es ! c) \<noteq> fi")
    case True
    then have n: "cursor_ok es fi (fwd_next es c)"
      "slot_dist es fi (fwd_next es c) = Suc (slot_dist es fi c)"
      "slot_dist es fi (fwd_next es c) < length es"
      using cursor_next [OF ok less.prems] by auto
    then have "length es - slot_dist es fi (fwd_next es c) < length es - slot_dist es fi c" by linarith
    from less.hyps [OF this n(1)] True show ?thesis by (subst fwd_probe.simps) simp
  next
    case False
    then show ?thesis using less.prems by (subst fwd_probe.simps) (auto simp: holds_def)
  qed
qed

lemma forwarded_unique:
  assumes "table_ok live es" "forwarded es fi a" "forwarded es fi b"
  shows "a = b"
  using assms same_from_same_slot [OF assms(1)] by (auto simp: forwarded_def) 

subsection \<open>Publishing an entry\<close>

lemma slot_of_update [simp]: "slot_of (es[c := e]) = slot_of es"
  by (intro ext) (simp add: slot_of_def)

lemma passed_update:
  assumes "passed es fi j" "\<not> fe_populated (es ! c)"
  shows "passed (es[c := e]) fi j"
proof -
  have "es[c := e] ! slot_of es fi l = es ! slot_of es fi l" if "l < j" for l
    using assms that by (intro nth_list_update_neq) (auto simp: passed_def)
  then show ?thesis using assms(1) by (auto simp: passed_def holds_def)
qed

lemma cursor_update: "cursor_ok es fi d \<Longrightarrow> \<not> fe_populated (es ! c) \<Longrightarrow> cursor_ok (es[c := e]) fi d"
  by (auto simp: cursor_ok_def intro: passed_update)

lemma forwarded_update:
  assumes "\<not> fe_populated (es ! c)" "c < length es" "unat fi < 2 ^ 18" "unat off < 2 ^ 45"
  shows "forwarded (es[c := ZForwardingEntry fi off]) fj to \<longleftrightarrow> forwarded es fj to \<or> (fj = fi \<and> to = off)"
proof
  assume "forwarded (es[c := ZForwardingEntry fi off]) fj to"
  then obtain i where "i < length es" "holds (es[c := ZForwardingEntry fi off]) i fj"
    "fe_to_offset (es[c := ZForwardingEntry fi off] ! i) = to" by (auto simp: forwarded_def)
  then show "forwarded es fj to \<or> (fj = fi \<and> to = off)"
    using forwarding_entry_fields [OF assms(3,4)]
    by (cases "i = c") (auto simp: forwarded_def holds_def)
next
  assume "forwarded es fj to \<or> (fj = fi \<and> to = off)"
  then show "forwarded (es[c := ZForwardingEntry fi off]) fj to"
  proof
    assume "forwarded es fj to"
    then obtain i where i: "i < length es" "holds es i fj" "fe_to_offset (es ! i) = to"
      by (auto simp: forwarded_def)
    then have "i \<noteq> c" using assms(1) by (auto simp: holds_def)
    then show ?thesis using i by (auto simp: forwarded_def holds_def intro!: exI [of _ i])
  next
    assume "fj = fi \<and> to = off"
    then show ?thesis using forwarding_entry_fields [OF assms(3,4)] assms(2)
      by (auto simp: forwarded_def holds_def intro!: exI [of _ c])
  qed
qed

lemma table_update:
  assumes ok: "table_ok live es" and c: "cursor_ok es fi c" and e: "\<not> fe_populated (es ! c)"
    and fi: "fi \<in> live" "unat fi < 2 ^ 18" "unat off < 2 ^ 45"
  shows "table_ok live (es[c := ZForwardingEntry fi off])"
proof -
  note f = forwarding_entry_fields [OF fi(2,3)]
  have len: "c < length es" using cursor_less [OF ok c] .
  have "fe_from_index (es[c := ZForwardingEntry fi off] ! i) \<in> live
      \<and> cursor_ok (es[c := ZForwardingEntry fi off]) (fe_from_index (es[c := ZForwardingEntry fi off] ! i)) i"
    if i: "i < length es" "fe_populated (es[c := ZForwardingEntry fi off] ! i)" for i
  proof (cases "i = c")
    case True
    then show ?thesis using f fi(1) len cursor_update [OF c e] by simp
  next
    case False
    then show ?thesis using i ok cursor_update [OF _ e] by (auto simp: table_ok_def)
  qed
  moreover have "es[c := ZForwardingEntry fi off] ! i = ZForwardingEntry_empty
      \<or> fe_populated (es[c := ZForwardingEntry fi off] ! i)" if i: "i < length es" for i
    using i ok f len by (cases "i = c") (auto simp: table_ok_def)
  ultimately show ?thesis using ok by (auto simp: table_ok_def)
qed

subsection \<open>One thread\<close>

lemma find_result:
  assumes "table_ok live es"
  shows "\<exists>c. fwd_find es fi = Some (es ! c, c) \<and> cursor_ok es fi c \<and> (fe_populated (es ! c) \<longrightarrow> holds es c fi)"
  using probe_result [OF assms cursor_first [OF assms]] by (simp add: fwd_find_def)

lemma insert_result:
  assumes ok: "table_ok live es" and c: "cursor_ok es fi c"
    and fi: "fi \<in> live" "unat fi < 2 ^ 18" "unat off < 2 ^ 45"
  shows "\<exists>r c' es'. fwd_insert es fi off c = Some (r, c', es') \<and> table_ok live es'
    \<and> (\<forall>fj to. forwarded es' fj to \<longleftrightarrow> forwarded es fj to \<or> (fj = fi \<and> to = r))
    \<and> (r = off \<or> forwarded es fi r) \<and> (\<forall>x. forwarded es fi x \<longrightarrow> r = x)"
proof -
  have free: "fwd_insert es fi off d = Some (off, d, es[d := ZForwardingEntry fi off])"
    if "cursor_ok es fi d" "\<not> fe_populated (es ! d)" for d
  proof -
    have "es ! d = ZForwardingEntry_empty" using that cursor_less [OF ok] ok by (auto simp: table_ok_def)
    then show ?thesis using that(2) by (subst fwd_insert.simps) (simp add: cas_entry_def)
  qed
  have fin: ?thesis if d: "cursor_ok es fi d" "\<not> fe_populated (es ! d)"
    and eq: "fwd_insert es fi off c = fwd_insert es fi off d" for d
    using free [OF d] eq table_update [OF ok d fi] empty_not_forwarded [OF ok d]
      forwarded_update [OF d(2) cursor_less [OF ok d(1)] fi(2,3)] by auto
  show ?thesis
  proof (cases "fe_populated (es ! c)")
    case False
    then show ?thesis using fin [OF c] by simp
  next
    case True
    then have neq: "es ! c \<noteq> ZForwardingEntry_empty" using fe_populated_empty by metis
    obtain c' where c': "fwd_probe es fi c = Some (es ! c', c')" "cursor_ok es fi c'"
      "fe_populated (es ! c') \<longrightarrow> holds es c' fi" using probe_result [OF ok c] by auto
    show ?thesis
    proof (cases "fe_populated (es ! c')")
      case False
      have "fwd_insert es fi off c = fwd_insert es fi off c'"
        using True False neq c' by (subst fwd_insert.simps) (simp add: cas_entry_def)
      then show ?thesis using fin [OF c'(2)] False by simp
    next
      case pop: True
      then have "forwarded es fi (fe_to_offset (es ! c'))"
        using c' cursor_less [OF ok] by (auto simp: forwarded_def)
      moreover have "fwd_insert es fi off c = Some (fe_to_offset (es ! c'), c', es)"
        using True pop neq c' by (subst fwd_insert.simps) (simp add: cas_entry_def)
      ultimately show ?thesis using forwarded_unique [OF ok] ok by auto
    qed
  qed
qed

subsection \<open>Many threads\<close>

definition thread_ok :: "u64 set \<Rightarrow> u64 list \<Rightarrow> fwd_thread \<Rightarrow> bool" where
  "thread_ok live es t \<longleftrightarrow> th_from t \<in> live \<and> unat (th_from t) < 2 ^ 18 \<and> unat (th_to t) < 2 ^ 45
     \<and> (case th_pc t of
          FindAt c \<Rightarrow> cursor_ok es (th_from t) c
        | CasAt c \<Rightarrow> cursor_ok es (th_from t) c
        | ProbeAt c \<Rightarrow> cursor_ok es (th_from t) c
        | Forwarded off \<Rightarrow> forwarded es (th_from t) off)"

definition th_rank :: "u64 list \<Rightarrow> fwd_thread \<Rightarrow> nat" where
  "th_rank es t =
     (case th_pc t of
        FindAt c \<Rightarrow> 4 * (length es - slot_dist es (th_from t) c) + 3
      | CasAt c \<Rightarrow> 4 * (length es - slot_dist es (th_from t) c) + 1
      | ProbeAt c \<Rightarrow> 4 * (length es - slot_dist es (th_from t) c) + (if fe_populated (es ! c) then 0 else 2)
      | Forwarded _ \<Rightarrow> 0)"

text \<open>What a step of any thread does to the table, and to the thread itself.\<close>

lemma thread_step_table:
  assumes "table_ok live es" "thread_ok live es t" "fwd_thread_step es t = (es', t')"
  shows "es' = es \<or> (\<exists>c. th_pc t = CasAt c \<and> \<not> fe_populated (es ! c) \<and> cursor_ok es (th_from t) c
    \<and> es' = es[c := ZForwardingEntry (th_from t) (th_to t)])"
  using assms fe_populated_empty
  by (auto simp: thread_ok_def cas_entry_def split: fwd_pc.splits if_splits)

lemma thread_step_job:
  "fwd_thread_step es t = (es', t') \<Longrightarrow> th_from t' = th_from t \<and> th_to t' = th_to t"
  by (auto split: fwd_pc.splits prod.splits)

lemma thread_step_ok:
  assumes ok: "table_ok live es" and t: "thread_ok live es t" and s: "fwd_thread_step es t = (es', t')"
  shows "thread_ok live es' t' \<and> (th_running t \<longrightarrow> th_rank es' t' < th_rank es t)"
proof (cases "th_pc t")
  case (FindAt c)
  then have c: "cursor_ok es (th_from t) c" "c < length es" using t cursor_less [OF ok] by (auto simp: thread_ok_def)
  then show ?thesis
    using s t FindAt cursor_next [OF ok c(1)]
    by (auto simp: thread_ok_def th_rank_def forwarded_def holds_def intro!: exI [of _ c]) arith+
next
  case (ProbeAt c)
  then have c: "cursor_ok es (th_from t) c" "c < length es" using t cursor_less [OF ok] by (auto simp: thread_ok_def)
  moreover have "slot_dist es (th_from t) c < length es" using c(1) by (auto simp: cursor_ok_def slot_dist_of)
  ultimately show ?thesis
    using s t ProbeAt cursor_next [OF ok c(1)]
    by (auto simp: thread_ok_def th_rank_def forwarded_def holds_def intro!: exI [of _ c]) arith+
next
  case (CasAt c)
  then have c: "cursor_ok es (th_from t) c" "c < length es" using t cursor_less [OF ok] by (auto simp: thread_ok_def)
  have d: "slot_dist es (th_from t) c < length es" using c(1) by (auto simp: cursor_ok_def slot_dist_of)
  show ?thesis
  proof (cases "fe_populated (es ! c)")
    case True
    then show ?thesis using s t CasAt c fe_populated_empty
      by (auto simp: thread_ok_def th_rank_def cas_entry_def split: if_splits)
  next
    case False
    then have "es ! c = ZForwardingEntry_empty" using ok c(2) by (auto simp: table_ok_def)
    then show ?thesis using s t CasAt c False d forwarded_update [OF False c(2)]
      by (auto simp: thread_ok_def th_rank_def cas_entry_def)
  qed
next
  case (Forwarded off)
  then show ?thesis using s t by (auto simp: th_running_def)
qed

lemma slot_dist_update [simp]: "slot_dist (es[c := e]) = slot_dist es"
  by (intro ext) (simp add: slot_dist_def)

lemma other_thread_ok:
  assumes ok: "table_ok live es" and t: "thread_ok live es t" and s: "fwd_thread_step es t = (es', t')"
    and u: "thread_ok live es u"
  shows "thread_ok live es' u \<and> th_rank es' u \<le> th_rank es u"
  using thread_step_table [OF ok t s]
proof
  assume "es' = es"
  then show ?thesis using u by simp
next
  assume "\<exists>c. th_pc t = CasAt c \<and> \<not> fe_populated (es ! c) \<and> cursor_ok es (th_from t) c
    \<and> es' = es[c := ZForwardingEntry (th_from t) (th_to t)]"
  then obtain c where c: "\<not> fe_populated (es ! c)" "cursor_ok es (th_from t) c"
    "es' = es[c := ZForwardingEntry (th_from t) (th_to t)]" by blast
  have b: "unat (th_from t) < 2 ^ 18" "unat (th_to t) < 2 ^ 45" using t by (auto simp: thread_ok_def)
  have pop: "fe_populated (es ! d) \<Longrightarrow> fe_populated (es' ! d)" for d
    using c(1,3) by (cases "d = c") auto
  show ?thesis
    using u cursor_update [OF _ c(1)] forwarded_update [OF c(1) cursor_less [OF ok c(2)] b] pop
    by (auto simp: thread_ok_def th_rank_def c(3) split: fwd_pc.splits)
qed

definition conc_ok :: "u64 set \<Rightarrow> (u64 \<Rightarrow> u64 \<Rightarrow> bool) \<Rightarrow> u64 list \<times> fwd_thread list \<Rightarrow> bool" where
  "conc_ok live src s \<longleftrightarrow> (case s of (es, ts) \<Rightarrow> table_ok live es \<and> (\<forall>t \<in> set ts. thread_ok live es t \<and> src (th_from t) (th_to t))
     \<and> (\<forall>fi off. forwarded es fi off \<longrightarrow> src fi off))"

definition conc_rank :: "u64 list \<times> fwd_thread list \<Rightarrow> nat" where
  "conc_rank s = (case s of (es, ts) \<Rightarrow> sum_list (map (th_rank es) ts))"

lemma fwd_step_ok:
  assumes "conc_ok live src s" "fwd_step s s'"
  shows "conc_ok live src s' \<and> conc_rank s' < conc_rank s"
  using assms(2)
proof (cases rule: fwd_step.cases)
  case (step i ts es es' t')
  have ok: "table_ok live es" and ts: "\<forall>t \<in> set ts. thread_ok live es t \<and> src (th_from t) (th_to t)"
    and fw: "\<forall>fi off. forwarded es fi off \<longrightarrow> src fi off"
    using assms(1) step(1) by (auto simp: conc_ok_def)
  have ti: "thread_ok live es (ts ! i)" "src (th_from (ts ! i)) (th_to (ts ! i))" using ts step(3) by auto
  note own = thread_step_ok [OF ok ti(1) step(5)] thread_step_job [OF step(5)]
  have rest: "thread_ok live es' u \<and> th_rank es' u \<le> th_rank es u" if "u \<in> set ts" for u
    using other_thread_ok [OF ok ti(1) step(5)] ts that by blast
  have tab: "table_ok live es' \<and> (\<forall>fi off. forwarded es' fi off \<longrightarrow> src fi off)"
    using thread_step_table [OF ok ti(1) step(5)]
  proof
    assume "es' = es"
    then show ?thesis using ok fw by simp
  next
    assume "\<exists>c. th_pc (ts ! i) = CasAt c \<and> \<not> fe_populated (es ! c) \<and> cursor_ok es (th_from (ts ! i)) c
      \<and> es' = es[c := ZForwardingEntry (th_from (ts ! i)) (th_to (ts ! i))]"
    then obtain c where c: "\<not> fe_populated (es ! c)" "cursor_ok es (th_from (ts ! i)) c"
      "es' = es[c := ZForwardingEntry (th_from (ts ! i)) (th_to (ts ! i))]" by blast
    have b: "th_from (ts ! i) \<in> live" "unat (th_from (ts ! i)) < 2 ^ 18" "unat (th_to (ts ! i)) < 2 ^ 45"
      using ti by (auto simp: thread_ok_def)
    show ?thesis using table_update [OF ok c(2,1) b] c(3) fw ti(2)
        forwarded_update [OF c(1) cursor_less [OF ok c(2)] b(2,3)] by auto
  qed
  have "conc_ok live src s'"
    using tab rest own ts ti(2) step(2) by (auto simp: conc_ok_def dest!: set_update_subset_insert [THEN subsetD])
  moreover have "conc_rank s' < conc_rank s"
    using step own rest by (auto simp: conc_rank_def intro!: sum_list_update_less)
  ultimately show ?thesis ..
qed

subsection \<open>Properties\<close>

lemma conc_reachable:
  assumes "fwd_step\<^sup>*\<^sup>* s s'" "conc_ok live src s"
  shows "conc_ok live src s'"
  using assms by (induction rule: rtranclp_induct) (auto dest: fwd_step_ok)

lemma conc_start:
  assumes "table_ok live es" "\<forall>(fi, off) \<in> set jobs. fi \<in> live \<and> unat fi < 2 ^ 18 \<and> unat off < 2 ^ 45"
  shows "conc_ok live (\<lambda>fi off. forwarded es fi off \<or> (fi, off) \<in> set jobs)
    (es, map (\<lambda>(fi, off). fwd_thread_start es fi off) jobs)"
  using assms cursor_first [OF assms(1)]
  by (auto simp: conc_ok_def thread_ok_def fwd_thread_start_def)

lemma conc_rank_start:
  assumes "table_ok live es"
  shows "conc_rank (es, map (\<lambda>(fi, off). fwd_thread_start es fi off) jobs) = (4 * length es + 3) * length jobs"
proof -
  have "th_rank es (fwd_thread_start es fi off) = 4 * length es + 3" for fi off
    using slot_dist_of [of 0 es fi] table_pos [OF assms]
    by (simp add: th_rank_def fwd_thread_start_def slot_first [OF assms])
  then have "map (th_rank es) (map (\<lambda>(fi, off). fwd_thread_start es fi off) jobs) = replicate (length jobs) (4 * length es + 3)"
    by (intro nth_equalityI) (auto split: prod.splits)
  then show ?thesis by (simp add: conc_rank_def sum_list_replicate del: map_map)
qed

lemma conc_run_bound:
  "(fwd_step ^^ m) s s' \<Longrightarrow> conc_ok live src s \<Longrightarrow> m + conc_rank s' \<le> conc_rank s \<and> conc_ok live src s'"
proof (induction m arbitrary: s')
  case (Suc m)
  then obtain y where y: "(fwd_step ^^ m) s y" "fwd_step y s'" by auto
  then show ?case using Suc.IH [OF y(1) Suc.prems(2)] fwd_step_ok [OF _ y(2)] by fastforce
qed simp

lemma fwd_stuck: "(\<nexists>s'. fwd_step (es, ts) s') \<longleftrightarrow> (\<forall>t \<in> set ts. \<not> th_running t)"
proof
  assume n: "\<nexists>s'. fwd_step (es, ts) s'"
  show "\<forall>t \<in> set ts. \<not> th_running t"
  proof (intro ballI notI)
    fix t assume "t \<in> set ts" "th_running t"
    then obtain i where "i < length ts" "th_running (ts ! i)" by (auto simp: in_set_conv_nth)
    then show False using n fwd_step.step [of i ts es "fst (fwd_thread_step es (ts ! i))" "snd (fwd_thread_step es (ts ! i))"]
      by (simp del: fwd_thread_step.simps)
  qed
qed (auto elim!: fwd_stepE)

lemma new_table:
  assumes "length es = 2 ^ k" "\<forall>e \<in> set es. e = ZForwardingEntry_empty" "finite live" "card live < 2 ^ k"
  shows "table_ok live es" "\<not> forwarded es fi off"
proof -
  have em: "es ! i = ZForwardingEntry_empty" if "i < length es" for i using assms(2) that by simp
  then show "table_ok live es" "\<not> forwarded es fi off"
    using assms(1,3,4) em fe_populated_empty unfolding table_ok_def forwarded_def holds_def by auto
qed

text \<open>C32. A new forwarding table is sized by \<open>nentries\<close> so that the live objects of the page never fill it:
  it satisfies the table invariant and forwards nothing. The hypothesis on the rounding function is the
  documented behaviour of the virtual machine's \<open>round_up_power_of_2\<close>.\<close>

theorem new_forwarding_table_ok:
  assumes "\<forall>x. 0 < x \<and> x \<le> 2 ^ 31 \<longrightarrow> (\<exists>k. unat (round_up x) = 2 ^ k \<and> x \<le> round_up x)"
    "0 < live_objects" "live_objects \<le> 2 ^ 30" "finite live" "card live = unat live_objects"
  shows "table_ok live (replicate (unat (fwd_nentries round_up live_objects)) ZForwardingEntry_empty)
    \<and> \<not> forwarded (replicate (unat (fwd_nentries round_up live_objects)) ZForwardingEntry_empty) fi off"
proof -
  have b: "0 < unat live_objects" "unat live_objects \<le> 2 ^ 30"
    using assms(2,3) by (simp_all add: word_le_nat_alt word_less_nat_alt unat_gt_0)
  then have d: "unat (live_objects * 2) = unat live_objects * 2" by (simp add: unat_word_ariths)
  then have "0 < live_objects * 2 \<and> live_objects * 2 \<le> 2 ^ 31"
    using b by (simp add: word_le_nat_alt word_less_nat_alt)
  then obtain k where k: "unat (round_up (live_objects * 2)) = 2 ^ k" "live_objects * 2 \<le> round_up (live_objects * 2)"
    using assms(1) by blast
  then have "unat live_objects * 2 \<le> 2 ^ k" using d by (simp add: word_le_nat_alt)
  then have "card live < 2 ^ k" using assms(5) b by linarith
  then show ?thesis
    using new_table [of "replicate (2 ^ k) ZForwardingEntry_empty" k live] assms(4)
    by (simp add: fwd_nentries_def k)
qed

theorem new_forwarding_table_ok_witness:
  "table_ok {1, 5, 7} (replicate (unat (fwd_nentries (\<lambda>x. if x \<le> 8 then 8 else 2 ^ 31) 3)) ZForwardingEntry_empty)"
proof -
  have "\<forall>x :: u32. 0 < x \<and> x \<le> 2 ^ 31 \<longrightarrow>
      (\<exists>k. unat (if x \<le> 8 then 8 else 2 ^ 31 :: u32) = 2 ^ k \<and> x \<le> (if x \<le> 8 then 8 else 2 ^ 31))"
    by (auto intro: exI [of _ "3::nat"] exI [of _ "31::nat"])
  from new_forwarding_table_ok [OF this, of 3 "{1, 5, 7}"] show ?thesis by simp
qed

text \<open>Lookup in a forwarding table always ends, and finds the entry of an index exactly when the
  index is forwarded; otherwise it stops at an empty slot where the index may be inserted.\<close>

theorem fwd_find_correct:
  assumes "table_ok live es"
  shows "\<exists>e c. fwd_find es fi = Some (e, c) \<and> e = es ! c \<and> cursor_ok es fi c \<and>
    (if fe_populated e then forwarded es fi (fe_to_offset e) else (\<forall>off. \<not> forwarded es fi off))"
proof -
  obtain c where "fwd_find es fi = Some (es ! c, c)" "cursor_ok es fi c" "fe_populated (es ! c) \<longrightarrow> holds es c fi"
    using find_result [OF assms] by blast
  moreover have "c < length es" by (rule cursor_less [OF assms calculation(2)])
  ultimately show ?thesis
    using empty_not_forwarded [OF assms] unfolding forwarded_def by metis
qed

definition fwd_demo :: "u64 list" where
  "fwd_demo = replicate 4 ZForwardingEntry_empty"

lemma fwd_demo_ok: "table_ok {1, 5} fwd_demo"
  by (rule new_table [where k = 2]) (simp_all add: fwd_demo_def)

theorem fwd_find_correct_witness:
  "\<exists>e c. fwd_find fwd_demo 5 = Some (e, c) \<and> cursor_ok fwd_demo 5 c \<and> \<not> fe_populated e"
proof -
  have "\<not> forwarded fwd_demo 5 off" for off
    using fe_populated_empty by (auto simp: forwarded_def holds_def fwd_demo_def nth_Cons split: nat.splits)
  then show ?thesis using fwd_find_correct [OF fwd_demo_ok, of 5] by metis
qed

text \<open>Insertion of a forwarding ends, returns the offset that the table then holds for the index, and
  the first inserted offset wins: an index that is already forwarded keeps its offset and the caller is told it.
  No other index is affected.\<close>

theorem fwd_insert_first_wins:
  assumes "table_ok live es" "cursor_ok es fi c" "fi \<in> live" "unat fi < 2 ^ 18" "unat off < 2 ^ 45"
  shows "\<exists>r c' es'. fwd_insert es fi off c = Some (r, c', es') \<and> table_ok live es'
    \<and> (\<forall>fj to. forwarded es' fj to \<longleftrightarrow> forwarded es fj to \<or> (fj = fi \<and> to = r))
    \<and> (r = off \<or> forwarded es fi r) \<and> (\<forall>x. forwarded es fi x \<longrightarrow> r = x)"
  by (rule insert_result [OF assms])

theorem fwd_insert_first_wins_witness:
  "\<exists>c' es'. fwd_insert fwd_demo 5 64 (fwd_first fwd_demo 5) = Some (64, c', es') \<and> forwarded es' 5 64"
proof -
  have "\<not> forwarded fwd_demo 5 off" for off
    using fe_populated_empty by (auto simp: forwarded_def holds_def fwd_demo_def nth_Cons split: nat.splits)
  then show ?thesis
    using fwd_insert_first_wins [OF fwd_demo_ok cursor_first [OF fwd_demo_ok], of 5 64] by auto
qed

text \<open>C26. Threads that relocate objects of one page concurrently agree: in every reachable state, two threads
  that finished with the same object hold the same offset, the one in the table, and it was proposed for that
  object by one of the threads or was there from the start.\<close>

theorem concurrent_relocation_agrees:
  assumes "table_ok live es" "\<forall>(fi, off) \<in> set jobs. fi \<in> live \<and> unat fi < 2 ^ 18 \<and> unat off < 2 ^ 45"
    "fwd_step\<^sup>*\<^sup>* (es, map (\<lambda>(fi, off). fwd_thread_start es fi off) jobs) (es', ts)"
    "t \<in> set ts" "th_pc t = Forwarded a" "u \<in> set ts" "th_pc u = Forwarded b" "th_from u = th_from t"
  shows "a = b \<and> forwarded es' (th_from t) a \<and> (forwarded es (th_from t) a \<or> (th_from t, a) \<in> set jobs)"
proof -
  have c: "conc_ok live (\<lambda>fi off. forwarded es fi off \<or> (fi, off) \<in> set jobs) (es', ts)"
    by (rule conc_reachable [OF assms(3) conc_start [OF assms(1,2)]])
  then have "thread_ok live es' t" "thread_ok live es' u" "table_ok live es'"
    using assms(4,6) by (auto simp: conc_ok_def)
  then have "forwarded es' (th_from t) a" "forwarded es' (th_from t) b" "table_ok live es'"
    using assms(5,7,8) by (auto simp: thread_ok_def)
  then show ?thesis using forwarded_unique c by (auto simp: conc_ok_def)
qed

text \<open>C29. Relocation is wait free: whatever the interleaving, a run of the relocating threads has at most
  four steps per table entry and three more per thread, and it stops only when every thread has finished.\<close>

theorem concurrent_relocation_wait_free:
  assumes "table_ok live es" "\<forall>(fi, off) \<in> set jobs. fi \<in> live \<and> unat fi < 2 ^ 18 \<and> unat off < 2 ^ 45"
    "(fwd_step ^^ m) (es, map (\<lambda>(fi, off). fwd_thread_start es fi off) jobs) (es', ts)"
  shows "m \<le> (4 * length es + 3) * length jobs
    \<and> ((\<nexists>s. fwd_step (es', ts) s) \<longleftrightarrow> (\<forall>t \<in> set ts. \<not> th_running t))"
proof -
  have "m \<le> (4 * length es + 3) * length jobs"
    using conc_run_bound [OF assms(3) conc_start [OF assms(1,2)]] conc_rank_start [OF assms(1), of jobs] by linarith
  then show ?thesis using fwd_stuck [of es' ts] by blast
qed

fun fwd_schedule :: "nat list \<Rightarrow> u64 list \<times> fwd_thread list \<Rightarrow> (u64 list \<times> fwd_thread list) option" where
  "fwd_schedule [] s = Some s"
| "fwd_schedule (i # is) s =
     (case s of (es, ts) \<Rightarrow>
        if i < length ts \<and> th_running (ts ! i) then
          case fwd_thread_step es (ts ! i) of (es', t') \<Rightarrow> fwd_schedule is (es', ts[i := t'])
        else None)"

lemma fwd_schedule_run: "fwd_schedule is s = Some s' \<Longrightarrow> (fwd_step ^^ length is) s s'"
proof (induction "is" arbitrary: s)
  case (Cons i "is")
  obtain es ts where s: "s = (es, ts)" by (cases s)
  obtain es' t' where st: "fwd_thread_step es (ts ! i) = (es', t')" by (cases "fwd_thread_step es (ts ! i)")
  have "fwd_step s (es', ts[i := t'])" "(fwd_step ^^ length is) (es', ts[i := t']) s'"
    using Cons s st by (auto intro!: fwd_step.step simp del: fwd_thread_step.simps split: if_splits)
  then show ?case by (metis length_Cons relpowp_Suc_I2)
qed simp

text \<open>Two threads race to relocate the object with index 5; the second one wins.\<close>

definition fwd_jobs :: "(u64 \<times> u64) list" where
  "fwd_jobs = [(5, 32), (5, 64)]"

lemma fwd_demo_run:
  "fwd_schedule [0, 1, 1, 0, 0] (fwd_demo, map (\<lambda>(fi, off). fwd_thread_start fwd_demo fi off) fwd_jobs) =
     Some (fwd_demo[fwd_first fwd_demo 5 := ZForwardingEntry 5 64],
       [\<lparr>th_from = 5, th_to = 32, th_pc = Forwarded 64\<rparr>, \<lparr>th_from = 5, th_to = 64, th_pc = Forwarded 64\<rparr>])"
  by (simp add: fwd_demo_def fwd_jobs_def fwd_thread_start_def fwd_first_def uint32_to_uint32_def th_running_def
      cas_entry_def ZForwardingEntry_empty_def fe_defs bf_flag_def bf_decode_def bf_encode_def FieldMask_def Let_def)

theorem concurrent_relocation_agrees_witness:
  "forwarded (fwd_demo[fwd_first fwd_demo 5 := ZForwardingEntry 5 64]) 5 64 \<and> (5, 64) \<in> set fwd_jobs"
proof -
  have r: "fwd_step\<^sup>*\<^sup>* (fwd_demo, map (\<lambda>(fi, off). fwd_thread_start fwd_demo fi off) fwd_jobs)
     (fwd_demo[fwd_first fwd_demo 5 := ZForwardingEntry 5 64],
       [\<lparr>th_from = 5, th_to = 32, th_pc = Forwarded 64\<rparr>, \<lparr>th_from = 5, th_to = 64, th_pc = Forwarded 64\<rparr>])"
    using fwd_schedule_run [OF fwd_demo_run] by (rule relpowp_imp_rtranclp)
  have "\<not> forwarded fwd_demo 5 off" for off
    using fe_populated_empty by (auto simp: forwarded_def holds_def fwd_demo_def nth_Cons split: nat.splits)
  then show ?thesis
    using concurrent_relocation_agrees [OF fwd_demo_ok _ r, of "\<lparr>th_from = 5, th_to = 32, th_pc = Forwarded 64\<rparr>" 64
        "\<lparr>th_from = 5, th_to = 64, th_pc = Forwarded 64\<rparr>" 64]
    by (simp add: fwd_jobs_def)
qed

theorem concurrent_relocation_wait_free_witness:
  "length [0, 1, 1, 0, 0 :: nat] \<le> 19 * length fwd_jobs
    \<and> (\<nexists>s. fwd_step (fwd_demo[fwd_first fwd_demo 5 := ZForwardingEntry 5 64],
       [\<lparr>th_from = 5, th_to = 32, th_pc = Forwarded 64\<rparr>, \<lparr>th_from = 5, th_to = 64, th_pc = Forwarded 64\<rparr>]) s)"
proof -
  have "\<forall>(fi, off) \<in> set fwd_jobs. fi \<in> {1, 5} \<and> unat fi < 2 ^ 18 \<and> unat off < 2 ^ 45"
    by (simp add: fwd_jobs_def)
  from concurrent_relocation_wait_free [OF fwd_demo_ok this fwd_schedule_run [OF fwd_demo_run]]
  show ?thesis by (simp add: th_running_def fwd_demo_def)
qed

end
