(* ===== verification/Z_Forwarding.thy ===== *)
theory Z_Forwarding
  imports Z_Forwarding_Table
begin

text \<open>
  The life of a forwarding, \<open>zForwarding.cpp\<close>: the claim and the reference count that keep
  the relocated page alive while its remembered fields are scanned and its objects relocated.

  Threads are program counters of the code's retry loops: a \<open>Load\<close> state is before the atomic
  load, a \<open>Cas\<close> state remembers the loaded count before the compare-and-exchange. The lock and
  its notifications only wake the waiting loops, which test the count again. The count is an unbounded integer: its
  absolute value is at most one more than the number of threads, far below the range of the code's \<open>int32_t\<close>.
\<close>

subsection \<open>Claim and reference count\<close>

datatype ref_pc =
    Unheld
  | RetainLoad
  | RetainCas int
  | RelocateQueueWait
  | Held
  | Owner
  | ClaimLoad
  | ClaimCas int
  | ClaimWait
  | InPlaceClaimed
  | ReleaseLoad
  | ReleaseCas int
  | DetachWait
  | Detached

record ref_state =
  claimed :: bool
  ref_count :: int

definition ref_new :: ref_state where
  "ref_new = \<lparr>claimed = False, ref_count = 1\<rparr>"

definition fwd_claim :: "ref_state \<Rightarrow> bool \<times> ref_state" where
  "fwd_claim s = (if \<not> claimed s then (True, s\<lparr>claimed := True\<rparr>) else (False, s))"

definition cas_ref_count :: "ref_state \<Rightarrow> int \<Rightarrow> int \<Rightarrow> bool \<times> ref_state" where
  "cas_ref_count s expected new =
     (if ref_count s = expected then (True, s\<lparr>ref_count := new\<rparr>) else (False, s))"

fun retain_page_step :: "ref_state \<Rightarrow> ref_pc \<Rightarrow> ref_pc \<times> ref_state" where
  "retain_page_step s RetainLoad =
     (if ref_count s = 0 then Unheld
      else if ref_count s < 0 then RelocateQueueWait
      else RetainCas (ref_count s), s)"
| "retain_page_step s (RetainCas n) =
     (case cas_ref_count s n (n + 1) of (ok, s') \<Rightarrow> (if ok then Held else RetainLoad, s'))"
| "retain_page_step s RelocateQueueWait = (Unheld, s)"
| "retain_page_step s p = (p, s)"

fun in_place_relocation_claim_page_step :: "ref_state \<Rightarrow> ref_pc \<Rightarrow> ref_pc \<times> ref_state" where
  "in_place_relocation_claim_page_step s ClaimLoad = (ClaimCas (ref_count s), s)"
| "in_place_relocation_claim_page_step s (ClaimCas n) =
     (case cas_ref_count s n (- n) of (ok, s') \<Rightarrow>
        (if \<not> ok then ClaimLoad else if n \<noteq> 1 then ClaimWait else InPlaceClaimed, s'))"
| "in_place_relocation_claim_page_step s ClaimWait =
     (if ref_count s \<noteq> - 1 then ClaimWait else InPlaceClaimed, s)"
| "in_place_relocation_claim_page_step s p = (p, s)"

fun release_page_step :: "ref_state \<Rightarrow> ref_pc \<Rightarrow> ref_pc \<times> ref_state" where
  "release_page_step s ReleaseLoad = (ReleaseCas (ref_count s), s)"
| "release_page_step s (ReleaseCas n) =
     (case cas_ref_count s n (if n > 0 then n - 1 else n + 1) of (ok, s') \<Rightarrow>
        (if ok then Unheld else ReleaseLoad, s'))"
| "release_page_step s p = (p, s)"

definition detach_page_step :: "ref_state \<Rightarrow> ref_pc \<times> ref_state" where
  "detach_page_step s = (if ref_count s \<noteq> 0 then DetachWait else Detached, s)"

text \<open>
  What a thread may do: call an operation, or continue the one it is in. A thread that wins
  \<open>claim\<close> relocates the page: it holds the initial reference, and only it may claim the page
  for in-place relocation. A thread that released the page may wait for its detachment.
\<close>

inductive ref_step :: "ref_state \<Rightarrow> ref_pc \<Rightarrow> ref_pc \<Rightarrow> ref_state \<Rightarrow> bool" where
  claim: "fwd_claim s = (ok, s') \<Longrightarrow> ref_step s Unheld (if ok then Owner else Unheld) s'"
| retain: "ref_step s Unheld RetainLoad s"
| retaining: "p \<in> {RetainLoad, RetainCas n, RelocateQueueWait} \<Longrightarrow> retain_page_step s p = (p', s') \<Longrightarrow> ref_step s p p' s'"
| claim_page: "ref_step s Owner ClaimLoad s"
| claiming: "p \<in> {ClaimLoad, ClaimCas n, ClaimWait} \<Longrightarrow>
     in_place_relocation_claim_page_step s p = (p', s') \<Longrightarrow> ref_step s p p' s'"
| release: "p \<in> {Held, Owner, InPlaceClaimed} \<Longrightarrow> ref_step s p ReleaseLoad s"
| releasing: "p \<in> {ReleaseLoad, ReleaseCas n} \<Longrightarrow> release_page_step s p = (p', s') \<Longrightarrow> ref_step s p p' s'"
| detach: "ref_step s Unheld DetachWait s"
| detaching: "detach_page_step s = (p', s') \<Longrightarrow> ref_step s DetachWait p' s'"

inductive_cases ref_stepE: "ref_step s p p' s'"

inductive refs_step :: "ref_state \<times> ref_pc list \<Rightarrow> ref_state \<times> ref_pc list \<Rightarrow> bool" where
  step: "i < length ps \<Longrightarrow> ref_step s (ps ! i) p' s' \<Longrightarrow> refs_step (s, ps) (s', ps[i := p'])"

text \<open>The assertions of the code, at the program points where it makes them.\<close>

fun ref_asserts :: "ref_state \<Rightarrow> ref_pc \<Rightarrow> bool" where
  "ref_asserts s ClaimLoad = (ref_count s > 0)"
| "ref_asserts s ReleaseLoad = (ref_count s \<noteq> 0)"
| "ref_asserts s Held = (ref_count s \<noteq> 0)"
| "ref_asserts s Owner = (ref_count s \<noteq> 0)"
| "ref_asserts s InPlaceClaimed = (ref_count s = - 1)"
| "ref_asserts s p = True"

fun holding :: "ref_pc \<Rightarrow> bool" where
  "holding Unheld = False"
| "holding RetainLoad = False"
| "holding (RetainCas _) = False"
| "holding RelocateQueueWait = False"
| "holding DetachWait = False"
| "holding Detached = False"
| "holding _ = True"

fun may_claim :: "ref_pc \<Rightarrow> bool" where
  "may_claim Owner = True"
| "may_claim ClaimLoad = True"
| "may_claim (ClaimCas _) = True"
| "may_claim _ = False"

fun claims :: "ref_pc \<Rightarrow> bool" where
  "claims ClaimWait = True"
| "claims InPlaceClaimed = True"
| "claims _ = False"

fun pc_ok :: "ref_pc \<Rightarrow> bool" where
  "pc_ok (RetainCas n) = (n > 0)"
| "pc_ok (ClaimCas n) = (n > 0)"
| "pc_ok (ReleaseCas n) = (n \<noteq> 0)"
| "pc_ok _ = True"

definition pc_inv :: "int \<Rightarrow> ref_pc \<Rightarrow> bool" where
  "pc_inv n p \<longleftrightarrow> pc_ok p \<and> (claims p \<longrightarrow> n < 0) \<and> (p = InPlaceClaimed \<longrightarrow> n = - 1) \<and> (p = Detached \<longrightarrow> n = 0)
     \<and> (n < 0 \<longrightarrow> \<not> may_claim p)"

definition refs_inv :: "ref_state \<times> ref_pc list \<Rightarrow> bool" where
  "refs_inv sp = (case sp of (s, ps) \<Rightarrow>
     \<bar>ref_count s\<bar> = int (length (filter holding ps)) + (if claimed s then 0 else 1)
   \<and> length (filter may_claim ps) \<le> (if claimed s then 1 else 0)
   \<and> (ref_count s < 0 \<longrightarrow> claimed s) \<and> (\<forall>p \<in> set ps. pc_inv (ref_count s) p))"

lemma filter_count_update:
  "i < length ps \<Longrightarrow> length (filter P (ps[i := p])) + (if P (ps ! i) then 1 else 0)
     = length (filter P ps) + (if P p then 1 else 0)"
proof (induction ps arbitrary: i)
  case (Cons q ps)
  then show ?case using Cons.IH [of "i - 1"] by (cases i) auto
qed simp

lemma filter_pos: "i < length ps \<Longrightarrow> P (ps ! i) \<Longrightarrow> 0 < length (filter P ps)"
  by (metis filter_empty_conv length_greater_0_conv nth_mem)

lemma filter_none: "length (filter P ps) = 0 \<Longrightarrow> p \<in> set ps \<Longrightarrow> \<not> P p"
  by (metis filter_empty_conv length_0_conv)

lemma update_all: "\<forall>q \<in> set ps. P q \<Longrightarrow> P p \<Longrightarrow> \<forall>q \<in> set (ps[i := p]). P q"
  by (auto dest: set_update_subset_insert [THEN subsetD])

lemma claims_holding: "claims p \<Longrightarrow> holding p"
  by (cases p) auto

text \<open>A thread that moves without changing the count, keeping what it holds.\<close>

lemma refs_inv_move:
  assumes "refs_inv (s, ps)" "i < length ps" "holding p' = holding (ps ! i)" "may_claim p' \<longrightarrow> may_claim (ps ! i)"
    "pc_inv (ref_count s) p'"
  shows "refs_inv (s, ps[i := p'])"
proof -
  have "length (filter holding (ps[i := p'])) = length (filter holding ps)"
    using filter_count_update [OF assms(2), of holding p'] assms(3) by (simp split: if_splits)
  moreover have "length (filter may_claim (ps[i := p'])) \<le> length (filter may_claim ps)"
    using filter_count_update [OF assms(2), of may_claim p'] assms(4) by (simp split: if_splits)
  moreover have "\<forall>p \<in> set (ps[i := p']). pc_inv (ref_count s) p"
    using assms(1,5) by (intro update_all) (simp_all add: refs_inv_def)
  ultimately show ?thesis using assms(1) by (simp add: refs_inv_def)
qed

text \<open>A thread that changes the count from \<open>n\<close> to \<open>n'\<close>.\<close>

lemma refs_inv_count:
  assumes inv: "refs_inv (s, ps)" and i: "i < length ps" and c: "claimed s' \<longleftrightarrow> claimed s"
    and n: "\<bar>ref_count s'\<bar> = \<bar>ref_count s\<bar> + (if holding p' then 1 else 0) - (if holding (ps ! i) then 1 else 0)"
    and m: "\<not> may_claim p'" "ref_count s' < 0 \<longrightarrow> claimed s"
    and q: "\<And>q. q \<in> set (ps[i := p']) \<Longrightarrow> q = p' \<or> q \<in> set ps \<Longrightarrow> pc_inv (ref_count s') q"
  shows "refs_inv (s', ps[i := p'])"
proof -
  have "length (filter may_claim (ps[i := p'])) \<le> length (filter may_claim ps)"
    using filter_count_update [OF i, of may_claim p'] m by (simp split: if_splits)
  moreover have "\<bar>ref_count s'\<bar> = int (length (filter holding (ps[i := p']))) + (if claimed s then 0 else 1)"
    using filter_count_update [OF i, of holding p'] n inv by (simp add: refs_inv_def split: if_splits)
  moreover have "\<forall>p \<in> set (ps[i := p']). pc_inv (ref_count s') p"
    using q set_update_subset_insert [of ps i p'] by blast
  ultimately show ?thesis using inv c m by (simp add: refs_inv_def)
qed

lemma refs_inv_nonzero: "refs_inv (s, ps) \<Longrightarrow> p \<in> set ps \<Longrightarrow> holding p \<Longrightarrow> ref_count s \<noteq> 0"
proof -
  assume a: "refs_inv (s, ps)" "p \<in> set ps" "holding p"
  then have "0 < length (filter holding ps)" by (metis filter_empty_conv length_greater_0_conv)
  moreover have "\<bar>ref_count s\<bar> \<ge> int (length (filter holding ps))"
    using a(1) by (simp add: refs_inv_def split: if_splits)
  ultimately show ?thesis by linarith
qed

lemma pc_inv_simple: "pc_ok p \<Longrightarrow> \<not> claims p \<Longrightarrow> \<not> may_claim p \<Longrightarrow> p \<noteq> Detached \<Longrightarrow> pc_inv n p"
  by (auto simp: pc_inv_def)

lemma refs_inv_step:
  assumes inv: "refs_inv (s, ps)" and i: "i < length ps" and st: "ref_step s (ps ! i) p' s'"
  shows "refs_inv (s', ps[i := p'])"
proof -
  have at: "ps ! i \<in> set ps" using i by simp
  have pci: "\<And>q. q \<in> set ps \<Longrightarrow> pc_inv (ref_count s) q" using inv by (simp add: refs_inv_def)
  note move = refs_inv_move [OF inv i]
  note D = cas_ref_count_def fwd_claim_def detach_page_step_def
  show ?thesis
    using st
  proof (cases rule: ref_step.cases)
    case (claim ok)
    then show ?thesis
    proof (cases ok)
      case False
      then show ?thesis using claim move [of Unheld] pci [OF at] by (auto simp: D split: if_splits)
    next
      case True
      then have c: "\<not> claimed s" "s' = s\<lparr>claimed := True\<rparr>" "p' = Owner" "ps ! i = Unheld"
        using claim by (auto simp: D split: if_splits)
      have "length (filter holding (ps[i := p'])) = Suc (length (filter holding ps))"
        "length (filter may_claim (ps[i := p'])) = Suc (length (filter may_claim ps))"
        using filter_count_update [OF i, of holding p'] filter_count_update [OF i, of may_claim p'] c by simp_all
      moreover have "\<not> ref_count s < 0" using inv c by (simp add: refs_inv_def)
      moreover have "\<forall>p \<in> set (ps[i := p']). pc_inv (ref_count s) p"
        using pci c calculation(3) by (intro update_all) (auto simp: pc_inv_def)
      ultimately show ?thesis using inv c by (simp add: refs_inv_def)
    qed
  next
    case (retaining n)
    then consider "s' = s" "holding p' = holding (ps ! i)" "\<not> may_claim p'" "pc_inv (ref_count s) p'"
      | "ps ! i = RetainCas n" "ref_count s = n" "p' = Held" "s' = s\<lparr>ref_count := n + 1\<rparr>"
      by (auto simp: D pc_inv_def split: if_splits)
    then show ?thesis
    proof cases
      case 1
      then show ?thesis using move by auto
    next
      case 2
      then have n: "0 < n" using pci [OF at] by (simp add: pc_inv_def)
      have "pc_inv (n + 1) q" if "q = p' \<or> q \<in> set ps" for q
        using that pci [of q] 2 n by (auto simp: pc_inv_def)
      then show ?thesis using 2 n inv by (intro refs_inv_count [OF inv i]) auto
    qed
  next
    case (claiming n)
    have pos: "ref_count s > 0" if "may_claim (ps ! i)"
      using pci [OF at] that refs_inv_nonzero [OF inv at] by (cases "ps ! i") (auto simp: pc_inv_def)
    consider "s' = s" "holding p' = holding (ps ! i)" "may_claim p' \<longrightarrow> may_claim (ps ! i)" "pc_inv (ref_count s) p'"
      | "ps ! i = ClaimCas n" "ref_count s = n" "p' = ClaimWait \<or> p' = InPlaceClaimed \<and> n = 1" "s' = s\<lparr>ref_count := - n\<rparr>"
      using claiming pos pci [OF at] by (auto simp: D pc_inv_def split: if_splits)
    then show ?thesis
    proof cases
      case 1
      then show ?thesis using move by auto
    next
      case 2
      then have n: "0 < n" using pos by auto
      have "length (filter may_claim ps) \<le> (if claimed s then 1 else 0)" using inv by (simp add: refs_inv_def)
      moreover have "length (filter may_claim (ps[i := p'])) + 1 = length (filter may_claim ps)"
        using filter_count_update [OF i, of may_claim p'] 2 by auto
      ultimately have mc: "length (filter may_claim (ps[i := p'])) = 0 \<and> claimed s"
        by (simp split: if_splits del: length_0_conv)
      have "pc_inv (- n) q" if "q \<in> set (ps[i := p'])" "q = p' \<or> q \<in> set ps" for q
        using that pci [of q] 2 n filter_none [of may_claim "ps[i := p']" q] mc by (auto simp: pc_inv_def)
      then show ?thesis using 2 n inv mc by (intro refs_inv_count [OF inv i]) (auto split: if_splits)
    qed
  next
    case (releasing n)
    have nz: "ref_count s \<noteq> 0" using refs_inv_nonzero [OF inv at] releasing(1,2) by auto
    consider "s' = s" "holding p'" "holding (ps ! i)" "\<not> may_claim p'" "pc_inv (ref_count s) p'"
      | "ps ! i = ReleaseCas n" "ref_count s = n" "p' = Unheld" "s' = s\<lparr>ref_count := if n > 0 then n - 1 else n + 1\<rparr>"
      using releasing nz by (auto simp: D pc_inv_def split: if_splits)
    then show ?thesis
    proof cases
      case 1
      then show ?thesis using move by auto
    next
      case 2
      have cnt: "length (filter holding (ps[i := p'])) + 1 = length (filter holding ps)"
        using filter_count_update [OF i, of holding p'] 2 by simp
      have "pc_inv (ref_count s') q" if q: "q \<in> set (ps[i := p'])" "q = p' \<or> q \<in> set ps" for q
      proof -
        have "\<not> claims q" if "n = - 1"
        proof -
          have "length (filter holding (ps[i := p'])) = 0" using cnt inv 2 that by (auto simp: refs_inv_def split: if_splits)
          then show ?thesis using filter_none [of holding] q claims_holding by blast
        qed
        moreover have "n < - 1 \<or> n = - 1 \<or> 0 < n" using 2 nz by auto
        ultimately show ?thesis using q(2) pci [of q] 2 by (auto simp: pc_inv_def)
      qed
      then show ?thesis using 2 nz inv by (intro refs_inv_count [OF inv i]) (auto simp: refs_inv_def)
    qed
  qed (use move pci [OF at] in \<open>auto simp: D pc_inv_def split: if_splits\<close>)
qed

lemma filter_two:
  assumes "i < length ps" "j < length ps" "i \<noteq> j" "holding (ps ! i)" "holding (ps ! j)"
  shows "2 \<le> length (filter holding ps)"
proof -
  have "length (filter holding (ps[i := Unheld])) + 1 = length (filter holding ps)"
    using filter_count_update [OF assms(1), of holding Unheld] assms(4) by simp
  moreover have "0 < length (filter holding (ps[i := Unheld]))"
    using filter_pos [of j "ps[i := Unheld]" holding] assms by simp
  ultimately show ?thesis by linarith
qed

lemma refs_inv_new: "refs_inv (ref_new, replicate k Unheld)"
  by (simp add: refs_inv_def ref_new_def pc_inv_def)

lemma refs_inv_refs_step:
  assumes "refs_step x y" "refs_inv x"
  shows "refs_inv y"
  using assms(1)
proof (cases rule: refs_step.cases)
  case (step i ps s p' s')
  then show ?thesis using refs_inv_step assms(2) by simp
qed

lemma refs_inv_steps: "refs_step\<^sup>*\<^sup>* x y \<Longrightarrow> refs_inv x \<Longrightarrow> refs_inv y"
  by (induction rule: rtranclp_induct) (auto dest: refs_inv_refs_step)

lemma refs_inv_reachable: "refs_step\<^sup>*\<^sup>* (ref_new, replicate k Unheld) y \<Longrightarrow> refs_inv y"
  using refs_inv_steps refs_inv_new by blast

lemma zero_step:
  assumes "refs_step x y" "refs_inv x" "ref_count (fst x) = 0"
  shows "ref_count (fst y) = 0"
  using assms(1)
proof (cases rule: refs_step.cases)
  case (step i ps s p' s')
  then have "pc_inv 0 (ps ! i)" "ref_count s = 0" using assms(2,3) by (auto simp: refs_inv_def)
  then show ?thesis using step(2,4)
    by (auto elim!: ref_stepE simp: pc_inv_def cas_ref_count_def fwd_claim_def detach_page_step_def split: if_splits)
qed

lemma zero_steps:
  "refs_step\<^sup>*\<^sup>* x y \<Longrightarrow> refs_inv x \<Longrightarrow> ref_count (fst x) = 0 \<Longrightarrow> ref_count (fst y) = 0"
  by (induction rule: rtranclp_induct) (auto intro: zero_step dest: refs_inv_steps)

text \<open>C27. Whatever the interleaving of claims, retains, in-place claims, releases and detachments: the
  assertions of the code hold, a page that some thread holds is never detached, and a thread that claimed
  the page in place is its only holder.\<close>

theorem retained_page_safe:
  assumes "refs_step\<^sup>*\<^sup>* (ref_new, replicate k Unheld) (s, ps)"
  shows "(\<forall>p \<in> set ps. ref_asserts s p)
    \<and> (\<forall>p \<in> set ps. holding p \<longrightarrow> ref_count s \<noteq> 0 \<and> Detached \<notin> set ps)
    \<and> (\<forall>i < length ps. ps ! i = InPlaceClaimed \<longrightarrow> (\<forall>j < length ps. j \<noteq> i \<longrightarrow> \<not> holding (ps ! j)))"
proof -
  have inv: "refs_inv (s, ps)" by (rule refs_inv_reachable [OF assms])
  then have pci: "\<And>p. p \<in> set ps \<Longrightarrow> pc_inv (ref_count s) p" by (simp add: refs_inv_def)
  have nz: "\<And>p. p \<in> set ps \<Longrightarrow> holding p \<Longrightarrow> ref_count s \<noteq> 0" using refs_inv_nonzero [OF inv] .
  have "ref_asserts s p" if p: "p \<in> set ps" for p
    using pci [OF p] nz [OF p] by (cases p) (auto simp: pc_inv_def)
  moreover have "Detached \<notin> set ps" if "p \<in> set ps" "holding p" for p
    using nz [OF that] pci [of Detached] by (auto simp: pc_inv_def)
  moreover have "\<not> holding (ps ! j)" if i: "i < length ps" "ps ! i = InPlaceClaimed" and j: "j < length ps" "j \<noteq> i" for i j
  proof
    assume "holding (ps ! j)"
    then have "2 \<le> length (filter holding ps)" using filter_two [OF i(1) j(1)] i(2) j(2) by simp
    moreover have "\<bar>ref_count s\<bar> \<ge> int (length (filter holding ps))"
      using inv by (simp add: refs_inv_def split: if_splits)
    moreover have "ref_count s = - 1" using pci [OF nth_mem [OF i(1)]] i(2) by (simp add: pc_inv_def)
    ultimately show False by linarith
  qed
  ultimately show ?thesis using nz by blast
qed

text \<open>A released page stays released: once the reference count is zero it never changes again, and from
  then on no thread holds the page.\<close>

theorem released_page_final:
  assumes "refs_step\<^sup>*\<^sup>* (ref_new, replicate k Unheld) (s, ps)" "ref_count s = 0"
    "refs_step\<^sup>*\<^sup>* (s, ps) (s', ps')"
  shows "ref_count s' = 0 \<and> (\<forall>p \<in> set ps'. \<not> holding p)"
proof -
  have inv: "refs_inv (s, ps)" by (rule refs_inv_reachable [OF assms(1)])
  then have "ref_count s' = 0" using zero_steps [OF assms(3)] assms(2) by simp
  then show ?thesis using refs_inv_nonzero refs_inv_steps [OF assms(3) inv] by blast
qed

text \<open>A thread that waits for its in-place claim waits for another holder: if no other thread holds
  the page, the count it waits for has been reached, and its next step claims the page.\<close>

theorem claim_wait_has_holder:
  assumes "refs_step\<^sup>*\<^sup>* (ref_new, replicate k Unheld) (s, ps)" "i < length ps" "ps ! i = ClaimWait"
  shows "(\<exists>j < length ps. j \<noteq> i \<and> holding (ps ! j))
    \<or> in_place_relocation_claim_page_step s ClaimWait = (InPlaceClaimed, s)"
proof (cases "\<exists>j < length ps. j \<noteq> i \<and> holding (ps ! j)")
  case False
  have inv: "refs_inv (s, ps)" by (rule refs_inv_reachable [OF assms(1)])
  have "\<not> holding q" if "q \<in> set (ps[i := Unheld])" for q
  proof -
    obtain j where "j < length ps" "q = ps[i := Unheld] ! j" using \<open>q \<in> set (ps[i := Unheld])\<close> by (auto simp: in_set_conv_nth)
    then show ?thesis using False by (cases "j = i") auto
  qed
  then have "length (filter holding (ps[i := Unheld])) = 0" by (simp add: filter_empty_conv)
  then have "length (filter holding ps) = 1"
    using filter_count_update [OF assms(2), of holding Unheld] assms(3) by simp
  moreover have "ref_count s < 0" "claimed s"
    using inv assms(2,3) nth_mem [OF assms(2)] by (auto simp: refs_inv_def pc_inv_def)
  ultimately have "ref_count s = - 1" using inv by (auto simp: refs_inv_def)
  then show ?thesis by simp
qed simp

text \<open>A run in which a thread retains the page while the relocating thread claims it in place.\<close>

lemma refs_run:
  "refs_step\<^sup>*\<^sup>* x (s, ps) \<Longrightarrow> i < length ps \<Longrightarrow> ref_step s (ps ! i) p' s' \<Longrightarrow> refs_step\<^sup>*\<^sup>* x (s', ps[i := p'])"
  by (rule rtranclp.rtrancl_into_rtrancl) (auto intro: refs_step.step)

definition refs_demo :: "int \<Rightarrow> ref_pc \<Rightarrow> ref_pc \<Rightarrow> ref_state \<times> ref_pc list" where
  "refs_demo n p q = (\<lparr>claimed = True, ref_count = n\<rparr>, [p, q])"

lemma refs_demo_step0:
  "refs_step\<^sup>*\<^sup>* x (refs_demo n p q) \<Longrightarrow> ref_step \<lparr>claimed = True, ref_count = n\<rparr> p p' \<lparr>claimed = True, ref_count = n'\<rparr>
     \<Longrightarrow> refs_step\<^sup>*\<^sup>* x (refs_demo n' p' q)"
  using refs_run [of x _ "[p, q]" 0 p'] by (simp add: refs_demo_def)

lemma refs_demo_step1:
  "refs_step\<^sup>*\<^sup>* x (refs_demo n p q) \<Longrightarrow> ref_step \<lparr>claimed = True, ref_count = n\<rparr> q q' \<lparr>claimed = True, ref_count = n'\<rparr>
     \<Longrightarrow> refs_step\<^sup>*\<^sup>* x (refs_demo n' p q')"
  using refs_run [of x _ "[p, q]" 1 q'] by (simp add: refs_demo_def)

lemma refs_demo_owner: "refs_step\<^sup>*\<^sup>* (ref_new, replicate 2 Unheld) (refs_demo 1 Owner Unheld)"
proof -
  have "ref_step ref_new Unheld (if True then Owner else Unheld) \<lparr>claimed = True, ref_count = 1\<rparr>"
    by (rule ref_step.claim) (simp add: fwd_claim_def ref_new_def)
  then show ?thesis
    using refs_run [of "(ref_new, replicate 2 Unheld)" ref_new "replicate 2 Unheld" 0]
    by (simp add: refs_demo_def numeral_2_eq_2)
qed

lemma refs_demo_wait: "refs_step\<^sup>*\<^sup>* (ref_new, replicate 2 Unheld) (refs_demo (- 2) ClaimWait Held)"
proof -
  have "refs_step\<^sup>*\<^sup>* (ref_new, replicate 2 Unheld) (refs_demo 2 Owner Held)"
    by (rule refs_demo_step1, rule refs_demo_step1, rule refs_demo_step1, rule refs_demo_owner, rule ref_step.retain)
      (auto intro!: ref_step.retaining simp: cas_ref_count_def)
  then have "refs_step\<^sup>*\<^sup>* (ref_new, replicate 2 Unheld) (refs_demo 2 ClaimLoad Held)"
    by (rule refs_demo_step0) (rule ref_step.claim_page)
  then have "refs_step\<^sup>*\<^sup>* (ref_new, replicate 2 Unheld) (refs_demo 2 (ClaimCas 2) Held)"
    by (rule refs_demo_step0) (auto intro!: ref_step.claiming)
  then show ?thesis by (rule refs_demo_step0) (auto intro!: ref_step.claiming simp: cas_ref_count_def)
qed

lemma refs_demo_claimed: "refs_step\<^sup>*\<^sup>* (ref_new, replicate 2 Unheld) (refs_demo (- 1) InPlaceClaimed Unheld)"
proof -
  have "refs_step\<^sup>*\<^sup>* (ref_new, replicate 2 Unheld) (refs_demo (- 2) ClaimWait ReleaseLoad)"
    by (rule refs_demo_step1 [OF refs_demo_wait]) (auto intro: ref_step.release)
  then have "refs_step\<^sup>*\<^sup>* (ref_new, replicate 2 Unheld) (refs_demo (- 2) ClaimWait (ReleaseCas (- 2)))"
    by (rule refs_demo_step1) (auto intro!: ref_step.releasing)
  then have "refs_step\<^sup>*\<^sup>* (ref_new, replicate 2 Unheld) (refs_demo (- 1) ClaimWait Unheld)"
    by (rule refs_demo_step1) (auto intro!: ref_step.releasing simp: cas_ref_count_def)
  then show ?thesis by (rule refs_demo_step0) (auto intro!: ref_step.claiming)
qed

lemma refs_demo_released: "refs_step\<^sup>*\<^sup>* (ref_new, replicate 2 Unheld) (refs_demo 0 Unheld Unheld)"
proof -
  have "refs_step\<^sup>*\<^sup>* (ref_new, replicate 2 Unheld) (refs_demo (- 1) ReleaseLoad Unheld)"
    by (rule refs_demo_step0 [OF refs_demo_claimed]) (auto intro: ref_step.release)
  then have "refs_step\<^sup>*\<^sup>* (ref_new, replicate 2 Unheld) (refs_demo (- 1) (ReleaseCas (- 1)) Unheld)"
    by (rule refs_demo_step0) (auto intro!: ref_step.releasing)
  then show ?thesis by (rule refs_demo_step0) (auto intro!: ref_step.releasing simp: cas_ref_count_def)
qed

theorem retained_page_safe_witness:
  "ref_asserts \<lparr>claimed = True, ref_count = - 1\<rparr> InPlaceClaimed"
  using retained_page_safe [OF refs_demo_claimed [unfolded refs_demo_def]] by simp

theorem released_page_final_witness:
  "\<exists>q. refs_step\<^sup>*\<^sup>* (ref_new, replicate 2 Unheld) (refs_demo 0 Unheld q) \<and> q = DetachWait \<and> \<not> holding q"
proof -
  have "refs_step\<^sup>*\<^sup>* (refs_demo 0 Unheld Unheld) (refs_demo 0 Unheld DetachWait)"
    by (rule refs_demo_step1 [OF rtranclp.rtrancl_refl]) (rule ref_step.detach)
  then show ?thesis
    using released_page_final [OF refs_demo_released [unfolded refs_demo_def]] refs_demo_released
    by (auto simp: refs_demo_def intro: rtranclp_trans)
qed

theorem claim_wait_has_holder_witness:
  "\<exists>j < length [ClaimWait, Held]. j \<noteq> 0 \<and> holding ([ClaimWait, Held] ! j)"
  using claim_wait_has_holder [OF refs_demo_wait [unfolded refs_demo_def], of 0] by simp

end
