(* ===== verification/Z_Remset_Publish.thy ===== *)
theory Z_Remset_Publish
  imports Zgc_Prelude
begin

text \<open>
  The hand-over of relocated remembered fields, \<open>zForwarding.cpp\<close> and
  \<open>zForwarding.inline.hpp\<close>: an old collection (OC) that relocates a page collects the fields of
  the new copies that need a remembered set entry; a young collection (YC) that scans remembered
  sets at the same time either takes the published fields or rejects them and visits the objects
  itself (\<open>ZRemembered::scan_forwarding\<close>). An assertion that fails is \<open>None\<close>. The phase and the
  sequence number of the young generation are arguments.
\<close>

datatype publish_state = PsNone | PsPublished | PsReject | PsAccept

record 'p publication =
  relocated_remembered_fields_state :: publish_state
  relocated_remembered_fields_array :: "'p list"
  publish_young_seqnum :: u32

definition publication_new :: "'p publication" where
  "publication_new = \<lparr>relocated_remembered_fields_state = PsNone,
     relocated_remembered_fields_array = [], publish_young_seqnum = 0\<rparr>"

definition cas_state :: "'p publication \<Rightarrow> publish_state \<Rightarrow> publish_state \<Rightarrow> publish_state \<times> 'p publication" where
  "cas_state w expected new =
     (if relocated_remembered_fields_state w = expected
      then (expected, w\<lparr>relocated_remembered_fields_state := new\<rparr>)
      else (relocated_remembered_fields_state w, w))"

definition relocated_remembered_fields_register :: "bool \<Rightarrow> 'p \<Rightarrow> 'p publication \<Rightarrow> 'p publication option" where
  "relocated_remembered_fields_register young_phase_mark p w =
     (if \<not> young_phase_mark then None
      else if relocated_remembered_fields_state w = PsNone
      then Some (w\<lparr>relocated_remembered_fields_array := relocated_remembered_fields_array w @ [p]\<rparr>)
      else if relocated_remembered_fields_state w = PsReject then Some w else None)"

definition relocated_remembered_fields_publish :: "'p publication \<Rightarrow> 'p publication option" where
  "relocated_remembered_fields_publish w =
     (case cas_state w PsNone PsPublished of (res, w') \<Rightarrow>
        if res = PsNone then Some w'
        else if res = PsReject then Some (w'\<lparr>relocated_remembered_fields_array := []\<rparr>)
        else None)"

definition relocated_remembered_fields_after_relocate ::
    "bool \<Rightarrow> bool \<Rightarrow> u32 \<Rightarrow> 'p publication \<Rightarrow> 'p publication option" where
  "relocated_remembered_fields_after_relocate from_old young_phase_mark seqnum w =
     (if \<not> from_old then None
      else if young_phase_mark then relocated_remembered_fields_publish (w\<lparr>publish_young_seqnum := seqnum\<rparr>)
      else Some (w\<lparr>publish_young_seqnum := seqnum\<rparr>))"

definition relocated_remembered_fields_notify_concurrent_scan_of ::
    "bool \<Rightarrow> 'p publication \<Rightarrow> 'p publication option" where
  "relocated_remembered_fields_notify_concurrent_scan_of young_phase_mark w =
     (if \<not> young_phase_mark then None
      else case cas_state w PsNone PsReject of (res, w') \<Rightarrow>
        if res = PsNone then Some w'
        else if res = PsPublished then
          (case cas_state w' PsPublished PsReject of (res2, w2) \<Rightarrow>
             if res2 = PsPublished then Some (w2\<lparr>relocated_remembered_fields_array := []\<rparr>) else None)
        else if res = PsReject then Some w' else None)"

definition relocated_remembered_fields_is_concurrently_scanned :: "'p publication \<Rightarrow> bool" where
  "relocated_remembered_fields_is_concurrently_scanned w \<longleftrightarrow> relocated_remembered_fields_state w = PsReject"

text \<open>The fields the function is applied to, in order, are returned.\<close>

definition relocated_remembered_fields_apply_to_published ::
    "bool \<Rightarrow> u32 \<Rightarrow> 'p publication \<Rightarrow> ('p list \<times> 'p publication) option" where
  "relocated_remembered_fields_apply_to_published young_phase_mark seqnum w =
     (if \<not> young_phase_mark then None
      else
        let res = relocated_remembered_fields_state w;
            applied = (if res = PsPublished then relocated_remembered_fields_array w else []);
            w' = (if res = PsPublished then w\<lparr>relocated_remembered_fields_array := []\<rparr> else w)
        in if publish_young_seqnum w' = 0 then None
           else if publish_young_seqnum w' = seqnum then
             if res = PsAccept then None
             else Some (applied, w'\<lparr>relocated_remembered_fields_state := PsReject\<rparr>)
           else Some (applied, w'\<lparr>relocated_remembered_fields_state := PsAccept\<rparr>))"

definition relocated_remembered_fields_published_contains :: "'p publication \<Rightarrow> 'p \<Rightarrow> bool" where
  "relocated_remembered_fields_published_contains w p = list_ex (\<lambda>elem. elem = p) (relocated_remembered_fields_array w)"

subsection \<open>The old relocation of one page and the young collections beside it\<close>

text \<open>
  The old collection relocates the fields that have a remembered set bit one after the other and looks at the young
  phase for each (\<open>update_remset_old_to_old\<close>): while the young collection marks it registers the field here,
  otherwise it remembers it in the page of the copy. Then it calls \<open>after_relocate\<close>, if the page was old, and releases the
  page (\<open>ZRelocateWork::do_forwarding\<close>). A young collection starts with the number of young collections so far
  counted up, and scans each forwarding of the old relocation set once (\<open>ZRemembered::scan_forwarding\<close>): it retains
  the page, which succeeds exactly before the release (theory \<open>Z_Forwarding\<close>), notifies and releases it, or applies the
  published fields. Its marking ends after the scan. \<open>from_old\<close> says that the page comes from the old generation; only then is the
  forwarding one of the old relocation set and are its fields moved.

  The rest is for the properties: \<open>found\<close> are the fields registered since the last young collection started, \<open>direct\<close>
  those remembered in a page, \<open>applied\<close> those handed over in its scan; \<open>eager\<close> says that some young collection scanned the page
  itself; \<open>young_total\<close> and \<open>publish_total\<close> are the sequence numbers without the limit of 32 bits.
\<close>

datatype scan_state = NotScanned | PageRetained | PageScanned

record 'p handover =
  pub :: "'p publication"
  from_old :: bool
  oc_relocated :: bool
  oc_released :: bool
  young_mark :: bool
  young_seqnum :: u32
  scan :: scan_state
  found :: "'p list"
  direct :: "'p list"
  applied :: "'p list"
  eager :: bool
  young_total :: nat
  publish_total :: nat

definition handover_new :: "bool \<Rightarrow> nat \<Rightarrow> 'p handover" where
  "handover_new old n = \<lparr>pub = publication_new, from_old = old, oc_relocated = False, oc_released = False, young_mark = False,
     young_seqnum = word_of_nat n, scan = PageScanned, found = [], direct = [], applied = [], eager = False,
     young_total = n, publish_total = 0\<rparr>"

datatype 'p handover_event =
    RelocateField 'p
  | AfterRelocate
  | ReleasePage
  | YoungMarkStart
  | ScanForwarding
  | NotifyScan
  | YoungMarkEnd

text \<open>Where the two collections are when each event can happen. The phases and states the functions assert are
  not among the conditions.\<close>

fun enabled :: "'p handover_event \<Rightarrow> 'p handover \<Rightarrow> bool" where
  "enabled (RelocateField p) h = (from_old h \<and> \<not> oc_relocated h)"
| "enabled AfterRelocate h = (\<not> oc_relocated h)"
| "enabled ReleasePage h = (oc_relocated h \<and> \<not> oc_released h)"
| "enabled YoungMarkStart h = (\<not> young_mark h)"
| "enabled ScanForwarding h = (from_old h \<and> scan h = NotScanned)"
| "enabled NotifyScan h = (scan h = PageRetained)"
| "enabled YoungMarkEnd h = (young_mark h \<and> scan h = PageScanned)"

text \<open>What it does; \<open>None\<close> if an assertion fails.\<close>

fun happen :: "'p handover_event \<Rightarrow> 'p handover \<Rightarrow> 'p handover option" where
  "happen (RelocateField p) h =
     (if young_mark h
      then map_option (\<lambda>w. h\<lparr>pub := w, found := found h @ [p]\<rparr>)
             (relocated_remembered_fields_register (young_mark h) p (pub h))
      else Some (h\<lparr>direct := direct h @ [p]\<rparr>))"
| "happen AfterRelocate h =
     (if from_old h
      then map_option (\<lambda>w. h\<lparr>pub := w, oc_relocated := True, publish_total := young_total h\<rparr>)
             (relocated_remembered_fields_after_relocate (from_old h) (young_mark h) (young_seqnum h) (pub h))
      else Some (h\<lparr>oc_relocated := True\<rparr>))"
| "happen ReleasePage h = Some (h\<lparr>oc_released := True\<rparr>)"
| "happen YoungMarkStart h =
     Some (h\<lparr>young_mark := True, young_seqnum := young_seqnum h + 1, young_total := young_total h + 1,
              scan := (if from_old h then NotScanned else PageScanned), found := [], applied := []\<rparr>)"
| "happen ScanForwarding h =
     (if \<not> oc_released h then Some (h\<lparr>scan := PageRetained\<rparr>)
      else map_option (\<lambda>(ps, w). h\<lparr>pub := w, scan := PageScanned, applied := ps\<rparr>)
        (relocated_remembered_fields_apply_to_published (young_mark h) (young_seqnum h) (pub h)))"
| "happen NotifyScan h =
     map_option (\<lambda>w. h\<lparr>pub := w, scan := PageScanned, eager := True\<rparr>)
       (relocated_remembered_fields_notify_concurrent_scan_of (young_mark h) (pub h))"
| "happen YoungMarkEnd h = Some (h\<lparr>young_mark := False\<rparr>)"

inductive handover_step :: "'p handover \<Rightarrow> 'p handover option \<Rightarrow> bool" where
  event: "enabled e h \<Longrightarrow> handover_step h (happen e h)"

inductive handover_reachable :: "'p handover \<Rightarrow> bool" where
  start: "0 < n \<Longrightarrow> handover_reachable (handover_new old n)"
| step: "handover_reachable h \<Longrightarrow> handover_step h (Some h') \<Longrightarrow> handover_reachable h'"

definition handover_inv :: "'p handover \<Rightarrow> bool" where
  "handover_inv h \<longleftrightarrow>
     0 < young_total h \<and> publish_total h \<le> young_total h
   \<and> (from_old h \<longrightarrow> (oc_relocated h \<longleftrightarrow> publish_total h \<noteq> 0))
   \<and> (\<not> from_old h \<longrightarrow> scan h = PageScanned \<and> relocated_remembered_fields_state (pub h) = PsNone \<and> found h = [] \<and> applied h = []
        \<and> relocated_remembered_fields_array (pub h) = [])
   \<and> (oc_released h \<longrightarrow> oc_relocated h)
   \<and> (\<not> young_mark h \<longrightarrow> scan h = PageScanned)
   \<and> (eager h \<longrightarrow> relocated_remembered_fields_state (pub h) = PsReject \<or> oc_released h)
   \<and> (scan h = PageRetained \<longrightarrow> relocated_remembered_fields_state (pub h) \<noteq> PsAccept)
   \<and> (scan h = PageScanned \<longrightarrow> eager h \<or> applied h = found h)
   \<and> (case relocated_remembered_fields_state (pub h) of
        PsNone \<Rightarrow> relocated_remembered_fields_array (pub h) = found h \<and> \<not> eager h
          \<and> (from_old h \<and> young_mark h \<longrightarrow> scan h \<noteq> PageScanned)
          \<and> (from_old h \<and> young_mark h \<and> oc_relocated h \<longrightarrow> publish_total h < young_total h \<and> found h = [])
          \<and> (\<not> young_mark h \<longrightarrow> found h = [])
      | PsPublished \<Rightarrow> relocated_remembered_fields_array (pub h) = found h \<and> oc_relocated h \<and> young_mark h
          \<and> publish_total h = young_total h \<and> scan h \<noteq> PageScanned
      | PsReject \<Rightarrow> eager h \<or> oc_released h \<and> (scan h \<noteq> PageScanned \<longrightarrow> found h = [])
      | PsAccept \<Rightarrow> oc_released h \<and> publish_total h < young_total h
          \<and> (scan h \<noteq> PageScanned \<longrightarrow> found h = []))"

text \<open>The sequence numbers are those counted, modulo \<open>2 ^ 32\<close>.\<close>

definition seqnums_ok :: "'p handover \<Rightarrow> bool" where
  "seqnums_ok h \<longleftrightarrow> young_seqnum h = word_of_nat (young_total h) \<and> publish_young_seqnum (pub h) = word_of_nat (publish_total h)"

lemmas publish_ops = relocated_remembered_fields_register_def relocated_remembered_fields_publish_def
  relocated_remembered_fields_after_relocate_def relocated_remembered_fields_notify_concurrent_scan_of_def
  relocated_remembered_fields_apply_to_published_def cas_state_def Let_def

lemma seqnums_ok_event:
  assumes "seqnums_ok h" "happen e h = Some h'"
  shows "seqnums_ok h'"
  using assms by (cases e) (auto simp: seqnums_ok_def publish_ops split: if_splits)

lemma handover_inv_event:
  assumes "handover_inv h" "seqnums_ok h" "enabled e h" "happen e h = Some h'"
  shows "handover_inv h'"
proof (cases e)
  case (RelocateField p)
  then show ?thesis
    using assms(1,3,4) by (cases "relocated_remembered_fields_state (pub h)") (auto simp: handover_inv_def publish_ops split: if_splits)
next
  case AfterRelocate
  then show ?thesis
    using assms(1,3,4) by (cases "relocated_remembered_fields_state (pub h)") (auto simp: handover_inv_def publish_ops split: if_splits)
next
  case ScanForwarding
  have "publish_young_seqnum (pub h) = young_seqnum h \<or> publish_total h < young_total h"
    using assms(1,2) by (auto simp: seqnums_ok_def handover_inv_def le_less)
  then show ?thesis
    using ScanForwarding assms(1,3,4) by (cases "relocated_remembered_fields_state (pub h)") (auto simp: handover_inv_def publish_ops split: if_splits)
next
  case NotifyScan
  then show ?thesis
    using assms(1,3,4) by (cases "relocated_remembered_fields_state (pub h)") (auto simp: handover_inv_def publish_ops split: if_splits)
next
  case YoungMarkStart
  then show ?thesis
    using assms(1,3,4) by (cases "relocated_remembered_fields_state (pub h)") (auto simp: handover_inv_def)
next
  case ReleasePage
  then have h': "h' = h\<lparr>oc_released := True\<rparr>" "oc_relocated h" using assms(3,4) by simp_all
  show ?thesis using assms(1) h'(2) unfolding h'(1)
    by (cases "relocated_remembered_fields_state (pub h)") (auto simp: handover_inv_def)
next
  case YoungMarkEnd
  then have h': "h' = h\<lparr>young_mark := False\<rparr>" "young_mark h" "scan h = PageScanned" using assms(3,4) by simp_all
  show ?thesis using assms(1) h'(2,3) unfolding h'(1)
    by (cases "relocated_remembered_fields_state (pub h)") (auto simp: handover_inv_def)
qed

lemma handover_inv_reachable: "handover_reachable h \<Longrightarrow> handover_inv h \<and> seqnums_ok h"
proof (induction rule: handover_reachable.induct)
  case (start n old)
  then show ?case by (simp add: handover_inv_def seqnums_ok_def handover_new_def publication_new_def)
next
  case (step h h')
  from step(2) obtain e where "enabled e h" "happen e h = Some h'"
    by (cases rule: handover_step.cases) auto
  then show ?case using handover_inv_event seqnums_ok_event step(3) by blast
qed

text \<open>Below \<open>2 ^ 32\<close> no assertion fails.\<close>

lemma seqnums_exact:
  assumes "handover_inv h" "seqnums_ok h" "young_total h < 4294967296"
  shows "publish_young_seqnum (pub h) = young_seqnum h \<longleftrightarrow> publish_total h = young_total h"
    "publish_young_seqnum (pub h) = 0 \<longleftrightarrow> publish_total h = 0"
proof -
  have "publish_total h < 4294967296" using assms by (simp add: handover_inv_def)
  then have w: "unat (young_seqnum h) = young_total h" "unat (publish_young_seqnum (pub h)) = publish_total h"
    using assms by (simp_all add: seqnums_ok_def unat_of_nat_small)
  show "publish_young_seqnum (pub h) = young_seqnum h \<longleftrightarrow> publish_total h = young_total h"
    "publish_young_seqnum (pub h) = 0 \<longleftrightarrow> publish_total h = 0"
    unfolding word_unat_eq_iff w by simp_all
qed

lemma handover_no_failure:
  assumes "handover_inv h" "seqnums_ok h" "enabled e h" "young_total h < 4294967296"
  shows "happen e h \<noteq> None"
proof -
  note s = seqnums_exact [OF assms(1,2,4)]
  show ?thesis
    using assms(1,3)
    by (cases e; cases "relocated_remembered_fields_state (pub h)")
      (auto simp: handover_inv_def publish_ops s split: if_splits)
qed

text \<open>C33. No assertion of the hand-over fails: in every reachable state, whatever the two collections can do next
  - relocate a field, finish the page, release it, start or end a young marking, scan the forwarding - is carried out
  without a failed assertion about the young phase, the age of the page, the published state or the sequence
  number, as long as there have been fewer than \<open>2 ^ 32\<close> young collections, so that the 32-bit sequence
  number has not wrapped around to 0.\<close>

theorem handover_never_fails:
  assumes "handover_reachable h" "enabled e h" "young_total h < 2 ^ 32"
  shows "\<exists>h'. happen e h = Some h' \<and> handover_reachable h'"
proof -
  obtain h' where h': "happen e h = Some h'"
    using handover_no_failure [OF handover_inv_reachable [OF assms(1), THEN conjunct1] handover_inv_reachable [OF assms(1), THEN conjunct2] assms(2)]
      assms(3) by auto
  then have "handover_step h (Some h')" using handover_step.event [OF assms(2)] by simp
  then show ?thesis using h' handover_reachable.step [OF assms(1)] by blast
qed

text \<open>C28. No remembered field is lost: when a young collection has scanned the forwarding, either some young
  collection has visited the page's objects itself, or it was handed exactly the fields that the old
  collection registered during its marking, in their order.\<close>

theorem no_remembered_field_lost:
  assumes "handover_reachable h" "scan h = PageScanned"
  shows "eager h \<or> applied h = found h"
  using handover_inv_reachable [OF assms(1)] assms(2) by (simp add: handover_inv_def)

text \<open>After the scan of the forwardings, a page whose forwarding is not marked as concurrently scanned was
  relocated and released before the current young collection started, so it is safe to scan it.\<close>

theorem not_concurrently_scanned_safe:
  assumes "handover_reachable h" "from_old h" "young_mark h" "scan h = PageScanned"
    "\<not> relocated_remembered_fields_is_concurrently_scanned (pub h)"
  shows "oc_released h \<and> publish_total h < young_total h"
  using handover_inv_reachable [OF assms(1)] assms(2-5)
  by (cases "relocated_remembered_fields_state (pub h)")
    (auto simp: handover_inv_def relocated_remembered_fields_is_concurrently_scanned_def)

text \<open>Runs of events, and two runs: relocation during a young marking, and before one.\<close>

fun handover_run :: "'p handover_event list \<Rightarrow> 'p handover \<Rightarrow> 'p handover option" where
  "handover_run [] h = Some h"
| "handover_run (e # es) h =
     (if enabled e h then case happen e h of None \<Rightarrow> None | Some h' \<Rightarrow> handover_run es h' else None)"

lemma handover_run_reachable: "handover_run es h = Some h' \<Longrightarrow> handover_reachable h \<Longrightarrow> handover_reachable h'"
proof (induction es arbitrary: h)
  case (Cons e es)
  then obtain g where g: "enabled e h" "happen e h = Some g" "handover_run es g = Some h'"
    by (auto split: if_splits option.splits)
  have "handover_step h (Some g)" using handover_step.event [OF g(1)] g(2) by simp
  then show ?case using Cons.IH [OF g(3)] handover_reachable.step [OF Cons.prems(2)] by blast
qed simp

definition handover_demo_run :: "nat handover_event list" where
  "handover_demo_run = [RelocateField 5, YoungMarkStart, RelocateField 10, RelocateField 20, AfterRelocate, ReleasePage]"

lemma handover_demo:
  "handover_run (handover_demo_run @ [ScanForwarding])
     (handover_new True 1) = Some \<lparr>pub = \<lparr>relocated_remembered_fields_state = PsReject,
       relocated_remembered_fields_array = [], publish_young_seqnum = 2\<rparr>, from_old = True, oc_relocated = True, oc_released = True,
       young_mark = True, young_seqnum = 2, scan = PageScanned, found = [10, 20], direct = [5], applied = [10, 20], eager = False,
       young_total = 2, publish_total = 2\<rparr>"
  by (simp add: publish_ops handover_new_def publication_new_def handover_demo_run_def)

lemma handover_demo_before:
  "handover_run [AfterRelocate, ReleasePage, YoungMarkStart, ScanForwarding :: nat handover_event]
     (handover_new True 1) = Some \<lparr>pub = \<lparr>relocated_remembered_fields_state = PsAccept,
       relocated_remembered_fields_array = [], publish_young_seqnum = 1\<rparr>, from_old = True, oc_relocated = True, oc_released = True,
       young_mark = True, young_seqnum = 2, scan = PageScanned, found = [], direct = [], applied = [], eager = False,
       young_total = 2, publish_total = 1\<rparr>"
  by (simp add: publish_ops handover_new_def publication_new_def)

text \<open>When the sequence number wraps around to 0, the assertion on it does fail.\<close>

lemma handover_wraps:
  "handover_run [YoungMarkStart, AfterRelocate, ReleasePage, ScanForwarding :: nat handover_event]
     (handover_new True 4294967295) = None"
  by (simp add: publish_ops handover_new_def publication_new_def)

lemma handover_demo_reachable:
  "handover_run es (handover_new True 1) = Some h' \<Longrightarrow> handover_reachable h'"
  by (erule handover_run_reachable) (rule handover_reachable.start, simp)

lemma handover_demo_prefix:
  obtains h where "handover_run handover_demo_run (handover_new True 1) = Some h" "enabled ScanForwarding h" "young_total h = 2"
    "relocated_remembered_fields_state (pub h) = PsPublished"
  by (rule that [of "the (handover_run handover_demo_run (handover_new True 1))"])
    (simp_all add: publish_ops handover_new_def publication_new_def handover_demo_run_def)

theorem handover_never_fails_witness:
  "\<exists>h h' :: nat handover. relocated_remembered_fields_state (pub h) = PsPublished \<and> happen ScanForwarding h = Some h'
     \<and> handover_reachable h'"
proof -
  obtain h :: "nat handover" where h: "handover_run handover_demo_run (handover_new True 1) = Some h" "enabled ScanForwarding h"
    "young_total h = 2" "relocated_remembered_fields_state (pub h) = PsPublished" by (rule handover_demo_prefix)
  from handover_never_fails [OF handover_demo_reachable [OF h(1)] h(2)] h(3)
  obtain h' where "happen ScanForwarding h = Some h'" "handover_reachable h'" by auto
  then show ?thesis using h(4) by blast
qed

theorem no_remembered_field_lost_witness:
  "\<exists>h. handover_run (handover_demo_run @ [ScanForwarding]) (handover_new True 1) = Some h \<and> found h = [10, 20]
     \<and> \<not> eager h \<and> (eager h \<or> applied h = found h)"
  unfolding handover_demo
  using no_remembered_field_lost [OF handover_demo_reachable [OF handover_demo]] by simp

theorem not_concurrently_scanned_safe_witness:
  "relocated_remembered_fields_is_concurrently_scanned \<lparr>relocated_remembered_fields_state = PsReject,
     relocated_remembered_fields_array = [0 :: nat], publish_young_seqnum = 1\<rparr> \<and> (1 :: nat) < 2"
  using not_concurrently_scanned_safe [OF handover_demo_reachable [OF handover_demo_before]]
  by (simp add: relocated_remembered_fields_is_concurrently_scanned_def)

end
