(* ===== verification/JS_Malloc.thy ===== *)
theory JS_Malloc
  imports Bit_Utils
begin

text \<open>
  The segregated-fit allocator of \<open>JSMalloc.hpp\<close> and \<open>JSMalloc.cpp\<close>: \<open>JSMallocBase\<close> with its two
  configurations, \<open>JSMalloc\<close> (two bitmap levels, headers, immediate coalescing) and \<open>JSMallocZ\<close>
  (one bitmap, no headers, lock-free lists whose heads carry an offset and a version). A
  pointer is its address and \<open>nullptr\<close> is 0; the fields of the block headers are maps from the
  address of the header. The operations run alone here: the compare-and-swap of a list head
  finds the value just loaded, so the loops that retry after another thread's success, in
  \<open>insert_block\<close> and \<open>find_block\<close>, are not exercised, and the model says nothing about their end.
\<close>

datatype js_config = BaseConfig | ZOptimizedConfig

definition FirstLevelIndex :: "js_config \<Rightarrow> nat" where
  "FirstLevelIndex v = (case v of BaseConfig \<Rightarrow> 32 | ZOptimizedConfig \<Rightarrow> 14)"

definition SecondLevelIndexLog2 :: "js_config \<Rightarrow> nat" where
  "SecondLevelIndexLog2 v = (case v of BaseConfig \<Rightarrow> 5 | ZOptimizedConfig \<Rightarrow> 2)"

definition MBS :: "js_config \<Rightarrow> u64" where
  "MBS v = (case v of BaseConfig \<Rightarrow> 32 | ZOptimizedConfig \<Rightarrow> 16)"

definition UseSecondLevels :: "js_config \<Rightarrow> bool" where
  "UseSecondLevels v \<longleftrightarrow> (case v of BaseConfig \<Rightarrow> True | ZOptimizedConfig \<Rightarrow> False)"

definition DeferredCoalescing :: "js_config \<Rightarrow> bool" where
  "DeferredCoalescing v \<longleftrightarrow> (case v of BaseConfig \<Rightarrow> False | ZOptimizedConfig \<Rightarrow> True)"

definition BlockHeaderLength :: "js_config \<Rightarrow> u64" where
  "BlockHeaderLength v = (case v of BaseConfig \<Rightarrow> 32 | ZOptimizedConfig \<Rightarrow> 0)"

definition sl_index :: "js_config \<Rightarrow> nat" where
  "sl_index v = 2 ^ SecondLevelIndexLog2 v"

definition num_lists :: "js_config \<Rightarrow> nat" where
  "num_lists v = FirstLevelIndex v * sl_index v"

definition min_alloc_size_log2 :: nat where
  "min_alloc_size_log2 = 4"

record js_state =
  js_start :: u64
  js_pool :: u64
  fl_bitmap :: u64
  sl_bitmap :: "u32 list"
  js_blocks :: "u64 list"
  bh_size :: "u64 \<Rightarrow> u64"
  bh_f1 :: "u64 \<Rightarrow> u64"
  bh_f2 :: "u64 \<Rightarrow> u64"
  bh_prev_phys :: "u64 \<Rightarrow> u64"
  js_internal_fragmentation :: u64
  js_allocated :: u64

record js_mapping =
  map_fl :: u64
  map_sl :: u64

definition UNABLE_TO_FIND :: u64 where
  "UNABLE_TO_FIND = 0xFFFFFFFF"

subsection \<open>Block headers\<close>

definition bh_get_size :: "js_state \<Rightarrow> u64 \<Rightarrow> u64" where
  "bh_get_size s b = bh_size s b AND NOT (1 OR 2)"

definition bh_is_free :: "js_state \<Rightarrow> u64 \<Rightarrow> bool" where
  "bh_is_free s b \<longleftrightarrow> bh_size s b AND 1 = 1"

definition bh_is_last :: "js_state \<Rightarrow> u64 \<Rightarrow> bool" where
  "bh_is_last s b \<longleftrightarrow> bh_size s b AND 2 = 2"

definition bh_mark_free :: "u64 \<Rightarrow> js_state \<Rightarrow> js_state" where
  "bh_mark_free b s = s\<lparr>bh_size := (bh_size s)(b := bh_size s b OR 1)\<rparr>"

definition bh_mark_used :: "u64 \<Rightarrow> js_state \<Rightarrow> js_state" where
  "bh_mark_used b s = s\<lparr>bh_size := (bh_size s)(b := bh_size s b AND NOT 1)\<rparr>"

definition bh_mark_last :: "u64 \<Rightarrow> js_state \<Rightarrow> js_state" where
  "bh_mark_last b s = s\<lparr>bh_size := (bh_size s)(b := bh_size s b OR 2)\<rparr>"

definition bh_unmark_last :: "u64 \<Rightarrow> js_state \<Rightarrow> js_state" where
  "bh_unmark_last b s = s\<lparr>bh_size := (bh_size s)(b := bh_size s b AND NOT 2)\<rparr>"

definition calculate_offset :: "u64 \<Rightarrow> u64 \<Rightarrow> u32" where
  "calculate_offset blk start = (if blk = 0 then 0xFFFFFFFF else ucast (blk - start))"

definition blk_get_next :: "js_config \<Rightarrow> js_state \<Rightarrow> u64 \<Rightarrow> u64" where
  "blk_get_next v s blk = (case v of BaseConfig \<Rightarrow> bh_f1 s blk
     | ZOptimizedConfig \<Rightarrow> from_offset (js_start s) True (bh_f1 s blk))"

definition blk_get_prev :: "js_config \<Rightarrow> js_state \<Rightarrow> u64 \<Rightarrow> u64" where
  "blk_get_prev v s blk = (case v of BaseConfig \<Rightarrow> bh_f2 s blk
     | ZOptimizedConfig \<Rightarrow> from_offset (js_start s) False (bh_f1 s blk))"

definition blk_set_next :: "js_config \<Rightarrow> u64 \<Rightarrow> u64 \<Rightarrow> js_state \<Rightarrow> js_state" where
  "blk_set_next v blk next s = (case v of BaseConfig \<Rightarrow> s\<lparr>bh_f1 := (bh_f1 s)(blk := next)\<rparr>
     | ZOptimizedConfig \<Rightarrow>
         s\<lparr>bh_f1 := (bh_f1 s)(blk := set_offset True (calculate_offset next (js_start s)) (bh_f1 s blk))\<rparr>)"

definition blk_set_prev :: "js_config \<Rightarrow> u64 \<Rightarrow> u64 \<Rightarrow> js_state \<Rightarrow> js_state" where
  "blk_set_prev v blk prev s = (case v of BaseConfig \<Rightarrow> s\<lparr>bh_f2 := (bh_f2 s)(blk := prev)\<rparr>
     | ZOptimizedConfig \<Rightarrow>
         s\<lparr>bh_f1 := (bh_f1 s)(blk := set_offset False (calculate_offset prev (js_start s)) (bh_f1 s blk))\<rparr>)"

subsection \<open>Sizes, mappings and bitmaps\<close>

definition js_align_size :: "js_config \<Rightarrow> u64 \<Rightarrow> u64" where
  "js_align_size v sz = align_up (if sz = 0 then 1 else sz) (MBS v)"

definition get_mapping_base :: "u64 \<Rightarrow> js_mapping" where
  "get_mapping_base sz =
     (let fl = ucast (util_ilog2 sz) :: u32;
          sl = ucast (drop_bit (unat fl - SecondLevelIndexLog2 BaseConfig) sz XOR push_bit (SecondLevelIndexLog2 BaseConfig) 1) :: u32
      in \<lparr>map_fl = ucast fl, map_sl = ucast sl\<rparr>)"

definition get_mapping_z :: "u64 \<Rightarrow> js_mapping" where
  "get_mapping_z sz =
     (let v = ZOptimizedConfig;
          fl = util_ilog2 sz;
          sl = drop_bit (unat fl - SecondLevelIndexLog2 v) sz XOR push_bit (SecondLevelIndexLog2 v) 1;
          mapping = push_bit (SecondLevelIndexLog2 v) (fl - word_of_nat min_alloc_size_log2) + sl
      in \<lparr>map_fl = (if mapping > word_of_nat (num_lists v) then word_of_nat (num_lists v) else mapping), map_sl = 0\<rparr>)"

definition get_mapping :: "js_config \<Rightarrow> u64 \<Rightarrow> js_mapping" where
  "get_mapping v sz = (case v of BaseConfig \<Rightarrow> get_mapping_base sz | ZOptimizedConfig \<Rightarrow> get_mapping_z sz)"

definition flatten_mapping :: "js_config \<Rightarrow> js_mapping \<Rightarrow> nat" where
  "flatten_mapping v m = (case v of
     BaseConfig \<Rightarrow> unat (ucast (map_fl m * word_of_nat (sl_index v) + map_sl m) :: u32)
   | ZOptimizedConfig \<Rightarrow> unat (ucast (map_fl m) :: u32))"

definition adjust_available_mapping_base :: "js_state \<Rightarrow> js_mapping \<Rightarrow> js_mapping" where
  "adjust_available_mapping_base s m =
     (if map_fl m \<ge> word_of_nat (FirstLevelIndex BaseConfig) then \<lparr>map_fl = 0, map_sl = UNABLE_TO_FIND\<rparr>
      else
        let sl_map = ucast (ucast (sl_bitmap s ! unat (map_fl m)) AND push_bit (unat (map_sl m)) (- 1 :: u64)) :: u32
        in if sl_map = 0 then
             let fl_map = ucast (fl_bitmap s AND push_bit (unat (map_fl m + 1)) (- 1)) :: u32
             in if fl_map = 0 then \<lparr>map_fl = 0, map_sl = UNABLE_TO_FIND\<rparr>
                else
                  let fl = util_ffs (ucast fl_map); sl_map = sl_bitmap s ! unat fl
                  in \<lparr>map_fl = fl, map_sl = util_ffs (ucast sl_map)\<rparr>
           else m\<lparr>map_sl := util_ffs (ucast sl_map)\<rparr>)"

definition adjust_available_mapping_z :: "js_state \<Rightarrow> js_mapping \<Rightarrow> js_mapping" where
  "adjust_available_mapping_z s m =
     (if map_fl m > word_of_nat (num_lists ZOptimizedConfig) then \<lparr>map_fl = 0, map_sl = UNABLE_TO_FIND\<rparr>
      else
        let above_mapping = fl_bitmap s AND push_bit (unat (map_fl m)) (- 1)
        in if above_mapping = 0 then \<lparr>map_fl = 0, map_sl = UNABLE_TO_FIND\<rparr>
           else m\<lparr>map_fl := util_ffs above_mapping\<rparr>)"

definition adjust_available_mapping :: "js_config \<Rightarrow> js_state \<Rightarrow> js_mapping \<Rightarrow> js_mapping" where
  "adjust_available_mapping v s m = (case v of
     BaseConfig \<Rightarrow> adjust_available_mapping_base s m | ZOptimizedConfig \<Rightarrow> adjust_available_mapping_z s m)"

text \<open>The shifts of \<open>BaseConfig\<close> are on \<open>int\<close> and are widened with their sign.\<close>

definition update_bitmap :: "js_config \<Rightarrow> js_mapping \<Rightarrow> bool \<Rightarrow> js_state \<Rightarrow> js_state" where
  "update_bitmap v m free_update s = (case v of
     BaseConfig \<Rightarrow>
       let fl_bit = scast (push_bit (unat (map_fl m)) (1 :: u32)) :: u64;
           sl_bit = push_bit (unat (map_sl m)) (1 :: u32);
           i = unat (map_fl m)
       in if free_update
          then s\<lparr>fl_bitmap := fl_bitmap s OR fl_bit, sl_bitmap := (sl_bitmap s)[i := sl_bitmap s ! i OR sl_bit]\<rparr>
          else
            let s = s\<lparr>sl_bitmap := (sl_bitmap s)[i := sl_bitmap s ! i AND NOT sl_bit]\<rparr>
            in if sl_bitmap s ! i = 0 then s\<lparr>fl_bitmap := fl_bitmap s AND NOT fl_bit\<rparr> else s
   | ZOptimizedConfig \<Rightarrow>
       if free_update then s\<lparr>fl_bitmap := fl_bitmap s OR push_bit (unat (map_fl m)) 1\<rparr>
       else s\<lparr>fl_bitmap := fl_bitmap s AND NOT (push_bit (unat (map_fl m)) 1)\<rparr>)"

subsection \<open>Free lists\<close>

definition set_block_head :: "nat \<Rightarrow> u64 \<Rightarrow> js_state \<Rightarrow> js_state" where
  "set_block_head i h s = s\<lparr>js_blocks := (js_blocks s)[i := h]\<rparr>"

text \<open>The head of a list of \<open>JSMallocZ\<close> after a push of a block, and after a pop.\<close>

definition pushed_head :: "js_state \<Rightarrow> u64 \<Rightarrow> u64" where
  "pushed_head s blk = set_offset False (calculate_offset blk (js_start s)) 1"

definition link_to_head :: "u64 \<Rightarrow> u64 \<Rightarrow> js_state \<Rightarrow> js_state" where
  "link_to_head blk head s =
     (let offset = (if head = 0 then - 1 else head)
      in blk_set_next ZOptimizedConfig blk (from_offset (js_start s) False offset) s)"

definition popped_head :: "js_state \<Rightarrow> u64 \<Rightarrow> u64 \<Rightarrow> u64" where
  "popped_head s head_bits next_blk =
     set_offset False (calculate_offset next_blk (js_start s)) (ucast (get_bits head_bits True + 1))"

definition js_insert_block_base :: "u64 \<Rightarrow> js_state \<Rightarrow> js_state" where
  "js_insert_block_base blk s =
     (let v = BaseConfig; mapping = get_mapping v (bh_get_size s blk); flat_mapping = flatten_mapping v mapping;
          head = js_blocks s ! flat_mapping;
          s = (if head \<noteq> 0 then blk_set_prev v head blk s else s);
          s = blk_set_next v blk head s;
          s = blk_set_prev v blk 0 s;
          s = set_block_head flat_mapping blk s;
          s = bh_mark_free blk s
      in update_bitmap v mapping True s)"

definition js_insert_block_z :: "u64 \<Rightarrow> js_state \<Rightarrow> js_state" where
  "js_insert_block_z blk s =
     (let v = ZOptimizedConfig; mapping = get_mapping v (bh_get_size s blk); flat_mapping = flatten_mapping v mapping;
          s = bh_mark_free blk s;
          head = js_blocks s ! flat_mapping;
          s = link_to_head blk head s;
          s = set_block_head flat_mapping (pushed_head s blk) s
      in s\<lparr>fl_bitmap := fl_bitmap s OR push_bit (unat (map_fl mapping)) 1\<rparr>)"

definition js_insert_block :: "js_config \<Rightarrow> u64 \<Rightarrow> js_state \<Rightarrow> js_state" where
  "js_insert_block v blk s = (case v of
     BaseConfig \<Rightarrow> js_insert_block_base blk s | ZOptimizedConfig \<Rightarrow> js_insert_block_z blk s)"

definition js_remove_block_base :: "u64 \<Rightarrow> js_mapping \<Rightarrow> js_state \<Rightarrow> u64 \<times> js_state" where
  "js_remove_block_base blk mapping s =
     (let v = BaseConfig; flat_mapping = flatten_mapping v mapping;
          target = (if blk = 0 then js_blocks s ! flat_mapping else blk)
      in if target = 0 then (0, s)
         else
           let next_blk = blk_get_next v s target; prev_blk = blk_get_prev v s target;
               s = (if js_blocks s ! flat_mapping = target then set_block_head flat_mapping next_blk s else s);
               s = (if next_blk \<noteq> 0 then blk_set_prev v next_blk prev_blk s else update_bitmap v mapping False s);
               s = (if prev_blk \<noteq> 0 then blk_set_next v prev_blk next_blk s else s)
           in (target, bh_mark_used target s))"

definition js_remove_block_z :: "u64 \<Rightarrow> js_mapping \<Rightarrow> js_state \<Rightarrow> u64 \<times> js_state" where
  "js_remove_block_z target_blk mapping s =
     (let v = ZOptimizedConfig; flat_mapping = flatten_mapping v mapping;
          head = js_blocks s ! flat_mapping
      in if head = 0 then (0, s)
         else
           let actual_head = from_offset (js_start s) False head;
               next_blk = (if actual_head = 0 then 0 else blk_get_next v s actual_head);
               s = set_block_head flat_mapping (popped_head s head next_blk) s;
               s = (if next_blk = 0 then s\<lparr>fl_bitmap := fl_bitmap s AND NOT (push_bit (unat (map_fl mapping)) 1)\<rparr> else s)
           in (actual_head, s))"

definition js_remove_block :: "js_config \<Rightarrow> u64 \<Rightarrow> js_mapping \<Rightarrow> js_state \<Rightarrow> u64 \<times> js_state" where
  "js_remove_block v blk mapping s = (case v of
     BaseConfig \<Rightarrow> js_remove_block_base blk mapping s | ZOptimizedConfig \<Rightarrow> js_remove_block_z blk mapping s)"

subsection \<open>Physical neighbours\<close>

definition ptr_in_pool :: "js_state \<Rightarrow> u64 \<Rightarrow> bool" where
  "ptr_in_pool s p \<longleftrightarrow> js_start s \<le> p \<and> p < js_start s + js_pool s"

definition get_next_phys_block :: "js_config \<Rightarrow> js_state \<Rightarrow> u64 \<Rightarrow> u64" where
  "get_next_phys_block v s blk =
     (if blk = 0 then 0
      else let next = blk + BlockHeaderLength v + bh_get_size s blk
           in if ptr_in_pool s next then next else 0)"

definition set_prev_phys :: "u64 \<Rightarrow> u64 \<Rightarrow> js_state \<Rightarrow> js_state" where
  "set_prev_phys b p s = s\<lparr>bh_prev_phys := (bh_prev_phys s)(b := p)\<rparr>"

definition js_split_block :: "js_config \<Rightarrow> u64 \<Rightarrow> u64 \<Rightarrow> js_state \<Rightarrow> u64 \<times> js_state" where
  "js_split_block v blk sz s =
     (let remainder_size = bh_get_size s blk - BlockHeaderLength v - sz;
          is_last = bh_is_last s blk;
          s = s\<lparr>bh_size := (bh_size s)(blk := sz)\<rparr>;
          remainder_blk = blk + BlockHeaderLength v + bh_get_size s blk;
          s = s\<lparr>bh_size := (bh_size s)(remainder_blk := remainder_size)\<rparr>;
          s = (if \<not> DeferredCoalescing v then set_prev_phys remainder_blk blk s else s);
          s = (if is_last then bh_mark_last remainder_blk (bh_unmark_last blk s)
               else if \<not> DeferredCoalescing v
               then set_prev_phys (get_next_phys_block v s remainder_blk) remainder_blk s
               else s)
      in (remainder_blk, s))"

definition js_coalesce_blocks :: "js_config \<Rightarrow> u64 \<Rightarrow> u64 \<Rightarrow> js_state \<Rightarrow> u64 \<times> js_state" where
  "js_coalesce_blocks v blk1 blk2 s =
     (let blk2_size = bh_get_size s blk2;
          s = (if bh_is_free s blk1 then snd (js_remove_block v blk1 (get_mapping v (bh_get_size s blk1)) s) else s);
          s = (if bh_is_free s blk2 then snd (js_remove_block v blk2 (get_mapping v blk2_size) s) else s);
          blk2_is_last = bh_is_last s blk2;
          s = s\<lparr>bh_size := (bh_size s)(blk1 := bh_size s blk1 + (BlockHeaderLength v + blk2_size))\<rparr>;
          s = (if blk2_is_last then bh_mark_last blk1 s
               else if \<not> DeferredCoalescing v
               then set_prev_phys (get_next_phys_block v s blk1) blk1 s
               else s)
      in (blk1, s))"

subsection \<open>Allocation and release\<close>

partial_function (option) js_find_loop :: "js_config \<Rightarrow> js_mapping \<Rightarrow> js_state \<Rightarrow> (u64 \<times> js_state) option" where
  "js_find_loop v mapping s =
     (let adjusted_mapping = adjust_available_mapping v s mapping
      in if map_sl adjusted_mapping = UNABLE_TO_FIND then Some (0, s)
         else case js_remove_block v 0 adjusted_mapping s of
           (blk, s') \<Rightarrow> if blk = 0 then js_find_loop v mapping s' else Some (blk, s'))"

definition js_target_size :: "js_config \<Rightarrow> u64 \<Rightarrow> u64" where
  "js_target_size v aligned_size =
     aligned_size + push_bit (unat (util_ilog2 aligned_size - word_of_nat (SecondLevelIndexLog2 v))) 1 - 1"

definition js_find_block :: "js_config \<Rightarrow> u64 \<Rightarrow> js_state \<Rightarrow> (u64 \<times> js_state) option" where
  "js_find_block v sz s =
     (let aligned_size = js_align_size v sz;
          target_size = js_target_size v aligned_size
      in case js_find_loop v (get_mapping v target_size) s of
           None \<Rightarrow> None
         | Some (blk, s) \<Rightarrow>
             Some (if blk = 0 then (0, s)
                   else if bh_get_size s blk - aligned_size \<ge> MBS v + BlockHeaderLength v
                   then case js_split_block v blk aligned_size s of
                          (remainder_blk, s) \<Rightarrow> (blk, js_insert_block v remainder_blk s)
                   else (blk, s)))"

definition count_allocation :: "u64 \<Rightarrow> u64 \<Rightarrow> js_state \<Rightarrow> js_state" where
  "count_allocation blk sz s =
     (let allocated_size = bh_get_size s blk
      in s\<lparr>js_internal_fragmentation := allocated_size - sz, js_allocated := js_allocated s + allocated_size\<rparr>)"

definition js_allocate :: "js_config \<Rightarrow> u64 \<Rightarrow> js_state \<Rightarrow> (u64 \<times> js_state) option" where
  "js_allocate v sz s = (case js_find_block v sz s of
     None \<Rightarrow> None
   | Some (blk, s) \<Rightarrow> Some (if blk = 0 then (0, s) else (blk + BlockHeaderLength v, count_allocation blk sz s)))"

definition js_reset :: "js_config \<Rightarrow> bool \<Rightarrow> js_state \<Rightarrow> js_state" where
  "js_reset v initial_block_allocated s =
     (let s = s\<lparr>fl_bitmap := 0, sl_bitmap := (if UseSecondLevels v then replicate (FirstLevelIndex v) 0 else sl_bitmap s),
                js_blocks := replicate (num_lists v + 1) 0\<rparr>;
          blk = js_start s;
          s = (if \<not> initial_block_allocated
               then s\<lparr>bh_size := (bh_size s)(blk := js_pool s - BlockHeaderLength v)\<rparr> else s);
          s = (if \<not> DeferredCoalescing v then set_prev_phys blk 0 s else s);
          s = (if \<not> initial_block_allocated then js_insert_block v blk s
               else if BlockHeaderLength v > 0 then bh_mark_used blk s else s)
      in if BlockHeaderLength v > 0 then bh_mark_last blk s else s)"

definition js_initialize :: "js_config \<Rightarrow> u64 \<Rightarrow> u64 \<Rightarrow> bool \<Rightarrow> js_state \<Rightarrow> js_state" where
  "js_initialize v pool pool_size start_full s =
     (let aligned_initial_block = align_up pool 8;
          aligned_block_size = align_down (pool_size - (aligned_initial_block - pool)) (MBS v)
      in js_reset v start_full (s\<lparr>js_start := aligned_initial_block, js_pool := aligned_block_size\<rparr>))"

text \<open>The constructor: the initialisers of the class, then \<open>initialize\<close>.\<close>

definition js_new :: "js_config \<Rightarrow> u64 \<Rightarrow> u64 \<Rightarrow> bool \<Rightarrow> js_state \<Rightarrow> js_state" where
  "js_new v pool pool_size start_full s =
     js_initialize v pool pool_size start_full (s\<lparr>js_internal_fragmentation := 0, js_allocated := 0\<rparr>)"

text \<open>\<open>JSMalloc::free\<close> and \<open>JSMallocZ::free\<close>.\<close>

definition js_free :: "u64 \<Rightarrow> js_state \<Rightarrow> js_state" where
  "js_free p s =
     (if p = 0 then s
      else if \<not> ptr_in_pool s p then s
      else
        let blk = p - BlockHeaderLength BaseConfig;
            prev_blk = bh_prev_phys s blk;
            next_blk = get_next_phys_block BaseConfig s blk;
            (blk, s) = (if prev_blk \<noteq> 0 \<and> bh_is_free s prev_blk then js_coalesce_blocks BaseConfig prev_blk blk s else (blk, s));
            (blk, s) = (if next_blk \<noteq> 0 \<and> bh_is_free s next_blk then js_coalesce_blocks BaseConfig blk next_blk s else (blk, s))
        in js_insert_block BaseConfig blk s)"

definition js_get_allocated_size :: "js_state \<Rightarrow> u64 \<Rightarrow> u64" where
  "js_get_allocated_size s address = bh_get_size s (address - BlockHeaderLength BaseConfig)"

definition jsz_free :: "u64 \<Rightarrow> u64 \<Rightarrow> js_state \<Rightarrow> js_state" where
  "jsz_free p sz s =
     (if p = 0 then s
      else if \<not> ptr_in_pool s p then s
      else js_insert_block ZOptimizedConfig p (s\<lparr>bh_size := (bh_size s)(p := sz)\<rparr>))"

definition jsz_free_range :: "u64 \<Rightarrow> u64 \<Rightarrow> js_state \<Rightarrow> js_state" where
  "jsz_free_range start_ptr sz s = jsz_free start_ptr sz s"

text \<open>The walk of \<open>aggregate\<close> over the physical blocks, which need not end.\<close>

partial_function (option) jsz_aggregate_from :: "u64 \<Rightarrow> js_state \<Rightarrow> js_state option" where
  "jsz_aggregate_from current_blk s =
     (if current_blk = 0 then Some s
      else
        let next_blk = get_next_phys_block ZOptimizedConfig s current_blk
        in if next_blk \<noteq> 0 \<and> bh_is_free s current_blk \<and> bh_is_free s next_blk
           then case js_coalesce_blocks ZOptimizedConfig current_blk next_blk s of
                  (blk, s) \<Rightarrow> jsz_aggregate_from blk (js_insert_block ZOptimizedConfig blk s)
           else jsz_aggregate_from next_blk s)"

definition jsz_aggregate :: "js_state \<Rightarrow> js_state option" where
  "jsz_aggregate s = jsz_aggregate_from (js_start s) s"

partial_function (option) js_block_containing_from :: "js_config \<Rightarrow> js_state \<Rightarrow> u64 \<Rightarrow> u64 \<Rightarrow> u64 option" where
  "js_block_containing_from v s target_addr current =
     (if current = 0 then Some 0
      else if current \<le> target_addr \<and> target_addr \<le> current + BlockHeaderLength v + bh_get_size s current then Some current
      else js_block_containing_from v s target_addr (get_next_phys_block v s current))"

definition get_block_containing_address :: "js_config \<Rightarrow> js_state \<Rightarrow> u64 \<Rightarrow> u64 option" where
  "get_block_containing_address v s address = js_block_containing_from v s address (js_start s)"

end
