(* ===== verification/JS_Classes.thy ===== *)
theory JS_Classes
  imports JS_Malloc
begin

text \<open>
  The size classes of \<open>JSMallocZ\<close>: four per power of two from 16 bytes on and a last class for
  everything from 256 kilobytes. A request is rounded up before its class is computed, so
  that every block of the class, or of a later one, is large enough.
\<close>

definition nat_log :: "nat \<Rightarrow> nat" where
  "nat_log n = floorlog 2 n - 1"

definition class_index :: "nat \<Rightarrow> nat" where
  "class_index n = (let e = nat_log n in 4 * (e - 4) + n div 2 ^ (e - 2) - 4)"

definition class_low :: "nat \<Rightarrow> nat" where
  "class_low i = (4 + i mod 4) * 2 ^ (i div 4 + 2)"

definition size_class :: "nat \<Rightarrow> nat" where
  "size_class n = min 56 (class_index n)"

lemma class_parts:
  assumes "16 \<le> n"
  obtains e k where "nat_log n = e" "4 \<le> e" "2 ^ e \<le> n" "n < 2 * 2 ^ e" "n div 2 ^ (e - 2) = k" "4 \<le> k" "k < 8"
    "class_index n = 4 * (e - 4) + (k - 4)" "k * 2 ^ (e - 2) \<le> n" "n < Suc k * 2 ^ (e - 2)" "(2::nat) ^ e = 4 * 2 ^ (e - 2)"
proof -
  define e where "e = nat_log n"
  have pos: "0 < n" using assms by simp
  have "0 < floorlog 2 n" by (rule floorlog_pos [OF pos])
  then have s: "floorlog 2 n = Suc e" by (simp add: e_def nat_log_def)
  have b: "2 ^ e \<le> n" "n < 2 * 2 ^ e" using floorlog_bounds [OF pos, of 2] s by simp_all
  have e4: "4 \<le> e"
  proof (rule ccontr)
    assume "\<not> 4 \<le> e"
    then have "(2::nat) ^ Suc e \<le> 2 ^ 4" by (intro power_increasing) simp_all
    then show False using b(2) assms by simp
  qed
  then have p: "(2::nat) ^ e = 4 * 2 ^ (e - 2)" using pow2_split [of 2 e] by simp
  let ?k = "n div 2 ^ (e - 2)"
  have k: "4 \<le> ?k" "?k < 8"
    using b p by (simp_all add: less_eq_div_iff_mult_less_eq div_less_iff_less_mult)
  have "class_index n = 4 * (e - 4) + (?k - 4)" using k(1) by (simp add: class_index_def e_def [symmetric] Let_def)
  moreover have "?k * 2 ^ (e - 2) \<le> n" by (rule div_mult_pow2_le)
  moreover have "n < Suc ?k * 2 ^ (e - 2)" using less_div_mult_pow2 [of n "e - 2"] by simp
  ultimately show thesis using that [of e ?k] e_def e4 b k p by simp
qed

lemma class_low_at: "k < 4 \<Longrightarrow> class_low (4 * d + k) = (4 + k) * 2 ^ (d + 2)"
  by (simp add: class_low_def)

lemma class_bounds:
  assumes "16 \<le> n"
  shows "class_low (class_index n) \<le> n" "n < class_low (Suc (class_index n))"
proof -
  obtain e k where p: "4 \<le> e" "4 \<le> k" "k < 8" "class_index n = 4 * (e - 4) + (k - 4)" "k * 2 ^ (e - 2) \<le> n"
    "n < Suc k * 2 ^ (e - 2)" "(2::nat) ^ e = 4 * 2 ^ (e - 2)" by (rule class_parts [OF assms])
  have d: "e - 4 + 2 = e - 2" using p(1) by simp
  have "class_low (4 * (e - 4) + (k - 4)) = (4 + (k - 4)) * 2 ^ (e - 4 + 2)"
    by (rule class_low_at) (use p(3) in simp)
  also have "\<dots> = k * 2 ^ (e - 2)" using p(2) by (simp only: d) simp
  finally show "class_low (class_index n) \<le> n" using p(4,5) by simp
  show "n < class_low (Suc (class_index n))"
  proof (cases "k = 7")
    case True
    then have "Suc (class_index n) = 4 * (e - 4 + 1) + 0" using p(4) by simp
    then have "class_low (Suc (class_index n)) = 4 * 2 ^ (e - 4 + 1 + 2)" using class_low_at [of 0 "e - 4 + 1"] by simp
    moreover have x: "e - 4 + 1 + 2 = Suc (e - 2)" using p(1) by simp
    ultimately have "class_low (Suc (class_index n)) = 4 * 2 ^ Suc (e - 2)" by (simp only:)
    then show ?thesis using p(6) True by simp
  next
    case False
    then have "Suc (class_index n) = 4 * (e - 4) + (k - 3)" "k - 3 < 4" using p(2,3,4) by simp_all
    then have "class_low (Suc (class_index n)) = (4 + (k - 3)) * 2 ^ (e - 4 + 2)" using class_low_at by simp
    also have "\<dots> = Suc k * 2 ^ (e - 2)" using p(2) by (simp only: d) simp
    finally show ?thesis using p(6) by simp
  qed
qed

lemma class_low_Suc: "class_low i < class_low (Suc i)"
proof -
  define d k where "d = i div 4" and "k = i mod 4"
  have i: "i = 4 * d + k" "k < 4" by (simp_all add: d_def k_def)
  show ?thesis
  proof (cases "k = 3")
    case True
    then have "Suc i = 4 * (d + 1) + 0" using i by simp
    then show ?thesis using class_low_at [of 0 "d + 1"] class_low_at [of 3 d] True i by simp
  next
    case False
    then have "Suc i = 4 * d + Suc k" "Suc k < 4" using i by simp_all
    then show ?thesis using class_low_at [of "Suc k" d] class_low_at [of k d] i by simp
  qed
qed

lemma class_low_mono: "i \<le> j \<Longrightarrow> class_low i \<le> class_low j"
  by (rule lift_Suc_mono_le [where f = class_low]) (simp_all add: less_imp_le class_low_Suc)

lemma class_index_iff:
  assumes "16 \<le> n"
  shows "i \<le> class_index n \<longleftrightarrow> class_low i \<le> n"
proof
  assume "i \<le> class_index n"
  then show "class_low i \<le> n" using class_low_mono class_bounds(1) [OF assms] by (meson le_trans)
next
  assume l: "class_low i \<le> n"
  show "i \<le> class_index n"
  proof (rule ccontr)
    assume "\<not> i \<le> class_index n"
    then have "class_low (Suc (class_index n)) \<le> class_low i" by (intro class_low_mono) simp
    then show False using class_bounds(2) [OF assms] l by simp
  qed
qed

lemma large_class: "class_low 56 = 262144"
  by (simp add: class_low_def)

text \<open>The rounded request.\<close>

definition class_target :: "nat \<Rightarrow> nat" where
  "class_target a = a + 2 ^ (nat_log a - 2) - 1"

lemma class_target_low:
  assumes "16 \<le> a"
  shows "a \<le> class_low (class_index (class_target a))" "a \<le> class_target a" "class_target a < 2 * a"
proof -
  let ?t = "class_target a"
  obtain e where p: "nat_log a = e" "4 \<le> e" "2 ^ e \<le> a" "a < 2 * 2 ^ e" "(2::nat) ^ e = 4 * 2 ^ (e - 2)"
    by (rule class_parts [OF assms])
  have t: "?t = a + 2 ^ (e - 2) - 1" by (simp add: class_target_def p(1))
  have g: "(1::nat) \<le> 2 ^ (e - 2)" by simp
  show at: "a \<le> ?t" using g unfolding t by linarith
  have e2: "2 ^ (e - 2) \<le> a" using p(3,5) by linarith
  then show "?t < 2 * a" using assms by (simp add: t)
  have t16: "16 \<le> ?t" using at assms by simp
  obtain f k where q: "nat_log ?t = f" "4 \<le> f" "2 ^ f \<le> ?t" "?t < 2 * 2 ^ f" "4 \<le> k" "k < 8"
    "class_index ?t = 4 * (f - 4) + (k - 4)" "k * 2 ^ (f - 2) \<le> ?t" "?t < Suc k * 2 ^ (f - 2)" "(2::nat) ^ f = 4 * 2 ^ (f - 2)"
    by (rule class_parts [OF t16])
  have x: "f - 4 + 2 = f - 2" "4 + (k - 4) = k" using q(2,5) by simp_all
  have "class_low (4 * (f - 4) + (k - 4)) = (4 + (k - 4)) * 2 ^ (f - 4 + 2)" by (rule class_low_at) (use q(6) in simp)
  then have low: "class_low (class_index ?t) = k * 2 ^ (f - 2)" unfolding q(7) x .
  show "a \<le> class_low (class_index ?t)"
  proof (cases "f \<le> e")
    case True
    then have "(2::nat) ^ (f - 2) \<le> 2 ^ (e - 2)" by (intro power_increasing) simp_all
    moreover have "?t < k * 2 ^ (f - 2) + 2 ^ (f - 2)" using q(9) by simp
    ultimately show ?thesis using low t g by linarith
  next
    case False
    then have "(2::nat) * 2 ^ e \<le> 2 ^ f" using power_increasing [of "Suc e" f "2::nat"] by simp
    moreover have "(2::nat) ^ f \<le> k * 2 ^ (f - 2)" using q(5,10) by simp
    ultimately show ?thesis using low p(4) by linarith
  qed
qed

lemma class_target_bound:
  assumes "16 \<le> a"
  shows "4 * class_target a < 5 * a"
proof -
  obtain e where p: "nat_log a = e" "2 ^ e \<le> a" "(2::nat) ^ e = 4 * 2 ^ (e - 2)" by (rule class_parts [OF assms])
  have "(1::nat) \<le> 2 ^ (e - 2)" by simp
  then have "class_target a + 1 = a + 2 ^ (e - 2)" by (simp add: class_target_def p(1))
  then show ?thesis using p(2,3) by linarith
qed

text \<open>Every block of the class of the rounded request, or of a later class, is large enough; every block of
  an earlier class is smaller than the rounded request.\<close>

lemma class_fits:
  assumes "16 \<le> a" "16 \<le> n" "a \<le> 262144" "size_class (class_target a) \<le> size_class n"
  shows "a \<le> n"
proof (cases "class_index (class_target a) \<le> class_index n")
  case True
  then have "class_low (class_index (class_target a)) \<le> n" by (simp add: class_index_iff [OF assms(2)])
  then show ?thesis using class_target_low(1) [OF assms(1)] by linarith
next
  case False
  then have "56 \<le> class_index n" using assms(4) by (simp add: size_class_def)
  then show ?thesis using class_index_iff [OF assms(2)] assms(3) large_class by simp
qed

lemma class_too_small:
  assumes "16 \<le> a" "16 \<le> n" "size_class n < size_class (class_target a)"
  shows "n < class_target a"
proof (rule ccontr)
  assume n: "\<not> n < class_target a"
  have t: "16 \<le> class_target a" using class_target_low(2) [OF assms(1)] assms(1) by simp
  have "class_low (class_index (class_target a)) \<le> n" using class_bounds(1) [OF t] n by linarith
  then have "class_index (class_target a) \<le> class_index n" by (simp add: class_index_iff [OF assms(2)])
  then show False using assms(3) unfolding size_class_def by linarith
qed

subsection \<open>On machine words\<close>

lemma xor_quarter:
  assumes "4 \<le> k" "k < 8"
  shows "word_of_nat k XOR (4 :: u64) = word_of_nat (k - 4)"
proof -
  have "k = 4 \<or> k = 5 \<or> k = 6 \<or> k = 7" using assms by auto
  moreover have "(4 :: u64) XOR 4 = 0" "(5 :: u64) XOR 4 = 1" "(6 :: u64) XOR 4 = 2" "(7 :: u64) XOR 4 = 3" by simp_all
  ultimately show ?thesis by (elim disjE) simp_all
qed

lemma get_mapping_class:
  assumes "16 \<le> unat sz"
  shows "unat (map_fl (get_mapping ZOptimizedConfig sz)) = size_class (unat sz)" "map_sl (get_mapping ZOptimizedConfig sz) = 0"
proof -
  let ?n = "unat sz"
  obtain e k where p: "nat_log ?n = e" "4 \<le> e" "?n div 2 ^ (e - 2) = k" "4 \<le> k" "k < 8"
    "class_index ?n = 4 * (e - 4) + (k - 4)" by (rule class_parts [OF assms])
  have nz: "sz \<noteq> 0" using assms by (auto simp: unat_eq_0)
  have ue: "unat (util_ilog2 sz) = e" using unat_util_ilog2 [OF nz] p(1) by (simp add: nat_log_def)
  have e64: "e < 64" using floorlog_le_64 [of sz] p(1,2) unfolding nat_log_def by linarith
  have we: "util_ilog2 sz = word_of_nat e" by (simp flip: ue)
  have "unat (drop_bit (e - 2) sz) = k" using p(3) by (subst unat_drop_bit_eq) (simp add: drop_bit_eq_div)
  then have wk: "drop_bit (e - 2) sz = word_of_nat k" by (metis word_unat_eq_iff of_nat_unat unat_of_nat_small unat_lt_exp)
  have x: "drop_bit (e - 2) sz XOR push_bit 2 (1 :: u64) = word_of_nat (k - 4)"
    using xor_quarter [OF p(4,5)] by (simp add: wk push_bit_eq_mult)
  have f: "util_ilog2 sz - 4 = (word_of_nat (e - 4) :: u64)" using p(2) by (simp add: we of_nat_diff)
  have m: "push_bit 2 (util_ilog2 sz - 4) + (drop_bit (e - 2) sz XOR push_bit 2 (1 :: u64)) = word_of_nat (class_index ?n)"
    unfolding x f by (simp add: p(6) push_bit_eq_mult)
  have "class_index ?n < 2 ^ LENGTH(64)" using p(5,6) e64 by simp
  then have u: "unat (word_of_nat (class_index ?n) :: u64) = class_index ?n" by (rule unat_of_nat_small)
  have g: "map_fl (get_mapping ZOptimizedConfig sz) = (if word_of_nat (class_index ?n) > (56 :: u64) then 56 else word_of_nat (class_index ?n))"
    unfolding get_mapping_def get_mapping_z_def js_config.case Let_def js_mapping.simps
      ue min_alloc_size_log2_def SecondLevelIndexLog2_def num_lists_def sl_index_def FirstLevelIndex_def
    using m by simp
  show "unat (map_fl (get_mapping ZOptimizedConfig sz)) = size_class ?n"
    unfolding g using u by (auto simp: size_class_def word_less_nat_alt min_def)
  show "map_sl (get_mapping ZOptimizedConfig sz) = 0" by (simp add: get_mapping_def get_mapping_z_def Let_def)
qed

lemma js_align_size_nat:
  assumes "unat sz \<le> 2 ^ 32"
  shows "unat (js_align_size ZOptimizedConfig sz) = (max 1 (unat sz) + 15) div 16 * 16"
proof -
  let ?s = "if sz = 0 then 1 else sz"
  have s: "unat ?s = max 1 (unat sz)" by (auto simp: max_def Suc_le_eq unat_gt_0)
  have "unat (align_up ?s (2 ^ 4)) = (unat ?s + 2 ^ 4 - 1) div 2 ^ 4 * 2 ^ 4"
    by (rule unat_align_up) (use assms s in auto)
  then show ?thesis using s by (simp add: js_align_size_def MBS_def)
qed

lemma js_target_nat:
  assumes "16 \<le> unat a" "unat a \<le> 2 ^ 33"
  shows "unat (js_target_size ZOptimizedConfig a) = class_target (unat a)"
proof -
  let ?n = "unat a"
  obtain e where p: "nat_log ?n = e" "4 \<le> e" "2 ^ e \<le> ?n" by (rule class_parts [OF assms(1)])
  have nz: "a \<noteq> 0" using assms(1) by (auto simp: unat_eq_0)
  have ue: "unat (util_ilog2 a) = e" using unat_util_ilog2 [OF nz] p(1) by (simp add: nat_log_def)
  have e33: "e \<le> 33"
  proof -
    have "(2::nat) ^ e \<le> 2 ^ 33" using p(3) assms(2) by linarith
    then show ?thesis by (rule power_le_imp_le_exp [rotated]) simp
  qed
  have s: "unat (util_ilog2 a - 2) = e - 2"
    using p(2) ue by (subst unat_sub) (simp_all add: word_le_nat_alt)
  have pw: "unat (push_bit (e - 2) (1 :: u64)) = 2 ^ (e - 2)"
    using e33 by (simp add: push_bit_eq_mult unat_pow2)
  have small: "(2::nat) ^ (e - 2) \<le> 2 ^ 33" using e33 by (intro power_increasing) simp_all
  have "unat (a + push_bit (e - 2) 1) = ?n + 2 ^ (e - 2)"
    using small assms(2) pw by (subst unat_add_no_wrap) simp_all
  then have "unat (a + push_bit (e - 2) 1 - 1) = ?n + 2 ^ (e - 2) - 1"
    using assms(1) by (subst unat_sub) (simp_all add: word_le_nat_alt)
  then show ?thesis by (simp add: js_target_size_def SecondLevelIndexLog2_def s class_target_def p(1))
qed

end
