(* ===== verification/JS_Lists.thy ===== *)
theory JS_Lists
  imports JS_Classes
begin

text \<open>
  The state of \<open>JSMallocZ\<close> stands for its free lists: \<open>L m\<close> is the sequence of free blocks of class
  \<open>m\<close>. Each list is a chain of offsets through the headers, its head carries a version, and
  the bitmap tells which lists are not empty. Effects of insertion and removal.
\<close>

definition jsz_head :: "js_state \<Rightarrow> nat \<Rightarrow> u64" where
  "jsz_head s m = (if js_blocks s ! m = 0 then 0 else from_offset (js_start s) False (js_blocks s ! m))"

definition jsz_version :: "js_state \<Rightarrow> nat \<Rightarrow> nat" where
  "jsz_version s m = unat (get_bits (js_blocks s ! m) True)"

fun jsz_chain :: "js_state \<Rightarrow> u64 \<Rightarrow> u64 list \<Rightarrow> bool" where
  "jsz_chain s p [] \<longleftrightarrow> p = 0"
| "jsz_chain s p (x # xs) \<longleftrightarrow> p = x \<and> x \<noteq> 0 \<and> jsz_chain s (blk_get_next ZOptimizedConfig s x) xs"

definition js_place :: "js_state \<Rightarrow> bool" where
  "js_place s \<longleftrightarrow> js_start s \<noteq> 0 \<and> unat (js_start s) + unat (js_pool s) < 18446744073709551616
     \<and> unat (js_pool s) < 4294967296"

definition js_in_pool :: "js_state \<Rightarrow> u64 \<Rightarrow> bool" where
  "js_in_pool s b \<longleftrightarrow> unat (js_start s) \<le> unat b \<and> unat b < unat (js_start s) + unat (js_pool s)"

text \<open>A free block as an address range.\<close>

definition js_blk :: "js_state \<Rightarrow> u64 \<Rightarrow> nat \<times> nat" where
  "js_blk s b = (unat b, unat (bh_get_size s b))"

definition block_good :: "js_state \<Rightarrow> u64 \<Rightarrow> bool" where
  "block_good s b \<longleftrightarrow> 8 dvd unat b \<and> 8 dvd unat (bh_get_size s b) \<and> 16 \<le> unat (bh_get_size s b) \<and> \<not> bh_is_last s b
     \<and> unat (js_start s) \<le> unat b \<and> unat b + unat (bh_get_size s b) \<le> unat (js_start s) + unat (js_pool s)"

text \<open>Outside the addresses \<open>X\<close> no header is written.\<close>

definition writes_in :: "u64 set \<Rightarrow> js_state \<Rightarrow> js_state \<Rightarrow> bool" where
  "writes_in X s t \<longleftrightarrow> (\<forall>a. a \<notin> X \<longrightarrow> bh_size t a = bh_size s a \<and> bh_f1 t a = bh_f1 s a)"

lemma writes_in_trans: "writes_in X s t \<Longrightarrow> writes_in Y t u \<Longrightarrow> writes_in (X \<union> Y) s u"
  by (simp add: writes_in_def)

definition free_blocks :: "(nat \<Rightarrow> u64 list) \<Rightarrow> u64 set" where
  "free_blocks L = (\<Union>m < 57. set (L m))"

definition js_rep :: "js_state \<Rightarrow> (nat \<Rightarrow> u64 list) \<Rightarrow> bool" where
  "js_rep s L \<longleftrightarrow> js_place s \<and> length (js_blocks s) = 57
     \<and> (\<forall>m < 57. jsz_chain s (jsz_head s m) (L m) \<and> distinct (L m)
          \<and> jsz_version s m + length (L m) \<le> 268435457
          \<and> (\<forall>b \<in> set (L m). size_class (unat (bh_get_size s b)) = m))
     \<and> (\<forall>b \<in> free_blocks L. block_good s b)
     \<and> (\<forall>a \<in> free_blocks L. \<forall>b \<in> free_blocks L. a \<noteq> b \<longrightarrow> span (js_blk s a) \<inter> span (js_blk s b) = {})
     \<and> (\<forall>m. bit (fl_bitmap s) m \<longleftrightarrow> m < 57 \<and> L m \<noteq> [])"

lemma js_repD:
  assumes "js_rep s L"
  shows "js_place s" "length (js_blocks s) = 57"
    "m < 57 \<Longrightarrow> jsz_chain s (jsz_head s m) (L m)" "m < 57 \<Longrightarrow> distinct (L m)"
    "m < 57 \<Longrightarrow> jsz_version s m + length (L m) \<le> 268435457"
    "m < 57 \<Longrightarrow> b \<in> set (L m) \<Longrightarrow> size_class (unat (bh_get_size s b)) = m"
    "b \<in> free_blocks L \<Longrightarrow> block_good s b"
    "a \<in> free_blocks L \<Longrightarrow> b \<in> free_blocks L \<Longrightarrow> a \<noteq> b \<Longrightarrow> span (js_blk s a) \<inter> span (js_blk s b) = {}"
    "bit (fl_bitmap s) m \<longleftrightarrow> m < 57 \<and> L m \<noteq> []"
  using assms by (simp_all add: js_rep_def)

lemma in_free_blocks: "m < 57 \<Longrightarrow> b \<in> set (L m) \<Longrightarrow> b \<in> free_blocks L"
  by (auto simp: free_blocks_def)

subsection \<open>Offsets\<close>

lemma unat_ucast_mod: "unat (ucast (w :: 'a :: len word) :: 'b :: len word) = unat w mod 2 ^ LENGTH('b)"
  by (simp add: unsigned_ucast_eq take_bit_word_eq_self unsigned_take_bit_eq take_bit_eq_mod)

lemma ucast_up_down: "(ucast (ucast (w :: u32) :: u64) :: u32) = w"
  by (rule bit_word_eqI) (simp add: bit_ucast_iff)

lemma in_pool_nz:
  assumes "js_place s" "js_in_pool s b"
  shows "b \<noteq> 0"
proof
  assume "b = 0"
  then have "unat (js_start s) = 0" using assms(2) by (simp add: js_in_pool_def)
  then show False using assms(1) by (simp add: js_place_def unat_eq_0)
qed

lemma from_offset_back:
  assumes "js_place s" "js_in_pool s b" "get_bits v lower = calculate_offset b (js_start s)"
  shows "from_offset (js_start s) lower v = b"
proof -
  let ?d = "b - js_start s"
  have nz: "b \<noteq> 0" by (rule in_pool_nz [OF assms(1,2)])
  have u: "unat ?d = unat b - unat (js_start s)"
    using assms(2) by (subst unat_sub) (simp_all add: js_in_pool_def word_le_nat_alt)
  then have small: "unat ?d < 4294967295" using assms(1,2) unfolding js_place_def js_in_pool_def by linarith
  have uc: "unat (ucast ?d :: u32) = unat ?d" using small by (simp add: unat_ucast_mod)
  have "(ucast ?d :: u32) \<noteq> 0xFFFFFFFF"
  proof
    assume "(ucast ?d :: u32) = 0xFFFFFFFF"
    then have "unat (ucast ?d :: u32) = 4294967295" by simp
    then show False using uc small by simp
  qed
  moreover have "ucast (ucast ?d :: u32) = ?d"
  proof (rule word_unat_eq_iff [THEN iffD2])
    show "unat (ucast (ucast ?d :: u32) :: u64) = unat ?d" using small by (simp add: unat_ucast_mod)
  qed
  ultimately show ?thesis using assms(3) nz by (simp add: from_offset_def calculate_offset_def Let_def)
qed

lemma from_offset_null:
  "get_bits v lower = calculate_offset 0 start \<Longrightarrow> from_offset start lower v = 0"
  by (simp add: from_offset_def calculate_offset_def)

lemma from_offset_ptr:
  assumes "js_place s" "b = 0 \<or> js_in_pool s b" "get_bits v lower = calculate_offset b (js_start s)"
  shows "from_offset (js_start s) lower v = b"
  using assms from_offset_back from_offset_null by blast

lemma good_in_pool: "block_good s b \<Longrightarrow> js_in_pool s b"
  by (auto simp: block_good_def js_in_pool_def)

subsection \<open>Frames\<close>

lemma chain_cong:
  assumes "js_start t = js_start s" "\<And>b. b \<in> set xs \<Longrightarrow> bh_f1 t b = bh_f1 s b"
  shows "jsz_chain t p xs = jsz_chain s p xs"
  using assms(2)
proof (induction xs arbitrary: p)
  case (Cons x xs)
  have "blk_get_next ZOptimizedConfig t x = blk_get_next ZOptimizedConfig s x"
    using Cons.prems [of x] assms(1) by (simp add: blk_get_next_def)
  then show ?case using Cons by simp
qed simp

definition same_free :: "u64 set \<Rightarrow> js_state \<Rightarrow> js_state \<Rightarrow> bool" where
  "same_free F s t \<longleftrightarrow> js_start t = js_start s \<and> js_pool t = js_pool s \<and> fl_bitmap t = fl_bitmap s \<and> js_blocks t = js_blocks s
     \<and> (\<forall>b \<in> F. bh_size t b = bh_size s b \<and> bh_f1 t b = bh_f1 s b)"

lemma same_free_blk: "same_free F s t \<Longrightarrow> b \<in> F \<Longrightarrow> bh_get_size t b = bh_get_size s b \<and> js_blk t b = js_blk s b
    \<and> block_good t b = block_good s b"
  by (simp add: same_free_def bh_get_size_def js_blk_def block_good_def bh_is_last_def)

text \<open>Only the headers of the free blocks matter: clients may write into the blocks they hold.\<close>

lemma js_rep_frame:
  assumes "js_rep s L" "same_free (free_blocks L) s t"
  shows "js_rep t L" "\<And>b. b \<in> free_blocks L \<Longrightarrow> js_blk t b = js_blk s b"
proof -
  note sf = same_free_blk [OF assms(2)]
  have f: "js_start t = js_start s" "js_pool t = js_pool s" "fl_bitmap t = fl_bitmap s" "js_blocks t = js_blocks s"
    using assms(2) by (simp_all add: same_free_def)
  have h: "jsz_head t = jsz_head s" "jsz_version t = jsz_version s" "js_place t = js_place s"
    by (simp_all add: fun_eq_iff jsz_head_def jsz_version_def js_place_def f)
  have ch: "jsz_chain t (jsz_head s m) (L m) = jsz_chain s (jsz_head s m) (L m)" if "m < 57" for m
    by (rule chain_cong [OF f(1)]) (use assms(2) in_free_blocks [OF that, of _ L] in \<open>simp add: same_free_def\<close>)
  have sz: "bh_get_size t b = bh_get_size s b" if "m < 57" "b \<in> set (L m)" for m b
    using sf in_free_blocks [of m b L] that by blast
  show "js_blk t b = js_blk s b" if "b \<in> free_blocks L" for b using sf that by blast
  then show "js_rep t L"
    unfolding js_rep_def h f using js_repD [OF assms(1)] ch sz sf by simp
qed

subsection \<open>Insertion\<close>

lemma card_blocks:
  assumes "js_place s" "finite B" "\<And>b. b \<in> B \<Longrightarrow> block_good s b"
    "\<And>a b. a \<in> B \<Longrightarrow> b \<in> B \<Longrightarrow> a \<noteq> b \<Longrightarrow> span (js_blk s a) \<inter> span (js_blk s b) = {}"
  shows "card B \<le> 268435456"
proof -
  let ?P = "{unat (js_start s) ..< unat (js_start s) + unat (js_pool s)}"
  have "(\<Union>b \<in> B. span (js_blk s b)) \<subseteq> ?P"
  proof (rule UN_least)
    fix b assume "b \<in> B"
    then show "span (js_blk s b) \<subseteq> ?P" using assms(3) [of b] by (auto simp: span_def js_blk_def block_good_def)
  qed
  then have "card (\<Union>b \<in> B. span (js_blk s b)) \<le> card ?P" by (rule card_mono [rotated]) simp
  moreover have "card (\<Union>b \<in> B. span (js_blk s b)) = (\<Sum>b \<in> B. card (span (js_blk s b)))"
    by (rule card_UN_disjoint) (use assms(2,4) in \<open>auto simp: span_def\<close>)
  moreover have "card B * 16 \<le> (\<Sum>b \<in> B. card (span (js_blk s b)))"
    using sum_mono [of B "\<lambda>_. 16" "\<lambda>b. card (span (js_blk s b))"] assms(3)
    by (simp add: span_def js_blk_def block_good_def)
  ultimately have "card B * 16 \<le> unat (js_pool s)" by simp
  then show ?thesis using assms(1) by (simp add: js_place_def)
qed

lemma bit_set_class: "m < 64 \<Longrightarrow> bit (w OR push_bit m 1 :: u64) k \<longleftrightarrow> k = m \<or> bit w k"
  by (auto simp: bit_or_iff push_bit_eq_mult bit_exp_iff)

lemma bit_clear_class: "m < 64 \<Longrightarrow> bit (w AND NOT (push_bit m 1) :: u64) k \<longleftrightarrow> k \<noteq> m \<and> bit w k"
  by (auto simp: bit_and_iff bit_not_iff push_bit_eq_mult bit_exp_iff dest: bit_imp_le_length)

lemma size_class_le: "size_class n \<le> 56"
  by (simp add: size_class_def)

lemma flatten_class: "unat (map_fl m) \<le> 56 \<Longrightarrow> flatten_mapping ZOptimizedConfig m = unat (map_fl m)"
  by (simp add: flatten_mapping_def unat_ucast_mod)

lemma mark_free_size: "bh_get_size (bh_mark_free b s) a = bh_get_size s a"
  by (rule bit_word_eqI) (auto simp: bh_mark_free_def bh_get_size_def bit_and_iff bit_or_iff bit_not_iff bit_1_iff bit_0)

lemma mark_free_last: "bh_is_last (bh_mark_free b s) a = bh_is_last s a"
proof -
  have "(w OR 1) AND 2 = w AND (2 :: u64)" for w
    by (rule bit_word_eqI) (auto simp: bit_and_iff bit_or_iff bit_1_iff bit_exp_iff [of 1, simplified])
  then show ?thesis by (simp add: bh_is_last_def bh_mark_free_def)
qed

lemma js_insert_rep:
  assumes r: "js_rep s L" and g: "block_good s b"
    and new: "\<And>a. a \<in> free_blocks L \<Longrightarrow> span (js_blk s a) \<inter> span (js_blk s b) = {}"
  defines "m \<equiv> size_class (unat (bh_get_size s b))" and "t \<equiv> js_insert_block ZOptimizedConfig b s"
  shows "js_rep t (L(m := b # L m))" "\<And>a. js_blk t a = js_blk s a" "js_start t = js_start s" "js_pool t = js_pool s"
    "writes_in {b} s t"
proof -
  note rd = js_repD [OF r]
  have m57: "m < 57" using size_class_le [of "unat (bh_get_size s b)"] by (simp add: m_def)
  let ?map = "get_mapping ZOptimizedConfig (bh_get_size s b)"
  have mp: "unat (map_fl ?map) = m" using get_mapping_class(1) g by (simp add: block_good_def m_def)
  then have fm: "flatten_mapping ZOptimizedConfig ?map = m" using flatten_class [of ?map] m57 by simp
  have bp: "js_in_pool s b" by (rule good_in_pool [OF g])
  have nz: "b \<noteq> 0" by (rule in_pool_nz [OF rd(1) bp])
  have ne: "span (js_blk s b) \<noteq> {}" using g by (simp add: span_def js_blk_def block_good_def)
  then have b_new: "b \<notin> free_blocks L" using new by blast
  define s1 where "s1 = bh_mark_free b s"
  define s2 where "s2 = link_to_head b (js_blocks s ! m) s1"
  have t: "t = (set_block_head m (pushed_head s2 b) s2)\<lparr>fl_bitmap := fl_bitmap s OR push_bit m 1\<rparr>"
    by (simp add: t_def js_insert_block_def js_insert_block_z_def Let_def fm mp s1_def s2_def bh_mark_free_def link_to_head_def blk_set_next_def
        set_block_head_def)
  have f: "js_start t = js_start s" "js_pool t = js_pool s" "fl_bitmap t = fl_bitmap s OR push_bit m 1"
    "js_blocks t = (js_blocks s)[m := pushed_head s2 b]" "bh_size t = bh_size s1" "js_start s2 = js_start s"
    by (simp_all add: t s2_def s1_def set_block_head_def link_to_head_def blk_set_next_def bh_mark_free_def Let_def)
  show "js_start t = js_start s" "js_pool t = js_pool s" by (fact f(1,2))+
  have f1: "bh_f1 t a = bh_f1 s a" if "a \<noteq> b" for a
    using that by (simp add: t s2_def s1_def set_block_head_def link_to_head_def blk_set_next_def bh_mark_free_def Let_def)
  then show "writes_in {b} s t" by (simp add: writes_in_def f(5)) (simp add: s1_def bh_mark_free_def)
  have sz: "bh_get_size t a = bh_get_size s a" for a
    using mark_free_size [of b s a] by (simp add: bh_get_size_def f(5) s1_def)
  have lst: "bh_is_last t a = bh_is_last s a" for a
    using mark_free_last [of b s a] by (simp add: bh_is_last_def f(5) s1_def)
  show blk: "js_blk t a = js_blk s a" for a by (simp add: js_blk_def sz)
  have good: "block_good t a = block_good s a" for a by (simp add: block_good_def sz lst f)
  have pl: "js_place t" using rd(1) by (simp add: js_place_def f)
  have head_old: "jsz_head s m = 0 \<or> js_in_pool s (jsz_head s m)"
  proof (cases "L m")
    case Nil
    then show ?thesis using rd(3) [OF m57] by simp
  next
    case (Cons x xs)
    then show ?thesis using rd(3) [OF m57] good_in_pool [OF rd(7) [OF in_free_blocks [OF m57, of x L]]] by simp
  qed
  have nextb: "blk_get_next ZOptimizedConfig t b = jsz_head s m"
  proof -
    let ?h = "js_blocks s ! m"
    have "from_offset (js_start s) False (- 1) = 0"
    proof -
      have "get_bits (- 1) False = - 1" by (rule bit_word_eqI) (simp add: bit_get_bits)
      then show ?thesis by (simp add: from_offset_def)
    qed
    then have hd: "from_offset (js_start s) False (if ?h = 0 then - 1 else ?h) = jsz_head s m"
      by (simp add: jsz_head_def)
    have "get_bits (bh_f1 t b) True = calculate_offset (jsz_head s m) (js_start s)"
      using hd by (simp add: t s2_def s1_def set_block_head_def link_to_head_def blk_set_next_def bh_mark_free_def Let_def
          get_bits_set_offset)
    then show ?thesis using from_offset_ptr [OF rd(1) head_old] by (simp add: blk_get_next_def f)
  qed
  have hb: "get_bits (pushed_head s2 b) False = calculate_offset b (js_start s)" "get_bits (pushed_head s2 b) True = 1"
    by (simp_all add: pushed_head_def get_bits_set_offset f(6)) (simp add: get_bits_def)
  have hnz: "pushed_head s2 b \<noteq> 0"
  proof
    assume "pushed_head s2 b = 0"
    then have "get_bits 0 True = (1 :: u32)" using hb(2) by simp
    then show False by (simp add: get_bits_def)
  qed
  have heads: "jsz_head t k = (if k = m then b else jsz_head s k)" if "k < 57" for k
    using that rd(2) hnz from_offset_back [OF rd(1) bp hb(1)] by (simp add: jsz_head_def f)
  have vers: "jsz_version t k = (if k = m then 1 else jsz_version s k)" if "k < 57" for k
    using that rd(2) hb(2) by (simp add: jsz_version_def f)
  let ?L = "L(m := b # L m)"
  have FL: "free_blocks ?L = insert b (free_blocks L)" using m57 by (auto simp: free_blocks_def split: if_splits)
  have ch: "jsz_chain t p (L k) = jsz_chain s p (L k)" if "k < 57" for k p
    by (rule chain_cong [OF f(1) f1]) (use b_new in_free_blocks [OF that] in blast)
  have goods: "block_good s a" if "a \<in> insert b (free_blocks L)" for a using that g rd(7) by auto
  have dj: "span (js_blk s a) \<inter> span (js_blk s c) = {}"
    if "a \<in> insert b (free_blocks L)" "c \<in> insert b (free_blocks L)" "a \<noteq> c" for a c
    using that new rd(8) by (metis Int_commute insert_iff)
  have fin: "finite (insert b (free_blocks L))" by (simp add: free_blocks_def)
  have "length (b # L m) = card (set (b # L m))"
    by (rule distinct_card [symmetric]) (use rd(4) [OF m57] b_new in_free_blocks [OF m57] in auto)
  also have "\<dots> \<le> card (insert b (free_blocks L))" by (rule card_mono [OF fin]) (use in_free_blocks [OF m57] in auto)
  also have "\<dots> \<le> 268435456" by (rule card_blocks [OF rd(1) fin goods dj])
  finally have len: "1 + length (b # L m) \<le> 268435457" by simp
  show "js_rep t ?L"
    unfolding js_rep_def FL
  proof (intro conjI allI impI ballI)
    show "length (js_blocks t) = 57" by (simp add: f rd(2))
    fix k :: nat assume k: "k < 57"
    show "jsz_chain t (jsz_head t k) (?L k)" using heads [OF k] nz nextb ch rd(3) k by (cases "k = m") simp_all
    show "distinct (?L k)" using rd(4) [OF k] b_new in_free_blocks [OF k] by (cases "k = m") auto
    show "jsz_version t k + length (?L k) \<le> 268435457" using vers [OF k] len rd(5) [OF k] by (cases "k = m") simp_all
    fix a assume "a \<in> set (?L k)"
    then show "size_class (unat (bh_get_size t a)) = k" using rd(6) [OF k] by (auto simp: sz m_def split: if_splits)
  next
    fix k show "bit (fl_bitmap t) k \<longleftrightarrow> k < 57 \<and> ?L k \<noteq> []"
      using bit_set_class [of m "fl_bitmap s" k] m57 rd(9) [of k] by (auto simp: f)
  qed (use pl goods good dj blk in auto)
qed

subsection \<open>Removal\<close>

lemma js_remove_rep:
  assumes r: "js_rep s L" and m57: "m < 57" and L: "L m = b # bs" and mp: "unat (map_fl mp_at) = m"
  shows "\<exists>t. js_remove_block ZOptimizedConfig 0 mp_at s = (b, t) \<and> js_rep t (L(m := bs)) \<and> bh_size t = bh_size s \<and> bh_f1 t = bh_f1 s
    \<and> js_start t = js_start s \<and> js_pool t = js_pool s"
proof -
  note rd = js_repD [OF r]
  have fm: "flatten_mapping ZOptimizedConfig mp_at = m" using flatten_class [of mp_at] m57 mp by simp
  let ?h = "js_blocks s ! m" and ?n = "blk_get_next ZOptimizedConfig s b"
  have ch: "jsz_head s m = b" "b \<noteq> 0" "jsz_chain s ?n bs" using rd(3) [OF m57] L by simp_all
  then have h: "?h \<noteq> 0" "from_offset (js_start s) False ?h = b" by (auto simp: jsz_head_def split: if_splits)
  have nextp: "?n = 0 \<or> js_in_pool s ?n"
  proof (cases bs)
    case (Cons x xs)
    then show ?thesis using ch(3) good_in_pool [OF rd(7) [OF in_free_blocks [OF m57, of x L]]] L by simp
  qed (use ch in simp)
  have empty: "?n = 0 \<longleftrightarrow> bs = []" using ch(3) by (cases bs) auto
  let ?nh = "popped_head s ?h ?n"
  define t where "t = (if ?n = 0 then (set_block_head m ?nh s)\<lparr>fl_bitmap := fl_bitmap s AND NOT (push_bit m 1)\<rparr>
    else set_block_head m ?nh s)"
  have rem: "js_remove_block ZOptimizedConfig 0 mp_at s = (b, t)"
    using h ch(2) by (simp add: js_remove_block_def js_remove_block_z_def Let_def fm mp t_def set_block_head_def)
  have f: "js_start t = js_start s" "js_pool t = js_pool s" "bh_size t = bh_size s" "bh_f1 t = bh_f1 s"
    "js_blocks t = (js_blocks s)[m := ?nh]" "fl_bitmap t = (if bs = [] then fl_bitmap s AND NOT (push_bit m 1) else fl_bitmap s)"
    by (simp_all add: t_def set_block_head_def empty)
  have v: "jsz_version s m + length bs < 268435457" using rd(5) [OF m57] L by simp
  have hb: "get_bits ?nh False = calculate_offset ?n (js_start s)"
    "get_bits ?nh True = get_bits ?h True + 1"
    by (simp_all add: popped_head_def get_bits_set_offset)
      (rule bit_word_eqI, simp add: bit_get_bits bit_ucast_iff)
  have "unat (get_bits ?h True) < 268435457" using v by (simp add: jsz_version_def)
  then have uv: "unat (get_bits ?h True + 1) = unat (get_bits ?h True) + 1"
    by (simp add: unat_word_ariths)
  have hnz: "?nh \<noteq> 0"
  proof
    assume "?nh = 0"
    then have "get_bits ?h True + 1 = 0" using hb(2) by (simp add: get_bits_def)
    then show False using uv by simp
  qed
  have heads: "jsz_head t k = (if k = m then ?n else jsz_head s k)" if "k < 57" for k
    using that rd(2) hnz from_offset_ptr [OF rd(1) nextp hb(1)] by (simp add: jsz_head_def f)
  have vers: "jsz_version t k = (if k = m then jsz_version s m + 1 else jsz_version s k)" if "k < 57" for k
    using that rd(2) hb(2) uv by (simp add: jsz_version_def f)
  let ?L = "L(m := bs)"
  have sub: "free_blocks ?L \<subseteq> free_blocks L" using L m57 by (auto simp: free_blocks_def split: if_splits)
  have sz: "bh_get_size t = bh_get_size s" "js_blk t = js_blk s" "block_good t = block_good s"
    by (simp_all add: fun_eq_iff bh_get_size_def js_blk_def block_good_def bh_is_last_def f)
  have "jsz_chain t p xs = jsz_chain s p xs" for p xs by (rule chain_cong) (simp_all add: f)
  note cht = this
  have "js_rep t ?L"
    unfolding js_rep_def
  proof (intro conjI allI impI ballI)
    show "js_place t" using rd(1) by (simp add: js_place_def f)
    show "length (js_blocks t) = 57" by (simp add: f rd(2))
    fix k :: nat assume k: "k < 57"
    show "jsz_chain t (jsz_head t k) (?L k)" using heads [OF k] cht ch(3) rd(3) [OF k] by (cases "k = m") simp_all
    show "distinct (?L k)" using rd(4) [OF k] L by (cases "k = m") auto
    show "jsz_version t k + length (?L k) \<le> 268435457" using vers [OF k] v rd(5) [OF k] by (cases "k = m") simp_all
    fix a assume "a \<in> set (?L k)"
    then show "size_class (unat (bh_get_size t a)) = k" using rd(6) [OF k] L by (auto simp: sz split: if_splits)
  next
    fix k show "bit (fl_bitmap t) k \<longleftrightarrow> k < 57 \<and> ?L k \<noteq> []"
      using bit_clear_class [of m "fl_bitmap s" k] m57 rd(9) [of k] L by (auto simp: f)
    fix a c assume "a \<in> free_blocks ?L" "c \<in> free_blocks ?L" "a \<noteq> c"
    then show "span (js_blk t a) \<inter> span (js_blk t c) = {}" using rd(8) [of a c] sub sz(2) by auto
  qed (use sub rd(7) sz in auto)
  then show ?thesis using rem f by blast
qed

end
