(* ===== verification/JS_Alloc.thy ===== *)
theory JS_Alloc
  imports JS_Lists
begin

text \<open>
  The operations of \<open>JSMallocZ\<close> on a state that stands for its free lists. The memory they
  manage is the set of free addresses: an allocation takes a range out of it, a release puts
  one back, and no operation writes the header of a block that is not free.
\<close>

definition free_bytes :: "js_state \<Rightarrow> (nat \<Rightarrow> u64 list) \<Rightarrow> nat set" where
  "free_bytes s L = (\<Union>b \<in> free_blocks L. span (js_blk s b))"

lemma free_blocks_push: "m < 57 \<Longrightarrow> free_blocks (L(m := b # L m)) = insert b (free_blocks L)"
  by (auto simp: free_blocks_def split: if_splits)

lemma js_remove_free:
  assumes r: "js_rep s L" and m: "m < 57" and L: "L m = b # bs"
  shows "b \<notin> free_blocks (L(m := bs))" "free_blocks L = insert b (free_blocks (L(m := bs)))"
    "block_good s b" "size_class (unat (bh_get_size s b)) = m" "b \<in> free_blocks L"
proof -
  note rd = js_repD [OF r]
  show bf: "b \<in> free_blocks L" using in_free_blocks [OF m, of b L] L by simp
  then show "block_good s b" by (rule rd(7))
  show c: "size_class (unat (bh_get_size s b)) = m" using rd(6) [OF m, of b] L by simp
  show "b \<notin> free_blocks (L(m := bs))"
  proof
    assume "b \<in> free_blocks (L(m := bs))"
    then obtain k where k: "k < 57" "b \<in> set ((L(m := bs)) k)" by (auto simp: free_blocks_def)
    then show False using rd(4) [OF m] rd(6) [OF k(1), of b] L c by (cases "k = m") auto
  qed
  show "free_blocks L = insert b (free_blocks (L(m := bs)))"
    using free_blocks_push [OF m, of "L(m := bs)" b] fun_upd_triv [of L m] by (simp add: L)
qed

subsection \<open>Finding a list\<close>

lemma adjust_none:
  assumes r: "js_rep s L" and c: "unat (map_fl mp_at) \<le> 56" and none: "\<And>m. unat (map_fl mp_at) \<le> m \<Longrightarrow> m < 57 \<Longrightarrow> L m = []"
  shows "map_sl (adjust_available_mapping ZOptimizedConfig s mp_at) = UNABLE_TO_FIND"
proof -
  have "fl_bitmap s AND push_bit (unat (map_fl mp_at)) (- 1) = 0"
    by (rule bit_word_eqI) (use js_repD(9) [OF r] none in \<open>auto simp: bit_and_iff bit_push_bit_iff bit_not_iff bit_mask_iff\<close>)
  then show ?thesis by (simp add: adjust_available_mapping_def adjust_available_mapping_z_def)
qed

lemma adjust_some:
  assumes r: "js_rep s L" and c: "unat (map_fl mp_at) = c" "map_sl mp_at = 0"
    and some: "c \<le> m" "m < 57" "L m \<noteq> []"
  obtains a k where "adjust_available_mapping ZOptimizedConfig s mp_at = a" "unat (map_fl a) = k" "map_sl a \<noteq> UNABLE_TO_FIND"
    "c \<le> k" "k < 57" "L k \<noteq> []" "k \<le> m"
proof -
  let ?w = "fl_bitmap s AND push_bit c (- 1)"
  have b: "bit ?w k \<longleftrightarrow> c \<le> k \<and> k < 57 \<and> L k \<noteq> []" for k
    using js_repD(9) [OF r, of k] by (auto simp: bit_and_iff bit_push_bit_iff bit_not_iff bit_mask_iff)
  have nz: "?w \<noteq> 0" using b [of m] some by auto
  have guard: "\<not> map_fl mp_at > 56" using c some by (simp add: word_less_nat_alt)
  let ?a = "mp_at\<lparr>map_fl := util_ffs ?w\<rparr>"
  have "adjust_available_mapping ZOptimizedConfig s mp_at = ?a"
    using nz guard by (simp add: adjust_available_mapping_def adjust_available_mapping_z_def num_lists_def sl_index_def FirstLevelIndex_def
        SecondLevelIndexLog2_def Let_def c(1))
  moreover have "unat (util_ffs ?w) \<le> m"
  proof (rule ccontr)
    assume "\<not> unat (util_ffs ?w) \<le> m"
    then show False using util_ffs_bit(2) [OF nz, of m] b [of m] some by simp
  qed
  moreover have "bit ?w (unat (util_ffs ?w))" by (rule util_ffs_bit(1) [OF nz])
  ultimately show thesis using that [of ?a "unat (util_ffs ?w)"] b c(2) by (simp add: UNABLE_TO_FIND_def)
qed

text \<open>The loop of \<open>find_block\<close> returns in its first turn.\<close>

lemma find_loop_none:
  assumes "js_rep s L" "unat (map_fl mp_at) \<le> 56" "\<And>m. unat (map_fl mp_at) \<le> m \<Longrightarrow> m < 57 \<Longrightarrow> L m = []"
  shows "js_find_loop ZOptimizedConfig mp_at s = Some (0, s)"
  by (subst js_find_loop.simps) (simp add: adjust_none [OF assms])

lemma find_loop_some:
  assumes r: "js_rep s L" and c: "unat (map_fl mp_at) = c" "map_sl mp_at = 0" and some: "c \<le> m" "m < 57" "L m \<noteq> []"
  obtains k b bs t where "c \<le> k" "k < 57" "k \<le> m" "L k = b # bs"
    "js_find_loop ZOptimizedConfig mp_at s = Some (b, t)" "js_rep t (L(k := bs))" "bh_size t = bh_size s" "bh_f1 t = bh_f1 s"
    "js_start t = js_start s" "js_pool t = js_pool s"
proof -
  obtain a k where a: "adjust_available_mapping ZOptimizedConfig s mp_at = a" "unat (map_fl a) = k" "map_sl a \<noteq> UNABLE_TO_FIND"
    "c \<le> k" "k < 57" "L k \<noteq> []" "k \<le> m" by (rule adjust_some [OF assms])
  then obtain b bs where L: "L k = b # bs" by (cases "L k") auto
  obtain t where t: "js_remove_block ZOptimizedConfig 0 a s = (b, t)" "js_rep t (L(k := bs))" "bh_size t = bh_size s"
    "bh_f1 t = bh_f1 s" "js_start t = js_start s" "js_pool t = js_pool s"
    using js_remove_rep [OF r a(5) L a(2)] by blast
  have "block_good s b" by (rule js_remove_free(3) [OF r a(5) L])
  then have "b \<noteq> 0" using in_pool_nz js_repD(1) [OF r] good_in_pool by blast
  then have "js_find_loop ZOptimizedConfig mp_at s = Some (b, t)"
    by (subst js_find_loop.simps) (simp add: a(1,3) t(1))
  then show thesis using that [of k b bs t] a L t by simp
qed

subsection \<open>Splitting\<close>

lemma aligned_size_word:
  fixes w :: u64
  assumes "8 dvd unat w"
  shows "w AND NOT (1 OR 2) = w" "w AND 2 \<noteq> 2"
proof -
  have "take_bit 3 (unat w) = 0" using assms by (simp add: take_bit_eq_mod)
  then have b: "\<not> bit w n" if "n < 3" for n
    using that bit_take_bit_iff [of 3 "unat w" n] by (auto simp: bit_unsigned_iff dest: bit_imp_le_length)
  have m: "(1 OR 2 :: u64) = mask 2" by (simp add: mask_eq_exp_minus_1)
  show "w AND NOT (1 OR 2) = w"
    unfolding m by (rule bit_word_eqI) (use b in \<open>auto simp: bit_and_iff bit_not_iff bit_mask_iff\<close>)
  have "\<not> bit (w AND 2) 1" using b [of 1] by (simp add: bit_and_iff)
  moreover have "bit (2 :: u64) 1" by simp
  ultimately show "w AND 2 \<noteq> 2" by metis
qed

lemma put_size:
  fixes s :: js_state and b :: u64
  assumes "8 dvd unat w"
  defines "t \<equiv> s\<lparr>bh_size := (bh_size s)(b := w)\<rparr>"
  shows "bh_get_size t b = w" "\<not> bh_is_last t b" "js_blk t b = (unat b, unat w)"
    "js_start t = js_start s" "js_pool t = js_pool s" "writes_in {b} s t"
  using aligned_size_word [OF assms(1)]
  by (simp_all add: t_def bh_get_size_def bh_is_last_def js_blk_def writes_in_def)

lemma put_rep:
  assumes "js_rep s L" "b \<notin> free_blocks L"
  shows "js_rep (s\<lparr>bh_size := (bh_size s)(b := w)\<rparr>) L"
  by (rule js_rep_frame(1) [OF assms(1)]) (use assms(2) in \<open>auto simp: same_free_def\<close>)

text \<open>The block \<open>b\<close>, taken out of its list, is cut after \<open>a\<close> bytes and the rest goes back.\<close>

lemma split_insert:
  assumes r: "js_rep s L" and g: "block_good s b" and new: "b \<notin> free_blocks L"
    and apart0: "\<forall>x \<in> free_blocks L. span (js_blk s x) \<inter> span (js_blk s b) = {}"
    and a: "8 dvd unat a" "unat a + 16 \<le> unat (bh_get_size s b)" "16 \<le> unat a"
  defines "st \<equiv> js_split_block ZOptimizedConfig b a s"
  defines "t \<equiv> js_insert_block ZOptimizedConfig (fst st) (snd st)"
  shows "\<exists>L'. js_rep t L' \<and> free_bytes t L' = free_bytes s L \<union> {unat b + unat a ..< unat b + unat (bh_get_size s b)}"
    "fst st = b + a" "js_start t = js_start s" "js_pool t = js_pool s" "writes_in {b, b + a} s t"
proof -
  let ?n = "bh_get_size s b" and ?r = "b + a"
  define s1 where "s1 = s\<lparr>bh_size := (bh_size s)(b := a)\<rparr>"
  define s2 where "s2 = s1\<lparr>bh_size := (bh_size s1)(?r := ?n - a)\<rparr>"
  note apart = apart0 [rule_format]
  note gd = g [unfolded block_good_def] and pl = js_repD(1) [OF r, unfolded js_place_def]
  have ur: "unat ?r = unat b + unat a" using gd pl a(2) by (intro unat_add_no_wrap) simp
  have un: "unat (?n - a) = unat ?n - unat a" using a(2) by (subst unat_sub) (simp_all add: word_le_nat_alt)
  have rin: "unat ?r \<in> span (js_blk s b)" using ur a(2) by (simp add: span_def js_blk_def)
  have rnew: "?r \<notin> free_blocks L"
  proof
    assume x: "?r \<in> free_blocks L"
    then have "16 \<le> unat (bh_get_size s ?r)" using js_repD(7) [OF r x] by (simp add: block_good_def)
    then have "unat ?r \<in> span (js_blk s ?r)" by (simp add: span_def js_blk_def)
    then show False using apart [OF x] rin by blast
  qed
  have rb: "?r \<noteq> b" using ur a(3) by auto
  note p1 = put_size [OF a(1), where s = s and b = b, folded s1_def]
  have st: "st = (?r, s2)"
    using gd p1(1) by (simp add: st_def js_split_block_def BlockHeaderLength_def DeferredCoalescing_def Let_def s2_def flip: s1_def)
  then show "fst st = b + a" by simp
  have d: "8 dvd unat (?n - a)" unfolding un using gd a by (intro dvd_diff_nat) simp_all
  note p2 = put_size [OF d, where s = s1 and b = ?r, folded s2_def]
  have r2: "js_rep s2 L" unfolding s2_def s1_def by (intro put_rep r new rnew)
  have fr: "js_blk s2 x = js_blk s x" if "x \<in> free_blocks L" for x
    using that new rnew by (auto simp: s2_def s1_def js_blk_def bh_get_size_def)
  have g2: "block_good s2 ?r"
    using p2(1,2,4,5) p1(4,5) d gd a ur un by (simp add: block_good_def)
  have ap2: "span (js_blk s2 x) \<inter> span (js_blk s2 ?r) = {}" if "x \<in> free_blocks L" for x
  proof -
    have "span (js_blk s2 ?r) \<subseteq> span (js_blk s b)" using a(2) by (simp add: p2(1,3) span_def js_blk_def ur un)
    then show ?thesis using apart [OF that] fr [OF that] by auto
  qed
  have t: "t = js_insert_block ZOptimizedConfig ?r s2" by (simp add: t_def st)
  note ins = js_insert_rep [OF r2 g2 ap2, folded t]
  show "js_start t = js_start s" "js_pool t = js_pool s" using ins(3,4) p1(4,5) p2(4,5) by simp_all
  show "writes_in {b, b + a} s t" using ins(5) p1(6) p2(6) by (simp add: writes_in_def)
  let ?m = "size_class (unat (bh_get_size s2 ?r))" 
  let ?L = "L(?m := ?r # L ?m)"
  have m: "?m < 57" using size_class_le [of "unat (bh_get_size s2 ?r)"] by simp
  have "free_blocks ?L = insert ?r (free_blocks L)" using m by (auto simp: free_blocks_def split: if_splits)
  then have "free_bytes t ?L = span (js_blk s2 ?r) \<union> free_bytes s L"
    using fr ins(2) by (simp add: free_bytes_def)
  moreover have "span (js_blk s2 ?r) = {unat b + unat a ..< unat b + unat ?n}"
    using a(2) by (simp add: p2(3) span_def ur un)
  ultimately show "\<exists>L'. js_rep t L' \<and> free_bytes t L' = free_bytes s L \<union> {unat b + unat a ..< unat b + unat ?n}"
    using ins(1) by blast
qed

subsection \<open>Allocation\<close>

text \<open>The bytes a request is rounded up to.\<close>

definition js_aligned :: "nat \<Rightarrow> nat" where
  "js_aligned n = (max 1 n + 15) div 16 * 16"

lemma js_aligned_bounds: "16 \<le> js_aligned n" "n \<le> js_aligned n" "js_aligned n < n + 16 \<or> js_aligned n = 16" "16 dvd js_aligned n"
  "n \<le> 262144 \<Longrightarrow> js_aligned n \<le> 262144"
proof -
  have "js_aligned n = 16 * ((max 1 n + 15) div 16)" by (simp add: js_aligned_def)
  then show "16 \<le> js_aligned n" "n \<le> js_aligned n" "js_aligned n < n + 16 \<or> js_aligned n = 16" "16 dvd js_aligned n"
    "n \<le> 262144 \<Longrightarrow> js_aligned n \<le> 262144"
    using mod_less_divisor [of 16 "max 1 n + 15"] minus_mod_eq_mult_div [of "max 1 n + 15" 16] by (auto simp: max_def)
qed

text \<open>An allocation that succeeds takes \<open>g\<close> bytes at \<open>p\<close>: the aligned request, and at most 15 more.\<close>

definition js_takes :: "nat \<Rightarrow> js_state \<Rightarrow> (nat \<Rightarrow> u64 list) \<Rightarrow> u64 \<Rightarrow> nat \<Rightarrow> js_state \<Rightarrow> (nat \<Rightarrow> u64 list) \<Rightarrow> bool" where
  "js_takes n s L p g t L' \<longleftrightarrow> js_rep t L' \<and> p \<noteq> 0 \<and> 8 dvd unat p \<and> js_aligned n \<le> g \<and> g < js_aligned n + 16
     \<and> span (unat p, g) \<subseteq> free_bytes s L \<and> free_bytes t L' = free_bytes s L - span (unat p, g)
     \<and> js_start t = js_start s \<and> js_pool t = js_pool s \<and> writes_in {b. unat b \<in> free_bytes s L} s t"

lemma request_mapping:
  fixes sz :: u64
  assumes "unat sz \<le> 4294967296"
  defines "a \<equiv> js_align_size ZOptimizedConfig sz"
  defines "mp_at \<equiv> get_mapping ZOptimizedConfig (js_target_size ZOptimizedConfig a)"
  shows "unat a = js_aligned (unat sz)" "unat (map_fl mp_at) = size_class (class_target (js_aligned (unat sz)))" "map_sl mp_at = 0"
proof -
  note b = js_aligned_bounds [of "unat sz"]
  show a: "unat a = js_aligned (unat sz)" unfolding a_def js_aligned_def by (rule js_align_size_nat) (use assms in simp)
  have "js_aligned (unat sz) \<le> 2 ^ 33" using b(3) assms(1) by auto
  then have t: "unat (js_target_size ZOptimizedConfig a) = class_target (unat a)"
    by (intro js_target_nat) (use a b(1) in simp_all)
  have "16 \<le> unat (js_target_size ZOptimizedConfig a)" unfolding t a using class_target_low(2) [OF b(1)] b(1) by (rule le_trans [rotated])
  then show "unat (map_fl mp_at) = size_class (class_target (js_aligned (unat sz)))" "map_sl mp_at = 0"
    using get_mapping_class [of "js_target_size ZOptimizedConfig a"] by (simp_all add: mp_at_def t a)
qed

lemma js_allocate_returns:
  assumes r: "js_rep s L" and sz: "unat sz \<le> 4294967296"
  shows "\<exists>p t. js_allocate ZOptimizedConfig sz s = Some (p, t)"
proof -
  note q = request_mapping [OF sz]
  let ?mp = "get_mapping ZOptimizedConfig (js_target_size ZOptimizedConfig (js_align_size ZOptimizedConfig sz))"
  have "\<exists>b t. js_find_loop ZOptimizedConfig ?mp s = Some (b, t)"
  proof (cases "\<exists>m. unat (map_fl ?mp) \<le> m \<and> m < 57 \<and> L m \<noteq> []")
    case True
    then obtain m where "unat (map_fl ?mp) \<le> m" "m < 57" "L m \<noteq> []" by blast
    from find_loop_some [OF r refl q(3) this] show ?thesis by metis
  next
    case False
    have "unat (map_fl ?mp) \<le> 56" unfolding q(2) by (rule size_class_le)
    from find_loop_none [OF r this] show ?thesis using False by blast
  qed
  then show ?thesis by (auto simp: js_allocate_def js_find_block_def Let_def split_beta)
qed

text \<open>The statistics do not matter.\<close>

lemma count_takes:
  assumes "js_takes n s L p g t L'"
  shows "js_takes n s L p g (count_allocation b sz t) L'"
proof -
  let ?u = "count_allocation b sz t"
  have r: "js_rep t L'" using assms by (simp add: js_takes_def)
  have sf: "same_free (free_blocks L') t ?u" by (simp add: same_free_def count_allocation_def Let_def)
  have "free_bytes ?u L' = free_bytes t L'" using js_rep_frame(2) [OF r sf] by (simp add: free_bytes_def)
  then show ?thesis
    using assms js_rep_frame(1) [OF r sf] by (simp add: js_takes_def writes_in_def count_allocation_def Let_def)
qed

lemma js_allocate_none:
  assumes r: "js_rep s L" and sz: "unat sz \<le> 262144"
    and no: "\<And>b. b \<in> free_blocks L \<Longrightarrow> size_class (unat (bh_get_size s b)) < size_class (class_target (js_aligned (unat sz)))"
  shows "js_allocate ZOptimizedConfig sz s = Some (0, s)"
proof -
  have sz32: "unat sz \<le> 4294967296" using sz by simp
  note q = request_mapping [OF sz32]
  have "js_find_loop ZOptimizedConfig (get_mapping ZOptimizedConfig (js_target_size ZOptimizedConfig (js_align_size ZOptimizedConfig sz))) s
    = Some (0, s)"
  proof (rule find_loop_none [OF r], unfold q(2))
    show "size_class (class_target (js_aligned (unat sz))) \<le> 56" by (rule size_class_le)
    fix m assume m: "size_class (class_target (js_aligned (unat sz))) \<le> m" "m < 57"
    show "L m = []"
    proof (rule ccontr)
      assume "L m \<noteq> []"
      then obtain b where "b \<in> set (L m)" by (cases "L m") auto
      then show False using js_repD(6) [OF r m(2)] no [OF in_free_blocks [of m b L]] m by fastforce
    qed
  qed
  then show ?thesis by (simp add: js_allocate_def js_find_block_def Let_def)
qed

lemma js_allocate_some:
  assumes r: "js_rep s L" and sz: "unat sz \<le> 262144"
    and b0: "b0 \<in> free_blocks L" "size_class (class_target (js_aligned (unat sz))) \<le> size_class (unat (bh_get_size s b0))"
  shows "\<exists>p t g L'. js_allocate ZOptimizedConfig sz s = Some (p, t) \<and> js_takes (unat sz) s L p g t L'"
proof -
  have sz32: "unat sz \<le> 4294967296" using sz by simp
  note q = request_mapping [OF sz32] and ab = js_aligned_bounds [of "unat sz"]
  let ?a = "js_align_size ZOptimizedConfig sz" and ?n = "js_aligned (unat sz)"
  let ?mp = "get_mapping ZOptimizedConfig (js_target_size ZOptimizedConfig ?a)"
  obtain m0 where m0: "m0 < 57" "b0 \<in> set (L m0)" using b0(1) by (auto simp: free_blocks_def)
  have c0: "size_class (class_target ?n) \<le> m0" using js_repD(6) [OF r m0] b0(2) by simp
  have ne: "L m0 \<noteq> []" using m0(2) by auto
  obtain k b bs t where f: "size_class (class_target ?n) \<le> k" "k < 57" "k \<le> m0" "L k = b # bs"
    "js_find_loop ZOptimizedConfig ?mp s = Some (b, t)" "js_rep t (L(k := bs))" "bh_size t = bh_size s" "bh_f1 t = bh_f1 s"
    "js_start t = js_start s" "js_pool t = js_pool s"
    by (rule find_loop_some [OF r q(2,3) c0 m0(1) ne])
  note rm = js_remove_free [OF r f(2,4)]
  let ?L = "L(k := bs)"
  have same: "bh_get_size t = bh_get_size s" "js_blk t = js_blk s" "block_good t = block_good s"
    by (simp_all add: fun_eq_iff bh_get_size_def js_blk_def block_good_def bh_is_last_def f)
  have g: "block_good s b" by (rule rm(3))
  have b_nz: "b \<noteq> 0" by (rule in_pool_nz [OF js_repD(1) [OF r] good_in_pool [OF g]])
  have fit: "?n \<le> unat (bh_get_size s b)"
    by (rule class_fits [OF ab(1)]) (use g ab(5) [OF sz] f(1) rm(4) in \<open>simp_all add: block_good_def\<close>)
  have apart: "\<forall>x \<in> free_blocks ?L. span (js_blk t x) \<inter> span (js_blk t b) = {}"
    unfolding same by (intro ballI js_repD(8) [OF r]) (use rm in auto)
  have fb: "free_bytes t ?L = free_bytes s L - span (js_blk s b)" "span (js_blk s b) \<subseteq> free_bytes s L"
    using apart rm(2) by (auto simp: free_bytes_def same)
  have bin: "{b} \<subseteq> {x. unat x \<in> free_bytes s L}"
    using fb(2) g by (auto simp: span_def js_blk_def block_good_def)
  have sub: "unat (bh_get_size s b - ?a) = unat (bh_get_size s b) - ?n"
    using fit q(1) by (subst unat_sub) (simp_all add: word_le_nat_alt)
  show ?thesis
  proof (cases "bh_get_size s b - ?a \<ge> 16")
    case True
    then have room: "?n + 16 \<le> unat (bh_get_size s b)" using sub fit by (simp add: word_le_nat_alt)
    have da: "8 dvd unat ?a" unfolding q(1) by (rule dvd_trans [OF _ ab(4)]) simp
    define st where "st = js_split_block ZOptimizedConfig b ?a t"
    define t' where "t' = js_insert_block ZOptimizedConfig (fst st) (snd st)"
    have a: "unat ?a + 16 \<le> unat (bh_get_size t b)" "16 \<le> unat ?a" using room ab(1) by (simp_all add: q(1) same)
    note sp = split_insert [OF f(6) g [folded same(3)] rm(1) apart da a, folded st_def t'_def, unfolded same q(1)]
    obtain L' where L': "js_rep t' L'" "free_bytes t' L' = free_bytes t ?L \<union> {unat b + ?n ..< unat b + unat (bh_get_size s b)}"
      using sp(1) by blast
    have al: "js_allocate ZOptimizedConfig sz s = Some (b, count_allocation b sz t')"
      using True by (simp add: js_allocate_def js_find_block_def Let_def f(5) b_nz same MBS_def BlockHeaderLength_def
          t'_def split_beta sp(2) flip: st_def)
    have ur: "unat (b + ?a) = unat b + ?n"
      using g room js_repD(1) [OF r] unfolding q(1) [symmetric] js_place_def block_good_def
      by (intro unat_add_no_wrap) simp
    have bytes: "free_bytes t' L' = free_bytes s L - span (unat b, ?n)" "span (unat b, ?n) \<subseteq> free_bytes s L"
      using L'(2) fb fit by (auto simp: span_def js_blk_def)
    have bs: "unat (b + ?a) \<in> free_bytes s L" using fb(2) room by (auto simp: span_def js_blk_def ur)
    have "writes_in {x. unat x \<in> free_bytes s L} s t'"
      using sp(5) bin bs f(7,8) by (auto simp: writes_in_def)
    then have "js_takes (unat sz) s L b ?n t' L'"
      unfolding js_takes_def using L'(1) b_nz g bytes sp(3,4) f(9,10) by (simp add: block_good_def)
    then show ?thesis using al count_takes by blast
  next
    case False
    then have lt: "unat (bh_get_size s b) < ?n + 16" using sub fit by (simp add: word_le_nat_alt)
    have "js_allocate ZOptimizedConfig sz s = Some (b, count_allocation b sz t)"
      using False by (simp add: js_allocate_def js_find_block_def Let_def f(5) b_nz same MBS_def BlockHeaderLength_def)
    moreover have "js_takes (unat sz) s L b (unat (bh_get_size s b)) t ?L"
      using f fb g fit lt b_nz by (simp add: js_takes_def js_blk_def writes_in_def block_good_def)
    ultimately show ?thesis using count_takes by blast
  qed
qed

lemma js_allocate_cases:
  assumes r: "js_rep s L" and sz: "unat sz \<le> 262144"
  obtains (full) "js_allocate ZOptimizedConfig sz s = Some (0, s)"
      "\<And>b. b \<in> free_blocks L \<Longrightarrow> unat (bh_get_size s b) < class_target (js_aligned (unat sz))"
    | (taken) p t g L' where "js_allocate ZOptimizedConfig sz s = Some (p, t)" "js_takes (unat sz) s L p g t L'"
proof (cases "\<exists>b \<in> free_blocks L. size_class (class_target (js_aligned (unat sz))) \<le> size_class (unat (bh_get_size s b))")
  case True
  then obtain b where "b \<in> free_blocks L" "size_class (class_target (js_aligned (unat sz))) \<le> size_class (unat (bh_get_size s b))"
    by blast
  then show thesis using js_allocate_some [OF r sz] taken by metis
next
  case False
  have small: "unat (bh_get_size s b) < class_target (js_aligned (unat sz))" if b: "b \<in> free_blocks L" for b
    by (rule class_too_small) (use js_aligned_bounds js_repD(7) [OF r b] False b in \<open>auto simp: block_good_def not_le\<close>)
  have "js_allocate ZOptimizedConfig sz s = Some (0, s)" by (rule js_allocate_none [OF r sz]) (use False in auto)
  then show thesis using full small by blast
qed

subsection \<open>Release\<close>

definition in_place :: "js_state \<Rightarrow> nat \<times> nat \<Rightarrow> bool" where
  "in_place s b \<longleftrightarrow> 8 dvd fst b \<and> 8 dvd snd b \<and> 16 \<le> snd b
     \<and> unat (js_start s) \<le> fst b \<and> fst b + snd b \<le> unat (js_start s) + unat (js_pool s)"

lemma in_pool_ptr:
  assumes "js_place s" "js_in_pool s p"
  shows "ptr_in_pool s p"
proof -
  have "unat (js_start s + js_pool s) = unat (js_start s) + unat (js_pool s)"
    using assms(1) by (intro unat_add_no_wrap) (simp add: js_place_def)
  then show ?thesis using assms(2) by (simp add: ptr_in_pool_def js_in_pool_def word_le_nat_alt word_less_nat_alt)
qed

lemma jsz_free_gives:
  assumes r: "js_rep s L" and p: "in_place s (unat p, unat sz)" and apart: "span (unat p, unat sz) \<inter> free_bytes s L = {}"
  shows "\<exists>L'. js_rep (jsz_free p sz s) L' \<and> free_bytes (jsz_free p sz s) L' = free_bytes s L \<union> span (unat p, unat sz)"
    "js_start (jsz_free p sz s) = js_start s" "js_pool (jsz_free p sz s) = js_pool s" "writes_in {p} s (jsz_free p sz s)"
proof -
  define s1 where "s1 = s\<lparr>bh_size := (bh_size s)(p := sz)\<rparr>"
  note pi = p [unfolded in_place_def fst_conv snd_conv]
  have ip: "js_in_pool s p" using pi by (simp add: js_in_pool_def)
  have d: "8 dvd unat sz" using pi by simp
  note p1 = put_size [OF d, where s = s and b = p, folded s1_def]
  have new: "p \<notin> free_blocks L"
  proof
    assume x: "p \<in> free_blocks L"
    then have "unat p \<in> free_bytes s L"
      using js_repD(7) [OF r x] by (auto simp: free_bytes_def span_def js_blk_def block_good_def intro: bexI [of _ p])
    moreover have "unat p \<in> span (unat p, unat sz)" using pi by (simp add: span_def)
    ultimately show False using apart by blast
  qed
  have r1: "js_rep s1 L" unfolding s1_def by (rule put_rep [OF r new])
  have fr: "js_blk s1 x = js_blk s x" if "x \<in> free_blocks L" for x
    using that new by (auto simp: s1_def js_blk_def bh_get_size_def)
  have g1: "block_good s1 p" using p1(1,2,4,5) pi by (simp add: block_good_def)
  have ap1: "span (js_blk s1 x) \<inter> span (js_blk s1 p) = {}" if "x \<in> free_blocks L" for x
    using apart fr [OF that] that by (auto simp: p1(3) free_bytes_def)
  define t where "t = js_insert_block ZOptimizedConfig p s1"
  have t: "jsz_free p sz s = t"
    using in_pool_nz [OF js_repD(1) [OF r] ip] in_pool_ptr [OF js_repD(1) [OF r] ip] by (simp add: jsz_free_def t_def s1_def)
  note ins = js_insert_rep [OF r1 g1 ap1, folded t_def]
  show "js_start (jsz_free p sz s) = js_start s" "js_pool (jsz_free p sz s) = js_pool s"
    unfolding t using ins(3,4) p1(4,5) by simp_all
  show "writes_in {p} s (jsz_free p sz s)" unfolding t using ins(5) p1(6) by (simp add: writes_in_def)
  let ?m = "size_class (unat (bh_get_size s1 p))"
  let ?L = "L(?m := p # L ?m)"
  have m: "?m < 57" using size_class_le [of "unat (bh_get_size s1 p)"] by simp
  have "free_bytes t ?L = span (js_blk s1 p) \<union> free_bytes s L"
    using fr ins(2) free_blocks_push [OF m] by (simp add: free_bytes_def)
  then show "\<exists>L'. js_rep (jsz_free p sz s) L' \<and> free_bytes (jsz_free p sz s) L' = free_bytes s L \<union> span (unat p, unat sz)"
    unfolding t using ins(1) by (auto simp: p1(3))
qed

end
