(* ===== verification/Free_Contract.thy ===== *)
theory Free_Contract
  imports Zgc_Prelude
begin

text \<open>
  The contract of an allocator that recycles the free memory of a page: what \<open>ZPage\<close> and the
  mutators rely on behind \<open>ZAllocatorWrapper\<close>. \<open>inv s F\<close> says that the allocator is in order and
  that \<open>F\<close> are the free addresses of its pool; \<open>peek s a\<close> is what a client reads at the address
  \<open>a\<close> and \<open>poke\<close> what it writes there. The clients' lemmas are proved once against the contract.
\<close>

text \<open>A range a client may give to the allocator.\<close>

definition range_ok :: "nat \<times> nat \<Rightarrow> nat \<times> nat \<Rightarrow> bool" where
  "range_ok P b \<longleftrightarrow> 8 dvd fst b \<and> 8 dvd snd b \<and> 16 \<le> snd b \<and> span b \<subseteq> span P"

definition urange :: "u64 \<times> u64 \<Rightarrow> nat \<times> nat" where
  "urange b = (unat (fst b), unat (snd b))"

lemma urange_simps [simp]: "fst (urange b) = unat (fst b)" "snd (urange b) = unat (snd b)"
  by (simp_all add: urange_def)

text \<open>A client takes memory, gives it back by the position of the block among those it holds, and
  writes into the blocks it holds.\<close>

datatype heap_op = Take u64 | Give nat | Poke nat u64 u64 u64

fun heap_step ::
  "(u64 \<Rightarrow> 's \<Rightarrow> (u64 \<times> 's) option) \<Rightarrow> (u64 \<Rightarrow> u64 \<Rightarrow> 's \<Rightarrow> 's) \<Rightarrow> (u64 \<Rightarrow> u64 \<Rightarrow> u64 \<Rightarrow> 's \<Rightarrow> 's) \<Rightarrow> heap_op
   \<Rightarrow> 's \<times> (u64 \<times> u64) list \<Rightarrow> 's \<times> (u64 \<times> u64) list" where
  "heap_step alloc release poke (Take sz) (s, H) =
     (case alloc sz s of None \<Rightarrow> (s, H) | Some (p, t) \<Rightarrow> if p = 0 then (t, H) else (t, H @ [(p, sz)]))"
| "heap_step alloc release poke (Give i) (s, H) =
     (if i < length H then (release (fst (H ! i)) (snd (H ! i)) s, take i H @ drop (Suc i) H) else (s, H))"
| "heap_step alloc release poke (Poke i k v w) (s, H) =
     (if i < length H \<and> k < snd (H ! i) then (poke (fst (H ! i) + k) v w s, H) else (s, H))"

definition heap_run where
  "heap_run alloc release poke ops sH = foldl (\<lambda>sH x. heap_step alloc release poke x sH) sH ops"

fun heap_op_ok :: "nat \<Rightarrow> heap_op \<Rightarrow> bool" where
  "heap_op_ok largest (Take sz) \<longleftrightarrow> 8 dvd unat sz \<and> 16 \<le> unat sz \<and> unat sz \<le> largest"
| "heap_op_ok largest _ \<longleftrightarrow> True"

definition apart :: "nat \<times> nat \<Rightarrow> (u64 \<times> u64) list \<Rightarrow> bool" where
  "apart P H \<longleftrightarrow> (\<forall>i < length H. range_ok P (urange (H ! i)) \<and> (\<forall>j < i. span (urange (H ! i)) \<inter> span (urange (H ! j)) = {}))"

locale free_list_allocator =
  fixes inv :: "'s \<Rightarrow> nat set \<Rightarrow> bool"
    and pool :: "'s \<Rightarrow> nat \<times> nat"
    and peek :: "'s \<Rightarrow> u64 \<Rightarrow> u64 \<times> u64"
    and poke :: "u64 \<Rightarrow> u64 \<Rightarrow> u64 \<Rightarrow> 's \<Rightarrow> 's"
    and alloc :: "u64 \<Rightarrow> 's \<Rightarrow> (u64 \<times> 's) option"
    and release :: "u64 \<Rightarrow> u64 \<Rightarrow> 's \<Rightarrow> 's"
    and reset :: "'s \<Rightarrow> 's"
    and largest :: nat
  assumes free_in_pool: "inv s F \<Longrightarrow> F \<subseteq> span (pool s)"
    and pool_fits: "inv s F \<Longrightarrow> fst (pool s) + snd (pool s) < 2 ^ 64"
    and alloc_law: "inv s F \<Longrightarrow> unat sz \<le> largest \<Longrightarrow> \<exists>p t. alloc sz s = Some (p, t)
      \<and> (p = 0 \<and> t = s \<or> (\<exists>g \<ge> unat sz. p \<noteq> 0 \<and> 8 dvd unat p \<and> span (unat p, g) \<subseteq> F \<and> inv t (F - span (unat p, g))
           \<and> pool t = pool s \<and> (\<forall>a. unat a \<notin> F \<longrightarrow> peek t a = peek s a)))"
    and release_law: "inv s F \<Longrightarrow> range_ok (pool s) (unat p, unat sz) \<Longrightarrow> span (unat p, unat sz) \<inter> F = {}
      \<Longrightarrow> inv (release p sz s) (F \<union> span (unat p, unat sz)) \<and> pool (release p sz s) = pool s
           \<and> (\<forall>a. unat a \<notin> span (unat p, unat sz) \<longrightarrow> peek (release p sz s) a = peek s a)"
    and poke_law: "inv s F \<Longrightarrow> unat a \<notin> F \<Longrightarrow> inv (poke a v w s) F \<and> pool (poke a v w s) = pool s"
    and reset_law: "inv s F \<Longrightarrow> inv (reset s) {} \<and> pool (reset s) = pool s"
begin

definition client_ok :: "'s \<times> (u64 \<times> u64) list \<Rightarrow> bool" where
  "client_ok sH \<longleftrightarrow> (\<exists>F. inv (fst sH) F \<and> apart (pool (fst sH)) (snd sH) \<and> (\<forall>b \<in> set (snd sH). span (urange b) \<inter> F = {}))"

lemma start_ok: "inv s F \<Longrightarrow> client_ok (s, [])"
  by (auto simp: client_ok_def apart_def)

lemma take_block:
  assumes "client_ok (s, H)" "heap_op_ok largest (Take sz)"
  shows "client_ok (heap_step alloc release poke (Take sz) (s, H))"
    "pool (fst (heap_step alloc release poke (Take sz) (s, H))) = pool s"
proof -
  obtain F where F: "inv s F" "apart (pool s) H" "\<forall>b \<in> set H. span (urange b) \<inter> F = {}"
    using assms(1) by (auto simp: client_ok_def)
  have sz: "8 dvd unat sz" "16 \<le> unat sz" "unat sz \<le> largest" using assms(2) by simp_all
  obtain p t where a: "alloc sz s = Some (p, t)"
    and c: "p = 0 \<and> t = s \<or> (\<exists>g \<ge> unat sz. p \<noteq> 0 \<and> 8 dvd unat p \<and> span (unat p, g) \<subseteq> F \<and> inv t (F - span (unat p, g))
           \<and> pool t = pool s \<and> (\<forall>a. unat a \<notin> F \<longrightarrow> peek t a = peek s a))"
    using alloc_law [OF F(1) sz(3)] by blast
  from c have "client_ok (heap_step alloc release poke (Take sz) (s, H))
    \<and> pool (fst (heap_step alloc release poke (Take sz) (s, H))) = pool s"
  proof
    assume "p = 0 \<and> t = s"
    then show ?thesis using assms(1) a by simp
  next
    assume "\<exists>g \<ge> unat sz. p \<noteq> 0 \<and> 8 dvd unat p \<and> span (unat p, g) \<subseteq> F \<and> inv t (F - span (unat p, g))
           \<and> pool t = pool s \<and> (\<forall>a. unat a \<notin> F \<longrightarrow> peek t a = peek s a)"
    then obtain g where g: "unat sz \<le> g" "p \<noteq> 0" "8 dvd unat p" "span (unat p, g) \<subseteq> F" "inv t (F - span (unat p, g))" "pool t = pool s"
      by blast
    have sub: "span (unat p, unat sz) \<subseteq> span (unat p, g)" using g(1) by (auto simp: span_def)
    have new: "range_ok (pool s) (urange (p, sz))"
      using sz g(3,4) sub free_in_pool [OF F(1)] by (auto simp: range_ok_def urange_def)
    have old: "span (urange b) \<inter> span (unat p, unat sz) = {}" if "b \<in> set H" for b using F(3) that sub g(4) by blast
    have "apart (pool s) (H @ [(p, sz)])"
      using F(2) new old by (auto simp: apart_def nth_append urange_def less_Suc_eq Int_commute)
    moreover have "\<forall>b \<in> set (H @ [(p, sz)]). span (urange b) \<inter> (F - span (unat p, g)) = {}"
      using F(3) sub by (auto simp: urange_def)
    ultimately show ?thesis using g a by (auto simp: client_ok_def)
  qed
  then show "client_ok (heap_step alloc release poke (Take sz) (s, H))"
    "pool (fst (heap_step alloc release poke (Take sz) (s, H))) = pool s" by auto
qed

lemma apart_remove:
  assumes "apart P H" "i < length H"
  shows "apart P (take i H @ drop (Suc i) H)"
    "\<And>b. b \<in> set (take i H @ drop (Suc i) H) \<Longrightarrow> b \<in> set H \<and> span (urange b) \<inter> span (urange (H ! i)) = {}"
proof -
  let ?f = "\<lambda>k. if k < i then k else Suc k" and ?H = "take i H @ drop (Suc i) H"
  have nth: "?H ! k = H ! ?f k" "?f k < length H" "?f k \<noteq> i" if "k < length ?H" for k
    using that assms(2) by (auto simp: nth_append min_def)
  have d: "span (urange (H ! a)) \<inter> span (urange (H ! b)) = {}" if "a < length H" "b < length H" "a \<noteq> b" for a b
    using assms(1) that unfolding apart_def by (metis Int_commute linorder_neqE_nat)
  show "apart P ?H"
    unfolding apart_def
  proof (intro allI impI conjI)
    fix k assume k: "k < length ?H"
    show "range_ok P (urange (?H ! k))" unfolding nth(1) [OF k] using assms(1) nth(2) [OF k] by (auto simp: apart_def)
    fix j assume j: "j < k"
    then have jl: "j < length ?H" using k by simp
    have "?f k \<noteq> ?f j" using j by simp
    then show "span (urange (?H ! k)) \<inter> span (urange (?H ! j)) = {}"
      unfolding nth(1) [OF k] nth(1) [OF jl] using d nth(2) [OF k] nth(2) [OF jl] by blast
  qed
  fix b assume "b \<in> set ?H"
  then obtain k where "k < length ?H" "b = ?H ! k" unfolding in_set_conv_nth by blast
  then show "b \<in> set H \<and> span (urange b) \<inter> span (urange (H ! i)) = {}"
    using nth [of k] d [of "?f k" i] assms(2) by auto
qed

lemma give_block:
  assumes "client_ok (s, H)" "i < length H"
  shows "client_ok (heap_step alloc release poke (Give i) (s, H))"
    "pool (fst (heap_step alloc release poke (Give i) (s, H))) = pool s"
    "\<And>a. unat a \<notin> span (urange (H ! i)) \<Longrightarrow> peek (fst (heap_step alloc release poke (Give i) (s, H))) a = peek s a"
proof -
  obtain F where F: "inv s F" "apart (pool s) H" "\<forall>b \<in> set H. span (urange b) \<inter> F = {}"
    using assms(1) by (auto simp: client_ok_def)
  obtain p sz where b: "H ! i = (p, sz)" by (cases "H ! i")
  have r: "range_ok (pool s) (unat p, unat sz)" using F(2) assms(2) b by (auto simp: apart_def urange_def)
  have d: "span (unat p, unat sz) \<inter> F = {}" using bspec [OF F(3) nth_mem [OF assms(2)]] b by (simp add: urange_def)
  note l = release_law [OF F(1) r d] and rm = apart_remove [OF F(2) assms(2)]
  have "\<forall>b \<in> set (take i H @ drop (Suc i) H). span (urange b) \<inter> (F \<union> span (unat p, unat sz)) = {}"
    using rm(2) F(3) by (auto simp: b urange_def)
  then show "client_ok (heap_step alloc release poke (Give i) (s, H))"
    using l rm(1) assms(2) b by (auto simp: client_ok_def)
  show "pool (fst (heap_step alloc release poke (Give i) (s, H))) = pool s"
    "\<And>a. unat a \<notin> span (urange (H ! i)) \<Longrightarrow> peek (fst (heap_step alloc release poke (Give i) (s, H))) a = peek s a"
    using l assms(2) b by (simp_all add: urange_def)
qed

lemma poke_block:
  assumes "client_ok (s, H)" "i < length H" "k < snd (H ! i)"
  shows "client_ok (heap_step alloc release poke (Poke i k v w) (s, H))"
    "pool (fst (heap_step alloc release poke (Poke i k v w) (s, H))) = pool s"
proof -
  obtain F where F: "inv s F" "apart (pool s) H" "\<forall>b \<in> set H. span (urange b) \<inter> F = {}"
    using assms(1) by (auto simp: client_ok_def)
  obtain p sz where b: "H ! i = (p, sz)" by (cases "H ! i")
  have r: "range_ok (pool s) (unat p, unat sz)" using F(2) assms(2) b by (auto simp: apart_def urange_def)
  have k: "unat k < unat sz" using assms(3) b by (simp add: word_less_nat_alt)
  have "unat p + (unat sz - 1) \<in> span (pool s)" using r by (auto simp: range_ok_def span_def)
  then have "unat p + (unat sz - 1) < fst (pool s) + snd (pool s)" by (simp add: span_def)
  then have "unat p + unat k < 2 ^ 64" using pool_fits [OF F(1)] k by linarith
  then have u: "unat (p + k) = unat p + unat k" by (intro unat_add_no_wrap) simp
  then have "unat (p + k) \<in> span (urange (H ! i))" using k by (simp add: span_def b urange_def)
  then have "unat (p + k) \<notin> F" using F(3) nth_mem [OF assms(2)] by blast
  then have l: "inv (poke (p + k) v w s) F" "pool (poke (p + k) v w s) = pool s" using poke_law [OF F(1)] by simp_all
  then show "client_ok (heap_step alloc release poke (Poke i k v w) (s, H))"
    "pool (fst (heap_step alloc release poke (Poke i k v w) (s, H))) = pool s"
    using assms(2,3) b F(2,3) by (auto simp: client_ok_def)
qed

lemma step_ok:
  assumes "client_ok sH" "heap_op_ok largest x"
  shows "client_ok (heap_step alloc release poke x sH)" "pool (fst (heap_step alloc release poke x sH)) = pool (fst sH)"
proof -
  obtain s H where sH: "sH = (s, H)" by (cases sH)
  have "client_ok (heap_step alloc release poke x sH) \<and> pool (fst (heap_step alloc release poke x sH)) = pool (fst sH)"
  proof (cases x)
    case (Take sz)
    then show ?thesis using take_block assms by (simp only: sH fst_conv)
  next
    case (Give i)
    then show ?thesis using give_block [of s H i] assms by (cases "i < length H") (simp_all add: sH)
  next
    case (Poke i k v w)
    then show ?thesis using poke_block [of s H i k v w] assms by (cases "i < length H \<and> k < snd (H ! i)") (auto simp: sH)
  qed
  then show "client_ok (heap_step alloc release poke x sH)" "pool (fst (heap_step alloc release poke x sH)) = pool (fst sH)"
    by auto
qed

lemma run_ok:
  assumes "client_ok sH" "\<forall>x \<in> set ops. heap_op_ok largest x"
  shows "client_ok (heap_run alloc release poke ops sH)" "pool (fst (heap_run alloc release poke ops sH)) = pool (fst sH)"
proof -
  have "client_ok (heap_run alloc release poke ops sH) \<and> pool (fst (heap_run alloc release poke ops sH)) = pool (fst sH)"
    using assms
  proof (induction ops arbitrary: sH)
    case (Cons x ops)
    then show ?case using step_ok [of sH x] by (simp add: heap_run_def)
  qed (simp add: heap_run_def)
  then show "client_ok (heap_run alloc release poke ops sH)" "pool (fst (heap_run alloc release poke ops sH)) = pool (fst sH)"
    by auto
qed

lemma run_apart:
  assumes "inv s F" "\<forall>x \<in> set ops. heap_op_ok largest x"
  shows "apart (pool s) (snd (heap_run alloc release poke ops (s, [])))"
  using run_ok [OF start_ok [OF assms(1)] assms(2)] by (auto simp: client_ok_def)

text \<open>Taking a block leaves the contents of every block that is held.\<close>

lemma take_keeps:
  assumes "client_ok (s, H)" "unat sz \<le> largest" "b \<in> set H" "unat a \<in> span (urange b)"
  shows "peek (fst (heap_step alloc release poke (Take sz) (s, H))) a = peek s a"
proof -
  obtain F where F: "inv s F" "\<forall>b \<in> set H. span (urange b) \<inter> F = {}" using assms(1) by (auto simp: client_ok_def)
  then have "unat a \<notin> F" using assms(3,4) by blast
  then show ?thesis using alloc_law [OF F(1) assms(2)] by auto
qed

end

end
