(* ===== verification/JS_Public.thy ===== *)
theory JS_Public
  imports JS_Alloc Free_Contract
begin

text \<open>
  \<open>JSMallocZ\<close> meets the contract of the allocators behind \<open>ZAllocatorWrapper\<close>. Its constructor and
  \<open>reset\<close> establish it. The properties of its public operations.
\<close>

definition js_inv :: "js_state \<Rightarrow> nat set \<Rightarrow> bool" where
  "js_inv s F \<longleftrightarrow> (\<exists>L. js_rep s L \<and> free_bytes s L = F)"

definition js_range :: "js_state \<Rightarrow> nat \<times> nat" where
  "js_range s = (unat (js_start s), unat (js_pool s))"

definition js_peek :: "js_state \<Rightarrow> u64 \<Rightarrow> u64 \<times> u64" where
  "js_peek s a = (bh_size s a, bh_f1 s a)"

definition js_poke :: "u64 \<Rightarrow> u64 \<Rightarrow> u64 \<Rightarrow> js_state \<Rightarrow> js_state" where
  "js_poke a v w s = s\<lparr>bh_size := (bh_size s)(a := v), bh_f1 := (bh_f1 s)(a := w)\<rparr>"

lemma range_in_place: "range_ok (js_range s) b \<Longrightarrow> in_place s b"
proof -
  assume r: "range_ok (js_range s) b"
  then have h: "span b \<subseteq> span (js_range s)" "16 \<le> snd b" by (simp_all add: range_ok_def)
  then have "fst b \<in> span (js_range s)" "fst b + (snd b - 1) \<in> span (js_range s)" by (auto simp: span_def)
  then have "unat (js_start s) \<le> fst b" "fst b + snd b \<le> unat (js_start s) + unat (js_pool s)"
    using h(2) by (simp_all add: js_range_def span_def) linarith
  then show ?thesis using r by (simp add: in_place_def range_ok_def)
qed

lemma js_rep_reset:
  assumes "js_place s"
  shows "js_rep (js_reset ZOptimizedConfig True s) (\<lambda>_. [])" "js_start (js_reset ZOptimizedConfig True s) = js_start s"
    "js_pool (js_reset ZOptimizedConfig True s) = js_pool s"
proof -
  let ?t = "s\<lparr>fl_bitmap := 0, js_blocks := replicate 57 0\<rparr>"
  have t: "js_reset ZOptimizedConfig True s = ?t"
    by (simp add: js_reset_def Let_def UseSecondLevels_def DeferredCoalescing_def BlockHeaderLength_def num_lists_def
        FirstLevelIndex_def sl_index_def SecondLevelIndexLog2_def)
  show "js_start (js_reset ZOptimizedConfig True s) = js_start s" "js_pool (js_reset ZOptimizedConfig True s) = js_pool s"
    unfolding t by simp_all
  have "js_place ?t" using assms by (simp add: js_place_def)
  moreover have "jsz_head ?t m = 0" "jsz_version ?t m = 0" if "m < 57" for m
    using that by (simp_all add: jsz_head_def jsz_version_def get_bits_def)
  ultimately show "js_rep (js_reset ZOptimizedConfig True s) (\<lambda>_. [])"
    unfolding t by (simp add: js_rep_def free_blocks_def)
qed

interpretation jsm: free_list_allocator js_inv js_range js_peek js_poke "js_allocate ZOptimizedConfig" jsz_free
  "js_reset ZOptimizedConfig True" 262144
proof
  fix s :: js_state and F :: "nat set"
  assume "js_inv s F"
  then obtain L where L: "js_rep s L" "free_bytes s L = F" by (auto simp: js_inv_def)
  note rd = js_repD [OF L(1)]
  have "span (js_blk s b) \<subseteq> span (js_range s)" if "b \<in> free_blocks L" for b
    using rd(7) [OF that] by (auto simp: block_good_def js_blk_def js_range_def span_def)
  then show "F \<subseteq> span (js_range s)" using L(2) by (auto simp: free_bytes_def)
  show "fst (js_range s) + snd (js_range s) < 2 ^ 64" using rd(1) by (simp add: js_range_def js_place_def)
  show "js_inv (js_reset ZOptimizedConfig True s) {} \<and> js_range (js_reset ZOptimizedConfig True s) = js_range s"
    using js_rep_reset [OF rd(1)] by (auto simp: js_inv_def js_range_def free_bytes_def free_blocks_def)
  {
    fix sz :: u64 assume sz: "unat sz \<le> 262144"
    show "\<exists>p t. js_allocate ZOptimizedConfig sz s = Some (p, t)
      \<and> (p = 0 \<and> t = s \<or> (\<exists>g \<ge> unat sz. p \<noteq> 0 \<and> 8 dvd unat p \<and> span (unat p, g) \<subseteq> F \<and> js_inv t (F - span (unat p, g))
           \<and> js_range t = js_range s \<and> (\<forall>a. unat a \<notin> F \<longrightarrow> js_peek t a = js_peek s a)))"
    proof (cases rule: js_allocate_cases [OF L(1) sz, case_names full taken])
      case full
      then show ?thesis by simp
    next
      case (taken p t g L')
      note k = taken(2) [unfolded js_takes_def L(2)]
      have "unat sz \<le> g" using k js_aligned_bounds(2) [of "unat sz"] by linarith
      moreover have "js_inv t (F - span (unat p, g))" using k by (auto simp: js_inv_def)
      moreover have "\<forall>a. unat a \<notin> F \<longrightarrow> js_peek t a = js_peek s a" using k by (auto simp: writes_in_def js_peek_def)
      ultimately show ?thesis using k taken(1) by (auto simp: js_range_def)
    qed
  }
  {
    fix p sz :: u64 assume r: "range_ok (js_range s) (unat p, unat sz)" and d: "span (unat p, unat sz) \<inter> F = {}"
    note g = jsz_free_gives [OF L(1) range_in_place [OF r], unfolded L(2), OF d]
    have "unat p \<in> span (unat p, unat sz)" using r by (simp add: range_ok_def span_def)
    then have "\<forall>a. unat a \<notin> span (unat p, unat sz) \<longrightarrow> js_peek (jsz_free p sz s) a = js_peek s a"
      using g(4) by (auto simp: writes_in_def js_peek_def)
    then show "js_inv (jsz_free p sz s) (F \<union> span (unat p, unat sz)) \<and> js_range (jsz_free p sz s) = js_range s
           \<and> (\<forall>a. unat a \<notin> span (unat p, unat sz) \<longrightarrow> js_peek (jsz_free p sz s) a = js_peek s a)"
      using g(1,2,3) by (auto simp: js_inv_def js_range_def)
  }
  {
    fix a v w :: u64 assume a: "unat a \<notin> F"
    have "a \<notin> free_blocks L"
    proof
      assume b: "a \<in> free_blocks L"
      have "unat a \<in> span (js_blk s a)" using rd(7) [OF b] by (auto simp: block_good_def js_blk_def span_def)
      then show False using b a L(2) by (auto simp: free_bytes_def)
    qed
    then have sf: "same_free (free_blocks L) s (js_poke a v w s)" by (auto simp: same_free_def js_poke_def)
    have "free_bytes (js_poke a v w s) L = F"
      using js_rep_frame(2) [OF L(1) sf] L(2) by (simp add: free_bytes_def)
    then show "js_inv (js_poke a v w s) F \<and> js_range (js_poke a v w s) = js_range s"
      using js_rep_frame(1) [OF L(1) sf] by (auto simp: js_inv_def js_range_def js_poke_def)
  }
qed

subsection \<open>Construction\<close>

definition js_memory :: "u64 \<Rightarrow> u64 \<Rightarrow> bool" where
  "js_memory p n \<longleftrightarrow> p \<noteq> 0 \<and> 24 \<le> unat n \<and> unat n < 4294967296 \<and> unat p + unat n < 2 ^ 64"

text \<open>The pool is the part of the memory between the next multiple of 8 and a multiple of 16 bytes after it.\<close>

definition js_pool_of :: "u64 \<Rightarrow> u64 \<Rightarrow> nat \<times> nat" where
  "js_pool_of p n = (let a = (unat p + 7) div 8 * 8 in (a, (unat n - (a - unat p)) div 16 * 16))"

lemma js_initialize_range:
  fixes p n :: u64 and s :: js_state
  assumes "js_memory p n"
  defines "s0 \<equiv> s\<lparr>js_start := align_up p 8, js_pool := align_down (n - (align_up p 8 - p)) (MBS ZOptimizedConfig)\<rparr>"
  shows "js_place s0" "js_range s0 = js_pool_of p n" "8 dvd fst (js_range s0)" "16 dvd snd (js_range s0)" "16 \<le> snd (js_range s0)"
    "js_initialize ZOptimizedConfig p n full s = js_reset ZOptimizedConfig full s0"
proof -
  note m = assms(1) [unfolded js_memory_def]
  then have m64: "unat p + unat n < 18446744073709551616" by simp
  define a where "a = (unat p + 7) div 8 * 8"
  have u: "unat (align_up p (2 ^ 3)) = (unat p + 2 ^ 3 - 1) div 2 ^ 3 * 2 ^ 3" by (rule unat_align_up) (use m in simp_all)
  then have ua: "unat (align_up p 8) = a" by (simp add: a_def)
  have ab: "unat p \<le> a" "a < unat p + 8" "8 dvd a"
    using mod_less_divisor [of 8 "unat p + 7"] minus_mod_eq_div_mult [of "unat p + 7" 8] by (auto simp: a_def)
  have us: "unat (align_up p 8 - p) = a - unat p" using ab by (subst unat_sub) (simp_all add: word_le_nat_alt ua)
  have un: "unat (n - (align_up p 8 - p)) = unat n - (a - unat p)"
  proof -
    have "a - unat p \<le> unat n" using ab m by linarith
    then show ?thesis by (subst unat_sub) (simp_all add: word_le_nat_alt us)
  qed
  have ud: "unat (align_down (n - (align_up p 8 - p)) (2 ^ 4)) = (unat n - (a - unat p)) div 2 ^ 4 * 2 ^ 4"
    unfolding un [symmetric] by (rule unat_align_down) simp
  then have up: "unat (js_pool s0) = (unat n - (a - unat p)) div 16 * 16" by (simp add: s0_def MBS_def)
  show r: "js_range s0 = js_pool_of p n" by (simp add: js_range_def js_pool_of_def up Let_def a_def [symmetric]) (simp add: s0_def ua)
  have sn: "snd (js_range s0) \<le> unat n - (a - unat p)" "fst (js_range s0) = a"
    by (simp_all add: js_range_def up) (simp add: s0_def ua)
  show "8 dvd fst (js_range s0)" using ab sn by simp
  show "16 dvd snd (js_range s0)" by (simp add: js_range_def up)
  have "1 \<le> (unat n - (a - unat p)) div 16" using ab m by (simp add: less_eq_div_iff_mult_less_eq, linarith)
  then show "16 \<le> snd (js_range s0)" by (simp add: js_range_def up)
  show "js_place s0"
    unfolding js_place_def
  proof (intro conjI)
    show "js_start s0 \<noteq> 0" using ua ab m by (auto simp: s0_def unat_eq_0 [symmetric])
    show "unat (js_start s0) + unat (js_pool s0) < 18446744073709551616"
      using sn ab m m64 unfolding js_range_def fst_conv snd_conv by linarith
    show "unat (js_pool s0) < 4294967296" using sn(1) m unfolding js_range_def snd_conv by linarith
  qed
  show "js_initialize ZOptimizedConfig p n full s = js_reset ZOptimizedConfig full s0"
    by (simp add: js_initialize_def s0_def Let_def)
qed

lemma js_initialize_inv:
  fixes p n :: u64 and s :: js_state and full :: bool
  assumes "js_memory p n"
  defines "t \<equiv> js_initialize ZOptimizedConfig p n full s"
  shows "js_inv t (if full then {} else span (js_pool_of p n))" "js_range t = js_pool_of p n"
proof -
  define s0 where "s0 = s\<lparr>js_start := align_up p 8, js_pool := align_down (n - (align_up p 8 - p)) (MBS ZOptimizedConfig)\<rparr>"
  note i = js_initialize_range [OF assms(1), where s = s, folded s0_def]
  have "js_inv t (if full then {} else span (js_pool_of p n)) \<and> js_range t = js_pool_of p n"
  proof (cases full)
    case True
    then show ?thesis
      using js_rep_reset [OF i(1)] i(2,6) by (auto simp: t_def js_inv_def js_range_def free_bytes_def free_blocks_def)
  next
    case False
    let ?b = "js_start s0"
    define s1 where "s1 = js_reset ZOptimizedConfig True s0"
    define s2 where "s2 = s1\<lparr>bh_size := (bh_size s1)(?b := js_pool s0)\<rparr>"
    have t: "t = js_insert_block ZOptimizedConfig ?b s2"
      using False i(6) by (simp add: t_def s2_def s1_def js_reset_def Let_def DeferredCoalescing_def BlockHeaderLength_def)
    have d: "8 dvd unat (js_pool s0)" using i(4) by (simp add: js_range_def) (rule dvd_trans, simp_all)
    note p1 = put_size [OF d, where s = s1 and b = ?b, folded s2_def] and z = js_rep_reset [OF i(1), folded s1_def]
    have r2: "js_rep s2 (\<lambda>_. [])" unfolding s2_def by (rule put_rep [OF z(1)]) (simp add: free_blocks_def)
    have g2: "block_good s2 ?b"
      using p1(1,2,4,5) z(2,3) d i(3,5) by (simp add: block_good_def js_range_def)
    note ins = js_insert_rep [OF r2 g2, folded t]
    have "js_rep t ((\<lambda>_. [])(size_class (unat (bh_get_size s2 ?b)) := [?b]))" by (rule ins(1)) (simp add: free_blocks_def)
    moreover have "free_blocks ((\<lambda>_. [])(size_class (unat (bh_get_size s2 ?b)) := [?b])) = {?b}"
      using free_blocks_push [of "size_class (unat (bh_get_size s2 ?b))" "\<lambda>_. []" ?b] size_class_le [of "unat (bh_get_size s2 ?b)"]
      by (simp add: free_blocks_def)
    moreover have "js_blk t ?b = js_range s0" using ins(2) p1(3) by (simp add: free_blocks_def js_range_def)
    moreover have "js_range t = js_range s0" using ins(3,4) p1(4,5) z(2,3) by (simp add: free_blocks_def js_range_def)
    ultimately show ?thesis using False i(2) by (auto simp: js_inv_def free_bytes_def)
  qed
  then show "js_inv t (if full then {} else span (js_pool_of p n))" "js_range t = js_pool_of p n" by auto
qed

subsection \<open>The public operations\<close>

text \<open>A block on one of the free lists.\<close>

definition js_listed :: "js_state \<Rightarrow> u64 \<Rightarrow> bool" where
  "js_listed s b \<longleftrightarrow> (\<exists>m < 57. \<exists>xs. jsz_chain s (jsz_head s m) xs \<and> b \<in> set xs)"

lemma chain_unique: "jsz_chain s p xs \<Longrightarrow> jsz_chain s p ys \<Longrightarrow> xs = ys"
proof (induction xs arbitrary: p ys)
  case Nil
  then show ?case by (cases ys) auto
next
  case (Cons x xs)
  then show ?case by (cases ys) auto
qed

lemma listed_free: "js_rep s L \<Longrightarrow> js_listed s b \<Longrightarrow> b \<in> free_blocks L"
  unfolding js_listed_def by (metis chain_unique js_repD(3) in_free_blocks)

lemma js_allocate_spec:
  assumes "js_inv s F" "unat sz \<le> 262144"
  shows "\<exists>p t. js_allocate ZOptimizedConfig sz s = Some (p, t) \<and>
    (if p = 0 then t = s \<and> (\<forall>b. js_listed s b \<longrightarrow> 4 * unat (bh_get_size s b) < 5 * js_aligned (unat sz))
     else \<exists>g. js_aligned (unat sz) \<le> g \<and> g < js_aligned (unat sz) + 16 \<and> 8 dvd unat p \<and> span (unat p, g) \<subseteq> F
       \<and> js_inv t (F - span (unat p, g)) \<and> js_range t = js_range s \<and> (\<forall>a. unat a \<notin> F \<longrightarrow> js_peek t a = js_peek s a))"
proof -
  obtain L where L: "js_rep s L" "free_bytes s L = F" using assms(1) by (auto simp: js_inv_def)
  show ?thesis
  proof (cases rule: js_allocate_cases [OF L(1) assms(2), case_names full taken])
    case full
    have "4 * unat (bh_get_size s b) < 5 * js_aligned (unat sz)" if "js_listed s b" for b
      using full(2) [OF listed_free [OF L(1) that]] class_target_bound [OF js_aligned_bounds(1), of "unat sz"] by linarith
    then show ?thesis using full(1) by simp
  next
    case (taken p t g L')
    note k = taken(2) [unfolded js_takes_def L(2)]
    have "js_inv t (F - span (unat p, g))" using k by (auto simp: js_inv_def)
    moreover have "\<forall>a. unat a \<notin> F \<longrightarrow> js_peek t a = js_peek s a" using k by (auto simp: writes_in_def js_peek_def)
    ultimately show ?thesis using k taken(1) by (auto simp: js_range_def)
  qed
qed

definition js_blank :: js_state where
  "js_blank = \<lparr>js_start = 0, js_pool = 0, fl_bitmap = 0, sl_bitmap = [], js_blocks = [], bh_size = (\<lambda>_. 0),
     bh_f1 = (\<lambda>_. 0), bh_f2 = (\<lambda>_. 0), bh_prev_phys = (\<lambda>_. 0),
     js_internal_fragmentation = 0, js_allocated = 0\<rparr>"

definition js_demo :: js_state where
  "js_demo = js_initialize ZOptimizedConfig 4096 4096 False js_blank"

lemma js_demo_inv: "js_inv js_demo {4096 ..< 8192}" "js_range js_demo = (4096, 4096)" "js_memory 4096 4096"
proof -
  show m: "js_memory 4096 4096" by (simp add: js_memory_def)
  have "js_pool_of 4096 4096 = (4096, 4096)" by (simp add: js_pool_of_def)
  then show "js_inv js_demo {4096 ..< 8192}" "js_range js_demo = (4096, 4096)"
    using js_initialize_inv [OF m, of False js_blank] by (simp_all add: js_demo_def span_def)
qed

text \<open>C24. An allocation from \<open>JSMallocZ\<close> of up to 256 kilobytes returns. It fails only when every free block is
  smaller than five quarters of the aligned request, and then changes nothing; otherwise it takes
  the aligned request, and at most 15 bytes more, out of the free memory at an address that is a
  multiple of 8, and writes only into memory that was free.\<close>

theorem jsz_allocate_correct:
  assumes "js_inv s F" "unat sz \<le> 262144"
  shows "\<exists>p t. js_allocate ZOptimizedConfig sz s = Some (p, t) \<and>
    (if p = 0 then t = s \<and> (\<forall>b. js_listed s b \<longrightarrow> 4 * unat (bh_get_size s b) < 5 * js_aligned (unat sz))
     else \<exists>g. js_aligned (unat sz) \<le> g \<and> g < js_aligned (unat sz) + 16 \<and> 8 dvd unat p \<and> span (unat p, g) \<subseteq> F
       \<and> js_inv t (F - span (unat p, g)) \<and> js_range t = js_range s \<and> (\<forall>a. unat a \<notin> F \<longrightarrow> js_peek t a = js_peek s a))"
  by (rule js_allocate_spec [OF assms])

theorem jsz_allocate_correct_witness:
  "\<exists>p t. js_allocate ZOptimizedConfig 100 js_demo = Some (p, t) \<and> (p \<noteq> 0 \<longrightarrow> 4096 \<le> unat p \<and> unat p + 112 \<le> 8192)"
proof -
  have s: "(100 :: u64) \<noteq> 0" "unat (100 :: u64) \<le> 262144" "js_aligned (unat (100 :: u64)) = 112" by (simp_all add: js_aligned_def)
  obtain p t where r: "js_allocate ZOptimizedConfig 100 js_demo = Some (p, t)"
    "p \<noteq> 0 \<longrightarrow> (\<exists>g. 112 \<le> g \<and> span (unat p, g) \<subseteq> {4096 ..< 8192})"
    using jsz_allocate_correct [OF js_demo_inv(1) s(2)] unfolding s(3) by (metis (mono_tags, lifting))
  have "4096 \<le> unat p \<and> unat p + 112 \<le> 8192" if "112 \<le> g" "span (unat p, g) \<subseteq> {4096 ..< 8192}" for g
    using that by (auto simp: span_def)
  then show ?thesis using r by blast
qed



end
