(* ===== verification/JS_Clients.thy ===== *)
theory JS_Clients
  imports JS_Public
begin

text \<open>
  What the clients of \<open>JSMallocZ\<close> get: any sequence of its public operations, one after the other. A client
  may ask for any size up to the largest one, give back any part of what it holds that starts and ends at
  multiples of 8 and has at least 16 bytes (\<open>free\<close> and \<open>free_range\<close>), write into what it holds, and reset the
  allocator, after which nothing is free. \<open>aggregate\<close> is left out: it loses blocks, because \<open>remove_block\<close>
  takes the head of the list and not the block it is given.
\<close>

datatype pool_op = PTake u64 | PGive nat u64 u64 | PWrite nat u64 u64 u64 | PReset

text \<open>\<open>PGive i k n\<close> gives back the \<open>n\<close> bytes from the offset \<open>k\<close> of block \<open>i\<close>; what is left of the block before and
  after them stays with the client. An operation the client is not entitled to does nothing.\<close>

definition part_ok :: "u64 \<times> u64 \<Rightarrow> u64 \<Rightarrow> u64 \<Rightarrow> bool" where
  "part_ok b k n \<longleftrightarrow> unat k + unat n \<le> unat (snd b) \<and> 8 dvd unat (fst b + k) \<and> 8 dvd unat n \<and> 16 \<le> unat n"

fun pool_step ::
  "(u64 \<Rightarrow> 's \<Rightarrow> (u64 \<times> 's) option) \<Rightarrow> (u64 \<Rightarrow> u64 \<Rightarrow> 's \<Rightarrow> 's) \<Rightarrow> (u64 \<Rightarrow> u64 \<Rightarrow> u64 \<Rightarrow> 's \<Rightarrow> 's) \<Rightarrow> ('s \<Rightarrow> 's) \<Rightarrow> pool_op
   \<Rightarrow> 's \<times> (u64 \<times> u64) list \<Rightarrow> 's \<times> (u64 \<times> u64) list" where
  "pool_step alloc release poke reset (PTake sz) (s, H) =
     (case alloc sz s of None \<Rightarrow> (s, H) | Some (p, t) \<Rightarrow> if p = 0 then (t, H) else (t, H @ [(p, sz)]))"
| "pool_step alloc release poke reset (PGive i k n) (s, H) =
     (if i < length H \<and> part_ok (H ! i) k n
      then (release (fst (H ! i) + k) n s,
            take i H @ [(fst (H ! i), k), (fst (H ! i) + k + n, snd (H ! i) - k - n)] @ drop (Suc i) H)
      else (s, H))"
| "pool_step alloc release poke reset (PWrite i k v w) (s, H) =
     (if i < length H \<and> k < snd (H ! i) then (poke (fst (H ! i) + k) v w s, H) else (s, H))"
| "pool_step alloc release poke reset PReset (s, H) = (reset s, H)"

definition pool_run where
  "pool_run alloc release poke reset ops sH = foldl (\<lambda>sH x. pool_step alloc release poke reset x sH) sH ops"

fun request_ok :: "nat \<Rightarrow> pool_op \<Rightarrow> bool" where
  "request_ok largest (PTake sz) \<longleftrightarrow> unat sz \<le> largest"
| "request_ok largest _ \<longleftrightarrow> True"

text \<open>What clients hold lies in the pool and does not overlap.\<close>

definition holds_apart :: "nat \<times> nat \<Rightarrow> (u64 \<times> u64) list \<Rightarrow> bool" where
  "holds_apart P H \<longleftrightarrow> (\<forall>b \<in> set H. span (urange b) \<subseteq> span P)
     \<and> sorted_wrt (\<lambda>a b. span (urange a) \<inter> span (urange b) = {}) H"

lemma part_bytes:
  assumes "part_ok (p, m) k n" "span (unat p, unat m) \<subseteq> span P" "fst P + snd P < 18446744073709551616"
  shows "unat (p + k) = unat p + unat k" "unat (p + k + n) = unat p + unat k + unat n" "unat (m - k - n) = unat m - unat k - unat n"
    "range_ok P (unat (p + k), unat n)" "span (unat (p + k), unat n) \<subseteq> span (unat p, unat m)"
proof -
  have k: "unat k + unat n \<le> unat m" "16 \<le> unat n" using assms(1) by (simp_all add: part_ok_def)
  then have "unat p + (unat m - 1) \<in> span (unat p, unat m)" by (simp add: span_def)
  then have "unat p + (unat m - 1) \<in> span P" using assms(2) by blast
  then have "unat p + (unat m - 1) < 18446744073709551615" using assms(3) by (simp add: span_def)
  then have b: "unat p + unat m < 18446744073709551616" using k by linarith
  show e: "unat (p + k) = unat p + unat k" by (rule unat_add_no_wrap) (use b k in linarith)
  show "unat (p + k + n) = unat p + unat k + unat n" unfolding e [symmetric] by (rule unat_add_no_wrap) (use b k e in linarith)
  have mk: "unat (m - k) = unat m - unat k" by (rule unat_sub) (use k in \<open>simp add: word_le_nat_alt\<close>)
  show "unat (m - k - n) = unat m - unat k - unat n" unfolding mk [symmetric] by (rule unat_sub) (use k mk in \<open>simp add: word_le_nat_alt\<close>)
  show s: "span (unat (p + k), unat n) \<subseteq> span (unat p, unat m)" using k by (auto simp: span_def e)
  then show "range_ok P (unat (p + k), unat n)" using assms(1,2) by (auto simp: range_ok_def part_ok_def)
qed

text \<open>Cutting a part out of one block.\<close>

lemma holds_apart_cut:
  assumes "holds_apart P H" "i < length H" "span a \<union> span b \<subseteq> span (urange (H ! i))" "span a \<inter> span b = {}"
    "urange x = a" "urange y = b"
  shows "holds_apart P (take i H @ [x, y] @ drop (Suc i) H)"
proof -
  have H: "H = take i H @ H ! i # drop (Suc i) H" by (rule id_take_nth_drop [OF assms(2)])
  have "sorted_wrt (\<lambda>a b. span (urange a) \<inter> span (urange b) = {}) (take i H @ H ! i # drop (Suc i) H)"
    "\<forall>b \<in> set (take i H @ H ! i # drop (Suc i) H). span (urange b) \<subseteq> span P"
    using assms(1) unfolding holds_apart_def H [symmetric] by blast+
  then show ?thesis
    using assms(3-6) unfolding holds_apart_def sorted_wrt_append set_append set_simps by (simp add: sorted_wrt_append) blast
qed

context free_list_allocator
begin

definition holder_ok :: "'s \<times> (u64 \<times> u64) list \<Rightarrow> bool" where
  "holder_ok sH \<longleftrightarrow> (\<exists>F. inv (fst sH) F \<and> holds_apart (pool (fst sH)) (snd sH) \<and> (\<forall>b \<in> set (snd sH). span (urange b) \<inter> F = {}))"

lemma pool_step_ok:
  assumes "holder_ok (s, H)" "request_ok largest x"
  shows "holder_ok (pool_step alloc release poke reset x (s, H)) \<and> pool (fst (pool_step alloc release poke reset x (s, H))) = pool s"
proof -
  obtain F where F: "inv s F" "holds_apart (pool s) H" "\<forall>b \<in> set H. span (urange b) \<inter> F = {}"
    using assms(1) by (auto simp: holder_ok_def)
  have inside: "\<forall>b \<in> set H. span (urange b) \<subseteq> span (pool s)" using F(2) by (simp add: holds_apart_def)
  have fits: "fst (pool s) + snd (pool s) < 18446744073709551616" using pool_fits [OF F(1)] by simp
  show ?thesis
  proof (cases x)
    case (PTake sz)
    obtain p t where a: "alloc sz s = Some (p, t)"
      and c: "p = 0 \<and> t = s \<or> (\<exists>g \<ge> unat sz. p \<noteq> 0 \<and> 8 dvd unat p \<and> span (unat p, g) \<subseteq> F \<and> inv t (F - span (unat p, g))
           \<and> pool t = pool s \<and> (\<forall>a. unat a \<notin> F \<longrightarrow> peek t a = peek s a))"
      using alloc_law [OF F(1), of sz] assms(2) PTake by auto
    from c show ?thesis
    proof
      assume "p = 0 \<and> t = s"
      then show ?thesis using assms(1) a PTake by simp
    next
      assume "\<exists>g \<ge> unat sz. p \<noteq> 0 \<and> 8 dvd unat p \<and> span (unat p, g) \<subseteq> F \<and> inv t (F - span (unat p, g))
           \<and> pool t = pool s \<and> (\<forall>a. unat a \<notin> F \<longrightarrow> peek t a = peek s a)"
      then obtain g where g: "unat sz \<le> g" "p \<noteq> 0" "span (unat p, g) \<subseteq> F" "inv t (F - span (unat p, g))" "pool t = pool s"
        by blast
      have sub: "span (urange (p, sz)) \<subseteq> span (unat p, g)" using g(1) by (auto simp: span_def)
      have "holds_apart (pool s) (H @ [(p, sz)])"
        using F(2,3) sub g(3) free_in_pool [OF F(1)] unfolding holds_apart_def by (auto simp: sorted_wrt_append)
      moreover have "\<forall>b \<in> set (H @ [(p, sz)]). span (urange b) \<inter> (F - span (unat p, g)) = {}" using F(3) sub by auto
      ultimately show ?thesis using g(2,4,5) a PTake by (auto simp: holder_ok_def)
    qed
  next
    case (PGive i k n)
    show ?thesis
    proof (cases "i < length H \<and> part_ok (H ! i) k n")
      case True
      obtain p m where b: "H ! i = (p, m)" by (cases "H ! i")
      have i: "i < length H" using True by simp
      have mem: "(p, m) \<in> set H" using nth_mem [OF i] b by simp
      have po: "part_ok (p, m) k n" using True b by simp
      have sp: "span (unat p, unat m) \<subseteq> span (pool s)" using bspec [OF inside mem] by (simp add: urange_def)
      note pb = part_bytes [OF po sp fits]
      let ?H = "take i H @ [(p, k), (p + k + n, m - k - n)] @ drop (Suc i) H"
      have dj: "span (unat p, unat m) \<inter> F = {}" using bspec [OF F(3) mem] by (simp add: urange_def)
      have l: "inv (release (p + k) n s) (F \<union> span (unat (p + k), unat n))" "pool (release (p + k) n s) = pool s"
        using release_law [OF F(1) pb(4)] pb(5) dj by blast+
      have kn: "unat k + unat n \<le> unat m" using po by (simp add: part_ok_def)
      have cut: "holds_apart (pool s) ?H"
        by (rule holds_apart_cut [OF F(2) i, where a = "(unat p, unat k)" and b = "(unat p + unat k + unat n, unat m - unat k - unat n)"])
          (use kn in \<open>auto simp: b span_def urange_def pb(2,3)\<close>)
      have other: "span (urange c) \<inter> span (unat p, unat m) = {}" if "c \<in> set (take i H) \<union> set (drop (Suc i) H)" for c
      proof -
        have "sorted_wrt (\<lambda>a b. span (urange a) \<inter> span (urange b) = {}) (take i H @ H ! i # drop (Suc i) H)"
          using F(2) unfolding holds_apart_def id_take_nth_drop [OF i, symmetric] by blast
        then show ?thesis using that unfolding sorted_wrt_append b by (auto simp: urange_def)
      qed
      have "span (urange c) \<inter> (F \<union> span (unat (p + k), unat n)) = {}" if "c \<in> set ?H" for c
      proof -
        have "c \<in> set (take i H) \<union> set (drop (Suc i) H) \<or> c = (p, k) \<or> c = (p + k + n, m - k - n)" using that by auto
        then consider "c \<in> set (take i H) \<union> set (drop (Suc i) H)" | "c = (p, k)" | "c = (p + k + n, m - k - n)"
          by blast
        then show ?thesis
        proof cases
          case 1
          then have "c \<in> set H" by (auto dest: in_set_takeD in_set_dropD)
          then show ?thesis using other [OF 1] F(3) pb(5) by blast
        next
          case 2
          have "span (unat p, unat k) \<subseteq> span (unat p, unat m)" using kn by (auto simp: span_def)
          then have "span (unat p, unat k) \<inter> F = {}" using dj by blast
          then show ?thesis using 2 by (auto simp: span_def pb(1) urange_def)
        next
          case 3
          have "span (unat p + unat k + unat n, unat m - unat k - unat n) \<subseteq> span (unat p, unat m)" using kn by (auto simp: span_def)
          then have "span (unat p + unat k + unat n, unat m - unat k - unat n) \<inter> F = {}" using dj by blast
          then show ?thesis using 3 by (auto simp: span_def pb(1,2,3) urange_def)
        qed
      qed
      then have "holder_ok (release (p + k) n s, ?H)"
        unfolding holder_ok_def fst_conv snd_conv l(2)
        by (intro exI [of _ "F \<union> span (unat (p + k), unat n)"] conjI ballI l(1) cut)
      moreover have "pool_step alloc release poke reset x (s, H) = (release (p + k) n s, ?H)" using True by (simp add: PGive b)
      ultimately show ?thesis using l(2) by (simp only: fst_conv)
    qed (use PGive assms(1) in auto)
  next
    case (PWrite i k v w)
    show ?thesis
    proof (cases "i < length H \<and> k < snd (H ! i)")
      case True
      obtain p m where b: "H ! i = (p, m)" by (cases "H ! i")
      have mem: "(p, m) \<in> set H" and k: "unat k < unat m" using True nth_mem [of i H] by (simp_all add: b word_less_nat_alt)
      have sp: "span (unat p, unat m) \<subseteq> span (pool s)" using bspec [OF inside mem] by (simp add: urange_def)
      have "unat p + unat k \<in> span (unat p, unat m)" using k by (simp add: span_def)
      then have s: "unat p + unat k \<in> span (pool s)" "unat p + unat k \<notin> F"
        using sp bspec [OF F(3) mem] by (auto simp: urange_def)
      then have "unat p + unat k < 18446744073709551616" using fits by (simp add: span_def)
      then have "unat (p + k) = unat p + unat k" by (rule unat_add_no_wrap)
      then have "unat (p + k) \<notin> F" using s(2) by simp
      then show ?thesis using poke_law [OF F(1), of "p + k" v w] True F PWrite by (auto simp: holder_ok_def b)
    qed (use PWrite assms(1) in auto)
  next
    case PReset
    then show ?thesis using reset_law [OF F(1)] F(2) by (auto simp: holder_ok_def)
  qed
qed

lemma pool_run_ok:
  "holder_ok sH \<Longrightarrow> \<forall>x \<in> set ops. request_ok largest x \<Longrightarrow>
    holder_ok (pool_run alloc release poke reset ops sH) \<and> pool (fst (pool_run alloc release poke reset ops sH)) = pool (fst sH)"
proof (induction ops arbitrary: sH)
  case (Cons x ops)
  obtain s H where sH: "sH = (s, H)" by (cases sH)
  show ?case using pool_step_ok [of s H x] Cons by (simp add: pool_run_def sH)
qed (simp add: pool_run_def)

lemma pool_run_apart:
  assumes "inv s F" "holds_apart (pool s) H" "\<forall>b \<in> set H. span (urange b) \<inter> F = {}" "\<forall>x \<in> set ops. request_ok largest x"
  shows "holds_apart (pool s) (snd (pool_run alloc release poke reset ops (s, H)))"
proof -
  have "holder_ok (s, H)" using assms(1-3) by (auto simp: holder_ok_def)
  from pool_run_ok [OF this assms(4)] show ?thesis by (auto simp: holder_ok_def)
qed

end



end
