(* ===== verification/Z_LiveMap.thy ===== *)
theory Z_LiveMap
  imports Zgc_Prelude
begin

text \<open>
  The live map of a page, \<open>zLiveMap.hpp\<close>, \<open>zLiveMap.inline.hpp\<close>, \<open>zLiveMap.cpp\<close> and the bit pairs of
  \<open>zBitMap.inline.hpp\<close>. Marking information is valid only while the sequence number of the map is
  that of the generation, and the bits of a segment only while its live bit is set: both are reset
  by the first marking that needs them. A bitmap of the virtual machine is a function from indices;
  its searches are parameters, with their documented behaviour as hypotheses. The operations run
  alone here, and waiting for another thread is \<open>None\<close>; \<open>Z_LiveMap_Par\<close> takes them apart.
  The index \<open>-1\<close> that stands for "not found" is \<open>None\<close>.
\<close>

subsection \<open>Searches in bitmaps\<close>

type_synonym bitmap_find = "(nat \<Rightarrow> bool) \<Rightarrow> nat \<Rightarrow> nat \<Rightarrow> nat"
type_synonym 's bit_function = "nat \<Rightarrow> 's \<Rightarrow> bool \<times> 's"
type_synonym 's bitmap_iterate = "(nat \<Rightarrow> bool) \<Rightarrow> 's bit_function \<Rightarrow> nat \<Rightarrow> nat \<Rightarrow> 's \<Rightarrow> bool \<times> 's"

definition finds_first :: "bitmap_find \<Rightarrow> bool" where
  "finds_first f \<longleftrightarrow> (\<forall>B a b. a \<le> b \<longrightarrow> a \<le> f B a b \<and> f B a b \<le> b \<and> (\<forall>i. a \<le> i \<and> i < f B a b \<longrightarrow> \<not> B i)
     \<and> (f B a b < b \<longrightarrow> B (f B a b)))"

definition finds_last :: "bitmap_find \<Rightarrow> bool" where
  "finds_last f \<longleftrightarrow> (\<forall>B a b. a \<le> b \<longrightarrow>
     (f B a b = b \<and> (\<forall>i. a \<le> i \<and> i < b \<longrightarrow> \<not> B i)
      \<or> a \<le> f B a b \<and> f B a b < b \<and> B (f B a b) \<and> (\<forall>i. f B a b < i \<and> i < b \<longrightarrow> \<not> B i)))"

text \<open>The function is applied to the set bits in ascending order until it returns false.\<close>

fun visit :: "'s bit_function \<Rightarrow> nat list \<Rightarrow> 's \<Rightarrow> bool \<times> 's" where
  "visit f [] s = (True, s)"
| "visit f (i # xs) s = (case f i s of (go_on, s') \<Rightarrow> if go_on then visit f xs s' else (False, s'))"

definition iterates :: "'s bitmap_iterate \<Rightarrow> bool" where
  "iterates it \<longleftrightarrow> (\<forall>B f a b s. it B f a b s = visit f (filter B [a ..< b]) s)"

subsection \<open>The map\<close>

definition nsegments :: nat where
  "nsegments = 64"

record z_livemap =
  lm_seqnum :: u32
  lm_live_objects :: u32
  lm_live_bytes :: u64
  segment_live_bits :: u64
  segment_claim_bits :: u64
  lm_bitmap :: "nat \<Rightarrow> bool"
  lm_bitmap_size :: nat
  segment_shift :: nat

definition bitmap_size :: "nat \<Rightarrow> nat" where
  "bitmap_size sz = max sz nsegments * 2"

definition segment_size :: "z_livemap \<Rightarrow> nat" where
  "segment_size m = lm_bitmap_size m div nsegments"

definition exact_log2 :: "nat \<Rightarrow> nat" where
  "exact_log2 n = floorlog 2 n - 1"

text \<open>The bitmap is not cleared when it is made.\<close>

definition livemap_new :: "(nat \<Rightarrow> bool) \<Rightarrow> nat \<Rightarrow> z_livemap" where
  "livemap_new garbage sz = \<lparr>lm_seqnum = 0, lm_live_objects = 0, lm_live_bytes = 0, segment_live_bits = 0,
     segment_claim_bits = 0, lm_bitmap = garbage, lm_bitmap_size = bitmap_size sz,
     segment_shift = exact_log2 (bitmap_size sz div nsegments)\<rparr>"

definition livemap_reset :: "z_livemap \<Rightarrow> z_livemap" where
  "livemap_reset m = m\<lparr>lm_seqnum := 0\<rparr>"

definition livemap_resize :: "(nat \<Rightarrow> bool) \<Rightarrow> nat \<Rightarrow> z_livemap \<Rightarrow> z_livemap" where
  "livemap_resize garbage sz m =
     (let new_bitmap_size = bitmap_size sz
      in if lm_bitmap_size m \<noteq> new_bitmap_size
         then let m = m\<lparr>lm_bitmap := garbage, lm_bitmap_size := new_bitmap_size\<rparr>
              in m\<lparr>segment_shift := exact_log2 (segment_size m)\<rparr>
         else m)"

definition is_marked :: "u32 \<Rightarrow> z_livemap \<Rightarrow> bool" where
  "is_marked seqnum m \<longleftrightarrow> lm_seqnum m = seqnum"

definition is_segment_live :: "z_livemap \<Rightarrow> nat \<Rightarrow> bool" where
  "is_segment_live m segment \<longleftrightarrow> bit (segment_live_bits m) segment"

definition index_to_segment :: "z_livemap \<Rightarrow> nat \<Rightarrow> nat" where
  "index_to_segment m index = drop_bit (segment_shift m) index"

definition segment_start :: "z_livemap \<Rightarrow> nat \<Rightarrow> nat" where
  "segment_start m segment = segment_size m * segment"

definition segment_end :: "z_livemap \<Rightarrow> nat \<Rightarrow> nat" where
  "segment_end m segment = segment_start m segment + segment_size m"

definition livemap_get :: "u32 \<Rightarrow> nat \<Rightarrow> z_livemap \<Rightarrow> bool" where
  "livemap_get seqnum index m \<longleftrightarrow>
     is_marked seqnum m \<and> is_segment_live m (index_to_segment m index) \<and> lm_bitmap m index"

definition seqnum_initializing :: u32 where
  "seqnum_initializing = - 1"

definition livemap_reset_cycle :: "u32 \<Rightarrow> z_livemap \<Rightarrow> z_livemap option" where
  "livemap_reset_cycle seqnum m =
     (if lm_seqnum m = seqnum then Some m
      else if lm_seqnum m = seqnum_initializing then None
      else Some (m\<lparr>lm_live_bytes := 0, lm_live_objects := 0, segment_live_bits := 0, segment_claim_bits := 0,
                   lm_seqnum := seqnum\<rparr>))"

definition reset_segment :: "nat \<Rightarrow> z_livemap \<Rightarrow> z_livemap option" where
  "reset_segment segment m =
     (if bit (segment_claim_bits m) segment
      then if is_segment_live m segment then Some m else None
      else
        let m = m\<lparr>segment_claim_bits := set_bit segment (segment_claim_bits m)\<rparr>;
            start_index = segment_start m segment;
            end_index = segment_end m segment;
            m = m\<lparr>lm_bitmap := (\<lambda>i. if start_index \<le> i \<and> i < end_index then False else lm_bitmap m i)\<rparr>
        in if is_segment_live m segment then None
           else Some (m\<lparr>segment_live_bits := set_bit segment (segment_live_bits m)\<rparr>))"

text \<open>The result, whether live data must be counted, and the bitmap after the pair is set.\<close>

definition par_set_bit_pair :: "nat \<Rightarrow> bool \<Rightarrow> (nat \<Rightarrow> bool) \<Rightarrow> bool \<times> bool \<times> (nat \<Rightarrow> bool)" where
  "par_set_bit_pair i finalizable B =
     (if finalizable then (\<not> B i, \<not> B i, B(i := True))
      else if B i \<and> B (Suc i) then (False, False, B)
      else (True, \<not> B i, B(i := True, Suc i := True)))"

definition livemap_set :: "u32 \<Rightarrow> nat \<Rightarrow> bool \<Rightarrow> z_livemap \<Rightarrow> (bool \<times> bool \<times> z_livemap) option" where
  "livemap_set seqnum index finalizable m =
     (case (if is_marked seqnum m then Some m else livemap_reset_cycle seqnum m) of
        None \<Rightarrow> None
      | Some m \<Rightarrow>
          (let segment = index_to_segment m index
           in case (if is_segment_live m segment then Some m else reset_segment segment m) of
                None \<Rightarrow> None
              | Some m \<Rightarrow>
                  (case par_set_bit_pair index finalizable (lm_bitmap m) of
                     (result, inc_live, B) \<Rightarrow> Some (result, inc_live, m\<lparr>lm_bitmap := B\<rparr>))))"

definition livemap_inc_live :: "u32 \<Rightarrow> u64 \<Rightarrow> z_livemap \<Rightarrow> z_livemap" where
  "livemap_inc_live objects bytes m =
     m\<lparr>lm_live_objects := lm_live_objects m + objects, lm_live_bytes := lm_live_bytes m + bytes\<rparr>"

subsection \<open>Iteration\<close>

definition live_only :: "'s bit_function \<Rightarrow> 's bit_function" where
  "live_only f index s = (if index AND 1 = 0 then f index s else (True, s))"

definition iterate_segment :: "'s bitmap_iterate \<Rightarrow> z_livemap \<Rightarrow> nat \<Rightarrow> 's bit_function \<Rightarrow> 's \<Rightarrow> bool \<times> 's" where
  "iterate_segment it m segment f s = it (lm_bitmap m) f (segment_start m segment) (segment_end m segment) s"

definition first_live_segment :: "bitmap_find \<Rightarrow> z_livemap \<Rightarrow> nat" where
  "first_live_segment ff m = ff (bit (segment_live_bits m)) 0 nsegments"

definition next_live_segment :: "bitmap_find \<Rightarrow> z_livemap \<Rightarrow> nat \<Rightarrow> nat" where
  "next_live_segment ff m segment = ff (bit (segment_live_bits m)) (segment + 1) nsegments"

partial_function (option) iterate_segments ::
  "bitmap_find \<Rightarrow> 's bitmap_iterate \<Rightarrow> z_livemap \<Rightarrow> 's bit_function \<Rightarrow> nat \<Rightarrow> 's \<Rightarrow> 's option" where
  "iterate_segments ff it m f segment s =
     (if segment < nsegments
      then iterate_segments ff it m f (next_live_segment ff m segment) (snd (iterate_segment it m segment f s))
      else Some s)"

definition iterate_forced :: "bitmap_find \<Rightarrow> 's bitmap_iterate \<Rightarrow> z_livemap \<Rightarrow> 's bit_function \<Rightarrow> 's \<Rightarrow> 's option" where
  "iterate_forced ff it m f s = iterate_segments ff it m (live_only f) (first_live_segment ff m) s"

definition livemap_iterate ::
  "bitmap_find \<Rightarrow> 's bitmap_iterate \<Rightarrow> u32 \<Rightarrow> z_livemap \<Rightarrow> 's bit_function \<Rightarrow> 's \<Rightarrow> 's option" where
  "livemap_iterate ff it seqnum m f s =
     (if \<not> is_marked seqnum m then Some s
      else iterate_segments ff it m (live_only f) (first_live_segment ff m) s)"

subsection \<open>Finding the start of an object\<close>

definition find_base_bit_in_segment :: "bitmap_find \<Rightarrow> z_livemap \<Rightarrow> nat \<Rightarrow> nat \<Rightarrow> nat option" where
  "find_base_bit_in_segment fl m start index =
     (let end = index + 1; b = fl (lm_bitmap m) start end
      in if b = end then None else Some (b - b mod 2))"

fun find_base_bit_before :: "bitmap_find \<Rightarrow> z_livemap \<Rightarrow> nat \<Rightarrow> nat option" where
  "find_base_bit_before fl m 0 = None"
| "find_base_bit_before fl m (Suc segment) =
     (if is_segment_live m segment
      then case find_base_bit_in_segment fl m (segment_start m segment) (segment_end m segment - 1) of
             Some res \<Rightarrow> Some res
           | None \<Rightarrow> find_base_bit_before fl m segment
      else find_base_bit_before fl m segment)"

definition find_base_bit :: "bitmap_find \<Rightarrow> z_livemap \<Rightarrow> nat \<Rightarrow> nat option" where
  "find_base_bit fl m index =
     (let start_segment = index_to_segment m index
      in case (if is_segment_live m start_segment
               then find_base_bit_in_segment fl m (segment_start m start_segment) index else None) of
           Some res \<Rightarrow> Some res
         | None \<Rightarrow> find_base_bit_before fl m start_segment)"

subsection \<open>Shape\<close>

definition livemap_shape :: "z_livemap \<Rightarrow> bool" where
  "livemap_shape m \<longleftrightarrow> 1 \<le> segment_shift m \<and> lm_bitmap_size m = nsegments * 2 ^ segment_shift m"

text \<open>No thread is in the middle of a reset.\<close>

definition livemap_quiet :: "u32 \<Rightarrow> z_livemap \<Rightarrow> bool" where
  "livemap_quiet seqnum m \<longleftrightarrow> seqnum \<noteq> seqnum_initializing \<and> lm_seqnum m \<noteq> seqnum_initializing
     \<and> (lm_seqnum m = seqnum \<longrightarrow> segment_claim_bits m = segment_live_bits m)"

lemma segment_size_shape: "livemap_shape m \<Longrightarrow> segment_size m = 2 ^ segment_shift m"
  by (simp add: livemap_shape_def segment_size_def nsegments_def)

lemma segment_bounds:
  assumes "livemap_shape m"
  shows "segment_start m k \<le> i \<and> i < segment_end m k \<longleftrightarrow> index_to_segment m i = k"
proof -
  let ?n = "2 ^ segment_shift m :: nat"
  have "?n * k \<le> i \<and> i < ?n * k + ?n \<longleftrightarrow> i div ?n = k"
  proof
    assume "?n * k \<le> i \<and> i < ?n * k + ?n"
    then show "i div ?n = k" by (intro div_nat_eqI) simp_all
  next
    assume "i div ?n = k"
    then show "?n * k \<le> i \<and> i < ?n * k + ?n"
      using times_div_less_eq_dividend [of ?n i] dividend_less_times_div [of ?n i] by auto
  qed
  then show ?thesis
    by (simp add: segment_start_def segment_end_def segment_size_shape [OF assms] index_to_segment_def drop_bit_eq_div)
qed

lemma segment_less: "livemap_shape m \<Longrightarrow> i < lm_bitmap_size m \<Longrightarrow> index_to_segment m i < 64"
  by (simp add: livemap_shape_def index_to_segment_def drop_bit_eq_div nsegments_def less_mult_imp_div_less)

lemma segment_pair:
  assumes "livemap_shape m" "even i"
  shows "index_to_segment m (Suc i) = index_to_segment m i"
proof -
  obtain k where k: "segment_shift m = Suc k" using assms(1) by (cases "segment_shift m") (auto simp: livemap_shape_def)
  then show ?thesis using assms(2) by (auto simp: index_to_segment_def drop_bit_Suc elim!: evenE)
qed

lemma shape_new:
  assumes "size_of = 2 ^ k"
  shows "livemap_shape (livemap_new garbage size_of)"
proof -
  have f: "floorlog 2 (2 ^ j) = Suc j" for j :: nat
    using floorlog_power [of 1 2 j] floorlog_eq_zero_iff compute_floorlog [of 2 1] by simp
  have e: "bitmap_size size_of = 64 * 2 ^ (max 6 k - 5)"
  proof (cases "k \<le> 6")
    case True
    then have "(2::nat) ^ k \<le> 2 ^ 6" by (intro power_increasing) simp_all
    then show ?thesis using True assms by (simp add: bitmap_size_def nsegments_def max_def)
  next
    case False
    then have "(2::nat) ^ 6 \<le> 2 ^ k" by (intro power_increasing) simp_all
    moreover have "k = (k - 5) + 5" using False by simp
    then have "(2::nat) ^ k = 2 ^ (k - 5) * 2 ^ 5" by (metis power_add)
    ultimately show ?thesis using False assms by (simp add: bitmap_size_def nsegments_def max_def)
  qed
  then show ?thesis
    by (simp add: livemap_shape_def livemap_new_def nsegments_def exact_log2_def f)
qed

subsection \<open>Marking\<close>

definition marks :: "u32 \<Rightarrow> z_livemap \<Rightarrow> nat set" where
  "marks seqnum m = {i. i < lm_bitmap_size m \<and> livemap_get seqnum i m}"

text \<open>The second bit of a pair is never set alone.\<close>

definition pairs_ok :: "z_livemap \<Rightarrow> bool" where
  "pairs_ok m \<longleftrightarrow> (\<forall>i. even i \<longrightarrow> is_segment_live m (index_to_segment m i) \<longrightarrow> lm_bitmap m (Suc i) \<longrightarrow> lm_bitmap m i)"

lemma set_bit_word: "k < 64 \<Longrightarrow> bit (set_bit k (w :: u64)) j \<longleftrightarrow> j = k \<or> bit w j"
  by (auto simp: bit_set_bit_iff)

text \<open>The first part of \<open>set\<close>: the map belongs to the current cycle and the segment is live.\<close>

lemma reset_cycle_quiet:
  assumes "livemap_shape m" "livemap_quiet seqnum m"
  obtains m' where "(if is_marked seqnum m then Some m else livemap_reset_cycle seqnum m) = Some m'"
    "livemap_shape m'" "livemap_quiet seqnum m'" "is_marked seqnum m'" "marks seqnum m' = marks seqnum m"
    "segment_shift m' = segment_shift m" "lm_bitmap_size m' = lm_bitmap_size m" "pairs_ok m \<longrightarrow> pairs_ok m'"
proof (cases "is_marked seqnum m")
  case True
  then show thesis using that [of m] assms by simp
next
  case False
  let ?m = "m\<lparr>lm_live_bytes := 0, lm_live_objects := 0, segment_live_bits := 0, segment_claim_bits := 0, lm_seqnum := seqnum\<rparr>"
  have "marks seqnum ?m = {}" "marks seqnum m = {}"
    using False by (simp_all add: marks_def livemap_get_def is_segment_live_def)
  then show thesis
    using that [of ?m] False assms
    by (simp add: livemap_reset_cycle_def is_marked_def livemap_quiet_def livemap_shape_def pairs_ok_def is_segment_live_def)
qed

lemma reset_segment_quiet:
  assumes "livemap_shape m" "livemap_quiet seqnum m" "is_marked seqnum m" "segment < 64"
  obtains m' where "(if is_segment_live m segment then Some m else reset_segment segment m) = Some m'"
    "livemap_shape m'" "livemap_quiet seqnum m'" "is_marked seqnum m'" "marks seqnum m' = marks seqnum m"
    "is_segment_live m' segment" "segment_shift m' = segment_shift m" "lm_bitmap_size m' = lm_bitmap_size m"
    "pairs_ok m \<longrightarrow> pairs_ok m'"
proof (cases "is_segment_live m segment")
  case True
  then show thesis using that [of m] assms by simp
next
  case False
  have cl: "segment_claim_bits m = segment_live_bits m" using assms(2,3) by (simp add: livemap_quiet_def is_marked_def)
  let ?B = "\<lambda>i. if segment_start m segment \<le> i \<and> i < segment_end m segment then False else lm_bitmap m i"
  let ?m = "m\<lparr>segment_claim_bits := set_bit segment (segment_claim_bits m), lm_bitmap := ?B,
    segment_live_bits := set_bit segment (segment_live_bits m)\<rparr>"
  have r: "reset_segment segment m = Some ?m"
    using False by (simp add: reset_segment_def Let_def cl is_segment_live_def segment_start_def segment_end_def segment_size_def)
  have get: "livemap_get seqnum i ?m \<longleftrightarrow> livemap_get seqnum i m" for i
    using False segment_bounds [OF assms(1), of segment i] set_bit_word [OF assms(4)]
    by (auto simp: livemap_get_def is_marked_def is_segment_live_def index_to_segment_def)
  then have "marks seqnum ?m = marks seqnum m" by (simp add: marks_def)
  moreover have "pairs_ok ?m" if "pairs_ok m"
    unfolding pairs_ok_def
  proof (intro allI impI)
    fix i assume i: "even i" "is_segment_live ?m (index_to_segment ?m i)" "lm_bitmap ?m (Suc i)"
    have pr: "index_to_segment m (Suc i) = index_to_segment m i" by (rule segment_pair [OF assms(1) i(1)])
    have ns: "index_to_segment m i \<noteq> segment"
      using i(3) pr segment_bounds [OF assms(1), of segment "Suc i"] by (auto split: if_splits)
    then have "is_segment_live m (index_to_segment m i)"
      using i(2) set_bit_word [OF assms(4)] by (simp add: is_segment_live_def index_to_segment_def)
    then have "lm_bitmap m i" using that i(1,3) by (auto simp: pairs_ok_def split: if_splits)
    then show "lm_bitmap ?m i" using ns segment_bounds [OF assms(1), of segment i] by simp
  qed
  ultimately show thesis
    using that [of ?m] False r assms cl set_bit_word [OF assms(4)]
    by (simp add: livemap_quiet_def livemap_shape_def is_marked_def is_segment_live_def)
qed

lemma livemap_set_marks:
  assumes "livemap_shape m" "livemap_quiet seqnum m" "i < lm_bitmap_size m" "even i"
  obtains result inc_live m' where "livemap_set seqnum i finalizable m = Some (result, inc_live, m')"
    "livemap_shape m'" "livemap_quiet seqnum m'" "is_marked seqnum m'" "lm_bitmap_size m' = lm_bitmap_size m"
    "marks seqnum m' = marks seqnum m \<union> (if finalizable then {i} else {i, Suc i})"
    "result \<longleftrightarrow> marks seqnum m' \<noteq> marks seqnum m" "inc_live \<longleftrightarrow> i \<notin> marks seqnum m"
    "pairs_ok m \<longrightarrow> pairs_ok m'"
proof -
  obtain m1 where m1: "(if is_marked seqnum m then Some m else livemap_reset_cycle seqnum m) = Some m1"
    "livemap_shape m1" "livemap_quiet seqnum m1" "is_marked seqnum m1" "marks seqnum m1 = marks seqnum m"
    "segment_shift m1 = segment_shift m" "lm_bitmap_size m1 = lm_bitmap_size m" "pairs_ok m \<longrightarrow> pairs_ok m1"
    by (rule reset_cycle_quiet [OF assms(1,2)])
  let ?k = "index_to_segment m1 i"
  have k: "?k < 64" using segment_less [OF m1(2)] assms(3) m1(7) by simp
  obtain m2 where m2: "(if is_segment_live m1 ?k then Some m1 else reset_segment ?k m1) = Some m2"
    "livemap_shape m2" "livemap_quiet seqnum m2" "is_marked seqnum m2" "marks seqnum m2 = marks seqnum m1"
    "is_segment_live m2 ?k" "segment_shift m2 = segment_shift m1" "lm_bitmap_size m2 = lm_bitmap_size m1"
    "pairs_ok m1 \<longrightarrow> pairs_ok m2"
    by (rule reset_segment_quiet [OF m1(2,3,4) k])
  have seg: "index_to_segment m2 i = ?k" "index_to_segment m2 (Suc i) = ?k"
    using segment_pair [OF m2(2) assms(4)] by (simp_all add: index_to_segment_def m2(7))
  have sz: "i < lm_bitmap_size m2" using assms(3) m1(7) m2(8) by simp
  have "even (lm_bitmap_size m2)" using m2(2) by (auto simp: livemap_shape_def nsegments_def)
  then have sz1: "Suc i < lm_bitmap_size m2" using sz assms(4) by (metis Suc_lessI even_Suc)
  let ?P = "if finalizable then {i} else {i, Suc i}"
  obtain result inc_live B where p: "par_set_bit_pair i finalizable (lm_bitmap m2) = (result, inc_live, B)"
    by (cases "par_set_bit_pair i finalizable (lm_bitmap m2)") auto
  have B: "B j \<longleftrightarrow> j \<in> ?P \<or> lm_bitmap m2 j" for j
    using p by (auto simp: par_set_bit_pair_def split: if_splits)
  let ?m = "m2\<lparr>lm_bitmap := B\<rparr>"
  have in2: "j \<in> marks seqnum m2 \<longleftrightarrow> lm_bitmap m2 j" if "j = i \<or> j = Suc i" for j
    using that m2(4,6) seg sz sz1 by (auto simp: marks_def livemap_get_def)
  have mk: "marks seqnum ?m = marks seqnum m2 \<union> ?P"
    using m2(4,6) seg sz sz1 B
    by (auto simp: marks_def livemap_get_def is_marked_def is_segment_live_def index_to_segment_def split: if_splits)
  have set: "livemap_set seqnum i finalizable m = Some (result, inc_live, ?m)"
    using m1(1) m2(1) by (simp add: livemap_set_def Let_def p)
  have inc: "inc_live \<longleftrightarrow> i \<notin> marks seqnum m2" using p in2 by (auto simp: par_set_bit_pair_def split: if_splits)
  have "result \<longleftrightarrow> \<not> ?P \<subseteq> marks seqnum m2" using p in2 by (auto simp: par_set_bit_pair_def split: if_splits)
  then have res: "result \<longleftrightarrow> marks seqnum ?m \<noteq> marks seqnum m2" unfolding mk by blast
  have "pairs_ok ?m" if "pairs_ok m"
    unfolding pairs_ok_def
  proof (intro allI impI)
    fix j assume j: "even j" "is_segment_live ?m (index_to_segment ?m j)" "lm_bitmap ?m (Suc j)"
    have "Suc j \<noteq> i" using j(1) assms(4) by auto
    then have "j = i \<or> lm_bitmap m2 (Suc j)" using j(3) B by (auto split: if_splits)
    then show "lm_bitmap ?m j"
      using m2(9) m1(8) that j(1,2) B
      by (auto simp: pairs_ok_def is_segment_live_def index_to_segment_def split: if_splits)
  qed
  then show thesis
    by (intro that [OF set]) (use m1(5,7) m2(2-5,8) mk inc res in \<open>simp_all add: livemap_shape_def livemap_quiet_def is_marked_def\<close>)
qed

subsection \<open>Iteration\<close>

text \<open>The first bits of the pairs that are set in a live segment, in ascending order.\<close>

definition live_bit :: "z_livemap \<Rightarrow> nat \<Rightarrow> bool" where
  "live_bit m i \<longleftrightarrow> even i \<and> is_segment_live m (index_to_segment m i) \<and> lm_bitmap m i"

definition live_indices :: "z_livemap \<Rightarrow> nat list" where
  "live_indices m = filter (live_bit m) [0 ..< lm_bitmap_size m]"

lemma visit_always:
  assumes "\<And>i s. fst (f i s)"
  shows "visit f xs s = (True, fold (\<lambda>i s. snd (f i s)) xs s)"
  using assms by (induction xs arbitrary: s) (auto simp: split_beta)

lemma live_only_fold:
  "fold (\<lambda>i s. snd (live_only f i s)) xs s = fold (\<lambda>i s. snd (f i s)) (filter even xs) s"
proof -
  have "i AND 1 = 0 \<longleftrightarrow> even i" for i :: nat by (simp add: and_one_eq even_iff_mod_2_eq_zero)
  then show ?thesis by (induction xs arbitrary: s) (auto simp: live_only_def)
qed

lemma upt_split: "a \<le> b \<Longrightarrow> b \<le> c \<Longrightarrow> [a ..< c] = [a ..< b] @ [b ..< c :: nat]"
  using upt_add_eq_append [of a b "c - b"] by simp

lemma iterate_segments_all:
  assumes shape: "livemap_shape m" and ff: "finds_first ff" and it: "iterates it" and go: "\<And>i s. fst (f i s)" and j: "j \<le> 64"
  shows "iterate_segments ff it m (live_only f) (ff (bit (segment_live_bits m)) j nsegments) s =
    Some (fold (\<lambda>i s. snd (f i s)) (filter (live_bit m) [segment_start m j ..< lm_bitmap_size m]) s)"
  using j
proof (induction "64 - j" arbitrary: j s rule: less_induct)
  case less
  let ?k = "ff (bit (segment_live_bits m)) j nsegments"
  have "j \<le> ?k \<and> ?k \<le> nsegments \<and> (\<forall>i. j \<le> i \<and> i < ?k \<longrightarrow> \<not> bit (segment_live_bits m) i)
    \<and> (?k < nsegments \<longrightarrow> bit (segment_live_bits m) ?k)"
    using ff [unfolded finds_first_def, rule_format, of j nsegments "bit (segment_live_bits m)"] less.prems
    by (auto simp: nsegments_def)
  then have k: "j \<le> ?k" "?k \<le> nsegments" "\<And>i. j \<le> i \<Longrightarrow> i < ?k \<Longrightarrow> \<not> is_segment_live m i"
    "?k < nsegments \<Longrightarrow> is_segment_live m ?k" by (auto simp: is_segment_live_def)
  have mono: "segment_start m a \<le> segment_start m b" if "a \<le> b" for a b using that by (simp add: segment_start_def)
  have total: "segment_start m nsegments = lm_bitmap_size m"
    using shape segment_size_shape [OF shape] by (simp add: segment_start_def livemap_shape_def)
  have gap: "filter (live_bit m) [segment_start m j ..< segment_start m ?k] = []"
  proof -
    have "\<not> live_bit m i" if i: "segment_start m j \<le> i" "i < segment_start m ?k" for i
    proof -
      let ?g = "index_to_segment m i"
      have b: "segment_start m ?g \<le> i" "i < segment_end m ?g" using segment_bounds [OF shape, of ?g i] by simp_all
      have "\<not> ?g < j" using mono [of "Suc ?g" j] b(2) i(1) by (fastforce simp: segment_end_def segment_start_def)
      moreover have "?g < ?k" using mono [of ?k ?g] b(1) i(2) by fastforce
      ultimately show ?thesis using k(3) by (simp add: live_bit_def)
    qed
    then show ?thesis by (auto simp: filter_empty_conv)
  qed
  show ?case
  proof (cases "?k < nsegments")
    case False
    then have "?k = nsegments" using k(2) by simp
    then show ?thesis using gap total by (simp add: iterate_segments.simps)
  next
    case True
    have lv: "is_segment_live m ?k" by (rule k(4) [OF True])
    let ?S = "[segment_start m ?k ..< segment_end m ?k]"
    have "live_bit m i \<longleftrightarrow> lm_bitmap m i \<and> even i" if "i \<in> set ?S" for i
      using that segment_bounds [OF shape, of ?k i] lv by (auto simp: live_bit_def)
    then have fl: "filter even (filter (lm_bitmap m) ?S) = filter (live_bit m) ?S" by (auto intro: filter_cong)
    have seg: "snd (iterate_segment it m ?k (live_only f) s) = fold (\<lambda>i s. snd (f i s)) (filter (live_bit m) ?S) s"
    proof -
      have lo: "fst (live_only f i s)" for i s by (simp add: live_only_def go)
      show ?thesis
        unfolding iterate_segment_def it [unfolded iterates_def, rule_format] visit_always [of "live_only f", OF lo] snd_conv
          live_only_fold fl by (rule refl)
    qed
    have e: "segment_end m ?k = segment_start m (?k + 1)" by (simp add: segment_end_def segment_start_def)
    have "segment_start m j \<le> segment_start m ?k" "segment_start m ?k \<le> segment_end m ?k" "segment_end m ?k \<le> lm_bitmap_size m"
      using mono k(1) mono [of "?k + 1" nsegments] True total by (simp_all add: e mono)
    then have split: "[segment_start m j ..< lm_bitmap_size m] =
      [segment_start m j ..< segment_start m ?k] @ ?S @ [segment_start m (?k + 1) ..< lm_bitmap_size m]"
      using upt_split [of "segment_start m j" "segment_start m ?k" "lm_bitmap_size m"]
        upt_split [of "segment_start m ?k" "segment_end m ?k" "lm_bitmap_size m"] by (simp add: e)
    have le: "?k + 1 \<le> 64" "64 - (?k + 1) < 64 - j" using True k(1) by (simp_all add: nsegments_def)
    show ?thesis
      using True less.hyps [OF le(2,1)] by (subst iterate_segments.simps) (simp add: seg next_live_segment_def split gap)
  qed
qed

lemma iterate_forced_all:
  assumes "livemap_shape m" "finds_first ff" "iterates it" "\<And>i s. fst (f i s)"
  shows "iterate_forced ff it m f s = Some (fold (\<lambda>i s. snd (f i s)) (live_indices m) s)"
  using iterate_segments_all [OF assms, where j = 0 and s = s]
  by (simp add: iterate_forced_def first_live_segment_def live_indices_def segment_start_def)

lemma live_indices_marks:
  assumes "is_marked seqnum m"
  shows "set (live_indices m) = {i \<in> marks seqnum m. even i}"
  using assms by (auto simp: live_indices_def live_bit_def marks_def livemap_get_def)

subsection \<open>The start of an object\<close>

definition last_live :: "z_livemap \<Rightarrow> nat \<Rightarrow> nat \<Rightarrow> nat option \<Rightarrow> bool" where
  "last_live m a b r \<longleftrightarrow> (case r of
     None \<Rightarrow> \<forall>i. a \<le> i \<and> i < b \<longrightarrow> \<not> live_bit m i
   | Some j \<Rightarrow> a \<le> j \<and> j < b \<and> live_bit m j \<and> (\<forall>i. j < i \<and> i < b \<longrightarrow> \<not> live_bit m i))"

lemma last_live_extend:
  assumes "last_live m a b r" "c \<le> a" "a \<le> b" "r = None \<Longrightarrow> last_live m c a r'"
  shows "last_live m c b (case r of Some j \<Rightarrow> Some j | None \<Rightarrow> r')"
proof (cases r)
  case None
  have hi: "\<not> live_bit m i" if "a \<le> i" "i < b" for i using assms(1) None that by (simp add: last_live_def)
  have lo: "last_live m c a r'" by (rule assms(4) [OF None])
  show ?thesis
  proof (cases r')
    case None
    then have "\<not> live_bit m i" if "c \<le> i" "i < b" for i
      using that hi [of i] lo by (cases "i < a") (simp_all add: last_live_def)
    then show ?thesis using None \<open>r = None\<close> by (simp add: last_live_def)
  next
    case (Some j)
    then have "\<not> live_bit m i" if "j < i" "i < b" for i
      using that hi [of i] lo by (cases "i < a") (simp_all add: last_live_def)
    then show ?thesis using lo Some \<open>r = None\<close> assms(3) by (simp add: last_live_def)
  qed
qed (use assms(1,2) in \<open>simp add: last_live_def\<close>)

lemma pair_base:
  fixes s b :: nat
  assumes "even s" "s \<le> b"
  shows "s \<le> b - b mod 2" "even (b - b mod 2)" "b = b - b mod 2 \<or> b = Suc (b - b mod 2)"
  using assms by presburger+

lemma find_in_segment:
  assumes shape: "livemap_shape m" and fl: "finds_last fl" and pairs: "pairs_ok m" and lv: "is_segment_live m k"
    and i: "segment_start m k \<le> i" "i < segment_end m k"
  shows "last_live m (segment_start m k) (i + 1) (find_base_bit_in_segment fl m (segment_start m k) i)"
proof -
  define s where "s = segment_start m k"
  define b where "b = fl (lm_bitmap m) s (i + 1)"
  define r where "r = b - b mod 2"
  have res: "find_base_bit_in_segment fl m s i = (if b = i + 1 then None else Some r)"
    by (simp add: find_base_bit_in_segment_def b_def r_def Let_def)
  have si: "s \<le> i" using i(1) by (simp add: s_def)
  have b: "b = i + 1 \<and> (\<forall>x. s \<le> x \<and> x < i + 1 \<longrightarrow> \<not> lm_bitmap m x)
      \<or> s \<le> b \<and> b < i + 1 \<and> lm_bitmap m b \<and> (\<forall>x. b < x \<and> x < i + 1 \<longrightarrow> \<not> lm_bitmap m x)"
    using fl [unfolded finds_last_def, rule_format, of s "i + 1" "lm_bitmap m"] si by (simp add: b_def)
  show ?thesis
  proof (cases "b = i + 1")
    case True
    then have "\<forall>x. s \<le> x \<and> x < i + 1 \<longrightarrow> \<not> lm_bitmap m x" using b by auto
    then show ?thesis using True res by (simp add: last_live_def live_bit_def flip: s_def)
  next
    case False
    then have c: "s \<le> b" "b < i + 1" "lm_bitmap m b" "\<And>x. b < x \<Longrightarrow> x < i + 1 \<Longrightarrow> \<not> lm_bitmap m x" using b by auto
    have "even s" using shape segment_size_shape [OF shape] by (auto simp: s_def segment_start_def livemap_shape_def)
    from pair_base [OF this c(1), folded r_def] have r: "s \<le> r" "even r" "b = r \<or> b = Suc r" by simp_all
    have "r \<le> b" by (simp add: r_def)
    then have ri: "r < i + 1" using c(2) by simp
    have "r < segment_end m k" using ri i(2) by linarith
    then have seg: "index_to_segment m r = k" using segment_bounds [OF shape, of k r] r(1) by (simp add: s_def)
    have "lm_bitmap m r" using r(3) c(3) pairs r(2) lv seg unfolding pairs_ok_def by metis
    then have lr: "live_bit m r" using r(2) lv seg by (simp add: live_bit_def)
    have "\<not> live_bit m x" if x: "r < x" "x < i + 1" for x
    proof (cases "x = b")
      case True
      then have "x = Suc r" using r(3) x(1) by auto
      then show ?thesis using r(2) by (simp add: live_bit_def)
    next
      case False
      then have "b < x" using x(1) r(3) by auto
      then show ?thesis using c(4) x(2) by (simp add: live_bit_def)
    qed
    then show ?thesis using False res r(1) ri lr by (simp add: last_live_def flip: s_def)
  qed
qed

lemma dead_segment:
  assumes "livemap_shape m" "\<not> is_segment_live m k" "b \<le> segment_end m k"
  shows "last_live m (segment_start m k) b None"
proof -
  have "\<not> live_bit m i" if "segment_start m k \<le> i" "i < b" for i
  proof -
    have "index_to_segment m i = k" using segment_bounds [OF assms(1), of k i] that assms(3) by simp
    then show ?thesis using assms(2) by (simp add: live_bit_def)
  qed
  then show ?thesis by (simp add: last_live_def)
qed

lemma find_before:
  assumes "livemap_shape m" "finds_last fl" "pairs_ok m"
  shows "last_live m 0 (segment_start m k) (find_base_bit_before fl m k)"
proof (induction k)
  case 0
  then show ?case by (simp add: last_live_def segment_start_def)
next
  case (Suc k)
  have e: "segment_start m (Suc k) = segment_end m k" by (simp add: segment_end_def segment_start_def)
  have pos: "segment_start m k < segment_end m k" using segment_size_shape [OF assms(1)] by (simp add: segment_end_def)
  show ?case
  proof (cases "is_segment_live m k")
    case True
    let ?r = "find_base_bit_in_segment fl m (segment_start m k) (segment_end m k - 1)"
    have "last_live m (segment_start m k) (segment_end m k) ?r"
      using find_in_segment [OF assms True, of "segment_end m k - 1"] pos by simp
    from last_live_extend [OF this, of 0 "find_base_bit_before fl m k"] show ?thesis
      using Suc True pos by (simp add: e split: option.splits)
  next
    case False
    from last_live_extend [OF dead_segment [OF assms(1) False order_refl], of 0 "find_base_bit_before fl m k"] show ?thesis
      using Suc False pos by (simp add: e)
  qed
qed

lemma find_base_bit_last:
  assumes "livemap_shape m" "finds_last fl" "pairs_ok m"
  shows "last_live m 0 (i + 1) (find_base_bit fl m i)"
proof -
  let ?k = "index_to_segment m i"
  have b: "segment_start m ?k \<le> i" "i < segment_end m ?k" using segment_bounds [OF assms(1), of ?k i] by simp_all
  have "last_live m (segment_start m ?k) (i + 1)
    (if is_segment_live m ?k then find_base_bit_in_segment fl m (segment_start m ?k) i else None)"
    using find_in_segment [OF assms _ b] dead_segment [OF assms(1), of ?k "i + 1"] b(2) by simp
  from last_live_extend [OF this, of 0 "find_base_bit_before fl m ?k"] show ?thesis
    using find_before [OF assms, of ?k] b(1) by (simp add: find_base_bit_def Let_def split: option.splits)
qed

subsection \<open>Properties\<close>

text \<open>Searches written out, for use at concrete inputs.\<close>

definition first_set :: bitmap_find where
  "first_set B a b = (case filter B [a ..< b] of [] \<Rightarrow> b | i # _ \<Rightarrow> i)"

definition last_set :: bitmap_find where
  "last_set B a b = (case rev (filter B [a ..< b]) of [] \<Rightarrow> b | i # _ \<Rightarrow> i)"

definition visit_set :: "'s bitmap_iterate" where
  "visit_set B f a b s = visit f (filter B [a ..< b]) s"

lemma visit_set_iterates: "iterates visit_set"
  by (simp add: iterates_def visit_set_def)

lemma first_set_finds: "finds_first first_set"
  unfolding finds_first_def
proof (intro allI impI)
  fix B :: "nat \<Rightarrow> bool" and a b :: nat assume "a \<le> b"
  show "a \<le> first_set B a b \<and> first_set B a b \<le> b \<and> (\<forall>i. a \<le> i \<and> i < first_set B a b \<longrightarrow> \<not> B i)
    \<and> (first_set B a b < b \<longrightarrow> B (first_set B a b))"
  proof (cases "filter B [a ..< b]")
    case Nil
    then have "\<forall>i. a \<le> i \<and> i < b \<longrightarrow> \<not> B i" by (auto simp: filter_empty_conv)
    then show ?thesis using Nil \<open>a \<le> b\<close> by (simp add: first_set_def)
  next
    case (Cons i xs)
    then have "i \<in> set (filter B [a ..< b])" by simp
    then have i: "a \<le> i" "i < b" "B i" by auto
    have "sorted (i # xs)" using sorted_filter [of id "[a ..< b]" B] by (simp flip: Cons)
    then have "\<forall>j \<in> set (filter B [a ..< b]). i \<le> j" by (simp add: Cons)
    then have "\<forall>j. a \<le> j \<and> j < i \<longrightarrow> \<not> B j" using i by fastforce
    then show ?thesis using i Cons by (simp add: first_set_def)
  qed
qed

lemma last_set_finds: "finds_last last_set"
  unfolding finds_last_def
proof (intro allI impI)
  fix B :: "nat \<Rightarrow> bool" and a b :: nat assume "a \<le> b"
  show "last_set B a b = b \<and> (\<forall>i. a \<le> i \<and> i < b \<longrightarrow> \<not> B i)
    \<or> a \<le> last_set B a b \<and> last_set B a b < b \<and> B (last_set B a b) \<and> (\<forall>i. last_set B a b < i \<and> i < b \<longrightarrow> \<not> B i)"
  proof (cases "rev (filter B [a ..< b])")
    case Nil
    then have "filter B [a ..< b] = []" by simp
    then show ?thesis using Nil by (auto simp: last_set_def filter_empty_conv)
  next
    case (Cons i xs)
    then have f: "filter B [a ..< b] = rev xs @ [i]" by (metis rev.simps(2) rev_rev_ident)
    then have "i \<in> set (filter B [a ..< b])" by simp
    then have i: "a \<le> i" "i < b" "B i" by auto
    have "sorted (rev xs @ [i])" using sorted_filter [of id "[a ..< b]" B] by (simp flip: f)
    then have "\<forall>j \<in> set (filter B [a ..< b]). j \<le> i" by (simp add: f sorted_append)
    then have "j \<le> i" if "a \<le> j" "j < b" "B j" for j using that by simp
    then have "\<forall>j. i < j \<and> j < b \<longrightarrow> \<not> B j" using i(1) by (meson leD le_trans less_imp_le)
    then show ?thesis using i Cons by (simp add: last_set_def)
  qed
qed

definition livemap_demo :: z_livemap where
  "livemap_demo = livemap_new (\<lambda>_. True) 1024"

lemma livemap_demo_ok: "livemap_shape livemap_demo" "livemap_quiet 7 livemap_demo" "pairs_ok livemap_demo"
  "marks 7 livemap_demo = {}" "lm_bitmap_size livemap_demo = 2048"
proof -
  show "livemap_shape livemap_demo" unfolding livemap_demo_def by (rule shape_new [of _ 10]) simp
  show "livemap_quiet 7 livemap_demo" "pairs_ok livemap_demo" "marks 7 livemap_demo = {}" "lm_bitmap_size livemap_demo = 2048"
    by (simp_all add: livemap_demo_def livemap_new_def livemap_quiet_def seqnum_initializing_def pairs_ok_def is_segment_live_def
        marks_def livemap_get_def is_marked_def bitmap_size_def nsegments_def)
qed

text \<open>Marks a sequence of objects, each strongly or as finalizable, by the first bits of their pairs.\<close>

fun mark_all :: "u32 \<Rightarrow> (nat \<times> bool) list \<Rightarrow> z_livemap \<Rightarrow> z_livemap option" where
  "mark_all seqnum [] m = Some m"
| "mark_all seqnum ((i, finalizable) # xs) m =
     (case livemap_set seqnum i finalizable m of None \<Rightarrow> None | Some (_, _, m') \<Rightarrow> mark_all seqnum xs m')"

definition markable :: "z_livemap \<Rightarrow> (nat \<times> bool) list \<Rightarrow> bool" where
  "markable m xs \<longleftrightarrow> (\<forall>x \<in> set xs. even (fst x) \<and> fst x < lm_bitmap_size m)"

lemma mark_all_marks:
  assumes "livemap_shape m" "livemap_quiet seqnum m" "pairs_ok m" "markable m xs"
  shows "\<exists>m'. mark_all seqnum xs m = Some m' \<and> livemap_shape m' \<and> livemap_quiet seqnum m' \<and> pairs_ok m'
    \<and> lm_bitmap_size m' = lm_bitmap_size m \<and> (xs \<noteq> [] \<longrightarrow> is_marked seqnum m')
    \<and> marks seqnum m' = marks seqnum m \<union> fst ` set xs \<union> Suc ` {i. (i, False) \<in> set xs}"
  using assms
proof (induction xs arbitrary: m)
  case (Cons x xs)
  obtain i fin where x: "x = (i, fin)" by (cases x)
  have i: "i < lm_bitmap_size m" "even i" using Cons.prems(4) by (simp_all add: markable_def x)
  obtain result inc_live m1 where m1: "livemap_set seqnum i fin m = Some (result, inc_live, m1)"
    "livemap_shape m1" "livemap_quiet seqnum m1" "is_marked seqnum m1" "lm_bitmap_size m1 = lm_bitmap_size m"
    "marks seqnum m1 = marks seqnum m \<union> (if fin then {i} else {i, Suc i})" "pairs_ok m \<longrightarrow> pairs_ok m1"
    by (rule livemap_set_marks [OF Cons.prems(1,2) i, of fin])
  have "markable m1 xs" using Cons.prems(4) by (simp add: markable_def m1(5))
  from Cons.IH [OF m1(2,3) _ this] m1(7) Cons.prems(3)
  obtain m' where m': "mark_all seqnum xs m1 = Some m'" "livemap_shape m'" "livemap_quiet seqnum m'" "pairs_ok m'"
    "lm_bitmap_size m' = lm_bitmap_size m1" "xs \<noteq> [] \<longrightarrow> is_marked seqnum m'"
    "marks seqnum m' = marks seqnum m1 \<union> fst ` set xs \<union> Suc ` {i. (i, False) \<in> set xs}" by blast
  have "is_marked seqnum m'" using m'(1,6) m1(4) by (cases xs) auto
  moreover have "marks seqnum m' = marks seqnum m \<union> fst ` set (x # xs) \<union> Suc ` {j. (j, False) \<in> set (x # xs)}"
    unfolding m'(7) m1(6) x by (cases fin) auto
  ultimately show ?case using m' m1(1,5) x by auto
qed auto

lemma mark_then_visit:
  assumes "livemap_shape m" "livemap_quiet seqnum m" "pairs_ok m" "marks seqnum m = {}" "markable m xs"
    "finds_first ff" "iterates it" "\<forall>i s. fst (f i s)"
  shows "\<exists>m'. mark_all seqnum xs m = Some m'
    \<and> livemap_iterate ff it seqnum m' f s = Some (fold (\<lambda>i s. snd (f i s)) (sorted_list_of_set (fst ` set xs)) s)"
proof -
  obtain m' where m': "mark_all seqnum xs m = Some m'" "livemap_shape m'" "xs \<noteq> [] \<longrightarrow> is_marked seqnum m'"
    "marks seqnum m' = fst ` set xs \<union> Suc ` {i. (i, False) \<in> set xs}"
    using mark_all_marks [OF assms(1,2,3,5)] assms(4) by auto
  have "\<forall>i \<in> Suc ` {i. (i, False) \<in> set xs}. odd i" using assms(5) by (auto simp: markable_def)
  moreover have "\<forall>i \<in> fst ` set xs. even i" using assms(5) by (auto simp: markable_def)
  ultimately have ev: "{i \<in> marks seqnum m'. even i} = fst ` set xs" unfolding m'(4) by blast
  have "livemap_iterate ff it seqnum m' f s = Some (fold (\<lambda>i s. snd (f i s)) (sorted_list_of_set (fst ` set xs)) s)"
  proof (cases "is_marked seqnum m'")
    case True
    have "set (live_indices m') = fst ` set xs" using live_indices_marks [OF True] ev by simp
    moreover have "sorted (live_indices m')" "distinct (live_indices m')"
      using sorted_filter [of id "[0 ..< lm_bitmap_size m']" "live_bit m'"] by (simp_all add: live_indices_def)
    ultimately have "live_indices m' = sorted_list_of_set (fst ` set xs)"
      by (metis sorted_list_of_set.idem_if_sorted_distinct)
    then show ?thesis
      using iterate_forced_all [OF m'(2) assms(6,7), where f = f and s = s] assms(8) True
      by (simp add: livemap_iterate_def iterate_forced_def)
  next
    case False
    then show ?thesis using m'(3) by (auto simp: livemap_iterate_def)
  qed
  then show ?thesis using m'(1) by blast
qed

text \<open>C20. Marking an object in a live map, whatever stale information the map holds from earlier cycles, adds
  exactly the object's bit, or both bits of its pair for a strong mark, to the marks of the current
  cycle. The result tells whether anything changed and \<open>inc_live\<close> whether the object was dead before.\<close>

theorem livemap_set_refines:
  assumes "livemap_shape m" "livemap_quiet seqnum m" "i < lm_bitmap_size m" "even i"
  shows "\<exists>result inc_live m'. livemap_set seqnum i finalizable m = Some (result, inc_live, m')
    \<and> livemap_shape m' \<and> livemap_quiet seqnum m'
    \<and> marks seqnum m' = marks seqnum m \<union> (if finalizable then {i} else {i, Suc i})
    \<and> (result \<longleftrightarrow> marks seqnum m' \<noteq> marks seqnum m) \<and> (inc_live \<longleftrightarrow> i \<notin> marks seqnum m)"
proof -
  obtain result inc_live m' where "livemap_set seqnum i finalizable m = Some (result, inc_live, m')"
    "livemap_shape m'" "livemap_quiet seqnum m'"
    "marks seqnum m' = marks seqnum m \<union> (if finalizable then {i} else {i, Suc i})"
    "result \<longleftrightarrow> marks seqnum m' \<noteq> marks seqnum m" "inc_live \<longleftrightarrow> i \<notin> marks seqnum m"
    by (rule livemap_set_marks [OF assms, of finalizable])
  then show ?thesis by blast
qed

theorem livemap_set_refines_witness:
  "\<exists>m'. livemap_set 7 20 False livemap_demo = Some (True, True, m') \<and> marks 7 m' = {20, 21}"
proof -
  have "(20 :: nat) < lm_bitmap_size livemap_demo" "even (20 :: nat)" by (simp_all add: livemap_demo_ok)
  from livemap_set_refines [OF livemap_demo_ok(1,2) this, of False] show ?thesis
    unfolding livemap_demo_ok(4) by auto
qed

text \<open>C21. From a live map without marks of the current cycle, marking any sequence of objects never waits, and
  iterating then calls the function once for each object that was marked, strongly or finalizably, in
  ascending order, and ends: neither bits left by earlier cycles nor the second bits of pairs are visited.\<close>

theorem livemap_mark_iterate:
  assumes "livemap_shape m" "livemap_quiet seqnum m" "pairs_ok m" "marks seqnum m = {}" "markable m xs"
    "finds_first ff" "iterates it" "\<forall>i s. fst (f i s)"
  shows "\<exists>m'. mark_all seqnum xs m = Some m'
    \<and> livemap_iterate ff it seqnum m' f s = Some (fold (\<lambda>i s. snd (f i s)) (sorted_list_of_set (fst ` set xs)) s)"
  by (rule mark_then_visit [OF assms])

theorem livemap_mark_iterate_witness:
  "\<exists>m'. mark_all 7 [(40, False), (6, True), (40, True)] livemap_demo = Some m'
    \<and> livemap_iterate first_set visit_set 7 m' (\<lambda>i s. (True, s @ [i])) [] = Some [6, 40]"
proof -
  have set_eq: "sorted_list_of_set (fst ` set [(40 :: nat, False), (6, True), (40, True)]) = [6, 40]"
    by (simp add: insert_Diff_if insert_absorb)
  have "markable livemap_demo [(40, False), (6, True), (40, True)]" by (simp add: markable_def livemap_demo_ok)
  from livemap_mark_iterate [OF livemap_demo_ok(1-4) this first_set_finds visit_set_iterates,
      of "\<lambda>i s. (True, s @ [i])" "[]"]
  show ?thesis unfolding set_eq snd_conv by simp
qed

text \<open>The reference for \<open>find_base_bit\<close>.\<close>

definition last_live_ref :: "z_livemap \<Rightarrow> nat \<Rightarrow> nat option" where
  "last_live_ref m i = (if \<exists>j \<le> i. live_bit m j then Some (Max {j. j \<le> i \<and> live_bit m j}) else None)"

lemma find_base_bit_eq_ref:
  assumes "livemap_shape m" "finds_last fl" "pairs_ok m"
  shows "find_base_bit fl m i = last_live_ref m i"
proof (cases "find_base_bit fl m i")
  case None
  then show ?thesis using find_base_bit_last [OF assms, of i] by (auto simp: last_live_def last_live_ref_def less_Suc_eq_le)
next
  case (Some j)
  then have j: "j \<le> i" "live_bit m j" "\<And>k. j < k \<Longrightarrow> k \<le> i \<Longrightarrow> \<not> live_bit m k"
    using find_base_bit_last [OF assms, of i] by (auto simp: last_live_def less_Suc_eq_le)
  have "Max {k. k \<le> i \<and> live_bit m k} = j"
  proof (rule Max_eqI)
    show "finite {k. k \<le> i \<and> live_bit m k}" by simp
    show "k \<le> j" if "k \<in> {k. k \<le> i \<and> live_bit m k}" for k using that j(3) [of k] by (cases "k \<le> j") auto
  qed (use j in simp)
  then show ?thesis using Some j(1,2) by (auto simp: last_live_ref_def)
qed

text \<open>C22. The segmented backward search of \<open>find_base_bit\<close> finds the start of the last live object at or before the
  index, over all live segments, and nothing when there is none.\<close>

theorem find_base_bit_reference:
  assumes "livemap_shape m" "finds_last fl" "pairs_ok m"
  shows "find_base_bit fl m i = last_live_ref m i"
  by (rule find_base_bit_eq_ref [OF assms])

theorem find_base_bit_reference_witness:
  "find_base_bit last_set livemap_demo 100 = last_live_ref livemap_demo 100"
  by (rule find_base_bit_reference [OF livemap_demo_ok(1) last_set_finds livemap_demo_ok(3)])

end
