(* ===== verification/Z_LiveMap_Par.thy ===== *)
theory Z_LiveMap_Par
  imports Z_LiveMap
begin

text \<open>
  Marking by several threads, \<open>ZLiveMap::set\<close> with its resets taken apart into atomic steps: every load,
  store and compare-and-swap of \<open>ZLiveMap::reset\<close>, \<open>ZLiveMap::reset_segment\<close> and
  \<open>ZBitMap::par_set_bit_pair\<close> is a step, taken by any thread that is ready, under sequential
  consistency. Each thread marks one object in the cycle \<open>S\<close>. A range of bits is cleared one bit at
  a time; the segments of pages with more than one object are whole words, which lets the code
  clear a range word by word. \<open>AssertFailed\<close> stands for a failure of the assertion in
  \<open>reset\<close> or of the one in \<open>reset_segment\<close>.
\<close>

datatype mark_pc =
    TestMarked
  | LoadSeqnum
  | CasSeqnum u32
  | ClearBytes
  | ClearObjects
  | ClearLiveBits
  | ClearClaimBits
  | AssertInitializing
  | StoreSeqnum
  | TestSegment
  | ClaimSegment
  | WaitSegment
  | ClearFrom nat
  | SetSegmentLive
  | SetPair
  | CasWord "bool list"
  | Marked bool bool
  | AssertFailed

record mark_thread =
  mt_index :: nat
  mt_finalizable :: bool
  mt_pc :: mark_pc

definition bitmap_word :: "z_livemap \<Rightarrow> nat \<Rightarrow> bool list" where
  "bitmap_word m i = map (lm_bitmap m) [i div 64 * 64 ..< i div 64 * 64 + 64]"

definition set_bitmap_word :: "nat \<Rightarrow> bool list \<Rightarrow> z_livemap \<Rightarrow> z_livemap" where
  "set_bitmap_word i w m = m\<lparr>lm_bitmap := (\<lambda>j. if j div 64 = i div 64 then w ! (j mod 64) else lm_bitmap m j)\<rparr>"

definition mark_thread_step :: "u32 \<Rightarrow> z_livemap \<Rightarrow> mark_thread \<Rightarrow> z_livemap \<times> mark_thread" where
  "mark_thread_step S m t =
     (let i = mt_index t; segment = index_to_segment m i; goto = (\<lambda>p. t\<lparr>mt_pc := p\<rparr>)
      in case mt_pc t of
        TestMarked \<Rightarrow> (m, goto (if is_marked S m then TestSegment else LoadSeqnum))
      | LoadSeqnum \<Rightarrow> (m, goto (if lm_seqnum m = S then TestSegment else CasSeqnum (lm_seqnum m)))
      | CasSeqnum seqnum \<Rightarrow>
          if seqnum \<noteq> seqnum_initializing \<and> lm_seqnum m = seqnum
          then (m\<lparr>lm_seqnum := seqnum_initializing\<rparr>, goto ClearBytes) else (m, goto LoadSeqnum)
      | ClearBytes \<Rightarrow> (m\<lparr>lm_live_bytes := 0\<rparr>, goto ClearObjects)
      | ClearObjects \<Rightarrow> (m\<lparr>lm_live_objects := 0\<rparr>, goto ClearLiveBits)
      | ClearLiveBits \<Rightarrow> (m\<lparr>segment_live_bits := 0\<rparr>, goto ClearClaimBits)
      | ClearClaimBits \<Rightarrow> (m\<lparr>segment_claim_bits := 0\<rparr>, goto AssertInitializing)
      | AssertInitializing \<Rightarrow> (m, goto (if lm_seqnum m = seqnum_initializing then StoreSeqnum else AssertFailed))
      | StoreSeqnum \<Rightarrow> (m\<lparr>lm_seqnum := S\<rparr>, goto TestSegment)
      | TestSegment \<Rightarrow> (m, goto (if is_segment_live m segment then SetPair else ClaimSegment))
      | ClaimSegment \<Rightarrow>
          if bit (segment_claim_bits m) segment then (m, goto WaitSegment)
          else (m\<lparr>segment_claim_bits := set_bit segment (segment_claim_bits m)\<rparr>, goto (ClearFrom (segment_start m segment)))
      | WaitSegment \<Rightarrow> (m, goto (if is_segment_live m segment then SetPair else WaitSegment))
      | ClearFrom j \<Rightarrow>
          if j < segment_end m segment then (m\<lparr>lm_bitmap := (lm_bitmap m)(j := False)\<rparr>, goto (ClearFrom (Suc j)))
          else (m, goto SetSegmentLive)
      | SetSegmentLive \<Rightarrow>
          (m\<lparr>segment_live_bits := set_bit segment (segment_live_bits m)\<rparr>,
           goto (if is_segment_live m segment then AssertFailed else SetPair))
      | SetPair \<Rightarrow>
          if mt_finalizable t
          then (m\<lparr>lm_bitmap := (lm_bitmap m)(i := True)\<rparr>, goto (Marked (\<not> lm_bitmap m i) (\<not> lm_bitmap m i)))
          else (m, goto (CasWord (bitmap_word m i)))
      | CasWord old_val \<Rightarrow>
          (let new_val = old_val[i mod 64 := True, Suc i mod 64 := True]; cur_val = bitmap_word m i
           in if new_val = old_val then (m, goto (Marked False False))
              else if cur_val = old_val then (set_bitmap_word i new_val m, goto (Marked True (\<not> old_val ! (i mod 64))))
              else (m, goto (CasWord cur_val)))
      | Marked _ _ \<Rightarrow> (m, t)
      | AssertFailed \<Rightarrow> (m, t))"

type_synonym 't mark_state = "z_livemap \<times> ('t \<Rightarrow> mark_thread)"

inductive mark_step :: "u32 \<Rightarrow> 't mark_state \<Rightarrow> 't mark_state \<Rightarrow> bool" for S where
  thread: "mark_thread_step S m (ts a) = (m', t') \<Longrightarrow> mark_step S (m, ts) (m', ts(a := t'))"

inductive_cases mark_stepE: "mark_step S s s'"

inductive mark_reachable :: "u32 \<Rightarrow> 't mark_state \<Rightarrow> 't mark_state \<Rightarrow> bool" for S s where
  start: "mark_reachable S s s"
| step: "mark_reachable S s s' \<Longrightarrow> mark_step S s' s'' \<Longrightarrow> mark_reachable S s s''"

subsection \<open>Where a thread is\<close>

definition resetting :: "mark_pc \<Rightarrow> bool" where
  "resetting p \<longleftrightarrow> p \<in> {ClearBytes, ClearObjects, ClearLiveBits, ClearClaimBits, AssertInitializing, StoreSeqnum}"

definition clearing :: "mark_pc \<Rightarrow> bool" where
  "clearing p \<longleftrightarrow> p = SetSegmentLive \<or> (\<exists>j. p = ClearFrom j)"

definition in_live_segment :: "mark_pc \<Rightarrow> bool" where
  "in_live_segment p \<longleftrightarrow> p = SetPair \<or> (\<exists>w. p = CasWord w) \<or> (\<exists>r n. p = Marked r n)"

definition after_reset :: "mark_pc \<Rightarrow> bool" where
  "after_reset p \<longleftrightarrow> p \<in> {TestSegment, ClaimSegment, WaitSegment} \<or> clearing p \<or> in_live_segment p"

definition thread_bits :: "mark_thread \<Rightarrow> nat set" where
  "thread_bits t = (case mt_pc t of
     Marked _ _ \<Rightarrow> if mt_finalizable t then {mt_index t} else {mt_index t, Suc (mt_index t)}
   | _ \<Rightarrow> {})"

definition counted :: "mark_thread \<Rightarrow> bool" where
  "counted t \<longleftrightarrow> (\<exists>r. mt_pc t = Marked r True)"


lemma geometry_updates [simp]:
  "index_to_segment (m\<lparr>lm_seqnum := a\<rparr>) = index_to_segment m" "segment_start (m\<lparr>lm_seqnum := a\<rparr>) = segment_start m" "segment_end (m\<lparr>lm_seqnum := a\<rparr>) = segment_end m"
  "index_to_segment (m\<lparr>lm_live_bytes := b\<rparr>) = index_to_segment m" "segment_start (m\<lparr>lm_live_bytes := b\<rparr>) = segment_start m" "segment_end (m\<lparr>lm_live_bytes := b\<rparr>) = segment_end m"
  "index_to_segment (m\<lparr>lm_live_objects := a\<rparr>) = index_to_segment m" "segment_start (m\<lparr>lm_live_objects := a\<rparr>) = segment_start m" "segment_end (m\<lparr>lm_live_objects := a\<rparr>) = segment_end m"
  "index_to_segment (m\<lparr>segment_live_bits := b\<rparr>) = index_to_segment m" "segment_start (m\<lparr>segment_live_bits := b\<rparr>) = segment_start m" "segment_end (m\<lparr>segment_live_bits := b\<rparr>) = segment_end m"
  "index_to_segment (m\<lparr>segment_claim_bits := b\<rparr>) = index_to_segment m" "segment_start (m\<lparr>segment_claim_bits := b\<rparr>) = segment_start m" "segment_end (m\<lparr>segment_claim_bits := b\<rparr>) = segment_end m"
  "index_to_segment (m\<lparr>lm_bitmap := B\<rparr>) = index_to_segment m" "segment_start (m\<lparr>lm_bitmap := B\<rparr>) = segment_start m" "segment_end (m\<lparr>lm_bitmap := B\<rparr>) = segment_end m"
  by (simp_all add: fun_eq_iff index_to_segment_def segment_start_def segment_end_def segment_size_def)

lemma pair_in_word:
  fixes i :: nat
  assumes "even i"
  shows "Suc i mod 64 = Suc (i mod 64)" "Suc i div 64 = i div 64" "i mod 64 < 63"
proof -
  have "even (i mod 64)" using assms by (simp add: dvd_mod_iff)
  then have "i mod 64 \<noteq> 63" by (metis odd_numeral)
  moreover have "i mod 64 < 64" by simp
  ultimately show m: "i mod 64 < 63" by linarith
  then show "Suc i mod 64 = Suc (i mod 64)" "Suc i div 64 = i div 64" by (simp_all add: mod_Suc div_Suc)
qed

lemma set_pair_word:
  assumes "even i" "bitmap_word m i = w"
  shows "set_bitmap_word i (w[i mod 64 := True, Suc i mod 64 := True]) m = m\<lparr>lm_bitmap := (lm_bitmap m)(i := True, Suc i := True)\<rparr>"
proof -
  note sm = pair_in_word [OF assms(1)]
  have len: "length w = 64" using assms(2) by (auto simp: bitmap_word_def)
  have old: "w ! (j mod 64) = lm_bitmap m j" if "j div 64 = i div 64" for j
  proof -
    have "i div 64 * 64 + j mod 64 = j" using that by (metis div_mult_mod_eq)
    then show ?thesis unfolding assms(2) [symmetric] bitmap_word_def by (simp add: nth_append)
  qed
  have "(if j div 64 = i div 64 then w[i mod 64 := True, Suc i mod 64 := True] ! (j mod 64) else lm_bitmap m j)
    = ((lm_bitmap m)(i := True, Suc i := True)) j" for j
  proof (cases "j div 64 = i div 64")
    case True
    have "j mod 64 = i mod 64 \<longleftrightarrow> j = i" using True by (metis div_mult_mod_eq)
    moreover have "j mod 64 = Suc (i mod 64) \<longleftrightarrow> j = Suc i" using True sm by (metis div_mult_mod_eq)
    ultimately show ?thesis using True sm len old [OF True] by (auto simp: nth_list_update)
  next
    case False
    then show ?thesis using sm by auto
  qed
  then show ?thesis by (simp add: set_bitmap_word_def fun_eq_iff)
qed

lemma bitmap_word_nth:
  assumes "even i"
  shows "bitmap_word m i ! (i mod 64) = lm_bitmap m i" "bitmap_word m i ! (Suc i mod 64) = lm_bitmap m (Suc i)"
    "length (bitmap_word m i) = 64" "Suc i mod 64 < 64" "i mod 64 < 64" "Suc i mod 64 \<noteq> i mod 64"
proof -
  note sm = pair_in_word(1,3) [OF assms]
  have e: "i div 64 * 64 + i mod 64 = i" by (rule div_mult_mod_eq)
  show "bitmap_word m i ! (i mod 64) = lm_bitmap m i" "bitmap_word m i ! (Suc i mod 64) = lm_bitmap m (Suc i)"
    using sm(2) e unfolding bitmap_word_def sm(1) by (simp_all only: nth_map length_upt nth_upt) (simp_all add: e)
  show "length (bitmap_word m i) = 64" "Suc i mod 64 < 64" "i mod 64 < 64" "Suc i mod 64 \<noteq> i mod 64"
    using sm by (simp_all add: bitmap_word_def)
qed

subsection \<open>The invariant\<close>

text \<open>The pair of a word that was read at some time, whose bits are only set since then.\<close>

definition word_read :: "(nat \<Rightarrow> bool) \<Rightarrow> nat \<Rightarrow> bool list \<Rightarrow> bool" where
  "word_read B i w \<longleftrightarrow> length w = 64 \<and> (w ! (i mod 64) \<longrightarrow> B i) \<and> (w ! (Suc i mod 64) \<longrightarrow> B (Suc i))"

lemma word_read_grows: "word_read B i w \<Longrightarrow> (B i \<longrightarrow> B' i) \<Longrightarrow> (B (Suc i) \<longrightarrow> B' (Suc i)) \<Longrightarrow> word_read B' i w"
  by (auto simp: word_read_def)

lemma word_read_now: "even i \<Longrightarrow> word_read (lm_bitmap m) i (bitmap_word m i)"
  using bitmap_word_nth [of i] by (simp add: word_read_def)

lemma cas_word_step:
  assumes ev: "even (mt_index t)" and pc: "mt_pc t = CasWord w" and rd: "word_read (lm_bitmap m) (mt_index t) w"
    and st: "mark_thread_step S m t = (m', t')"
  obtains (set) "m' = m\<lparr>lm_bitmap := (lm_bitmap m)(mt_index t := True, Suc (mt_index t) := True)\<rparr>"
      "t' = t\<lparr>mt_pc := Marked True (\<not> lm_bitmap m (mt_index t))\<rparr>"
    | (was_set) "m' = m" "t' = t\<lparr>mt_pc := Marked False False\<rparr>" "lm_bitmap m (mt_index t)" "lm_bitmap m (Suc (mt_index t))"
    | (retry) "m' = m" "t' = t\<lparr>mt_pc := CasWord (bitmap_word m (mt_index t))\<rparr>"
proof -
  let ?i = "mt_index t"
  note n = bitmap_word_nth [OF ev]
  define new where "new = w[?i mod 64 := True, Suc ?i mod 64 := True]"
  have st': "(m', t') = (if new = w then (m, t\<lparr>mt_pc := Marked False False\<rparr>)
    else if bitmap_word m ?i = w then (set_bitmap_word ?i new m, t\<lparr>mt_pc := Marked True (\<not> w ! (?i mod 64))\<rparr>)
    else (m, t\<lparr>mt_pc := CasWord (bitmap_word m ?i)\<rparr>))"
    unfolding new_def using st by (auto simp: mark_thread_step_def Let_def pc split: if_splits)
  consider "new = w" | "new \<noteq> w" "bitmap_word m ?i = w" | "new \<noteq> w" "bitmap_word m ?i \<noteq> w" by blast
  then show thesis
  proof cases
    case 1
    then have "w ! (?i mod 64)" "w ! (Suc ?i mod 64)"
      using n(4-6) rd unfolding new_def word_read_def by (metis nth_list_update_eq nth_list_update_neq length_list_update)+
    then show thesis using was_set st' 1 rd by (simp add: word_read_def)
  next
    case 2
    then show thesis using set st' set_pair_word [OF ev 2(2)] n(1) by (auto simp flip: new_def)
  next
    case 3
    then show thesis using retry st' by simp
  qed
qed

definition thread_inv :: "u32 \<Rightarrow> z_livemap \<Rightarrow> mark_thread \<Rightarrow> bool" where
  "thread_inv S m t \<longleftrightarrow>
     even (mt_index t) \<and> mt_index t < lm_bitmap_size m \<and> mt_pc t \<noteq> AssertFailed
     \<and> (lm_seqnum m = S \<longrightarrow> (\<forall>k. bit (segment_live_bits m) k \<longrightarrow> bit (segment_claim_bits m) k))
     \<and> (\<forall>s. mt_pc t = CasSeqnum s \<longrightarrow> s \<noteq> S)
     \<and> (mt_pc t = WaitSegment \<longrightarrow> bit (segment_claim_bits m) (index_to_segment m (mt_index t)))
     \<and> (resetting (mt_pc t) \<longrightarrow> lm_seqnum m = seqnum_initializing)
     \<and> (mt_pc t \<in> {ClearClaimBits, AssertInitializing, StoreSeqnum} \<longrightarrow> segment_live_bits m = 0)
     \<and> (mt_pc t \<in> {AssertInitializing, StoreSeqnum} \<longrightarrow> segment_claim_bits m = 0)
     \<and> (after_reset (mt_pc t) \<longrightarrow> lm_seqnum m = S)
     \<and> (clearing (mt_pc t) \<longrightarrow> bit (segment_claim_bits m) (index_to_segment m (mt_index t))
          \<and> \<not> bit (segment_live_bits m) (index_to_segment m (mt_index t)))
     \<and> (\<forall>j. mt_pc t = ClearFrom j \<longrightarrow> segment_start m (index_to_segment m (mt_index t)) \<le> j \<and> j \<le> segment_end m (index_to_segment m (mt_index t))
          \<and> (\<forall>x < j. index_to_segment m x = index_to_segment m (mt_index t) \<longrightarrow> \<not> lm_bitmap m x))
     \<and> (mt_pc t = SetSegmentLive \<longrightarrow> (\<forall>x. index_to_segment m x = index_to_segment m (mt_index t) \<longrightarrow> \<not> lm_bitmap m x))
     \<and> (in_live_segment (mt_pc t) \<longrightarrow> bit (segment_live_bits m) (index_to_segment m (mt_index t)))
     \<and> (\<forall>w. mt_pc t = CasWord w \<longrightarrow> \<not> mt_finalizable t \<and> word_read (lm_bitmap m) (mt_index t) w)"

definition pair_inv :: "z_livemap \<Rightarrow> mark_thread \<Rightarrow> mark_thread \<Rightarrow> bool" where
  "pair_inv m t u \<longleftrightarrow> \<not> (resetting (mt_pc t) \<and> resetting (mt_pc u))
     \<and> \<not> (clearing (mt_pc t) \<and> clearing (mt_pc u) \<and> index_to_segment m (mt_index t) = index_to_segment m (mt_index u))"

lemmas pcs = resetting_def clearing_def in_live_segment_def after_reset_def

lemma pair_inv_sym: "pair_inv m t u \<Longrightarrow> pair_inv m u t"
  by (auto simp: pair_inv_def)

definition unchanged :: "z_livemap \<Rightarrow> z_livemap \<Rightarrow> bool" where
  "unchanged m m' \<longleftrightarrow> livemap_shape m' \<and> segment_shift m' = segment_shift m \<and> lm_bitmap_size m' = lm_bitmap_size m"

lemma step_unchanged:
  assumes "livemap_shape m" "mark_thread_step S m t = (m', t')"
  shows "unchanged m m'" "mt_index t' = mt_index t" "mt_finalizable t' = mt_finalizable t"
  using assms
  by (auto simp: mark_thread_step_def Let_def unchanged_def livemap_shape_def set_bitmap_word_def split: mark_pc.splits if_splits)

lemmas step_simps = mark_thread_step_def Let_def thread_inv_def pcs is_marked_def is_segment_live_def

lemma thread_inv_step:
  assumes shape: "livemap_shape m" and S: "S \<noteq> seqnum_initializing" and inv: "thread_inv S m t"
    and st: "mark_thread_step S m t = (m', t')"
  shows "thread_inv S m' t'"
proof (cases "mt_pc t")
  case (CasWord w)
  have ev: "even (mt_index t)" "word_read (lm_bitmap m) (mt_index t) w" using inv CasWord by (simp_all add: thread_inv_def)
  have pr: "index_to_segment m (Suc (mt_index t)) = index_to_segment m (mt_index t)" by (rule segment_pair [OF shape ev(1)])
  from ev(1) CasWord ev(2) st show ?thesis
  proof (cases rule: cas_word_step)
    case retry
    then show ?thesis using inv CasWord word_read_now [OF ev(1), of m] by (auto simp: thread_inv_def pcs)
  qed (use inv CasWord in \<open>auto simp: thread_inv_def pcs\<close>)
next
  case SetPair
  have ev: "even (mt_index t)" using inv by (simp add: thread_inv_def)
  show ?thesis using inv st SetPair word_read_now [OF ev, of m]
    by (auto simp: mark_thread_step_def Let_def thread_inv_def pcs split: if_splits)
next
  case (ClearFrom j)
  have "index_to_segment m x = index_to_segment m (mt_index t) \<Longrightarrow> x < segment_end m (index_to_segment m (mt_index t))" for x
    using segment_bounds [OF shape, of "index_to_segment m (mt_index t)" x] by simp
  then show ?thesis using inv st ClearFrom
    by (auto simp: mark_thread_step_def Let_def thread_inv_def pcs less_Suc_eq_le le_less split: if_splits)
next
  case ClaimSegment
  have "index_to_segment m (mt_index t) < 64" using inv segment_less [OF shape] by (simp add: thread_inv_def)
  moreover have "segment_start m (index_to_segment m (mt_index t)) \<le> segment_end m (index_to_segment m (mt_index t))"
    by (simp add: segment_end_def)
  moreover have "x < segment_start m (index_to_segment m (mt_index t)) \<Longrightarrow> index_to_segment m x \<noteq> index_to_segment m (mt_index t)" for x
    using segment_bounds [OF shape, of "index_to_segment m (mt_index t)" x] by simp
  ultimately show ?thesis using inv st ClaimSegment set_bit_word
    by (auto simp: mark_thread_step_def Let_def thread_inv_def pcs split: if_splits)
next
  case SetSegmentLive
  have "index_to_segment m (mt_index t) < 64" using inv segment_less [OF shape] by (simp add: thread_inv_def)
  then show ?thesis using inv st SetSegmentLive set_bit_word
    by (auto simp: mark_thread_step_def Let_def thread_inv_def pcs is_segment_live_def split: if_splits)
next
  case TestMarked
  then show ?thesis using inv st S by (auto simp: step_simps split: if_splits)
next
  case LoadSeqnum
  then show ?thesis using inv st S by (auto simp: step_simps split: if_splits)
next
  case (CasSeqnum s)
  then show ?thesis using inv st S by (auto simp: step_simps split: if_splits)
next
  case ClearBytes
  then show ?thesis using inv st S by (auto simp: step_simps split: if_splits)
next
  case ClearObjects
  then show ?thesis using inv st S by (auto simp: step_simps split: if_splits)
next
  case ClearLiveBits
  then show ?thesis using inv st S by (auto simp: step_simps split: if_splits)
next
  case ClearClaimBits
  then show ?thesis using inv st S by (auto simp: step_simps split: if_splits)
next
  case AssertInitializing
  then show ?thesis using inv st S by (auto simp: step_simps split: if_splits)
next
  case StoreSeqnum
  then show ?thesis using inv st S by (auto simp: step_simps split: if_splits)
next
  case TestSegment
  then show ?thesis using inv st S by (auto simp: step_simps split: if_splits)
next
  case WaitSegment
  then show ?thesis using inv st S by (auto simp: step_simps split: if_splits)
next
  case (Marked r n)
  then show ?thesis using inv st S by (auto simp: step_simps split: if_splits)
next
  case AssertFailed
  then show ?thesis using inv st S by (auto simp: step_simps split: if_splits)
qed


lemma reset_alone:
  assumes "S \<noteq> seqnum_initializing" "thread_inv S m t" "thread_inv S m u" "pair_inv m t u" "resetting (mt_pc t)"
  shows "\<not> resetting (mt_pc u)" "\<not> after_reset (mt_pc u)" "lm_seqnum m = seqnum_initializing"
proof -
  show "lm_seqnum m = seqnum_initializing" "\<not> resetting (mt_pc u)" using assms(2,4,5) by (simp_all add: thread_inv_def pair_inv_def)
  then show "\<not> after_reset (mt_pc u)" using assms(1,3) by (simp add: thread_inv_def)
qed

lemma other_thread_inv_step:
  assumes shape: "livemap_shape m" and S: "S \<noteq> seqnum_initializing" and inv: "thread_inv S m t" "thread_inv S m u"
    and pair: "pair_inv m t u" and st: "mark_thread_step S m t = (m', t')"
  shows "thread_inv S m' u"
proof (cases "mt_pc t")
  case (CasWord w)
  have ev: "even (mt_index t)" "word_read (lm_bitmap m) (mt_index t) w" using inv CasWord by (simp_all add: thread_inv_def)
  have pr: "index_to_segment m (Suc (mt_index t)) = index_to_segment m (mt_index t)" by (rule segment_pair [OF shape ev(1)])
  from ev(1) CasWord ev(2) st show ?thesis
  proof (cases rule: cas_word_step)
    case set
    have l: "bit (segment_live_bits m) (index_to_segment m (mt_index t))" using inv(1) CasWord by (simp add: thread_inv_def pcs)
    show ?thesis using inv(2) set(1) pr l
      by (cases "mt_pc u") (auto simp: thread_inv_def pcs intro: word_read_grows)
  qed (use inv CasWord in \<open>auto simp: thread_inv_def pcs\<close>)
next
  case (ClearFrom j)
  have c: "\<not> bit (segment_live_bits m) (index_to_segment m (mt_index t))" "index_to_segment m j = index_to_segment m (mt_index t)"
    if "j < segment_end m (index_to_segment m (mt_index t))"
    using inv(1) ClearFrom that segment_bounds [OF shape, of "index_to_segment m (mt_index t)" j] by (auto simp: thread_inv_def pcs)
  show ?thesis
  proof (cases "j < segment_end m (index_to_segment m (mt_index t))")
    case True
    have ev: "even (mt_index u)" using inv(2) by (simp add: thread_inv_def)
    have "bit (segment_live_bits m) (index_to_segment m (mt_index u)) \<Longrightarrow> j \<noteq> mt_index u \<and> j \<noteq> Suc (mt_index u)"
      using c [OF True] segment_pair [OF shape ev] by auto
    moreover have "m' = m\<lparr>lm_bitmap := (lm_bitmap m)(j := False)\<rparr>"
      using st ClearFrom True by (simp add: mark_thread_step_def Let_def)
    ultimately show ?thesis using inv(2)
      by (cases "mt_pc u") (auto simp: thread_inv_def pcs intro: word_read_grows)
  next
    case False
    then show ?thesis using st inv(2) ClearFrom by (simp add: mark_thread_step_def Let_def)
  qed
next
  case ClaimSegment
  have k: "index_to_segment m (mt_index t) < 64" using inv segment_less [OF shape] by (simp add: thread_inv_def)
  have "m' = m \<or> m' = m\<lparr>segment_claim_bits := set_bit (index_to_segment m (mt_index t)) (segment_claim_bits m)\<rparr>
      \<and> lm_seqnum m = S"
    using st inv(1) ClaimSegment by (auto simp: mark_thread_step_def Let_def thread_inv_def pcs split: if_splits)
  then show ?thesis using inv(2) set_bit_word [OF k] S
    by (cases "mt_pc u") (auto simp: thread_inv_def pcs)
next
  case SetSegmentLive
  have k: "index_to_segment m (mt_index t) < 64" using inv segment_less [OF shape] by (simp add: thread_inv_def)
  have "m' = m\<lparr>segment_live_bits := set_bit (index_to_segment m (mt_index t)) (segment_live_bits m)\<rparr>" "lm_seqnum m = S"
    "bit (segment_claim_bits m) (index_to_segment m (mt_index t))"
    using st inv(1) SetSegmentLive by (auto simp: mark_thread_step_def Let_def thread_inv_def pcs)
  then show ?thesis using inv(2) set_bit_word [OF k] pair SetSegmentLive S
    by (cases "mt_pc u") (auto simp: thread_inv_def pair_inv_def pcs)
next
  case TestMarked
  then show ?thesis using inv st by (auto simp: mark_thread_step_def Let_def)
next
  case LoadSeqnum
  then show ?thesis using inv st by (auto simp: mark_thread_step_def Let_def)
next
  case (CasSeqnum s)
  have "m' = m \<or> m' = m\<lparr>lm_seqnum := seqnum_initializing\<rparr> \<and> lm_seqnum m \<noteq> seqnum_initializing \<and> lm_seqnum m \<noteq> S"
    using st inv(1) CasSeqnum by (auto simp: mark_thread_step_def Let_def thread_inv_def split: if_splits)
  then show ?thesis using inv(2) S by (cases "mt_pc u") (auto simp: thread_inv_def pcs)
next
  case ClearBytes
  have "\<not> resetting (mt_pc u)" "\<not> after_reset (mt_pc u)" "lm_seqnum m = seqnum_initializing"
    using reset_alone [OF S inv pair] ClearBytes by (simp_all add: resetting_def)
  then show ?thesis using inv st ClearBytes S by (auto simp: mark_thread_step_def Let_def thread_inv_def pcs)
next
  case ClearObjects
  have "\<not> resetting (mt_pc u)" "\<not> after_reset (mt_pc u)" "lm_seqnum m = seqnum_initializing"
    using reset_alone [OF S inv pair] ClearObjects by (simp_all add: resetting_def)
  then show ?thesis using inv st ClearObjects S by (auto simp: mark_thread_step_def Let_def thread_inv_def pcs)
next
  case ClearLiveBits
  have "\<not> resetting (mt_pc u)" "\<not> after_reset (mt_pc u)" "lm_seqnum m = seqnum_initializing"
    using reset_alone [OF S inv pair] ClearLiveBits by (simp_all add: resetting_def)
  then show ?thesis using inv st ClearLiveBits S by (auto simp: mark_thread_step_def Let_def thread_inv_def pcs)
next
  case ClearClaimBits
  have "\<not> resetting (mt_pc u)" "\<not> after_reset (mt_pc u)" "lm_seqnum m = seqnum_initializing"
    using reset_alone [OF S inv pair] ClearClaimBits by (simp_all add: resetting_def)
  then show ?thesis using inv st ClearClaimBits S by (auto simp: mark_thread_step_def Let_def thread_inv_def pcs)
next
  case AssertInitializing
  then show ?thesis using inv st by (auto simp: mark_thread_step_def Let_def)
next
  case StoreSeqnum
  have "\<not> resetting (mt_pc u)" "\<not> after_reset (mt_pc u)" "lm_seqnum m = seqnum_initializing"
    using reset_alone [OF S inv pair] StoreSeqnum by (simp_all add: resetting_def)
  then show ?thesis using inv st StoreSeqnum S by (auto simp: mark_thread_step_def Let_def thread_inv_def pcs)
next
  case TestSegment
  then show ?thesis using inv st by (auto simp: mark_thread_step_def Let_def)
next
  case WaitSegment
  then show ?thesis using inv st by (auto simp: mark_thread_step_def Let_def)
next
  case (Marked r n)
  then show ?thesis using inv st by (auto simp: mark_thread_step_def Let_def)
next
  case AssertFailed
  then show ?thesis using inv st by (auto simp: mark_thread_step_def Let_def)
next
  case SetPair
  have "m' = m \<or> m' = m\<lparr>lm_bitmap := (lm_bitmap m)(mt_index t := True)\<rparr>"
    using st SetPair by (auto simp: mark_thread_step_def Let_def split: if_splits)
  moreover have "bit (segment_live_bits m) (index_to_segment m (mt_index t))" using inv(1) SetPair by (simp add: thread_inv_def pcs)
  ultimately show ?thesis using inv(2)
    by (cases "mt_pc u") (auto simp: thread_inv_def pcs intro: word_read_grows split: if_splits)
qed

lemma pair_inv_step:
  assumes shape: "livemap_shape m" and inv: "thread_inv S m t" "thread_inv S m u"
    and pair: "pair_inv m t u" and st: "mark_thread_step S m t = (m', t')"
  shows "pair_inv m' t' u"
proof -
  have g: "index_to_segment m' = index_to_segment m"
    using step_unchanged(1) [OF shape st] by (auto simp: unchanged_def index_to_segment_def)
  have r: "resetting (mt_pc t') \<Longrightarrow> resetting (mt_pc t) \<or> lm_seqnum m \<noteq> seqnum_initializing"
    using st by (cases "mt_pc t") (auto simp: mark_thread_step_def Let_def pcs split: if_splits)
  have c: "clearing (mt_pc t') \<Longrightarrow> clearing (mt_pc t) \<or> \<not> bit (segment_claim_bits m) (index_to_segment m (mt_index t))"
    using st by (cases "mt_pc t") (auto simp: mark_thread_step_def Let_def pcs split: if_splits)
  have "resetting (mt_pc u) \<Longrightarrow> lm_seqnum m = seqnum_initializing"
    "clearing (mt_pc u) \<Longrightarrow> bit (segment_claim_bits m) (index_to_segment m (mt_index u))"
    using inv(2) by (simp_all add: thread_inv_def)
  then show ?thesis using pair r c unfolding pair_inv_def g step_unchanged(2) [OF shape st] by auto
qed

lemma marks_step:
  assumes shape: "livemap_shape m" and S: "S \<noteq> seqnum_initializing" and inv: "thread_inv S m t"
    and bits: "thread_bits t \<subseteq> marks S m" and st: "mark_thread_step S m t = (m', t')"
  shows "marks S m' = marks S m \<union> thread_bits t'"
proof (cases "mt_pc t")
  case (CasWord w)
  have ev: "even (mt_index t)" "word_read (lm_bitmap m) (mt_index t) w" using inv CasWord by (simp_all add: thread_inv_def)
  have pr: "index_to_segment m (Suc (mt_index t)) = index_to_segment m (mt_index t)" by (rule segment_pair [OF shape ev(1)])
  have sz: "mt_index t < lm_bitmap_size m" using inv by (simp add: thread_inv_def)
  have "even (lm_bitmap_size m)" using shape by (auto simp: livemap_shape_def nsegments_def)
  then have sz1: "Suc (mt_index t) < lm_bitmap_size m" using ev(1) sz by (metis Suc_lessI even_Suc)
  have w: "bit (segment_live_bits m) (index_to_segment m (mt_index t))" "lm_seqnum m = S" "\<not> mt_finalizable t"
    using inv CasWord by (auto simp: thread_inv_def pcs)
  from ev(1) CasWord ev(2) st show ?thesis
  proof (cases rule: cas_word_step)
    case retry
    then show ?thesis by (simp add: thread_bits_def)
  qed (use w sz sz1 pr in \<open>auto simp: thread_bits_def marks_def livemap_get_def is_marked_def is_segment_live_def split: if_splits\<close>)
next
  case SetPair
  then show ?thesis using st inv
    by (auto simp: mark_thread_step_def Let_def thread_bits_def thread_inv_def pcs marks_def livemap_get_def is_marked_def
        is_segment_live_def split: if_splits)
next
  case (ClearFrom j)
  then have "\<not> bit (segment_live_bits m) (index_to_segment m (mt_index t))"
    "j < segment_end m (index_to_segment m (mt_index t)) \<longrightarrow> index_to_segment m j = index_to_segment m (mt_index t)"
    using inv segment_bounds [OF shape, of "index_to_segment m (mt_index t)" j] by (auto simp: thread_inv_def pcs)
  then show ?thesis using st ClearFrom
    by (auto simp: mark_thread_step_def Let_def thread_bits_def marks_def livemap_get_def is_marked_def
        is_segment_live_def split: if_splits)
next
  case SetSegmentLive
  have "index_to_segment m (mt_index t) < 64" using inv segment_less [OF shape] by (simp add: thread_inv_def)
  then show ?thesis using st inv SetSegmentLive set_bit_word
    by (auto simp: mark_thread_step_def Let_def thread_bits_def thread_inv_def pcs marks_def livemap_get_def is_marked_def
        is_segment_live_def split: if_splits)
next
  case (Marked r n)
  then show ?thesis using st bits by (auto simp: mark_thread_step_def Let_def)
qed (use st inv S in \<open>auto simp: mark_thread_step_def Let_def thread_bits_def thread_inv_def pcs marks_def livemap_get_def is_marked_def
        is_segment_live_def split: if_splits\<close>)

text \<open>An object is counted by the thread that finds it dead.\<close>

lemma counted_step:
  assumes shape: "livemap_shape m" and inv: "thread_inv S m t" and st: "mark_thread_step S m t = (m', t')"
    and new: "thread_bits t = {}" "thread_bits t' \<noteq> {}"
  shows "counted t' \<longleftrightarrow> mt_index t \<notin> marks S m"
proof (cases "mt_pc t")
  case (CasWord w)
  have ev: "even (mt_index t)" "word_read (lm_bitmap m) (mt_index t) w" using inv CasWord by (simp_all add: thread_inv_def)
  have pr: "index_to_segment m (Suc (mt_index t)) = index_to_segment m (mt_index t)" by (rule segment_pair [OF shape ev(1)])
  have w: "bit (segment_live_bits m) (index_to_segment m (mt_index t))" "lm_seqnum m = S" "mt_index t < lm_bitmap_size m"
    using inv CasWord by (auto simp: thread_inv_def pcs)
  from ev(1) CasWord ev(2) st show ?thesis
  proof (cases rule: cas_word_step)
    case retry
    then show ?thesis using new by (simp add: thread_bits_def)
  qed (use w in \<open>auto simp: counted_def marks_def livemap_get_def is_marked_def is_segment_live_def\<close>)
next
  case SetPair
  then show ?thesis using st new inv
    by (auto simp: mark_thread_step_def Let_def thread_bits_def counted_def thread_inv_def pcs marks_def livemap_get_def is_marked_def
        is_segment_live_def split: if_splits)
qed (use st new in \<open>auto simp: mark_thread_step_def Let_def thread_bits_def split: if_splits\<close>)

subsection \<open>All threads\<close>

definition threads_inv :: "u32 \<Rightarrow> 't mark_state \<Rightarrow> bool" where
  "threads_inv S s \<longleftrightarrow> (case s of (m, ts) \<Rightarrow>
     livemap_shape m \<and> (\<forall>a. thread_inv S m (ts a)) \<and> (\<forall>a b. a \<noteq> b \<longrightarrow> pair_inv m (ts a) (ts b))
     \<and> (lm_seqnum m = seqnum_initializing \<longrightarrow> (\<exists>a. resetting (mt_pc (ts a))))
     \<and> (lm_seqnum m = S \<longrightarrow> (\<forall>k < 64. bit (segment_claim_bits m) k \<longrightarrow> bit (segment_live_bits m) k
          \<or> (\<exists>a. clearing (mt_pc (ts a)) \<and> index_to_segment m (mt_index (ts a)) = k))))"

text \<open>The marks of the cycle are those there were before and those of the threads that are done, and each
  object that was dead is counted by one of its threads.\<close>

definition count_inv :: "u32 \<Rightarrow> nat set \<Rightarrow> 't mark_state \<Rightarrow> bool" where
  "count_inv S M s \<longleftrightarrow> (case s of (m, ts) \<Rightarrow>
     marks S m = M \<union> (\<Union>a. thread_bits (ts a))
     \<and> (\<forall>a. counted (ts a) \<longrightarrow> mt_index (ts a) \<notin> M)
     \<and> (\<forall>a b. counted (ts a) \<longrightarrow> counted (ts b) \<longrightarrow> mt_index (ts a) = mt_index (ts b) \<longrightarrow> a = b)
     \<and> (\<forall>a. thread_bits (ts a) \<noteq> {} \<longrightarrow> mt_index (ts a) \<notin> M \<longrightarrow> (\<exists>b. counted (ts b) \<and> mt_index (ts b) = mt_index (ts a))))"

lemma thread_bits_kept:
  assumes "mark_thread_step S m t = (m', t')" "thread_bits t \<noteq> {}"
  shows "m' = m \<and> t' = t"
proof -
  obtain r n where "mt_pc t = Marked r n" using assms(2) by (auto simp: thread_bits_def split: mark_pc.splits)
  then show ?thesis using assms(1) by (simp add: mark_thread_step_def Let_def)
qed

lemma counted_bits: "counted t \<Longrightarrow> mt_index t \<in> thread_bits t"
  by (auto simp: counted_def thread_bits_def)

text \<open>A thread resets the map, or clears a segment, until it has made the map or the segment live.\<close>

lemma resetting_kept:
  assumes "mark_thread_step S m t = (m', t')" "lm_seqnum m' = seqnum_initializing" "S \<noteq> seqnum_initializing"
  shows "lm_seqnum m = seqnum_initializing \<and> (resetting (mt_pc t) \<longrightarrow> resetting (mt_pc t')) \<or> resetting (mt_pc t')"
  using assms
  by (cases "mt_pc t") (auto simp: mark_thread_step_def Let_def pcs set_bitmap_word_def split: if_splits)

lemma claims_kept:
  assumes shape: "livemap_shape m" and inv: "thread_inv S m t" and st: "mark_thread_step S m t = (m', t')"
    and S: "lm_seqnum m' = S" "S \<noteq> seqnum_initializing" and k: "k < 64" "bit (segment_claim_bits m') k"
  shows "bit (segment_live_bits m') k \<or> clearing (mt_pc t') \<and> index_to_segment m (mt_index t) = k
    \<or> lm_seqnum m = S \<and> bit (segment_claim_bits m) k \<and> (bit (segment_live_bits m) k \<longrightarrow> bit (segment_live_bits m') k)
        \<and> \<not> (clearing (mt_pc t) \<and> index_to_segment m (mt_index t) = k)"
proof -
  have i: "index_to_segment m (mt_index t) < 64" using inv segment_less [OF shape] by (simp add: thread_inv_def)
  show ?thesis
  proof (cases "mt_pc t")
    case StoreSeqnum
    then show ?thesis using inv st k by (auto simp: mark_thread_step_def Let_def thread_inv_def)
  next
    case ClaimSegment
    then have "lm_seqnum m = S" using inv by (simp add: thread_inv_def pcs)
    then show ?thesis using st k ClaimSegment set_bit_word [OF i]
      by (auto simp: mark_thread_step_def Let_def pcs split: if_splits)
  next
    case (ClearFrom j)
    then have "lm_seqnum m = S" using inv by (simp add: thread_inv_def pcs)
    then show ?thesis using st k ClearFrom by (auto simp: mark_thread_step_def Let_def pcs split: if_splits)
  next
    case SetSegmentLive
    then have "lm_seqnum m = S" using inv by (simp add: thread_inv_def pcs)
    then show ?thesis using st k SetSegmentLive set_bit_word [OF i] by (auto simp: mark_thread_step_def Let_def pcs)
  next
    case (CasSeqnum s)
    then show ?thesis using st S k by (auto simp: mark_thread_step_def Let_def pcs split: if_splits)
  next
    case (CasWord w)
    then show ?thesis using st S k by (auto simp: mark_thread_step_def Let_def pcs set_bitmap_word_def split: if_splits)
  next
    case ClearLiveBits
    then show ?thesis using inv st S by (auto simp: mark_thread_step_def Let_def thread_inv_def pcs)
  next
    case ClearClaimBits
    then show ?thesis using inv st S by (auto simp: mark_thread_step_def Let_def thread_inv_def pcs)
  qed (use st S k in \<open>auto simp: mark_thread_step_def Let_def pcs split: if_splits\<close>)
qed

lemma threads_inv_step:
  assumes inv: "threads_inv S (m, ts)" and t: "mark_thread_step S m (ts a) = (m', t')" and S: "S \<noteq> seqnum_initializing"
  shows "threads_inv S (m', ts(a := t'))"
proof -
  have i: "livemap_shape m" "\<And>b. thread_inv S m (ts b)" "\<And>b c. b \<noteq> c \<Longrightarrow> pair_inv m (ts b) (ts c)"
    "lm_seqnum m = seqnum_initializing \<Longrightarrow> \<exists>b. resetting (mt_pc (ts b))"
    "\<And>k. lm_seqnum m = S \<Longrightarrow> k < 64 \<Longrightarrow> bit (segment_claim_bits m) k \<Longrightarrow> bit (segment_live_bits m) k
       \<or> (\<exists>b. clearing (mt_pc (ts b)) \<and> index_to_segment m (mt_index (ts b)) = k)"
    using inv unfolding threads_inv_def by auto
  have g: "index_to_segment m' = index_to_segment m" "livemap_shape m'" "mt_index t' = mt_index (ts a)"
    using step_unchanged [OF i(1) t] by (auto simp: unchanged_def index_to_segment_def)
  have th: "thread_inv S m' ((ts(a := t')) b)" for b
    using thread_inv_step [OF i(1) S i(2) t] other_thread_inv_step [OF i(1) S i(2) i(2) i(3) t, of b] by simp
  have one: "pair_inv m' t' (ts c)" if "c \<noteq> a" for c
    by (rule pair_inv_step [OF i(1) i(2) i(2) i(3) t]) (use that in simp)
  have old: "pair_inv m' (ts b) (ts c)" if "b \<noteq> c" for b c using i(3) [OF that] by (simp add: pair_inv_def g(1))
  have pr: "pair_inv m' ((ts(a := t')) b) ((ts(a := t')) c)" if "b \<noteq> c" for b c
    using one [of c] one [of b] old [OF that] that by (auto intro: pair_inv_sym)
  have rs: "\<exists>b. resetting (mt_pc ((ts(a := t')) b))" if r: "lm_seqnum m' = seqnum_initializing"
  proof (cases "resetting (mt_pc t')")
    case False
    then obtain b where "resetting (mt_pc (ts b))" "\<not> resetting (mt_pc (ts a))"
      using resetting_kept [OF t r S] i(4) by blast
    then have "resetting (mt_pc ((ts(a := t')) b))" by auto
    then show ?thesis ..
  qed (metis fun_upd_same)
  have cl: "bit (segment_live_bits m') k \<or> (\<exists>b. clearing (mt_pc ((ts(a := t')) b)) \<and> index_to_segment m' (mt_index ((ts(a := t')) b)) = k)"
    if k: "lm_seqnum m' = S" "k < 64" "bit (segment_claim_bits m') k" for k
    using claims_kept [OF i(1) i(2) t k(1) S k(2,3)]
  proof (elim disjE)
    assume "clearing (mt_pc t') \<and> index_to_segment m (mt_index (ts a)) = k"
    then have "clearing (mt_pc ((ts(a := t')) a)) \<and> index_to_segment m' (mt_index ((ts(a := t')) a)) = k" by (simp add: g)
    then show ?thesis by blast
  next
    assume h: "lm_seqnum m = S \<and> bit (segment_claim_bits m) k \<and> (bit (segment_live_bits m) k \<longrightarrow> bit (segment_live_bits m') k)
      \<and> \<not> (clearing (mt_pc (ts a)) \<and> index_to_segment m (mt_index (ts a)) = k)"
    then consider "bit (segment_live_bits m') k" | b where "clearing (mt_pc (ts b))" "index_to_segment m (mt_index (ts b)) = k"
      using i(5) [of k] k(2) by blast
    then show ?thesis
    proof cases
      case 2
      then have "clearing (mt_pc ((ts(a := t')) b)) \<and> index_to_segment m' (mt_index ((ts(a := t')) b)) = k" using h by (auto simp: g(1))
      then show ?thesis by blast
    qed simp
  qed simp
  show ?thesis unfolding threads_inv_def using g(2) th pr rs cl by auto
qed

lemma count_inv_step:
  assumes inv: "threads_inv S (m, ts)" "count_inv S M (m, ts)" and t: "mark_thread_step S m (ts a) = (m', t')"
    and S: "S \<noteq> seqnum_initializing"
  shows "count_inv S M (m', ts(a := t'))"
proof (cases "thread_bits (ts a) = {}")
  case False
  then have "m' = m" "ts(a := t') = ts" using thread_bits_kept [OF t] by auto
  then show ?thesis using inv(2) by simp
next
  case True
  have i: "livemap_shape m" "\<And>b. thread_inv S m (ts b)" using inv(1) by (simp_all add: threads_inv_def)
  have c: "marks S m = M \<union> (\<Union>b. thread_bits (ts b))" "\<And>b. counted (ts b) \<Longrightarrow> mt_index (ts b) \<notin> M"
    "\<And>b c. counted (ts b) \<Longrightarrow> counted (ts c) \<Longrightarrow> mt_index (ts b) = mt_index (ts c) \<Longrightarrow> b = c"
    "\<And>b. thread_bits (ts b) \<noteq> {} \<Longrightarrow> mt_index (ts b) \<notin> M \<Longrightarrow> \<exists>c. counted (ts c) \<and> mt_index (ts c) = mt_index (ts b)"
    using inv(2) unfolding count_inv_def by auto
  have ix: "mt_index t' = mt_index (ts a)" by (rule step_unchanged(2) [OF i(1) t])
  have no: "\<not> counted (ts a)" using True counted_bits by fastforce
  have "marks S m' = marks S m \<union> thread_bits t'" using True by (intro marks_step [OF i(1) S i(2) _ t]) simp
  moreover have "(\<Union>b. thread_bits ((ts(a := t')) b)) = (\<Union>b. thread_bits (ts b)) \<union> thread_bits t'"
  proof (intro equalityI subsetI)
    fix x assume "x \<in> (\<Union>b. thread_bits ((ts(a := t')) b))"
    then obtain b where "x \<in> thread_bits ((ts(a := t')) b)" by blast
    then show "x \<in> (\<Union>b. thread_bits (ts b)) \<union> thread_bits t'" by (cases "b = a") auto
  next
    fix x assume "x \<in> (\<Union>b. thread_bits (ts b)) \<union> thread_bits t'"
    then show "x \<in> (\<Union>b. thread_bits ((ts(a := t')) b))"
    proof
      assume "x \<in> (\<Union>b. thread_bits (ts b))"
      then obtain b where b: "x \<in> thread_bits (ts b)" by blast
      then have "b \<noteq> a" using True by auto
      then have "x \<in> thread_bits ((ts(a := t')) b)" using b by simp
      then show ?thesis by blast
    next
      assume "x \<in> thread_bits t'"
      then have "x \<in> thread_bits ((ts(a := t')) a)" by simp
      then show ?thesis by blast
    qed
  qed
  ultimately have mk: "marks S m' = M \<union> (\<Union>b. thread_bits ((ts(a := t')) b))" unfolding c(1) by (simp add: Un_assoc)
  have new: "counted t' \<longleftrightarrow> mt_index (ts a) \<notin> marks S m" if "thread_bits t' \<noteq> {}"
    by (rule counted_step [OF i t True that])
  have seen: "mt_index (ts a) \<notin> M \<Longrightarrow> mt_index (ts a) \<in> marks S m \<Longrightarrow> \<exists>b. b \<noteq> a \<and> counted (ts b) \<and> mt_index (ts b) = mt_index (ts a)"
  proof -
    assume "mt_index (ts a) \<notin> M" "mt_index (ts a) \<in> marks S m"
    then obtain b where b: "mt_index (ts a) \<in> thread_bits (ts b)" using c(1) by blast
    have "even (mt_index (ts a))" "even (mt_index (ts b))" using i(2) by (simp_all add: thread_inv_def)
    then have "mt_index (ts b) = mt_index (ts a)" using b by (auto simp: thread_bits_def split: mark_pc.splits if_splits)
    then show "\<exists>b. b \<noteq> a \<and> counted (ts b) \<and> mt_index (ts b) = mt_index (ts a)"
      using c(4) [of b] b \<open>mt_index (ts a) \<notin> M\<close> no by fastforce
  qed
  have fresh: "counted t' \<Longrightarrow> mt_index (ts a) \<notin> marks S m" using new counted_bits [of t'] by auto
  have "counted (ts b) \<Longrightarrow> mt_index (ts b) \<in> marks S m" for b using counted_bits [of "ts b"] c(1) by blast
  then have diff: "counted t' \<Longrightarrow> counted (ts b) \<Longrightarrow> mt_index (ts b) \<noteq> mt_index (ts a)" for b using fresh by metis
  have ex: "\<exists>d. counted ((ts(a := t')) d) \<and> mt_index ((ts(a := t')) d) = mt_index ((ts(a := t')) b)"
    if b: "thread_bits ((ts(a := t')) b) \<noteq> {}" "mt_index ((ts(a := t')) b) \<notin> M" for b
  proof (cases "b = a \<and> counted t'")
    case True
    then have "counted ((ts(a := t')) a) \<and> mt_index ((ts(a := t')) a) = mt_index ((ts(a := t')) b)" by simp
    then show ?thesis by blast
  next
    case False
    have "\<exists>d. d \<noteq> a \<and> counted (ts d) \<and> mt_index (ts d) = mt_index ((ts(a := t')) b)"
    proof (cases "b = a")
      case True
      then show ?thesis using b False seen new ix by simp
    next
      case False
      then have "\<exists>d. counted (ts d) \<and> mt_index (ts d) = mt_index (ts b)" using b by (intro c(4)) simp_all
      then show ?thesis using False no by auto
    qed
    then obtain d where "d \<noteq> a" "counted (ts d)" "mt_index (ts d) = mt_index ((ts(a := t')) b)" by blast
    then have "counted ((ts(a := t')) d) \<and> mt_index ((ts(a := t')) d) = mt_index ((ts(a := t')) b)" by simp
    then show ?thesis by blast
  qed
  have uq: "b = d" if "counted ((ts(a := t')) b)" "counted ((ts(a := t')) d)"
    "mt_index ((ts(a := t')) b) = mt_index ((ts(a := t')) d)" for b d
  proof (rule ccontr)
    assume "b \<noteq> d"
    then consider "b = a" "d \<noteq> a" | "d = a" "b \<noteq> a" | "b \<noteq> a" "d \<noteq> a" by blast
    then show False using that diff [of b] diff [of d] ix c(3) [of b d] \<open>b \<noteq> d\<close> by cases auto
  qed
  have out: "mt_index ((ts(a := t')) b) \<notin> M" if "counted ((ts(a := t')) b)" for b
    using that fresh c(1,2) ix by (cases "b = a") simp_all
  show ?thesis unfolding count_inv_def prod.case using mk ex uq out by blast
qed

subsection \<open>Properties\<close>

text \<open>Threads are about to mark the objects at the given indices.\<close>

definition marking_starts :: "u32 \<Rightarrow> 't mark_state \<Rightarrow> bool" where
  "marking_starts S s \<longleftrightarrow> (case s of (m, ts) \<Rightarrow> livemap_shape m \<and> livemap_quiet S m
     \<and> (\<forall>a. mt_pc (ts a) = TestMarked \<and> even (mt_index (ts a)) \<and> mt_index (ts a) < lm_bitmap_size m))"

lemma marking_inv:
  assumes "mark_reachable S (m0, ts0) s" "marking_starts S (m0, ts0)"
  shows "threads_inv S s \<and> count_inv S (marks S m0) s"
  using assms(1)
proof (induction rule: mark_reachable.induct)
  case start
  have "thread_inv S m0 (ts0 a)" for a using assms(2) by (auto simp: marking_starts_def thread_inv_def pcs livemap_quiet_def)
  moreover have "thread_bits (ts0 a) = {}" "\<not> counted (ts0 a)" for a
    using assms(2) by (simp_all add: marking_starts_def thread_bits_def counted_def)
  moreover have "pair_inv m0 (ts0 a) (ts0 b)" for a b using assms(2) by (simp add: marking_starts_def pair_inv_def pcs)
  ultimately show ?case
    using assms(2) by (auto simp: threads_inv_def count_inv_def marking_starts_def livemap_quiet_def)
next
  case (step s' s'')
  obtain m ts a m' t' where "s' = (m, ts)" "s'' = (m', ts(a := t'))" "mark_thread_step S m (ts a) = (m', t')"
    using step.hyps(2) by (auto elim: mark_stepE)
  then show ?case
    using step.IH threads_inv_step [of S m ts a m' t'] count_inv_step [of S m ts _ a m' t'] assms(2)
    by (auto simp: marking_starts_def livemap_quiet_def)
qed

text \<open>A thread waits for another to finish a reset.\<close>

definition mark_waits :: "z_livemap \<Rightarrow> mark_thread \<Rightarrow> bool" where
  "mark_waits m t \<longleftrightarrow> (mt_pc t = LoadSeqnum \<or> (\<exists>s. mt_pc t = CasSeqnum s)) \<and> lm_seqnum m = seqnum_initializing
     \<or> mt_pc t = WaitSegment \<and> \<not> is_segment_live m (index_to_segment m (mt_index t))"

definition mark_done :: "mark_thread \<Rightarrow> bool" where
  "mark_done t \<longleftrightarrow> (\<exists>r n. mt_pc t = Marked r n)"

definition done_bits :: "('t \<Rightarrow> mark_thread) \<Rightarrow> nat set" where
  "done_bits ts = {i. \<exists>a. mark_done (ts a) \<and> (i = mt_index (ts a) \<or> i = Suc (mt_index (ts a)) \<and> \<not> mt_finalizable (ts a))}"

lemma done_bits_union: "done_bits ts = (\<Union>a. thread_bits (ts a))"
proof -
  have "thread_bits t = {i. mark_done t \<and> (i = mt_index t \<or> i = Suc (mt_index t) \<and> \<not> mt_finalizable t)}" for t
    by (cases "mt_pc t") (auto simp: mark_done_def thread_bits_def)
  then show ?thesis unfolding done_bits_def by blast
qed

text \<open>Runs by a schedule, for concrete inputs.\<close>

fun mark_run :: "u32 \<Rightarrow> 't list \<Rightarrow> 't mark_state \<Rightarrow> 't mark_state" where
  "mark_run S [] s = s"
| "mark_run S (a # as) (m, ts) = (case mark_thread_step S m (ts a) of (m', t') \<Rightarrow> mark_run S as (m', ts(a := t')))"

lemma mark_run_reachable: "mark_reachable S s (m, ts) \<Longrightarrow> mark_reachable S s (mark_run S as (m, ts))"
proof (induction as arbitrary: m ts)
  case (Cons a as)
  obtain m' t' where t: "mark_thread_step S m (ts a) = (m', t')" by (cases "mark_thread_step S m (ts a)")
  then have "mark_reachable S s (m', ts(a := t'))" using Cons.prems by (auto intro: mark_reachable.step mark_step.thread)
  then show ?case using Cons.IH t by simp
qed simp

definition mark_threads_demo :: "bool \<Rightarrow> mark_thread" where
  "mark_threads_demo a = \<lparr>mt_index = 0, mt_finalizable = True, mt_pc = TestMarked\<rparr>"

definition mark_map_demo :: z_livemap where
  "mark_map_demo = livemap_new (\<lambda>_. True) 1"

definition mark_schedule :: "bool list" where
  "mark_schedule = concat (replicate 24 [False, True, True])"

lemma mark_demo_starts: "marking_starts 7 (mark_map_demo, mark_threads_demo)" "marks 7 mark_map_demo = {}"
proof -
  have "livemap_shape mark_map_demo" unfolding mark_map_demo_def by (rule shape_new [of _ 0]) simp
  then show "marking_starts 7 (mark_map_demo, mark_threads_demo)" "marks 7 mark_map_demo = {}"
    by (simp_all add: marking_starts_def livemap_quiet_def mark_map_demo_def livemap_new_def seqnum_initializing_def
        mark_threads_demo_def marks_def livemap_get_def is_marked_def bitmap_size_def nsegments_def)
qed

lemma mark_demo_done: "mark_done (snd (mark_run 7 mark_schedule (mark_map_demo, mark_threads_demo)) False)"
  "mark_done (snd (mark_run 7 mark_schedule (mark_map_demo, mark_threads_demo)) True)"
  by code_simp+

lemma mark_demo_run:
  obtains m ts where "mark_run 7 mark_schedule (mark_map_demo, mark_threads_demo) = (m, ts)"
    "mark_reachable 7 (mark_map_demo, mark_threads_demo) (m, ts)" "mark_done (ts False)" "mark_done (ts True)"
proof -
  obtain m ts where e: "mark_run 7 mark_schedule (mark_map_demo, mark_threads_demo) = (m, ts)"
    by (cases "mark_run 7 mark_schedule (mark_map_demo, mark_threads_demo)")
  then show thesis
    using that mark_run_reachable [OF mark_reachable.start, of 7 mark_map_demo mark_threads_demo mark_schedule] mark_demo_done
    by simp
qed

text \<open>C13. However the threads interleave, the assertion of \<open>reset_segment\<close> holds, no reset ever erases a mark, and
  the marks of the cycle are exactly those there were before and those of the threads that are done.\<close>

theorem concurrent_marking_exact:
  assumes "marking_starts S (m0, ts0)" "mark_reachable S (m0, ts0) (m, ts)"
  shows "marks S m = marks S m0 \<union> done_bits ts \<and> (\<forall>a. mt_pc (ts a) \<noteq> AssertFailed)"
  using marking_inv [OF assms(2,1)] by (simp add: threads_inv_def count_inv_def thread_inv_def done_bits_union)

theorem concurrent_marking_exact_witness:
  "case mark_run 7 mark_schedule (mark_map_demo, mark_threads_demo) of (m, ts) \<Rightarrow> marks 7 m = done_bits ts \<and> 0 \<in> marks 7 m"
proof -
  obtain m ts where r: "mark_run 7 mark_schedule (mark_map_demo, mark_threads_demo) = (m, ts)"
    "mark_reachable 7 (mark_map_demo, mark_threads_demo) (m, ts)" "mark_done (ts False)" by (rule mark_demo_run)
  have i: "mt_index (ts False) = 0"
  proof -
    have "mt_index (snd (mark_run 7 mark_schedule (mark_map_demo, mark_threads_demo)) False) = 0" by code_simp
    then show ?thesis by (simp add: r(1))
  qed
  have "0 \<in> done_bits ts" using r(3) i unfolding done_bits_def by force
  then show ?thesis using concurrent_marking_exact [OF mark_demo_starts(1) r(2)] r(1) mark_demo_starts(2) by simp
qed

text \<open>C15. Among the threads that marked the same object, exactly one is told to count it as live if it was dead
  before, and none if it was live, so live data is counted once.\<close>

theorem concurrent_marking_counts_once:
  assumes "marking_starts S (m0, ts0)" "mark_reachable S (m0, ts0) (m, ts)" "mark_done (ts a)"
  shows "if mt_index (ts a) \<in> marks S m0
    then \<not> (\<exists>b r. mt_index (ts b) = mt_index (ts a) \<and> mt_pc (ts b) = Marked r True)
    else \<exists>!b. mt_index (ts b) = mt_index (ts a) \<and> (\<exists>r. mt_pc (ts b) = Marked r True)"
proof -
  have "thread_bits (ts a) \<noteq> {}" using assms(3) by (auto simp: mark_done_def thread_bits_def)
  note c = marking_inv [OF assms(2,1), THEN conjunct2, unfolded count_inv_def prod.case counted_def]
  show ?thesis
  proof (cases "mt_index (ts a) \<in> marks S m0")
    case True
    have "mt_index (ts b) \<notin> marks S m0" if "mt_pc (ts b) = Marked r True" for b r using c that by blast
    then show ?thesis using True by (auto simp del: not_ex) metis
  next
    case False
    then have "\<exists>b. mt_index (ts b) = mt_index (ts a) \<and> (\<exists>r. mt_pc (ts b) = Marked r True)" using c \<open>thread_bits (ts a) \<noteq> {}\<close> by metis
    moreover have "b = d" if "\<exists>r. mt_pc (ts b) = Marked r True" "\<exists>r. mt_pc (ts d) = Marked r True" "mt_index (ts b) = mt_index (ts d)" for b d
      using c that by blast
    ultimately show ?thesis using False by (simp add: Ex1_def) metis
  qed
qed

theorem concurrent_marking_counts_once_witness:
  "\<exists>m ts. mark_run 7 mark_schedule (mark_map_demo, mark_threads_demo) = (m, ts)
    \<and> (\<exists>!b. mt_index (ts b) = mt_index (ts False) \<and> (\<exists>r. mt_pc (ts b) = Marked r True))"
proof -
  obtain m ts where r: "mark_run 7 mark_schedule (mark_map_demo, mark_threads_demo) = (m, ts)"
    "mark_reachable 7 (mark_map_demo, mark_threads_demo) (m, ts)" "mark_done (ts False)" by (rule mark_demo_run)
  show ?thesis using concurrent_marking_counts_once [OF mark_demo_starts(1) r(2,3)] r(1) by (simp add: mark_demo_starts(2))
qed

text \<open>C16. Threads that mark never all wait for each other: while one is not done, some thread is neither done nor waiting.\<close>

theorem concurrent_marking_no_deadlock:
  assumes "marking_starts S (m0, ts0)" "mark_reachable S (m0, ts0) (m, ts)" "\<not> mark_done (ts a)"
  shows "\<exists>b. \<not> mark_done (ts b) \<and> \<not> mark_waits m (ts b)"
proof (cases "mark_waits m (ts a)")
  case True
  have i: "threads_inv S (m, ts)" "S \<noteq> seqnum_initializing"
    using marking_inv [OF assms(2,1)] assms(1) by (auto simp: marking_starts_def livemap_quiet_def)
  then have th: "thread_inv S m (ts a)" "livemap_shape m" by (simp_all add: threads_inv_def)
  from True consider "lm_seqnum m = seqnum_initializing"
    | "mt_pc (ts a) = WaitSegment" "\<not> is_segment_live m (index_to_segment m (mt_index (ts a)))" by (auto simp: mark_waits_def)
  then obtain b where "resetting (mt_pc (ts b)) \<or> clearing (mt_pc (ts b))"
  proof cases
    case 2
    let ?k = "index_to_segment m (mt_index (ts a))"
    have "bit (segment_claim_bits m) ?k" "lm_seqnum m = S" "?k < 64"
      using th(1) 2(1) segment_less [OF th(2)] by (simp_all add: thread_inv_def pcs)
    then have "\<exists>b. clearing (mt_pc (ts b))" using i(1) 2(2) by (auto simp: threads_inv_def is_segment_live_def)
    then show thesis using that by blast
  qed (use i(1) in \<open>auto simp: threads_inv_def\<close>)
  then have "\<not> mark_done (ts b) \<and> \<not> mark_waits m (ts b)" by (auto simp: pcs mark_done_def mark_waits_def)
  then show ?thesis ..
qed (use assms(3) in blast)

theorem concurrent_marking_no_deadlock_witness:
  "\<exists>b. \<not> mark_done (mark_threads_demo b) \<and> \<not> mark_waits mark_map_demo (mark_threads_demo b)"
proof (rule concurrent_marking_no_deadlock [OF mark_demo_starts(1) mark_reachable.start])
  show "\<not> mark_done (mark_threads_demo True)" by (simp add: mark_done_def mark_threads_demo_def)
qed

end
