(* ===== verification/Z_Remset.thy ===== *)
theory Z_Remset
  imports Z_LiveMap
begin

text \<open>
  The remembered set of a page, \<open>zRememberedSet.hpp\<close>, \<open>zRememberedSet.inline.hpp\<close> and
  \<open>zRememberedSet.cpp\<close>, and \<open>ZBitMap::ReverseIterator\<close> of \<open>zBitMap.inline.hpp\<close>: two bitmaps with a bit
  for every field, whose roles as current and previous set are exchanged for all pages at once
  by flipping the static \<open>_current\<close>, the first argument of the operations. A bitmap is a pair of
  its size and its bits.
\<close>

type_synonym bitmap = "nat \<times> (nat \<Rightarrow> bool)"

definition oopSize :: nat where
  "oopSize = 8"

record z_remset =
  remset_bitmap0 :: bitmap
  remset_bitmap1 :: bitmap

definition bitmap_of :: "nat \<Rightarrow> z_remset \<Rightarrow> bitmap" where
  "bitmap_of k r = (if k = 0 then remset_bitmap0 r else remset_bitmap1 r)"

definition set_bitmap_of :: "nat \<Rightarrow> bitmap \<Rightarrow> z_remset \<Rightarrow> z_remset" where
  "set_bitmap_of k b r = (if k = 0 then r\<lparr>remset_bitmap0 := b\<rparr> else r\<lparr>remset_bitmap1 := b\<rparr>)"

definition remset_flip :: "nat \<Rightarrow> nat" where
  "remset_flip current = current XOR 1"

definition remset_current :: "nat \<Rightarrow> z_remset \<Rightarrow> bitmap" where
  "remset_current current r = bitmap_of current r"

definition remset_previous :: "nat \<Rightarrow> z_remset \<Rightarrow> bitmap" where
  "remset_previous current r = bitmap_of (current XOR 1) r"

definition remset_new :: z_remset where
  "remset_new = \<lparr>remset_bitmap0 = (0, \<lambda>_. False), remset_bitmap1 = (0, \<lambda>_. False)\<rparr>"

definition to_offset :: "nat \<Rightarrow> nat" where
  "to_offset index = index * oopSize"

definition to_index :: "nat \<Rightarrow> nat" where
  "to_index offset = offset div oopSize"

definition to_bit_size :: "nat \<Rightarrow> nat" where
  "to_bit_size sz = sz div oopSize"

definition remset_is_initialized :: "z_remset \<Rightarrow> bool" where
  "remset_is_initialized r \<longleftrightarrow> fst (remset_bitmap0 r) > 0"

definition remset_initialize :: "nat \<Rightarrow> z_remset \<Rightarrow> z_remset" where
  "remset_initialize page_size r =
     (let size_in_bits = to_bit_size page_size
      in r\<lparr>remset_bitmap0 := (size_in_bits, \<lambda>_. False), remset_bitmap1 := (size_in_bits, \<lambda>_. False)\<rparr>)"

text \<open>Resizing keeps the bits below the new size; bits that appear are clear.\<close>

definition bitmap_resize :: "nat \<Rightarrow> bitmap \<Rightarrow> bitmap" where
  "bitmap_resize n b = (n, \<lambda>i. i < fst b \<and> i < n \<and> snd b i)"

definition remset_resize :: "nat \<Rightarrow> z_remset \<Rightarrow> z_remset" where
  "remset_resize page_size r =
     (if remset_is_initialized r
      then let size_in_bits = to_bit_size page_size
           in r\<lparr>remset_bitmap0 := bitmap_resize size_in_bits (remset_bitmap0 r),
                remset_bitmap1 := bitmap_resize size_in_bits (remset_bitmap1 r)\<rparr>
      else r)"

definition at_current :: "nat \<Rightarrow> nat \<Rightarrow> z_remset \<Rightarrow> bool" where
  "at_current current offset r = snd (remset_current current r) (to_index offset)"

definition at_previous :: "nat \<Rightarrow> nat \<Rightarrow> z_remset \<Rightarrow> bool" where
  "at_previous current offset r = snd (remset_previous current r) (to_index offset)"

definition set_current :: "nat \<Rightarrow> nat \<Rightarrow> z_remset \<Rightarrow> bool \<times> z_remset" where
  "set_current current offset r =
     (case remset_current current r of (n, B) \<Rightarrow>
        (\<not> B (to_index offset), set_bitmap_of current (n, B(to_index offset := True)) r))"

definition unset_non_par_current :: "nat \<Rightarrow> nat \<Rightarrow> z_remset \<Rightarrow> z_remset" where
  "unset_non_par_current current offset r =
     (case remset_current current r of (n, B) \<Rightarrow> set_bitmap_of current (n, B(to_index offset := False)) r)"

definition unset_range_non_par_current :: "nat \<Rightarrow> nat \<Rightarrow> nat \<Rightarrow> z_remset \<Rightarrow> z_remset" where
  "unset_range_non_par_current current offset sz r =
     (let start_index = to_index offset; end_index = to_index (offset + sz)
      in case remset_current current r of (n, B) \<Rightarrow>
           set_bitmap_of current (n, \<lambda>i. if start_index \<le> i \<and> i < end_index then False else B i) r)"

definition iterate_bitmap :: "'s bitmap_iterate \<Rightarrow> (nat \<Rightarrow> 's \<Rightarrow> 's) \<Rightarrow> bitmap \<Rightarrow> 's \<Rightarrow> 's" where
  "iterate_bitmap it f b s = snd (it (snd b) (\<lambda>index s. (True, f (to_offset index) s)) 0 (fst b) s)"

definition iterate_previous :: "'s bitmap_iterate \<Rightarrow> nat \<Rightarrow> (nat \<Rightarrow> 's \<Rightarrow> 's) \<Rightarrow> z_remset \<Rightarrow> 's \<Rightarrow> 's" where
  "iterate_previous it current f r s = iterate_bitmap it f (remset_previous current r) s"

definition iterate_current :: "'s bitmap_iterate \<Rightarrow> nat \<Rightarrow> (nat \<Rightarrow> 's \<Rightarrow> 's) \<Rightarrow> z_remset \<Rightarrow> 's \<Rightarrow> 's" where
  "iterate_current it current f r s = iterate_bitmap it f (remset_current current r) s"

definition bitmap_empty :: "bitmap \<Rightarrow> bool" where
  "bitmap_empty b \<longleftrightarrow> (\<forall>i \<in> set [0 ..< fst b]. \<not> snd b i)"

definition is_cleared_current :: "nat \<Rightarrow> z_remset \<Rightarrow> bool" where
  "is_cleared_current current r = bitmap_empty (remset_current current r)"

definition is_cleared_previous :: "nat \<Rightarrow> z_remset \<Rightarrow> bool" where
  "is_cleared_previous current r = bitmap_empty (remset_previous current r)"

definition clear_current :: "nat \<Rightarrow> z_remset \<Rightarrow> z_remset" where
  "clear_current current r = set_bitmap_of current (fst (remset_current current r), \<lambda>_. False) r"

definition clear_previous :: "nat \<Rightarrow> z_remset \<Rightarrow> z_remset" where
  "clear_previous current r = set_bitmap_of (current XOR 1) (fst (remset_previous current r), \<lambda>_. False) r"

definition clear_all :: "nat \<Rightarrow> z_remset \<Rightarrow> z_remset" where
  "clear_all current r = clear_previous current (clear_current current r)"

definition swap_remset_bitmaps :: "bitmap bitmap_iterate \<Rightarrow> nat \<Rightarrow> z_remset \<Rightarrow> z_remset" where
  "swap_remset_bitmaps it current r =
     (let b = remset_current current r;
          p = snd (it (snd b) (\<lambda>index p. (True, (fst p, (snd p)(index := True)))) 0 (fst b) (remset_previous current r))
      in clear_current current (set_bitmap_of (current XOR 1) p r))"

subsection \<open>The backward iterator\<close>

record reverse_iterator =
  ri_beg :: nat
  ri_end :: nat

definition reverse_iterator_all :: "bitmap \<Rightarrow> reverse_iterator" where
  "reverse_iterator_all b = \<lparr>ri_beg = 0, ri_end = fst b\<rparr>"

definition ri_reset :: "nat \<Rightarrow> nat \<Rightarrow> reverse_iterator \<Rightarrow> reverse_iterator" where
  "ri_reset beg end it = it\<lparr>ri_beg := beg, ri_end := end\<rparr>"

definition ri_reset_end :: "nat \<Rightarrow> reverse_iterator \<Rightarrow> reverse_iterator" where
  "ri_reset_end end it = it\<lparr>ri_end := end\<rparr>"

text \<open>\<open>BitMap::ReverseIterator\<close> stands on the last set bit of its range and is empty without one.\<close>

definition ri_next :: "bitmap_find \<Rightarrow> bitmap \<Rightarrow> reverse_iterator \<Rightarrow> nat option \<times> reverse_iterator" where
  "ri_next fl b it =
     (let index = fl (snd b) (ri_beg it) (ri_end it)
      in if index = ri_end it then (None, it) else (Some index, it\<lparr>ri_end := index\<rparr>))"

end
