(* ===== verification/Z_Allocators.thy ===== *)
theory Z_Allocators
  imports JS_Public Bt_Public
begin

text \<open>
  The allocators of recycled pages: \<open>ZinaryBuddyAllocator\<close> and \<open>ZTLSFAllocator\<close> of
  \<open>ZAllocators.hpp\<close>, and \<open>AllocatorWrapper\<close> and \<open>ZAllocatorWrapper\<close> of \<open>AllocatorWrapper.cpp\<close>, which
  delegate to one of them. The uninitialised memory an allocator is built in is an argument, and
  so are the locks that are contended during an allocation.
\<close>

record raw_memory =
  raw_js :: js_state
  raw_links :: "link_ptr links"
  raw_size_map :: "u8 list list"
  raw_free_blocks :: "u8 list list"
  raw_tree :: "u8 list list"

datatype z_allocator = ZTLSFAllocator js_state | ZinaryBuddyAllocator bt_buddy

definition wrapper_new :: "raw_memory \<Rightarrow> u64 \<Rightarrow> u64 \<Rightarrow> nat \<Rightarrow> bool \<Rightarrow> bool \<Rightarrow> z_allocator" where
  "wrapper_new raw initial_pool pool_size lazyThreshold startFull useBinaryBuddyAllocator =
     (if useBinaryBuddyAllocator
      then ZinaryBuddyAllocator (bt_new ZConfig (raw_links raw) (raw_size_map raw) (raw_free_blocks raw) (raw_tree raw)
             (unat initial_pool) lazyThreshold startFull)
      else ZTLSFAllocator (js_new ZOptimizedConfig initial_pool pool_size startFull (raw_js raw)))"

definition wrapper_reset :: "z_allocator \<Rightarrow> z_allocator" where
  "wrapper_reset w = (case w of
     ZinaryBuddyAllocator b \<Rightarrow> ZinaryBuddyAllocator (buddy_fill ZConfig (bt_init_bitmaps ZConfig) b)
   | ZTLSFAllocator s \<Rightarrow> ZTLSFAllocator (js_reset ZOptimizedConfig True s))"

definition wrapper_allocate :: "(buddy_lock \<Rightarrow> bool) \<Rightarrow> u64 \<Rightarrow> z_allocator \<Rightarrow> (u64 \<times> z_allocator) option" where
  "wrapper_allocate contended sz w = (case w of
     ZinaryBuddyAllocator b \<Rightarrow>
       (case bt_allocate ZConfig contended b (unat sz) of
          (None, b) \<Rightarrow> Some (0, ZinaryBuddyAllocator b)
        | (Some p, b) \<Rightarrow> Some (word_of_nat p, ZinaryBuddyAllocator b))
   | ZTLSFAllocator s \<Rightarrow>
       (case js_allocate ZOptimizedConfig sz s of
          None \<Rightarrow> None | Some (p, s) \<Rightarrow> Some (p, ZTLSFAllocator s)))"

definition wrapper_free_sized :: "u64 \<Rightarrow> u64 \<Rightarrow> z_allocator \<Rightarrow> z_allocator" where
  "wrapper_free_sized ptr block_size w = (case w of
     ZinaryBuddyAllocator b \<Rightarrow> ZinaryBuddyAllocator (bt_deallocate_sized ZConfig b (unat ptr) (unat block_size))
   | ZTLSFAllocator s \<Rightarrow> ZTLSFAllocator (jsz_free ptr block_size s))"

definition wrapper_free :: "u64 \<Rightarrow> z_allocator \<Rightarrow> z_allocator" where
  "wrapper_free ptr w = wrapper_free_sized ptr 0 w"

definition wrapper_free_range :: "u64 \<Rightarrow> u64 \<Rightarrow> z_allocator \<Rightarrow> z_allocator option" where
  "wrapper_free_range start_ptr sz w = (case w of
     ZinaryBuddyAllocator b \<Rightarrow>
       map_option ZinaryBuddyAllocator (deallocate_range ZConfig (bt_deallocate_internal ZConfig) b (unat start_ptr) (unat sz))
   | ZTLSFAllocator s \<Rightarrow> Some (ZTLSFAllocator (jsz_free_range start_ptr sz s)))"

definition wrapper_aggregate :: "z_allocator \<Rightarrow> z_allocator option" where
  "wrapper_aggregate w = (case w of
     ZinaryBuddyAllocator b \<Rightarrow> Some (ZinaryBuddyAllocator (empty_lazy_list ZConfig (bt_deallocate_internal ZConfig) b))
   | ZTLSFAllocator s \<Rightarrow> map_option ZTLSFAllocator (jsz_aggregate s))"

end
