(* ===== verification/Z_Page.thy ===== *)
theory Z_Page
  imports Z_Remset Z_Allocators Z_Address
begin

text \<open>
  A page, \<open>zPage.hpp\<close>, \<open>zPage.inline.hpp\<close> and \<open>zPage.cpp\<close>: its range of the heap, the pointer below
  which it is allocated, its live map, remembered set and allocator of recycled memory. The
  sequence numbers of the generations are arguments, and so are the constants that depend on the
  platform and the command line. The physical memory behind a page is not modelled, but for its
  size; statistics and printing are left out.
\<close>

datatype z_page_type = SmallPage | MediumPage | LargePage

datatype z_generation_id = GenYoung | GenOld

datatype z_page_age = Eden | Survivor1 | Survivor2 | Survivor3 | Survivor4 | Survivor5 | Survivor6 | Survivor7
  | Survivor8 | Survivor9 | Survivor10 | Survivor11 | Survivor12 | Survivor13 | Survivor14 | AgeOld

datatype z_page_reset_type = ResetAllocation | InPlaceRelocation | FlipAging | Splitting

record z_params =
  heap_base :: u64
  offset_mask :: u64
  offset_max :: u64
  small_shift :: nat
  medium_shift :: nat
  page_size_medium :: u64

record z_virtual =
  vm_start :: u64
  vm_end :: u64

record z_page =
  pg_type :: z_page_type
  pg_generation_id :: z_generation_id
  pg_age :: z_page_age
  pg_seqnum :: u32
  pg_recycling_seqnum :: u32
  pg_seqnum_other :: u32
  pg_virtual :: z_virtual
  pg_top :: u64
  pg_livemap :: z_livemap
  pg_remembered_set :: z_remset
  pg_last_used :: u64
  pg_allocator :: "z_allocator option"
  pg_exhausted :: bool
  pg_bytes_freed :: u64
  pg_bytes_used :: u64
  pg_failed_relocation_size :: u64

subsection \<open>Constants and accessors\<close>

definition ZPageSizeSmallShift :: nat where
  "ZPageSizeSmallShift = 21"

definition ZPageSizeSmall :: u64 where
  "ZPageSizeSmall = push_bit ZPageSizeSmallShift 1"

definition ZObjectAlignmentLargeShift :: nat where
  "ZObjectAlignmentLargeShift = 21"

definition type_from_size :: "z_params \<Rightarrow> u64 \<Rightarrow> z_page_type" where
  "type_from_size P sz =
     (if sz = ZPageSizeSmall then SmallPage else if sz = page_size_medium P then MediumPage else LargePage)"

definition page_start :: "z_page \<Rightarrow> u64" where
  "page_start pg = vm_start (pg_virtual pg)"

definition page_end :: "z_page \<Rightarrow> u64" where
  "page_end pg = vm_end (pg_virtual pg)"

definition page_size :: "z_page \<Rightarrow> u64" where
  "page_size pg = vm_end (pg_virtual pg) - vm_start (pg_virtual pg)"

definition object_alignment_shift :: "z_params \<Rightarrow> z_page \<Rightarrow> nat" where
  "object_alignment_shift P pg = (case pg_type pg of
     SmallPage \<Rightarrow> small_shift P | MediumPage \<Rightarrow> medium_shift P | LargePage \<Rightarrow> ZObjectAlignmentLargeShift)"

definition object_alignment :: "z_params \<Rightarrow> z_page \<Rightarrow> u64" where
  "object_alignment P pg = (case pg_type pg of
     SmallPage \<Rightarrow> push_bit (small_shift P) 1 | MediumPage \<Rightarrow> push_bit (medium_shift P) 1
   | LargePage \<Rightarrow> push_bit ZObjectAlignmentLargeShift 1)"

definition object_max_count :: "z_params \<Rightarrow> z_page \<Rightarrow> u32" where
  "object_max_count P pg = (case pg_type pg of
     LargePage \<Rightarrow> 1 | _ \<Rightarrow> ucast (drop_bit (object_alignment_shift P pg) (page_size pg)))"

definition page_remaining :: "z_page \<Rightarrow> u64" where
  "page_remaining pg = page_end pg - pg_top pg"

definition page_used :: "z_page \<Rightarrow> u64" where
  "page_used pg = pg_top pg - page_start pg"

definition page_is_in :: "u64 \<Rightarrow> z_page \<Rightarrow> bool" where
  "page_is_in offset pg \<longleftrightarrow> offset \<ge> page_start pg \<and> offset < pg_top pg"

definition page_is_in_address :: "z_params \<Rightarrow> u64 \<Rightarrow> z_page \<Rightarrow> bool" where
  "page_is_in_address P addr pg = page_is_in (zaddress_offset (offset_mask P) addr) pg"

definition local_offset :: "u64 \<Rightarrow> z_page \<Rightarrow> u64" where
  "local_offset offset pg = offset - page_start pg"

definition local_offset_address :: "z_params \<Rightarrow> u64 \<Rightarrow> z_page \<Rightarrow> u64" where
  "local_offset_address P addr pg = local_offset (zaddress_offset (offset_mask P) addr) pg"

definition global_offset :: "u64 \<Rightarrow> z_page \<Rightarrow> u64" where
  "global_offset l_offset pg = page_start pg + l_offset"

definition is_allocating :: "(z_generation_id \<Rightarrow> u32) \<Rightarrow> z_page \<Rightarrow> bool" where
  "is_allocating seqnum pg \<longleftrightarrow> pg_seqnum pg = seqnum (pg_generation_id pg)"

definition is_relocatable :: "(z_generation_id \<Rightarrow> u32) \<Rightarrow> z_page \<Rightarrow> bool" where
  "is_relocatable seqnum pg \<longleftrightarrow> pg_seqnum pg < seqnum (pg_generation_id pg)"

subsection \<open>Marking\<close>

definition bit_index :: "z_params \<Rightarrow> u64 \<Rightarrow> z_page \<Rightarrow> nat" where
  "bit_index P addr pg = unat (drop_bit (object_alignment_shift P pg) (local_offset_address P addr pg) * 2)"

definition offset_from_bit_index :: "z_params \<Rightarrow> nat \<Rightarrow> z_page \<Rightarrow> u64" where
  "offset_from_bit_index P index pg =
     page_start pg + push_bit (object_alignment_shift P pg) (word_of_nat (index div 2))"

definition object_from_bit_index :: "z_params \<Rightarrow> nat \<Rightarrow> z_page \<Rightarrow> u64" where
  "object_from_bit_index P index pg = zoffset_address (heap_base P) (offset_from_bit_index P index pg)"

definition is_live_bit_set :: "z_params \<Rightarrow> (z_generation_id \<Rightarrow> u32) \<Rightarrow> u64 \<Rightarrow> z_page \<Rightarrow> bool" where
  "is_live_bit_set P seqnum addr pg =
     livemap_get (seqnum (pg_generation_id pg)) (bit_index P addr pg) (pg_livemap pg)"

definition is_strong_bit_set :: "z_params \<Rightarrow> (z_generation_id \<Rightarrow> u32) \<Rightarrow> u64 \<Rightarrow> z_page \<Rightarrow> bool" where
  "is_strong_bit_set P seqnum addr pg =
     livemap_get (seqnum (pg_generation_id pg)) (bit_index P addr pg + 1) (pg_livemap pg)"

definition is_object_live :: "z_params \<Rightarrow> (z_generation_id \<Rightarrow> u32) \<Rightarrow> u64 \<Rightarrow> z_page \<Rightarrow> bool" where
  "is_object_live P seqnum addr pg \<longleftrightarrow> is_allocating seqnum pg \<or> is_live_bit_set P seqnum addr pg"

definition is_object_strongly_live :: "z_params \<Rightarrow> (z_generation_id \<Rightarrow> u32) \<Rightarrow> u64 \<Rightarrow> z_page \<Rightarrow> bool" where
  "is_object_strongly_live P seqnum addr pg \<longleftrightarrow> is_allocating seqnum pg \<or> is_strong_bit_set P seqnum addr pg"

definition is_object_marked :: "z_params \<Rightarrow> (z_generation_id \<Rightarrow> u32) \<Rightarrow> u64 \<Rightarrow> bool \<Rightarrow> z_page \<Rightarrow> bool" where
  "is_object_marked P seqnum addr finalizable pg =
     (if finalizable then is_object_live P seqnum addr pg else is_object_strongly_live P seqnum addr pg)"

definition mark_object :: "z_params \<Rightarrow> (z_generation_id \<Rightarrow> u32) \<Rightarrow> u64 \<Rightarrow> bool \<Rightarrow> z_page \<Rightarrow> (bool \<times> bool \<times> z_page) option" where
  "mark_object P seqnum addr finalizable pg =
     (case livemap_set (seqnum (pg_generation_id pg)) (bit_index P addr pg) finalizable (pg_livemap pg) of
        None \<Rightarrow> None
      | Some (result, inc_live, m) \<Rightarrow> Some (result, inc_live, pg\<lparr>pg_livemap := m\<rparr>))"

definition page_inc_live :: "u32 \<Rightarrow> u64 \<Rightarrow> z_page \<Rightarrow> z_page" where
  "page_inc_live objects bytes pg = pg\<lparr>pg_livemap := livemap_inc_live objects bytes (pg_livemap pg)\<rparr>"

definition object_iterate ::
  "z_params \<Rightarrow> bitmap_find \<Rightarrow> 's bitmap_iterate \<Rightarrow> (z_generation_id \<Rightarrow> u32) \<Rightarrow> z_page \<Rightarrow> (u64 \<Rightarrow> 's \<Rightarrow> 's) \<Rightarrow> 's \<Rightarrow> 's option" where
  "object_iterate P ff it seqnum pg f s =
     livemap_iterate ff it (seqnum (pg_generation_id pg)) (pg_livemap pg)
       (\<lambda>index s. (True, f (object_from_bit_index P index pg) s)) s"

definition find_base_unsafe :: "z_params \<Rightarrow> bitmap_find \<Rightarrow> u64 \<Rightarrow> z_page \<Rightarrow> u64" where
  "find_base_unsafe P fl p pg =
     (if pg_type pg = LargePage then zoffset_address (heap_base P) (page_start pg)
      else case find_base_bit fl (pg_livemap pg) (bit_index P p pg) of
             None \<Rightarrow> 0
           | Some base_index \<Rightarrow> zoffset_address (heap_base P) (offset_from_bit_index P base_index pg))"

subsection \<open>Remembering fields\<close>

definition remember :: "z_params \<Rightarrow> nat \<Rightarrow> u64 \<Rightarrow> z_page \<Rightarrow> z_page" where
  "remember P current p pg =
     pg\<lparr>pg_remembered_set := snd (set_current current (unat (local_offset_address P p pg)) (pg_remembered_set pg))\<rparr>"

definition is_remembered :: "z_params \<Rightarrow> nat \<Rightarrow> u64 \<Rightarrow> z_page \<Rightarrow> bool" where
  "is_remembered P current p pg = at_current current (unat (local_offset_address P p pg)) (pg_remembered_set pg)"

definition was_remembered :: "z_params \<Rightarrow> nat \<Rightarrow> u64 \<Rightarrow> z_page \<Rightarrow> bool" where
  "was_remembered P current p pg = at_previous current (unat (local_offset_address P p pg)) (pg_remembered_set pg)"

definition oops_do_remembered ::
  "z_params \<Rightarrow> 's bitmap_iterate \<Rightarrow> nat \<Rightarrow> z_page \<Rightarrow> (u64 \<Rightarrow> 's \<Rightarrow> 's) \<Rightarrow> 's \<Rightarrow> 's" where
  "oops_do_remembered P it current pg f s =
     iterate_previous it current
       (\<lambda>l_offset s. f (zoffset_address (heap_base P) (page_start pg + word_of_nat l_offset)) s) (pg_remembered_set pg) s"

definition oops_do_current_remembered ::
  "z_params \<Rightarrow> 's bitmap_iterate \<Rightarrow> nat \<Rightarrow> z_page \<Rightarrow> (u64 \<Rightarrow> 's \<Rightarrow> 's) \<Rightarrow> 's \<Rightarrow> 's" where
  "oops_do_current_remembered P it current pg f s =
     iterate_current it current
       (\<lambda>l_offset s. f (zoffset_address (heap_base P) (page_start pg + word_of_nat l_offset)) s) (pg_remembered_set pg) s"

subsection \<open>Allocation by moving the top\<close>

definition to_zoffset_end :: "z_params \<Rightarrow> u64 \<Rightarrow> u64 \<Rightarrow> u64 option" where
  "to_zoffset_end P start sz = (let v = start + sz in if v \<le> offset_max P then Some v else None)"

definition alloc_object :: "z_params \<Rightarrow> u64 \<Rightarrow> z_page \<Rightarrow> u64 \<times> z_page" where
  "alloc_object P sz pg =
     (let aligned_size = align_up sz (object_alignment P pg); addr = pg_top pg
      in case to_zoffset_end P addr aligned_size of
           None \<Rightarrow> (0, pg)
         | Some new_top \<Rightarrow>
             (if new_top > page_end pg then (0, pg)
              else (zoffset_address (heap_base P) addr, pg\<lparr>pg_top := new_top\<rparr>)))"

definition undo_alloc_object :: "u64 \<Rightarrow> u64 \<Rightarrow> z_page \<Rightarrow> bool \<times> z_page" where
  "undo_alloc_object addr sz pg = (False, pg)"

definition fill_page :: "z_page \<Rightarrow> z_page" where
  "fill_page pg = pg\<lparr>pg_top := page_end pg\<rparr>"

subsection \<open>Life cycle\<close>

definition page_new :: "z_params \<Rightarrow> (nat \<Rightarrow> bool) \<Rightarrow> u32 \<Rightarrow> z_page_type \<Rightarrow> z_virtual \<Rightarrow> z_page" where
  "page_new P garbage recycling_garbage type vmem =
     (let pg = \<lparr>pg_type = type, pg_generation_id = GenYoung, pg_age = Eden, pg_seqnum = 0,
                pg_recycling_seqnum = recycling_garbage, pg_seqnum_other = 0, pg_virtual = vmem, pg_top = vm_start vmem,
                pg_livemap = livemap_new garbage 0, pg_remembered_set = remset_new, pg_last_used = 0,
                pg_allocator = None, pg_exhausted = False, pg_bytes_freed = 0, pg_bytes_used = 0,
                pg_failed_relocation_size = 0\<rparr>
      in pg\<lparr>pg_livemap := livemap_new garbage (unat (object_max_count P pg))\<rparr>)"

definition clone_limited :: "z_params \<Rightarrow> (nat \<Rightarrow> bool) \<Rightarrow> u32 \<Rightarrow> z_page \<Rightarrow> z_page" where
  "clone_limited P garbage recycling_garbage pg = page_new P garbage recycling_garbage (pg_type pg) (pg_virtual pg)"

definition clone_limited_promote_flipped :: "z_params \<Rightarrow> (nat \<Rightarrow> bool) \<Rightarrow> u32 \<Rightarrow> z_page \<Rightarrow> z_page" where
  "clone_limited_promote_flipped P garbage recycling_garbage pg =
     (page_new P garbage recycling_garbage (pg_type pg) (pg_virtual pg))\<lparr>pg_top := pg_top pg\<rparr>"

definition reset_seqnum :: "(z_generation_id \<Rightarrow> u32) \<Rightarrow> z_page \<Rightarrow> z_page" where
  "reset_seqnum seqnum pg =
     pg\<lparr>pg_seqnum := seqnum (pg_generation_id pg),
        pg_seqnum_other := seqnum (if pg_generation_id pg = GenYoung then GenOld else GenYoung)\<rparr>"

definition reset_recycling_seqnum :: "(z_generation_id \<Rightarrow> u32) \<Rightarrow> z_page \<Rightarrow> z_page" where
  "reset_recycling_seqnum seqnum pg = pg\<lparr>pg_recycling_seqnum := seqnum (pg_generation_id pg)\<rparr>"

definition reset_remembered_set :: "z_page \<Rightarrow> z_page" where
  "reset_remembered_set pg =
     (if pg_generation_id pg = GenYoung then pg
      else if \<not> remset_is_initialized (pg_remembered_set pg)
      then pg\<lparr>pg_remembered_set := remset_initialize (unat (page_size pg)) (pg_remembered_set pg)\<rparr>
      else pg)"

definition page_reset :: "(z_generation_id \<Rightarrow> u32) \<Rightarrow> z_page_age \<Rightarrow> z_page_reset_type \<Rightarrow> z_page \<Rightarrow> z_page" where
  "page_reset seqnum age type pg =
     (let prev_age = pg_age pg;
          pg = pg\<lparr>pg_age := age, pg_last_used := 0\<rparr>;
          pg = pg\<lparr>pg_generation_id := (if age = AgeOld then GenOld else GenYoung)\<rparr>;
          pg = reset_seqnum seqnum pg;
          pg = (if type \<noteq> FlipAging then pg\<lparr>pg_top := page_start pg\<rparr> else pg);
          pg = reset_remembered_set pg
      in if type \<noteq> InPlaceRelocation \<and> (prev_age \<noteq> AgeOld \<and> age = AgeOld)
         then pg\<lparr>pg_livemap := livemap_reset (pg_livemap pg)\<rparr> else pg)"

definition finalize_reset_for_in_place_relocation :: "z_page \<Rightarrow> z_page" where
  "finalize_reset_for_in_place_relocation pg = pg\<lparr>pg_livemap := livemap_reset (pg_livemap pg)\<rparr>"

definition reset_type_and_size :: "z_params \<Rightarrow> (nat \<Rightarrow> bool) \<Rightarrow> z_page_type \<Rightarrow> z_page \<Rightarrow> z_page" where
  "reset_type_and_size P garbage type pg =
     (let pg = pg\<lparr>pg_type := type\<rparr>;
          pg = pg\<lparr>pg_livemap := livemap_resize garbage (unat (object_max_count P pg)) (pg_livemap pg)\<rparr>
      in pg\<lparr>pg_remembered_set := remset_resize (unat (page_size pg)) (pg_remembered_set pg)\<rparr>)"

definition page_retype :: "z_params \<Rightarrow> (nat \<Rightarrow> bool) \<Rightarrow> z_page_type \<Rightarrow> z_page \<Rightarrow> z_page" where
  "page_retype P garbage type pg = reset_type_and_size P garbage type pg"

definition virtual_split :: "u64 \<Rightarrow> z_virtual \<Rightarrow> z_virtual \<times> z_virtual" where
  "virtual_split sz v =
     (let v = v\<lparr>vm_start := vm_start v + sz\<rparr>
      in (\<lparr>vm_start = vm_start v - sz, vm_end = vm_start v - sz + sz\<rparr>, v))"

text \<open>The new page and the rest of the old one; of the physical memory split off only the size matters here.\<close>

definition split_with_pmem ::
  "z_params \<Rightarrow> (z_generation_id \<Rightarrow> u32) \<Rightarrow> (nat \<Rightarrow> bool) \<Rightarrow> (nat \<Rightarrow> bool) \<Rightarrow> u32 \<Rightarrow> z_page_type \<Rightarrow> u64 \<Rightarrow> z_page \<Rightarrow> z_page \<times> z_page" where
  "split_with_pmem P seqnum garbage garbage' recycling_garbage type pmem_size pg =
     (case virtual_split pmem_size (pg_virtual pg) of
        (vmem, v) \<Rightarrow>
          let pg = pg\<lparr>pg_virtual := v\<rparr>;
              pg = reset_type_and_size P garbage (type_from_size P (page_size pg)) pg;
              pg = page_reset seqnum (pg_age pg) Splitting pg
          in (page_new P garbage' recycling_garbage type vmem, pg))"

end
