(* ===== verification/Z_Recycle.thy ===== *)
theory Z_Recycle
  imports Z_Page
begin

text \<open>
  Recycling the memory of a page, \<open>ZPage::init_free_list\<close> and \<open>ZPage::alloc_object_free_list\<close>: the
  allocator of the page starts out full and is given the gaps between the objects of the live map;
  relocation then allocates from it. Here the live map, the page and \<open>JSMallocZ\<close> behind
  \<open>ZAllocatorWrapper\<close> meet. The sizes of objects, which the virtual machine knows, are an argument.
\<close>

record gap_walk =
  gw_curr :: u64
  gw_freed :: u64
  gw_allocator :: z_allocator

definition free_internal_range ::
  "z_params \<Rightarrow> (u64 \<Rightarrow> u64) \<Rightarrow> u64 \<Rightarrow> z_page \<Rightarrow> gap_walk option bit_function" where
  "free_internal_range P object_size ZMinFreeBlockSize pg idx w =
     (True, case w of
        None \<Rightarrow> None
      | Some w \<Rightarrow>
          let addr = zoffset_address (heap_base P) (offset_from_bit_index P idx pg);
              free_size = align_down (addr - gw_curr w) (object_alignment P pg);
              w' = (if free_size \<ge> ZMinFreeBlockSize
                    then map_option (\<lambda>a. w\<lparr>gw_allocator := a, gw_freed := gw_freed w + free_size\<rparr>)
                           (wrapper_free_range (gw_curr w) free_size (gw_allocator w))
                    else Some w)
          in map_option (\<lambda>w. w\<lparr>gw_curr := addr + object_size addr\<rparr>) w')"

definition free_final_range :: "z_params \<Rightarrow> u64 \<Rightarrow> z_page \<Rightarrow> gap_walk \<Rightarrow> gap_walk option" where
  "free_final_range P ZMinFreeBlockSize pg w =
     (let final_block_size = align_down (zoffset_address (heap_base P) (page_end pg) - gw_curr w) (object_alignment P pg)
      in if final_block_size \<ge> ZMinFreeBlockSize
         then map_option (\<lambda>a. w\<lparr>gw_allocator := a, gw_freed := gw_freed w + final_block_size\<rparr>)
                (wrapper_free_range (gw_curr w) final_block_size (gw_allocator w))
         else Some w)"

definition init_free_list ::
  "z_params \<Rightarrow> bitmap_find \<Rightarrow> gap_walk option bitmap_iterate \<Rightarrow> (u64 \<Rightarrow> u64) \<Rightarrow> u64 \<Rightarrow> bool \<Rightarrow> raw_memory
   \<Rightarrow> z_page \<Rightarrow> (bool \<times> z_page) option" where
  "init_free_list P ff it object_size ZMinFreeBlockSize ZUseBuddyAllocator raw pg =
     (let pg = pg\<lparr>pg_failed_relocation_size := 0, pg_exhausted := False, pg_bytes_freed := 0, pg_bytes_used := 0\<rparr>;
          start = zoffset_address (heap_base P) (page_start pg);
          allocator = (case pg_allocator pg of
            Some a \<Rightarrow> wrapper_reset a
          | None \<Rightarrow> wrapper_new raw start (page_size pg) 0 True ZUseBuddyAllocator)
      in case iterate_forced ff it (pg_livemap pg) (free_internal_range P object_size ZMinFreeBlockSize pg)
                (Some \<lparr>gw_curr = start, gw_freed = 0, gw_allocator = allocator\<rparr>) of
           Some (Some w) \<Rightarrow>
             (case free_final_range P ZMinFreeBlockSize pg w of
                None \<Rightarrow> None
              | Some w \<Rightarrow> Some (True, pg\<lparr>pg_bytes_freed := gw_freed w, pg_allocator := Some (gw_allocator w)\<rparr>))
         | _ \<Rightarrow> None)"

definition alloc_object_free_list ::
  "z_params \<Rightarrow> (buddy_lock \<Rightarrow> bool) \<Rightarrow> u64 \<Rightarrow> z_page \<Rightarrow> (u64 \<times> z_page) option" where
  "alloc_object_free_list P contended sz pg =
     (let aligned_size = align_up sz (object_alignment P pg)
      in case pg_allocator pg of
           None \<Rightarrow> None
         | Some a \<Rightarrow>
             (case wrapper_allocate contended aligned_size a of
                None \<Rightarrow> None
              | Some (addr, a) \<Rightarrow>
                  Some (let pg = pg\<lparr>pg_allocator := Some a\<rparr>
                        in if addr = 0 then (0, pg\<lparr>pg_exhausted := True, pg_failed_relocation_size := aligned_size\<rparr>)
                           else (addr, pg\<lparr>pg_bytes_used := pg_bytes_used pg + aligned_size\<rparr>))))"

subsection \<open>The gaps between objects\<close>

fun gaps :: "nat \<Rightarrow> (nat \<times> nat) list \<Rightarrow> nat \<Rightarrow> (nat \<times> nat) list" where
  "gaps cur [] stop = [(cur, stop - cur)]"
| "gaps cur ((a, sz) # objs) stop = (cur, a - cur) # gaps (a + sz) objs stop"

text \<open>Objects in ascending order from \<open>cur\<close> on, all of whose ends are multiples of 8.\<close>

fun objects_ok :: "nat \<Rightarrow> (nat \<times> nat) list \<Rightarrow> nat \<Rightarrow> bool" where
  "objects_ok cur [] stop \<longleftrightarrow> 8 dvd cur \<and> cur \<le> stop"
| "objects_ok cur ((a, sz) # objs) stop \<longleftrightarrow> 8 dvd cur \<and> 8 dvd a \<and> cur \<le> a \<and> 16 \<le> sz \<and> 8 dvd sz \<and> objects_ok (a + sz) objs stop"

definition usable_gaps :: "nat \<Rightarrow> nat \<Rightarrow> (nat \<times> nat) list \<Rightarrow> nat \<Rightarrow> (nat \<times> nat) list" where
  "usable_gaps least cur objs stop = filter (\<lambda>g. least \<le> snd g) (gaps cur objs stop)"

definition gap_bytes :: "nat \<Rightarrow> nat \<Rightarrow> (nat \<times> nat) list \<Rightarrow> nat \<Rightarrow> nat set" where
  "gap_bytes least cur objs stop = (\<Union>g \<in> set (usable_gaps least cur objs stop). span g)"

lemma objects_ok_le: "objects_ok cur objs stop \<Longrightarrow> 8 dvd cur \<and> cur \<le> stop"
proof (induction objs arbitrary: cur)
  case (Cons x objs)
  obtain a sz where x: "x = (a, sz)" by (cases x)
  then show ?case using Cons.IH [of "a + sz"] Cons.prems by simp
qed simp

lemma gap_bytes_Cons:
  "gap_bytes least cur ((a, sz) # objs) stop =
    (if least \<le> a - cur then span (cur, a - cur) else {}) \<union> gap_bytes least (a + sz) objs stop"
  by (simp add: gap_bytes_def usable_gaps_def)

lemma gap_bytes_Nil: "gap_bytes least cur [] stop = (if least \<le> stop - cur then span (cur, stop - cur) else {})"
  by (simp add: gap_bytes_def usable_gaps_def)

lemma gap_bytes_within: "objects_ok cur objs stop \<Longrightarrow> gap_bytes least cur objs stop \<subseteq> {cur ..< stop}"
proof (induction objs arbitrary: cur)
  case Nil
  then show ?case by (auto simp: gap_bytes_Nil span_def)
next
  case (Cons x objs)
  obtain a sz where x: "x = (a, sz)" by (cases x)
  have "objects_ok (a + sz) objs stop" "cur \<le> a" using Cons.prems by (simp_all add: x)
  moreover have "a + sz \<le> stop" using objects_ok_le [OF \<open>objects_ok (a + sz) objs stop\<close>] by simp
  ultimately show ?case using Cons.IH [of "a + sz"] by (auto simp: x gap_bytes_Cons span_def)
qed

text \<open>No object overlaps a gap, and every byte outside the objects is in a gap unless its gap is too small.\<close>

lemma gap_bytes_objects:
  "objects_ok cur objs stop \<Longrightarrow> ob \<in> set objs \<Longrightarrow> span ob \<inter> gap_bytes least cur objs stop = {} \<and> span ob \<subseteq> {cur ..< stop}"
proof (induction objs arbitrary: cur)
  case (Cons x objs)
  obtain a sz where x: "x = (a, sz)" by (cases x)
  have ok: "objects_ok (a + sz) objs stop" "cur \<le> a" using Cons.prems(1) by (simp_all add: x)
  have le: "a + sz \<le> stop" using objects_ok_le [OF ok(1)] by simp
  show ?case
  proof (cases "ob = x")
    case True
    then show ?thesis using gap_bytes_within [OF ok(1), of least] ok(2) le by (auto simp: x gap_bytes_Cons span_def)
  next
    case False
    then have "span ob \<inter> gap_bytes least (a + sz) objs stop = {} \<and> span ob \<subseteq> {a + sz ..< stop}"
      using Cons.IH [OF ok(1)] Cons.prems(2) by simp
    moreover have "span (cur, a - cur) \<subseteq> {cur ..< a}" "{cur ..< a} \<inter> {a + sz ..< stop} = {}" by (auto simp: span_def)
    ultimately have "span ob \<inter> gap_bytes least (a + sz) objs stop = {}" "span ob \<inter> span (cur, a - cur) = {}"
      "span ob \<subseteq> {a + sz ..< stop}" by blast+
    then show ?thesis using ok(2) by (auto simp: x gap_bytes_Cons)
  qed
qed simp

subsection \<open>The walk over the live map\<close>

definition object_of :: "z_params \<Rightarrow> (u64 \<Rightarrow> u64) \<Rightarrow> z_page \<Rightarrow> nat \<Rightarrow> nat \<times> nat" where
  "object_of P object_size pg i = (let a = object_from_bit_index P i pg in (unat a, unat (object_size a)))"

definition page_objects :: "z_params \<Rightarrow> (u64 \<Rightarrow> u64) \<Rightarrow> z_page \<Rightarrow> (nat \<times> nat) list" where
  "page_objects P object_size pg = map (object_of P object_size pg) (live_indices (pg_livemap pg))"

text \<open>Releasing a gap that is large enough.\<close>

lemma release_gap:
  assumes inv: "js_inv s F" and al: "8 dvd unat cur" "8 dvd unat a" "unat cur \<le> unat a"
    and pool: "{unat cur ..< unat a} \<subseteq> span (js_range s)" and free: "F \<inter> {unat cur ..< unat a} = {}"
    and least: "16 \<le> unat least"
  defines "d \<equiv> align_down (a - cur) 8"
  shows "unat d = unat a - unat cur"
    "least \<le> d \<Longrightarrow> js_inv (jsz_free_range cur d s) (F \<union> span (unat cur, unat a - unat cur))"
    "least \<le> d \<Longrightarrow> js_range (jsz_free_range cur d s) = js_range s"
proof -
  have u: "unat (a - cur) = unat a - unat cur" using al(3) by (subst unat_sub) (simp_all add: word_le_nat_alt)
  have "unat (align_down (a - cur) (2 ^ 3)) = unat (a - cur) div 2 ^ 3 * 2 ^ 3" by (rule unat_align_down) simp
  moreover have "8 dvd unat a - unat cur" using al by (intro dvd_diff_nat)
  ultimately show d: "unat d = unat a - unat cur" by (simp add: d_def u)
  assume "least \<le> d"
  then have big: "16 \<le> unat d" using least by (simp add: word_le_nat_alt)
  have sp: "span (unat cur, unat d) = {unat cur ..< unat a}" using al(3) by (simp add: span_def d)
  have "range_ok (js_range s) (unat cur, unat d)"
    using al big pool by (simp add: range_ok_def sp) (simp add: d al dvd_diff_nat)
  note r = jsm.release_law [OF inv this]
  show "js_inv (jsz_free_range cur d s) (F \<union> span (unat cur, unat a - unat cur))"
    "js_range (jsz_free_range cur d s) = js_range s"
    using r free by (simp_all add: sp jsz_free_range_def Int_commute d [symmetric])
qed

definition walk :: "z_params \<Rightarrow> (u64 \<Rightarrow> u64) \<Rightarrow> u64 \<Rightarrow> z_page \<Rightarrow> nat list \<Rightarrow> gap_walk \<Rightarrow> gap_walk option" where
  "walk P object_size least pg xs w =
     (case fold (\<lambda>i w. snd (free_internal_range P object_size least pg i w)) xs (Some w) of
        None \<Rightarrow> None | Some w \<Rightarrow> free_final_range P least pg w)"

lemma walk_gaps:
  assumes small: "object_alignment P pg = 8" and least: "16 \<le> unat least"
    and stop: "stop = unat (zoffset_address (heap_base P) (page_end pg))" "8 dvd stop"
    and inv: "js_inv s F" and objs: "objects_ok (unat cur) (map (object_of P object_size pg) xs) stop"
    and pool: "{unat cur ..< stop} \<subseteq> span (js_range s)" and free: "F \<inter> {unat cur ..< stop} = {}"
  shows "\<exists>w s'. walk P object_size least pg xs \<lparr>gw_curr = cur, gw_freed = freed, gw_allocator = ZTLSFAllocator s\<rparr> = Some w
    \<and> gw_allocator w = ZTLSFAllocator s' \<and> js_range s' = js_range s
    \<and> js_inv s' (F \<union> gap_bytes (unat least) (unat cur) (map (object_of P object_size pg) xs) stop)
    \<and> gw_freed w = freed + word_of_nat (sum_list (map snd (usable_gaps (unat least) (unat cur) (map (object_of P object_size pg) xs) stop)))"
  using inv objs pool free
proof (induction xs arbitrary: cur freed s F)
  case Nil
  let ?e = "zoffset_address (heap_base P) (page_end pg)"
  have al: "8 dvd unat cur" "8 dvd unat ?e" "unat cur \<le> unat ?e" using Nil.prems(2) stop by simp_all
  note g = release_gap [OF Nil.prems(1) al Nil.prems(3,4) [unfolded stop(1)] least]
  let ?d = "align_down (?e - cur) 8"
  have big: "least \<le> ?d \<longleftrightarrow> unat least \<le> stop - unat cur" using g(1) stop(1) by (simp add: word_le_nat_alt)
  show ?case
  proof (cases "least \<le> ?d")
    case True
    then have "unat least \<le> stop - unat cur" using big by simp
    moreover have "?d = word_of_nat (stop - unat cur)" unfolding stop(1) g(1) [symmetric] by simp
    ultimately show ?thesis
      using True g(2,3) [OF True] stop(1) small
      by (simp add: walk_def free_final_range_def Let_def wrapper_free_range_def gap_bytes_Nil usable_gaps_def)
  next
    case False
    then show ?thesis
      using big Nil.prems(1) small by (simp add: walk_def free_final_range_def Let_def gap_bytes_Nil usable_gaps_def)
  qed
next
  case (Cons i xs)
  let ?a = "zoffset_address (heap_base P) (offset_from_bit_index P i pg)" and ?objs = "map (object_of P object_size pg) xs"
  let ?next = "?a + object_size ?a" and ?d = "align_down (?a - cur) 8"
  have ob: "object_of P object_size pg i = (unat ?a, unat (object_size ?a))"
    by (simp add: object_of_def object_from_bit_index_def Let_def)
  have ok: "8 dvd unat cur" "8 dvd unat ?a" "unat cur \<le> unat ?a" "objects_ok (unat ?a + unat (object_size ?a)) ?objs stop"
    using Cons.prems(2) by (simp_all add: ob)
  have le: "unat ?a + unat (object_size ?a) \<le> stop" using objects_ok_le [OF ok(4)] by simp
  have un: "unat ?next = unat ?a + unat (object_size ?a)"
  proof (rule unat_add_no_wrap)
    have "stop < 18446744073709551616" unfolding stop(1) using unat_lt_exp [of "zoffset_address (heap_base P) (page_end pg)"] by simp
    then show "unat ?a + unat (object_size ?a) < 18446744073709551616" using le by linarith
  qed
  have pl: "{unat cur ..< unat ?a} \<subseteq> span (js_range s)" "F \<inter> {unat cur ..< unat ?a} = {}"
    using Cons.prems(3,4) le by auto
  note g = release_gap [OF Cons.prems(1) ok(1-3) pl least]
  have big: "least \<le> ?d \<longleftrightarrow> unat least \<le> unat ?a - unat cur" using g(1) by (simp add: word_le_nat_alt)
  have ok': "objects_ok (unat ?next) ?objs stop" using ok(4) by (simp add: un)
  have rest: "{unat ?next ..< stop} \<subseteq> span (js_range s)" "F \<inter> {unat ?next ..< stop} = {}"
    using Cons.prems(3,4) ok(3) by (auto simp: un)
  have step: "walk P object_size least pg (i # xs) \<lparr>gw_curr = cur, gw_freed = freed, gw_allocator = ZTLSFAllocator s\<rparr> =
    (if least \<le> ?d
     then walk P object_size least pg xs \<lparr>gw_curr = ?next, gw_freed = freed + ?d, gw_allocator = ZTLSFAllocator (jsz_free_range cur ?d s)\<rparr>
     else walk P object_size least pg xs \<lparr>gw_curr = ?next, gw_freed = freed, gw_allocator = ZTLSFAllocator s\<rparr>)"
  proof -
    have "snd (free_internal_range P object_size least pg i (Some \<lparr>gw_curr = cur, gw_freed = freed, gw_allocator = ZTLSFAllocator s\<rparr>)) =
      Some (if least \<le> ?d
        then \<lparr>gw_curr = ?next, gw_freed = freed + ?d, gw_allocator = ZTLSFAllocator (jsz_free_range cur ?d s)\<rparr>
        else \<lparr>gw_curr = ?next, gw_freed = freed, gw_allocator = ZTLSFAllocator s\<rparr>)"
      by (simp add: free_internal_range_def Let_def small wrapper_free_range_def)
    then show ?thesis by (simp add: walk_def)
  qed
  show ?case
  proof (cases "least \<le> ?d")
    case True
    then have u: "unat least \<le> unat ?a - unat cur" using big by simp
    have d: "?d = word_of_nat (unat ?a - unat cur)" unfolding g(1) [symmetric] by simp
    have fr: "(F \<union> span (unat cur, unat ?a - unat cur)) \<inter> {unat ?next ..< stop} = {}"
      using rest(2) ok(3) by (auto simp: un span_def)
    let ?s = "jsz_free_range cur ?d s"
    have pl': "{unat ?next ..< stop} \<subseteq> span (js_range ?s)" using rest(1) g(3) [OF True] by simp
    obtain w s' where w: "walk P object_size least pg xs \<lparr>gw_curr = ?next, gw_freed = freed + ?d, gw_allocator = ZTLSFAllocator ?s\<rparr> = Some w"
      "gw_allocator w = ZTLSFAllocator s'" "js_range s' = js_range ?s"
      "js_inv s' ((F \<union> span (unat cur, unat ?a - unat cur)) \<union> gap_bytes (unat least) (unat ?next) ?objs stop)"
      "gw_freed w = (freed + ?d) + word_of_nat (sum_list (map snd (usable_gaps (unat least) (unat ?next) ?objs stop)))"
      using Cons.IH [OF g(2) [OF True] ok' pl' fr, of "freed + ?d"] by blast
    have gb: "gap_bytes (unat least) (unat cur) (map (object_of P object_size pg) (i # xs)) stop =
      span (unat cur, unat ?a - unat cur) \<union> gap_bytes (unat least) (unat ?next) ?objs stop"
      using u by (simp add: ob gap_bytes_Cons un)
    have us: "usable_gaps (unat least) (unat cur) (map (object_of P object_size pg) (i # xs)) stop =
      (unat cur, unat ?a - unat cur) # usable_gaps (unat least) (unat ?next) ?objs stop"
      using u by (simp add: ob usable_gaps_def un)
    have "js_inv s' (F \<union> gap_bytes (unat least) (unat cur) (map (object_of P object_size pg) (i # xs)) stop)"
      using w(4) unfolding gb by (simp only: Un_assoc)
    moreover have "gw_freed w = freed + word_of_nat (sum_list (map snd (usable_gaps (unat least) (unat cur) (map (object_of P object_size pg) (i # xs)) stop)))"
      unfolding us w(5) d by (simp add: add.assoc)
    moreover have "js_range s' = js_range s" using w(3) g(3) [OF True] by simp
    ultimately show ?thesis using step True w(1,2) by auto
  next
    case False
    have gb: "gap_bytes (unat least) (unat cur) (map (object_of P object_size pg) (i # xs)) stop =
      gap_bytes (unat least) (unat ?next) ?objs stop"
      using False big by (simp add: ob gap_bytes_Cons un)
    have us: "usable_gaps (unat least) (unat cur) (map (object_of P object_size pg) (i # xs)) stop =
      usable_gaps (unat least) (unat ?next) ?objs stop"
      using False big by (simp add: ob usable_gaps_def un)
    show ?thesis unfolding step gb us if_not_P [OF False] by (rule Cons.IH [OF Cons.prems(1) ok' rest])
  qed
qed

subsection \<open>Small pages\<close>

definition small_page :: "z_params \<Rightarrow> z_page \<Rightarrow> bool" where
  "small_page P pg \<longleftrightarrow> pg_type pg = SmallPage \<and> small_shift P = 3 \<and> 8 dvd unat (page_start pg)
     \<and> unat (page_end pg) = unat (page_start pg) + 2097152
     \<and> (\<exists>k. 3 \<le> k \<and> k < 63 \<and> heap_base P = push_bit k 1 \<and> unat (page_end pg) < 2 ^ k)"

definition page_range :: "z_params \<Rightarrow> z_page \<Rightarrow> nat \<times> nat" where
  "page_range P pg = (unat (zoffset_address (heap_base P) (page_start pg)), 2097152)"

lemma address_or:
  assumes "k < 63" "unat off < 2 ^ k"
  shows "unat (zoffset_address (push_bit k 1) off) = 2 ^ k + unat off"
proof -
  have nb: "\<not> bit off n" if "k \<le> n" for n
  proof
    assume b: "bit off n"
    have "(2::nat) ^ k \<le> 2 ^ n" using that by (intro power_increasing) simp_all
    then have "unat off < 2 ^ n" using assms(2) by linarith
    then have "unat off div 2 ^ n = 0" by (rule div_less)
    moreover have "bit (unat off) n" using b by (simp add: bit_unsigned_iff bit_imp_le_length)
    ultimately show False by (simp add: bit_iff_odd)
  qed
  have "off + push_bit k 1 = off OR push_bit k 1"
    using nb [of k] by (intro disjunctive_add_eq_or bit_word_eqI) (auto simp: bit_and_iff push_bit_eq_mult bit_exp_iff)
  moreover have p: "unat (push_bit k (1 :: u64)) = 2 ^ k" using assms(1) by (simp add: push_bit_eq_mult unat_pow2)
  moreover have "(2::nat) ^ k \<le> 2 ^ 62" using assms(1) by (intro power_increasing) simp_all
  then have "unat (off + push_bit k 1) = unat off + 2 ^ k" using assms(2) p by (subst unat_add_no_wrap) simp_all
  ultimately show ?thesis by (simp add: zoffset_address_def)
qed

lemma small_page_place:
  assumes "small_page P pg"
  shows "object_alignment P pg = 8" "8 dvd fst (page_range P pg)"
    "unat (zoffset_address (heap_base P) (page_end pg)) = fst (page_range P pg) + 2097152"
    "unat (page_size pg) = 2097152" "js_memory (zoffset_address (heap_base P) (page_start pg)) (page_size pg)"
    "js_pool_of (zoffset_address (heap_base P) (page_start pg)) (page_size pg) = page_range P pg"
proof -
  obtain k where k: "3 \<le> k" "k < 63" "heap_base P = push_bit k 1" "unat (page_end pg) < 2 ^ k"
    and s: "pg_type pg = SmallPage" "small_shift P = 3" "8 dvd unat (page_start pg)"
      "unat (page_end pg) = unat (page_start pg) + 2097152"
    using assms by (auto simp: small_page_def)
  show "object_alignment P pg = 8" by (simp add: object_alignment_def s push_bit_eq_mult)
  have st: "fst (page_range P pg) = 2 ^ k + unat (page_start pg)"
    unfolding page_range_def fst_conv k(3) by (rule address_or [OF k(2)]) (use k(4) s(4) in simp)
  show en: "unat (zoffset_address (heap_base P) (page_end pg)) = fst (page_range P pg) + 2097152"
    unfolding st k(3) address_or [OF k(2,4)] using s(4) by simp
  have "(2::nat) ^ 3 dvd 2 ^ k" using k(1) by (rule le_imp_power_dvd)
  then show d: "8 dvd fst (page_range P pg)" unfolding st using s(3) by simp
  show sz: "unat (page_size pg) = 2097152"
    unfolding page_size_def using s(4) by (subst unat_sub) (simp_all add: word_le_nat_alt page_start_def page_end_def)
  have "unat (zoffset_address (heap_base P) (page_end pg)) < 2 ^ LENGTH(64)" by (rule unat_lt_exp)
  then show "js_memory (zoffset_address (heap_base P) (page_start pg)) (page_size pg)"
    unfolding en using st by (auto simp: js_memory_def sz page_range_def)
  obtain q where q: "fst (page_range P pg) = 8 * q" using d by (rule dvdE)
  have "(fst (page_range P pg) + 7) div 8 * 8 = fst (page_range P pg)" unfolding q by simp
  then show "js_pool_of (zoffset_address (heap_base P) (page_start pg)) (page_size pg) = page_range P pg"
    by (simp add: js_pool_of_def sz page_range_def)
qed

text \<open>A page without an allocator, or with one that an earlier recycling has made.\<close>

definition recyclable :: "z_params \<Rightarrow> bool \<Rightarrow> z_page \<Rightarrow> bool" where
  "recyclable P ZUseBuddyAllocator pg \<longleftrightarrow> (case pg_allocator pg of
     None \<Rightarrow> \<not> ZUseBuddyAllocator
   | Some a \<Rightarrow> \<exists>s F. a = ZTLSFAllocator s \<and> js_inv s F \<and> js_range s = page_range P pg)"

lemma start_allocator:
  assumes "small_page P pg" "recyclable P useBuddy pg"
  shows "\<exists>s. (case pg_allocator pg of Some a \<Rightarrow> wrapper_reset a
      | None \<Rightarrow> wrapper_new raw (zoffset_address (heap_base P) (page_start pg)) (page_size pg) 0 True useBuddy) = ZTLSFAllocator s
    \<and> js_inv s {} \<and> js_range s = page_range P pg"
proof (cases "pg_allocator pg")
  case None
  note i = js_initialize_inv [OF small_page_place(5) [OF assms(1)], of True, simplified, unfolded small_page_place(6) [OF assms(1)]]
  show ?thesis using None assms(2) i by (auto simp: recyclable_def wrapper_new_def js_new_def)
next
  case (Some a)
  then obtain s F where "a = ZTLSFAllocator s" "js_inv s F" "js_range s = page_range P pg"
    using assms(2) by (auto simp: recyclable_def)
  then show ?thesis using Some jsm.reset_law [of s F] by (simp add: wrapper_reset_def)
qed

lemma init_free_list_gaps:
  assumes page: "small_page P pg" "recyclable P useBuddy pg" "livemap_shape (pg_livemap pg)"
    and objs: "objects_ok (fst (page_range P pg)) (page_objects P object_size pg) (fst (page_range P pg) + 2097152)"
    and least: "16 \<le> unat least" and lib: "finds_first ff" "iterates it"
  shows "\<exists>pg' s. init_free_list P ff it object_size least useBuddy raw pg = Some (True, pg')
    \<and> pg_allocator pg' = Some (ZTLSFAllocator s) \<and> js_range s = page_range P pg
    \<and> js_inv s (gap_bytes (unat least) (fst (page_range P pg)) (page_objects P object_size pg) (fst (page_range P pg) + 2097152))
    \<and> pg_bytes_freed pg' = word_of_nat (sum_list (map snd (usable_gaps (unat least) (fst (page_range P pg))
        (page_objects P object_size pg) (fst (page_range P pg) + 2097152))))
    \<and> object_alignment P pg' = 8"
proof -
  let ?start = "zoffset_address (heap_base P) (page_start pg)" and ?m = "pg_livemap pg"
  define pg1 where "pg1 = pg\<lparr>pg_failed_relocation_size := 0, pg_exhausted := False, pg_bytes_freed := 0, pg_bytes_used := 0\<rparr>"
  have same: "page_start pg1 = page_start pg" "page_end pg1 = page_end pg" "page_size pg1 = page_size pg" "pg_livemap pg1 = ?m"
    "pg_allocator pg1 = pg_allocator pg" "object_alignment P pg1 = 8" "object_of P object_size pg1 = object_of P object_size pg"
    using small_page_place(1) [OF page(1)]
    by (simp_all add: pg1_def page_start_def page_end_def page_size_def object_alignment_def object_of_def fun_eq_iff
        object_from_bit_index_def offset_from_bit_index_def object_alignment_shift_def Let_def)
  obtain s0 where s0: "(case pg_allocator pg of Some a \<Rightarrow> wrapper_reset a
      | None \<Rightarrow> wrapper_new raw ?start (page_size pg) 0 True useBuddy) = ZTLSFAllocator s0"
    "js_inv s0 {}" "js_range s0 = page_range P pg" using start_allocator [OF page(1,2), of raw] by blast
  have st: "unat ?start = fst (page_range P pg)" by (simp add: page_range_def)
  let ?w0 = "\<lparr>gw_curr = ?start, gw_freed = 0, gw_allocator = ZTLSFAllocator s0\<rparr>"
  have it_all: "iterate_forced ff it ?m (free_internal_range P object_size least pg1) (Some ?w0) =
    Some (fold (\<lambda>i w. snd (free_internal_range P object_size least pg1 i w)) (live_indices ?m) (Some ?w0))"
    by (rule iterate_forced_all [OF page(3) lib]) (simp add: free_internal_range_def)
  have end_eq: "fst (page_range P pg) + 2097152 = unat (zoffset_address (heap_base P) (page_end pg1))"
    using small_page_place(3) [OF page(1)] same(2) by simp
  have end8: "8 dvd fst (page_range P pg) + 2097152" using small_page_place(2) [OF page(1)] by simp
  have ok: "objects_ok (unat ?start) (map (object_of P object_size pg1) (live_indices ?m)) (fst (page_range P pg) + 2097152)"
    using objs by (simp add: st same page_objects_def)
  have pool: "{unat ?start ..< fst (page_range P pg) + 2097152} \<subseteq> span (js_range s0)"
    by (simp add: s0(3) span_def st) (simp add: page_range_def)
  obtain w s where w: "walk P object_size least pg1 (live_indices ?m) ?w0 = Some w" "gw_allocator w = ZTLSFAllocator s"
    "js_range s = js_range s0"
    "js_inv s ({} \<union> gap_bytes (unat least) (unat ?start) (map (object_of P object_size pg1) (live_indices ?m)) (fst (page_range P pg) + 2097152))"
    "gw_freed w = 0 + word_of_nat (sum_list (map snd (usable_gaps (unat least) (unat ?start)
       (map (object_of P object_size pg1) (live_indices ?m)) (fst (page_range P pg) + 2097152))))"
    using walk_gaps [OF same(6) least end_eq end8 s0(2) ok pool, of 0] by blast
  let ?pg = "pg1\<lparr>pg_bytes_freed := gw_freed w, pg_allocator := Some (gw_allocator w)\<rparr>"
  have "init_free_list P ff it object_size least useBuddy raw pg = Some (True, ?pg)"
    using w(1) unfolding init_free_list_def Let_def pg1_def [symmetric] same s0(1) it_all
    by (auto simp: walk_def split: option.splits)
  moreover have "object_alignment P ?pg = 8" using same(6) by (simp add: object_alignment_def)
  ultimately show ?thesis using w(2-5) s0(3) by (auto simp: same(7) st page_objects_def)
qed

subsection \<open>Allocating from a recycled page\<close>

text \<open>Relocation allocates objects of the given sizes one after the other and keeps those it gets.\<close>

fun recycle_step ::
  "z_params \<Rightarrow> (buddy_lock \<Rightarrow> bool) \<Rightarrow> u64 \<Rightarrow> z_page \<times> (u64 \<times> u64) list \<Rightarrow> z_page \<times> (u64 \<times> u64) list" where
  "recycle_step P contended sz (pg, H) =
     (case alloc_object_free_list P contended sz pg of
        None \<Rightarrow> (pg, H)
      | Some (addr, pg') \<Rightarrow> if addr = 0 then (pg', H) else (pg', H @ [(addr, align_up sz (object_alignment P pg))]))"

definition recycle_run where
  "recycle_run P contended sizes pgH = foldl (\<lambda>pgH sz. recycle_step P contended sz pgH) pgH sizes"

definition recycle_size_ok :: "u64 \<Rightarrow> bool" where
  "recycle_size_ok sz \<longleftrightarrow> 8 < unat sz \<and> unat sz \<le> 262144"

definition live_objects_of :: "z_params \<Rightarrow> (u64 \<Rightarrow> u64) \<Rightarrow> z_page \<Rightarrow> (u64 \<times> u64) list" where
  "live_objects_of P object_size pg =
     map (\<lambda>i. let a = object_from_bit_index P i pg in (a, object_size a)) (live_indices (pg_livemap pg))"

lemma live_objects_ranges: "map urange (live_objects_of P object_size pg) = page_objects P object_size pg"
  by (simp add: live_objects_of_def page_objects_def object_of_def urange_def Let_def)

lemma recycle_size_aligned:
  assumes "recycle_size_ok sz"
  shows "heap_op_ok 262144 (Take (align_up sz 8))"
proof -
  have s: "8 < unat sz" "unat sz \<le> 262144" using assms by (simp_all add: recycle_size_ok_def)
  have "unat (align_up sz (2 ^ 3)) = (unat sz + 2 ^ 3 - 1) div 2 ^ 3 * 2 ^ 3" by (rule unat_align_up) (use s in simp_all)
  then have u: "unat (align_up sz 8) = (unat sz + 7) div 8 * 8" by simp
  have "2 \<le> (unat sz + 7) div 8" "(unat sz + 7) div 8 \<le> 32768" using s by (simp_all add: less_eq_div_iff_mult_less_eq div_le_dividend)
  then show ?thesis by (simp add: u)
qed

lemma recycle_step_takes:
  assumes "pg_allocator pg = Some (ZTLSFAllocator s)" "object_alignment P pg = 8"
    "heap_step (js_allocate ZOptimizedConfig) jsz_free js_poke (Take (align_up sz 8)) (s, H) = (t, H')"
  shows "\<exists>pg'. recycle_step P contended sz (pg, H) = (pg', H') \<and> pg_allocator pg' = Some (ZTLSFAllocator t) \<and> object_alignment P pg' = 8"
  using assms
  by (auto simp: alloc_object_free_list_def wrapper_allocate_def Let_def object_alignment_def split: option.splits prod.splits if_splits)

lemma recycle_run_heap:
  assumes "pg_allocator pg = Some (ZTLSFAllocator s)" "object_alignment P pg = 8"
  shows "snd (recycle_run P contended sizes (pg, H)) =
    snd (heap_run (js_allocate ZOptimizedConfig) jsz_free js_poke (map (\<lambda>sz. Take (align_up sz 8)) sizes) (s, H))"
  using assms
proof (induction sizes arbitrary: pg s H)
  case (Cons sz sizes)
  obtain t H' where t: "heap_step (js_allocate ZOptimizedConfig) jsz_free js_poke (Take (align_up sz 8)) (s, H) = (t, H')"
    by (cases "heap_step (js_allocate ZOptimizedConfig) jsz_free js_poke (Take (align_up sz 8)) (s, H)")
  obtain pg' where "recycle_step P contended sz (pg, H) = (pg', H')" "pg_allocator pg' = Some (ZTLSFAllocator t)" "object_alignment P pg' = 8"
    using recycle_step_takes [OF Cons.prems t] by blast
  then show ?case using Cons.IH [of pg' t H'] t by (simp add: recycle_run_def heap_run_def)
qed (simp add: recycle_run_def heap_run_def)

lemma objects_apart:
  assumes "objects_ok cur objs stop" "i < length objs"
  shows "8 dvd fst (objs ! i) \<and> 8 dvd snd (objs ! i) \<and> 16 \<le> snd (objs ! i) \<and> span (objs ! i) \<subseteq> {cur ..< stop}
    \<and> (\<forall>j < i. span (objs ! i) \<inter> span (objs ! j) = {})"
  using assms
proof (induction objs arbitrary: cur i)
  case (Cons x objs)
  obtain a sz where x: "x = (a, sz)" by (cases x)
  have ok: "8 dvd a" "cur \<le> a" "16 \<le> sz" "8 dvd sz" "objects_ok (a + sz) objs stop" using Cons.prems(1) by (simp_all add: x)
  have le: "a + sz \<le> stop" using objects_ok_le [OF ok(5)] by simp
  show ?case
  proof (cases i)
    case 0
    then show ?thesis using ok le by (auto simp: x span_def)
  next
    case (Suc k)
    then have ih: "8 dvd fst (objs ! k) \<and> 8 dvd snd (objs ! k) \<and> 16 \<le> snd (objs ! k) \<and> span (objs ! k) \<subseteq> {a + sz ..< stop}
      \<and> (\<forall>j < k. span (objs ! k) \<inter> span (objs ! j) = {})" using Cons.IH [OF ok(5), of k] Cons.prems(2) by simp
    have "span (objs ! k) \<inter> span ((x # objs) ! j) = {}" if "j < i" for j
    proof (cases j)
      case 0
      have "span x \<subseteq> {..< a + sz}" "{..< a + sz} \<inter> {a + sz ..< stop} = {}" by (auto simp: x span_def)
      moreover have "span (objs ! k) \<subseteq> {a + sz ..< stop}" using ih by blast
      ultimately have "span (objs ! k) \<inter> span x = {}" by blast
      then show ?thesis using 0 by simp
    next
      case (Suc m)
      then show ?thesis using ih that \<open>i = Suc k\<close> by simp
    qed
    then show ?thesis using ih Suc ok(2) by auto
  qed
qed simp

lemma live_objects_client:
  assumes objs: "objects_ok (fst (page_range P pg)) (page_objects P object_size pg) (fst (page_range P pg) + 2097152)"
    and inv: "js_inv s (gap_bytes least (fst (page_range P pg)) (page_objects P object_size pg) (fst (page_range P pg) + 2097152))"
    and range: "js_range s = page_range P pg"
  shows "jsm.client_ok (s, live_objects_of P object_size pg)"
proof -
  let ?H = "live_objects_of P object_size pg" and ?stop = "fst (page_range P pg) + 2097152"
  have nth: "urange (?H ! i) = page_objects P object_size pg ! i" if "i < length ?H" for i
    using that by (simp flip: live_objects_ranges)
  have len: "length (page_objects P object_size pg) = length ?H" by (simp flip: live_objects_ranges)
  have pool: "span (page_range P pg) = {fst (page_range P pg) ..< ?stop}" by (simp add: span_def page_range_def)
  have "apart (js_range s) ?H"
    unfolding apart_def
  proof (intro allI impI conjI)
    fix i assume i: "i < length ?H"
    note o = objects_apart [OF objs, of i, unfolded len, OF i]
    show "range_ok (js_range s) (urange (?H ! i))" using o by (simp add: nth [OF i] range_ok_def range pool)
    fix j assume "j < i"
    then show "span (urange (?H ! i)) \<inter> span (urange (?H ! j)) = {}" using o nth [of j] i by (simp add: nth [OF i])
  qed
  moreover have "\<forall>b \<in> set ?H. span (urange b) \<inter> gap_bytes least (fst (page_range P pg)) (page_objects P object_size pg) ?stop = {}"
  proof
    fix b assume "b \<in> set ?H"
    then have "urange b \<in> set (map urange ?H)" by simp
    then show "span (urange b) \<inter> gap_bytes least (fst (page_range P pg)) (page_objects P object_size pg) ?stop = {}"
      using gap_bytes_objects [OF objs, of "urange b" least] by (simp add: live_objects_ranges)
  qed
  ultimately show ?thesis using inv by (auto simp: jsm.client_ok_def)
qed

lemma recycled_apart:
  assumes page: "small_page P pg" "recyclable P useBuddy pg" "livemap_shape (pg_livemap pg)"
    and objs: "objects_ok (fst (page_range P pg)) (page_objects P object_size pg) (fst (page_range P pg) + 2097152)"
    and least: "16 \<le> unat least" and lib: "finds_first ff" "iterates it" and sizes: "\<forall>sz \<in> set sizes. recycle_size_ok sz"
  shows "\<exists>pg'. init_free_list P ff it object_size least useBuddy raw pg = Some (True, pg')
    \<and> apart (page_range P pg) (snd (recycle_run P contended sizes (pg', live_objects_of P object_size pg)))"
proof -
  obtain pg' s where i: "init_free_list P ff it object_size least useBuddy raw pg = Some (True, pg')"
    "pg_allocator pg' = Some (ZTLSFAllocator s)" "js_range s = page_range P pg"
    "js_inv s (gap_bytes (unat least) (fst (page_range P pg)) (page_objects P object_size pg) (fst (page_range P pg) + 2097152))"
    "object_alignment P pg' = 8"
    using init_free_list_gaps [OF page objs least lib, of raw] by blast
  have ops: "\<forall>x \<in> set (map (\<lambda>sz. Take (align_up sz 8)) sizes). heap_op_ok 262144 x"
    using sizes recycle_size_aligned by auto
  note r = jsm.run_ok [OF live_objects_client [OF objs i(4,3)] ops]
  have "apart (page_range P pg) (snd (recycle_run P contended sizes (pg', live_objects_of P object_size pg)))"
    unfolding recycle_run_heap [OF i(2,5)] using r i(3) by (auto simp: jsm.client_ok_def)
  then show ?thesis using i(1) by blast
qed

text \<open>Nothing is left out: a byte of the page is in an object, free, or in a gap smaller than \<open>least\<close>.\<close>

lemma gaps_complete:
  "objects_ok cur objs stop \<Longrightarrow> a \<in> {cur ..< stop} \<Longrightarrow>
     (\<exists>b \<in> set objs. a \<in> span b) \<or> a \<in> gap_bytes least cur objs stop \<or> (\<exists>g \<in> set (gaps cur objs stop). a \<in> span g \<and> snd g < least)"
proof (induction objs arbitrary: cur)
  case Nil
  then show ?case by (auto simp: gap_bytes_Nil span_def)
next
  case (Cons x objs)
  obtain b sz where x: "x = (b, sz)" by (cases x)
  have ok: "objects_ok (b + sz) objs stop" "cur \<le> b" using Cons.prems(1) by (simp_all add: x)
  consider "a < b" | "b \<le> a" "a < b + sz" | "b + sz \<le> a" by linarith
  then show ?case
  proof cases
    case 1
    then have "a \<in> span (cur, b - cur)" using Cons.prems(2) by (simp add: span_def)
    then show ?thesis by (cases "least \<le> b - cur") (auto simp: x gap_bytes_Cons)
  next
    case 2
    then have "a \<in> span x" by (simp add: x span_def)
    then show ?thesis by simp
  next
    case 3
    then have "a \<in> {b + sz ..< stop}" using Cons.prems(2) by simp
    then show ?thesis using Cons.IH [OF ok(1)] by (auto simp: x gap_bytes_Cons)
  qed
qed

subsection \<open>Properties\<close>

text \<open>A small page with two live objects of 64 bytes, at 8 and 160 bytes from its start.\<close>

definition params_demo :: z_params where
  "params_demo = \<lparr>heap_base = push_bit 42 1, offset_mask = mask 42, offset_max = push_bit 42 1, small_shift = 3,
     medium_shift = 12, page_size_medium = push_bit 25 1\<rparr>"

definition page_demo :: z_page where
  "page_demo = (page_new params_demo (\<lambda>i. i = 2 \<or> i = 3 \<or> i = 40) 0 SmallPage \<lparr>vm_start = 0, vm_end = 2097152\<rparr>)
     \<lparr>pg_livemap := (livemap_new (\<lambda>i. i = 2 \<or> i = 3 \<or> i = 40) 262144)\<lparr>segment_live_bits := 1\<rparr>\<rparr>"

lemma page_demo_livemap: "livemap_shape (pg_livemap page_demo)" "live_indices (pg_livemap page_demo) = [2, 40]"
proof -
  let ?m = "livemap_new (\<lambda>i. i = 2 \<or> i = 3 \<or> i = 40) 262144"
  have sh: "livemap_shape ?m" by (rule shape_new [of _ 18]) simp
  have sz: "lm_bitmap_size ?m = 524288" by (simp add: livemap_new_def bitmap_size_def nsegments_def)
  have ss: "segment_shift ?m = 13"
  proof -
    have "(2::nat) ^ segment_shift ?m = 2 ^ 13" using sh sz by (simp add: livemap_shape_def nsegments_def)
    then show ?thesis by (simp only: power_inject_exp)
  qed
  have m: "pg_livemap page_demo = ?m\<lparr>segment_live_bits := 1\<rparr>" by (simp add: page_demo_def)
  show "livemap_shape (pg_livemap page_demo)" using sh by (simp add: m livemap_shape_def)
  have lb: "live_bit (pg_livemap page_demo) i \<longleftrightarrow> i = 2 \<or> i = 40" for i
  proof -
    have "live_bit (pg_livemap page_demo) i \<longleftrightarrow> even i \<and> bit (1 :: u64) (i div 8192) \<and> (i = 2 \<or> i = 3 \<or> i = 40)"
      by (simp add: live_bit_def m is_segment_live_def index_to_segment_def ss drop_bit_eq_div) (simp add: livemap_new_def)
    then show ?thesis by auto
  qed
  have "set (live_indices (pg_livemap page_demo)) = {2, 40}"
  proof -
    have "lm_bitmap_size (pg_livemap page_demo) = 524288" by (simp add: m sz)
    then show ?thesis by (auto simp: live_indices_def lb)
  qed
  moreover have "sorted (live_indices (pg_livemap page_demo))" "distinct (live_indices (pg_livemap page_demo))"
    using sorted_filter [of id "[0 ..< lm_bitmap_size (pg_livemap page_demo)]" "live_bit (pg_livemap page_demo)"]
    by (simp_all add: live_indices_def)
  ultimately show "live_indices (pg_livemap page_demo) = [2, 40]"
    by (intro sorted_distinct_set_unique) simp_all
qed

lemma page_demo_small: "small_page params_demo page_demo" "recyclable params_demo False page_demo"
  "fst (page_range params_demo page_demo) = 4398046511104"
proof -
  show "small_page params_demo page_demo"
    unfolding small_page_def
    by (intro conjI exI [of _ 42]) (simp_all add: page_demo_def page_new_def params_demo_def page_start_def page_end_def)
  show "recyclable params_demo False page_demo" by (simp add: recyclable_def page_demo_def page_new_def)
  show "fst (page_range params_demo page_demo) = 4398046511104"
    by (simp add: page_range_def page_start_def page_demo_def page_new_def params_demo_def zoffset_address_def push_bit_eq_mult)
qed

lemma page_demo_objects:
  "page_objects params_demo (\<lambda>_. 64) page_demo = [(4398046511112, 64), (4398046511264, 64)]"
  by (simp add: page_objects_def page_demo_livemap object_of_def object_from_bit_index_def offset_from_bit_index_def
      object_alignment_shift_def Let_def)
    (simp add: page_start_def page_demo_def page_new_def params_demo_def zoffset_address_def push_bit_eq_mult)

lemma page_demo_ok: "objects_ok (fst (page_range params_demo page_demo)) (page_objects params_demo (\<lambda>_. 64) page_demo)
  (fst (page_range params_demo page_demo) + 2097152)"
  by (simp add: page_demo_objects page_demo_small)

text \<open>C19. Preparing a small page for recycling, fresh or recycled before, gives the page's allocator exactly the gaps
  between live objects that are not smaller than \<open>ZMinFreeBlockSize\<close>: no byte of a live object is free,
  every other byte is free or in a smaller gap, and \<open>_bytes_freed\<close> counts the free bytes.\<close>

theorem init_free_list_correct:
  assumes "small_page P pg" "recyclable P useBuddy pg" "livemap_shape (pg_livemap pg)"
    "objects_ok (fst (page_range P pg)) (page_objects P object_size pg) (fst (page_range P pg) + 2097152)"
    "16 \<le> unat least" "finds_first ff" "iterates it"
  shows "\<exists>pg' s F. init_free_list P ff it object_size least useBuddy raw pg = Some (True, pg')
    \<and> pg_allocator pg' = Some (ZTLSFAllocator s) \<and> js_inv s F
    \<and> F = gap_bytes (unat least) (fst (page_range P pg)) (page_objects P object_size pg) (fst (page_range P pg) + 2097152)
    \<and> (\<forall>b \<in> set (page_objects P object_size pg). span b \<inter> F = {})
    \<and> (\<forall>a \<in> span (page_range P pg). (\<exists>b \<in> set (page_objects P object_size pg). a \<in> span b) \<or> a \<in> F
        \<or> (\<exists>g \<in> set (gaps (fst (page_range P pg)) (page_objects P object_size pg) (fst (page_range P pg) + 2097152)).
             a \<in> span g \<and> snd g < unat least))
    \<and> pg_bytes_freed pg' = word_of_nat (sum_list (map snd (usable_gaps (unat least) (fst (page_range P pg))
        (page_objects P object_size pg) (fst (page_range P pg) + 2097152))))"
proof -
  have "span (page_range P pg) = {fst (page_range P pg) ..< fst (page_range P pg) + 2097152}"
    by (simp add: span_def page_range_def)
  then show ?thesis
    using init_free_list_gaps [OF assms, of raw] gap_bytes_objects [OF assms(4)] gaps_complete [OF assms(4)] by blast
qed

theorem init_free_list_correct_witness:
  "\<forall>raw. \<exists>pg' s F. init_free_list params_demo first_set visit_set (\<lambda>_. 64) 32 False raw page_demo = Some (True, pg')
    \<and> pg_allocator pg' = Some (ZTLSFAllocator s) \<and> js_inv s F
    \<and> F = {4398046511176 ..< 4398046511264} \<union> {4398046511328 ..< 4398048608256}"
proof -
  have F: "gap_bytes (unat (32 :: u64)) (fst (page_range params_demo page_demo)) (page_objects params_demo (\<lambda>_. 64) page_demo)
      (fst (page_range params_demo page_demo) + 2097152) = {4398046511176 ..< 4398046511264} \<union> {4398046511328 ..< 4398048608256}"
    by (simp add: page_demo_objects page_demo_small gap_bytes_Cons gap_bytes_Nil span_def)
  show ?thesis
  proof
    fix raw
    show "\<exists>pg' s F. init_free_list params_demo first_set visit_set (\<lambda>_. 64) 32 False raw page_demo = Some (True, pg')
      \<and> pg_allocator pg' = Some (ZTLSFAllocator s) \<and> js_inv s F
      \<and> F = {4398046511176 ..< 4398046511264} \<union> {4398046511328 ..< 4398048608256}"
      using init_free_list_correct [OF page_demo_small(1,2) page_demo_livemap(1) page_demo_ok, of 32 first_set visit_set raw,
          OF _ first_set_finds visit_set_iterates]
      unfolding F by fastforce
  qed
qed

text \<open>C18. Objects that relocation allocates from a recycled page, of any sizes from 9 bytes to 256 kilobytes in any
  order, lie inside the page and overlap neither each other nor any object that was live on it.\<close>

theorem recycled_objects_apart:
  assumes "small_page P pg" "recyclable P useBuddy pg" "livemap_shape (pg_livemap pg)"
    "objects_ok (fst (page_range P pg)) (page_objects P object_size pg) (fst (page_range P pg) + 2097152)"
    "16 \<le> unat least" "finds_first ff" "iterates it" "\<forall>sz \<in> set sizes. recycle_size_ok sz"
  shows "\<exists>pg'. init_free_list P ff it object_size least useBuddy raw pg = Some (True, pg')
    \<and> apart (page_range P pg) (snd (recycle_run P contended sizes (pg', live_objects_of P object_size pg)))"
  by (rule recycled_apart [OF assms])

theorem recycled_objects_apart_witness:
  "\<forall>raw contended. \<exists>pg'. init_free_list params_demo first_set visit_set (\<lambda>_. 64) 32 False raw page_demo = Some (True, pg')
    \<and> apart (page_range params_demo page_demo)
        (snd (recycle_run params_demo contended [24, 4000, 17, 100000] (pg', live_objects_of params_demo (\<lambda>_. 64) page_demo)))"
  by (intro allI, rule recycled_objects_apart [OF page_demo_small(1,2) page_demo_livemap(1) page_demo_ok _ first_set_finds visit_set_iterates])
    (simp_all add: recycle_size_ok_def)

end
