(* ===== verification/Z_Page_Par.thy ===== *)
theory Z_Page_Par
  imports Z_Recycle
begin

text \<open>
  Allocation by moving the top of a page: \<open>ZPage::alloc_object\<close> for a page of one thread, and
  \<open>ZPage::alloc_object_atomic\<close> for a shared page, its load and compare-and-swap taken apart into steps
  of any number of threads under sequential consistency. Each thread allocates one object.
\<close>

datatype alloc_pc = LoadTop | CasTop u64 | Allocated u64

record alloc_thread =
  at_size :: u64
  at_pc :: alloc_pc

definition alloc_thread_step :: "z_params \<Rightarrow> z_page \<Rightarrow> alloc_thread \<Rightarrow> z_page \<times> alloc_thread" where
  "alloc_thread_step P pg t =
     (let aligned_size = align_up (at_size t) (object_alignment P pg); goto = (\<lambda>p. t\<lparr>at_pc := p\<rparr>)
      in case at_pc t of
        LoadTop \<Rightarrow> (pg, goto (CasTop (pg_top pg)))
      | CasTop addr \<Rightarrow>
          (case to_zoffset_end P addr aligned_size of
             None \<Rightarrow> (pg, goto (Allocated 0))
           | Some new_top \<Rightarrow>
               if new_top > page_end pg then (pg, goto (Allocated 0))
               else let prev_top = pg_top pg
                    in if prev_top = addr
                       then (pg\<lparr>pg_top := new_top\<rparr>, goto (Allocated (zoffset_address (heap_base P) addr)))
                       else (pg, goto (CasTop prev_top)))
      | Allocated _ \<Rightarrow> (pg, t))"

inductive alloc_step :: "z_params \<Rightarrow> z_page \<times> ('t \<Rightarrow> alloc_thread) \<Rightarrow> z_page \<times> ('t \<Rightarrow> alloc_thread) \<Rightarrow> bool" for P where
  thread: "alloc_thread_step P pg (ts a) = (pg', t') \<Longrightarrow> alloc_step P (pg, ts) (pg', ts(a := t'))"

inductive_cases alloc_stepE: "alloc_step P s s'"

inductive alloc_reachable ::
  "z_params \<Rightarrow> z_page \<times> ('t \<Rightarrow> alloc_thread) \<Rightarrow> z_page \<times> ('t \<Rightarrow> alloc_thread) \<Rightarrow> bool" for P s where
  start: "alloc_reachable P s s"
| step: "alloc_reachable P s s' \<Longrightarrow> alloc_step P s' s'' \<Longrightarrow> alloc_reachable P s s''"

subsection \<open>Pages and sizes\<close>

text \<open>The range of the page lies below the heap base, a power of two, and its sizes do not wrap around.\<close>

definition bump_page :: "z_params \<Rightarrow> z_page \<Rightarrow> bool" where
  "bump_page P pg \<longleftrightarrow> (\<exists>k < 63. heap_base P = push_bit k 1 \<and> unat (offset_max P) = 2 ^ k)
     \<and> page_start pg \<le> pg_top pg \<and> pg_top pg \<le> page_end pg \<and> page_end pg < offset_max P
     \<and> (\<exists>j < 62. object_alignment P pg = push_bit j 1)"

definition aligned_in :: "z_params \<Rightarrow> z_page \<Rightarrow> u64 \<Rightarrow> nat" where
  "aligned_in P pg sz = unat (align_up sz (object_alignment P pg))"

definition bump_size_ok :: "u64 \<Rightarrow> bool" where
  "bump_size_ok sz \<longleftrightarrow> 0 < unat sz \<and> unat sz \<le> 2 ^ 62"

text \<open>The bytes an object at an address of the heap takes, as offsets.\<close>

definition object_span :: "z_params \<Rightarrow> z_page \<Rightarrow> u64 \<Rightarrow> u64 \<Rightarrow> nat set" where
  "object_span P pg addr sz = span (unat addr - unat (heap_base P), aligned_in P pg sz)"

lemma aligned_bounds:
  assumes "bump_page P pg" "bump_size_ok sz"
  shows "unat sz \<le> aligned_in P pg sz" "0 < aligned_in P pg sz" "aligned_in P pg sz \<le> 2 ^ 63"
proof -
  obtain j where j: "j < 62" "object_alignment P pg = push_bit j 1" using assms(1) by (auto simp: bump_page_def)
  have s: "0 < unat sz" "unat sz \<le> 2 ^ 62" using assms(2) by (simp_all add: bump_size_ok_def)
  have jp: "(2::nat) ^ j \<le> 2 ^ 61" "(0::nat) < 2 ^ j" using j(1) by (intro power_increasing) simp_all
  have u: "aligned_in P pg sz = (unat sz + 2 ^ j - 1) div 2 ^ j * 2 ^ j"
    unfolding aligned_in_def j(2) push_bit_eq_mult mult_1 by (rule unat_align_up) (use j(1) s jp in simp_all)
  have le: "aligned_in P pg sz \<le> unat sz + 2 ^ j - 1" unfolding u by (rule div_times_less_eq_dividend)
  have "unat sz + 2 ^ j - 1 < (unat sz + 2 ^ j - 1) div 2 ^ j * 2 ^ j + 2 ^ j"
    using dividend_less_div_times [OF jp(2), of "unat sz + 2 ^ j - 1"] by linarith
  then show ge: "unat sz \<le> aligned_in P pg sz" unfolding u using jp(2) by linarith
  then show "0 < aligned_in P pg sz" using s(1) by linarith
  show "aligned_in P pg sz \<le> 2 ^ 63" using le s(2) jp(1) by simp
qed

lemma heap_address:
  assumes "bump_page P pg" "unat off \<le> unat (page_end pg)"
  shows "unat (zoffset_address (heap_base P) off) = unat (heap_base P) + unat off" "zoffset_address (heap_base P) off \<noteq> 0"
proof -
  obtain k where k: "k < 63" "heap_base P = push_bit k 1" "unat (offset_max P) = 2 ^ k" using assms(1) by (auto simp: bump_page_def)
  have "unat off < 2 ^ k" using assms k(3) by (simp add: bump_page_def word_less_nat_alt)
  note a = address_or [OF k(1) this]
  have b: "unat (heap_base P) = 2 ^ k" using k by (simp add: push_bit_eq_mult unat_pow2)
  show "unat (zoffset_address (heap_base P) off) = unat (heap_base P) + unat off" unfolding b unfolding k(2) by (rule a)
  then show "zoffset_address (heap_base P) off \<noteq> 0" by (auto simp: b)
qed

lemma new_top:
  assumes "bump_page P pg" "bump_size_ok sz" "addr \<le> page_end pg"
  shows "(case to_zoffset_end P addr (align_up sz (object_alignment P pg)) of None \<Rightarrow> False | Some t \<Rightarrow> \<not> t > page_end pg)
      \<longleftrightarrow> unat addr + aligned_in P pg sz \<le> unat (page_end pg)"
    "to_zoffset_end P addr (align_up sz (object_alignment P pg)) = Some t \<Longrightarrow> unat t = unat addr + aligned_in P pg sz"
proof -
  obtain k where k: "k < 63" "unat (offset_max P) = 2 ^ k" using assms(1) by (auto simp: bump_page_def)
  have e: "unat (page_end pg) < unat (offset_max P)" using assms(1) by (simp add: bump_page_def word_less_nat_alt)
  have "(2::nat) ^ k \<le> 2 ^ 62" using k(1) by (intro power_increasing) simp_all
  then have "unat addr + aligned_in P pg sz < 18446744073709551616"
    using aligned_bounds(3) [OF assms(1,2)] assms(3) e k(2) by (simp add: word_le_nat_alt)
  then have s: "unat (addr + align_up sz (object_alignment P pg)) = unat addr + aligned_in P pg sz"
    by (simp add: unat_add_no_wrap aligned_in_def)
  show "(case to_zoffset_end P addr (align_up sz (object_alignment P pg)) of None \<Rightarrow> False | Some t \<Rightarrow> \<not> t > page_end pg)
      \<longleftrightarrow> unat addr + aligned_in P pg sz \<le> unat (page_end pg)"
    using e by (auto simp: to_zoffset_end_def Let_def word_le_nat_alt word_less_nat_alt s)
  show "to_zoffset_end P addr (align_up sz (object_alignment P pg)) = Some t \<Longrightarrow> unat t = unat addr + aligned_in P pg sz"
    by (auto simp: to_zoffset_end_def Let_def s split: if_splits)
qed

text \<open>\<open>alloc_object\<close> takes the bytes above the top when they fit, and otherwise changes nothing.\<close>

lemma alloc_object_spec:
  assumes "bump_page P pg" "bump_size_ok sz"
  shows "if unat (pg_top pg) + aligned_in P pg sz \<le> unat (page_end pg)
    then \<exists>t. alloc_object P sz pg = (zoffset_address (heap_base P) (pg_top pg), pg\<lparr>pg_top := t\<rparr>)
      \<and> unat t = unat (pg_top pg) + aligned_in P pg sz
    else alloc_object P sz pg = (0, pg)"
proof -
  have "pg_top pg \<le> page_end pg" using assms(1) by (simp add: bump_page_def)
  note n = new_top [OF assms this]
  show ?thesis
    using n by (auto simp: alloc_object_def Let_def split: option.splits)
qed

subsection \<open>Any number of threads\<close>

definition thread_object :: "z_params \<Rightarrow> z_page \<Rightarrow> alloc_thread \<Rightarrow> nat set" where
  "thread_object P pg t = (case at_pc t of
     Allocated addr \<Rightarrow> if addr = 0 then {} else object_span P pg addr (at_size t) | _ \<Rightarrow> {})"

definition alloc_inv :: "z_params \<Rightarrow> z_page \<Rightarrow> z_page \<times> ('t \<Rightarrow> alloc_thread) \<Rightarrow> bool" where
  "alloc_inv P pg0 s \<longleftrightarrow> (case s of (pg, ts) \<Rightarrow>
     pg\<lparr>pg_top := pg_top pg0\<rparr> = pg0 \<and> bump_page P pg \<and> pg_top pg0 \<le> pg_top pg
     \<and> (\<forall>a. bump_size_ok (at_size (ts a)))
     \<and> (\<forall>a addr. at_pc (ts a) = CasTop addr \<longrightarrow> addr \<le> pg_top pg)
     \<and> (\<forall>a. at_pc (ts a) = Allocated 0 \<longrightarrow> unat (page_end pg) < unat (pg_top pg) + aligned_in P pg (at_size (ts a)))
     \<and> (\<forall>a b. a \<noteq> b \<longrightarrow> thread_object P pg (ts a) \<inter> thread_object P pg (ts b) = {})
     \<and> (\<Union>a. thread_object P pg (ts a)) = {unat (pg_top pg0) ..< unat (pg_top pg)})"

text \<open>A step leaves the page alone, or takes the bytes above the top for its thread.\<close>

lemma alloc_thread_step_cases:
  assumes page: "bump_page P pg" and sz: "bump_size_ok (at_size t)" and ld: "\<forall>addr. at_pc t = CasTop addr \<longrightarrow> addr \<le> pg_top pg"
    and st: "alloc_thread_step P pg t = (pg', t')"
  obtains (same) "pg' = pg" "at_size t' = at_size t" "thread_object P pg t' = thread_object P pg t"
      "\<forall>addr. at_pc t' = CasTop addr \<longrightarrow> addr \<le> pg_top pg"
      "at_pc t' = Allocated 0 \<longrightarrow> at_pc t \<noteq> Allocated 0 \<longrightarrow> unat (page_end pg) < unat (pg_top pg) + aligned_in P pg (at_size t)"
    | (took) new where "pg' = pg\<lparr>pg_top := new\<rparr>" "at_size t' = at_size t" "thread_object P pg t = {}"
      "unat new = unat (pg_top pg) + aligned_in P pg (at_size t)" "new \<le> page_end pg"
      "thread_object P pg t' = {unat (pg_top pg) ..< unat new}" "\<forall>addr. at_pc t' \<noteq> CasTop addr" "at_pc t' \<noteq> Allocated 0"
proof (cases "at_pc t")
  case LoadTop
  then show thesis using st by (intro same) (auto simp: alloc_thread_step_def Let_def thread_object_def)
next
  case (Allocated x)
  then show thesis using st by (intro same) (auto simp: alloc_thread_step_def Let_def)
next
  case (CasTop addr)
  have le: "addr \<le> pg_top pg" "pg_top pg \<le> page_end pg" using ld CasTop page by (auto simp: bump_page_def)
  note n = new_top [OF page sz order_trans [OF le]]
  let ?al = "align_up (at_size t) (object_alignment P pg)"
  show thesis
  proof (cases "unat addr + aligned_in P pg (at_size t) \<le> unat (page_end pg)")
    case False
    then have "pg' = pg" "t' = t\<lparr>at_pc := Allocated 0\<rparr>"
      using st CasTop n(1) by (auto simp: alloc_thread_step_def Let_def split: option.splits if_splits)
    moreover have "unat (page_end pg) < unat (pg_top pg) + aligned_in P pg (at_size t)"
      using False le(1) by (simp add: word_le_nat_alt)
    ultimately show thesis using CasTop by (intro same) (simp_all add: thread_object_def)
  next
    case True
    then obtain new where new: "to_zoffset_end P addr ?al = Some new" "\<not> new > page_end pg"
      using n(1) by (auto split: option.splits)
    note u = n(2) [OF new(1)]
    show thesis
    proof (cases "pg_top pg = addr")
      case False
      then have "pg' = pg" "t' = t\<lparr>at_pc := CasTop (pg_top pg)\<rparr>"
        using st CasTop new by (auto simp: alloc_thread_step_def Let_def)
      then show thesis using CasTop by (intro same) (simp_all add: thread_object_def)
    next
      case top: True
      have r: "pg' = pg\<lparr>pg_top := new\<rparr>" "t' = t\<lparr>at_pc := Allocated (zoffset_address (heap_base P) addr)\<rparr>"
        using st CasTop new top by (auto simp: alloc_thread_step_def Let_def)
      note h = heap_address [OF page, of addr]
      have le': "unat addr \<le> unat (page_end pg)" using le by (simp add: word_le_nat_alt)
      have "thread_object P pg t' = {unat (pg_top pg) ..< unat new}"
        using h [OF le'] by (simp add: thread_object_def r(2) object_span_def span_def top u)
      then show thesis using r new(2) u top CasTop h(2) [OF le'] by (intro took [of new]) (simp_all add: thread_object_def)
    qed
  qed
qed

lemma alloc_inv_step:
  assumes inv: "alloc_inv P pg0 (pg, ts)" and st: "alloc_thread_step P pg (ts a) = (pg', t')"
  shows "alloc_inv P pg0 (pg', ts(a := t'))"
proof -
  have i: "pg\<lparr>pg_top := pg_top pg0\<rparr> = pg0" "bump_page P pg" "pg_top pg0 \<le> pg_top pg" "\<And>b. bump_size_ok (at_size (ts b))"
    "\<And>b. \<forall>addr. at_pc (ts b) = CasTop addr \<longrightarrow> addr \<le> pg_top pg"
    "\<And>b. at_pc (ts b) = Allocated 0 \<Longrightarrow> unat (page_end pg) < unat (pg_top pg) + aligned_in P pg (at_size (ts b))"
    "\<And>b c. b \<noteq> c \<Longrightarrow> thread_object P pg (ts b) \<inter> thread_object P pg (ts c) = {}"
    "(\<Union>b. thread_object P pg (ts b)) = {unat (pg_top pg0) ..< unat (pg_top pg)}"
    using inv unfolding alloc_inv_def by auto
  from i(2) i(4) i(5) st show ?thesis
  proof (cases rule: alloc_thread_step_cases)
    case same
    have "thread_object P pg ((ts(a := t')) b) = thread_object P pg (ts b)" for b using same(3) by simp
    then show ?thesis unfolding alloc_inv_def prod.case same(1) using i same(2,4,5) by auto
  next
    case (took new)
    have al: "aligned_in P pg' = aligned_in P pg" and pe: "page_end pg' = page_end pg"
      by (simp_all add: took(1) aligned_in_def object_alignment_def page_end_def fun_eq_iff)
    have "object_span P pg' = object_span P pg" by (simp add: object_span_def al fun_eq_iff)
    then have ob: "thread_object P pg' = thread_object P pg" by (intro ext) (simp add: thread_object_def split: alloc_pc.split)
    have gt: "pg_top pg \<le> new" by (simp add: word_le_nat_alt took(4))
    have b: "bump_page P pg'"
      using i(2) gt took(5) by (auto simp: bump_page_def took(1) object_alignment_def page_start_def page_end_def)
    have below: "thread_object P pg (ts b) \<subseteq> {unat (pg_top pg0) ..< unat (pg_top pg)}" for b using i(8) by blast
    have "thread_object P pg (ts b) \<inter> thread_object P pg t' = {}" for b using below [of b] by (auto simp: took(6))
    then have dis: "thread_object P pg ((ts(a := t')) b) \<inter> thread_object P pg ((ts(a := t')) c) = {}" if "b \<noteq> c" for b c
      using i(7) [OF that] that by (auto simp: Int_commute)
    have un: "(\<Union>b. thread_object P pg ((ts(a := t')) b)) = {unat (pg_top pg0) ..< unat new}"
    proof -
      have "(\<Union>b. thread_object P pg ((ts(a := t')) b)) = thread_object P pg t' \<union> (\<Union>b \<in> - {a}. thread_object P pg (ts b))"
        by (auto split: if_splits)
      also have "(\<Union>b \<in> - {a}. thread_object P pg (ts b)) = (\<Union>b. thread_object P pg (ts b))" using took(3) by auto
      finally show ?thesis using i(3) took(4) by (auto simp: i(8) took(6) word_le_nat_alt)
    qed
    have full: "unat (page_end pg) < unat new + aligned_in P pg (at_size (ts b))" if "at_pc (ts b) = Allocated 0" for b
      using i(6) [OF that] gt by (simp add: word_le_nat_alt)
    have seen: "addr \<le> new" if "at_pc (ts b) = CasTop addr" for b addr using i(5) [of b] that gt by (meson order_trans)
    show ?thesis
      unfolding alloc_inv_def prod.case ob al pe
      using full seen i(1,3,4) took(2,7,8) gt b dis un
      by (auto simp: took(1) word_le_nat_alt intro: order_trans less_le_trans)
  qed
qed

subsection \<open>Properties\<close>

definition allocation_starts :: "z_params \<Rightarrow> z_page \<Rightarrow> ('t \<Rightarrow> alloc_thread) \<Rightarrow> bool" where
  "allocation_starts P pg ts \<longleftrightarrow> bump_page P pg \<and> (\<forall>a. at_pc (ts a) = LoadTop \<and> bump_size_ok (at_size (ts a)))"

lemma allocation_inv:
  assumes "alloc_reachable P (pg0, ts0) s" "allocation_starts P pg0 ts0"
  shows "alloc_inv P pg0 s"
  using assms(1)
proof (induction rule: alloc_reachable.induct)
  case start
  have "thread_object P pg0 (ts0 a) = {}" for a using assms(2) by (simp add: allocation_starts_def thread_object_def)
  then show ?case using assms(2) by (simp add: alloc_inv_def allocation_starts_def)
next
  case (step s' s'')
  then show ?case by (auto elim!: alloc_stepE intro: alloc_inv_step)
qed

text \<open>Runs by a schedule, for concrete inputs.\<close>

fun alloc_run :: "z_params \<Rightarrow> 't list \<Rightarrow> z_page \<times> ('t \<Rightarrow> alloc_thread) \<Rightarrow> z_page \<times> ('t \<Rightarrow> alloc_thread)" where
  "alloc_run P [] s = s"
| "alloc_run P (a # as) (pg, ts) = (case alloc_thread_step P pg (ts a) of (pg', t') \<Rightarrow> alloc_run P as (pg', ts(a := t')))"

lemma alloc_run_reachable: "alloc_reachable P s (pg, ts) \<Longrightarrow> alloc_reachable P s (alloc_run P as (pg, ts))"
proof (induction as arbitrary: pg ts)
  case (Cons a as)
  obtain pg' t' where t: "alloc_thread_step P pg (ts a) = (pg', t')" by (cases "alloc_thread_step P pg (ts a)")
  then have "alloc_reachable P s (pg', ts(a := t'))" using Cons.prems by (auto intro: alloc_reachable.step alloc_step.thread)
  then show ?case using Cons.IH t by simp
qed simp

definition bump_demo :: "nat \<Rightarrow> alloc_thread" where
  "bump_demo n = \<lparr>at_size = (if n = 0 then 24 else 2000000), at_pc = LoadTop\<rparr>"

lemma page_demo_fields: "pg_top page_demo = 0" "pg_type page_demo = SmallPage" "vm_end (pg_virtual page_demo) = 2097152"
  by (simp_all add: page_demo_def page_new_def)

lemma bump_demo_starts: "allocation_starts params_demo page_demo bump_demo"
proof -
  have "bump_page params_demo page_demo"
    unfolding bump_page_def
    by (intro conjI exI [of _ 42] exI [of _ 3])
      (simp_all add: params_demo_def page_demo_def page_new_def page_start_def page_end_def object_alignment_def push_bit_eq_mult)
  then show ?thesis by (simp add: allocation_starts_def bump_demo_def bump_size_ok_def)
qed

text \<open>C17. However threads that allocate from a shared page interleave, their objects are disjoint and fill exactly
  the bytes between the old and the new top, which stays inside the page; a thread that got no
  object asked for more than the rest of the page.\<close>

theorem atomic_allocation_disjoint:
  assumes "allocation_starts P pg0 ts0" "alloc_reachable P (pg0, ts0) (pg, ts)"
  shows "(\<forall>a b. thread_object P pg (ts a) \<inter> thread_object P pg (ts b) = {} \<or> a = b)
    \<and> (\<Union>a. thread_object P pg (ts a)) = {unat (pg_top pg0) ..< unat (pg_top pg)} \<and> pg_top pg \<le> page_end pg
    \<and> \<not> (\<exists>a. at_pc (ts a) = Allocated 0 \<and> unat (pg_top pg) + aligned_in P pg (at_size (ts a)) \<le> unat (page_end pg))"
proof (intro conjI allI)
  have i: "alloc_inv P pg0 (pg, ts)" by (rule allocation_inv [OF assms(2,1)])
  then show "thread_object P pg (ts a) \<inter> thread_object P pg (ts b) = {} \<or> a = b" for a b unfolding alloc_inv_def by (cases "a = b") simp_all
  show "(\<Union>a. thread_object P pg (ts a)) = {unat (pg_top pg0) ..< unat (pg_top pg)}" using i by (simp add: alloc_inv_def)
  show "pg_top pg \<le> page_end pg" using i by (simp add: alloc_inv_def bump_page_def)
  show "\<not> (\<exists>a. at_pc (ts a) = Allocated 0 \<and> unat (pg_top pg) + aligned_in P pg (at_size (ts a)) \<le> unat (page_end pg))"
    using i by (auto simp: alloc_inv_def not_le)
qed

theorem atomic_allocation_disjoint_witness:
  "case alloc_run params_demo [0, 1, 1, 2, 0, 0, 2, 2] (page_demo, bump_demo) of (pg, ts) \<Rightarrow>
     unat (pg_top pg) = 2000024 \<and> at_pc (ts 2) = Allocated 0
     \<and> thread_object params_demo pg (ts 0) \<union> (\<Union>a \<in> - {0}. thread_object params_demo pg (ts a)) = {0 ..< 2000024}"
proof -
  obtain pg ts where r: "alloc_run params_demo [0, 1, 1, 2, 0, 0, 2, 2] (page_demo, bump_demo) = (pg, ts)"
    by (cases "alloc_run params_demo [0, 1, 1, 2, 0, 0, 2, 2] (page_demo, bump_demo)")
  have "alloc_reachable params_demo (page_demo, bump_demo) (pg, ts)"
    using alloc_run_reachable [OF alloc_reachable.start, of params_demo page_demo bump_demo] by (metis r)
  note t = atomic_allocation_disjoint [OF bump_demo_starts this]
  have v: "unat (pg_top pg) = 2000024 \<and> at_pc (ts 2) = Allocated 0"
  proof -
    have "unat (pg_top (fst (alloc_run params_demo [0, 1, 1, 2, 0, 0, 2, 2] (page_demo, bump_demo)))) = 2000024
      \<and> at_pc (snd (alloc_run params_demo [0, 1, 1, 2, 0, 0, 2, 2] (page_demo, bump_demo)) 2) = Allocated 0"
      by (simp add: alloc_thread_step_def Let_def page_end_def object_alignment_def bump_demo_def to_zoffset_end_def page_demo_fields
          align_up_def zoffset_address_def params_demo_def push_bit_eq_mult)
    then show ?thesis unfolding r fst_conv snd_conv .
  qed
  have "thread_object params_demo pg (ts 0) \<union> (\<Union>a \<in> - {0}. thread_object params_demo pg (ts a)) = (\<Union>a. thread_object params_demo pg (ts a))"
    by auto
  moreover have "unat (pg_top page_demo) = 0" by (simp add: page_demo_def page_new_def)
  ultimately show ?thesis using t v unfolding r prod.case by simp
qed

end
