(* ===== verification/Z_Page_Type.thy ===== *)
theory Z_Page_Type
  imports Z_Page
begin

text \<open>
  Well-formed pages: the size fits the type, as the constructor of \<open>ZPage\<close> asserts, the live map and the
  remembered set have the sizes that follow from it, the top lies inside the page and an old page has
  a remembered set. The lemmas say that the constructor, resets, allocation, marking, remembering, changes of
  type and splits keep this; \<open>Z_Page_Life\<close> puts them together for all operations.
\<close>

definition params_ok :: "z_params \<Rightarrow> bool" where
  "params_ok P \<longleftrightarrow> small_shift P \<le> 21 \<and> (\<exists>m < 63. page_size_medium P = push_bit m 1 \<and> medium_shift P \<le> m \<and> m < medium_shift P + 32)"

definition size_fits :: "z_params \<Rightarrow> z_page_type \<Rightarrow> u64 \<Rightarrow> bool" where
  "size_fits P type sz \<longleftrightarrow> 8 \<le> unat sz
     \<and> (type = SmallPage \<longrightarrow> sz = ZPageSizeSmall) \<and> (type = MediumPage \<longrightarrow> sz = page_size_medium P)"

definition remset_fits :: "nat \<Rightarrow> z_remset \<Rightarrow> bool" where
  "remset_fits n r \<longleftrightarrow> (fst (remset_bitmap0 r) = 0 \<or> fst (remset_bitmap0 r) = n) \<and> fst (remset_bitmap1 r) = fst (remset_bitmap0 r)"

definition page_shape :: "z_params \<Rightarrow> z_page \<Rightarrow> bool" where
  "page_shape P pg \<longleftrightarrow> size_fits P (pg_type pg) (page_size pg)
     \<and> livemap_shape (pg_livemap pg) \<and> lm_bitmap_size (pg_livemap pg) = bitmap_size (unat (object_max_count P pg))
     \<and> remset_fits (unat (page_size pg) div 8) (pg_remembered_set pg)
     \<and> (pg_generation_id pg = GenOld \<longleftrightarrow> pg_age pg = AgeOld)
     \<and> (pg_generation_id pg = GenOld \<longrightarrow> remset_is_initialized (pg_remembered_set pg))"

definition page_ok :: "z_params \<Rightarrow> z_page \<Rightarrow> bool" where
  "page_ok P pg \<longleftrightarrow> page_shape P pg \<and> page_start pg \<le> pg_top pg \<and> pg_top pg \<le> page_end pg"

subsection \<open>Sizes\<close>

lemma drop_push_exact:
  assumes "a \<le> b" "b < 64" "b < a + 32"
  shows "(ucast (drop_bit a (push_bit b 1 :: u64)) :: u32) = push_bit (b - a) 1"
proof (rule bit_word_eqI)
  fix n assume "n < LENGTH(32)"
  then show "bit (ucast (drop_bit a (push_bit b 1 :: u64)) :: u32) n \<longleftrightarrow> bit (push_bit (b - a) 1 :: u32) n"
    using assms by (auto simp: bit_ucast_iff bit_drop_bit_eq push_bit_eq_mult bit_exp_iff)
qed

lemma max_count_pow2:
  assumes "params_ok P" "size_fits P (pg_type pg) (page_size pg)"
  obtains k where "unat (object_max_count P pg) = 2 ^ k"
proof (cases "pg_type pg")
  case SmallPage
  then have sz: "page_size pg = push_bit 21 1"
    using assms(2) unfolding size_fits_def ZPageSizeSmall_def ZPageSizeSmallShift_def by blast
  have "small_shift P \<le> 21" using assms(1) by (simp add: params_ok_def)
  then have "(ucast (drop_bit (small_shift P) (push_bit 21 1 :: u64)) :: u32) = push_bit (21 - small_shift P) 1"
    by (intro drop_push_exact) simp_all
  then have "object_max_count P pg = push_bit (21 - small_shift P) 1"
    using SmallPage unfolding object_max_count_def object_alignment_shift_def sz by (simp only: z_page_type.case)
  then have "unat (object_max_count P pg) = 2 ^ (21 - small_shift P)" by (simp add: push_bit_eq_mult unat_pow2)
  then show thesis by (rule that)
next
  case MediumPage
  then obtain m where m: "m < 63" "page_size pg = push_bit m 1" "medium_shift P \<le> m" "m < medium_shift P + 32"
    using assms by (auto simp: size_fits_def params_ok_def)
  have "(ucast (drop_bit (medium_shift P) (push_bit m 1 :: u64)) :: u32) = push_bit (m - medium_shift P) 1"
    using m by (intro drop_push_exact) simp_all
  then have "object_max_count P pg = push_bit (m - medium_shift P) 1"
    using MediumPage unfolding object_max_count_def object_alignment_shift_def m(2) by (simp only: z_page_type.case)
  moreover have "m - medium_shift P < 32" using m by simp
  ultimately have "unat (object_max_count P pg) = 2 ^ (m - medium_shift P)" by (simp add: push_bit_eq_mult unat_pow2)
  then show thesis by (rule that)
next
  case LargePage
  then show thesis using that [of 0] by (simp add: object_max_count_def)
qed

lemma resize_shape:
  assumes "livemap_shape m" "n = 2 ^ k"
  shows "livemap_shape (livemap_resize garbage n m)" "lm_bitmap_size (livemap_resize garbage n m) = bitmap_size n"
proof -
  show "lm_bitmap_size (livemap_resize garbage n m) = bitmap_size n" by (simp add: livemap_resize_def Let_def)
  have "livemap_shape (livemap_new garbage n)" using assms(2) by (rule shape_new)
  then show "livemap_shape (livemap_resize garbage n m)"
    using assms(1) by (auto simp: livemap_resize_def Let_def livemap_shape_def livemap_new_def segment_size_def)
qed

lemma livemap_set_keeps_shape:
  assumes "livemap_set S i fin m = Some (r, inc, m')"
  shows "segment_shift m' = segment_shift m" "lm_bitmap_size m' = lm_bitmap_size m"
  using assms
  by (auto simp: livemap_set_def livemap_reset_cycle_def reset_segment_def Let_def split: if_splits option.splits prod.splits)

lemma remset_fits_resize:
  "remset_fits n r \<Longrightarrow> remset_fits (sz div 8) (remset_resize sz r)"
  "remset_fits n r \<Longrightarrow> 8 \<le> sz \<Longrightarrow> remset_is_initialized (remset_resize sz r) \<longleftrightarrow> remset_is_initialized r"
  by (auto simp: remset_fits_def remset_resize_def remset_is_initialized_def bitmap_resize_def Let_def to_bit_size_def oopSize_def
      div_greater_zero_iff)

text \<open>What a page keeps when its type or size changes.\<close>

lemma reset_type_and_size_facts:
  "page_start (reset_type_and_size P g type pg) = page_start pg" "page_end (reset_type_and_size P g type pg) = page_end pg"
  "page_size (reset_type_and_size P g type pg) = page_size pg" "pg_top (reset_type_and_size P g type pg) = pg_top pg"
  "pg_type (reset_type_and_size P g type pg) = type" "pg_age (reset_type_and_size P g type pg) = pg_age pg"
  "pg_generation_id (reset_type_and_size P g type pg) = pg_generation_id pg"
  "object_max_count P (reset_type_and_size P g type pg) = object_max_count P (pg\<lparr>pg_type := type\<rparr>)"
  "pg_livemap (reset_type_and_size P g type pg) = livemap_resize g (unat (object_max_count P (pg\<lparr>pg_type := type\<rparr>))) (pg_livemap pg)"
  "pg_remembered_set (reset_type_and_size P g type pg) = remset_resize (unat (page_size pg)) (pg_remembered_set pg)"
  by (simp_all add: reset_type_and_size_def Let_def page_start_def page_end_def page_size_def object_max_count_def
      object_alignment_shift_def split: z_page_type.split)

lemma page_shape_resized:
  assumes "params_ok P" "size_fits P type (page_size pg)"
    "livemap_shape (pg_livemap pg)" "remset_fits n (pg_remembered_set pg)"
    "pg_generation_id pg = GenOld \<longleftrightarrow> pg_age pg = AgeOld" "pg_generation_id pg = GenOld \<longrightarrow> remset_is_initialized (pg_remembered_set pg)"
  shows "page_shape P (reset_type_and_size P g type pg)"
proof -
  let ?pg = "pg\<lparr>pg_type := type\<rparr>"
  have "size_fits P (pg_type ?pg) (page_size ?pg)" using assms(2) by (simp add: page_size_def)
  then obtain k where k: "unat (object_max_count P ?pg) = 2 ^ k" by (rule max_count_pow2 [OF assms(1)])
  have "8 \<le> unat (page_size pg)" using assms(2) by (simp add: size_fits_def)
  then show ?thesis
    using assms resize_shape [OF assms(3) k] remset_fits_resize [OF assms(4)]
    by (simp add: page_shape_def reset_type_and_size_facts)
qed

lemma page_new_ok:
  assumes "params_ok P" "size_fits P type (vm_end v - vm_start v)" "vm_start v \<le> vm_end v"
  shows "page_ok P (page_new P g r type v)"
proof -
  let ?pg = "page_new P g r type v"
  have f: "pg_type ?pg = type" "page_size ?pg = vm_end v - vm_start v" "page_start ?pg = vm_start v" "page_end ?pg = vm_end v"
    "pg_top ?pg = vm_start v" "pg_livemap ?pg = livemap_new g (unat (object_max_count P ?pg))" "pg_remembered_set ?pg = remset_new"
    "pg_generation_id ?pg = GenYoung" "pg_age ?pg = Eden"
    by (simp_all add: page_new_def Let_def page_size_def page_start_def page_end_def object_max_count_def object_alignment_shift_def
        split: z_page_type.split)
  have "size_fits P (pg_type ?pg) (page_size ?pg)" using assms(2) by (simp add: f)
  then obtain k where k: "unat (object_max_count P ?pg) = 2 ^ k" by (rule max_count_pow2 [OF assms(1)])
  have "livemap_shape (pg_livemap ?pg)" "lm_bitmap_size (pg_livemap ?pg) = bitmap_size (unat (object_max_count P ?pg))"
    unfolding f(6) by (rule shape_new [OF k]) (simp add: livemap_new_def)
  then show ?thesis
    using assms(2,3) f by (simp add: page_ok_def page_shape_def remset_fits_def remset_new_def)
qed

lemma page_reset_ok:
  assumes "page_shape P pg" "page_start pg \<le> page_end pg" "type = FlipAging \<longrightarrow> page_start pg \<le> pg_top pg \<and> pg_top pg \<le> page_end pg"
  shows "page_ok P (page_reset seqnum age type pg)"
proof -
  have sz: "8 \<le> unat (page_size pg)" using assms(1) by (simp add: page_shape_def size_fits_def)
  let ?q = "page_reset seqnum age type pg"
  have f: "page_size ?q = page_size pg" "page_start ?q = page_start pg" "page_end ?q = page_end pg" "pg_type ?q = pg_type pg"
    "object_max_count P ?q = object_max_count P pg" "pg_age ?q = age" "pg_generation_id ?q = (if age = AgeOld then GenOld else GenYoung)"
    "pg_top ?q = (if type = FlipAging then pg_top pg else page_start pg)"
    "segment_shift (pg_livemap ?q) = segment_shift (pg_livemap pg)" "lm_bitmap_size (pg_livemap ?q) = lm_bitmap_size (pg_livemap pg)"
    "livemap_shape (pg_livemap ?q) = livemap_shape (pg_livemap pg)"
    "pg_remembered_set ?q = (if age = AgeOld \<and> \<not> remset_is_initialized (pg_remembered_set pg)
      then remset_initialize (unat (page_size pg)) (pg_remembered_set pg) else pg_remembered_set pg)"
    by (simp_all add: page_reset_def reset_seqnum_def reset_remembered_set_def Let_def page_size_def page_start_def page_end_def
        object_max_count_def object_alignment_shift_def livemap_reset_def livemap_shape_def split: z_page_type.split)
  show ?thesis
    using assms sz unfolding page_ok_def page_shape_def f
    by (auto simp: remset_fits_def remset_initialize_def remset_is_initialized_def to_bit_size_def oopSize_def Let_def div_greater_zero_iff)
qed

lemma page_update_simps [simp]:
  "page_start (pg\<lparr>pg_top := a\<rparr>) = page_start pg" "page_end (pg\<lparr>pg_top := a\<rparr>) = page_end pg"
  "page_size (pg\<lparr>pg_top := a\<rparr>) = page_size pg" "object_max_count P (pg\<lparr>pg_top := a\<rparr>) = object_max_count P pg"
  "page_start (pg\<lparr>pg_livemap := m\<rparr>) = page_start pg" "page_end (pg\<lparr>pg_livemap := m\<rparr>) = page_end pg"
  "page_size (pg\<lparr>pg_livemap := m\<rparr>) = page_size pg" "object_max_count P (pg\<lparr>pg_livemap := m\<rparr>) = object_max_count P pg"
  "page_start (pg\<lparr>pg_remembered_set := r\<rparr>) = page_start pg" "page_end (pg\<lparr>pg_remembered_set := r\<rparr>) = page_end pg"
  "page_size (pg\<lparr>pg_remembered_set := r\<rparr>) = page_size pg" "object_max_count P (pg\<lparr>pg_remembered_set := r\<rparr>) = object_max_count P pg"
  by (simp_all add: page_start_def page_end_def page_size_def object_max_count_def object_alignment_shift_def split: z_page_type.split)

lemma page_shape_top [simp]: "page_shape P (pg\<lparr>pg_top := a\<rparr>) = page_shape P pg"
  by (simp add: page_shape_def)

lemma alloc_object_ok:
  assumes "page_ok P pg" "unat (pg_top pg) + unat (align_up sz (object_alignment P pg)) < 18446744073709551616"
  shows "page_ok P (snd (alloc_object P sz pg))"
proof -
  have "unat (pg_top pg + align_up sz (object_alignment P pg)) = unat (pg_top pg) + unat (align_up sz (object_alignment P pg))"
    by (rule unat_add_no_wrap [OF assms(2)])
  then have "page_start pg \<le> pg_top pg + align_up sz (object_alignment P pg)"
    using assms(1) by (auto simp: page_ok_def word_le_nat_alt)
  then show ?thesis
    using assms(1)
    by (simp add: alloc_object_def to_zoffset_end_def Let_def page_ok_def not_less split: option.split)
qed

lemma mark_object_ok:
  assumes "page_ok P pg" "mark_object P seqnum addr fin pg = Some (r, inc, pg')"
  shows "page_ok P pg'"
proof -
  obtain m where m: "livemap_set (seqnum (pg_generation_id pg)) (bit_index P addr pg) fin (pg_livemap pg) = Some (r, inc, m)"
    "pg' = pg\<lparr>pg_livemap := m\<rparr>" using assms(2) by (auto simp: mark_object_def split: option.splits)
  show ?thesis
    using assms(1) livemap_set_keeps_shape [OF m(1)] unfolding m(2)
    by (simp add: page_ok_def page_shape_def livemap_shape_def)
qed

lemma remset_set_sizes:
  "fst (remset_bitmap0 (snd (set_current c i r))) = fst (remset_bitmap0 r)"
  "fst (remset_bitmap1 (snd (set_current c i r))) = fst (remset_bitmap1 r)"
  by (cases "remset_bitmap0 r"; cases "remset_bitmap1 r";
      simp add: set_current_def set_bitmap_of_def remset_current_def bitmap_of_def)+

lemma remember_ok: "page_ok P pg \<Longrightarrow> page_ok P (remember P current p pg)"
  by (simp add: page_ok_def page_shape_def remember_def remset_fits_def remset_is_initialized_def remset_set_sizes)

lemma type_fits: "8 \<le> unat sz \<Longrightarrow> size_fits P (type_from_size P sz) sz"
  by (simp add: size_fits_def type_from_size_def)

lemma page_split_ok:
  assumes "params_ok P" "page_ok P pg" "size_fits P type sz" "unat sz + 8 \<le> unat (page_size pg)"
    "split_with_pmem P seqnum g g' r type sz pg = (new, rest)"
  shows "page_ok P new \<and> page_ok P rest \<and> page_start new = page_start pg \<and> page_end new = page_start rest \<and> page_end rest = page_end pg"
    and "pg_type new = type \<and> page_size new = sz \<and> pg_type rest = type_from_size P (page_size rest)
      \<and> unat (page_size rest) = unat (page_size pg) - unat sz"
proof -
  have le: "page_start pg \<le> page_end pg" using assms(2) by (auto simp: page_ok_def)
  then have usz: "unat (page_size pg) = unat (page_end pg) - unat (page_start pg)"
    by (simp add: page_size_def page_start_def page_end_def unat_sub)
  have cut: "unat (page_start pg + sz) = unat (page_start pg) + unat sz"
  proof (rule unat_add_no_wrap)
    show "unat (page_start pg) + unat sz < 18446744073709551616"
      using assms(4) usz unat_lt64 [of "page_end pg"] by linarith
  qed
  define v where "v = (pg_virtual pg)\<lparr>vm_start := vm_start (pg_virtual pg) + sz\<rparr>"
  define p1 where "p1 = pg\<lparr>pg_virtual := v\<rparr>"
  have f: "page_start p1 = page_start pg + sz" "page_end p1 = page_end pg" "page_size p1 = page_end pg - (page_start pg + sz)"
    by (simp_all add: p1_def v_def page_start_def page_end_def page_size_def)
  have ord: "page_start pg + sz \<le> page_end pg" using assms(4) usz cut le by (simp add: word_le_nat_alt)
  have "unat (page_size p1) = unat (page_end pg) - (unat (page_start pg) + unat sz)"
    unfolding f(3) using ord cut by (simp add: unat_sub)
  then have s: "unat (page_size p1) = unat (page_size pg) - unat sz" using usz by linarith
  then have s1: "8 \<le> unat (page_size p1)" using assms(4) by linarith
  define p2 where "p2 = reset_type_and_size P g (type_from_size P (page_size p1)) p1"
  have same: "pg_livemap p1 = pg_livemap pg" "pg_remembered_set p1 = pg_remembered_set pg" "pg_age p1 = pg_age pg"
    "pg_generation_id p1 = pg_generation_id pg" by (simp_all add: p1_def)
  have "page_shape P p2"
    unfolding p2_def using assms(2) type_fits [OF s1]
    by (intro page_shape_resized [OF assms(1), where n = "unat (page_size pg) div 8"]) (simp_all add: page_ok_def page_shape_def same)
  moreover have "page_start p2 \<le> page_end p2" using ord f by (simp add: p2_def reset_type_and_size_facts)
  ultimately have rest_ok: "page_ok P (page_reset seqnum (pg_age p2) Splitting p2)" by (intro page_reset_ok) simp_all
  have "split_with_pmem P seqnum g g' r type sz pg
      = (page_new P g' r type \<lparr>vm_start = page_start pg, vm_end = page_start pg + sz\<rparr>, page_reset seqnum (pg_age p2) Splitting p2)"
    by (simp add: split_with_pmem_def virtual_split_def Let_def p2_def p1_def v_def page_start_def page_end_def)
  then have out: "new = page_new P g' r type \<lparr>vm_start = page_start pg, vm_end = page_start pg + sz\<rparr>"
    "rest = page_reset seqnum (pg_age p2) Splitting p2"
    using assms(5) by simp_all
  have "page_ok P new"
    unfolding out(1)
    by (rule page_new_ok [OF assms(1)]) (use assms(3) cut in \<open>simp_all add: word_le_nat_alt\<close>)
  moreover have same_reset: "page_start rest = page_start p2" "page_end rest = page_end p2" "pg_type rest = pg_type p2"
    "page_size rest = page_size p2"
    by (simp_all add: out(2) page_reset_def reset_seqnum_def reset_remembered_set_def Let_def page_start_def page_end_def page_size_def)
  ultimately show "page_ok P new \<and> page_ok P rest \<and> page_start new = page_start pg \<and> page_end new = page_start rest \<and> page_end rest = page_end pg"
    using rest_ok out f
    by (simp add: p2_def reset_type_and_size_facts) (simp add: page_new_def Let_def page_start_def page_end_def)
  show "pg_type new = type \<and> page_size new = sz \<and> pg_type rest = type_from_size P (page_size rest)
      \<and> unat (page_size rest) = unat (page_size pg) - unat sz"
    using same_reset s by (simp add: p2_def reset_type_and_size_facts out(1)) (simp add: page_new_def Let_def page_size_def)
qed

lemma retype_ok:
  assumes "params_ok P" "page_ok P pg" "size_fits P type (page_size pg)"
  shows "page_ok P (page_retype P g type pg)"
  using assms page_shape_resized [of P type pg "unat (page_size pg) div 8" g]
  by (simp add: page_ok_def page_shape_def [of P pg] page_retype_def reset_type_and_size_facts)

lemma fill_page_ok: "page_ok P pg \<Longrightarrow> page_ok P (fill_page pg)"
  by (auto simp: page_ok_def fill_page_def)

lemma finalize_reset_ok: "page_ok P pg \<Longrightarrow> page_ok P (finalize_reset_for_in_place_relocation pg)"
  by (simp add: page_ok_def page_shape_def finalize_reset_for_in_place_relocation_def livemap_reset_def livemap_shape_def)

text \<open>The constants of an x86-64 machine with 32 MB medium pages, and a new small page.\<close>

definition type_params_demo :: z_params where
  "type_params_demo = \<lparr>heap_base = 0x40000000000, offset_mask = 0x3FFFFFFFFFF, offset_max = 0x40000000000,
     small_shift = 3, medium_shift = 12, page_size_medium = push_bit 25 1\<rparr>"

definition type_page_demo :: z_page where
  "type_page_demo = page_new type_params_demo (\<lambda>_. False) 0 SmallPage \<lparr>vm_start = 0x200000, vm_end = 0x400000\<rparr>"

end
