(* ===== verification/Z_Page_Life.thy ===== *)
theory Z_Page_Life
  imports Z_Page_Par Z_Page_Type
begin

text \<open>
  The life of a page: every operation of \<open>ZPage\<close> that changes a page, as one relation, from the constructor
  through allocation, marking, remembering, recycling, resets, changes of type and splits. Whatever the
  order in which the collector uses them, the page keeps its type. First the operations that only pass on to
  the remembered set or to a field.
\<close>

definition set_last_used :: "u64 \<Rightarrow> z_page \<Rightarrow> z_page" where
  "set_last_used elapsed pg = pg\<lparr>pg_last_used := elapsed\<rparr>"

definition clear_remset_bit_non_par_current :: "nat \<Rightarrow> u64 \<Rightarrow> z_page \<Rightarrow> z_page" where
  "clear_remset_bit_non_par_current current l_offset pg =
     pg\<lparr>pg_remembered_set := unset_non_par_current current (unat l_offset) (pg_remembered_set pg)\<rparr>"

definition clear_remset_range_non_par_current :: "nat \<Rightarrow> u64 \<Rightarrow> u64 \<Rightarrow> z_page \<Rightarrow> z_page" where
  "clear_remset_range_non_par_current current l_offset sz pg =
     pg\<lparr>pg_remembered_set := unset_range_non_par_current current (unat l_offset) (unat sz) (pg_remembered_set pg)\<rparr>"

definition remset_clear :: "nat \<Rightarrow> z_page \<Rightarrow> z_page" where
  "remset_clear current pg = pg\<lparr>pg_remembered_set := clear_all current (pg_remembered_set pg)\<rparr>"

definition clear_remset_current :: "nat \<Rightarrow> z_page \<Rightarrow> z_page" where
  "clear_remset_current current pg = pg\<lparr>pg_remembered_set := clear_current current (pg_remembered_set pg)\<rparr>"

definition clear_remset_previous :: "nat \<Rightarrow> z_page \<Rightarrow> z_page" where
  "clear_remset_previous current pg = pg\<lparr>pg_remembered_set := clear_previous current (pg_remembered_set pg)\<rparr>"

definition page_swap_remset_bitmaps :: "bitmap bitmap_iterate \<Rightarrow> nat \<Rightarrow> z_page \<Rightarrow> z_page" where
  "page_swap_remset_bitmaps it current pg =
     pg\<lparr>pg_remembered_set := swap_remset_bitmaps it current (pg_remembered_set pg)\<rparr>"

subsection \<open>Every operation that changes a page\<close>

text \<open>
  One rule per operation, under what its callers ensure: a page is made with, or changed to, a type its size
  fits; a split leaves at least eight bytes on both sides; an allocation at the top does not wrap around a
  64-bit word (\<open>ZPage::alloc_object\<close> adds without a check). \<open>alloc_object_atomic\<close> is any step of any thread.
  The sequence numbers of the generations and the current remembered set may differ at every rule.
\<close>

inductive page_life :: "z_params \<Rightarrow> z_page \<Rightarrow> bool" for P where
  made: "size_fits P type (vm_end v - vm_start v) \<Longrightarrow> vm_start v \<le> vm_end v \<Longrightarrow> page_life P (page_new P g r type v)"
| cloned: "page_life P pg \<Longrightarrow> page_life P (clone_limited P g r pg)"
| cloned_flipped: "page_life P pg \<Longrightarrow> page_life P (clone_limited_promote_flipped P g r pg)"
| seqnum: "page_life P pg \<Longrightarrow> page_life P (reset_seqnum seqnum pg)"
| recycling_seqnum: "page_life P pg \<Longrightarrow> page_life P (reset_recycling_seqnum seqnum pg)"
| last_used: "page_life P pg \<Longrightarrow> page_life P (set_last_used elapsed pg)"
| reset: "page_life P pg \<Longrightarrow> page_life P (page_reset seqnum age how pg)"
| reset_finalized: "page_life P pg \<Longrightarrow> page_life P (finalize_reset_for_in_place_relocation pg)"
| retyped: "page_life P pg \<Longrightarrow> size_fits P type (page_size pg) \<Longrightarrow> page_life P (page_retype P g type pg)"
| split_off: "page_life P pg \<Longrightarrow> size_fits P type sz \<Longrightarrow> unat sz + 8 \<le> unat (page_size pg)
    \<Longrightarrow> page_life P (fst (split_with_pmem P seqnum g g' r type sz pg))"
| split_rest: "page_life P pg \<Longrightarrow> size_fits P type sz \<Longrightarrow> unat sz + 8 \<le> unat (page_size pg)
    \<Longrightarrow> page_life P (snd (split_with_pmem P seqnum g g' r type sz pg))"
| allocated: "page_life P pg \<Longrightarrow> unat (pg_top pg) + unat (align_up sz (object_alignment P pg)) < 2 ^ 64
    \<Longrightarrow> page_life P (snd (alloc_object P sz pg))"
| allocated_atomic: "page_life P pg \<Longrightarrow> unat (pg_top pg) + unat (align_up (at_size t) (object_alignment P pg)) < 2 ^ 64
    \<Longrightarrow> page_life P (fst (alloc_thread_step P pg t))"
| not_undone: "page_life P pg \<Longrightarrow> page_life P (snd (undo_alloc_object addr sz pg))"
| filled: "page_life P pg \<Longrightarrow> page_life P (fill_page pg)"
| recycled: "page_life P pg \<Longrightarrow> init_free_list P ff it object_size min_block buddy raw pg = Some (res, pg') \<Longrightarrow> page_life P pg'"
| allocated_free_list: "page_life P pg \<Longrightarrow> alloc_object_free_list P contended sz pg = Some (addr, pg') \<Longrightarrow> page_life P pg'"
| marked: "page_life P pg \<Longrightarrow> mark_object P seqnum addr fin pg = Some (res, inc, pg') \<Longrightarrow> page_life P pg'"
| counted: "page_life P pg \<Longrightarrow> page_life P (page_inc_live objects bytes pg)"
| remembered: "page_life P pg \<Longrightarrow> page_life P (remember P current p pg)"
| remset_bit: "page_life P pg \<Longrightarrow> page_life P (clear_remset_bit_non_par_current current l_offset pg)"
| remset_range: "page_life P pg \<Longrightarrow> page_life P (clear_remset_range_non_par_current current l_offset sz pg)"
| remset_all: "page_life P pg \<Longrightarrow> page_life P (remset_clear current pg)"
| remset_current: "page_life P pg \<Longrightarrow> page_life P (clear_remset_current current pg)"
| remset_previous: "page_life P pg \<Longrightarrow> page_life P (clear_remset_previous current pg)"
| remset_swapped: "page_life P pg \<Longrightarrow> iterates it' \<Longrightarrow> page_life P (page_swap_remset_bitmaps it' current pg)"

subsection \<open>What each of them keeps\<close>

lemma page_ok_cong:
  assumes "pg_type pg' = pg_type pg" "pg_generation_id pg' = pg_generation_id pg" "pg_age pg' = pg_age pg"
    "pg_virtual pg' = pg_virtual pg" "pg_top pg' = pg_top pg" "pg_livemap pg' = pg_livemap pg"
    "pg_remembered_set pg' = pg_remembered_set pg"
  shows "page_ok P pg' = page_ok P pg"
  using assms
  by (simp add: page_ok_def page_shape_def page_start_def page_end_def page_size_def object_max_count_def object_alignment_shift_def
      split: z_page_type.split)

text \<open>The page depends on its remembered set through the sizes of the two bitmaps only.\<close>

definition remset_sizes :: "z_remset \<Rightarrow> nat \<times> nat" where
  "remset_sizes r = (fst (remset_bitmap0 r), fst (remset_bitmap1 r))"

lemma page_ok_remset:
  assumes "page_ok P pg" "remset_sizes r = remset_sizes (pg_remembered_set pg)"
  shows "page_ok P (pg\<lparr>pg_remembered_set := r\<rparr>)"
  using assms by (simp add: page_ok_def page_shape_def remset_fits_def remset_is_initialized_def remset_sizes_def)

lemma remset_sizes_set_bitmap:
  "fst b = fst (bitmap_of k r) \<Longrightarrow> remset_sizes (set_bitmap_of k b r) = remset_sizes r"
  by (simp add: remset_sizes_def set_bitmap_of_def bitmap_of_def)

lemma bitmap_of_set_other:
  "bitmap_of k (set_bitmap_of k' b r) = (if (k = 0) = (k' = 0) then b else bitmap_of k r)"
  by (simp add: bitmap_of_def set_bitmap_of_def)

lemma remset_sizes_clears:
  "remset_sizes (clear_current c r) = remset_sizes r" "remset_sizes (clear_previous c r) = remset_sizes r"
  "remset_sizes (clear_all c r) = remset_sizes r"
  "remset_sizes (unset_non_par_current c i r) = remset_sizes r"
  "remset_sizes (unset_range_non_par_current c i n r) = remset_sizes r"
proof -
  show c: "remset_sizes (clear_current c r) = remset_sizes r" "remset_sizes (clear_previous c r) = remset_sizes r" for r
    by (simp_all add: clear_current_def clear_previous_def remset_current_def remset_previous_def remset_sizes_set_bitmap)
  then show "remset_sizes (clear_all c r) = remset_sizes r" by (simp add: clear_all_def)
  show "remset_sizes (unset_non_par_current c i r) = remset_sizes r" "remset_sizes (unset_range_non_par_current c i n r) = remset_sizes r"
    by (simp_all add: unset_non_par_current_def unset_range_non_par_current_def remset_current_def remset_sizes_set_bitmap Let_def
        split: prod.split)
qed

lemma visit_keeps:
  assumes "\<And>i s. g (snd (f i s)) = g s"
  shows "g (snd (visit f xs s)) = g s"
proof (induction xs arbitrary: s)
  case (Cons x xs)
  show ?case using assms [of x s] Cons.IH by (auto split: prod.split)
qed simp

lemma remset_sizes_swap:
  assumes "iterates it"
  shows "remset_sizes (swap_remset_bitmaps it c r) = remset_sizes r"
proof -
  have "fst (snd (it B (\<lambda>index p. (True, fst p, (snd p)(index := True))) a b p)) = fst p" for B a b and p :: bitmap
    unfolding assms [unfolded iterates_def, rule_format] by (rule visit_keeps [where g = fst]) simp
  then show ?thesis
    by (simp add: swap_remset_bitmaps_def Let_def remset_sizes_clears remset_sizes_set_bitmap remset_previous_def)
qed

lemma init_free_list_fields:
  assumes "init_free_list P ff it object_size min_block buddy raw pg = Some (res, pg')"
  shows "page_ok P pg' = page_ok P pg"
proof (rule page_ok_cong)
qed (use assms in \<open>auto simp: init_free_list_def Let_def split: option.splits\<close>)

lemma alloc_object_free_list_fields:
  assumes "alloc_object_free_list P contended sz pg = Some (addr, pg')"
  shows "page_ok P pg' = page_ok P pg"
proof (rule page_ok_cong)
qed (use assms in \<open>auto simp: alloc_object_free_list_def Let_def split: option.splits if_splits\<close>)

lemma top_raised_ok:
  assumes "page_ok P pg" "unat (pg_top pg) + unat n < 18446744073709551616" "\<not> pg_top pg + n > page_end pg"
  shows "page_ok P (pg\<lparr>pg_top := pg_top pg + n\<rparr>)"
proof -
  have "unat (pg_top pg + n) = unat (pg_top pg) + unat n" by (rule unat_add_no_wrap [OF assms(2)])
  then have "page_start pg \<le> pg_top pg + n" using assms(1) by (auto simp: page_ok_def word_le_nat_alt)
  then show ?thesis using assms by (simp add: page_ok_def not_less)
qed

lemma alloc_thread_step_ok:
  assumes "page_ok P pg" "unat (pg_top pg) + unat (align_up (at_size t) (object_alignment P pg)) < 18446744073709551616"
  shows "page_ok P (fst (alloc_thread_step P pg t))"
  using assms top_raised_ok [OF assms]
  by (auto simp: alloc_thread_step_def Let_def to_zoffset_end_def split: alloc_pc.split option.splits if_splits)

lemma clone_limited_ok:
  assumes "params_ok P" "page_ok P pg"
  shows "page_ok P (clone_limited P g r pg)" "page_ok P (clone_limited_promote_flipped P g r pg)"
proof -
  have v: "size_fits P (pg_type pg) (vm_end (pg_virtual pg) - vm_start (pg_virtual pg))" "vm_start (pg_virtual pg) \<le> vm_end (pg_virtual pg)"
    using assms(2) by (auto simp: page_ok_def page_shape_def page_size_def page_start_def page_end_def)
  show c: "page_ok P (clone_limited P g r pg)" unfolding clone_limited_def by (rule page_new_ok [OF assms(1) v])
  have "page_start (page_new P g r (pg_type pg) (pg_virtual pg)) = page_start pg" "page_end (page_new P g r (pg_type pg) (pg_virtual pg)) = page_end pg"
    by (simp_all add: page_new_def Let_def page_start_def page_end_def)
  then show "page_ok P (clone_limited_promote_flipped P g r pg)"
    using c assms(2) unfolding clone_limited_def clone_limited_promote_flipped_def by (simp add: page_ok_def)
qed

lemma page_life_ok:
  assumes "params_ok P" "page_life P pg"
  shows "page_ok P pg"
  using assms(2)
proof (induction rule: page_life.induct)
  case (reset pg seqnum age how)
  then show ?case by (intro page_reset_ok) (auto simp: page_ok_def)
next
  case (split_off pg type sz seqnum g g' r)
  then show ?case using page_split_ok(1) [OF assms(1) split_off.IH split_off.hyps(2,3) surjective_pairing] by blast
next
  case (split_rest pg type sz seqnum g g' r)
  then show ?case using page_split_ok(1) [OF assms(1) split_rest.IH split_rest.hyps(2,3) surjective_pairing] by blast
next
  case (allocated_atomic pg t)
  then show ?case by (intro alloc_thread_step_ok) simp_all
next
  case (counted pg objects bytes)
  then show ?case by (simp add: page_inc_live_def page_ok_def page_shape_def livemap_inc_live_def livemap_shape_def)
next
  case (seqnum pg seqnum)
  then show ?case by (simp add: reset_seqnum_def page_ok_cong [of "pg\<lparr>pg_seqnum := _, pg_seqnum_other := _\<rparr>" pg])
next
  case (recycling_seqnum pg seqnum)
  then show ?case by (simp add: reset_recycling_seqnum_def page_ok_cong [of "pg\<lparr>pg_recycling_seqnum := _\<rparr>" pg])
next
  case (last_used pg elapsed)
  then show ?case by (simp add: set_last_used_def page_ok_cong [of "pg\<lparr>pg_last_used := _\<rparr>" pg])
qed (simp_all add: assms(1) page_new_ok clone_limited_ok finalize_reset_ok retype_ok alloc_object_ok fill_page_ok undo_alloc_object_def
    init_free_list_fields alloc_object_free_list_fields mark_object_ok remember_ok page_ok_remset remset_sizes_clears remset_sizes_swap
    clear_remset_bit_non_par_current_def clear_remset_range_non_par_current_def remset_clear_def clear_remset_current_def
    clear_remset_previous_def page_swap_remset_bitmaps_def)

text \<open>C12. A page keeps its type. Whatever operations of \<open>ZPage\<close> made and changed a page - construction, cloning,
allocation at the top by one or many threads, filling, recycling its memory and allocating from that, marking and
counting, remembering fields, clearing and swapping its remembered set, every kind of reset, a change of type to
one its size fits, and splits that leave eight bytes or more on both sides - its size fits its type, its live map and
remembered set have the sizes that follow, its top lies inside it, and it is old, with a remembered set, exactly when its age is.
(An allocation must not wrap around the 64-bit address, which the code does not check.) The two pages of a split lie side
by side, are together the old page, and have the type and size asked for and the type of the rest.\<close>

theorem page_operations_keep_type:
  assumes "params_ok P" "page_life P pg"
  shows "page_ok P pg
    \<and> (\<forall>type sz seqnum g g' r new rest. size_fits P type sz \<and> unat sz + 8 \<le> unat (page_size pg)
          \<and> split_with_pmem P seqnum g g' r type sz pg = (new, rest)
          \<longrightarrow> page_start new = page_start pg \<and> page_end new = page_start rest \<and> page_end rest = page_end pg
              \<and> pg_type new = type \<and> page_size new = sz \<and> pg_type rest = type_from_size P (page_size rest)
              \<and> unat (page_size rest) = unat (page_size pg) - unat sz)"
proof (intro conjI allI impI)
  show ok: "page_ok P pg" using assms by (rule page_life_ok)
  fix type sz seqnum g g' r new rest
  assume a: "size_fits P type sz \<and> unat sz + 8 \<le> unat (page_size pg) \<and> split_with_pmem P seqnum g g' r type sz pg = (new, rest)"
  note s = page_split_ok [OF assms(1) ok a [THEN conjunct1] a [THEN conjunct2, THEN conjunct1] a [THEN conjunct2, THEN conjunct2]]
  show "page_start new = page_start pg" "page_end new = page_start rest" "page_end rest = page_end pg"
    "pg_type new = type" "page_size new = sz" "pg_type rest = type_from_size P (page_size rest)"
    "unat (page_size rest) = unat (page_size pg) - unat sz" using s by simp_all
qed

text \<open>A small page that was promoted, got an object, a mark and a remembered field, and is then split.\<close>

definition life_page_demo :: z_page where
  "life_page_demo = remember type_params_demo 0 0x40000200008
     (page_inc_live 1 8 (snd (alloc_object type_params_demo 8 (page_reset (\<lambda>_. 1) AgeOld ResetAllocation type_page_demo))))"

theorem page_operations_keep_type_witness:
  "page_ok type_params_demo life_page_demo
   \<and> (case split_with_pmem type_params_demo (\<lambda>_. 1) (\<lambda>_. False) (\<lambda>_. False) 0 LargePage 0x100000 life_page_demo of
        (new, rest) \<Rightarrow> page_end new = page_start rest \<and> unat (page_size rest) = 0x100000)"
proof -
  have P: "params_ok type_params_demo"
    unfolding params_ok_def type_params_demo_def by (intro conjI exI [of _ 25]) simp_all
  have made: "page_life type_params_demo type_page_demo"
    unfolding type_page_demo_def
    by (rule page_life.made) (simp_all add: size_fits_def ZPageSizeSmall_def ZPageSizeSmallShift_def)
  let ?pg = "page_reset (\<lambda>_. 1) AgeOld ResetAllocation type_page_demo"
  have top: "pg_top ?pg = 0x200000" "pg_type ?pg = SmallPage" "page_size ?pg = 0x200000"
    by (simp_all add: page_reset_def Let_def reset_seqnum_def reset_remembered_set_def page_start_def page_size_def
        type_page_demo_def page_new_def)
  have al: "align_up 8 (object_alignment type_params_demo ?pg) = (8 :: u64)"
    by (simp add: object_alignment_def top align_up_def type_params_demo_def) 
  have life: "page_life type_params_demo life_page_demo"
    unfolding life_page_demo_def by (intro page_life.remembered page_life.counted page_life.allocated page_life.reset made) (simp add: top al)
  have sz: "unat (page_size life_page_demo) = 0x200000"
    using top by (simp add: life_page_demo_def remember_def page_inc_live_def alloc_object_def Let_def split: option.split)
  obtain new rest where s: "split_with_pmem type_params_demo (\<lambda>_. 1) (\<lambda>_. False) (\<lambda>_. False) 0 LargePage 0x100000 life_page_demo = (new, rest)"
    by fastforce
  note t = page_operations_keep_type [OF P life]
  have "size_fits type_params_demo LargePage 0x100000" by (simp add: size_fits_def)
  then have "page_end new = page_start rest" "unat (page_size rest) = 0x100000"
    using t [THEN conjunct2, rule_format, of LargePage "0x100000" "\<lambda>_. 1" "\<lambda>_. False" "\<lambda>_. False" 0 new rest] s sz by simp_all
  then show ?thesis using t [THEN conjunct1] unfolding s by simp
qed

end
