(* ===== verification/Z_Remset_Iter.thy ===== *)
theory Z_Remset_Iter
  imports Z_Recycle
begin

text \<open>
  The iterators of \<open>zRememberedSet.cpp\<close> that pair the remembered fields of the previous set with the
  objects that contain them, and \<open>ZPage::oops_do_remembered_in_live\<close>. They walk the bitmap backwards
  with two reverse iterators, so that the start of an object is searched for once. The number of the
  current bitmap, the sizes of objects and the backward search of bitmaps are arguments; a large
  page is not considered in the properties.
\<close>

record containing =
  field_addr :: u64
  containing_addr :: u64

record containing_iterator =
  ci_remset_iter :: reverse_iterator
  ci_obj :: u64
  ci_obj_remset_iter :: reverse_iterator

definition remset_reverse_iterator_previous :: "nat \<Rightarrow> z_page \<Rightarrow> reverse_iterator" where
  "remset_reverse_iterator_previous current pg = reverse_iterator_all (remset_previous current (pg_remembered_set pg))"

definition field_index :: "z_params \<Rightarrow> u64 \<Rightarrow> z_page \<Rightarrow> nat" where
  "field_index P addr pg = to_index (unat (local_offset_address P addr pg))"

definition field_address :: "z_params \<Rightarrow> nat \<Rightarrow> z_page \<Rightarrow> u64" where
  "field_address P index pg = zoffset_address (heap_base P) (global_offset (word_of_nat (to_offset index)) pg)"

definition containing_new :: "nat \<Rightarrow> z_page \<Rightarrow> containing_iterator" where
  "containing_new current pg = \<lparr>ci_remset_iter = remset_reverse_iterator_previous current pg, ci_obj = 0,
     ci_obj_remset_iter = remset_reverse_iterator_previous current pg\<rparr>"

definition containing_next_main ::
  "z_params \<Rightarrow> bitmap_find \<Rightarrow> nat \<Rightarrow> z_page \<Rightarrow> containing_iterator \<Rightarrow> containing option \<times> containing_iterator" where
  "containing_next_main P fl current pg it =
     (case ri_next fl (remset_previous current (pg_remembered_set pg)) (ci_remset_iter it) of
        (None, ri) \<Rightarrow> (None, it\<lparr>ci_remset_iter := ri\<rparr>)
      | (Some index, ri) \<Rightarrow>
          (let field = field_address P index pg;
               addr = find_base_unsafe P fl field pg
           in if addr = 0 then (None, it\<lparr>ci_remset_iter := ri\<rparr>)
              else let obj_index = field_index P addr pg
                   in (Some \<lparr>field_addr = field, containing_addr = addr\<rparr>,
                       it\<lparr>ci_remset_iter := ri_reset_end obj_index ri, ci_obj := addr,
                          ci_obj_remset_iter := ri_reset obj_index index (ci_obj_remset_iter it)\<rparr>)))"

definition containing_next ::
  "z_params \<Rightarrow> bitmap_find \<Rightarrow> nat \<Rightarrow> z_page \<Rightarrow> containing_iterator \<Rightarrow> containing option \<times> containing_iterator" where
  "containing_next P fl current pg it =
     (if ci_obj it \<noteq> 0
      then case ri_next fl (remset_previous current (pg_remembered_set pg)) (ci_obj_remset_iter it) of
             (Some index, oi) \<Rightarrow>
               (Some \<lparr>field_addr = field_address P index pg, containing_addr = ci_obj it\<rparr>, it\<lparr>ci_obj_remset_iter := oi\<rparr>)
           | (None, oi) \<Rightarrow> containing_next_main P fl current pg (it\<lparr>ci_obj_remset_iter := oi, ci_obj := 0\<rparr>)
      else containing_next_main P fl current pg it)"

record in_live_iterator =
  il_iter :: containing_iterator
  il_addr :: u64
  il_addr_size :: u64
  il_count :: u64
  il_count_skipped :: u64

definition in_live_new :: "nat \<Rightarrow> z_page \<Rightarrow> in_live_iterator" where
  "in_live_new current pg = \<lparr>il_iter = containing_new current pg, il_addr = 0, il_addr_size = 0, il_count = 0, il_count_skipped = 0\<rparr>"

partial_function (option) in_live_next ::
  "z_params \<Rightarrow> bitmap_find \<Rightarrow> (u64 \<Rightarrow> u64) \<Rightarrow> nat \<Rightarrow> z_page \<Rightarrow> in_live_iterator \<Rightarrow> (containing option \<times> in_live_iterator) option" where
  "in_live_next P fl object_size current pg it =
     (case containing_next P fl current pg (il_iter it) of
        (None, i) \<Rightarrow> Some (None, it\<lparr>il_iter := i\<rparr>)
      | (Some c, i) \<Rightarrow>
          (let it = it\<lparr>il_iter := i\<rparr>;
               it = (if containing_addr c \<noteq> il_addr it
                     then it\<lparr>il_addr := containing_addr c, il_addr_size := object_size (containing_addr c)\<rparr> else it);
               field_offset = field_addr c - il_addr it
           in if field_offset < il_addr_size it then Some (Some c, it\<lparr>il_count := il_count it + 1\<rparr>)
              else in_live_next P fl object_size current pg (it\<lparr>il_count_skipped := il_count_skipped it + 1\<rparr>)))"

partial_function (option) in_live_loop ::
  "z_params \<Rightarrow> bitmap_find \<Rightarrow> (u64 \<Rightarrow> u64) \<Rightarrow> nat \<Rightarrow> z_page \<Rightarrow> (u64 \<Rightarrow> 's \<Rightarrow> 's) \<Rightarrow> in_live_iterator \<Rightarrow> 's \<Rightarrow> 's option" where
  "in_live_loop P fl object_size current pg f it s =
     (case in_live_next P fl object_size current pg it of
        None \<Rightarrow> None
      | Some (None, it) \<Rightarrow> Some s
      | Some (Some c, it) \<Rightarrow> in_live_loop P fl object_size current pg f it (f (field_addr c) s))"

definition oops_do_remembered_in_live ::
  "z_params \<Rightarrow> bitmap_find \<Rightarrow> (u64 \<Rightarrow> u64) \<Rightarrow> nat \<Rightarrow> z_page \<Rightarrow> (u64 \<Rightarrow> 's \<Rightarrow> 's) \<Rightarrow> 's \<Rightarrow> 's option" where
  "oops_do_remembered_in_live P fl object_size current pg f s =
     in_live_loop P fl object_size current pg f (in_live_new current pg) s"

subsection \<open>Fields and the objects before them\<close>

text \<open>\<open>base\<close> gives the field index at which the last live object at or before a field starts.\<close>

definition bases_ok :: "z_params \<Rightarrow> bitmap_find \<Rightarrow> z_page \<Rightarrow> nat \<Rightarrow> (nat \<Rightarrow> nat option) \<Rightarrow> bool" where
  "bases_ok P fl pg n base \<longleftrightarrow> (\<forall>i < n. case base i of
     None \<Rightarrow> find_base_unsafe P fl (field_address P i pg) pg = 0 \<and> (\<forall>x \<le> i. base x = None)
   | Some b \<Rightarrow> b \<le> i \<and> find_base_unsafe P fl (field_address P i pg) pg = field_address P b pg \<and> field_address P b pg \<noteq> 0
       \<and> field_index P (field_address P b pg) pg = b \<and> (\<forall>x. b \<le> x \<and> x \<le> i \<longrightarrow> base x = Some b))"

text \<open>The fields below a limit that are set and have an object before them, in descending order.\<close>

definition fields_below :: "(nat \<Rightarrow> bool) \<Rightarrow> (nat \<Rightarrow> nat option) \<Rightarrow> nat \<Rightarrow> nat list" where
  "fields_below B base m = rev (filter (\<lambda>i. B i \<and> base i \<noteq> None) [0 ..< m])"

definition cursor :: "containing_iterator \<Rightarrow> nat" where
  "cursor it = (if ci_obj it = 0 then ri_end (ci_remset_iter it) else ri_end (ci_obj_remset_iter it))"

definition containing_inv :: "z_params \<Rightarrow> z_page \<Rightarrow> nat \<Rightarrow> (nat \<Rightarrow> nat option) \<Rightarrow> containing_iterator \<Rightarrow> bool" where
  "containing_inv P pg n base it \<longleftrightarrow> ri_beg (ci_remset_iter it) = 0 \<and> cursor it \<le> n
     \<and> (ci_obj it \<noteq> 0 \<longrightarrow> (\<exists>b. ci_obj it = field_address P b pg \<and> ri_beg (ci_obj_remset_iter it) = b
          \<and> ri_end (ci_remset_iter it) = b \<and> b \<le> cursor it \<and> (\<forall>x. b \<le> x \<and> x < cursor it \<longrightarrow> base x = Some b)))"

definition next_ok ::
  "z_params \<Rightarrow> z_page \<Rightarrow> nat \<Rightarrow> (nat \<Rightarrow> nat option) \<Rightarrow> nat list \<Rightarrow> containing option \<times> containing_iterator \<Rightarrow> bool" where
  "next_ok P pg n base is r \<longleftrightarrow> (case is of
      [] \<Rightarrow> fst r = None
    | i # _ \<Rightarrow> \<exists>it. r = (Some \<lparr>field_addr = field_address P i pg, containing_addr = field_address P (the (base i)) pg\<rparr>, it)
        \<and> containing_inv P pg n base it \<and> cursor it = i)"

lemma next_ok_simps:
  "next_ok P pg n base [] r \<longleftrightarrow> fst r = None"
  "next_ok P pg n base (i # xs) r \<longleftrightarrow>
     (\<exists>it. r = (Some \<lparr>field_addr = field_address P i pg, containing_addr = field_address P (the (base i)) pg\<rparr>, it)
        \<and> containing_inv P pg n base it \<and> cursor it = i)"
  by (simp_all add: next_ok_def)

lemma fields_below_skip:
  assumes "a \<le> b" "\<forall>i. a \<le> i \<and> i < b \<longrightarrow> \<not> B i"
  shows "fields_below B base b = fields_below B base a"
proof -
  have "filter (\<lambda>i. B i \<and> base i \<noteq> None) [a ..< b] = []" using assms(2) by (auto simp: filter_empty_conv)
  moreover have "[0 ..< b] = [0 ..< a] @ [a ..< b]" using upt_add_eq_append [of 0 a "b - a"] assms(1) by simp
  ultimately show ?thesis unfolding fields_below_def by simp
qed

lemma fields_below_Suc:
  "B i \<Longrightarrow> base i \<noteq> None \<Longrightarrow> fields_below B base (Suc i) = i # fields_below B base i"
  by (simp add: fields_below_def)

lemma fields_below_none: "\<forall>x < m. base x = None \<Longrightarrow> fields_below B base m = []"
  by (simp add: fields_below_def filter_empty_conv)

lemma ri_next_cases:
  assumes "finds_last fl" "ri_beg it \<le> ri_end it"
  obtains (none) "ri_next fl (n, B) it = (None, it)" "\<forall>i. ri_beg it \<le> i \<and> i < ri_end it \<longrightarrow> \<not> B i"
    | (found) i where "ri_next fl (n, B) it = (Some i, it\<lparr>ri_end := i\<rparr>)" "ri_beg it \<le> i" "i < ri_end it" "B i"
        "\<forall>x. i < x \<and> x < ri_end it \<longrightarrow> \<not> B x"
proof -
  let ?i = "fl B (ri_beg it) (ri_end it)"
  have "?i = ri_end it \<and> (\<forall>i. ri_beg it \<le> i \<and> i < ri_end it \<longrightarrow> \<not> B i)
    \<or> ri_beg it \<le> ?i \<and> ?i < ri_end it \<and> B ?i \<and> (\<forall>i. ?i < i \<and> i < ri_end it \<longrightarrow> \<not> B i)"
    using assms by (simp add: finds_last_def)
  then show thesis
  proof (elim disjE conjE)
    assume "?i = ri_end it" "\<forall>i. ri_beg it \<le> i \<and> i < ri_end it \<longrightarrow> \<not> B i"
    then show thesis by (intro none) (simp_all add: ri_next_def Let_def)
  next
    assume "ri_beg it \<le> ?i" "?i < ri_end it" "B ?i" "\<forall>i. ?i < i \<and> i < ri_end it \<longrightarrow> \<not> B i"
    then show thesis by (intro found [of ?i]) (simp_all add: ri_next_def Let_def)
  qed
qed

lemma containing_next_main_fields:
  assumes fl: "finds_last fl" and rem: "remset_previous current (pg_remembered_set pg) = (n, B)" and ok: "bases_ok P fl pg n base"
    and inv: "ri_beg (ci_remset_iter it) = 0" "ri_end (ci_remset_iter it) \<le> n" "ci_obj it = 0"
  shows "next_ok P pg n base (fields_below B base (ri_end (ci_remset_iter it))) (containing_next_main P fl current pg it)"
proof -
  have le: "ri_beg (ci_remset_iter it) \<le> ri_end (ci_remset_iter it)" using inv(1) by simp
  from fl le show ?thesis
  proof (cases rule: ri_next_cases [where n = n and B = B])
    case none
    then have "fields_below B base (ri_end (ci_remset_iter it)) = []"
      using fields_below_skip [of 0 "ri_end (ci_remset_iter it)" B base] inv(1) by (simp add: fields_below_def)
    then show ?thesis using none(1) by (simp add: containing_next_main_def rem next_ok_simps)
  next
    case (found i)
    have e: "fields_below B base (ri_end (ci_remset_iter it)) = fields_below B base (Suc i)"
      using found(3,5) by (intro fields_below_skip) auto
    have i: "i < n" using found(3) inv(2) by simp
    note o = ok [unfolded bases_ok_def, rule_format, OF i]
    show ?thesis
    proof (cases "base i")
      case None
      then have b: "find_base_unsafe P fl (field_address P i pg) pg = 0" "\<forall>x \<le> i. base x = None" using o by simp_all
      then have "fields_below B base (Suc i) = []" by (intro fields_below_none) auto
      then show ?thesis using found(1) b(1) e by (simp add: containing_next_main_def rem next_ok_simps)
    next
      case (Some b)
      then have b: "b \<le> i" "find_base_unsafe P fl (field_address P i pg) pg = field_address P b pg" "field_address P b pg \<noteq> 0"
        "field_index P (field_address P b pg) pg = b" "\<forall>x. b \<le> x \<and> x \<le> i \<longrightarrow> base x = Some b"
        using o by simp_all
      let ?it = "it\<lparr>ci_remset_iter := ri_reset_end b ((ci_remset_iter it)\<lparr>ri_end := i\<rparr>), ci_obj := field_address P b pg,
        ci_obj_remset_iter := ri_reset b i (ci_obj_remset_iter it)\<rparr>"
      have "containing_inv P pg n base ?it" "cursor ?it = i"
        using b inv(1) i by (auto simp: containing_inv_def cursor_def ri_reset_def ri_reset_end_def)
      moreover have "containing_next_main P fl current pg it =
        (Some \<lparr>field_addr = field_address P i pg, containing_addr = field_address P b pg\<rparr>, ?it)"
        using found(1) b(2,3,4) by (simp add: containing_next_main_def rem Let_def)
      moreover have "fields_below B base (Suc i) = i # fields_below B base i" using found(4) Some by (intro fields_below_Suc) simp_all
      ultimately show ?thesis using Some by (simp add: e next_ok_simps)
    qed
  qed
qed

lemma containing_next_fields:
  assumes fl: "finds_last fl" and rem: "remset_previous current (pg_remembered_set pg) = (n, B)" and ok: "bases_ok P fl pg n base"
    and inv: "containing_inv P pg n base it"
  shows "next_ok P pg n base (fields_below B base (cursor it)) (containing_next P fl current pg it)"
proof (cases "ci_obj it = 0")
  case True
  then show ?thesis
    using containing_next_main_fields [OF fl rem ok, of it] inv by (simp add: containing_next_def containing_inv_def cursor_def)
next
  case False
  then obtain b where b: "ci_obj it = field_address P b pg" "ri_beg (ci_obj_remset_iter it) = b"
    "ri_end (ci_remset_iter it) = b" "b \<le> ri_end (ci_obj_remset_iter it)" "\<forall>x. b \<le> x \<and> x < ri_end (ci_obj_remset_iter it) \<longrightarrow> base x = Some b"
    using inv by (auto simp: containing_inv_def cursor_def)
  have le: "ri_beg (ci_obj_remset_iter it) \<le> ri_end (ci_obj_remset_iter it)" using b by simp
  have cur: "cursor it = ri_end (ci_obj_remset_iter it)" "cursor it \<le> n" "ri_beg (ci_remset_iter it) = 0"
    using False inv by (simp_all add: cursor_def containing_inv_def)
  from fl le show ?thesis
  proof (cases rule: ri_next_cases [where n = n and B = B])
    case none
    have "fields_below B base (cursor it) = fields_below B base b"
      unfolding cur(1) using none(2) b(2,4) by (intro fields_below_skip) auto
    then show ?thesis
      using containing_next_main_fields [OF fl rem ok, of "it\<lparr>ci_obj_remset_iter := ci_obj_remset_iter it, ci_obj := 0\<rparr>"]
        none(1) False b(3,4) cur by (simp add: containing_next_def rem)
  next
    case (found i)
    have "fields_below B base (cursor it) = fields_below B base (Suc i)"
      unfolding cur(1) using found(3,5) by (intro fields_below_skip) auto
    moreover have "base i = Some b" using b(2,5) found(2,3) by auto
    moreover have "containing_inv P pg n base (it\<lparr>ci_obj_remset_iter := (ci_obj_remset_iter it)\<lparr>ri_end := i\<rparr>\<rparr>)"
      using b found(2,3) cur False by (auto simp: containing_inv_def cursor_def)
    ultimately show ?thesis
      using found(1,4) False b(1) by (simp add: containing_next_def rem fields_below_Suc cursor_def next_ok_simps)
  qed
qed

subsection \<open>Fields inside live objects\<close>

definition in_object :: "z_params \<Rightarrow> (u64 \<Rightarrow> u64) \<Rightarrow> z_page \<Rightarrow> (nat \<Rightarrow> nat option) \<Rightarrow> nat \<Rightarrow> bool" where
  "in_object P object_size pg base i \<longleftrightarrow> (\<exists>b. base i = Some b
     \<and> field_address P i pg - field_address P b pg < object_size (field_address P b pg))"

definition live_fields :: "z_params \<Rightarrow> (u64 \<Rightarrow> u64) \<Rightarrow> z_page \<Rightarrow> (nat \<Rightarrow> bool) \<Rightarrow> (nat \<Rightarrow> nat option) \<Rightarrow> nat \<Rightarrow> nat list" where
  "live_fields P object_size pg B base m = filter (in_object P object_size pg base) (fields_below B base m)"

definition in_live_inv :: "z_params \<Rightarrow> (u64 \<Rightarrow> u64) \<Rightarrow> z_page \<Rightarrow> nat \<Rightarrow> (nat \<Rightarrow> nat option) \<Rightarrow> in_live_iterator \<Rightarrow> bool" where
  "in_live_inv P object_size pg n base it \<longleftrightarrow> containing_inv P pg n base (il_iter it)
     \<and> (il_addr it \<noteq> 0 \<longrightarrow> il_addr_size it = object_size (il_addr it))"

lemma fields_below_head:
  assumes "fields_below B base m = i # xs"
  shows "i < m" "B i" "base i \<noteq> None" "xs = fields_below B base i"
proof -
  have e: "filter (\<lambda>i. B i \<and> base i \<noteq> None) [0 ..< m] = rev xs @ [i]"
    using assms by (metis fields_below_def rev.simps(2) rev_rev_ident)
  then have "i \<in> set (filter (\<lambda>i. B i \<and> base i \<noteq> None) [0 ..< m])" by simp
  then show i: "i < m" "B i" "base i \<noteq> None" by auto
  have "sorted (rev xs @ [i])" "distinct (rev xs @ [i])"
    using sorted_filter [of id "[0 ..< m]" "\<lambda>i. B i \<and> base i \<noteq> None"] by (simp_all flip: e)
  then have "\<forall>x \<in> set xs. x \<le> i" "i \<notin> set xs" by (auto simp: sorted_append)
  then have "\<forall>x \<in> set xs. x < i" by (metis le_neq_implies_less)
  moreover have "x \<in> set (rev xs @ [i]) \<longleftrightarrow> x < m \<and> B x \<and> base x \<noteq> None" for x by (simp flip: e)
  ultimately have "\<forall>x. Suc i \<le> x \<and> x < m \<longrightarrow> \<not> (B x \<and> base x \<noteq> None)" by (metis Suc_le_eq not_less_iff_gr_or_eq set_append set_rev Un_iff list.set(1) list.set(2) empty_iff insert_iff)
  then have "filter (\<lambda>i. B i \<and> base i \<noteq> None) [Suc i ..< m] = []" by (auto simp: filter_empty_conv)
  moreover have "[0 ..< m] = [0 ..< Suc i] @ [Suc i ..< m]" using upt_add_eq_append [of 0 "Suc i" "m - Suc i"] i(1) by simp
  ultimately have "fields_below B base m = fields_below B base (Suc i)" unfolding fields_below_def by simp
  then show "xs = fields_below B base i" using assms i by (simp add: fields_below_Suc)
qed


lemma field_address_base:
  assumes "bases_ok P fl pg n base" "i < n" "base i = Some b"
  shows "field_address P b pg \<noteq> 0"
  using assms(1) [unfolded bases_ok_def, rule_format, OF assms(2)] assms(3) by simp

lemma in_live_next_fields:
  assumes fl: "finds_last fl" and rem: "remset_previous current (pg_remembered_set pg) = (n, B)" and ok: "bases_ok P fl pg n base"
    and inv: "in_live_inv P object_size pg n base it"
  shows "case live_fields P object_size pg B base (cursor (il_iter it)) of
      [] \<Rightarrow> \<exists>it'. in_live_next P fl object_size current pg it = Some (None, it')
    | i # xs \<Rightarrow> \<exists>it' c. in_live_next P fl object_size current pg it = Some (Some c, it') \<and> field_addr c = field_address P i pg
        \<and> in_live_inv P object_size pg n base it' \<and> live_fields P object_size pg B base (cursor (il_iter it')) = xs
        \<and> cursor (il_iter it') < cursor (il_iter it)"
  using inv
proof (induction "cursor (il_iter it)" arbitrary: it rule: less_induct)
  case less
  have ci: "containing_inv P pg n base (il_iter it)" using less.prems by (simp add: in_live_inv_def)
  note nx = containing_next_fields [OF fl rem ok ci]
  show ?case
  proof (cases "fields_below B base (cursor (il_iter it))")
    case Nil
    then have "fst (containing_next P fl current pg (il_iter it)) = None" using nx by (simp add: next_ok_simps)
    then show ?thesis using Nil by (subst in_live_next.simps) (auto simp: live_fields_def split: prod.splits)
  next
    case (Cons i xs)
    note h = fields_below_head [OF Cons]
    obtain b where b: "base i = Some b" using h(3) by auto
    have i: "i < n" using h(1) ci by (simp add: containing_inv_def)
    note nz = field_address_base [OF ok i b]
    obtain ci' where r: "containing_next P fl current pg (il_iter it) =
        (Some \<lparr>field_addr = field_address P i pg, containing_addr = field_address P b pg\<rparr>, ci')"
      "containing_inv P pg n base ci'" "cursor ci' = i"
      using nx b by (auto simp: Cons next_ok_simps)
    let ?c = "\<lparr>field_addr = field_address P i pg, containing_addr = field_address P b pg\<rparr>"
    define it1 where "it1 = (if field_address P b pg \<noteq> il_addr it
      then it\<lparr>il_iter := ci', il_addr := field_address P b pg, il_addr_size := object_size (field_address P b pg)\<rparr>
      else it\<lparr>il_iter := ci'\<rparr>)"
    have it1: "il_iter it1 = ci'" "il_addr it1 = field_address P b pg" "il_addr_size it1 = object_size (field_address P b pg)"
      "in_live_inv P object_size pg n base it1"
      using less.prems r(2) nz by (auto simp: it1_def in_live_inv_def)
    have step: "in_live_next P fl object_size current pg it =
      (if field_address P i pg - field_address P b pg < object_size (field_address P b pg)
       then Some (Some ?c, it1\<lparr>il_count := il_count it1 + 1\<rparr>)
       else in_live_next P fl object_size current pg (it1\<lparr>il_count_skipped := il_count_skipped it1 + 1\<rparr>))"
    proof (cases "field_address P b pg = il_addr it")
      case True
      then have "il_addr_size it = object_size (il_addr it)" using less.prems nz by (simp add: in_live_inv_def)
      then show ?thesis using True by (subst in_live_next.simps) (simp add: r(1) Let_def it1_def)
    next
      case False
      then show ?thesis by (subst in_live_next.simps) (simp add: r(1) Let_def it1_def)
    qed
    have lf: "live_fields P object_size pg B base (cursor (il_iter it)) =
      (if in_object P object_size pg base i then [i] else []) @ live_fields P object_size pg B base i"
      by (simp add: live_fields_def Cons flip: h(4))
    have io: "in_object P object_size pg base i \<longleftrightarrow> field_address P i pg - field_address P b pg < object_size (field_address P b pg)"
      by (simp add: in_object_def b)
    show ?thesis
    proof (cases "in_object P object_size pg base i")
      case True
      then show ?thesis using step io lf it1 h(1) r(3) by (simp add: in_live_inv_def)
    next
      case False
      let ?it = "it1\<lparr>il_count_skipped := il_count_skipped it1 + 1\<rparr>"
      have "cursor (il_iter ?it) = i" "in_live_inv P object_size pg n base ?it" using it1 r(3) by (simp_all add: in_live_inv_def)
      then have "case live_fields P object_size pg B base i of
          [] \<Rightarrow> \<exists>it'. in_live_next P fl object_size current pg ?it = Some (None, it')
        | j # ys \<Rightarrow> \<exists>it' c. in_live_next P fl object_size current pg ?it = Some (Some c, it') \<and> field_addr c = field_address P j pg
            \<and> in_live_inv P object_size pg n base it' \<and> live_fields P object_size pg B base (cursor (il_iter it')) = ys
            \<and> cursor (il_iter it') < i"
        using less.hyps [of ?it] h(1) by (simp split: list.splits)
      then show ?thesis using False step io lf h(1) by (auto split: list.splits intro: less_trans)
    qed
  qed
qed

lemma in_live_loop_fields:
  assumes fl: "finds_last fl" and rem: "remset_previous current (pg_remembered_set pg) = (n, B)" and ok: "bases_ok P fl pg n base"
    and inv: "in_live_inv P object_size pg n base it"
  shows "in_live_loop P fl object_size current pg f it s =
    Some (fold (\<lambda>i. f (field_address P i pg)) (live_fields P object_size pg B base (cursor (il_iter it))) s)"
  using inv
proof (induction "cursor (il_iter it)" arbitrary: it s rule: less_induct)
  case less
  note nx = in_live_next_fields [OF fl rem ok less.prems]
  show ?case
  proof (cases "live_fields P object_size pg B base (cursor (il_iter it))")
    case Nil
    then show ?thesis using nx by (subst in_live_loop.simps) auto
  next
    case (Cons i xs)
    then obtain it' c where n: "in_live_next P fl object_size current pg it = Some (Some c, it')" "field_addr c = field_address P i pg"
      "in_live_inv P object_size pg n base it'" "live_fields P object_size pg B base (cursor (il_iter it')) = xs"
      "cursor (il_iter it') < cursor (il_iter it)" using nx by auto
    then show ?thesis using less.hyps [OF n(5,3)] Cons by (subst in_live_loop.simps) simp
  qed
qed

lemma remembered_in_live_fields:
  assumes fl: "finds_last fl" and rem: "remset_previous current (pg_remembered_set pg) = (n, B)" and ok: "bases_ok P fl pg n base"
  shows "oops_do_remembered_in_live P fl object_size current pg f s =
    Some (fold (\<lambda>i. f (field_address P i pg)) (live_fields P object_size pg B base n) s)"
proof -
  have "in_live_inv P object_size pg n base (in_live_new current pg)" "cursor (il_iter (in_live_new current pg)) = n"
    by (simp_all add: in_live_inv_def in_live_new_def containing_inv_def containing_new_def cursor_def rem
        remset_reverse_iterator_previous_def reverse_iterator_all_def)
  then show ?thesis using in_live_loop_fields [OF fl rem ok, where it = "in_live_new current pg"]
    unfolding oops_do_remembered_in_live_def by metis
qed

subsection \<open>Addresses of a page\<close>

definition remset_page :: "z_params \<Rightarrow> z_page \<Rightarrow> bool" where
  "remset_page P pg \<longleftrightarrow> pg_type pg \<noteq> LargePage \<and> 3 \<le> object_alignment_shift P pg \<and> object_alignment_shift P pg < 62
     \<and> unat (page_start pg) < unat (page_end pg) \<and> 2 ^ object_alignment_shift P pg dvd unat (page_size pg)
     \<and> lm_bitmap_size (pg_livemap pg) = 2 * (unat (page_size pg) div 2 ^ object_alignment_shift P pg)
     \<and> (\<exists>k < 63. heap_base P = push_bit k 1 \<and> offset_mask P = mask k \<and> unat (page_end pg) \<le> 2 ^ k)"

definition page_fields :: "z_page \<Rightarrow> nat" where
  "page_fields pg = unat (page_size pg) div 8"

definition page_address :: "z_params \<Rightarrow> z_page \<Rightarrow> nat" where
  "page_address P pg = unat (zoffset_address (heap_base P) (page_start pg))"

lemma local_address:
  assumes "remset_page P pg" "x < unat (page_size pg)"
  shows "unat (zoffset_address (heap_base P) (page_start pg + word_of_nat x)) = page_address P pg + x"
    "local_offset_address P (zoffset_address (heap_base P) (page_start pg + word_of_nat x)) pg = word_of_nat x"
    "unat (word_of_nat x :: u64) = x"
proof -
  obtain k where k: "k < 63" "heap_base P = push_bit k 1" "offset_mask P = mask k" "unat (page_end pg) \<le> 2 ^ k"
    and se: "unat (page_start pg) < unat (page_end pg)" using assms(1) by (auto simp: remset_page_def)
  have sz: "unat (page_size pg) = unat (page_end pg) - unat (page_start pg)"
    using se unfolding page_size_def by (subst unat_sub) (simp_all add: page_start_def page_end_def word_le_nat_alt)
  have lt: "unat (page_start pg) + x < 2 ^ k" using assms(2) se k(4) unfolding sz by linarith
  have "(2::nat) ^ k \<le> 2 ^ 62" using k(1) by (intro power_increasing) simp_all
  then have x64: "unat (page_start pg) + x < 18446744073709551616" using lt by simp
  then show x: "unat (word_of_nat x :: u64) = x" by (intro unat_of_nat_small) simp
  have u: "unat (page_start pg + word_of_nat x) = unat (page_start pg) + x" using x64 x by (simp add: unat_add_no_wrap)
  have "unat (page_start pg) < 2 ^ k" using lt by simp
  note a = address_or [OF k(1) this]
  have "unat (page_start pg + word_of_nat x) < 2 ^ k" using lt u by simp
  note b = address_or [OF k(1) this]
  show "unat (zoffset_address (heap_base P) (page_start pg + word_of_nat x)) = page_address P pg + x"
    unfolding page_address_def k(2) a b u by simp
  let ?off = "page_start pg + word_of_nat x"
  have nb: "\<not> bit ?off n" if "k \<le> n" for n
  proof
    assume b: "bit ?off n"
    have "(2::nat) ^ k \<le> 2 ^ n" using that by (intro power_increasing) simp_all
    then have "unat ?off < 2 ^ n" using lt u by linarith
    then have "unat ?off div 2 ^ n = 0" by (rule div_less)
    moreover have "bit (unat ?off) n" using b by (simp add: bit_unsigned_iff bit_imp_le_length)
    ultimately show False by (simp add: bit_iff_odd)
  qed
  have "(?off OR push_bit k 1) AND mask k = ?off"
    using nb by (intro bit_word_eqI) (auto simp: bit_and_iff bit_or_iff bit_mask_iff push_bit_eq_mult bit_exp_iff not_less [symmetric])
  then show "local_offset_address P (zoffset_address (heap_base P) ?off) pg = word_of_nat x"
    by (simp add: local_offset_address_def local_offset_def zaddress_offset_def zoffset_address_def k(2,3))
qed

lemma page_address_pos: "remset_page P pg \<Longrightarrow> 0 < page_address P pg"
proof -
  assume page: "remset_page P pg"
  obtain k where k: "k < 63" "heap_base P = push_bit k 1" "unat (page_start pg) < 2 ^ k"
    using page by (auto simp: remset_page_def)
  show "0 < page_address P pg" unfolding page_address_def k(2) address_or [OF k(1,3)] by simp
qed

lemma field_in_page: "remset_page P pg \<Longrightarrow> i < page_fields pg \<Longrightarrow> 8 * i < unat (page_size pg)"
proof -
  assume "i < page_fields pg"
  then have "i < unat (page_size pg) div 8" by (simp add: page_fields_def)
  then show "8 * i < unat (page_size pg)" by linarith
qed

lemma field_facts:
  assumes "remset_page P pg" "i < page_fields pg"
  shows "unat (field_address P i pg) = page_address P pg + 8 * i" "field_index P (field_address P i pg) pg = i"
    "bit_index P (field_address P i pg) pg = 8 * i div 2 ^ object_alignment_shift P pg * 2"
proof -
  let ?j = "object_alignment_shift P pg"
  have f: "field_address P i pg = zoffset_address (heap_base P) (page_start pg + word_of_nat (8 * i))"
    by (simp add: field_address_def global_offset_def to_offset_def oopSize_def mult.commute)
  note l = local_address [OF assms(1) field_in_page [OF assms]]
  show "unat (field_address P i pg) = page_address P pg + 8 * i" by (simp only: f l(1))
  show "field_index P (field_address P i pg) pg = i" unfolding field_index_def f l(2,3) by (simp add: to_index_def oopSize_def)
  have j: "3 \<le> ?j" "?j < 62" using assms(1) by (simp_all add: remset_page_def)
  have "(2::nat) ^ 1 \<le> 2 ^ ?j" using j(1) by (intro power_increasing) simp_all
  then have "8 * i div 2 ^ ?j * 2 \<le> 8 * i div 2 ^ ?j * 2 ^ ?j" by (intro mult_le_mono2) simp
  also have "\<dots> \<le> 8 * i" by (rule div_times_less_eq_dividend)
  also have "\<dots> < 2 ^ 64" using field_in_page [OF assms] unat_lt64 [of "page_size pg"] by simp
  finally have "8 * i div 2 ^ ?j * 2 < 2 ^ 64" .
  moreover have "unat (drop_bit ?j (word_of_nat (8 * i) :: u64)) = 8 * i div 2 ^ ?j"
    unfolding unat_drop_bit_eq l(3) by (simp add: drop_bit_eq_div)
  ultimately show "bit_index P (field_address P i pg) pg = 8 * i div 2 ^ ?j * 2"
    unfolding bit_index_def f l(2) by (simp only: unat_word_ariths) simp
qed

lemma last_live_ref_last: "last_live m 0 (Suc i) (last_live_ref m i)"
proof (cases "\<exists>j \<le> i. live_bit m j")
  case True
  let ?L = "{j. j \<le> i \<and> live_bit m j}"
  have "?L \<noteq> {}" "finite ?L" using True by auto
  then have "Max ?L \<in> ?L" "\<forall>j \<in> ?L. j \<le> Max ?L" using Max_in Max_ge by blast+
  then show ?thesis using True by (auto simp: last_live_def last_live_ref_def less_Suc_eq_le)
next
  case False
  then show ?thesis by (auto simp: last_live_def last_live_ref_def less_Suc_eq_le)
qed

text \<open>The field index at which the last live object at or before a field starts.\<close>

definition base_field :: "z_params \<Rightarrow> z_page \<Rightarrow> nat \<Rightarrow> nat option" where
  "base_field P pg i = map_option (\<lambda>b. b div 2 * 2 ^ (object_alignment_shift P pg - 3))
     (last_live_ref (pg_livemap pg) (8 * i div 2 ^ object_alignment_shift P pg * 2))"

lemma object_field:
  assumes page: "remset_page P pg" and b: "even b" "b div 2 * 2 ^ object_alignment_shift P pg < unat (page_size pg)"
  shows "object_from_bit_index P b pg = field_address P (b div 2 * 2 ^ (object_alignment_shift P pg - 3)) pg"
    "b div 2 * 2 ^ (object_alignment_shift P pg - 3) < page_fields pg"
    "8 * (b div 2 * 2 ^ (object_alignment_shift P pg - 3)) = b div 2 * 2 ^ object_alignment_shift P pg"
proof -
  let ?j = "object_alignment_shift P pg"
  have j: "3 \<le> ?j" "?j < 62" using page by (simp_all add: remset_page_def)
  have "(2::nat) ^ ?j = 2 ^ (?j - 3) * 8" using pow2_split [OF j(1)] by (simp add: mult.commute)
  then show e: "8 * (b div 2 * 2 ^ (?j - 3)) = b div 2 * 2 ^ ?j" by simp
  have "push_bit ?j (word_of_nat (b div 2) :: u64) = word_of_nat (b div 2 * 2 ^ ?j)" by (simp add: push_bit_eq_mult)
  then show "object_from_bit_index P b pg = field_address P (b div 2 * 2 ^ (?j - 3)) pg"
    using e by (simp only: object_from_bit_index_def offset_from_bit_index_def field_address_def global_offset_def to_offset_def oopSize_def
        mult.commute [of _ 8])
  have "2 ^ ?j dvd unat (page_size pg)" using page by (simp add: remset_page_def)
  then have "(2::nat) ^ 3 dvd unat (page_size pg)" using j(1) pow2_dvd_mono by blast
  then have "8 * page_fields pg = unat (page_size pg)" by (simp add: page_fields_def)
  then show "b div 2 * 2 ^ (?j - 3) < page_fields pg" using b(2) e by linarith
qed

lemma page_bases:
  assumes page: "remset_page P pg" and shape: "livemap_shape (pg_livemap pg)" and pairs: "pairs_ok (pg_livemap pg)"
    and fl: "finds_last fl"
  shows "bases_ok P fl pg (page_fields pg) (base_field P pg)"
  unfolding bases_ok_def
proof (intro allI impI)
  fix i assume i: "i < page_fields pg"
  let ?m = "pg_livemap pg" and ?j = "object_alignment_shift P pg"
  define bi where "bi x = 8 * x div 2 ^ ?j * 2" for x :: nat
  have mono: "x \<le> y \<Longrightarrow> bi x \<le> bi y" for x y by (simp add: bi_def div_le_mono)
  have bf: "base_field P pg x = map_option (\<lambda>b. b div 2 * 2 ^ (?j - 3)) (last_live_ref ?m (bi x))" for x by (simp add: base_field_def bi_def)
  have fb: "find_base_unsafe P fl (field_address P i pg) pg =
    (case last_live_ref ?m (bi i) of None \<Rightarrow> 0 | Some b \<Rightarrow> object_from_bit_index P b pg)"
    using page field_facts(3) [OF page i] find_base_bit_eq_ref [OF shape fl pairs]
    by (simp add: find_base_unsafe_def remset_page_def bi_def object_from_bit_index_def split: option.split)
  note ll = last_live_ref_last [of ?m]
  show "case base_field P pg i of
      None \<Rightarrow> find_base_unsafe P fl (field_address P i pg) pg = 0 \<and> (\<forall>x \<le> i. base_field P pg x = None)
    | Some b \<Rightarrow> b \<le> i \<and> find_base_unsafe P fl (field_address P i pg) pg = field_address P b pg \<and> field_address P b pg \<noteq> 0
        \<and> field_index P (field_address P b pg) pg = b \<and> (\<forall>x. b \<le> x \<and> x \<le> i \<longrightarrow> base_field P pg x = Some b)"
  proof (cases "last_live_ref ?m (bi i)")
    case None
    have "last_live_ref ?m (bi x) = None" if "x \<le> i" for x
    proof (rule ccontr)
      assume "last_live_ref ?m (bi x) \<noteq> None"
      then obtain b where "last_live_ref ?m (bi x) = Some b" by blast
      then have "b \<le> bi x" "live_bit ?m b" using ll [of "bi x"] by (simp_all add: last_live_def less_Suc_eq_le)
      then show False using ll [of "bi i"] None mono [OF that] by (simp add: last_live_def less_Suc_eq_le)
    qed
    then show ?thesis using None fb by (simp add: bf)
  next
    case (Some b)
    have b: "b \<le> bi i" "live_bit ?m b" "\<forall>x. b < x \<and> x \<le> bi i \<longrightarrow> \<not> live_bit ?m x"
      using ll [of "bi i"] Some by (simp_all add: last_live_def less_Suc_eq_le)
    have ev: "even b" using b(2) by (simp add: live_bit_def)
    have "b div 2 \<le> 8 * i div 2 ^ ?j" using b(1) by (simp add: bi_def)
    then have "b div 2 * 2 ^ ?j \<le> 8 * i div 2 ^ ?j * 2 ^ ?j" by simp
    then have below: "b div 2 * 2 ^ ?j \<le> 8 * i" using div_times_less_eq_dividend [of "8 * i" "2 ^ ?j"] by linarith
    then have "b div 2 * 2 ^ ?j < unat (page_size pg)" using field_in_page [OF page i] by linarith
    note ob = object_field [OF page ev this]
    let ?o = "b div 2 * 2 ^ (?j - 3)"
    have oi: "?o \<le> i" using below ob(3) by linarith
    have "bi ?o = b" unfolding bi_def ob(3) using ev by simp
    then have same: "last_live_ref ?m (bi x) = Some b" if "?o \<le> x" "x \<le> i" for x
    proof -
      have x: "b \<le> bi x" "bi x \<le> bi i" using mono [OF that(1)] mono [OF that(2)] \<open>bi ?o = b\<close> by simp_all
      have l: "last_live ?m 0 (Suc (bi x)) (last_live_ref ?m (bi x))" by (rule ll)
      show ?thesis
      proof (cases "last_live_ref ?m (bi x)")
        case None
        then show ?thesis using l x(1) b(2) by (simp add: last_live_def less_Suc_eq_le)
      next
        case (Some c)
        then have c: "c \<le> bi x" "live_bit ?m c" "\<forall>y. c < y \<and> y \<le> bi x \<longrightarrow> \<not> live_bit ?m y"
          using l by (simp_all add: last_live_def less_Suc_eq_le)
        have "\<not> b < c" using b(3) c(1,2) x(2) by auto
        moreover have "\<not> c < b" using c(3) x(1) b(2) by auto
        ultimately show ?thesis using Some by simp
      qed
    qed
    have "field_address P ?o pg \<noteq> 0"
    proof
      assume "field_address P ?o pg = 0"
      then have "page_address P pg + 8 * ?o = 0" using field_facts(1) [OF page ob(2)] by simp
      then show False using page_address_pos [OF page] by simp
    qed
    then show ?thesis using Some fb ob(1) oi field_facts(2) [OF page ob(2)] same by (simp add: bf)
  qed
qed

subsection \<open>Properties\<close>

text \<open>A remembered field inside some live object.\<close>

definition field_live :: "z_params \<Rightarrow> (u64 \<Rightarrow> u64) \<Rightarrow> z_page \<Rightarrow> nat \<Rightarrow> bool" where
  "field_live P object_size pg i \<longleftrightarrow> (\<exists>b \<in> set (page_objects P object_size pg). unat (field_address P i pg) \<in> span b)"

definition objects_apart_ok :: "z_params \<Rightarrow> (u64 \<Rightarrow> u64) \<Rightarrow> z_page \<Rightarrow> bool" where
  "objects_apart_ok P object_size pg \<longleftrightarrow>
     objects_ok (page_address P pg) (page_objects P object_size pg) (page_address P pg + unat (page_size pg))"

lemma live_object:
  assumes "remset_page P pg" "objects_apart_ok P object_size pg" "b \<in> set (live_indices (pg_livemap pg))"
  shows "even b" "live_bit (pg_livemap pg) b"
    "span (object_of P object_size pg b) \<subseteq> {page_address P pg ..< page_address P pg + unat (page_size pg)}"
    "16 \<le> snd (object_of P object_size pg b)"
    "c \<in> set (live_indices (pg_livemap pg)) \<Longrightarrow> c \<noteq> b \<Longrightarrow> span (object_of P object_size pg b) \<inter> span (object_of P object_size pg c) = {}"
proof -
  let ?L = "live_indices (pg_livemap pg)"
  show lb: "live_bit (pg_livemap pg) b" using assms(3) by (auto simp: live_indices_def)
  then show "even b" by (simp add: live_bit_def)
  have ob: "page_objects P object_size pg ! i = object_of P object_size pg (?L ! i)" if "i < length ?L" for i
    using that by (simp add: page_objects_def)
  have ap: "16 \<le> snd (object_of P object_size pg (?L ! i))
      \<and> span (object_of P object_size pg (?L ! i)) \<subseteq> {page_address P pg ..< page_address P pg + unat (page_size pg)}
      \<and> (\<forall>j < i. span (object_of P object_size pg (?L ! i)) \<inter> span (object_of P object_size pg (?L ! j)) = {})"
    if i: "i < length ?L" for i
    using objects_apart [OF assms(2) [unfolded objects_apart_ok_def], of i] i ob by (simp add: page_objects_def)
  obtain i where i: "i < length ?L" "b = ?L ! i" using assms(3) by (auto simp: in_set_conv_nth)
  show "span (object_of P object_size pg b) \<subseteq> {page_address P pg ..< page_address P pg + unat (page_size pg)}"
    "16 \<le> snd (object_of P object_size pg b)" using ap [OF i(1)] i(2) by simp_all
  assume "c \<in> set ?L" "c \<noteq> b"
  then obtain j where j: "j < length ?L" "c = ?L ! j" "j \<noteq> i" using i(2) by (auto simp: in_set_conv_nth)
  then show "span (object_of P object_size pg b) \<inter> span (object_of P object_size pg c) = {}"
    using ap [OF i(1)] ap [OF j(1)] i(2) by (cases "i < j") auto
qed

lemma object_place:
  assumes "remset_page P pg" "objects_apart_ok P object_size pg" "b \<in> set (live_indices (pg_livemap pg))"
  shows "b div 2 * 2 ^ object_alignment_shift P pg < unat (page_size pg)"
    "fst (object_of P object_size pg b) = page_address P pg + b div 2 * 2 ^ object_alignment_shift P pg"
proof -
  let ?j = "object_alignment_shift P pg" and ?m = "pg_livemap pg"
  note lo = live_object [OF assms]
  have "b < 2 * (unat (page_size pg) div 2 ^ ?j)"
    using assms(1,3) by (auto simp: live_indices_def remset_page_def)
  then have "b div 2 < unat (page_size pg) div 2 ^ ?j" by simp
  then have "b div 2 * 2 ^ ?j < unat (page_size pg) div 2 ^ ?j * 2 ^ ?j" by simp
  also have "\<dots> \<le> unat (page_size pg)" by (rule div_times_less_eq_dividend)
  finally show lt: "b div 2 * 2 ^ ?j < unat (page_size pg)" .
  show "fst (object_of P object_size pg b) = page_address P pg + b div 2 * 2 ^ ?j"
    using object_field [OF assms(1) lo(1) lt] field_facts(1) [OF assms(1) object_field(2) [OF assms(1) lo(1) lt]]
    by (simp add: object_of_def Let_def)
qed

text \<open>The nearest object decides: a field is inside some live object exactly if it is inside the last one at or
  before it.\<close>

lemma in_object_live:
  assumes page: "remset_page P pg" and apart: "objects_apart_ok P object_size pg" and i: "i < page_fields pg"
  shows "in_object P object_size pg (base_field P pg) i \<longleftrightarrow> field_live P object_size pg i"
proof -
  let ?j = "object_alignment_shift P pg" and ?m = "pg_livemap pg"
  define bi where "bi = 8 * i div 2 ^ ?j * 2"
  have ll: "last_live ?m 0 (Suc bi) (last_live_ref ?m bi)" by (rule last_live_ref_last)
  have "8 * i div 2 ^ ?j < unat (page_size pg) div 2 ^ ?j"
  proof -
    have "8 * i < unat (page_size pg) div 2 ^ ?j * 2 ^ ?j"
      using page field_in_page [OF page i] by (simp add: remset_page_def)
    then show ?thesis by (simp add: less_mult_imp_div_less)
  qed
  then have bi: "bi < lm_bitmap_size ?m" using page by (simp add: bi_def remset_page_def)
  have fi: "unat (field_address P i pg) = page_address P pg + 8 * i" by (rule field_facts(1) [OF page i])
  have near: "in_object P object_size pg (base_field P pg) i \<longleftrightarrow> unat (field_address P i pg) \<in> span (object_of P object_size pg b)"
    if b: "last_live_ref ?m bi = Some b" for b
  proof -
    have l: "b \<le> bi" "live_bit ?m b" using ll b by (simp_all add: last_live_def less_Suc_eq_le)
    then have mem: "b \<in> set (live_indices ?m)" using bi by (simp add: live_indices_def)
    note pl = object_place [OF page apart mem]
    have ev: "even b" using l(2) by (simp add: live_bit_def)
    note ob = object_field [OF page ev pl(1)]
    have "b div 2 \<le> 8 * i div 2 ^ ?j" using l(1) by (simp add: bi_def)
    then have "b div 2 * 2 ^ ?j \<le> 8 * i div 2 ^ ?j * 2 ^ ?j" by simp
    then have le: "b div 2 * 2 ^ ?j \<le> 8 * i" using div_times_less_eq_dividend [of "8 * i" "2 ^ ?j"] by linarith
    let ?o = "field_address P (b div 2 * 2 ^ (?j - 3)) pg"
    have uo: "unat ?o = page_address P pg + b div 2 * 2 ^ ?j" using field_facts(1) [OF page ob(2)] ob(3) by simp
    have "unat (field_address P i pg - ?o) = unat (field_address P i pg) - unat ?o"
      using le by (subst unat_sub) (simp_all add: word_le_nat_alt fi uo)
    moreover have "span (object_of P object_size pg b) = {unat ?o ..< unat ?o + unat (object_size ?o)}"
      by (simp add: object_of_def ob(1) span_def Let_def)
    moreover have "base_field P pg i = Some (b div 2 * 2 ^ (?j - 3))" using b by (simp add: base_field_def bi_def)
    ultimately show ?thesis using le by (simp add: in_object_def word_less_nat_alt fi uo) linarith
  qed
  show ?thesis
  proof
    assume h: "in_object P object_size pg (base_field P pg) i"
    then obtain b where b: "last_live_ref ?m bi = Some b" by (auto simp: in_object_def base_field_def bi_def)
    then have "b \<in> set (live_indices ?m)" using ll bi by (simp add: last_live_def live_indices_def less_Suc_eq_le)
    then show "field_live P object_size pg i" using near [OF b] h by (auto simp: field_live_def page_objects_def)
  next
    assume "field_live P object_size pg i"
    then obtain c where c: "c \<in> set (live_indices ?m)" "unat (field_address P i pg) \<in> span (object_of P object_size pg c)"
      by (auto simp: field_live_def page_objects_def)
    note plc = object_place [OF page apart c(1)] and lc = live_object [OF page apart c(1)]
    have "c div 2 * 2 ^ ?j \<le> 8 * i" using c(2) plc(2) fi by (cases "object_of P object_size pg c") (simp add: span_def)
    then have "c div 2 \<le> 8 * i div 2 ^ ?j" by (simp add: less_eq_div_iff_mult_less_eq)
    then have cb: "c \<le> bi" using lc(1) by (auto simp: bi_def elim!: evenE)
    then obtain b where b: "last_live_ref ?m bi = Some b"
      using ll lc(2) by (cases "last_live_ref ?m bi") (auto simp: last_live_def less_Suc_eq_le)
    then have bl: "b \<le> bi" "live_bit ?m b" "\<forall>x. b < x \<and> x \<le> bi \<longrightarrow> \<not> live_bit ?m x"
      using ll by (simp_all add: last_live_def less_Suc_eq_le)
    then have mem: "b \<in> set (live_indices ?m)" using bi by (simp add: live_indices_def)
    note plb = object_place [OF page apart mem] and lb = live_object [OF page apart mem]
    have "b = c"
    proof (rule ccontr)
      assume ne: "b \<noteq> c"
      have "\<not> b < c" using bl(3) cb lc(2) by auto
      then have "c < b" using ne by simp
      then have "c div 2 \<le> b div 2" by (simp add: div_le_mono)
      then have le: "c div 2 * 2 ^ ?j \<le> b div 2 * 2 ^ ?j" by simp
      have "b div 2 \<le> 8 * i div 2 ^ ?j" using bl(1) by (simp add: bi_def)
      then have "b div 2 * 2 ^ ?j \<le> 8 * i div 2 ^ ?j * 2 ^ ?j" by simp
      then have "b div 2 * 2 ^ ?j \<le> 8 * i" using div_times_less_eq_dividend [of "8 * i" "2 ^ ?j"] by linarith
      then have "fst (object_of P object_size pg b) \<in> span (object_of P object_size pg c)"
        using le c(2) plc(2) plb(2) fi by (cases "object_of P object_size pg c") (simp add: span_def)
      moreover have "fst (object_of P object_size pg b) \<in> span (object_of P object_size pg b)"
        using lb(4) by (cases "object_of P object_size pg b") (simp add: span_def)
      ultimately show False using lb(5) [OF c(1)] ne by blast
    qed
    then show "in_object P object_size pg (base_field P pg) i" using near [OF b] c(2) by simp
  qed
qed

text \<open>C14. The scan of a page's remembered fields visits every field of the previous remembered set that is inside a
  live object exactly once, from the end of the page to its start, and no field outside live objects,
  although it searches for the start of each object only once; and it ends.\<close>

theorem remembered_in_live_exact:
  assumes "remset_page P pg" "livemap_shape (pg_livemap pg)" "pairs_ok (pg_livemap pg)" "objects_apart_ok P object_size pg"
    "finds_last fl" "remset_previous current (pg_remembered_set pg) = (page_fields pg, B)"
  shows "oops_do_remembered_in_live P fl object_size current pg f s =
    Some (fold (\<lambda>i. f (field_address P i pg)) (rev (filter (\<lambda>i. B i \<and> field_live P object_size pg i) [0 ..< page_fields pg])) s)"
proof -
  have "filter (in_object P object_size pg (base_field P pg)) (filter (\<lambda>i. B i \<and> base_field P pg i \<noteq> None) [0 ..< page_fields pg]) =
    filter (\<lambda>i. B i \<and> field_live P object_size pg i) [0 ..< page_fields pg]"
    unfolding filter_filter
    by (rule filter_cong) (auto simp: in_object_live [OF assms(1,4), symmetric] in_object_def)
  then have "live_fields P object_size pg B (base_field P pg) (page_fields pg) =
      rev (filter (\<lambda>i. B i \<and> field_live P object_size pg i) [0 ..< page_fields pg])"
    unfolding live_fields_def fields_below_def rev_filter [symmetric] by (simp only:)
  then show ?thesis
    using remembered_in_live_fields [OF assms(5,6) page_bases [OF assms(1-3,5)], of object_size f s] by (simp only:)
qed

text \<open>The page of two live objects with four remembered fields, of which the one at 96 bytes is in no object.\<close>

definition remset_page_demo :: z_page where
  "remset_page_demo = page_demo\<lparr>pg_remembered_set := \<lparr>remset_bitmap0 = (262144, \<lambda>_. False),
     remset_bitmap1 = (262144, \<lambda>i. i = 2 \<or> i = 5 \<or> i = 12 \<or> i = 21)\<rparr>\<rparr>"

lemma remset_page_demo_ok: "remset_page params_demo remset_page_demo" "livemap_shape (pg_livemap remset_page_demo)"
  "pairs_ok (pg_livemap remset_page_demo)" "objects_apart_ok params_demo (\<lambda>_. 64) remset_page_demo" "page_fields remset_page_demo = 262144"
  "page_objects params_demo (\<lambda>_. 64) remset_page_demo = [(4398046511112, 64), (4398046511264, 64)]"
  "page_address params_demo remset_page_demo = 4398046511104"
proof -
  have e: "pg_livemap remset_page_demo = pg_livemap page_demo" "page_start remset_page_demo = page_start page_demo"
    "page_size remset_page_demo = page_size page_demo" "page_end remset_page_demo = page_end page_demo" "pg_type remset_page_demo = pg_type page_demo"
    by (simp_all add: remset_page_demo_def page_start_def page_size_def page_end_def)
  have v: "page_start page_demo = 0" "page_end page_demo = 2097152" "page_size page_demo = 2097152" "pg_type page_demo = SmallPage"
    by (simp_all add: page_demo_def page_new_def page_start_def page_end_def page_size_def)
  have sz: "lm_bitmap_size (pg_livemap page_demo) = 524288"
    by (simp add: page_demo_def livemap_new_def bitmap_size_def nsegments_def)
  show "remset_page params_demo remset_page_demo"
    unfolding remset_page_def e v
    by (intro conjI exI [of _ 42])
      (simp_all add: object_alignment_shift_def e v sz params_demo_def)
  show "livemap_shape (pg_livemap remset_page_demo)" by (simp add: e page_demo_livemap)
  show "pairs_ok (pg_livemap remset_page_demo)" by (auto simp: pairs_ok_def e page_demo_def livemap_new_def)
  have "object_of params_demo (\<lambda>_. 64) remset_page_demo = object_of params_demo (\<lambda>_. 64) page_demo"
    by (simp add: object_of_def fun_eq_iff object_from_bit_index_def offset_from_bit_index_def object_alignment_shift_def e Let_def)
  then show po: "page_objects params_demo (\<lambda>_. 64) remset_page_demo = [(4398046511112, 64), (4398046511264, 64)]"
    using page_demo_objects by (simp add: page_objects_def e)
  show pa: "page_address params_demo remset_page_demo = 4398046511104"
    using page_demo_small(3) by (simp add: page_address_def e page_range_def)
  show "objects_apart_ok params_demo (\<lambda>_. 64) remset_page_demo" by (simp add: objects_apart_ok_def po pa e v)
  show "page_fields remset_page_demo = 262144" by (simp add: page_fields_def e v)
qed

theorem remembered_in_live_exact_witness:
  "oops_do_remembered_in_live params_demo last_set (\<lambda>_. 64) 0 remset_page_demo (\<lambda>p s. s @ [unat p]) [] =
    Some [4398046511272, 4398046511144, 4398046511120]"
proof -
  let ?B = "\<lambda>i. i = 2 \<or> i = 5 \<or> i = 12 \<or> i = (21 :: nat)"
  have fa: "unat (field_address params_demo i remset_page_demo) = 4398046511104 + 8 * i" if "i < 262144" for i
    using field_facts(1) [OF remset_page_demo_ok(1), of i] that by (simp add: remset_page_demo_ok)
  have live: "field_live params_demo (\<lambda>_. 64) remset_page_demo i \<longleftrightarrow> 1 \<le> i \<and> i < 9 \<or> 20 \<le> i \<and> i < 28" if "i < 262144" for i
    using that unfolding field_live_def remset_page_demo_ok(6) by (simp add: fa span_def)
  have "filter (\<lambda>i. ?B i \<and> field_live params_demo (\<lambda>_. 64) remset_page_demo i) [0 ..< 262144] = [2, 5, 21]" (is "?xs = _")
  proof (rule sorted_distinct_set_unique)
    show "sorted ?xs" using sorted_filter [of id "[0 ..< 262144]"] by simp
    show "set ?xs = set [2, 5, 21]" using live by auto
  qed simp_all
  moreover have "remset_previous 0 (pg_remembered_set remset_page_demo) = (page_fields remset_page_demo, ?B)"
    by (simp add: remset_previous_def bitmap_of_def remset_page_demo_ok(5)) (simp add: remset_page_demo_def)
  ultimately show ?thesis
    using remembered_in_live_exact [OF remset_page_demo_ok(1-4) last_set_finds, of 0 ?B "\<lambda>p s. s @ [unat p]" "[]"]
    by (simp add: remset_page_demo_ok(5) fa)
qed

end
