(* ===== verification/Z_Page_Cache.thy ===== *)
theory Z_Page_Cache
  imports Z_Page_Type "HOL-Library.Multiset"
begin

text \<open>
  The cache of committed pages that are not in use, \<open>zPageCache.hpp\<close> and \<open>zPageCache.cpp\<close>: lists of
  small pages for each NUMA node, of medium and of large pages. Allocation takes a page of the right
  size, else splits or retypes a larger one; flushing takes pages out to be reused or uncommitted. The
  lists are lists of the pages' values (\<open>Z_List\<close> shows that the intrusive lists represent such lists).
  The NUMA node of an address, the number of nodes and the node of the caller come from the operating
  system, so they are arguments; so are the contents of fresh bitmap memory. A page remembers the node of its
  address when it is first asked (\<open>_numa_id\<close>); only small pages are asked, whose start never changes since they are never
  split, so \<open>numa_id\<close> computes it each time. Counters are left out.
\<close>

record cache_env =
  ce_params :: z_params
  ce_seqnum :: "z_generation_id \<Rightarrow> u32"
  ce_garbage :: "nat \<Rightarrow> bool"
  ce_recycling :: u32
  ce_numa_count :: nat
  ce_memory_id :: "u64 \<Rightarrow> nat"
  ce_uncommit_delay :: u64

record z_page_cache =
  pc_small :: "nat \<Rightarrow> z_page list"
  pc_medium :: "z_page list"
  pc_large :: "z_page list"
  pc_last_commit :: u64

definition cache_new :: z_page_cache where
  "cache_new = \<lparr>pc_small = (\<lambda>_. []), pc_medium = [], pc_large = [], pc_last_commit = 0\<rparr>"

definition numa_id :: "cache_env \<Rightarrow> z_page \<Rightarrow> nat" where
  "numa_id e pg = ce_memory_id e (zoffset_address (heap_base (ce_params e)) (page_start pg))"

definition page_split_to :: "cache_env \<Rightarrow> z_page_type \<Rightarrow> u64 \<Rightarrow> z_page \<Rightarrow> z_page \<times> z_page" where
  "page_split_to e type sz pg =
     split_with_pmem (ce_params e) (ce_seqnum e) (ce_garbage e) (ce_garbage e) (ce_recycling e) type sz pg"

definition page_split :: "cache_env \<Rightarrow> u64 \<Rightarrow> z_page \<Rightarrow> z_page \<times> z_page" where
  "page_split e sz pg = page_split_to e (type_from_size (ce_params e) sz) sz pg"

subsection \<open>Allocation\<close>

fun remove_first :: "'a list \<Rightarrow> 'a option \<times> 'a list" where
  "remove_first [] = (None, [])"
| "remove_first (x # xs) = (Some x, xs)"

text \<open>The first element with a property, and the list without it.\<close>

fun remove_matching :: "('a \<Rightarrow> bool) \<Rightarrow> 'a list \<Rightarrow> 'a option \<times> 'a list" where
  "remove_matching p [] = (None, [])"
| "remove_matching p (x # xs) =
     (if p x then (Some x, xs) else case remove_matching p xs of (r, ys) \<Rightarrow> (r, x # ys))"

definition take_small :: "nat \<Rightarrow> z_page_cache \<Rightarrow> z_page option \<times> z_page_cache" where
  "take_small node c =
     (case remove_first (pc_small c node) of (r, xs) \<Rightarrow> (r, c\<lparr>pc_small := (pc_small c)(node := xs)\<rparr>))"

fun alloc_remote :: "nat \<Rightarrow> nat \<Rightarrow> nat \<Rightarrow> z_page_cache \<Rightarrow> z_page option \<times> z_page_cache" where
  "alloc_remote ncount 0 remote c = (None, c)"
| "alloc_remote ncount (Suc n) remote c =
     (let remote = (if remote = ncount then 0 else remote)
      in case take_small remote c of
           (Some pg, c) \<Rightarrow> (Some pg, c)
         | (None, c) \<Rightarrow> alloc_remote ncount n (remote + 1) c)"

definition alloc_small_page :: "cache_env \<Rightarrow> nat \<Rightarrow> z_page_cache \<Rightarrow> z_page option \<times> z_page_cache" where
  "alloc_small_page e node c =
     (case take_small node c of
        (Some pg, c) \<Rightarrow> (Some pg, c)
      | (None, c) \<Rightarrow> alloc_remote (ce_numa_count e) (ce_numa_count e - 1) (node + 1) c)"

definition alloc_medium_page :: "z_page_cache \<Rightarrow> z_page option \<times> z_page_cache" where
  "alloc_medium_page c = (case remove_first (pc_medium c) of (r, xs) \<Rightarrow> (r, c\<lparr>pc_medium := xs\<rparr>))"

definition alloc_large_page :: "u64 \<Rightarrow> z_page_cache \<Rightarrow> z_page option \<times> z_page_cache" where
  "alloc_large_page sz c =
     (case remove_matching (\<lambda>pg. sz = page_size pg) (pc_large c) of (r, xs) \<Rightarrow> (r, c\<lparr>pc_large := xs\<rparr>))"

definition alloc_oversized_medium_page :: "cache_env \<Rightarrow> u64 \<Rightarrow> z_page_cache \<Rightarrow> z_page option \<times> z_page_cache" where
  "alloc_oversized_medium_page e sz c =
     (if sz \<le> page_size_medium (ce_params e) then alloc_medium_page c else (None, c))"

definition alloc_oversized_large_page :: "u64 \<Rightarrow> z_page_cache \<Rightarrow> z_page option \<times> z_page_cache" where
  "alloc_oversized_large_page sz c =
     (case remove_matching (\<lambda>pg. sz \<le> page_size pg) (pc_large c) of (r, xs) \<Rightarrow> (r, c\<lparr>pc_large := xs\<rparr>))"

definition alloc_oversized_page :: "cache_env \<Rightarrow> u64 \<Rightarrow> z_page_cache \<Rightarrow> z_page option \<times> z_page_cache" where
  "alloc_oversized_page e sz c =
     (case alloc_oversized_large_page sz c of
        (None, c) \<Rightarrow> alloc_oversized_medium_page e sz c
      | (Some pg, c) \<Rightarrow> (Some pg, c))"

definition cache_free_page :: "cache_env \<Rightarrow> z_page \<Rightarrow> z_page_cache \<Rightarrow> z_page_cache" where
  "cache_free_page e pg c =
     (case pg_type pg of
        SmallPage \<Rightarrow> c\<lparr>pc_small := (pc_small c)(numa_id e pg := pg # pc_small c (numa_id e pg))\<rparr>
      | MediumPage \<Rightarrow> c\<lparr>pc_medium := pg # pc_medium c\<rparr>
      | LargePage \<Rightarrow> c\<lparr>pc_large := pg # pc_large c\<rparr>)"

definition alloc_exact_page :: "cache_env \<Rightarrow> nat \<Rightarrow> z_page_type \<Rightarrow> u64 \<Rightarrow> z_page_cache \<Rightarrow> z_page option \<times> z_page_cache" where
  "alloc_exact_page e node type sz c =
     (if type = SmallPage then alloc_small_page e node c
      else if type = MediumPage then alloc_medium_page c
      else alloc_large_page sz c)"

definition cache_alloc_page :: "cache_env \<Rightarrow> nat \<Rightarrow> z_page_type \<Rightarrow> u64 \<Rightarrow> z_page_cache \<Rightarrow> z_page option \<times> z_page_cache" where
  "cache_alloc_page e node type sz c =
     (case alloc_exact_page e node type sz c of
        (Some pg, c) \<Rightarrow> (Some pg, c)
      | (None, c) \<Rightarrow>
          (case alloc_oversized_page e sz c of
             (None, c) \<Rightarrow> (None, c)
           | (Some oversized, c) \<Rightarrow>
               if sz < page_size oversized
               then (case page_split_to e type sz oversized of (pg, rest) \<Rightarrow> (Some pg, cache_free_page e rest c))
               else (Some (page_retype (ce_params e) (ce_garbage e) type oversized), c)))"

subsection \<open>Flushing\<close>

text \<open>The two closures decide page by page; the one for uncommitting also finds the time to the next expiry.\<close>

datatype flush_kind = FlushForAllocation | FlushForUncommit u64

record flush_closure =
  fc_kind :: flush_kind
  fc_requested :: u64
  fc_flushed :: u64
  fc_timeout :: u64

definition flush_do_page :: "cache_env \<Rightarrow> z_page \<Rightarrow> flush_closure \<Rightarrow> bool \<times> flush_closure" where
  "flush_do_page e pg cl =
     (case fc_kind cl of
        FlushForAllocation \<Rightarrow>
          if fc_flushed cl < fc_requested cl
          then (True, cl\<lparr>fc_flushed := fc_flushed cl + page_size pg\<rparr>) else (False, cl)
      | FlushForUncommit now \<Rightarrow>
          let expires = pg_last_used pg + ce_uncommit_delay e
          in if expires > now then (False, cl\<lparr>fc_timeout := min (fc_timeout cl) (expires - now)\<rparr>)
             else if fc_flushed cl \<ge> fc_requested cl then (False, cl)
             else (True, cl\<lparr>fc_flushed := fc_flushed cl + page_size pg\<rparr>))"

definition flush_list_inner ::
  "cache_env \<Rightarrow> flush_closure \<Rightarrow> z_page list \<Rightarrow> z_page list \<Rightarrow> bool \<times> flush_closure \<times> z_page list \<times> z_page list" where
  "flush_list_inner e cl src dst =
     (if src = [] then (False, cl, src, dst)
      else case flush_do_page e (last src) cl of
             (False, cl) \<Rightarrow> (False, cl, src, dst)
           | (True, cl) \<Rightarrow> (True, cl, butlast src, dst @ [last src]))"

function flush_list ::
  "cache_env \<Rightarrow> flush_closure \<Rightarrow> z_page list \<Rightarrow> z_page list \<Rightarrow> flush_closure \<times> z_page list \<times> z_page list" where
  "flush_list e cl src dst =
     (case flush_list_inner e cl src dst of
        (True, cl, src, dst) \<Rightarrow> flush_list e cl src dst
      | (False, cl, src, dst) \<Rightarrow> (cl, src, dst))"
  by pat_completeness auto
termination
  by (relation "measure (\<lambda>(e, cl, src, dst). length src)")
    (auto simp: flush_list_inner_def split: if_splits prod.splits bool.splits)

partial_function (option) flush_per_numa ::
  "cache_env \<Rightarrow> nat \<Rightarrow> nat \<Rightarrow> flush_closure \<Rightarrow> (nat \<Rightarrow> z_page list) \<Rightarrow> z_page list
     \<Rightarrow> (flush_closure \<times> (nat \<Rightarrow> z_page list) \<times> z_page list) option" where
  "flush_per_numa e numa_done numa_next cl src dst =
     (if numa_done < ce_numa_count e
      then let numa_next' = (if numa_next + 1 = ce_numa_count e then 0 else numa_next + 1)
           in case flush_list_inner e cl (src numa_next) dst of
                (taken, cl', xs, dst') \<Rightarrow>
                  if taken then flush_per_numa e 0 numa_next' cl' (src(numa_next := xs)) dst'
                  else flush_per_numa e (numa_done + 1) numa_next' cl' (src(numa_next := xs)) dst'
      else Some (cl, src, dst))"

definition cache_flush ::
  "cache_env \<Rightarrow> flush_closure \<Rightarrow> z_page list \<Rightarrow> z_page_cache \<Rightarrow> (flush_closure \<times> z_page list \<times> z_page_cache) option" where
  "cache_flush e cl dst c =
     (case flush_list e cl (pc_large c) dst of (cl, large, dst) \<Rightarrow>
      case flush_list e cl (pc_medium c) dst of (cl, medium, dst) \<Rightarrow>
      case flush_per_numa e 0 0 cl (pc_small c) dst of
        None \<Rightarrow> None
      | Some (cl, small, dst) \<Rightarrow>
          let c = c\<lparr>pc_small := small, pc_medium := medium, pc_large := large\<rparr>
          in if fc_flushed cl > fc_requested cl
             then let overflushed = fc_flushed cl - fc_requested cl
                  in case page_split e overflushed (last dst) of
                       (reinsert, rest) \<Rightarrow>
                         Some (cl\<lparr>fc_flushed := fc_flushed cl - overflushed\<rparr>, butlast dst @ [rest], cache_free_page e reinsert c)
             else Some (cl, dst, c))"

definition flush_for_allocation :: "cache_env \<Rightarrow> u64 \<Rightarrow> z_page_cache \<Rightarrow> (z_page list \<times> z_page_cache) option" where
  "flush_for_allocation e requested c =
     (case cache_flush e \<lparr>fc_kind = FlushForAllocation, fc_requested = requested, fc_flushed = 0, fc_timeout = 0\<rparr> [] c of
        None \<Rightarrow> None
      | Some (cl, dst, c) \<Rightarrow> Some (dst, c))"

definition flush_for_uncommit ::
  "cache_env \<Rightarrow> u64 \<Rightarrow> u64 \<Rightarrow> z_page_cache \<Rightarrow> (u64 \<times> z_page list \<times> u64 \<times> z_page_cache) option" where
  "flush_for_uncommit e now requested c =
     (let expires = pc_last_commit c + ce_uncommit_delay e
      in if expires > now then Some (0, [], expires - now, c)
         else if requested = 0 then Some (0, [], ce_uncommit_delay e, c)
         else case cache_flush e \<lparr>fc_kind = FlushForUncommit now, fc_requested = requested, fc_flushed = 0,
                                 fc_timeout = ce_uncommit_delay e\<rparr> [] c of
                None \<Rightarrow> None
              | Some (cl, dst, c) \<Rightarrow> Some (fc_flushed cl, dst, fc_timeout cl, c))"

definition set_last_commit :: "u64 \<Rightarrow> z_page_cache \<Rightarrow> z_page_cache" where
  "set_last_commit now c = c\<lparr>pc_last_commit := now\<rparr>"

declare flush_list.simps [simp del]

subsection \<open>The pages of a cache\<close>

definition cache_pages :: "cache_env \<Rightarrow> z_page_cache \<Rightarrow> z_page multiset" where
  "cache_pages e c = (\<Sum>i<ce_numa_count e. mset (pc_small c i)) + mset (pc_medium c) + mset (pc_large c)"

definition env_ok :: "cache_env \<Rightarrow> bool" where
  "env_ok e \<longleftrightarrow> params_ok (ce_params e) \<and> (\<forall>a. ce_memory_id e a < ce_numa_count e)"

text \<open>Pages are well formed, lie in the list of their type and have sizes that are multiples of the granule.\<close>

definition cached_ok :: "cache_env \<Rightarrow> z_page_type \<Rightarrow> z_page \<Rightarrow> bool" where
  "cached_ok e type pg \<longleftrightarrow> page_ok (ce_params e) pg \<and> pg_type pg = type \<and> 2 ^ 21 dvd unat (page_size pg)"

definition cache_ok :: "cache_env \<Rightarrow> z_page_cache \<Rightarrow> bool" where
  "cache_ok e c \<longleftrightarrow> (\<forall>i. \<forall>pg \<in> set (pc_small c i). cached_ok e SmallPage pg)
     \<and> (\<forall>pg \<in> set (pc_medium c). cached_ok e MediumPage pg) \<and> (\<forall>pg \<in> set (pc_large c). cached_ok e LargePage pg)"

lemma cache_new_ok: "cache_ok e cache_new" "cache_pages e cache_new = {#}"
  by (simp_all add: cache_ok_def cache_new_def cache_pages_def)

lemma cache_ok_page: "cache_ok e c \<Longrightarrow> pg \<in># cache_pages e c \<Longrightarrow> cached_ok e (pg_type pg) pg"
  by (auto simp: cache_ok_def cache_pages_def cached_ok_def set_mset_sum)

text \<open>What an operation that takes a page out of a cache does.\<close>

definition takes :: "cache_env \<Rightarrow> (z_page \<Rightarrow> bool) \<Rightarrow> z_page_cache \<Rightarrow> z_page option \<times> z_page_cache \<Rightarrow> bool" where
  "takes e ok c rc \<longleftrightarrow> (case fst rc of
      None \<Rightarrow> snd rc = c
    | Some pg \<Rightarrow> ok pg \<and> cache_pages e c = add_mset pg (cache_pages e (snd rc)) \<and> (cache_ok e c \<longrightarrow> cache_ok e (snd rc)))"

lemma takes_mono: "takes e ok c rc \<Longrightarrow> (\<And>pg. ok pg \<Longrightarrow> ok' pg) \<Longrightarrow> takes e ok' c rc"
  by (auto simp: takes_def split: option.splits)

lemma small_update:
  fixes f :: "nat \<Rightarrow> 'a list"
  assumes "k < n" "mset (f k) = add_mset x (mset xs)"
  shows "(\<Sum>i<n. mset (f i)) = add_mset x (\<Sum>i<n. mset ((f(k := xs)) i))"
proof -
  have same: "(\<Sum>i\<in>{..<n} - {k}. mset ((f(k := xs)) i)) = (\<Sum>i\<in>{..<n} - {k}. mset (f i))" by (rule sum.cong) auto
  show ?thesis
    using assms same sum.remove [of "{..<n}" k "\<lambda>i. mset (f i)"] sum.remove [of "{..<n}" k "\<lambda>i. mset ((f(k := xs)) i)"]
    by simp
qed

lemma remove_first_cases:
  "remove_first xs = (r, ys) \<Longrightarrow> (r = None \<and> xs = [] \<and> ys = []) \<or> (\<exists>x. r = Some x \<and> xs = x # ys)"
  by (cases xs) auto

lemma remove_matching_cases:
  assumes "remove_matching p xs = (r, ys)"
  shows "(r = None \<and> ys = xs \<and> (\<forall>x \<in> set xs. \<not> p x))
    \<or> (\<exists>x. r = Some x \<and> p x \<and> mset xs = add_mset x (mset ys) \<and> set ys \<subseteq> set xs)"
  using assms
proof (induction xs arbitrary: r ys)
  case (Cons x xs)
  show ?case
  proof (cases "p x")
    case False
    obtain r' zs where rec: "remove_matching p xs = (r', zs)" by fastforce
    with Cons.prems False have "r = r'" "ys = x # zs" by simp_all
    with Cons.IH [OF rec] False show ?thesis by auto
  qed (use Cons.prems in auto)
qed simp

lemma take_small_takes:
  assumes "node < ce_numa_count e"
  shows "takes e (\<lambda>pg. pg \<in> set (pc_small c node)) c (take_small node c)"
    "fst (take_small node c) = None \<longleftrightarrow> pc_small c node = []"
proof -
  obtain r xs where rf: "remove_first (pc_small c node) = (r, xs)" by fastforce
  note cs = remove_first_cases [OF rf]
  show "fst (take_small node c) = None \<longleftrightarrow> pc_small c node = []"
    using cs by (auto simp: take_small_def rf)
  from cs show "takes e (\<lambda>pg. pg \<in> set (pc_small c node)) c (take_small node c)"
  proof
    assume "r = None \<and> pc_small c node = [] \<and> xs = []"
    then have "(pc_small c)(node := xs) = pc_small c" "r = None" by auto
    then show ?thesis by (simp add: takes_def take_small_def rf)
  next
    assume "\<exists>x. r = Some x \<and> pc_small c node = x # xs"
    then obtain x where x: "r = Some x" "pc_small c node = x # xs" by blast
    then have "(\<Sum>i<ce_numa_count e. mset (pc_small c i)) = add_mset x (\<Sum>i<ce_numa_count e. mset (((pc_small c)(node := xs)) i))"
      by (intro small_update [OF assms]) simp
    moreover have "set xs \<subseteq> set (pc_small c node)" using x by auto
    then have "cache_ok e c \<Longrightarrow> cache_ok e (c\<lparr>pc_small := (pc_small c)(node := xs)\<rparr>)" by (auto simp: cache_ok_def)
    ultimately show ?thesis
      using x by (simp add: takes_def take_small_def rf cache_pages_def)
  qed
qed

lemma alloc_remote_takes:
  assumes "remote \<le> ncount" "0 < ncount" "ncount = ce_numa_count e"
  shows "takes e (\<lambda>pg. \<exists>i. pg \<in> set (pc_small c i)) c (alloc_remote ncount n remote c)
    \<and> (fst (alloc_remote ncount n remote c) = None \<longrightarrow> (\<forall>i<n. pc_small c ((remote + i) mod ncount) = []))"
  using assms(1)
proof (induction n arbitrary: remote)
  case 0
  show ?case by (simp add: takes_def)
next
  case (Suc n)
  define k where "k = (if remote = ncount then 0 else remote)"
  have k: "k < ncount" "k = remote mod ncount" using Suc.prems assms(2) by (auto simp: k_def)
  note ts = take_small_takes [of k e c]
  show ?case
  proof (cases "take_small k c")
    case (Pair r c')
    show ?thesis
    proof (cases r)
      case (Some pg)
      then have "alloc_remote ncount (Suc n) remote c = (Some pg, c')" using Pair by (simp add: k_def [symmetric])
      with ts(1) Pair Some k assms(3) show ?thesis by (auto simp: takes_def)
    next
      case None
      then have "c' = c" "pc_small c k = []" using ts Pair k assms(3) by (simp_all add: takes_def)
      with None Pair have eq: "alloc_remote ncount (Suc n) remote c = alloc_remote ncount n (k + 1) c" by (simp add: k_def [symmetric])
      have shift: "(k + 1 + i) mod ncount = (remote + Suc i) mod ncount" for i
        using k(2) by (metis add.assoc add.commute add_Suc_right mod_add_left_eq plus_1_eq_Suc)
      have "\<forall>i<n. pc_small c ((k + 1 + i) mod ncount) = [] \<Longrightarrow> \<forall>i<Suc n. pc_small c ((remote + i) mod ncount) = []"
        using \<open>pc_small c k = []\<close> k(2) unfolding shift by (metis add.right_neutral less_Suc_eq_0_disj)
      with Suc.IH [of "k + 1"] k(1) eq show ?thesis by simp
    qed
  qed
qed

lemma alloc_small_takes:
  assumes "node < ce_numa_count e"
  shows "takes e (\<lambda>pg. \<exists>i. pg \<in> set (pc_small c i)) c (alloc_small_page e node c)
    \<and> (fst (alloc_small_page e node c) = None \<longrightarrow> (\<forall>i<ce_numa_count e. pc_small c i = []))"
proof (cases "take_small node c")
  case (Pair r c')
  note ts = take_small_takes [OF assms, of c]
  show ?thesis
  proof (cases r)
    case (Some pg)
    with Pair ts(1) show ?thesis by (auto simp: alloc_small_page_def takes_def)
  next
    case None
    then have c': "c' = c" "pc_small c node = []" using ts Pair by (simp_all add: takes_def)
    let ?n = "ce_numa_count e"
    have eq: "alloc_small_page e node c = alloc_remote ?n (?n - 1) (node + 1) c"
      using None Pair c' by (simp add: alloc_small_page_def)
    have rem: "\<forall>i<?n. pc_small c i = []" if "\<forall>i<?n - 1. pc_small c ((node + 1 + i) mod ?n) = []"
    proof (intro allI impI)
      fix i assume i: "i < ?n"
      show "pc_small c i = []"
      proof (cases "i = node")
        case False
        define d where "d = (if node < i then i - node - 1 else i + ?n - node - 1)"
        have "d < ?n - 1" "(node + 1 + d) mod ?n = i" using i False assms by (auto simp: d_def)
        with that show ?thesis by metis
      qed (use c' in simp)
    qed
    show ?thesis
      using alloc_remote_takes [of "node + 1" ?n e c "?n - 1"] rem assms unfolding eq by simp
  qed
qed

lemma alloc_medium_takes:
  "takes e (\<lambda>pg. pg \<in> set (pc_medium c)) c (alloc_medium_page c)
   \<and> (fst (alloc_medium_page c) = None \<longrightarrow> pc_medium c = [])"
proof -
  obtain r xs where rf: "remove_first (pc_medium c) = (r, xs)" by fastforce
  from remove_first_cases [OF rf] show ?thesis
    by (auto simp: alloc_medium_page_def rf takes_def cache_pages_def cache_ok_def)
qed

lemma remove_large_takes:
  assumes "remove_matching p (pc_large c) = (r, xs)"
  shows "takes e (\<lambda>pg. pg \<in> set (pc_large c) \<and> p pg) c (r, c\<lparr>pc_large := xs\<rparr>)
    \<and> (r = None \<longrightarrow> (\<forall>pg \<in> set (pc_large c). \<not> p pg))"
  using remove_matching_cases [OF assms]
proof
  assume "r = None \<and> xs = pc_large c \<and> (\<forall>x \<in> set (pc_large c). \<not> p x)"
  then show ?thesis by (simp add: takes_def)
next
  assume "\<exists>x. r = Some x \<and> p x \<and> mset (pc_large c) = add_mset x (mset xs) \<and> set xs \<subseteq> set (pc_large c)"
  then obtain x where x: "r = Some x" "p x" "mset (pc_large c) = add_mset x (mset xs)" "set xs \<subseteq> set (pc_large c)" by blast
  then have "x \<in> set (pc_large c)" by (metis set_mset_add_mset_insert set_mset_mset insertI1)
  then show ?thesis using x by (auto simp: takes_def cache_pages_def cache_ok_def)
qed

lemma alloc_exact_takes:
  assumes "node < ce_numa_count e" "cache_ok e c" "size_fits (ce_params e) type sz"
  shows "takes e (\<lambda>pg. page_ok (ce_params e) pg \<and> pg_type pg = type \<and> page_size pg = sz) c (alloc_exact_page e node type sz c)
    \<and> (fst (alloc_exact_page e node type sz c) = None \<longrightarrow>
         (case type of SmallPage \<Rightarrow> \<forall>i<ce_numa_count e. pc_small c i = [] | MediumPage \<Rightarrow> pc_medium c = []
          | LargePage \<Rightarrow> \<forall>pg \<in> set (pc_large c). page_size pg \<noteq> sz))"
proof (cases type)
  case SmallPage
  have "page_ok (ce_params e) pg \<and> pg_type pg = type \<and> page_size pg = sz" if "\<exists>i. pg \<in> set (pc_small c i)" for pg
    using that assms(2,3) SmallPage by (auto simp: cache_ok_def cached_ok_def page_ok_def page_shape_def size_fits_def)
  then show ?thesis
    using alloc_small_takes [OF assms(1), of c] SmallPage by (auto simp: alloc_exact_page_def elim!: takes_mono)
next
  case MediumPage
  have "page_ok (ce_params e) pg \<and> pg_type pg = type \<and> page_size pg = sz" if "pg \<in> set (pc_medium c)" for pg
    using that assms(2,3) MediumPage by (auto simp: cache_ok_def cached_ok_def page_ok_def page_shape_def size_fits_def)
  then show ?thesis
    using alloc_medium_takes [of e c] MediumPage by (auto simp: alloc_exact_page_def elim!: takes_mono)
next
  case LargePage
  obtain r xs where rf: "remove_matching (\<lambda>pg. sz = page_size pg) (pc_large c) = (r, xs)" by fastforce
  have "page_ok (ce_params e) pg \<and> pg_type pg = type \<and> page_size pg = sz" if "pg \<in> set (pc_large c) \<and> sz = page_size pg" for pg
    using that assms(2) LargePage by (auto simp: cache_ok_def cached_ok_def)
  then show ?thesis
    using remove_large_takes [OF rf, of e] LargePage
    by (auto simp: alloc_exact_page_def alloc_large_page_def rf elim!: takes_mono)
qed

lemma alloc_oversized_takes:
  "takes e (\<lambda>pg. (pg \<in> set (pc_large c) \<or> pg \<in> set (pc_medium c) \<and> sz \<le> page_size_medium (ce_params e))
      \<and> (pg \<in> set (pc_large c) \<longrightarrow> sz \<le> page_size pg \<or> pg \<in> set (pc_medium c) \<and> sz \<le> page_size_medium (ce_params e)))
     c (alloc_oversized_page e sz c)
   \<and> (fst (alloc_oversized_page e sz c) = None \<longrightarrow>
        (\<forall>pg \<in> set (pc_large c). \<not> sz \<le> page_size pg) \<and> (sz \<le> page_size_medium (ce_params e) \<longrightarrow> pc_medium c = []))"
proof -
  obtain r xs where rf: "remove_matching (\<lambda>pg. sz \<le> page_size pg) (pc_large c) = (r, xs)" by fastforce
  note l = remove_large_takes [OF rf, of e] and m = alloc_medium_takes [of e c]
  show ?thesis
  proof (cases r)
    case (Some pg)
    with l show ?thesis
      by (auto simp: alloc_oversized_page_def alloc_oversized_large_page_def rf takes_def)
  next
    case None
    then have c: "c\<lparr>pc_large := xs\<rparr> = c" "\<forall>pg \<in> set (pc_large c). \<not> sz \<le> page_size pg" using l by (simp_all add: takes_def)
    have eq: "alloc_oversized_page e sz c = alloc_oversized_medium_page e sz c"
      using None by (simp add: alloc_oversized_page_def alloc_oversized_large_page_def rf c(1))
    show ?thesis
    proof (cases "sz \<le> page_size_medium (ce_params e)")
      case True
      then show ?thesis using m c(2) unfolding eq by (auto simp: alloc_oversized_medium_page_def elim!: takes_mono)
    next
      case False
      then show ?thesis using c(2) unfolding eq by (simp add: alloc_oversized_medium_page_def takes_def)
    qed
  qed
qed

lemma cache_free_adds:
  assumes "env_ok e" "cache_ok e c" "page_ok (ce_params e) pg" "2 ^ 21 dvd unat (page_size pg)"
  shows "cache_pages e (cache_free_page e pg c) = add_mset pg (cache_pages e c)" "cache_ok e (cache_free_page e pg c)"
proof -
  have k: "numa_id e pg < ce_numa_count e" using assms(1) by (simp add: env_ok_def numa_id_def)
  let ?f = "(pc_small c)(numa_id e pg := pg # pc_small c (numa_id e pg))"
  have "(\<Sum>i<ce_numa_count e. mset (?f i)) = add_mset pg (\<Sum>i<ce_numa_count e. mset ((?f(numa_id e pg := pc_small c (numa_id e pg))) i))"
    by (rule small_update [OF k]) simp
  moreover have "?f(numa_id e pg := pc_small c (numa_id e pg)) = pc_small c" by auto
  ultimately show "cache_pages e (cache_free_page e pg c) = add_mset pg (cache_pages e c)"
    by (simp add: cache_free_page_def cache_pages_def split: z_page_type.split)
  show "cache_ok e (cache_free_page e pg c)"
    using assms(2-4) by (auto simp: cache_free_page_def cache_ok_def cached_ok_def split: z_page_type.split)
qed

lemma alloc_oversized_fits:
  assumes "cache_ok e c" "alloc_oversized_page e sz c = (Some pg, c')"
  shows "cached_ok e (pg_type pg) pg" "pg_type pg \<noteq> SmallPage" "sz \<le> page_size pg" "pg \<in># cache_pages e c"
    "cache_pages e c = add_mset pg (cache_pages e c')" "cache_ok e c'"
proof -
  note t = conjunct1 [OF alloc_oversized_takes [of e c sz], unfolded assms(2) takes_def fst_conv snd_conv option.case]
  have medium: "pg \<in> set (pc_medium c) \<Longrightarrow> page_size pg = page_size_medium (ce_params e)"
    using assms(1) by (auto simp: cache_ok_def cached_ok_def page_ok_def page_shape_def size_fits_def)
  show "cache_pages e c = add_mset pg (cache_pages e c')" "cache_ok e c'" using t assms(1) by blast+
  then show "pg \<in># cache_pages e c" by simp
  then show "cached_ok e (pg_type pg) pg" by (rule cache_ok_page [OF assms(1)])
  have "pg \<in> set (pc_large c) \<or> pg \<in> set (pc_medium c)" using t by blast
  moreover have "pg_type pg = LargePage" if "pg \<in> set (pc_large c)" using that assms(1) unfolding cache_ok_def cached_ok_def by blast
  moreover have "pg_type pg = MediumPage" if "pg \<in> set (pc_medium c)" using that assms(1) unfolding cache_ok_def cached_ok_def by blast
  ultimately show "pg_type pg \<noteq> SmallPage" by (elim disjE) simp_all
  have "sz \<le> page_size pg \<or> pg \<in> set (pc_medium c) \<and> sz \<le> page_size_medium (ce_params e)" using t by blast
  then show "sz \<le> page_size pg" by (elim disjE conjE) (simp_all add: medium)
qed

text \<open>A quantity of memory: it depends on the range of a page, and adds up when a range is cut in two.\<close>

locale page_measure =
  fixes mu :: "z_page \<Rightarrow> nat"
  assumes mu_range: "page_start p = page_start q \<Longrightarrow> page_end p = page_end q \<Longrightarrow> mu p = mu q"
    and mu_split: "page_start new = page_start pg \<Longrightarrow> page_end new = page_start rest \<Longrightarrow> page_end rest = page_end pg
      \<Longrightarrow> page_start new \<le> page_end new \<Longrightarrow> page_start rest \<le> page_end rest \<Longrightarrow> mu pg = mu new + mu rest"
begin

definition total :: "z_page multiset \<Rightarrow> nat" where
  "total M = sum_mset (image_mset mu M)"

lemma total_simps [simp]: "total {#} = 0" "total (add_mset pg M) = mu pg + total M" "total (M + N) = total M + total N"
  by (simp_all add: total_def)

lemma mu_retype: "mu (page_retype P g type pg) = mu pg"
  by (rule mu_range) (simp_all add: page_retype_def reset_type_and_size_facts)

lemma mu_page_split:
  assumes "page_ok P new \<and> page_ok P rest \<and> page_start new = page_start pg \<and> page_end new = page_start rest \<and> page_end rest = page_end pg"
  shows "mu new + mu rest = mu pg"
proof -
  have "page_start new \<le> page_end new" "page_start rest \<le> page_end rest" using assms by (auto simp: page_ok_def)
  then show ?thesis using mu_split [of new pg rest] assms by simp
qed

end

lemma multiples_cut:
  fixes a b g :: nat
  assumes "g dvd a" "g dvd b" "a < b" "0 < a" "8 \<le> g"
  shows "a + 8 \<le> b" "8 \<le> a" "g dvd b - a"
proof -
  show d: "g dvd b - a" using assms(1,2) by (rule dvd_diff_nat [rotated])
  have "g \<le> b - a" using d assms(3) by (intro dvd_imp_le) simp_all
  then show "a + 8 \<le> b" using assms(3,5) by linarith
  have "g \<le> a" using assms(1,4) by (rule dvd_imp_le)
  then show "8 \<le> a" using assms(5) by linarith
qed

lemma granule_cut:
  assumes "2 ^ 21 dvd unat a" "2 ^ 21 dvd unat b" "a < (b :: u64)" "0 < a"
  shows "unat a + 8 \<le> unat b" "8 \<le> unat a" "2 ^ 21 dvd unat b - unat a"
proof -
  have "unat a < unat b" "0 < unat a" "8 \<le> (2 ^ 21 :: nat)" using assms(3,4) by (simp_all add: word_less_nat_alt)
  from multiples_cut [OF assms(1,2) this]
  show "unat a + 8 \<le> unat b" "8 \<le> unat a" "2 ^ 21 dvd unat b - unat a" by blast+
qed

text \<open>The two ways in which an oversized page is used.\<close>

lemma use_oversized:
  assumes "env_ok e" "cache_ok e c" "cached_ok e (pg_type pg) pg" "size_fits (ce_params e) type sz" "2 ^ 21 dvd unat sz" "sz \<le> page_size pg"
    and r: "(if sz < page_size pg then (case page_split_to e type sz pg of (new, rest) \<Rightarrow> (Some new, cache_free_page e rest c))
        else (Some (page_retype (ce_params e) (ce_garbage e) type pg), c)) = (Some new, c')"
  shows "page_ok (ce_params e) new \<and> pg_type new = type \<and> page_size new = sz \<and> cache_ok e c'
    \<and> (\<forall>mu. page_measure mu \<longrightarrow> mu pg + page_measure.total mu (cache_pages e c) = mu new + page_measure.total mu (cache_pages e c'))"
proof (cases "sz < page_size pg")
  case True
  obtain n rest where sp: "page_split_to e type sz pg = (n, rest)" by fastforce
  have pos: "0 < sz" using assms(4) by (auto simp: size_fits_def word_less_nat_alt)
  have gr: "2 ^ 21 dvd unat (page_size pg)" using assms(3) by (simp add: cached_ok_def)
  note cut = granule_cut [OF assms(5) gr True pos]
  have P: "params_ok (ce_params e)" "page_ok (ce_params e) pg" using assms(1,3) by (simp_all add: env_ok_def cached_ok_def)
  note s = page_split_ok [OF P assms(4) cut(1) sp [unfolded page_split_to_def]]
  have eq: "new = n" "c' = cache_free_page e rest c" using r True sp by simp_all
  note fr = cache_free_adds [OF assms(1,2), of rest]
  have "2 ^ 21 dvd unat (page_size rest)" using s(2) cut(3) by simp
  with fr s have f: "cache_pages e c' = add_mset rest (cache_pages e c)" "cache_ok e c'" by (simp_all add: eq)
  show ?thesis
    using s f page_measure.mu_page_split [OF _ s(1)] by (auto simp: eq page_measure.total_simps)
next
  case False
  with assms(6) have "page_size pg = sz" by simp
  moreover have "new = page_retype (ce_params e) (ce_garbage e) type pg" "c' = c" using r False by simp_all
  ultimately show ?thesis
    using assms(1-4) retype_ok [of "ce_params e" pg type "ce_garbage e"]
    by (simp add: env_ok_def cached_ok_def page_measure.mu_retype) (simp add: page_retype_def reset_type_and_size_facts)
qed

definition page_serves :: "z_page_type \<Rightarrow> u64 \<Rightarrow> z_page \<Rightarrow> bool" where
  "page_serves type sz pg \<longleftrightarrow> (pg_type pg = type \<and> page_size pg = sz) \<or> (pg_type pg \<noteq> SmallPage \<and> sz \<le> page_size pg)"

lemma alloc_page_spec:
  assumes "env_ok e" "cache_ok e c" "node < ce_numa_count e" "size_fits (ce_params e) type sz" "2 ^ 21 dvd unat sz"
  shows "case cache_alloc_page e node type sz c of
      (None, c') \<Rightarrow> c' = c \<and> (\<forall>pg \<in># cache_pages e c. \<not> page_serves type sz pg)
    | (Some new, c') \<Rightarrow> page_ok (ce_params e) new \<and> pg_type new = type \<and> page_size new = sz \<and> cache_ok e c'
        \<and> (\<exists>pg \<in># cache_pages e c. page_serves type sz pg)
        \<and> (\<forall>mu. page_measure mu \<longrightarrow> page_measure.total mu (cache_pages e c) = mu new + page_measure.total mu (cache_pages e c'))"
proof (cases "alloc_exact_page e node type sz c")
  case (Pair r c1)
  note ex = alloc_exact_takes [OF assms(3,2,4)]
  show ?thesis
  proof (cases r)
    case (Some pg)
    with Pair have eq: "cache_alloc_page e node type sz c = (Some pg, c1)" by (simp add: cache_alloc_page_def)
    from ex have t: "page_ok (ce_params e) pg \<and> pg_type pg = type \<and> page_size pg = sz"
      "cache_pages e c = add_mset pg (cache_pages e c1)" "cache_ok e c1"
      using assms(2) unfolding Pair Some takes_def by simp_all
    then have "pg \<in># cache_pages e c" "page_serves type sz pg" by (simp_all add: page_serves_def)
    then show ?thesis unfolding eq using t by (auto simp: page_measure.total_simps)
  next
    case None
    then have c1: "c1 = c" using ex Pair by (simp add: takes_def)
    show ?thesis
    proof (cases "alloc_oversized_page e sz c")
      case over: (Pair r' c2)
      show ?thesis
      proof (cases r')
        case (Some pg)
        note f = alloc_oversized_fits [OF assms(2) over [unfolded Some]]
        obtain new c' where out: "(if sz < page_size pg then (case page_split_to e type sz pg of (new, rest) \<Rightarrow> (Some new, cache_free_page e rest c2))
            else (Some (page_retype (ce_params e) (ce_garbage e) type pg), c2)) = (Some new, c')"
          by (cases "page_split_to e type sz pg"; cases "sz < page_size pg") simp_all
        have eq: "cache_alloc_page e node type sz c = (Some new, c')"
          using Pair None c1 over Some out by (simp add: cache_alloc_page_def)
        have "page_serves type sz pg" using f by (simp add: page_serves_def)
        with f use_oversized [OF assms(1) f(6,1) assms(4,5) f(3) out] show ?thesis
          unfolding eq by (auto simp: page_measure.total_simps)
      next
        case no: None
        then have eq: "cache_alloc_page e node type sz c = (None, c2)"
          using Pair None c1 over by (simp add: cache_alloc_page_def)
        note t = alloc_oversized_takes [of e c sz, unfolded over no fst_conv]
        then have "c2 = c" by (simp add: takes_def)
        moreover have "\<not> page_serves type sz pg" if "pg \<in># cache_pages e c" for pg
        proof -
          have kinds: "(\<exists>i<ce_numa_count e. pg \<in> set (pc_small c i)) \<or> pg \<in> set (pc_medium c) \<or> pg \<in> set (pc_large c)"
            using that by (auto simp: cache_pages_def set_mset_sum)
          note cok = cache_ok_page [OF assms(2) that]
          have small: "pg_type pg = SmallPage" if "pg \<in> set (pc_small c i)" for i
            using that assms(2) by (auto simp: cache_ok_def cached_ok_def)
          have medium: "pg_type pg = MediumPage \<and> page_size pg = page_size_medium (ce_params e)" if "pg \<in> set (pc_medium c)"
            using that assms(2) by (auto simp: cache_ok_def cached_ok_def page_ok_def page_shape_def size_fits_def)
          have large: "pg_type pg = LargePage" if "pg \<in> set (pc_large c)"
            using that assms(2) by (auto simp: cache_ok_def cached_ok_def)
          have exact: "case type of SmallPage \<Rightarrow> \<forall>i<ce_numa_count e. pc_small c i = [] | MediumPage \<Rightarrow> pc_medium c = []
              | LargePage \<Rightarrow> \<forall>pg \<in> set (pc_large c). page_size pg \<noteq> sz" using ex Pair None by simp
          from kinds t exact small medium large assms(4) show ?thesis
            by (cases type) (auto simp: page_serves_def size_fits_def)
        qed
        ultimately show ?thesis unfolding eq by simp
      qed
    qed
  qed
qed

definition covers :: "nat \<Rightarrow> z_page \<Rightarrow> nat" where
  "covers x pg = (if unat (page_start pg) \<le> x \<and> x < unat (page_end pg) then 1 else 0)"

definition page_bytes :: "z_page \<Rightarrow> nat" where
  "page_bytes pg = unat (page_size pg)"

interpretation cover: page_measure "covers x" for x
  by unfold_locales (auto simp: covers_def word_le_nat_alt)

interpretation bytes: page_measure page_bytes
proof
  fix p q :: z_page
  assume "page_start p = page_start q" "page_end p = page_end q"
  then show "page_bytes p = page_bytes q" by (simp add: page_bytes_def page_size_def page_start_def page_end_def)
next
  fix new rest pg :: z_page
  assume a: "page_start new = page_start pg" "page_end new = page_start rest" "page_end rest = page_end pg"
    "page_start new \<le> page_end new" "page_start rest \<le> page_end rest"
  have "unat (page_size p) = unat (page_end p) - unat (page_start p)" if "page_start p \<le> page_end p" for p
    using that by (simp add: page_size_def page_start_def page_end_def unat_sub)
  moreover have "page_start pg \<le> page_end pg" using a by simp
  ultimately show "page_bytes pg = page_bytes new + page_bytes rest"
    using a unfolding page_bytes_def by (simp add: word_le_nat_alt)
qed

subsection \<open>What flushing does\<close>

definition expired :: "cache_env \<Rightarrow> flush_kind \<Rightarrow> z_page \<Rightarrow> bool" where
  "expired e kind pg \<longleftrightarrow> (case kind of
      FlushForAllocation \<Rightarrow> True | FlushForUncommit now \<Rightarrow> pg_last_used pg + ce_uncommit_delay e \<le> now)"

lemma flush_do_page_spec:
  assumes "flush_do_page e pg cl = (taken, cl')"
  shows "taken \<longleftrightarrow> fc_flushed cl < fc_requested cl \<and> expired e (fc_kind cl) pg"
    "fc_kind cl' = fc_kind cl" "fc_requested cl' = fc_requested cl"
    "fc_flushed cl' = (if taken then fc_flushed cl + page_size pg else fc_flushed cl)" "fc_timeout cl' \<le> fc_timeout cl"
  using assms by (auto simp: flush_do_page_def expired_def Let_def min_def not_le not_less split: flush_kind.splits if_splits)

text \<open>A list is finished when its last page is not to be flushed.\<close>

definition finished :: "cache_env \<Rightarrow> flush_closure \<Rightarrow> z_page list \<Rightarrow> bool" where
  "finished e cl xs \<longleftrightarrow> xs = [] \<or> fc_requested cl \<le> fc_flushed cl \<or> \<not> expired e (fc_kind cl) (last xs)"

text \<open>Flushing the pages \<open>M\<close>: those in \<open>dst\<close> have been flushed, those in \<open>rest\<close> not.\<close>

definition flushing :: "cache_env \<Rightarrow> flush_closure \<Rightarrow> z_page multiset \<Rightarrow> flush_closure \<Rightarrow> z_page multiset \<Rightarrow> z_page list \<Rightarrow> bool" where
  "flushing e cl0 M cl rest dst \<longleftrightarrow> M = rest + mset dst \<and> unat (fc_flushed cl) = bytes.total (mset dst)
     \<and> fc_kind cl = fc_kind cl0 \<and> fc_requested cl = fc_requested cl0 \<and> fc_timeout cl \<le> fc_timeout cl0
     \<and> (dst \<noteq> [] \<longrightarrow> bytes.total (mset (butlast dst)) < unat (fc_requested cl0))
     \<and> (\<forall>pg \<in> set dst. expired e (fc_kind cl0) pg)"

lemma flush_list_inner_step:
  assumes "flush_list_inner e cl src dst = (taken, cl', src', dst')"
    and inv: "flushing e cl0 M cl (N + mset src) dst" and small: "bytes.total M < 2 ^ 64"
  shows "flushing e cl0 M cl' (N + mset src') dst'" "set src' \<subseteq> set src" "fc_flushed cl \<le> fc_flushed cl'"
    "if taken then length src = Suc (length src')
     else src' = src \<and> dst' = dst \<and> fc_flushed cl' = fc_flushed cl \<and> finished e cl' src"
proof -
  have "flushing e cl0 M cl' (N + mset src') dst' \<and> set src' \<subseteq> set src \<and> fc_flushed cl \<le> fc_flushed cl'
    \<and> (if taken then length src = Suc (length src')
       else src' = src \<and> dst' = dst \<and> fc_flushed cl' = fc_flushed cl \<and> finished e cl' src)"
  proof (cases "src = []")
    case True
    then show ?thesis using assms(1) inv by (auto simp: flush_list_inner_def finished_def)
  next
    case False
    then obtain xs pg where src: "src = xs @ [pg]" by (metis rev_exhaust)
    obtain b cl1 where dp: "flush_do_page e pg cl = (b, cl1)" by fastforce
    note s = flush_do_page_spec [OF dp]
    have out: "taken = b" "cl' = cl1" "src' = (if b then xs else src)" "dst' = (if b then dst @ [pg] else dst)"
      using assms(1) src dp by (auto simp: flush_list_inner_def split: bool.splits)
    show ?thesis
    proof (cases b)
      case True
      have m: "M = N + mset xs + mset (dst @ [pg])" using inv by (simp add: flushing_def src)
      have fl: "unat (fc_flushed cl) = bytes.total (mset dst)" using inv by (simp add: flushing_def)
      have "bytes.total M = bytes.total (N + mset xs) + (bytes.total (mset dst) + page_bytes pg)" by (simp add: m)
      with small fl have "unat (fc_flushed cl) + unat (page_size pg) < 18446744073709551616" by (simp add: page_bytes_def)
      then have sum: "unat (fc_flushed cl + page_size pg) = unat (fc_flushed cl) + unat (page_size pg)" by (rule unat_add_no_wrap)
      have "unat (fc_flushed cl') = bytes.total (mset (dst @ [pg]))" using s(4) True sum fl out by (simp add: page_bytes_def)
      moreover have "bytes.total (mset dst) < unat (fc_requested cl0)"
        using s(1) True fl inv by (simp add: flushing_def word_less_nat_alt)
      moreover have "fc_flushed cl \<le> fc_flushed cl'" using s(4) True sum out by (simp add: word_le_nat_alt)
      ultimately show ?thesis
        using inv s True out m by (auto simp: flushing_def src)
    next
      case no: False
      then have "finished e cl' src" using s out by (auto simp: finished_def src)
      with no s out inv show ?thesis by (auto simp: flushing_def)
    qed
  qed
  then show "flushing e cl0 M cl' (N + mset src') dst'" "set src' \<subseteq> set src" "fc_flushed cl \<le> fc_flushed cl'"
    "if taken then length src = Suc (length src')
     else src' = src \<and> dst' = dst \<and> fc_flushed cl' = fc_flushed cl \<and> finished e cl' src" by blast+
qed

lemma finished_mono:
  assumes "finished e cl xs" "fc_flushed cl \<le> fc_flushed cl'" "fc_kind cl' = fc_kind cl" "fc_requested cl' = fc_requested cl"
  shows "finished e cl' xs"
  using assms by (auto simp: finished_def)

lemma flush_list_step:
  assumes "flush_list e cl src dst = (cl', src', dst')"
    and "flushing e cl0 M cl (N + mset src) dst" "bytes.total M < 2 ^ 64"
  shows "flushing e cl0 M cl' (N + mset src') dst' \<and> set src' \<subseteq> set src \<and> fc_flushed cl \<le> fc_flushed cl' \<and> finished e cl' src'"
  using assms
proof (induction e cl src dst rule: flush_list.induct)
  case (1 e cl src dst)
  obtain b cl1 src1 dst1 where i: "flush_list_inner e cl src dst = (b, cl1, src1, dst1)" by (metis prod_cases4)
  note s = flush_list_inner_step [OF i "1.prems"(2,3)]
  show ?case
  proof (cases b)
    case True
    have "flush_list e cl1 src1 dst1 = (cl', src', dst')" using "1.prems"(1) True i by (simp add: flush_list.simps [of e cl])
    from "1.IH" [OF i [symmetric] _ refl refl this s(1) "1.prems"(3)] s(2,3) True show ?thesis
      by (meson order.trans)
  next
    case False
    then have "cl' = cl1" "src' = src1" "dst' = dst1" using "1.prems"(1) i by (simp_all add: flush_list.simps [of e cl])
    with s False show ?thesis by auto
  qed
qed

abbreviation small_pages :: "nat \<Rightarrow> (nat \<Rightarrow> z_page list) \<Rightarrow> z_page multiset" where
  "small_pages n f \<equiv> \<Sum>i<n. mset (f i)"

lemma small_pages_update:
  assumes "k < n"
  shows "small_pages n (f(k := xs)) = (\<Sum>i\<in>{..<n} - {k}. mset (f i)) + mset xs"
    and "small_pages n f = (\<Sum>i\<in>{..<n} - {k}. mset (f i)) + mset (f k)"
proof -
  have same: "(\<Sum>i\<in>{..<n} - {k}. mset ((f(k := xs)) i)) = (\<Sum>i\<in>{..<n} - {k}. mset (f i))" by (rule sum.cong) auto
  then show "small_pages n (f(k := xs)) = (\<Sum>i\<in>{..<n} - {k}. mset (f i)) + mset xs"
    using assms sum.remove [of "{..<n}" k "\<lambda>i. mset ((f(k := xs)) i)"] by simp
  show "small_pages n f = (\<Sum>i\<in>{..<n} - {k}. mset (f i)) + mset (f k)"
    using assms sum.remove [of "{..<n}" k "\<lambda>i. mset (f i)"] by simp
qed

text \<open>The round-robin loop returns: a page leaves the lists, or one more list in a row is finished.\<close>

lemma flush_per_numa_step:
  assumes "flushing e cl0 M cl (N + small_pages (ce_numa_count e) src) dst" "bytes.total M < 2 ^ 64"
    and "nxt < ce_numa_count e" "n_done \<le> ce_numa_count e"
    and "\<forall>k < n_done. finished e cl (src ((nxt + ce_numa_count e - 1 - k) mod ce_numa_count e))"
  shows "\<exists>cl' src' dst'. flush_per_numa e n_done nxt cl src dst = Some (cl', src', dst')
    \<and> flushing e cl0 M cl' (N + small_pages (ce_numa_count e) src') dst' \<and> (\<forall>i. set (src' i) \<subseteq> set (src i))
    \<and> fc_flushed cl \<le> fc_flushed cl' \<and> (\<forall>i < ce_numa_count e. finished e cl' (src' i))"
  using assms
proof (induction "size (small_pages (ce_numa_count e) src) * (ce_numa_count e + 1) + (ce_numa_count e - n_done)"
    arbitrary: cl src dst nxt n_done rule: less_induct)
  case less
  let ?n = "ce_numa_count e"
  show ?case
  proof (cases "n_done < ?n")
    case False
    with less.prems(4) have "n_done = ?n" by simp
    have "finished e cl (src i)" if "i < ?n" for i
    proof -
      define k where "k = (nxt + ?n - 1 - i) mod ?n"
      have "k < ?n" using that by (simp add: k_def)
      have "(nxt + ?n - 1 - k) mod ?n = i"
      proof (cases "i < nxt")
        case True
        then have "nxt + ?n - 1 - i = nxt - 1 - i + ?n" by linarith
        then have "k = (nxt - 1 - i + ?n) mod ?n" by (simp only: k_def)
        then have "k = nxt - 1 - i" using less.prems(3) by simp
        then show ?thesis using True that less.prems(3) by (simp add: add.commute)
      next
        case no: False
        then have "k = nxt + ?n - 1 - i" using that less.prems(3) by (simp add: k_def)
        then show ?thesis using no that less.prems(3) by simp
      qed
      with less.prems(5) \<open>n_done = ?n\<close> \<open>k < ?n\<close> show ?thesis by metis
    qed
    then show ?thesis using less.prems False by (subst flush_per_numa.simps) simp
  next
    case True
    define nx where "nx = (if nxt + 1 = ?n then 0 else nxt + 1)"
    have nx: "nx < ?n" using less.prems(3) by (auto simp: nx_def)
    obtain b cl1 xs dst1 where i: "flush_list_inner e cl (src nxt) dst = (b, cl1, xs, dst1)" by (metis prod_cases4)
    define src1 where "src1 = src(nxt := xs)"
    note up = small_pages_update(1) [OF less.prems(3), of src xs, folded src1_def] small_pages_update(2) [OF less.prems(3), of src]
    have inv: "flushing e cl0 M cl ((N + (\<Sum>i\<in>{..<?n} - {nxt}. mset (src i))) + mset (src nxt)) dst"
      using less.prems(1) up(2) by (simp add: add.assoc)
    note s = flush_list_inner_step [OF i inv less.prems(2)]
    have inv1: "flushing e cl0 M cl1 (N + small_pages ?n src1) dst1" using s(1) up(1) by (simp add: add.assoc)
    have step: "flush_per_numa e n_done nxt cl src dst = flush_per_numa e (if b then 0 else n_done + 1) nx cl1 src1 dst1"
      using True i by (subst flush_per_numa.simps) (simp add: nx_def src1_def Let_def)
    have sub: "set (src1 i) \<subseteq> set (src i)" for i using s(2) by (simp add: src1_def)
    let ?goal = "\<lambda>cl1 r. \<exists>cl' src' dst'. r = Some (cl', src', dst')
      \<and> flushing e cl0 M cl' (N + small_pages ?n src') dst' \<and> (\<forall>i. set (src' i) \<subseteq> set (src1 i))
      \<and> fc_flushed cl1 \<le> fc_flushed cl' \<and> (\<forall>i < ?n. finished e cl' (src' i))"
    have "?goal cl1 (flush_per_numa e (if b then 0 else n_done + 1) nx cl1 src1 dst1)"
    proof (cases b)
      case True
      have "Suc (size (small_pages ?n src1)) \<le> size (small_pages ?n src)" using s(4) True up by simp
      then have "Suc (size (small_pages ?n src1)) * (?n + 1) \<le> size (small_pages ?n src) * (?n + 1)" by (rule mult_le_mono1)
      then have "size (small_pages ?n src1) * (?n + 1) + (?n - 0) < size (small_pages ?n src) * (?n + 1) + (?n - n_done)" by simp
      from less.hyps [OF this inv1 less.prems(2) nx] show ?thesis using True by simp
    next
      case no: False
      then have same: "xs = src nxt" "finished e cl1 (src nxt)" "fc_flushed cl1 = fc_flushed cl" using s(4) by simp_all
      have eq: "src1 = src" using same by (auto simp: src1_def)
      have kind: "fc_kind cl1 = fc_kind cl" "fc_requested cl1 = fc_requested cl"
        using s(1) less.prems(1) by (simp_all add: flushing_def)
      have fin: "finished e cl1 (src ((nx + ?n - 1 - k) mod ?n))" if k: "k < n_done + 1" for k
      proof (cases k)
        case 0
        have "(nx + ?n - 1) mod ?n = nxt" using less.prems(3) by (auto simp: nx_def)
        then show ?thesis using same(2) by (simp add: 0)
      next
        case (Suc j)
        have "(nx + ?n - 1 - Suc j) mod ?n = (nxt + ?n - 1 - j) mod ?n"
        proof (cases "nxt + 1 = ?n")
          case True
          then have "nxt + ?n - 1 - j = (?n - 1 - Suc j) + ?n" using Suc k \<open>n_done < ?n\<close> by linarith
          then have "(nxt + ?n - 1 - j) mod ?n = (?n - 1 - Suc j + ?n) mod ?n" by (simp only:)
          also have "\<dots> = (?n - 1 - Suc j) mod ?n" by simp
          finally show ?thesis using True by (simp add: nx_def)
        qed (simp add: nx_def)
        moreover have "finished e cl (src ((nxt + ?n - 1 - j) mod ?n))" using less.prems(5) Suc k by simp
        ultimately show ?thesis using finished_mono [of e cl _ cl1] kind same(3) Suc by simp
      qed
      have inv2: "flushing e cl0 M cl1 (N + small_pages ?n src) dst1" using inv1 by (simp add: eq)
      have "size (small_pages ?n src) * (?n + 1) + (?n - (n_done + 1)) < size (small_pages ?n src) * (?n + 1) + (?n - n_done)"
        using True by simp
      from less.hyps [OF this inv2 less.prems(2) nx] show ?thesis using no fin True unfolding eq by simp
    qed
    then show ?thesis unfolding step using s(3) sub by (meson order.trans)
  qed
qed

text \<open>The three kinds of lists one after the other.\<close>

lemma flush_lists:
  assumes "cache_ok e c" "0 < ce_numa_count e" "bytes.total (cache_pages e c) < 2 ^ 64" "fc_flushed cl0 = 0"
  obtains cl1 large dst1 cl2 medium dst2 cl3 small dst3 where
    "flush_list e cl0 (pc_large c) [] = (cl1, large, dst1)" "flush_list e cl1 (pc_medium c) dst1 = (cl2, medium, dst2)"
    "flush_per_numa e 0 0 cl2 (pc_small c) dst2 = Some (cl3, small, dst3)"
    "flushing e cl0 (cache_pages e c) cl3 (cache_pages e (c\<lparr>pc_small := small, pc_medium := medium, pc_large := large\<rparr>)) dst3"
    "cache_ok e (c\<lparr>pc_small := small, pc_medium := medium, pc_large := large\<rparr>)"
    "finished e cl3 large" "finished e cl3 medium" "\<forall>i < ce_numa_count e. finished e cl3 (small i)"
proof -
  let ?M = "cache_pages e c" and ?n = "ce_numa_count e"
  obtain cl1 large dst1 where l: "flush_list e cl0 (pc_large c) [] = (cl1, large, dst1)" by (metis prod_cases3)
  obtain cl2 medium dst2 where m: "flush_list e cl1 (pc_medium c) dst1 = (cl2, medium, dst2)" by (metis prod_cases3)
  have "flushing e cl0 ?M cl0 ((small_pages ?n (pc_small c) + mset (pc_medium c)) + mset (pc_large c)) []"
    using assms(4) by (simp add: flushing_def cache_pages_def)
  note a = flush_list_step [OF l this assms(3)]
  then have "flushing e cl0 ?M cl1 ((small_pages ?n (pc_small c) + mset large) + mset (pc_medium c)) dst1"
    by (simp add: ac_simps)
  note b = flush_list_step [OF m this assms(3)]
  then have inv: "flushing e cl0 ?M cl2 ((mset large + mset medium) + small_pages ?n (pc_small c)) dst2"
    by (simp add: ac_simps)
  obtain cl3 small dst3 where s: "flush_per_numa e 0 0 cl2 (pc_small c) dst2 = Some (cl3, small, dst3)"
    "flushing e cl0 ?M cl3 ((mset large + mset medium) + small_pages ?n small) dst3" "\<forall>i. set (small i) \<subseteq> set (pc_small c i)"
    "fc_flushed cl2 \<le> fc_flushed cl3" "\<forall>i < ?n. finished e cl3 (small i)"
    using flush_per_numa_step [OF inv assms(3,2), of 0] by auto
  let ?c = "c\<lparr>pc_small := small, pc_medium := medium, pc_large := large\<rparr>"
  have inv3: "flushing e cl0 ?M cl3 (cache_pages e ?c) dst3" using s(2) by (simp add: cache_pages_def ac_simps)
  have sub: "set large \<subseteq> set (pc_large c)" "set medium \<subseteq> set (pc_medium c)" using a b by blast+
  have ok: "cache_ok e ?c" using assms(1) s(3) sub unfolding cache_ok_def by simp blast
  have kinds: "fc_kind cl3 = fc_kind cl1" "fc_requested cl3 = fc_requested cl1" "fc_kind cl3 = fc_kind cl2" "fc_requested cl3 = fc_requested cl2"
    using a b s(2) by (simp_all add: flushing_def)
  have "fc_flushed cl1 \<le> fc_flushed cl3" using b s(4) by (meson order.trans)
  then have "finished e cl3 large" using a kinds by (auto intro: finished_mono)
  moreover have "finished e cl3 medium" using b kinds s(4) by (auto intro: finished_mono)
  ultimately show thesis using that l m s(1,5) inv3 ok by blast
qed

lemma total_butlast: "dst \<noteq> [] \<Longrightarrow> page_measure mu \<Longrightarrow>
  page_measure.total mu (mset dst) = page_measure.total mu (mset (butlast dst)) + mu (last dst)"
  by (cases dst rule: rev_cases) (simp_all add: page_measure.total_simps)

lemma granule_total: "(\<And>pg. pg \<in># M \<Longrightarrow> 2 ^ 21 dvd unat (page_size pg)) \<Longrightarrow> 2 ^ 21 dvd bytes.total M"
  by (induction M) (auto simp: page_bytes_def)

lemma cache_flush_spec:
  assumes "env_ok e" "cache_ok e c" "bytes.total (cache_pages e c) < 2 ^ 64" "fc_flushed cl0 = 0" "2 ^ 21 dvd unat (fc_requested cl0)"
  shows "\<exists>cl dst c'. cache_flush e cl0 [] c = Some (cl, dst, c') \<and> cache_ok e c'
    \<and> unat (fc_flushed cl) = bytes.total (mset dst) \<and> bytes.total (mset dst) \<le> unat (fc_requested cl0) \<and> fc_timeout cl \<le> fc_timeout cl0
    \<and> (\<forall>mu. page_measure mu \<longrightarrow>
         page_measure.total mu (cache_pages e c) = page_measure.total mu (mset dst) + page_measure.total mu (cache_pages e c'))
    \<and> (\<forall>pg \<in> set dst. page_ok (ce_params e) pg \<and> (\<exists>q \<in># cache_pages e c. expired e (fc_kind cl0) q
         \<and> page_start q \<le> page_start pg \<and> page_end pg \<le> page_end q))
    \<and> (bytes.total (mset dst) = unat (fc_requested cl0)
       \<or> (\<forall>xs. xs = pc_large c' \<or> xs = pc_medium c' \<or> (\<exists>i < ce_numa_count e. xs = pc_small c' i)
            \<longrightarrow> xs = [] \<or> \<not> expired e (fc_kind cl0) (last xs)))"
proof -
  have n: "0 < ce_numa_count e" using assms(1) by (metis env_ok_def gr0I not_less0)
  let ?M = "cache_pages e c"
  obtain cl1 large dst1 cl2 medium dst2 cl3 small dst where f:
    "flush_list e cl0 (pc_large c) [] = (cl1, large, dst1)" "flush_list e cl1 (pc_medium c) dst1 = (cl2, medium, dst2)"
    "flush_per_numa e 0 0 cl2 (pc_small c) dst2 = Some (cl3, small, dst)"
    "flushing e cl0 ?M cl3 (cache_pages e (c\<lparr>pc_small := small, pc_medium := medium, pc_large := large\<rparr>)) dst"
    "cache_ok e (c\<lparr>pc_small := small, pc_medium := medium, pc_large := large\<rparr>)"
    "finished e cl3 large" "finished e cl3 medium" "\<forall>i < ce_numa_count e. finished e cl3 (small i)"
    by (rule flush_lists [OF assms(2) n assms(3,4)])
  define c3 where "c3 = c\<lparr>pc_small := small, pc_medium := medium, pc_large := large\<rparr>"
  note inv = f(4) [folded c3_def] and ok = f(5) [folded c3_def]
  have M: "?M = cache_pages e c3 + mset dst" and fl: "unat (fc_flushed cl3) = bytes.total (mset dst)"
    and req: "fc_requested cl3 = fc_requested cl0" and kind: "fc_kind cl3 = fc_kind cl0" and tm: "fc_timeout cl3 \<le> fc_timeout cl0"
    and under: "dst \<noteq> [] \<Longrightarrow> bytes.total (mset (butlast dst)) < unat (fc_requested cl0)"
    and ex: "\<forall>pg \<in> set dst. expired e (fc_kind cl0) pg"
    using inv by (simp_all add: flushing_def)
  have pages: "page_ok (ce_params e) pg \<and> 2 ^ 21 dvd unat (page_size pg) \<and> pg \<in># ?M" if "pg \<in> set dst" for pg
    using that cache_ok_page [OF assms(2), of pg] M by (simp add: cached_ok_def)
  show ?thesis
  proof (cases "fc_flushed cl3 > fc_requested cl3")
    case False
    then have out: "cache_flush e cl0 [] c = Some (cl3, dst, c3)" using f(1-3) by (simp add: cache_flush_def c3_def Let_def)
    have le: "bytes.total (mset dst) \<le> unat (fc_requested cl0)" using False fl req by (simp add: word_le_nat_alt word_less_nat_alt)
    have ends: "xs = [] \<or> \<not> expired e (fc_kind cl0) (last xs)"
      if "bytes.total (mset dst) \<noteq> unat (fc_requested cl0)"
        "xs = pc_large c3 \<or> xs = pc_medium c3 \<or> (\<exists>i < ce_numa_count e. xs = pc_small c3 i)" for xs
    proof -
      have "finished e cl3 xs" using that(2) f(6-8) by (auto simp: c3_def)
      moreover have "\<not> fc_requested cl3 \<le> fc_flushed cl3" using that(1) le fl req by (simp add: word_le_nat_alt)
      ultimately show ?thesis by (simp add: finished_def kind)
    qed
    show ?thesis
      unfolding out using ok fl le tm M ex pages ends by (auto simp: page_measure.total_simps add.commute)
  next
    case True
    then have over: "unat (fc_requested cl0) < bytes.total (mset dst)" using fl req by (simp add: word_less_nat_alt)
    then have ne: "dst \<noteq> []" by auto
    define pg where "pg = last dst"
    have pg: "pg \<in> set dst" using ne by (simp add: pg_def)
    have split_total: "bytes.total (mset dst) = bytes.total (mset (butlast dst)) + page_bytes pg"
      unfolding pg_def by (rule total_butlast [OF ne bytes.page_measure_axioms])
    define o' where "o' = fc_flushed cl3 - fc_requested cl3"
    have uo: "unat o' = bytes.total (mset dst) - unat (fc_requested cl0)"
      using True fl req by (simp add: o'_def unat_sub)
    have lt: "unat o' < unat (page_size pg)" using uo split_total under [OF ne] over by (simp add: page_bytes_def)
    have "2 ^ 21 dvd bytes.total (mset dst)" by (rule granule_total) (use pages in auto)
    then have go: "2 ^ 21 dvd unat o'" unfolding uo using assms(5) by (rule dvd_diff_nat)
    have "o' < page_size pg" "0 < o'" using lt uo over by (simp_all add: word_less_nat_alt)
    note cut = granule_cut [OF go _ this]
    have cut: "unat o' + 8 \<le> unat (page_size pg)" "8 \<le> unat o'" "2 ^ 21 dvd unat (page_size pg) - unat o'"
      using cut pages [OF pg] by simp_all
    obtain re rest where sp: "page_split e o' pg = (re, rest)" by fastforce
    have P: "params_ok (ce_params e)" "page_ok (ce_params e) pg" using assms(1) pages [OF pg] by (simp_all add: env_ok_def)
    note s = page_split_ok [OF P type_fits [OF cut(2)] cut(1) sp [unfolded page_split_def page_split_to_def]]
    let ?c = "cache_free_page e re c3" and ?dst = "butlast dst @ [rest]"
    have out: "cache_flush e cl0 [] c = Some (cl3\<lparr>fc_flushed := fc_requested cl3\<rparr>, ?dst, ?c)"
      using f(1-3) True sp by (simp add: cache_flush_def c3_def Let_def o'_def pg_def)
    have re: "page_ok (ce_params e) re" "2 ^ 21 dvd unat (page_size re)" using s go by simp_all
    note fr = cache_free_adds [OF assms(1) ok re]
    have "unat (page_size rest) = unat (page_size pg) - unat o'" using s(2) by simp
    then have tot: "bytes.total (mset ?dst) = unat (fc_requested cl0)"
      using split_total uo over lt by (simp add: page_bytes_def)
    have meas: "page_measure.total mu ?M = page_measure.total mu (mset ?dst) + page_measure.total mu (cache_pages e ?c)"
      if "page_measure mu" for mu
      using total_butlast [OF ne that] page_measure.mu_page_split [OF that s(1)] M fr(1)
      by (simp add: page_measure.total_simps [OF that] pg_def)
    have inside: "page_ok (ce_params e) p \<and> (\<exists>q \<in># ?M. expired e (fc_kind cl0) q \<and> page_start q \<le> page_start p \<and> page_end p \<le> page_end q)"
      if "p \<in> set ?dst" for p
    proof (cases "p = rest")
      case True
      have "page_start pg \<le> page_start rest" using s(1) by (auto simp: page_ok_def)
      then show ?thesis using True s(1) pages [OF pg] ex pg by auto
    next
      case False
      then have "p \<in> set dst" using that by (auto dest: in_set_butlastD)
      then show ?thesis using pages ex by blast
    qed
    let ?cl = "cl3\<lparr>fc_flushed := fc_requested cl3\<rparr>"
    have "unat (fc_flushed ?cl) = bytes.total (mset ?dst)" "bytes.total (mset ?dst) \<le> unat (fc_requested cl0)"
      "fc_timeout ?cl \<le> fc_timeout cl0" using tot req tm by simp_all
    with out fr(2) meas inside tot show ?thesis by blast
  qed
qed

subsection \<open>Properties\<close>

text \<open>How many cached pages contain an address of the heap, and the cached bytes.\<close>

definition cache_cover :: "cache_env \<Rightarrow> z_page_cache \<Rightarrow> nat \<Rightarrow> nat" where
  "cache_cover e c x = (\<Sum>pg \<in># cache_pages e c. covers x pg)"

definition cache_bytes :: "cache_env \<Rightarrow> z_page_cache \<Rightarrow> nat" where
  "cache_bytes e c = (\<Sum>pg \<in># cache_pages e c. page_bytes pg)"

lemma cache_totals: "cache_cover e c x = cover.total x (cache_pages e c)" "cache_bytes e c = bytes.total (cache_pages e c)"
  "sum_list (map (covers x) ps) = cover.total x (mset ps)" "sum_list (map page_bytes ps) = bytes.total (mset ps)"
proof -
  show "sum_list (map (covers x) ps) = cover.total x (mset ps)" "sum_list (map page_bytes ps) = bytes.total (mset ps)"
    by (induction ps) simp_all
qed (simp_all add: cache_cover_def cache_bytes_def cover.total_def bytes.total_def)

text \<open>A cache with one page of 32 MB.\<close>

definition env_demo :: cache_env where
  "env_demo = \<lparr>ce_params = type_params_demo, ce_seqnum = (\<lambda>_. 1), ce_garbage = (\<lambda>_. False), ce_recycling = 0,
     ce_numa_count = 2, ce_memory_id = (\<lambda>a. if bit a 25 then 1 else 0), ce_uncommit_delay = 300\<rparr>"

definition medium_demo :: z_page where
  "medium_demo = page_new type_params_demo (\<lambda>_. False) 0 MediumPage \<lparr>vm_start = 0, vm_end = 0x2000000\<rparr>"

definition cache_demo :: z_page_cache where
  "cache_demo = cache_free_page env_demo medium_demo cache_new"

lemma medium_demo_facts: "pg_type medium_demo = MediumPage" "page_size medium_demo = 0x2000000" "pg_last_used medium_demo = 0"
  by (simp_all add: medium_demo_def page_new_def Let_def page_size_def)

lemma cache_demo_facts:
  "env_ok env_demo" "cache_ok env_demo cache_demo" "cache_pages env_demo cache_demo = {#medium_demo#}"
proof -
  have P: "params_ok type_params_demo"
    unfolding params_ok_def type_params_demo_def by (intro conjI exI [of _ 25]) simp_all
  then show e: "env_ok env_demo" by (simp add: env_ok_def env_demo_def)
  have "page_ok type_params_demo medium_demo"
    unfolding medium_demo_def by (rule page_new_ok [OF P]) (simp_all add: size_fits_def type_params_demo_def)
  then have ok: "page_ok (ce_params env_demo) medium_demo" by (simp add: env_demo_def)
  have "2 ^ 21 dvd unat (page_size medium_demo)" by (simp add: medium_demo_facts dvd_eq_mod_eq_0)
  note a = cache_free_adds [OF e cache_new_ok(1) ok this]
  show "cache_ok env_demo cache_demo" "cache_pages env_demo cache_demo = {#medium_demo#}"
    using a by (simp_all add: cache_demo_def cache_new_ok)
qed

text \<open>C1. Allocation from the page cache returns what was asked for: in a cache whose pages are well formed and lie
in the lists of their types, on any machine with NUMA nodes, the page is of the requested type and size and
well formed, and the cache stays well formed, whether the page was found, retyped or split off a larger one; and
the cache reports a miss, and is then unchanged, exactly when no cached page has the type and size, and no medium
or large page is large enough.\<close>

theorem cache_alloc_page_exact:
  assumes "env_ok e" "cache_ok e c" "node < ce_numa_count e" "size_fits (ce_params e) type sz" "2 ^ 21 dvd unat sz"
  shows "case cache_alloc_page e node type sz c of
      (Some new, c') \<Rightarrow> page_ok (ce_params e) new \<and> pg_type new = type \<and> page_size new = sz \<and> cache_ok e c'
        \<and> (\<exists>pg \<in># cache_pages e c. page_serves type sz pg)
    | (None, c') \<Rightarrow> c' = c \<and> (\<forall>pg \<in># cache_pages e c. \<not> page_serves type sz pg)"
  using alloc_page_spec [OF assms] by (auto split: prod.splits option.splits)

theorem cache_alloc_page_exact_witness:
  "case cache_alloc_page env_demo 0 SmallPage 0x200000 cache_demo of
      (Some new, c') \<Rightarrow> page_ok type_params_demo new \<and> pg_type new = SmallPage \<and> page_size new = 0x200000 \<and> cache_ok env_demo c'
    | (None, c') \<Rightarrow> False"
proof -
  have "page_serves SmallPage 0x200000 medium_demo" by (simp add: page_serves_def medium_demo_facts)
  moreover have "ce_params env_demo = type_params_demo" "0 < ce_numa_count env_demo" by (simp_all add: env_demo_def)
  moreover have "size_fits type_params_demo SmallPage 0x200000" "(2::nat) ^ 21 dvd unat (0x200000 :: u64)"
    by (simp_all add: size_fits_def ZPageSizeSmall_def ZPageSizeSmallShift_def dvd_eq_mod_eq_0)
  ultimately show ?thesis
    using cache_alloc_page_exact [OF cache_demo_facts(1,2), of 0 SmallPage "0x200000"]
    by (auto simp: cache_demo_facts(3) split: prod.splits option.splits)
qed

text \<open>C2. Allocation from the page cache neither loses nor duplicates memory: every address of the heap lies in
as many pages of the cache before as in the returned page and the cache after, so that the returned page shares
no address with the cache when the cached pages were disjoint, and what was split off stays cached; the bytes
add up too.\<close>

theorem cache_alloc_page_conserves:
  assumes "env_ok e" "cache_ok e c" "node < ce_numa_count e" "size_fits (ce_params e) type sz" "2 ^ 21 dvd unat sz"
    and "cache_alloc_page e node type sz c = (Some new, c')"
  shows "(\<forall>x. cache_cover e c x = covers x new + cache_cover e c' x) \<and> cache_bytes e c = unat sz + cache_bytes e c'"
  using alloc_page_spec [OF assms(1-5)] cover.page_measure_axioms bytes.page_measure_axioms
  unfolding assms(6) cache_totals by (auto simp: page_bytes_def)

theorem cache_alloc_page_conserves_witness:
  "\<exists>new c'. cache_alloc_page env_demo 0 SmallPage 0x200000 cache_demo = (Some new, c') \<and> cache_bytes env_demo c' = 0x1E00000"
proof -
  have pre: "0 < ce_numa_count env_demo" "size_fits (ce_params env_demo) SmallPage 0x200000" "(2::nat) ^ 21 dvd unat (0x200000 :: u64)"
    by (simp_all add: size_fits_def ZPageSizeSmall_def ZPageSizeSmallShift_def dvd_eq_mod_eq_0 env_demo_def)
  have "page_serves SmallPage 0x200000 medium_demo" by (simp add: page_serves_def medium_demo_facts)
  then obtain new c' where a: "cache_alloc_page env_demo 0 SmallPage 0x200000 cache_demo = (Some new, c')"
    using alloc_page_spec [OF cache_demo_facts(1,2) pre] by (auto simp: cache_demo_facts(3) split: prod.splits option.splits)
  from cache_alloc_page_conserves [OF cache_demo_facts(1,2) pre a]
  have "cache_bytes env_demo cache_demo = 0x200000 + cache_bytes env_demo c'" by simp
  moreover have "cache_bytes env_demo cache_demo = 0x2000000"
    by (simp add: cache_bytes_def cache_demo_facts(3) page_bytes_def medium_demo_facts)
  ultimately show ?thesis using a by simp
qed

text \<open>C3. Flushing for an allocation returns and takes out exactly the requested bytes, or the whole cache when it
holds less: the last page is split when it is larger than what is missing. Every address lies in as many pages of
the cache before as among the flushed pages and in the cache after; all pages stay well formed. The loop over the
NUMA nodes ends however many there are.\<close>

theorem flush_for_allocation_exact:
  assumes "env_ok e" "cache_ok e c" "cache_bytes e c < 2 ^ 64" "2 ^ 21 dvd unat requested"
  shows "\<exists>dst c'. flush_for_allocation e requested c = Some (dst, c')
    \<and> sum_list (map page_bytes dst) = min (unat requested) (cache_bytes e c)
    \<and> (\<forall>x. cache_cover e c x = sum_list (map (covers x) dst) + cache_cover e c' x)
    \<and> (\<forall>pg \<in> set dst. page_ok (ce_params e) pg) \<and> cache_ok e c'"
proof -
  let ?cl = "\<lparr>fc_kind = FlushForAllocation, fc_requested = requested, fc_flushed = 0, fc_timeout = 0\<rparr>"
  have "fc_flushed ?cl = 0" "2 ^ 21 dvd unat (fc_requested ?cl)" using assms(4) by simp_all
  from cache_flush_spec [OF assms(1,2) assms(3) [unfolded cache_totals] this]
  obtain cl dst c' where f: "cache_flush e ?cl [] c = Some (cl, dst, c')" "cache_ok e c'"
    "bytes.total (mset dst) \<le> unat requested"
    "\<forall>mu. page_measure mu \<longrightarrow>
         page_measure.total mu (cache_pages e c) = page_measure.total mu (mset dst) + page_measure.total mu (cache_pages e c')"
    "\<forall>pg \<in> set dst. page_ok (ce_params e) pg"
    "bytes.total (mset dst) = unat requested
       \<or> (\<forall>xs. xs = pc_large c' \<or> xs = pc_medium c' \<or> (\<exists>i < ce_numa_count e. xs = pc_small c' i) \<longrightarrow> xs = [])"
    by (auto simp: expired_def)
  have out: "flush_for_allocation e requested c = Some (dst, c')" using f(1) by (simp add: flush_for_allocation_def)
  have sum: "bytes.total (cache_pages e c) = bytes.total (mset dst) + bytes.total (cache_pages e c')"
    using f(4) bytes.page_measure_axioms by blast
  have "cache_pages e c' = {#}" if "bytes.total (mset dst) \<noteq> unat requested"
  proof -
    have "pc_large c' = []" "pc_medium c' = []" "\<forall>i < ce_numa_count e. pc_small c' i = []" using that f(6) by blast+
    then show ?thesis by (simp add: cache_pages_def)
  qed
  then have "bytes.total (mset dst) = min (unat requested) (bytes.total (cache_pages e c))"
    using sum f(3) by (cases "bytes.total (mset dst) = unat requested") auto
  then show ?thesis
    unfolding out cache_totals using f(2,4,5) cover.page_measure_axioms by blast
qed

theorem flush_for_allocation_exact_witness:
  "\<exists>dst c'. flush_for_allocation env_demo 0x600000 cache_demo = Some (dst, c') \<and> sum_list (map page_bytes dst) = 0x600000"
proof -
  have b: "cache_bytes env_demo cache_demo = 0x2000000"
    by (simp add: cache_bytes_def cache_demo_facts(3) page_bytes_def medium_demo_facts)
  have "(2::nat) ^ 21 dvd unat (0x600000 :: u64)" by (simp add: dvd_eq_mod_eq_0)
  from flush_for_allocation_exact [OF cache_demo_facts(1,2) _ this] b show ?thesis by auto
qed

text \<open>C4. Flushing for uncommit only takes out memory that has expired, and never more than requested: the call
returns; nothing is flushed while the delay since the last commit has not passed; each flushed page lies inside a
cached page that was last used at least the uncommit delay ago; the reported amount is the size of the flushed
pages and at most the requested one; every address lies in as many pages before as after; and the time to the next
attempt is at most the uncommit delay.\<close>

theorem flush_for_uncommit_expired:
  assumes "env_ok e" "cache_ok e c" "cache_bytes e c < 2 ^ 64" "2 ^ 21 dvd unat requested"
  shows "\<exists>flushed dst timeout c'. flush_for_uncommit e now requested c = Some (flushed, dst, timeout, c')
    \<and> unat flushed = sum_list (map page_bytes dst) \<and> flushed \<le> requested
    \<and> (\<forall>x. cache_cover e c x = sum_list (map (covers x) dst) + cache_cover e c' x) \<and> cache_ok e c'
    \<and> (pc_last_commit c + ce_uncommit_delay e > now \<longrightarrow> dst = [] \<and> c' = c)
    \<and> (\<forall>pg \<in> set dst. \<exists>q \<in># cache_pages e c. pg_last_used q + ce_uncommit_delay e \<le> now
         \<and> page_start q \<le> page_start pg \<and> page_end pg \<le> page_end q)
    \<and> (pc_last_commit c \<le> now \<longrightarrow> timeout \<le> ce_uncommit_delay e)"
proof (cases "pc_last_commit c + ce_uncommit_delay e > now \<or> requested = 0")
  case True
  have "pc_last_commit c + ce_uncommit_delay e - now \<le> ce_uncommit_delay e"
    if "pc_last_commit c \<le> now" "now < pc_last_commit c + ce_uncommit_delay e"
  proof -
    have "unat (pc_last_commit c + ce_uncommit_delay e) \<le> unat (pc_last_commit c) + unat (ce_uncommit_delay e)"
      by (simp add: unat_word_ariths)
    then show ?thesis using that by (simp add: word_le_nat_alt word_less_nat_alt unat_sub)
  qed
  with True show ?thesis using assms(2) by (auto simp: flush_for_uncommit_def Let_def cache_totals)
next
  case False
  let ?cl = "\<lparr>fc_kind = FlushForUncommit now, fc_requested = requested, fc_flushed = 0, fc_timeout = ce_uncommit_delay e\<rparr>"
  have "fc_flushed ?cl = 0" "2 ^ 21 dvd unat (fc_requested ?cl)" using assms(4) by simp_all
  from cache_flush_spec [OF assms(1,2) assms(3) [unfolded cache_totals] this]
  obtain cl dst c' where f: "cache_flush e ?cl [] c = Some (cl, dst, c')" "cache_ok e c'"
    "unat (fc_flushed cl) = bytes.total (mset dst)" "bytes.total (mset dst) \<le> unat requested" "fc_timeout cl \<le> ce_uncommit_delay e"
    "\<forall>mu. page_measure mu \<longrightarrow>
         page_measure.total mu (cache_pages e c) = page_measure.total mu (mset dst) + page_measure.total mu (cache_pages e c')"
    "\<forall>pg \<in> set dst. \<exists>q \<in># cache_pages e c. pg_last_used q + ce_uncommit_delay e \<le> now
         \<and> page_start q \<le> page_start pg \<and> page_end pg \<le> page_end q"
    by (auto simp: expired_def)
  have out: "flush_for_uncommit e now requested c = Some (fc_flushed cl, dst, fc_timeout cl, c')"
    using False f(1) by (simp add: flush_for_uncommit_def Let_def)
  have "fc_flushed cl \<le> requested" using f(3,4) by (simp add: word_le_nat_alt)
  moreover have "\<forall>x. cover.total x (cache_pages e c) = cover.total x (mset dst) + cover.total x (cache_pages e c')"
    using f(6) cover.page_measure_axioms by blast
  ultimately show ?thesis unfolding out cache_totals using f False by auto
qed

theorem flush_for_uncommit_expired_witness:
  "\<exists>flushed dst timeout c'. flush_for_uncommit env_demo 1000 0x600000 cache_demo = Some (flushed, dst, timeout, c')
    \<and> cache_ok env_demo c' \<and> flushed \<le> 0x600000"
proof -
  have b: "cache_bytes env_demo cache_demo = 0x2000000"
    by (simp add: cache_bytes_def cache_demo_facts(3) page_bytes_def medium_demo_facts)
  have "(2::nat) ^ 21 dvd unat (0x600000 :: u64)" by (simp add: dvd_eq_mod_eq_0)
  from flush_for_uncommit_expired [OF cache_demo_facts(1,2) _ this, of 1000] b show ?thesis by auto
qed

end
