(* ===== verification/Z_NMethod_Table.thy ===== *)
theory Z_NMethod_Table
  imports Z_Forwarding_Table
begin

text \<open>
  The table of compiled methods, \<open>zNMethodTable.cpp\<close> with the entries of \<open>zNMethodTableEntry.hpp\<close>, the
  iteration of \<open>zNMethodTableIteration.cpp\<close> and the deferred deletion of old tables of
  \<open>zSafeDelete.inline.hpp\<close> and \<open>zArray.inline.hpp\<close>. A table is the list of its 64-bit entries, of a power of
  two length, searched by linear probing; removed entries stay behind as markers until the table is
  rebuilt. Tables have numbers, so that a table that is iterated over can be told from its successor. The
  probing loops need not end on a full table, so they are partial functions. The thresholds are
  written with the exact values of the floating-point constants 0.30, 0.65 and 0.70; the products are exact
  because sizes are powers of two. The code cache lock serialises all operations but \<open>nmethods_do\<close>.
\<close>

subsection \<open>Entries\<close>

definition field_registered :: bit_field where
  "field_registered = \<lparr>FieldShift = 0, FieldBits = 1, ValueShift = 0\<rparr>"

definition field_unregistered :: bit_field where
  "field_unregistered = \<lparr>FieldShift = 1, FieldBits = 1, ValueShift = 0\<rparr>"

definition field_method :: bit_field where
  "field_method = \<lparr>FieldShift = 2, FieldBits = 62, ValueShift = 2\<rparr>"

lemmas nm_field_defs = field_registered_def field_unregistered_def field_method_def

definition nm_entry_blank :: "bool \<Rightarrow> u64" where
  "nm_entry_blank unregistered =
     bf_encode field_registered (of_bool False) OR bf_encode field_unregistered (of_bool unregistered) OR
     bf_encode field_method 0"

definition nm_entry :: "u64 \<Rightarrow> u64" where
  "nm_entry nm =
     bf_encode field_registered (of_bool True) OR bf_encode field_unregistered (of_bool False) OR
     bf_encode field_method nm"

definition nm_registered :: "u64 \<Rightarrow> bool" where
  "nm_registered e = bf_flag field_registered e"

definition nm_unregistered :: "u64 \<Rightarrow> bool" where
  "nm_unregistered e = bf_flag field_unregistered e"

definition nm_method :: "u64 \<Rightarrow> u64" where
  "nm_method e = bf_decode field_method e"

subsection \<open>Linear probing\<close>

definition address_to_uint32 :: "u64 \<Rightarrow> u32" where
  "address_to_uint32 key = uint32_to_uint32 (ucast (drop_bit 3 key))"

definition nm_first_index :: "u64 \<Rightarrow> nat \<Rightarrow> nat" where
  "nm_first_index nm sz = unat (address_to_uint32 nm) AND (sz - 1)"

definition nm_next_index :: "nat \<Rightarrow> nat \<Rightarrow> nat" where
  "nm_next_index prev_index sz = (prev_index + 1) AND (sz - 1)"

partial_function (option) nm_register_loop :: "u64 list \<Rightarrow> u64 \<Rightarrow> nat \<Rightarrow> (bool \<times> u64 list) option" where
  "nm_register_loop t nm index =
     (if \<not> nm_registered (t ! index) \<and> \<not> nm_unregistered (t ! index) then Some (True, t[index := nm_entry nm])
      else if nm_registered (t ! index) \<and> nm_method (t ! index) = nm then Some (False, t[index := nm_entry nm])
      else nm_register_loop t nm (nm_next_index index (length t)))"

definition nm_register_entry :: "u64 list \<Rightarrow> u64 \<Rightarrow> (bool \<times> u64 list) option" where
  "nm_register_entry t nm = nm_register_loop t nm (nm_first_index nm (length t))"

partial_function (option) nm_unregister_loop :: "u64 list \<Rightarrow> u64 \<Rightarrow> nat \<Rightarrow> u64 list option" where
  "nm_unregister_loop t nm index =
     (if nm_registered (t ! index) \<and> nm_method (t ! index) = nm then Some (t[index := nm_entry_blank True])
      else nm_unregister_loop t nm (nm_next_index index (length t)))"

definition nm_unregister_entry :: "u64 list \<Rightarrow> u64 \<Rightarrow> u64 list option" where
  "nm_unregister_entry t nm = nm_unregister_loop t nm (nm_first_index nm (length t))"

subsection \<open>Iterations, deferred deletion and the table\<close>

record nm_iteration =
  it_table :: "nat option"
  it_size :: nat
  it_claimed :: nat

record nm_table =
  nt_heap :: "nat \<Rightarrow> u64 list option"
  nt_fresh :: nat
  nt_table :: "nat option"
  nt_size :: nat
  nt_nregistered :: nat
  nt_nunregistered :: nat
  nt_iteration :: nm_iteration
  nt_iteration_secondary :: nm_iteration
  nt_deferred_count :: nat
  nt_deferred :: "nat list"

definition iteration_new :: nm_iteration where
  "iteration_new = \<lparr>it_table = None, it_size = 0, it_claimed = 0\<rparr>"

definition nm_table_new :: nm_table where
  "nm_table_new = \<lparr>nt_heap = (\<lambda>_. None), nt_fresh = 0, nt_table = None, nt_size = 0, nt_nregistered = 0, nt_nunregistered = 0,
     nt_iteration = iteration_new, nt_iteration_secondary = iteration_new, nt_deferred_count = 0, nt_deferred = []\<rparr>"

definition it_in_progress :: "nm_iteration \<Rightarrow> bool" where
  "it_in_progress it \<longleftrightarrow> it_table it \<noteq> None"

definition immediate_delete :: "nat option \<Rightarrow> nm_table \<Rightarrow> nm_table" where
  "immediate_delete item s = (case item of None \<Rightarrow> s | Some i \<Rightarrow> s\<lparr>nt_heap := (nt_heap s)(i := None)\<rparr>)"

definition enable_deferred_delete :: "nm_table \<Rightarrow> nm_table" where
  "enable_deferred_delete s = s\<lparr>nt_deferred_count := nt_deferred_count s + 1\<rparr>"

definition disable_deferred_delete :: "nm_table \<Rightarrow> nm_table" where
  "disable_deferred_delete s =
     (let s = s\<lparr>nt_deferred_count := nt_deferred_count s - 1\<rparr>
      in if nt_deferred_count s = 0
         then fold (\<lambda>i s. immediate_delete (Some i) s) (nt_deferred s) (s\<lparr>nt_deferred := []\<rparr>)
         else s)"

definition schedule_delete :: "nat option \<Rightarrow> nm_table \<Rightarrow> nm_table" where
  "schedule_delete item s =
     (if nt_deferred_count s > 0
      then case item of None \<Rightarrow> s | Some i \<Rightarrow> s\<lparr>nt_deferred := nt_deferred s @ [i]\<rparr>
      else immediate_delete item s)"

fun nm_transfer :: "u64 list \<Rightarrow> u64 list \<Rightarrow> u64 list option" where
  "nm_transfer [] new = Some new"
| "nm_transfer (entry # es) new =
     (if nm_registered entry
      then case nm_register_entry new (nm_method entry) of None \<Rightarrow> None | Some (_, new) \<Rightarrow> nm_transfer es new
      else nm_transfer es new)"

definition nm_current :: "nm_table \<Rightarrow> u64 list" where
  "nm_current s = (case nt_table s of None \<Rightarrow> [] | Some i \<Rightarrow> (case nt_heap s i of None \<Rightarrow> [] | Some t \<Rightarrow> t))"

definition nm_rebuild :: "nat \<Rightarrow> nm_table \<Rightarrow> nm_table option" where
  "nm_rebuild new_size s =
     (case nm_transfer (take (nt_size s) (nm_current s)) (replicate new_size (nm_entry_blank False)) of
        None \<Rightarrow> None
      | Some new_table \<Rightarrow>
          let new_id = nt_fresh s;
              s = s\<lparr>nt_heap := (nt_heap s)(new_id \<mapsto> new_table), nt_fresh := new_id + 1\<rparr>;
              s = schedule_delete (nt_table s) s
          in Some (s\<lparr>nt_table := Some new_id, nt_size := new_size, nt_nunregistered := 0\<rparr>))"

definition shrink_threshold :: "nat \<Rightarrow> nat" where
  "shrink_threshold sz = sz * 5404319552844595 div 2 ^ 54"

definition prune_threshold :: "nat \<Rightarrow> nat" where
  "prune_threshold sz = sz * 5854679515581645 div 2 ^ 53"

definition grow_threshold :: "nat \<Rightarrow> nat" where
  "grow_threshold sz = sz * 3152519739159347 div 2 ^ 52"

definition nm_min_size :: nat where
  "nm_min_size = 1024"

definition nm_rebuild_if_needed :: "nm_table \<Rightarrow> nm_table option" where
  "nm_rebuild_if_needed s =
     (if nt_size s = 0 then nm_rebuild nm_min_size s
      else if nt_nregistered s < shrink_threshold (nt_size s) \<and> nt_size s > nm_min_size then nm_rebuild (nt_size s div 2) s
      else if nt_nregistered s + nt_nunregistered s > grow_threshold (nt_size s) then
        if nt_nregistered s < prune_threshold (nt_size s) then nm_rebuild (nt_size s) s else nm_rebuild (nt_size s * 2) s
      else Some s)"

definition nm_store :: "u64 list \<Rightarrow> nm_table \<Rightarrow> nm_table" where
  "nm_store t s = (case nt_table s of None \<Rightarrow> s | Some i \<Rightarrow> s\<lparr>nt_heap := (nt_heap s)(i \<mapsto> t)\<rparr>)"

definition register_nmethod :: "u64 \<Rightarrow> nm_table \<Rightarrow> nm_table option" where
  "register_nmethod nm s =
     (case nm_rebuild_if_needed s of
        None \<Rightarrow> None
      | Some s \<Rightarrow>
          (case nm_register_entry (nm_current s) nm of
             None \<Rightarrow> None
           | Some (added, t) \<Rightarrow>
               let s = nm_store t s in Some (if added then s\<lparr>nt_nregistered := nt_nregistered s + 1\<rparr> else s)))"

definition unregister_nmethod :: "u64 \<Rightarrow> nm_table \<Rightarrow> nm_table option" where
  "unregister_nmethod nm s =
     (case nm_unregister_entry (nm_current s) nm of
        None \<Rightarrow> None
      | Some t \<Rightarrow>
          let s = nm_store t s
          in Some (s\<lparr>nt_nunregistered := nt_nunregistered s + 1, nt_nregistered := nt_nregistered s - 1\<rparr>))"

definition iteration_of :: "bool \<Rightarrow> nm_table \<Rightarrow> nm_iteration" where
  "iteration_of secondary s = (if secondary then nt_iteration_secondary s else nt_iteration s)"

definition set_iteration :: "bool \<Rightarrow> nm_iteration \<Rightarrow> nm_table \<Rightarrow> nm_table" where
  "set_iteration secondary it s = (if secondary then s\<lparr>nt_iteration_secondary := it\<rparr> else s\<lparr>nt_iteration := it\<rparr>)"

definition nmethods_do_begin :: "bool \<Rightarrow> nm_table \<Rightarrow> nm_table" where
  "nmethods_do_begin secondary s =
     (let s = enable_deferred_delete s
      in set_iteration secondary \<lparr>it_table = nt_table s, it_size = nt_size s, it_claimed = 0\<rparr> s)"

definition nmethods_do_end :: "bool \<Rightarrow> nm_table \<Rightarrow> nm_table" where
  "nmethods_do_end secondary s =
     disable_deferred_delete (set_iteration secondary ((iteration_of secondary s)\<lparr>it_table := None\<rparr>) s)"

definition can_stop_waiting :: "nm_table \<Rightarrow> bool" where
  "can_stop_waiting s \<longleftrightarrow> \<not> (it_in_progress (nt_iteration s) \<or> it_in_progress (nt_iteration_secondary s))"

text \<open>Claiming a part of the table: the first index and the one after the last.\<close>

definition partition_size :: "nat \<Rightarrow> nat" where
  "partition_size cache_line_size = cache_line_size * 2 div 8"

definition nm_claim :: "nat \<Rightarrow> nm_iteration \<Rightarrow> (nat \<times> nat) \<times> nm_iteration" where
  "nm_claim cls it =
     (let partition_start = min (it_claimed it) (it_size it);
          partition_end = min (partition_start + partition_size cls) (it_size it)
      in ((partition_start, partition_end), it\<lparr>it_claimed := it_claimed it + partition_size cls\<rparr>))"

subsection \<open>Facts on entries\<close>

definition nm_aligned :: "u64 \<Rightarrow> bool" where
  "nm_aligned nm \<longleftrightarrow> bf_value_ok field_method nm"

lemma nm_layout: "bf_layout_ok field_registered" "bf_layout_ok field_unregistered" "bf_layout_ok field_method"
  "bf_disjoint field_registered field_unregistered" "bf_disjoint field_unregistered field_registered"
  "bf_disjoint field_registered field_method" "bf_disjoint field_method field_registered"
  "bf_disjoint field_unregistered field_method" "bf_disjoint field_method field_unregistered"
  by (simp_all add: nm_field_defs bf_layout_ok_def bf_disjoint_def)

lemma nm_flags_ok: "bf_value_ok field_registered (of_bool b)" "bf_value_ok field_unregistered (of_bool b)"
  by (rule bf_value_ok_of_bool; simp add: nm_field_defs)+

lemma nm_entry_blank_read [simp]:
  "\<not> nm_registered (nm_entry_blank u)" "nm_unregistered (nm_entry_blank u) \<longleftrightarrow> u"
  unfolding nm_registered_def nm_unregistered_def nm_entry_blank_def bf_flag_or
  using nm_flags_ok by (simp_all only: bf_flag_encode bf_flag_encode_other nm_layout bf_value_ok_0) (simp_all add: of_bool_def)

lemma nm_entry_read [simp]:
  assumes "nm_aligned nm"
  shows "nm_registered (nm_entry nm)" "\<not> nm_unregistered (nm_entry nm)" "nm_method (nm_entry nm) = nm"
proof -
  note ok = assms [unfolded nm_aligned_def] nm_flags_ok [of True] nm_flags_ok [of False]
  show "nm_registered (nm_entry nm)" "\<not> nm_unregistered (nm_entry nm)"
    unfolding nm_registered_def nm_unregistered_def nm_entry_def bf_flag_or
    using ok by (simp_all only: bf_flag_encode bf_flag_encode_other nm_layout) (simp_all add: of_bool_def)
  show "nm_method (nm_entry nm) = nm"
    unfolding nm_method_def nm_entry_def bf_decode_or
    using ok by (simp only: bf_decode_encode bf_decode_encode_other nm_layout) simp
qed

subsection \<open>Probe sequences\<close>

definition nm_path :: "nat \<Rightarrow> u64 \<Rightarrow> nat \<Rightarrow> nat" where
  "nm_path n nm j = (unat (address_to_uint32 nm) + j) mod n"

definition nm_used :: "u64 \<Rightarrow> bool" where
  "nm_used e \<longleftrightarrow> nm_registered e \<or> nm_unregistered e"

definition nm_holds :: "u64 \<Rightarrow> u64 \<Rightarrow> bool" where
  "nm_holds nm e \<longleftrightarrow> nm_registered e \<and> nm_method e = nm"

definition nm_passed :: "u64 list \<Rightarrow> u64 \<Rightarrow> nat \<Rightarrow> bool" where
  "nm_passed t nm j \<longleftrightarrow> (\<forall>l < j. nm_used (t ! nm_path (length t) nm l) \<and> \<not> nm_holds nm (t ! nm_path (length t) nm l))"

text \<open>Every registered method is reached by probing from its hash, past used entries that hold other methods.\<close>

definition tbl_ok :: "u64 list \<Rightarrow> bool" where
  "tbl_ok t \<longleftrightarrow> (\<exists>k. length t = 2 ^ k)
     \<and> (\<forall>i < length t. \<not> (nm_registered (t ! i) \<and> nm_unregistered (t ! i)))
     \<and> (\<forall>i < length t. nm_registered (t ! i) \<longrightarrow> nm_aligned (nm_method (t ! i))
          \<and> (\<exists>j < length t. i = nm_path (length t) (nm_method (t ! i)) j \<and> nm_passed t (nm_method (t ! i)) j))"

definition nm_set :: "u64 list \<Rightarrow> u64 set" where
  "nm_set t = {nm. \<exists>i < length t. nm_holds nm (t ! i)}"

definition nreg :: "u64 list \<Rightarrow> nat" where
  "nreg t = length (filter nm_registered t)"

definition nunreg :: "u64 list \<Rightarrow> nat" where
  "nunreg t = length (filter nm_unregistered t)"

lemma and_pow2: "n = 2 ^ k \<Longrightarrow> x AND (n - 1) = x mod (n :: nat)"
  by (metis mask_eq_exp_minus_1 take_bit_eq_mask take_bit_eq_mod)

lemma nm_path_index:
  assumes "length t = 2 ^ k"
  shows "nm_first_index nm (length t) = nm_path (length t) nm 0"
    "nm_next_index (nm_path (length t) nm j) (length t) = nm_path (length t) nm (Suc j)"
  by (simp_all add: nm_first_index_def nm_next_index_def nm_path_def and_pow2 [OF assms] mod_Suc_eq del: One_nat_def)
    (simp add: mod_simps)

lemma nm_path_less: "0 < n \<Longrightarrow> nm_path n nm j < n"
  by (simp add: nm_path_def)

lemma nm_path_surj:
  assumes "i < n"
  obtains j where "j < n" "i = nm_path n nm j"
proof
  let ?h = "unat (address_to_uint32 nm)"
  have h: "?h mod n < n" using assms by simp
  have n: "0 < n" using assms by simp
  show "(i + (n - ?h mod n)) mod n < n" using n by simp
  have "(?h + (i + (n - ?h mod n)) mod n) mod n = (?h mod n + (i + (n - ?h mod n))) mod n" by (simp only: mod_simps)
  also have "?h mod n + (i + (n - ?h mod n)) = i + n" using h by linarith
  also have "(i + n) mod n = i" using assms by simp
  finally show "i = nm_path n nm ((i + (n - ?h mod n)) mod n)" by (simp add: nm_path_def)
qed

lemma nm_passed_update:
  assumes "nm_passed t nm j" "nm_used e" "\<not> nm_holds nm e"
  shows "nm_passed (t[c := e]) nm j"
proof -
  have "nm_used (t[c := e] ! i) \<and> \<not> nm_holds nm (t[c := e] ! i)" if "nm_used (t ! i) \<and> \<not> nm_holds nm (t ! i)" for i
    using that assms(2,3) by (cases "c < length t"; cases "i = c") (simp_all add: list_update_beyond)
  then show ?thesis using assms(1) unfolding nm_passed_def by simp
qed

lemma nm_passed_update_empty:
  assumes "nm_passed t nm j" "\<not> nm_used (t ! c)"
  shows "nm_passed (t[c := e]) nm j"
  using assms unfolding nm_passed_def by (metis length_list_update nth_list_update_neq)

lemma tbl_path:
  assumes "tbl_ok t" "i < length t" "nm_holds nm (t ! i)"
  shows "nm_aligned nm" "\<exists>j < length t. i = nm_path (length t) nm j \<and> nm_passed t nm j"
  using assms by (simp_all add: tbl_ok_def nm_holds_def) (metis, metis)

lemma same_path:
  assumes "i < length t" "j < length t" "nm_holds nm (t ! i)" "nm_holds nm (t ! j)" "tbl_ok t"
  shows "i = j"
proof -
  obtain a b where ab: "i = nm_path (length t) nm a" "nm_passed t nm a" "j = nm_path (length t) nm b" "nm_passed t nm b"
    using tbl_path(2) [OF assms(5,1,3)] tbl_path(2) [OF assms(5,2,4)] by blast
  have "\<not> a < b" "\<not> b < a" using ab assms(3,4) by (auto simp: nm_passed_def)
  then show ?thesis using ab by simp
qed

lemma filter_update:
  "i < length t \<Longrightarrow> length (filter P (t[i := x])) + (if P (t ! i) then 1 else 0) = length (filter P t) + (if P x then 1 else 0)"
proof (induction t arbitrary: i)
  case (Cons y t)
  then show ?case by (cases i) auto
qed simp

lemma nreg_card:
  assumes "tbl_ok t"
  shows "nreg t = card (nm_set t)"
proof -
  let ?I = "{i. i < length t \<and> nm_registered (t ! i)}"
  have "nm_set t = (\<lambda>i. nm_method (t ! i)) ` ?I" by (auto simp: nm_set_def nm_holds_def)
  moreover have "inj_on (\<lambda>i. nm_method (t ! i)) ?I"
    by (rule inj_onI) (auto intro: same_path [OF _ _ _ _ assms] simp: nm_holds_def)
  ultimately show ?thesis by (simp add: card_image nreg_def length_filter_conv_card)
qed

lemma used_count: "\<forall>i < length t. \<not> (nm_registered (t ! i) \<and> nm_unregistered (t ! i)) \<Longrightarrow>
  length (filter nm_used t) = nreg t + nunreg t"
proof (induction t)
  case (Cons e t)
  have "\<not> (nm_registered e \<and> nm_unregistered e)" using Cons.prems by (auto dest: spec [of _ 0])
  moreover have "\<forall>i < length t. \<not> (nm_registered (t ! i) \<and> nm_unregistered (t ! i))" using Cons.prems by auto
  ultimately show ?case using Cons.IH by (auto simp: nm_used_def nreg_def nunreg_def)
qed (simp add: nreg_def nunreg_def)

lemma empty_exists:
  assumes "tbl_ok t" "nreg t + nunreg t < length t"
  obtains i where "i < length t" "\<not> nm_used (t ! i)"
proof -
  have "length (filter nm_used t) < length t" using assms used_count [of t] by (simp add: tbl_ok_def)
  then have "\<exists>e \<in> set t. \<not> nm_used e" by (metis length_filter_less length_filter_conv_card filter_True less_irrefl)
  then show thesis using that by (metis in_set_conv_nth)
qed

text \<open>Where probing stops: the first entry on the path that is empty or holds the method.\<close>

lemma first_stop:
  assumes "i < length t" "\<not> nm_used (t ! i) \<or> nm_holds nm (t ! i)"
  obtains j where "j < length t" "nm_passed t nm j"
    "\<not> nm_used (t ! nm_path (length t) nm j) \<or> nm_holds nm (t ! nm_path (length t) nm j)"
proof -
  obtain a where a: "a < length t" "i = nm_path (length t) nm a" by (rule nm_path_surj [OF assms(1)])
  let ?S = "\<lambda>j. \<not> nm_used (t ! nm_path (length t) nm j) \<or> nm_holds nm (t ! nm_path (length t) nm j)"
  define j where "j = (LEAST j. ?S j)"
  have S: "?S a" using assms(2) a by simp
  have "?S j" unfolding j_def by (rule LeastI [of ?S, OF S])
  moreover have "j \<le> a" unfolding j_def by (rule Least_le [of ?S, OF S])
  moreover have "\<not> ?S l" if "l < j" for l using that unfolding j_def by (rule not_less_Least)
  ultimately show thesis using that a(1) unfolding nm_passed_def by (meson le_less_trans)
qed

lemma register_loop_stop:
  assumes "length t = 2 ^ k" "nm_passed t nm j"
    "\<not> nm_used (t ! nm_path (length t) nm j) \<or> nm_holds nm (t ! nm_path (length t) nm j)"
  shows "nm_register_entry t nm = Some (\<not> nm_used (t ! nm_path (length t) nm j), t[nm_path (length t) nm j := nm_entry nm])"
proof -
  let ?p = "nm_path (length t) nm"
  have "nm_register_loop t nm (?p l) = Some (\<not> nm_used (t ! ?p j), t[?p j := nm_entry nm])" if "l \<le> j" for l
    using that
  proof (induction "j - l" arbitrary: l)
    case 0
    then have "l = j" by simp
    then show ?case using assms(3) by (subst nm_register_loop.simps) (auto simp: nm_used_def nm_holds_def)
  next
    case (Suc d)
    then have "l < j" by simp
    then have "nm_used (t ! ?p l)" "\<not> nm_holds nm (t ! ?p l)" using assms(2) by (auto simp: nm_passed_def)
    moreover have "nm_register_loop t nm (?p (Suc l)) = Some (\<not> nm_used (t ! ?p j), t[?p j := nm_entry nm])"
      using Suc by simp
    ultimately show ?case
      by (subst nm_register_loop.simps) (auto simp: nm_used_def nm_holds_def nm_path_index(2) [OF assms(1)])
  qed
  then show ?thesis by (simp add: nm_register_entry_def nm_path_index(1) [OF assms(1)])
qed

lemma unregister_loop_stop:
  assumes "length t = 2 ^ k" "nm_passed t nm j" "nm_holds nm (t ! nm_path (length t) nm j)"
  shows "nm_unregister_entry t nm = Some (t[nm_path (length t) nm j := nm_entry_blank True])"
proof -
  let ?p = "nm_path (length t) nm"
  have "nm_unregister_loop t nm (?p l) = Some (t[?p j := nm_entry_blank True])" if "l \<le> j" for l
    using that
  proof (induction "j - l" arbitrary: l)
    case 0
    then have "l = j" by simp
    then show ?case using assms(3) by (subst nm_unregister_loop.simps) (auto simp: nm_holds_def)
  next
    case (Suc d)
    then have "l < j" by simp
    then have "\<not> nm_holds nm (t ! ?p l)" using assms(2) by (auto simp: nm_passed_def)
    moreover have "nm_unregister_loop t nm (?p (Suc l)) = Some (t[?p j := nm_entry_blank True])" using Suc by simp
    ultimately show ?case
      by (subst nm_unregister_loop.simps) (auto simp: nm_holds_def nm_path_index(2) [OF assms(1)])
  qed
  then show ?thesis by (simp add: nm_unregister_entry_def nm_path_index(1) [OF assms(1)])
qed

lemma nm_set_update:
  assumes "c < length t" "\<forall>nm. nm_holds nm (t ! c) \<longrightarrow> nm = m" "tbl_ok t" "nm_holds m e \<or> \<not> nm_registered e"
    "\<forall>nm. nm_holds nm e \<longrightarrow> nm = m" "nm_holds m (t ! c) \<or> m \<notin> nm_set t"
  shows "nm_set (t[c := e]) = (if nm_registered e then insert m (nm_set t) else nm_set t - {m})"
proof (rule set_eqI)
  fix nm
  have at: "nm \<in> nm_set (t[c := e]) \<longleftrightarrow> nm_holds nm e \<or> (\<exists>i < length t. i \<noteq> c \<and> nm_holds nm (t ! i))"
    unfolding nm_set_def using assms(1) by (auto simp: nth_list_update)
  have split: "nm \<in> nm_set t \<longleftrightarrow> nm_holds nm (t ! c) \<or> (\<exists>i < length t. i \<noteq> c \<and> nm_holds nm (t ! i))"
    unfolding nm_set_def using assms(1) by auto
  have other: "\<not> (\<exists>i < length t. i \<noteq> c \<and> nm_holds m (t ! i))"
    using assms(1,3,6) same_path [of _ t c m] unfolding nm_set_def by blast
  have reg: "nm_registered e \<longleftrightarrow> nm_holds m e" using assms(4) by (auto simp: nm_holds_def)
  show "nm \<in> nm_set (t[c := e]) \<longleftrightarrow> nm \<in> (if nm_registered e then insert m (nm_set t) else nm_set t - {m})"
  proof (cases "nm = m")
    case True
    have "m \<in> nm_set (t[c := e]) \<longleftrightarrow> nm_holds m e" using at other unfolding True by blast
    then show ?thesis unfolding True reg by simp
  next
    case False
    then have "\<not> nm_holds nm e" "\<not> nm_holds nm (t ! c)" using assms(2,5) by blast+
    then show ?thesis using at split False by (simp split: if_split)
  qed
qed

lemma register_entry_spec:
  assumes "tbl_ok t" "nreg t + nunreg t < length t" "nm_aligned nm"
  obtains t' where "nm_register_entry t nm = Some (nm \<notin> nm_set t, t')" "length t' = length t" "tbl_ok t'"
    "nm_set t' = insert nm (nm_set t)" "nreg t' = nreg t + (if nm \<in> nm_set t then 0 else 1)" "nunreg t' = nunreg t"
proof -
  obtain k where k: "length t = 2 ^ k" using assms(1) by (auto simp: tbl_ok_def)
  let ?p = "nm_path (length t)"
  obtain i where "i < length t" "\<not> nm_used (t ! i)" by (rule empty_exists [OF assms(1,2)])
  then obtain j where j: "j < length t" "nm_passed t nm j" "\<not> nm_used (t ! ?p nm j) \<or> nm_holds nm (t ! ?p nm j)"
    using first_stop [of i t nm] by blast
  define c where "c = ?p nm j"
  have c: "c < length t" using k by (simp add: c_def nm_path_less)
  have miss: "nm \<notin> nm_set t" if e: "\<not> nm_used (t ! c)"
  proof
    assume "nm \<in> nm_set t"
    then obtain i where i: "i < length t" "nm_holds nm (t ! i)" by (auto simp: nm_set_def)
    then obtain a where a: "i = ?p nm a" "nm_passed t nm a" using tbl_path(2) [OF assms(1)] by blast
    consider "a < j" | "a = j" | "j < a" by linarith
    then show False using a i e j(2) by cases (auto simp: nm_passed_def c_def nm_used_def nm_holds_def)
  qed
  have hit: "nm_holds nm (t ! c) \<Longrightarrow> nm \<in> nm_set t" using c by (auto simp: nm_set_def)
  have b: "\<not> nm_used (t ! c) \<longleftrightarrow> nm \<notin> nm_set t" using j(3) miss hit by (auto simp: c_def nm_used_def nm_holds_def)
  let ?t = "t[c := nm_entry nm]"
  note e = nm_entry_read [OF assms(3)]
  have hold: "nm_holds nm' (nm_entry nm) \<longleftrightarrow> nm' = nm" for nm' using e by (auto simp: nm_holds_def)
  have set: "nm_set ?t = insert nm (nm_set t)"
    using nm_set_update [OF c, of nm "nm_entry nm"] assms(1) j(3) miss e hold by (auto simp: c_def nm_holds_def nm_used_def)
  have keep: "nm_passed ?t m a" if m: "i < length t" "i \<noteq> c" "nm_holds m (t ! i)" "nm_passed t m a" for i m a
  proof (cases "nm_used (t ! c)")
    case True
    then have "m \<noteq> nm" using m j(3) same_path [of i t c nm] c assms(1) by (auto simp: c_def)
    then show ?thesis using m(4) e by (intro nm_passed_update) (auto simp: nm_used_def hold)
  qed (use m in \<open>simp add: nm_passed_update_empty\<close>)
  have own: "nm_passed ?t nm j"
  proof -
    have "c \<noteq> ?p nm l" if "l < j" for l using that j(2,3) by (auto simp: nm_passed_def c_def)
    then show ?thesis using j(2) by (simp add: nm_passed_def)
  qed
  have "tbl_ok ?t"
    unfolding tbl_ok_def
  proof (intro conjI allI impI)
    show "\<exists>k. length ?t = 2 ^ k" using k by auto
    fix i assume i: "i < length ?t"
    show "\<not> (nm_registered (?t ! i) \<and> nm_unregistered (?t ! i))"
      using assms(1) i e by (cases "i = c") (auto simp: tbl_ok_def)
    assume r: "nm_registered (?t ! i)"
    show "nm_aligned (nm_method (?t ! i))" using assms(1,3) i r e by (cases "i = c") (auto simp: tbl_ok_def)
    show "\<exists>j < length ?t. i = nm_path (length ?t) (nm_method (?t ! i)) j \<and> nm_passed ?t (nm_method (?t ! i)) j"
    proof (cases "i = c")
      case True
      then show ?thesis using j(1) own e c by (auto simp: c_def)
    next
      case False
      then have h: "nm_holds (nm_method (t ! i)) (t ! i)" using r by (simp add: nm_holds_def)
      then obtain a where "a < length t" "i = ?p (nm_method (t ! i)) a" "nm_passed t (nm_method (t ! i)) a"
        using tbl_path(2) [OF assms(1), of i] i by auto
      then show ?thesis using keep [OF _ False h] i False by auto
    qed
  qed
  moreover have "nm_register_entry t nm = Some (nm \<notin> nm_set t, ?t)"
    using register_loop_stop [OF k j(2,3)] b by (simp add: c_def)
  moreover have "\<not> (nm_registered (t ! c) \<and> nm_unregistered (t ! c))" using assms(1) c by (simp add: tbl_ok_def)
  then have "nreg ?t = nreg t + (if nm \<in> nm_set t then 0 else 1)" "nunreg ?t = nunreg t"
    using filter_update [OF c, of nm_registered "nm_entry nm"] filter_update [OF c, of nm_unregistered "nm_entry nm"] e b j(3)
    by (auto simp: nreg_def nunreg_def nm_used_def nm_holds_def c_def split: if_splits)
  ultimately show thesis using that set by simp
qed

lemma unregister_entry_spec:
  assumes "tbl_ok t" "nm \<in> nm_set t"
  obtains t' where "nm_unregister_entry t nm = Some t'" "length t' = length t" "tbl_ok t'"
    "nm_set t' = nm_set t - {nm}" "nreg t = Suc (nreg t')" "nunreg t' = Suc (nunreg t)"
proof -
  obtain k where k: "length t = 2 ^ k" using assms(1) by (auto simp: tbl_ok_def)
  let ?p = "nm_path (length t)"
  obtain c where c: "c < length t" "nm_holds nm (t ! c)" using assms(2) by (auto simp: nm_set_def)
  then obtain j where j: "c = ?p nm j" "nm_passed t nm j" using tbl_path(2) [OF assms(1)] by blast
  let ?e = "nm_entry_blank True" let ?t = "t[c := ?e]"
  have e: "nm_used ?e" "\<not> nm_holds m ?e" for m by (simp_all add: nm_used_def nm_holds_def)
  have "nm_set ?t = nm_set t - {nm}"
    using nm_set_update [OF c(1), of nm ?e] assms(1) c(2) e by (auto simp: nm_holds_def)
  moreover have "tbl_ok ?t"
    unfolding tbl_ok_def
  proof (intro conjI allI impI)
    show "\<exists>k. length ?t = 2 ^ k" using k by auto
    fix i assume i: "i < length ?t"
    show "\<not> (nm_registered (?t ! i) \<and> nm_unregistered (?t ! i))"
      using assms(1) i by (cases "i = c") (auto simp: tbl_ok_def)
    assume r: "nm_registered (?t ! i)"
    then have ne: "i \<noteq> c" using i by auto
    then have h: "nm_holds (nm_method (t ! i)) (t ! i)" using r by (simp add: nm_holds_def)
    then show "nm_aligned (nm_method (?t ! i))" using tbl_path(1) [OF assms(1)] i ne by simp
    show "\<exists>j < length ?t. i = nm_path (length ?t) (nm_method (?t ! i)) j \<and> nm_passed ?t (nm_method (?t ! i)) j"
      using tbl_path(2) [OF assms(1) _ h] i ne nm_passed_update [OF _ e] by auto
  qed
  moreover have "nm_unregister_entry t nm = Some ?t" using unregister_loop_stop [OF k j(2)] c(2) by (simp add: j(1))
  moreover have "\<not> nm_unregistered (t ! c)" "nm_registered (t ! c)" using assms(1) c by (auto simp: tbl_ok_def nm_holds_def)
  then have "nreg t = Suc (nreg ?t)" "nunreg ?t = Suc (nunreg t)"
    using filter_update [OF c(1), of nm_registered ?e] filter_update [OF c(1), of nm_unregistered ?e]
    by (simp_all add: nreg_def nunreg_def)
  ultimately show thesis using that by simp
qed

subsection \<open>Rebuilding\<close>

lemma blank_table:
  "tbl_ok (replicate (2 ^ k) (nm_entry_blank False))" "nm_set (replicate n (nm_entry_blank False)) = {}"
  "nreg (replicate n (nm_entry_blank False)) = 0" "nunreg (replicate n (nm_entry_blank False)) = 0"
  by (auto simp: tbl_ok_def nm_set_def nm_holds_def nreg_def nunreg_def filter_replicate)

lemma transfer_spec:
  assumes "tbl_ok new" "nunreg new = 0" "nreg new + length (filter nm_registered es) < length new"
    "\<forall>e \<in> set es. nm_registered e \<longrightarrow> nm_aligned (nm_method e)"
  shows "\<exists>new'. nm_transfer es new = Some new' \<and> length new' = length new \<and> tbl_ok new' \<and> nunreg new' = 0
    \<and> nm_set new' = nm_set new \<union> nm_method ` {e \<in> set es. nm_registered e}"
  using assms
proof (induction es arbitrary: new)
  case (Cons e es)
  show ?case
  proof (cases "nm_registered e")
    case True
    have "nm_aligned (nm_method e)" "nreg new + nunreg new < length new" using Cons.prems True by simp_all
    then obtain t where t: "nm_register_entry new (nm_method e) = Some (nm_method e \<notin> nm_set new, t)" "length t = length new" "tbl_ok t"
      "nm_set t = insert (nm_method e) (nm_set new)" "nreg t = nreg new + (if nm_method e \<in> nm_set new then 0 else 1)" "nunreg t = nunreg new"
      using register_entry_spec [OF Cons.prems(1)] by metis
    have "nreg t + length (filter nm_registered es) < length t" using Cons.prems(3) True t by (simp split: if_splits)
    from Cons.IH [OF t(3) _ this] Cons.prems(2,4) t True show ?thesis by auto
  next
    case False
    then show ?thesis using Cons.IH [OF Cons.prems(1,2)] Cons.prems(3,4) by auto
  qed
qed simp

subsection \<open>The invariant\<close>

text \<open>\<open>begun\<close> holds the iterations that have begun and not ended.\<close>

definition current_ok :: "nm_table \<Rightarrow> bool" where
  "current_ok s \<longleftrightarrow> (case nt_table s of
      None \<Rightarrow> nt_size s = 0 \<and> nt_nregistered s = 0 \<and> nt_nunregistered s = 0
    | Some i \<Rightarrow> \<exists>t. nt_heap s i = Some t \<and> length t = nt_size s \<and> tbl_ok t \<and> nreg t = nt_nregistered s \<and> nunreg t = nt_nunregistered s
        \<and> nm_min_size \<le> nt_size s \<and> nt_nregistered s + nt_nunregistered s \<le> grow_threshold (nt_size s) + 1)"

definition deletion_ok :: "bool set \<Rightarrow> nm_table \<Rightarrow> bool" where
  "deletion_ok begun s \<longleftrightarrow> (\<forall>i \<ge> nt_fresh s. nt_heap s i = None)
     \<and> (\<forall>sec i. it_table (iteration_of sec s) = Some i \<longrightarrow> sec \<in> begun \<and> (\<exists>t. nt_heap s i = Some t \<and> length t = it_size (iteration_of sec s)))
     \<and> nt_deferred_count s = card begun \<and> (begun = {} \<longrightarrow> nt_deferred s = [])
     \<and> (\<forall>i \<in> set (nt_deferred s). nt_table s \<noteq> Some i \<and> nt_heap s i \<noteq> None)"

lemma grow_threshold_less: "nm_min_size \<le> n \<Longrightarrow> grow_threshold n + 1 < n"
proof -
  assume "nm_min_size \<le> n"
  then obtain m where m: "n = Suc m" "1023 \<le> m" unfolding nm_min_size_def by (cases n) auto
  have "n * 3152519739159347 < m * 4503599627370496" using m by simp
  then have "n * 3152519739159347 < m * 2 ^ 52" by simp
  then have "grow_threshold n < m" unfolding grow_threshold_def by (rule less_mult_imp_div_less)
  then show ?thesis using m by simp
qed

lemma grow_threshold_iff: "r \<le> grow_threshold n \<longleftrightarrow> r * 4503599627370496 \<le> n * 3152519739159347"
  by (simp add: grow_threshold_def less_eq_div_iff_mult_less_eq)

lemma shrink_fits: "r < shrink_threshold (2 * m) \<Longrightarrow> r \<le> grow_threshold m"
proof -
  assume "r < shrink_threshold (2 * m)"
  then have "r \<le> 2 * m * 5404319552844595 div 18014398509481984" by (simp add: shrink_threshold_def)
  then have "r * 18014398509481984 \<le> 2 * m * 5404319552844595" by (simp add: less_eq_div_iff_mult_less_eq)
  then show ?thesis unfolding grow_threshold_iff by linarith
qed

lemma prune_fits: "r < prune_threshold n \<Longrightarrow> r \<le> grow_threshold n"
proof -
  assume "r < prune_threshold n"
  then have "r \<le> n * 5854679515581645 div 9007199254740992" by (simp add: prune_threshold_def)
  then have "r * 9007199254740992 \<le> n * 5854679515581645" by (simp add: less_eq_div_iff_mult_less_eq)
  then show ?thesis unfolding grow_threshold_iff by linarith
qed

lemma grow_fits: "r \<le> grow_threshold n + 1 \<Longrightarrow> nm_min_size \<le> n \<Longrightarrow> r \<le> grow_threshold (n * 2)"
proof (cases r)
  case (Suc q)
  assume a: "r \<le> grow_threshold n + 1" "nm_min_size \<le> n"
  then have "q * 4503599627370496 \<le> n * 3152519739159347" using Suc by (simp flip: grow_threshold_iff)
  then show ?thesis using a(2) unfolding grow_threshold_iff Suc nm_min_size_def by simp
qed simp

lemma current_okD:
  assumes "current_ok s" "nt_table s = Some i"
  obtains t where "nt_heap s i = Some t" "nm_current s = t" "length t = nt_size s" "tbl_ok t" "nreg t = nt_nregistered s"
    "nunreg t = nt_nunregistered s" "nm_min_size \<le> nt_size s" "nt_nregistered s + nt_nunregistered s \<le> grow_threshold (nt_size s) + 1"
  using assms by (auto simp: current_ok_def nm_current_def)

lemma nm_current_set:
  assumes "current_ok s"
  shows "nt_nregistered s = card (nm_set (nm_current s))" "nt_nregistered s = nreg (nm_current s)" "length (nm_current s) = nt_size s"
    "tbl_ok (nm_current s) \<or> nm_current s = []"
proof -
  have "nt_nregistered s = card (nm_set (nm_current s)) \<and> nt_nregistered s = nreg (nm_current s) \<and> length (nm_current s) = nt_size s
    \<and> (tbl_ok (nm_current s) \<or> nm_current s = [])"
  proof (cases "nt_table s")
    case None
    then show ?thesis using assms by (simp add: current_ok_def nm_current_def nm_set_def nreg_def)
  next
    case (Some i)
    then show ?thesis by (rule current_okD [OF assms]) (simp add: nreg_card)
  qed
  then show "nt_nregistered s = card (nm_set (nm_current s))" "nt_nregistered s = nreg (nm_current s)" "length (nm_current s) = nt_size s"
    "tbl_ok (nm_current s) \<or> nm_current s = []" by blast+
qed

lemma iteration_of_simps [simp]:
  "iteration_of sec (s\<lparr>nt_heap := h\<rparr>) = iteration_of sec s" "iteration_of sec (s\<lparr>nt_fresh := n\<rparr>) = iteration_of sec s"
  "iteration_of sec (s\<lparr>nt_table := i\<rparr>) = iteration_of sec s" "iteration_of sec (s\<lparr>nt_size := n\<rparr>) = iteration_of sec s"
  "iteration_of sec (s\<lparr>nt_nregistered := n\<rparr>) = iteration_of sec s" "iteration_of sec (s\<lparr>nt_nunregistered := n\<rparr>) = iteration_of sec s"
  "iteration_of sec (s\<lparr>nt_deferred := d\<rparr>) = iteration_of sec s" "iteration_of sec (s\<lparr>nt_deferred_count := n\<rparr>) = iteration_of sec s"
  by (simp_all add: iteration_of_def)

lemma iterated_table:
  assumes "deletion_ok begun s" "it_table (iteration_of sec s) = Some i"
  obtains t where "nt_heap s i = Some t" "length t = it_size (iteration_of sec s)" "sec \<in> begun" "i < nt_fresh s"
proof -
  have "sec \<in> begun \<and> (\<exists>t. nt_heap s i = Some t \<and> length t = it_size (iteration_of sec s))"
    using assms unfolding deletion_ok_def by blast
  moreover have "i < nt_fresh s" using calculation assms(1) unfolding deletion_ok_def by (metis not_le option.distinct(1))
  ultimately show thesis using that by blast
qed

text \<open>What an operation must keep for the iterations: their tables stay, and with them the methods but one.\<close>

definition spares :: "u64 set \<Rightarrow> nm_table \<Rightarrow> nm_table \<Rightarrow> bool" where
  "spares gone s s' \<longleftrightarrow> (\<forall>sec i t. it_table (iteration_of sec s) = Some i \<and> nt_heap s i = Some t
     \<longrightarrow> (\<exists>t'. nt_heap s' i = Some t' \<and> length t' = length t \<and> nm_set t - gone \<subseteq> nm_set t'))"

definition same_iterations :: "nm_table \<Rightarrow> nm_table \<Rightarrow> bool" where
  "same_iterations s s' \<longleftrightarrow> (\<forall>sec. iteration_of sec s' = iteration_of sec s)"

lemma transfer_all:
  assumes "current_ok s" "n = 2 ^ k" "nt_nregistered s < n"
  shows "\<exists>t. nm_transfer (take (nt_size s) (nm_current s)) (replicate n (nm_entry_blank False)) = Some t \<and> length t = n \<and> tbl_ok t
    \<and> nunreg t = 0 \<and> nm_set t = nm_set (nm_current s) \<and> nreg t = nt_nregistered s"
proof -
  let ?t = "nm_current s"
  note c = nm_current_set [OF assms(1)]
  have blank: "tbl_ok (replicate n (nm_entry_blank False))" "nunreg (replicate n (nm_entry_blank False)) = 0"
    "nreg (replicate n (nm_entry_blank False)) + length (filter nm_registered ?t) < length (replicate n (nm_entry_blank False))"
    using blank_table assms(2,3) c(2) by (simp_all add: nreg_def)
  have al: "\<forall>e \<in> set ?t. nm_registered e \<longrightarrow> nm_aligned (nm_method e)"
    using c(4) unfolding tbl_ok_def by (auto simp: in_set_conv_nth)
  have "nm_method ` {e \<in> set ?t. nm_registered e} = nm_set ?t"
    by (auto simp: nm_set_def nm_holds_def in_set_conv_nth)
  with transfer_spec [OF blank al] c blank_table(2) obtain t where t:
    "nm_transfer ?t (replicate n (nm_entry_blank False)) = Some t" "length t = n" "tbl_ok t" "nunreg t = 0" "nm_set t = nm_set ?t"
    by auto
  then show ?thesis using nreg_card [OF t(3)] c by simp
qed

lemma rebuild_spec:
  assumes "current_ok s" "deletion_ok begun s" "n = 2 ^ k" "nm_min_size \<le> n" "nt_nregistered s \<le> grow_threshold n"
  shows "\<exists>s'. nm_rebuild n s = Some s' \<and> current_ok s' \<and> deletion_ok begun s' \<and> nm_set (nm_current s') = nm_set (nm_current s)
    \<and> nt_size s' = n \<and> nt_nregistered s' + nt_nunregistered s' \<le> grow_threshold n \<and> nt_table s' \<noteq> None \<and> spares {} s s' \<and> same_iterations s s'"
proof -
  have "nt_nregistered s < n" using grow_threshold_less [OF assms(4)] assms(5) by simp
  with transfer_all [OF assms(1,3)] obtain t where t:
    "nm_transfer (take (nt_size s) (nm_current s)) (replicate n (nm_entry_blank False)) = Some t" "length t = n" "tbl_ok t"
    "nunreg t = 0" "nm_set t = nm_set (nm_current s)" "nreg t = nt_nregistered s" by blast
  define new where "new = nt_fresh s"
  define s1 where "s1 = s\<lparr>nt_heap := (nt_heap s)(new \<mapsto> t), nt_fresh := new + 1\<rparr>"
  define s2 where "s2 = schedule_delete (nt_table s) s1"
  define s' where "s' = s2\<lparr>nt_table := Some new, nt_size := n, nt_nunregistered := 0\<rparr>"
  have out: "nm_rebuild n s = Some s'" using t(1) by (simp add: nm_rebuild_def s'_def s2_def s1_def new_def Let_def)
  have old: "nt_table s \<noteq> Some new"
  proof
    assume "nt_table s = Some new"
    then obtain u where "nt_heap s new = Some u" by (rule current_okD [OF assms(1)])
    then show False using assms(2) by (simp add: deletion_ok_def new_def)
  qed
  have it: "it_table (iteration_of sec s) \<noteq> None \<Longrightarrow> nt_deferred_count s > 0" for sec
    using assms(2) by (auto simp: deletion_ok_def card_gt_0_iff)
  have heap: "nt_heap s2 i = (if i = new then Some t else if nt_deferred_count s = 0 \<and> nt_table s = Some i then None else nt_heap s i)" for i
    using old by (auto simp: s2_def s1_def schedule_delete_def immediate_delete_def split: option.split)
  have def: "nt_deferred s2 = (if nt_deferred_count s > 0 then nt_deferred s @ (case nt_table s of None \<Rightarrow> [] | Some i \<Rightarrow> [i]) else nt_deferred s)"
    "nt_deferred_count s2 = nt_deferred_count s" "nt_fresh s2 = new + 1" "nt_nregistered s2 = nt_nregistered s"
    "iteration_of sec s2 = iteration_of sec s" for sec
    by (auto simp: s2_def s1_def schedule_delete_def immediate_delete_def split: option.split)
  have cur: "nm_current s' = t" by (simp add: nm_current_def s'_def heap)
  have "current_ok s'" using t assms(4,5) by (simp add: current_ok_def s'_def heap def)
  moreover have "deletion_ok begun s'"
    unfolding deletion_ok_def
  proof (intro conjI allI impI ballI)
    fix i assume "nt_fresh s' \<le> i"
    then show "nt_heap s' i = None" using assms(2) by (simp add: s'_def heap def deletion_ok_def new_def)
  next
    fix sec i assume a: "it_table (iteration_of sec s') = Some i"
    then have b: "it_table (iteration_of sec s) = Some i" using def(5) [of sec] by (simp add: s'_def)
    obtain u where u: "nt_heap s i = Some u" "length u = it_size (iteration_of sec s)" "sec \<in> begun" "i < nt_fresh s"
      by (rule iterated_table [OF assms(2) b])
    show "sec \<in> begun" by (rule u(3))
    have "i \<noteq> new" using u(4) by (simp add: new_def)
    then show "\<exists>t. nt_heap s' i = Some t \<and> length t = it_size (iteration_of sec s')"
      using u it [of sec] b def(5) [of sec] by (simp add: s'_def heap)
  next
    show "nt_deferred_count s' = card begun" using assms(2) by (simp add: s'_def def deletion_ok_def)
    assume "begun = {}"
    then show "nt_deferred s' = []" using assms(2) by (simp add: s'_def def deletion_ok_def)
  next
    fix i assume i: "i \<in> set (nt_deferred s')"
    then have "i \<in> set (nt_deferred s) \<or> nt_deferred_count s > 0 \<and> nt_table s = Some i"
      by (auto simp: s'_def def split: if_splits option.splits)
    moreover have h: "nt_heap s i \<noteq> None"
    proof (cases "i \<in> set (nt_deferred s)")
      case False
      with calculation have "nt_table s = Some i" by blast
      then show ?thesis by (rule current_okD [OF assms(1)]) simp
    qed (use assms(2) in \<open>auto simp: deletion_ok_def\<close>)
    then have "i \<noteq> new" using assms(2) by (auto simp: deletion_ok_def new_def)
    moreover have "\<not> (nt_deferred_count s = 0 \<and> nt_table s = Some i)" using calculation(1) assms(2) by (auto simp: deletion_ok_def)
    ultimately show "nt_table s' \<noteq> Some i" "nt_heap s' i \<noteq> None" using h by (auto simp: s'_def heap)
  qed
  moreover have "spares {} s s'"
    unfolding spares_def
  proof (intro allI impI, elim conjE)
    fix sec i u assume a: "it_table (iteration_of sec s) = Some i" "nt_heap s i = Some u"
    have "i \<noteq> new" using iterated_table [OF assms(2) a(1)] by (auto simp: new_def)
    then have "nt_heap s' i = Some u" using a it [of sec] by (simp add: s'_def heap)
    then show "\<exists>t'. nt_heap s' i = Some t' \<and> length t' = length u \<and> nm_set u - {} \<subseteq> nm_set t'" by simp
  qed
  moreover have "same_iterations s s'" using def(5) by (simp add: same_iterations_def s'_def)
  ultimately show ?thesis using out cur t assms(5) by (simp add: s'_def def)
qed

lemma spares_refl [simp]: "spares gone s s" and same_iterations_refl [simp]: "same_iterations s s"
  by (auto simp: spares_def same_iterations_def)

lemma spares_trans:
  assumes "spares a s s1" "spares b s1 s2" "same_iterations s s1" "same_iterations s1 s2"
  shows "spares (a \<union> b) s s2" "same_iterations s s2"
proof -
  show "same_iterations s s2" using assms(3,4) by (simp add: same_iterations_def)
  show "spares (a \<union> b) s s2"
    unfolding spares_def
  proof (intro allI impI, elim conjE)
    fix sec i t assume a: "it_table (iteration_of sec s) = Some i" "nt_heap s i = Some t"
    then obtain t1 where t1: "nt_heap s1 i = Some t1" "length t1 = length t" "nm_set t - a \<subseteq> nm_set t1"
      using assms(1) unfolding spares_def by blast
    have "it_table (iteration_of sec s1) = Some i" using a(1) assms(3) by (simp add: same_iterations_def)
    then obtain t2 where "nt_heap s2 i = Some t2" "length t2 = length t1" "nm_set t1 - b \<subseteq> nm_set t2"
      using assms(2) t1(1) unfolding spares_def by blast
    with t1 show "\<exists>t'. nt_heap s2 i = Some t' \<and> length t' = length t \<and> nm_set t - (a \<union> b) \<subseteq> nm_set t'" by auto
  qed
qed

lemma rebuild_if_needed_spec:
  assumes "current_ok s" "deletion_ok begun s"
  shows "\<exists>s'. nm_rebuild_if_needed s = Some s' \<and> current_ok s' \<and> deletion_ok begun s' \<and> nm_set (nm_current s') = nm_set (nm_current s)
    \<and> nt_nregistered s' + nt_nunregistered s' \<le> grow_threshold (nt_size s') \<and> nt_table s' \<noteq> None \<and> spares {} s s' \<and> same_iterations s s'"
proof (cases "nt_table s")
  case None
  then have "nt_size s = 0" "nt_nregistered s = 0" using assms(1) by (simp_all add: current_ok_def)
  then show ?thesis
    using rebuild_spec [OF assms, of nm_min_size 10] by (auto simp: nm_rebuild_if_needed_def nm_min_size_def)
next
  case (Some i)
  then obtain t where t: "length t = nt_size s" "tbl_ok t" "nm_min_size \<le> nt_size s"
    "nt_nregistered s + nt_nunregistered s \<le> grow_threshold (nt_size s) + 1" by (rule current_okD [OF assms(1)]) blast
  then obtain k where k: "nt_size s = 2 ^ k" by (auto simp: tbl_ok_def)
  have pos: "nt_size s \<noteq> 0" using t(3) by (simp add: nm_min_size_def)
  let ?shrink = "nt_nregistered s < shrink_threshold (nt_size s) \<and> nt_size s > nm_min_size"
  let ?full = "nt_nregistered s + nt_nunregistered s > grow_threshold (nt_size s)"
  let ?prune = "nt_nregistered s < prune_threshold (nt_size s)"
  have ten: "10 \<le> k" using t(3) k power_increasing_iff [of "2::nat" 10 k] by (simp add: nm_min_size_def)
  consider (shrink) ?shrink | (prune) "\<not> ?shrink" ?full ?prune | (grow) "\<not> ?shrink" ?full "\<not> ?prune" | (keep) "\<not> ?shrink" "\<not> ?full" by blast
  then show ?thesis
  proof cases
    case shrink
    then have "10 < k" using k ten power_strict_increasing_iff [of "2::nat" 10 k] by (simp add: nm_min_size_def)
    then obtain d where d: "k = Suc (10 + d)" by (auto dest: less_imp_Suc_add)
    then have half: "nt_size s = 2 * 2 ^ (10 + d)" "nt_size s div 2 = 2 ^ (10 + d)" unfolding k d power_Suc by simp_all
    have "nm_min_size \<le> 2 ^ (10 + d)" by (simp add: nm_min_size_def power_add)
    moreover have "nt_nregistered s \<le> grow_threshold (2 ^ (10 + d))" using shrink unfolding half(1) by (intro shrink_fits) blast
    ultimately show ?thesis
      using rebuild_spec [OF assms half(2)] shrink pos unfolding half(2) [symmetric] by (auto simp: nm_rebuild_if_needed_def)
  next
    case prune
    then show ?thesis using rebuild_spec [OF assms k t(3) prune_fits] pos by (auto simp: nm_rebuild_if_needed_def)
  next
    case grow
    have "nt_size s * 2 = 2 ^ Suc k" "nm_min_size \<le> nt_size s * 2" using k t(3) by simp_all
    then show ?thesis
      using rebuild_spec [OF assms, of "nt_size s * 2" "Suc k"] grow_fits [OF _ t(3), of "nt_nregistered s"] t(4) grow pos
      by (auto simp: nm_rebuild_if_needed_def)
  next
    case keep
    then show ?thesis using assms pos Some by (auto simp: nm_rebuild_if_needed_def)
  qed
qed

definition nm_inv :: "u64 set \<Rightarrow> bool set \<Rightarrow> nm_table \<Rightarrow> bool" where
  "nm_inv M begun s \<longleftrightarrow> current_ok s \<and> deletion_ok begun s \<and> nm_set (nm_current s) = M"

lemma store_spec:
  assumes "current_ok s" "deletion_ok begun s" "nt_table s = Some i" "length t = nt_size s" "nm_set (nm_current s) - gone \<subseteq> nm_set t"
  shows "nm_current (nm_store t s) = t" "deletion_ok begun (nm_store t s)" "spares gone s (nm_store t s)" "same_iterations s (nm_store t s)"
    "nt_heap (nm_store t s) i = Some t" "nt_table (nm_store t s) = Some i" "nt_size (nm_store t s) = nt_size s"
    "nt_nregistered (nm_store t s) = nt_nregistered s" "nt_nunregistered (nm_store t s) = nt_nunregistered s"
proof -
  obtain u where u: "nt_heap s i = Some u" "nm_current s = u" "length u = nt_size s" by (rule current_okD [OF assms(1,3)])
  have eq: "nm_store t s = s\<lparr>nt_heap := (nt_heap s)(i \<mapsto> t)\<rparr>" using assms(3) by (simp add: nm_store_def)
  show "nm_current (nm_store t s) = t" "nt_heap (nm_store t s) i = Some t" "nt_table (nm_store t s) = Some i" "nt_size (nm_store t s) = nt_size s"
    "nt_nregistered (nm_store t s) = nt_nregistered s" "nt_nunregistered (nm_store t s) = nt_nunregistered s"
    using assms(3) by (simp_all add: eq nm_current_def)
  show "same_iterations s (nm_store t s)" by (simp add: same_iterations_def eq)
  show "spares gone s (nm_store t s)" using u assms(4,5) by (auto simp: spares_def eq)
  have "i < nt_fresh s" using u(1) assms(2) unfolding deletion_ok_def by (metis not_le option.distinct(1))
  moreover have "\<exists>t'. ((nt_heap s)(i \<mapsto> t)) j = Some t' \<and> length t' = it_size (iteration_of sec s)"
    if "it_table (iteration_of sec s) = Some j" for sec j
    by (rule iterated_table [OF assms(2) that]) (use u assms(4) in \<open>cases "j = i"; simp\<close>)
  ultimately show "deletion_ok begun (nm_store t s)" using assms(2) unfolding deletion_ok_def eq by auto
qed

lemma register_step:
  assumes "nm_inv M begun s" "nm_aligned nm"
  shows "\<exists>s'. register_nmethod nm s = Some s' \<and> nm_inv (insert nm M) begun s' \<and> spares {} s s' \<and> same_iterations s s'"
proof -
  obtain s1 where s1: "nm_rebuild_if_needed s = Some s1" "current_ok s1" "deletion_ok begun s1" "nm_set (nm_current s1) = M"
    "nt_nregistered s1 + nt_nunregistered s1 \<le> grow_threshold (nt_size s1)" "nt_table s1 \<noteq> None" "spares {} s s1" "same_iterations s s1"
    using rebuild_if_needed_spec [of s begun] assms(1) by (auto simp: nm_inv_def)
  then obtain i where i: "nt_table s1 = Some i" by blast
  then obtain t where t: "nm_current s1 = t" "length t = nt_size s1" "tbl_ok t" "nreg t = nt_nregistered s1" "nunreg t = nt_nunregistered s1"
    "nm_min_size \<le> nt_size s1" by (rule current_okD [OF s1(2)])
  have "nreg t + nunreg t < length t" using grow_threshold_less [OF t(6)] s1(5) t by simp
  from register_entry_spec [OF t(3) this assms(2)] obtain t' where t':
    "nm_register_entry t nm = Some (nm \<notin> nm_set t, t')" "length t' = length t" "tbl_ok t'"
    "nm_set t' = insert nm (nm_set t)" "nreg t' = nreg t + (if nm \<in> nm_set t then 0 else 1)" "nunreg t' = nunreg t" by blast
  have "nm_set (nm_current s1) - {} \<subseteq> nm_set t'" "length t' = nt_size s1" using t t' by auto
  note st = store_spec [OF s1(2,3) i this(2,1)]
  define s' where "s' = (if nm \<notin> nm_set t then (nm_store t' s1)\<lparr>nt_nregistered := nt_nregistered (nm_store t' s1) + 1\<rparr> else nm_store t' s1)"
  have out: "register_nmethod nm s = Some s'" using s1(1) t t' by (simp add: register_nmethod_def s'_def Let_def)
  have f: "nm_current s' = t'" "nt_table s' = Some i" "nt_heap s' i = Some t'" "nt_size s' = nt_size s1"
    "nt_nregistered s' = nreg t'" "nt_nunregistered s' = nunreg t'"
    using st t t' by (auto simp: s'_def nm_current_def)
  have "current_ok s'" using f t t' s1(5) by (auto simp: current_ok_def)
  moreover have "deletion_ok begun s'" using st(2) by (simp add: s'_def deletion_ok_def)
  moreover have "spares {} s1 s'" "same_iterations s1 s'" using st(3,4) by (auto simp: s'_def spares_def same_iterations_def)
  then have "spares {} s s'" "same_iterations s s'" using spares_trans [OF s1(7) _ s1(8)] by auto
  ultimately show ?thesis using out f t t' s1(4) by (auto simp: nm_inv_def)
qed

lemma unregister_step:
  assumes "nm_inv M begun s" "nm \<in> M"
  shows "\<exists>s'. unregister_nmethod nm s = Some s' \<and> nm_inv (M - {nm}) begun s' \<and> spares {nm} s s' \<and> same_iterations s s'"
proof -
  have ok: "current_ok s" "deletion_ok begun s" "nm_set (nm_current s) = M" using assms(1) by (simp_all add: nm_inv_def)
  have "nt_table s \<noteq> None"
  proof
    assume "nt_table s = None"
    then have "nm_current s = []" by (simp add: nm_current_def)
    then show False using assms(2) ok(3) by (simp add: nm_set_def)
  qed
  then obtain i where i: "nt_table s = Some i" by blast
  then obtain t where t: "nm_current s = t" "length t = nt_size s" "tbl_ok t" "nreg t = nt_nregistered s" "nunreg t = nt_nunregistered s"
    "nm_min_size \<le> nt_size s" "nt_nregistered s + nt_nunregistered s \<le> grow_threshold (nt_size s) + 1" by (rule current_okD [OF ok(1)])
  have "nm \<in> nm_set t" using assms(2) ok(3) t(1) by simp
  from unregister_entry_spec [OF t(3) this] obtain t' where t': "nm_unregister_entry t nm = Some t'" "length t' = length t" "tbl_ok t'"
    "nm_set t' = nm_set t - {nm}" "nreg t = Suc (nreg t')" "nunreg t' = Suc (nunreg t)" by blast
  have "nm_set (nm_current s) - {nm} \<subseteq> nm_set t'" "length t' = nt_size s" using t t' by auto
  note st = store_spec [OF ok(1,2) i this(2,1)]
  define s' where "s' = (nm_store t' s)\<lparr>nt_nunregistered := nt_nunregistered (nm_store t' s) + 1, nt_nregistered := nt_nregistered (nm_store t' s) - 1\<rparr>"
  have out: "unregister_nmethod nm s = Some s'" using t t' by (simp add: unregister_nmethod_def s'_def Let_def)
  have f: "nm_current s' = t'" "nt_table s' = Some i" "nt_heap s' i = Some t'" "nt_size s' = nt_size s"
    "nt_nregistered s' = nreg t'" "nt_nunregistered s' = nunreg t'"
    using st t t' by (auto simp: s'_def nm_current_def)
  have "current_ok s'" using f t t' by (simp add: current_ok_def)
  moreover have "deletion_ok begun s'" using st(2) by (simp add: s'_def deletion_ok_def)
  moreover have "spares {nm} s s'" "same_iterations s s'" using st(3,4) by (auto simp: s'_def spares_def same_iterations_def)
  ultimately show ?thesis using out f t t' ok(3) by (auto simp: nm_inv_def)
qed

lemma iteration_of_set: "iteration_of sec' (set_iteration sec it s) = (if sec' = sec then it else iteration_of sec' s)"
  by (auto simp: iteration_of_def set_iteration_def)

lemma set_iteration_fields [simp]:
  "nt_heap (set_iteration sec it s) = nt_heap s" "nt_fresh (set_iteration sec it s) = nt_fresh s" "nt_table (set_iteration sec it s) = nt_table s"
  "nt_size (set_iteration sec it s) = nt_size s" "nt_nregistered (set_iteration sec it s) = nt_nregistered s"
  "nt_nunregistered (set_iteration sec it s) = nt_nunregistered s" "nt_deferred_count (set_iteration sec it s) = nt_deferred_count s"
  "nt_deferred (set_iteration sec it s) = nt_deferred s"
  by (simp_all add: set_iteration_def)

lemma nm_current_cong: "nt_table s' = nt_table s \<Longrightarrow> nt_heap s' = nt_heap s \<Longrightarrow> nm_current s' = nm_current s"
  by (simp add: nm_current_def split: option.split)

lemma current_ok_cong: "nt_table s' = nt_table s \<Longrightarrow> nt_heap s' = nt_heap s \<Longrightarrow> nt_size s' = nt_size s
    \<Longrightarrow> nt_nregistered s' = nt_nregistered s \<Longrightarrow> nt_nunregistered s' = nt_nunregistered s \<Longrightarrow> current_ok s' = current_ok s"
  by (simp add: current_ok_def split: option.split)

lemma begin_step:
  assumes "nm_inv M begun s" "sec \<notin> begun"
  shows "nm_inv M (insert sec begun) (nmethods_do_begin sec s)"
    "it_table (iteration_of sec (nmethods_do_begin sec s)) = nt_table s" "nm_current (nmethods_do_begin sec s) = nm_current s"
    "nt_heap (nmethods_do_begin sec s) = nt_heap s"
    "sec' \<noteq> sec \<Longrightarrow> iteration_of sec' (nmethods_do_begin sec s) = iteration_of sec' s"
proof -
  let ?s = "nmethods_do_begin sec s"
  note d = nmethods_do_begin_def enable_deferred_delete_def Let_def
  show cur: "nm_current ?s = nm_current s" by (rule nm_current_cong) (simp_all add: d)
  show it: "it_table (iteration_of sec ?s) = nt_table s" "nt_heap ?s = nt_heap s"
    "sec' \<noteq> sec \<Longrightarrow> iteration_of sec' ?s = iteration_of sec' s" for sec'
    by (simp_all add: d iteration_of_set)
  have "current_ok ?s" using assms(1) current_ok_cong [of ?s s] by (simp add: nm_inv_def d)
  moreover have "deletion_ok (insert sec begun) ?s"
    unfolding deletion_ok_def
  proof (intro conjI allI impI)
    show "nt_deferred_count ?s = card (insert sec begun)" using assms by (simp add: d nm_inv_def deletion_ok_def)
    fix sec' i assume a: "it_table (iteration_of sec' ?s) = Some i"
    show "sec' \<in> insert sec begun" "\<exists>t. nt_heap ?s i = Some t \<and> length t = it_size (iteration_of sec' ?s)"
    proof (atomize (full), cases "sec' = sec")
      case True
      then have i: "nt_table s = Some i" using a it(1) by simp
      have "current_ok s" using assms(1) by (simp add: nm_inv_def)
      from this i obtain t where "nt_heap s i = Some t" "length t = nt_size s" by (rule current_okD)
      then show "sec' \<in> insert sec begun \<and> (\<exists>t. nt_heap ?s i = Some t \<and> length t = it_size (iteration_of sec' ?s))"
        using True by (simp add: d iteration_of_set)
    next
      case False
      then have "it_table (iteration_of sec' s) = Some i" "iteration_of sec' ?s = iteration_of sec' s" using a it(3) by simp_all
      moreover have "deletion_ok begun s" using assms(1) by (simp add: nm_inv_def)
      ultimately show "sec' \<in> insert sec begun \<and> (\<exists>t. nt_heap ?s i = Some t \<and> length t = it_size (iteration_of sec' ?s))"
        using it(2) unfolding deletion_ok_def by auto
    qed
  qed (use assms(1) in \<open>auto simp: d nm_inv_def deletion_ok_def\<close>)
  ultimately show "nm_inv M (insert sec begun) ?s" using assms(1) cur by (simp add: nm_inv_def)
qed

lemma delete_all:
  "nt_heap (fold (\<lambda>i s. immediate_delete (Some i) s) ds s) i = (if i \<in> set ds then None else nt_heap s i)"
  "nt_fresh (fold (\<lambda>i s. immediate_delete (Some i) s) ds s) = nt_fresh s" "nt_table (fold (\<lambda>i s. immediate_delete (Some i) s) ds s) = nt_table s"
  "nt_size (fold (\<lambda>i s. immediate_delete (Some i) s) ds s) = nt_size s"
  "nt_nregistered (fold (\<lambda>i s. immediate_delete (Some i) s) ds s) = nt_nregistered s"
  "nt_nunregistered (fold (\<lambda>i s. immediate_delete (Some i) s) ds s) = nt_nunregistered s"
  "nt_deferred_count (fold (\<lambda>i s. immediate_delete (Some i) s) ds s) = nt_deferred_count s"
  "nt_deferred (fold (\<lambda>i s. immediate_delete (Some i) s) ds s) = nt_deferred s"
  "iteration_of sec (fold (\<lambda>i s. immediate_delete (Some i) s) ds s) = iteration_of sec s"
  by (induction ds arbitrary: s) (auto simp: immediate_delete_def)

lemma end_step:
  assumes "nm_inv M begun s" "sec \<in> begun"
  shows "nm_inv M (begun - {sec}) (nmethods_do_end sec s)"
    "begun \<noteq> {sec} \<Longrightarrow> nt_heap (nmethods_do_end sec s) = nt_heap s"
    "sec' \<noteq> sec \<Longrightarrow> iteration_of sec' (nmethods_do_end sec s) = iteration_of sec' s"
proof -
  let ?s = "nmethods_do_end sec s"
  define s1 where "s1 = set_iteration sec ((iteration_of sec s)\<lparr>it_table := None\<rparr>) s"
  define n where "n = nt_deferred_count s - 1"
  have dok: "deletion_ok begun s" and cok: "current_ok s" using assms(1) by (simp_all add: nm_inv_def)
  have n: "n = card (begun - {sec})" using dok assms(2) by (simp add: n_def deletion_ok_def)
  let ?ds = "if n = 0 then nt_deferred s else []"
  have eq: "?s = fold (\<lambda>i s. immediate_delete (Some i) s) ?ds (s1\<lparr>nt_deferred_count := n, nt_deferred := (if n = 0 then [] else nt_deferred s)\<rparr>)"
    by (simp add: nmethods_do_end_def disable_deferred_delete_def s1_def [symmetric] n_def Let_def) (simp add: s1_def)
  have f: "nt_heap ?s i = (if n = 0 \<and> i \<in> set (nt_deferred s) then None else nt_heap s i)" "nt_fresh ?s = nt_fresh s" "nt_table ?s = nt_table s"
    "nt_size ?s = nt_size s" "nt_nregistered ?s = nt_nregistered s" "nt_nunregistered ?s = nt_nunregistered s"
    "nt_deferred_count ?s = n" "nt_deferred ?s = (if n = 0 then [] else nt_deferred s)"
    "iteration_of sec' ?s = (if sec' = sec then (iteration_of sec s)\<lparr>it_table := None\<rparr> else iteration_of sec' s)" for i sec'
    unfolding eq by (simp_all add: delete_all s1_def iteration_of_set)
  show "sec' \<noteq> sec \<Longrightarrow> iteration_of sec' ?s = iteration_of sec' s" by (simp add: f)
  have "n = 0 \<longleftrightarrow> begun - {sec} = {}" unfolding n by (rule card_0_eq) simp
  then have n0: "n = 0 \<longleftrightarrow> begun = {sec}" using assms(2) by blast
  then show "begun \<noteq> {sec} \<Longrightarrow> nt_heap ?s = nt_heap s" using f(1) by auto
  have cur: "nt_heap ?s i = nt_heap s i" if "nt_table s = Some i" for i
    using that dok f(1) [of i] by (auto simp: deletion_ok_def)
  then have same: "nm_current ?s = nm_current s" by (simp add: nm_current_def f split: option.split)
  have "current_ok ?s" using cok cur by (auto simp: current_ok_def f(3-6) split: option.splits)
  moreover have "deletion_ok (begun - {sec}) ?s"
    unfolding deletion_ok_def
  proof (intro conjI allI impI)
    fix sec' i assume a: "it_table (iteration_of sec' ?s) = Some i"
    then have s': "sec' \<noteq> sec" "it_table (iteration_of sec' s) = Some i" by (auto simp: f(9) split: if_splits)
    obtain t where t: "nt_heap s i = Some t" "length t = it_size (iteration_of sec' s)" "sec' \<in> begun" by (rule iterated_table [OF dok s'(2)])
    then show "sec' \<in> begun - {sec}" using s'(1) by simp
    have "n \<noteq> 0" using n0 t(3) s'(1) by auto
    then show "\<exists>t. nt_heap ?s i = Some t \<and> length t = it_size (iteration_of sec' ?s)" using t s'(1) by (simp add: f)
  qed (use dok n n0 assms(2) in \<open>auto simp: f deletion_ok_def\<close>)
  ultimately show "nm_inv M (begun - {sec}) ?s" using assms(1) same by (simp add: nm_inv_def)
qed

lemma claim_step:
  fixes cls :: nat and sec :: bool
  assumes "nm_inv M begun s"
  defines "s' \<equiv> set_iteration sec (snd (nm_claim cls (iteration_of sec s))) s"
  shows "nm_inv M begun s'" "nt_heap s' = nt_heap s" "it_table (iteration_of sec' s') = it_table (iteration_of sec' s)"
proof -
  have c: "it_table (snd (nm_claim cls it)) = it_table it" "it_size (snd (nm_claim cls it)) = it_size it" for it
    by (simp_all add: nm_claim_def Let_def)
  show "nt_heap s' = nt_heap s" by (simp add: s'_def)
  show same: "it_table (iteration_of sec' s') = it_table (iteration_of sec' s)" for sec'
    by (simp add: s'_def iteration_of_set c)
  have "it_size (iteration_of sec' s') = it_size (iteration_of sec' s)" for sec' by (simp add: s'_def iteration_of_set c)
  then show "nm_inv M begun s'"
    using assms(1) same current_ok_cong [of s' s] nm_current_cong [of s' s] by (simp add: nm_inv_def deletion_ok_def) (simp add: s'_def)
qed

subsection \<open>Sequences of operations and their specification\<close>

datatype nm_op = Register u64 | Unregister u64 | IterateBegin bool | IterateEnd bool | IterateClaim nat bool

fun nm_apply :: "nm_op \<Rightarrow> nm_table \<Rightarrow> nm_table option" where
  "nm_apply (Register nm) s = register_nmethod nm s"
| "nm_apply (Unregister nm) s = unregister_nmethod nm s"
| "nm_apply (IterateBegin sec) s = Some (nmethods_do_begin sec s)"
| "nm_apply (IterateEnd sec) s = Some (nmethods_do_end sec s)"
| "nm_apply (IterateClaim cls sec) s = Some (set_iteration sec (snd (nm_claim cls (iteration_of sec s))) s)"

fun nm_run :: "nm_op list \<Rightarrow> nm_table \<Rightarrow> nm_table option" where
  "nm_run [] s = Some s"
| "nm_run (op # ops) s = (case nm_apply op s of None \<Rightarrow> None | Some s \<Rightarrow> nm_run ops s)"

text \<open>The registered methods and the iterations that have begun; what callers must respect.\<close>

fun nm_spec :: "nm_op \<Rightarrow> u64 set \<times> bool set \<Rightarrow> u64 set \<times> bool set" where
  "nm_spec (Register nm) (M, begun) = (insert nm M, begun)"
| "nm_spec (Unregister nm) (M, begun) = (M - {nm}, begun)"
| "nm_spec (IterateBegin sec) (M, begun) = (M, insert sec begun)"
| "nm_spec (IterateEnd sec) (M, begun) = (M, begun - {sec})"
| "nm_spec (IterateClaim cls sec) (M, begun) = (M, begun)"

fun nm_legal :: "nm_op \<Rightarrow> u64 set \<times> bool set \<Rightarrow> bool" where
  "nm_legal (Register nm) (M, begun) \<longleftrightarrow> nm_aligned nm"
| "nm_legal (Unregister nm) (M, begun) \<longleftrightarrow> nm \<in> M"
| "nm_legal (IterateBegin sec) (M, begun) \<longleftrightarrow> sec \<notin> begun"
| "nm_legal (IterateEnd sec) (M, begun) \<longleftrightarrow> sec \<in> begun"
| "nm_legal (IterateClaim cls sec) (M, begun) \<longleftrightarrow> True"

fun nm_legal_run :: "nm_op list \<Rightarrow> u64 set \<times> bool set \<Rightarrow> bool" where
  "nm_legal_run [] S \<longleftrightarrow> True"
| "nm_legal_run (op # ops) S \<longleftrightarrow> nm_legal op S \<and> nm_legal_run ops (nm_spec op S)"

definition nm_state_inv :: "u64 set \<times> bool set \<Rightarrow> nm_table \<Rightarrow> bool" where
  "nm_state_inv S s \<longleftrightarrow> nm_inv (fst S) (snd S) s"

text \<open>The table of an iteration holds a method.\<close>

definition iterates_over :: "bool \<Rightarrow> u64 \<Rightarrow> nm_table \<Rightarrow> bool" where
  "iterates_over sec nm s \<longleftrightarrow> (\<exists>i t. it_table (iteration_of sec s) = Some i \<and> nt_heap s i = Some t
     \<and> length t = it_size (iteration_of sec s) \<and> nm \<in> nm_set t)"

lemma nm_apply_inv:
  assumes "nm_state_inv S s" "nm_legal op S"
  shows "\<exists>s'. nm_apply op s = Some s' \<and> nm_state_inv (nm_spec op S) s'"
proof -
  obtain M begun where S: "S = (M, begun)" by fastforce
  have inv: "nm_inv M begun s" using assms(1) by (simp add: S nm_state_inv_def)
  show ?thesis
  proof (cases op)
    case (Register nm)
    then show ?thesis using register_step [OF inv, of nm] assms(2) by (auto simp: S nm_state_inv_def)
  next
    case (Unregister nm)
    then show ?thesis using unregister_step [OF inv, of nm] assms(2) by (auto simp: S nm_state_inv_def)
  next
    case (IterateBegin sec)
    then show ?thesis using begin_step(1) [OF inv] assms(2) by (simp add: S nm_state_inv_def)
  next
    case (IterateEnd sec)
    then show ?thesis using end_step(1) [OF inv] assms(2) by (simp add: S nm_state_inv_def)
  next
    case (IterateClaim cls sec)
    then show ?thesis using claim_step(1) [OF inv] by (simp add: S nm_state_inv_def)
  qed
qed

lemma nm_apply_keeps:
  assumes "nm_state_inv S s" "nm_legal op S" "iterates_over sec nm s" "op \<noteq> Unregister nm" "op \<noteq> IterateEnd sec" "nm_apply op s = Some s'"
  shows "iterates_over sec nm s'"
proof -
  obtain M begun where S: "S = (M, begun)" by fastforce
  have inv: "nm_inv M begun s" and dok: "deletion_ok begun s" using assms(1) by (simp_all add: S nm_state_inv_def nm_inv_def)
  obtain i t where it: "it_table (iteration_of sec s) = Some i" "nt_heap s i = Some t" "length t = it_size (iteration_of sec s)" "nm \<in> nm_set t"
    using assms(3) by (auto simp: iterates_over_def)
  have begun: "sec \<in> begun" by (rule iterated_table [OF dok it(1)])
  have kept: "iterates_over sec nm s'" if "spares gone s s'" "same_iterations s s'" "nm \<notin> gone" for gone
  proof -
    have "\<exists>t'. nt_heap s' i = Some t' \<and> length t' = length t \<and> nm_set t - gone \<subseteq> nm_set t'"
      using that(1) it(1,2) unfolding spares_def by blast
    then show ?thesis using that(2,3) it unfolding iterates_over_def same_iterations_def by auto
  qed
  show ?thesis
  proof (cases op)
    case (Register x)
    then show ?thesis using register_step [OF inv, of x] assms(2,6) kept by (auto simp: S)
  next
    case (Unregister x)
    then show ?thesis using unregister_step [OF inv, of x] assms(2,4,6) kept [of "{x}"] by (auto simp: S)
  next
    case (IterateBegin b)
    then have "b \<notin> begun" using assms(2) by (simp add: S)
    with begun have "sec \<noteq> b" by (cases sec; cases b; simp)
    then show ?thesis using IterateBegin begin_step(4,5) [OF inv, of b] assms(2,6) it by (auto simp: S iterates_over_def)
  next
    case (IterateEnd b)
    then have b: "sec \<noteq> b" "b \<in> begun" using assms(2,5) by (simp_all add: S)
    then have "begun \<noteq> {b}" using begun by (cases sec; cases b; auto)
    with b show ?thesis using IterateEnd end_step(2,3) [OF inv, of b] assms(6) it by (auto simp: iterates_over_def)
  next
    case (IterateClaim cls b)
    have "it_size (iteration_of sec s') = it_size (iteration_of sec s)" "it_table (iteration_of sec s') = it_table (iteration_of sec s)"
      "nt_heap s' = nt_heap s"
      using IterateClaim assms(6) by (auto simp: iteration_of_set nm_claim_def Let_def)
    then show ?thesis using it by (simp add: iterates_over_def)
  qed
qed

lemma nm_run_append: "nm_run (xs @ ys) s = (case nm_run xs s of None \<Rightarrow> None | Some s \<Rightarrow> nm_run ys s)"
  by (induction xs arbitrary: s) (auto split: option.split)

lemma nm_legal_append: "nm_legal_run (xs @ ys) S \<longleftrightarrow> nm_legal_run xs S \<and> nm_legal_run ys (fold nm_spec xs S)"
  by (induction xs arbitrary: S) auto

lemma nm_run_inv:
  "nm_state_inv S s \<Longrightarrow> nm_legal_run ops S \<Longrightarrow> \<exists>s'. nm_run ops s = Some s' \<and> nm_state_inv (fold nm_spec ops S) s'"
proof (induction ops arbitrary: S s)
  case (Cons op ops)
  then obtain s1 where s1: "nm_apply op s = Some s1" "nm_state_inv (nm_spec op S) s1" using nm_apply_inv by fastforce
  then show ?case using Cons.IH [OF s1(2)] Cons.prems(2) by simp
qed simp

lemma nm_run_keeps:
  "nm_state_inv S s \<Longrightarrow> nm_legal_run ops S \<Longrightarrow> iterates_over sec nm s \<Longrightarrow> Unregister nm \<notin> set ops \<Longrightarrow> IterateEnd sec \<notin> set ops
   \<Longrightarrow> nm_run ops s = Some s' \<Longrightarrow> iterates_over sec nm s'"
proof (induction ops arbitrary: S s)
  case (Cons op ops)
  obtain s1 where s1: "nm_apply op s = Some s1" "nm_state_inv (nm_spec op S) s1" using nm_apply_inv Cons.prems(1,2) by fastforce
  have "iterates_over sec nm s1" using nm_apply_keeps [OF Cons.prems(1) _ Cons.prems(3) _ _ s1(1)] Cons.prems(2,4,5) by auto
  then show ?case using Cons.IH [OF s1(2)] Cons.prems s1(1) by simp
qed simp

lemma nm_new_inv: "nm_state_inv ({}, {}) nm_table_new"
  by (simp add: nm_state_inv_def nm_inv_def current_ok_def deletion_ok_def nm_table_new_def iteration_new_def iteration_of_def nm_current_def
      nm_set_def)

subsection \<open>Properties\<close>

text \<open>C5. The table of compiled methods is a set: after any sequence of registrations, removals and iterations in
which only registered methods are removed, every operation has returned, the registered entries of the table are
exactly the methods registered and not removed since, the counter is their number, and unless the table is still
empty its occupied entries, markers included, are at most one more than 70% of its size, so that probing always
finds an empty entry. Growing, shrinking and pruning the table change nothing of this.\<close>

theorem nm_table_refines_set:
  assumes "nm_legal_run ops ({}, {})"
  shows "\<exists>s. nm_run ops nm_table_new = Some s \<and> nm_set (nm_current s) = fst (fold nm_spec ops ({}, {}))
    \<and> nt_nregistered s = card (fst (fold nm_spec ops ({}, {})))
    \<and> (nt_table s \<noteq> None \<longrightarrow> nt_nregistered s + nt_nunregistered s \<le> grow_threshold (nt_size s) + 1
         \<and> grow_threshold (nt_size s) + 1 < nt_size s)"
proof -
  obtain s where s: "nm_run ops nm_table_new = Some s" "nm_inv (fst (fold nm_spec ops ({}, {}))) (snd (fold nm_spec ops ({}, {}))) s"
    using nm_run_inv [OF nm_new_inv assms] by (auto simp: nm_state_inv_def)
  then have c: "current_ok s" "nm_set (nm_current s) = fst (fold nm_spec ops ({}, {}))" by (simp_all add: nm_inv_def)
  have "nt_nregistered s + nt_nunregistered s \<le> grow_threshold (nt_size s) + 1 \<and> grow_threshold (nt_size s) + 1 < nt_size s"
    if defd: "nt_table s \<noteq> None"
  proof -
    obtain i where "nt_table s = Some i" using defd by blast
    then show ?thesis by (rule current_okD [OF c(1)]) (use grow_threshold_less in blast)
  qed
  then show ?thesis using s(1) c nm_current_set(1) [OF c(1)] by simp
qed

theorem nm_table_refines_set_witness:
  "\<exists>s. nm_run [Register 0x1000, Register 0x2000, IterateBegin False, Unregister 0x1000, Register 0x3000] nm_table_new = Some s
     \<and> nm_set (nm_current s) = {0x2000, 0x3000} \<and> nt_nregistered s = 2"
proof -
  have l: "nm_legal_run [Register 0x1000, Register 0x2000, IterateBegin False, Unregister 0x1000, Register 0x3000] ({}, {})"
    by (simp add: nm_aligned_def bf_value_ok_def field_method_def FieldMask_def)
  have "insert 0x3000 (insert 0x2000 {0x1000} - {0x1000}) = {0x2000, 0x3000 :: u64}" by auto
  with nm_table_refines_set [OF l] show ?thesis by auto
qed

text \<open>C6. An iteration over the compiled methods misses none: from its beginning to its end the table it walks stays
allocated, with the size the iteration recorded, and holds every method that was registered when it began and has
not been removed since, whatever else is registered or removed meanwhile, even when the table is rebuilt, and even
when the other iteration begins or ends in between: rebuilding only schedules the old table for deletion.\<close>

theorem iteration_misses_no_method:
  assumes "nm_legal_run (ops @ IterateBegin sec # later) ({}, {})" "nm \<in> fst (fold nm_spec ops ({}, {}))"
    "Unregister nm \<notin> set later" "IterateEnd sec \<notin> set later" "nm_run (ops @ IterateBegin sec # later) nm_table_new = Some s"
  shows "\<exists>i t. it_table (iteration_of sec s) = Some i \<and> nt_heap s i = Some t \<and> length t = it_size (iteration_of sec s) \<and> nm \<in> nm_set t"
proof -
  let ?S = "fold nm_spec ops ({}, {})"
  obtain s0 where s0: "nm_run ops nm_table_new = Some s0" "nm_inv (fst ?S) (snd ?S) s0"
    using nm_run_inv [OF nm_new_inv, of ops] assms(1) by (auto simp: nm_state_inv_def nm_legal_append)
  obtain M begun where S: "?S = (M, begun)" by fastforce
  have inv: "nm_inv M begun s0" and nm: "nm \<in> M" using s0(2) assms(2) by (simp_all add: S)
  have legal: "sec \<notin> begun" "nm_legal_run later (M, insert sec begun)" using assms(1) by (simp_all add: nm_legal_append S)
  define s1 where "s1 = nmethods_do_begin sec s0"
  note b = begin_step [OF inv legal(1), folded s1_def]
  have "nt_table s0 \<noteq> None"
  proof
    assume "nt_table s0 = None"
    then have "nm_set (nm_current s0) = {}" by (simp add: nm_current_def nm_set_def)
    then show False using inv nm by (simp add: nm_inv_def)
  qed
  then obtain i where i: "nt_table s0 = Some i" by blast
  have "current_ok s0" "nm_set (nm_current s0) = M" using inv by (simp_all add: nm_inv_def)
  from this(1) i obtain t where t: "nt_heap s0 i = Some t" "nm_current s0 = t" "length t = nt_size s0" by (rule current_okD)
  have "it_size (iteration_of sec s1) = nt_size s0"
    by (simp add: s1_def nmethods_do_begin_def enable_deferred_delete_def iteration_of_set Let_def)
  then have "iterates_over sec nm s1" using b(2,4) i t \<open>nm_set (nm_current s0) = M\<close> nm by (simp add: iterates_over_def)
  moreover have "nm_state_inv (M, insert sec begun) s1" using b(1) by (simp add: nm_state_inv_def)
  moreover have "nm_run later s1 = Some s" using assms(5) s0(1) by (simp add: nm_run_append s1_def)
  ultimately have "iterates_over sec nm s" using nm_run_keeps [OF _ legal(2)] assms(3,4) by blast
  then show ?thesis by (simp add: iterates_over_def)
qed

theorem iteration_misses_no_method_witness:
  "\<exists>s. nm_run ([Register 0x2000] @ IterateBegin False # [Register 0x3000, IterateBegin True, IterateEnd True]) nm_table_new = Some s
     \<and> (\<exists>i t. it_table (iteration_of False s) = Some i \<and> nt_heap s i = Some t \<and> 0x2000 \<in> nm_set t)"
proof -
  have l: "nm_legal_run ([Register 0x2000] @ IterateBegin False # [Register 0x3000, IterateBegin True, IterateEnd True]) ({}, {})"
    by (simp add: nm_aligned_def bf_value_ok_def field_method_def FieldMask_def)
  then obtain s where r: "nm_run ([Register 0x2000] @ IterateBegin False # [Register 0x3000, IterateBegin True, IterateEnd True]) nm_table_new
      = Some s"
    using nm_run_inv [OF nm_new_inv] by blast
  from iteration_misses_no_method [OF l _ _ _ r, of "0x2000"] r show ?thesis by auto
qed

text \<open>The ranges that successive claims give out, to whichever threads.\<close>

fun nm_claims :: "nat \<Rightarrow> nat \<Rightarrow> nm_iteration \<Rightarrow> (nat \<times> nat) list" where
  "nm_claims cls 0 it = []"
| "nm_claims cls (Suc k) it = (case nm_claim cls it of (r, it) \<Rightarrow> r # nm_claims cls k it)"

lemma nm_claims_cover:
  "concat (map (\<lambda>(a, b). [a..<b]) (nm_claims cls k it)) =
     [min (it_claimed it) (it_size it)..<min (it_claimed it + k * partition_size cls) (it_size it)]"
proof (induction k arbitrary: it)
  case (Suc k)
  define it' where "it' = it\<lparr>it_claimed := it_claimed it + partition_size cls\<rparr>"
  let ?a = "min (it_claimed it) (it_size it)" and ?b = "min (it_claimed it') (it_size it)"
  let ?c = "min (it_claimed it' + k * partition_size cls) (it_size it)"
  have e: "min (?a + partition_size cls) (it_size it) = ?b" by (simp add: it'_def min_def)
  have "nm_claims cls (Suc k) it = (?a, ?b) # nm_claims cls k it'"
    using e by (simp add: nm_claim_def it'_def Let_def)
  then have "concat (map (\<lambda>(a, b). [a..<b]) (nm_claims cls (Suc k) it)) = [?a..<?b] @ [?b..<?c]"
    using Suc [of it'] by (simp add: it'_def)
  also have "\<dots> = [?a..<?c]"
  proof -
    have "?a \<le> ?b" "?b \<le> ?c" by (auto simp: it'_def min_def)
    then show ?thesis by (metis le_Suc_ex upt_add_eq_append)
  qed
  finally show ?case by (simp add: it'_def ac_simps)
qed simp

text \<open>The threads that iterate share the table exactly: the ranges handed out by claiming, in the order of the
atomic additions and whichever thread they went to, are consecutive and disjoint, and as soon as one thread has
been given an empty range, which is when it stops, every entry of the table has been given out exactly once.\<close>

theorem iteration_claims_exact:
  "concat (map (\<lambda>(a, b). [a..<b]) (nm_claims cls k (it\<lparr>it_claimed := 0\<rparr>))) = [0..<min (k * partition_size cls) (it_size it)]
   \<and> (8 \<le> cls \<and> (\<exists>(a, b) \<in> set (nm_claims cls k (it\<lparr>it_claimed := 0\<rparr>)). a = b)
      \<longrightarrow> concat (map (\<lambda>(a, b). [a..<b]) (nm_claims cls k (it\<lparr>it_claimed := 0\<rparr>))) = [0..<it_size it])"
proof -
  have cover: "concat (map (\<lambda>(a, b). [a..<b]) (nm_claims cls k (it\<lparr>it_claimed := 0\<rparr>))) = [0..<min (k * partition_size cls) (it_size it)]"
    using nm_claims_cover [of cls k "it\<lparr>it_claimed := 0\<rparr>"] by simp
  have empty: "it_size i \<le> it_claimed i + k * partition_size cls" if "(a, b) \<in> set (nm_claims cls k i)" "a = b" "8 \<le> cls" for a b i
    using that
  proof (induction k arbitrary: i)
    case (Suc k)
    have "2 \<le> partition_size cls" using Suc.prems(3) by (simp add: partition_size_def)
    moreover have "it_size i \<le> it_claimed i + partition_size cls + k * partition_size cls"
      if "(a, b) \<in> set (nm_claims cls k (i\<lparr>it_claimed := it_claimed i + partition_size cls\<rparr>))"
      using Suc.IH [OF that Suc.prems(2,3)] by simp
    ultimately show ?case using Suc.prems(1,2) by (auto simp: nm_claim_def Let_def min_def split: if_splits)
  qed simp
  show ?thesis
  proof (intro conjI impI cover)
    assume "8 \<le> cls \<and> (\<exists>(a, b) \<in> set (nm_claims cls k (it\<lparr>it_claimed := 0\<rparr>)). a = b)"
    then have "it_size it \<le> k * partition_size cls" using empty [of _ _ "it\<lparr>it_claimed := 0\<rparr>"] by fastforce
    then show "concat (map (\<lambda>(a, b). [a..<b]) (nm_claims cls k (it\<lparr>it_claimed := 0\<rparr>))) = [0..<it_size it]"
      unfolding cover by simp
  qed
qed

theorem iteration_claims_exact_witness:
  "concat (map (\<lambda>(a, b). [a..<b]) (nm_claims 64 3 \<lparr>it_table = Some 0, it_size = 20, it_claimed = 0\<rparr>)) = [0..<20]"
proof -
  have "(20, 20) \<in> set (nm_claims 64 3 (\<lparr>it_table = Some 0, it_size = 20, it_claimed = 0\<rparr>\<lparr>it_claimed := 0\<rparr>))"
    by (simp add: numeral_3_eq_3 nm_claim_def partition_size_def Let_def)
  then show ?thesis
    using iteration_claims_exact [of 64 3 "\<lparr>it_table = Some 0, it_size = 20, it_claimed = 0\<rparr>"] by auto
qed

end
