(* ===== verification/Z_Relocation_Select.thy ===== *)
theory Z_Relocation_Select
  imports Z_Page_Type Z_Forwarding_Table "HOL-Library.Multiset"
begin

text \<open>
  The choice of the pages to relocate, \<open>zRelocationSetSelector.hpp\<close>, \<open>.inline.hpp\<close> and \<open>.cpp\<close>: a group
  for each page type collects the live pages with enough garbage, semi-sorts them by live bytes with a
  counting sort, and selects a prefix; the selector combines the groups. Floating-point arithmetic and the
  virtual machine's functions on powers of two are arguments: the page fragmentation limit of a group, the
  number of pages needed for so many live bytes, and the comparison of the reclaimable space with the
  fragmentation limit. Logging and events are left out.
\<close>

record sel_env =
  se_exact_log2 :: "u64 \<Rightarrow> nat"
  se_round_up :: "u32 \<Rightarrow> u32"
  se_to_pages :: "u64 \<Rightarrow> u64 \<Rightarrow> int"
  se_reclaims :: "int \<Rightarrow> int \<Rightarrow> bool"

record sel_stats =
  st_npages_candidates :: u64
  st_total :: u64
  st_live :: u64
  st_empty :: u64
  st_npages_selected :: u64
  st_relocate :: u64

record sel_group =
  sg_page_type :: z_page_type
  sg_page_size :: u64
  sg_object_size_limit :: u64
  sg_page_fragmentation_limit :: u64
  sg_live_pages :: "z_page list"
  sg_not_selected_pages :: "z_page list"
  sg_forwarding_entries :: u64
  sg_stats :: "z_page_age \<Rightarrow> sel_stats"

definition sel_stats_new :: sel_stats where
  "sel_stats_new = \<lparr>st_npages_candidates = 0, st_total = 0, st_live = 0, st_empty = 0, st_npages_selected = 0, st_relocate = 0\<rparr>"

definition sel_group_new :: "z_page_type \<Rightarrow> u64 \<Rightarrow> u64 \<Rightarrow> u64 \<Rightarrow> sel_group" where
  "sel_group_new type page_sz object_size_limit page_fragmentation_limit =
     \<lparr>sg_page_type = type, sg_page_size = page_sz, sg_object_size_limit = object_size_limit,
      sg_page_fragmentation_limit = page_fragmentation_limit, sg_live_pages = [], sg_not_selected_pages = [],
      sg_forwarding_entries = 0, sg_stats = (\<lambda>_. sel_stats_new)\<rparr>"

definition page_live_bytes :: "z_page \<Rightarrow> u64" where
  "page_live_bytes pg = lm_live_bytes (pg_livemap pg)"

definition page_is_young :: "z_page \<Rightarrow> bool" where
  "page_is_young pg \<longleftrightarrow> pg_generation_id pg = GenYoung"

definition page_nentries :: "sel_env \<Rightarrow> z_page \<Rightarrow> u64" where
  "page_nentries e pg = ucast (fwd_nentries (se_round_up e) (lm_live_objects (pg_livemap pg)))"

subsection \<open>Registering pages\<close>

definition sg_register_live_page :: "z_page \<Rightarrow> sel_group \<Rightarrow> sel_group" where
  "sg_register_live_page pg g =
     (let live = page_live_bytes pg;
          garbage = page_size pg - live;
          g = (if pg_type pg \<noteq> LargePage \<and> garbage > sg_page_fragmentation_limit g
               then g\<lparr>sg_live_pages := sg_live_pages g @ [pg]\<rparr>
               else if page_is_young pg then g\<lparr>sg_not_selected_pages := sg_not_selected_pages g @ [pg]\<rparr> else g);
          st = sg_stats g (pg_age pg)
      in g\<lparr>sg_stats := (sg_stats g)(pg_age pg :=
           st\<lparr>st_npages_candidates := st_npages_candidates st + 1, st_total := st_total st + page_size pg, st_live := st_live st + live\<rparr>)\<rparr>)"

definition sg_register_empty_page :: "z_page \<Rightarrow> sel_group \<Rightarrow> sel_group" where
  "sg_register_empty_page pg g =
     (let st = sg_stats g (pg_age pg)
      in g\<lparr>sg_stats := (sg_stats g)(pg_age pg :=
           st\<lparr>st_npages_candidates := st_npages_candidates st + 1, st_total := st_total st + page_size pg,
              st_empty := st_empty st + page_size pg\<rparr>)\<rparr>)"

definition sg_is_disabled :: "sel_group \<Rightarrow> bool" where
  "sg_is_disabled g \<longleftrightarrow> sg_page_type g = MediumPage \<and> sg_page_size g = 0"

definition sg_is_selectable :: "sel_group \<Rightarrow> bool" where
  "sg_is_selectable g \<longleftrightarrow> sg_page_type g \<noteq> LargePage"

subsection \<open>The counting sort\<close>

definition npartitions_shift :: nat where
  "npartitions_shift = 11"

definition npartitions :: nat where
  "npartitions = 2 ^ npartitions_shift"

definition count_slots :: "('a \<Rightarrow> nat) \<Rightarrow> 'a list \<Rightarrow> nat list \<Rightarrow> nat list" where
  "count_slots index pages partitions = fold (\<lambda>pg ps. ps[index pg := ps ! index pg + 1]) pages partitions"

fun slots_to_fingers :: "nat \<Rightarrow> nat list \<Rightarrow> nat list" where
  "slots_to_fingers finger [] = []"
| "slots_to_fingers finger (slots # partitions) = finger # slots_to_fingers (finger + slots) partitions"

definition place_pages :: "('a \<Rightarrow> nat) \<Rightarrow> 'a list \<Rightarrow> nat list \<times> 'a option list \<Rightarrow> nat list \<times> 'a option list" where
  "place_pages index pages st =
     fold (\<lambda>pg (ps, sorted_pages). (ps[index pg := ps ! index pg + 1], sorted_pages[ps ! index pg := Some pg])) pages st"

definition partition_index :: "sel_env \<Rightarrow> u64 \<Rightarrow> z_page \<Rightarrow> nat" where
  "partition_index e page_sz pg = unat (drop_bit (se_exact_log2 e (drop_bit npartitions_shift page_sz)) (page_live_bytes pg))"

definition semi_sort :: "sel_env \<Rightarrow> u64 \<Rightarrow> z_page list \<Rightarrow> z_page option list" where
  "semi_sort e page_sz live_pages =
     (let index = partition_index e page_sz;
          partitions = count_slots index live_pages (replicate npartitions 0);
          partitions = slots_to_fingers 0 partitions
      in snd (place_pages index live_pages (partitions, replicate (length live_pages) None)))"

subsection \<open>Selecting a prefix\<close>

record sel_scan =
  sc_selected_from :: nat
  sc_selected_to :: int
  sc_npages_selected :: "z_page_age \<Rightarrow> u64"
  sc_selected_live_bytes :: "z_page_age \<Rightarrow> u64"
  sc_selected_forwarding_entries :: u64
  sc_from_live_bytes :: u64
  sc_from_forwarding_entries :: u64

definition sel_scan_new :: sel_scan where
  "sel_scan_new = \<lparr>sc_selected_from = 0, sc_selected_to = 0, sc_npages_selected = (\<lambda>_. 0), sc_selected_live_bytes = (\<lambda>_. 0),
     sc_selected_forwarding_entries = 0, sc_from_live_bytes = 0, sc_from_forwarding_entries = 0\<rparr>"

definition select_page :: "sel_env \<Rightarrow> sel_group \<Rightarrow> nat \<Rightarrow> z_page \<Rightarrow> sel_scan \<Rightarrow> sel_scan" where
  "select_page e g from_pages pg sc =
     (let live = page_live_bytes pg;
          sc = sc\<lparr>sc_from_live_bytes := sc_from_live_bytes sc + live,
                  sc_from_forwarding_entries := sc_from_forwarding_entries sc + page_nentries e pg\<rparr>;
          to_pages = se_to_pages e (sc_from_live_bytes sc) (sg_page_size g - sg_object_size_limit g);
          diff_from = int from_pages - int (sc_selected_from sc);
          diff_to = to_pages - sc_selected_to sc
      in if se_reclaims e diff_to diff_from
         then sc\<lparr>sc_selected_from := from_pages, sc_selected_to := to_pages,
                 sc_selected_live_bytes := (sc_selected_live_bytes sc)(pg_age pg := sc_selected_live_bytes sc (pg_age pg) + live),
                 sc_npages_selected := (sc_npages_selected sc)(pg_age pg := sc_npages_selected sc (pg_age pg) + 1),
                 sc_selected_forwarding_entries := sc_from_forwarding_entries sc\<rparr>
         else sc)"

fun select_scan :: "sel_env \<Rightarrow> sel_group \<Rightarrow> nat \<Rightarrow> z_page list \<Rightarrow> sel_scan \<Rightarrow> sel_scan" where
  "select_scan e g from_pages [] sc = sc"
| "select_scan e g from_pages (pg # pages) sc = select_scan e g (from_pages + 1) pages (select_page e g from_pages pg sc)"

definition sg_select_inner :: "sel_env \<Rightarrow> sel_group \<Rightarrow> sel_group" where
  "sg_select_inner e g =
     (let live = map the (semi_sort e (sg_page_size g) (sg_live_pages g));
          sc = select_scan e g 1 live sel_scan_new
      in g\<lparr>sg_not_selected_pages := sg_not_selected_pages g @ filter page_is_young (drop (sc_selected_from sc) live),
           sg_live_pages := take (sc_selected_from sc) live,
           sg_forwarding_entries := sc_selected_forwarding_entries sc,
           sg_stats := (\<lambda>age. (sg_stats g age)\<lparr>st_relocate := sc_selected_live_bytes sc age, st_npages_selected := sc_npages_selected sc age\<rparr>)\<rparr>)"

definition sg_select :: "sel_env \<Rightarrow> sel_group \<Rightarrow> sel_group" where
  "sg_select e g =
     (if sg_is_disabled g then g
      else if sg_is_selectable g then sg_select_inner e g
      else g\<lparr>sg_not_selected_pages := sg_not_selected_pages g @ sg_live_pages g\<rparr>)"

subsection \<open>The selector\<close>

record z_selector =
  zs_small :: sel_group
  zs_medium :: sel_group
  zs_large :: sel_group
  zs_empty_pages :: "z_page list"

definition selector_new :: "z_params \<Rightarrow> u64 \<Rightarrow> u64 \<Rightarrow> (u64 \<Rightarrow> u64) \<Rightarrow> z_selector" where
  "selector_new P small_object_limit medium_object_limit fragmentation_limit =
     \<lparr>zs_small = sel_group_new SmallPage ZPageSizeSmall small_object_limit (fragmentation_limit ZPageSizeSmall),
      zs_medium = sel_group_new MediumPage (page_size_medium P) medium_object_limit (fragmentation_limit (page_size_medium P)),
      zs_large = sel_group_new LargePage 0 0 (fragmentation_limit 0), zs_empty_pages = []\<rparr>"

definition on_group :: "z_page_type \<Rightarrow> (sel_group \<Rightarrow> sel_group) \<Rightarrow> z_selector \<Rightarrow> z_selector" where
  "on_group type f s =
     (if type = SmallPage then s\<lparr>zs_small := f (zs_small s)\<rparr>
      else if type = MediumPage then s\<lparr>zs_medium := f (zs_medium s)\<rparr> else s\<lparr>zs_large := f (zs_large s)\<rparr>)"

definition zs_register_live_page :: "z_page \<Rightarrow> z_selector \<Rightarrow> z_selector" where
  "zs_register_live_page pg s = on_group (pg_type pg) (sg_register_live_page pg) s"

definition zs_register_empty_page :: "z_page \<Rightarrow> z_selector \<Rightarrow> z_selector" where
  "zs_register_empty_page pg s =
     (let s = on_group (pg_type pg) (sg_register_empty_page pg) s in s\<lparr>zs_empty_pages := zs_empty_pages s @ [pg]\<rparr>)"

definition should_free_empty_pages :: "int \<Rightarrow> z_selector \<Rightarrow> bool" where
  "should_free_empty_pages bulk s \<longleftrightarrow> int (length (zs_empty_pages s)) \<ge> bulk \<and> zs_empty_pages s \<noteq> []"

definition clear_empty_pages :: "z_selector \<Rightarrow> z_selector" where
  "clear_empty_pages s = s\<lparr>zs_empty_pages := []\<rparr>"

definition all_ages :: "z_page_age list" where
  "all_ages = [Eden, Survivor1, Survivor2, Survivor3, Survivor4, Survivor5, Survivor6, Survivor7, Survivor8, Survivor9,
     Survivor10, Survivor11, Survivor12, Survivor13, Survivor14, AgeOld]"

definition sum_stats :: "(sel_stats \<Rightarrow> u64) \<Rightarrow> z_selector \<Rightarrow> u64" where
  "sum_stats f s = fold (\<lambda>age sum. sum + (f (sg_stats (zs_small s) age) + f (sg_stats (zs_medium s) age) + f (sg_stats (zs_large s) age))) all_ages 0"

definition zs_total :: "z_selector \<Rightarrow> u64" where
  "zs_total s = sum_stats st_total s"

definition zs_empty :: "z_selector \<Rightarrow> u64" where
  "zs_empty s = sum_stats st_empty s"

definition zs_relocate :: "z_selector \<Rightarrow> u64" where
  "zs_relocate s = sum_stats st_relocate s"

definition has_relocatable_pages :: "z_selector \<Rightarrow> bool" where
  "has_relocatable_pages s \<longleftrightarrow> zs_total s > 0"

definition zs_select :: "sel_env \<Rightarrow> z_selector \<Rightarrow> z_selector" where
  "zs_select e s =
     (let s = s\<lparr>zs_large := sg_select e (zs_large s)\<rparr>;
          s = s\<lparr>zs_medium := sg_select e (zs_medium s)\<rparr>
      in s\<lparr>zs_small := sg_select e (zs_small s)\<rparr>)"

definition zs_forwarding_entries :: "z_selector \<Rightarrow> u64" where
  "zs_forwarding_entries s = sg_forwarding_entries (zs_small s) + sg_forwarding_entries (zs_medium s)"

subsection \<open>The counting sort is a stable sort\<close>

definition bucket :: "('a \<Rightarrow> nat) \<Rightarrow> 'a list \<Rightarrow> nat \<Rightarrow> 'a list" where
  "bucket index xs b = filter (\<lambda>x. index x = b) xs"

definition bucket_start :: "('a \<Rightarrow> nat) \<Rightarrow> 'a list \<Rightarrow> nat \<Rightarrow> nat" where
  "bucket_start index xs b = length (concat (map (bucket index xs) [0..<b]))"

lemma count_slots_spec:
  assumes "\<forall>x \<in> set xs. index x < length ps"
  shows "length (count_slots index xs ps) = length ps"
    "b < length ps \<Longrightarrow> count_slots index xs ps ! b = ps ! b + length (bucket index xs b)"
  using assms by (induction xs arbitrary: ps) (auto simp: count_slots_def bucket_def nth_list_update)

lemma slots_to_fingers_spec:
  "length (slots_to_fingers f ps) = length ps" "b < length ps \<Longrightarrow> slots_to_fingers f ps ! b = f + sum_list (take b ps)"
proof (induction ps arbitrary: f b)
  case (Cons p ps)
  { case 1 show ?case using Cons(1) by simp }
  { case 2 then show ?case using Cons(2) by (cases b) auto }
qed simp_all

lemma bucket_start_Suc: "bucket_start index xs (Suc b) = bucket_start index xs b + length (bucket index xs b)"
  by (simp add: bucket_start_def)

lemma bucket_start_mono: "a \<le> b \<Longrightarrow> bucket_start index xs a \<le> bucket_start index xs b"
  by (induction b) (auto simp: bucket_start_Suc le_Suc_eq)

lemma fingers_are_starts:
  assumes "\<forall>x \<in> set xs. index x < n" "b < n"
  shows "slots_to_fingers 0 (count_slots index xs (replicate n 0)) ! b = bucket_start index xs b"
proof -
  let ?c = "count_slots index xs (replicate n 0)"
  have c: "length ?c = n" "\<And>k. k < n \<Longrightarrow> ?c ! k = length (bucket index xs k)"
    using count_slots_spec [of xs index "replicate n 0"] assms(1) by simp_all
  have "take b ?c = map (\<lambda>k. length (bucket index xs k)) [0..<b]"
    using c assms(2) by (intro nth_equalityI) simp_all
  then have "sum_list (take b ?c) = bucket_start index xs b" by (simp add: bucket_start_def length_concat o_def)
  then show ?thesis using slots_to_fingers_spec(2) [of b ?c 0] c assms(2) by simp
qed

lemma buckets_mset: "mset (concat (map (bucket index xs) [0..<n])) = mset (filter (\<lambda>x. index x < n) xs)"
proof (induction n)
  case (Suc n)
  have "mset (filter (\<lambda>x. index x < Suc n) xs) = mset (filter (\<lambda>x. index x < n) xs) + mset (filter (\<lambda>x. index x = n) xs)"
    by (induction xs) (auto simp: less_Suc_eq)
  then show ?case using Suc by (simp add: bucket_def)
qed simp

lemma bucket_of_buckets:
  "filter (\<lambda>x. index x = k) (concat (map (bucket index xs) [0..<n])) = (if k < n then bucket index xs k else [])"
proof (induction n)
  case (Suc n)
  have "filter (\<lambda>x. index x = k) (bucket index xs n) = (if k = n then bucket index xs n else [])"
    by (auto simp: bucket_def filter_empty_conv)
  then show ?case using Suc by auto
qed simp

lemma buckets_sorted: "sorted (map index (concat (map (bucket index xs) [0..<n])))"
proof (induction n)
  case (Suc n)
  have "sorted (map index (bucket index xs n))"
  proof -
    have "\<forall>y \<in> set (map index (bucket index xs n)). y = n" by (auto simp: bucket_def)
    then show ?thesis by (simp add: sorted_iff_nth_mono)
  qed
  moreover have "\<forall>x \<in> set (concat (map (bucket index xs) [0..<n])). index x \<le> n" by (auto simp: bucket_def)
  ultimately show ?case using Suc by (auto simp: sorted_append bucket_def)
qed simp

lemma buckets_are_sort:
  assumes "\<forall>x \<in> set xs. index x < n"
  shows "concat (map (bucket index xs) [0..<n]) = sort_key index xs"
proof (rule properties_for_sort_key [symmetric])
  have "filter (\<lambda>x. index x < n) xs = xs" using assms by (simp add: filter_id_conv)
  then show "mset (concat (map (bucket index xs) [0..<n])) = mset xs" by (simp only: buckets_mset)
  fix k assume "k \<in> set (concat (map (bucket index xs) [0..<n]))"
  then have "index k < n" by (auto simp: bucket_def)
  then have "filter (\<lambda>x. index x = index k) (concat (map (bucket index xs) [0..<n])) = filter (\<lambda>x. index x = index k) xs"
    unfolding bucket_of_buckets by (simp add: bucket_def)
  then show "filter (\<lambda>x. index k = index x) (concat (map (bucket index xs) [0..<n])) = filter (\<lambda>x. index k = index x) xs"
    by (simp only: eq_commute [of "index k"])
qed (rule buckets_sorted)

lemma bucket_prefix_less:
  assumes "xs = ys @ x # zs"
  shows "length (bucket index ys (index x)) < length (bucket index xs (index x))"
    "bucket index xs (index x) ! length (bucket index ys (index x)) = x"
  using assms by (simp_all add: bucket_def)

lemma bucket_ends:
  assumes "\<forall>x \<in> set xs. index x < n" "b < n" "j < length (bucket index xs b)"
  shows "bucket_start index xs b + j < length xs"
proof -
  have "bucket_start index xs n = length xs"
    unfolding bucket_start_def buckets_are_sort [OF assms(1)] by simp
  moreover have "bucket_start index xs (Suc b) \<le> bucket_start index xs n" using assms(2) by (intro bucket_start_mono) simp
  ultimately show ?thesis using assms(3) by (simp add: bucket_start_Suc)
qed

lemma bucket_slots_disjoint:
  assumes "j < length (bucket index xs b)" "j' < length (bucket index xs b')"
    "bucket_start index xs b + j = bucket_start index xs b' + j'"
  shows "b = b' \<and> j = j'"
proof -
  have "bucket_start index xs b + j < bucket_start index xs b'" if "b < b'" "j < length (bucket index xs b)" for b b' j
    using bucket_start_mono [of "Suc b" b' index xs] that by (simp add: bucket_start_Suc)
  then have "b = b'" using assms by (metis less_add_same_cancel1 linorder_neqE_nat not_add_less1 trans_less_add1)
  then show ?thesis using assms(3) by simp
qed

text \<open>After the pages \<open>ys\<close> have been placed.\<close>

definition placed :: "('a \<Rightarrow> nat) \<Rightarrow> nat \<Rightarrow> 'a list \<Rightarrow> 'a list \<Rightarrow> nat list \<times> 'a option list \<Rightarrow> bool" where
  "placed index n xs ys st \<longleftrightarrow> length (fst st) = n \<and> length (snd st) = length xs
     \<and> (\<forall>b < n. fst st ! b = bucket_start index xs b + length (bucket index ys b))
     \<and> (\<forall>b < n. \<forall>j < length (bucket index ys b). snd st ! (bucket_start index xs b + j) = Some (bucket index xs b ! j))"

lemma placed_step:
  assumes "placed index n xs ys (ps, dest)" "xs = ys @ x # zs" "\<forall>x \<in> set xs. index x < n"
  shows "placed index n xs (ys @ [x]) (ps[index x := ps ! index x + 1], dest[ps ! index x := Some x])"
proof -
  let ?b = "index x" and ?c = "length (bucket index ys (index x))"
  have b: "?b < n" using assms(2,3) by simp
  have p: "ps ! ?b = bucket_start index xs ?b + ?c" using assms(1) b by (simp add: placed_def)
  note pre = bucket_prefix_less [OF assms(2), of index]
  have inside: "ps ! ?b < length xs" unfolding p by (rule bucket_ends [OF assms(3) b pre(1)])
  have len: "length (bucket index (ys @ [x]) k) = length (bucket index ys k) + (if k = ?b then 1 else 0)" for k
    by (simp add: bucket_def)
  have le: "length (bucket index ys k) \<le> length (bucket index xs k)" for k using assms(2) by (simp add: bucket_def)
  have "dest[ps ! ?b := Some x] ! (bucket_start index xs k + j) = Some (bucket index xs k ! j)"
    if k: "k < n" "j < length (bucket index (ys @ [x]) k)" for k j
  proof (cases "k = ?b \<and> j = ?c")
    case True
    then show ?thesis using inside p pre(2) assms(1) by (simp add: placed_def)
  next
    case False
    then have j: "j < length (bucket index ys k)" using k(2) len [of k] by (auto split: if_splits)
    have "ps ! ?b \<noteq> bucket_start index xs k + j"
    proof
      assume "ps ! ?b = bucket_start index xs k + j"
      then have "?b = k \<and> ?c = j" using bucket_slots_disjoint [OF pre(1) _] j le [of k] p by (metis order_less_le_trans)
      then show False using False by auto
    qed
    then show ?thesis using assms(1) k(1) j by (simp add: placed_def)
  qed
  then show ?thesis using assms(1) p b len by (auto simp: placed_def nth_list_update)
qed

lemma place_pages_spec:
  assumes "placed index n xs ys st" "xs = ys @ zs" "\<forall>x \<in> set xs. index x < n"
  shows "placed index n xs xs (place_pages index zs st)"
  using assms(1,2)
proof (induction zs arbitrary: ys st)
  case (Cons z zs)
  obtain ps dest where st: "st = (ps, dest)" by fastforce
  have "placed index n xs (ys @ [z]) (ps[index z := ps ! index z + 1], dest[ps ! index z := Some z])"
    using placed_step [of index n xs ys ps dest z zs] Cons.prems assms(3) st by simp
  from Cons.IH [OF this] Cons.prems(2) show ?case by (simp add: place_pages_def st)
qed (simp add: place_pages_def)

lemma nth_concat_buckets:
  "p < length (concat Ls) \<Longrightarrow> \<exists>b j. b < length Ls \<and> j < length (Ls ! b) \<and> p = length (concat (take b Ls)) + j \<and> concat Ls ! p = Ls ! b ! j"
proof (induction Ls arbitrary: p)
  case (Cons L Ls)
  show ?case
  proof (cases "p < length L")
    case True
    then show ?thesis by (intro exI [of _ 0] exI [of _ p]) (simp add: nth_append)
  next
    case False
    then have "p - length L < length (concat Ls)" using Cons.prems by simp
    from Cons.IH [OF this] obtain b j where "b < length Ls" "j < length (Ls ! b)" "p - length L = length (concat (take b Ls)) + j"
      "concat Ls ! (p - length L) = Ls ! b ! j" by blast
    then show ?thesis using False by (intro exI [of _ "Suc b"] exI [of _ j]) (simp add: nth_append)
  qed
qed simp

lemma counting_sort:
  assumes "\<forall>x \<in> set xs. index x < n"
  shows "snd (place_pages index xs (slots_to_fingers 0 (count_slots index xs (replicate n 0)), replicate (length xs) None)) = map Some (sort_key index xs)"
proof -
  let ?st = "(slots_to_fingers 0 (count_slots index xs (replicate n 0)), replicate (length xs) None)"
  have "placed index n xs [] ?st"
    using fingers_are_starts [of xs index n] assms count_slots_spec(1) [of xs index "replicate n 0"]
    by (simp add: placed_def slots_to_fingers_spec(1) bucket_def)
  from place_pages_spec [OF this _ assms] have pl: "placed index n xs xs (place_pages index xs ?st)" by simp
  let ?L = "concat (map (bucket index xs) [0..<n])"
  have sorted: "?L = sort_key index xs" by (rule buckets_are_sort [OF assms])
  show ?thesis
  proof (rule nth_equalityI)
    show "length (snd (place_pages index xs ?st)) = length (map Some (sort_key index xs))" using pl by (simp add: placed_def)
    fix p assume "p < length (snd (place_pages index xs ?st))"
    then have p: "p < length ?L" using pl sorted by (simp add: placed_def)
    from nth_concat_buckets [OF this] obtain b j where bj: "b < n" "j < length (bucket index xs b)"
      "p = length (concat (take b (map (bucket index xs) [0..<n]))) + j" "?L ! p = bucket index xs b ! j" by auto
    have "take b (map (bucket index xs) [0..<n]) = map (bucket index xs) [0..<b]" using bj(1) by (simp add: take_map)
    then have "p = bucket_start index xs b + j" using bj(3) by (simp add: bucket_start_def)
    then have "snd (place_pages index xs ?st) ! p = Some (?L ! p)" using pl bj by (simp add: placed_def)
    then show "snd (place_pages index xs ?st) ! p = map Some (sort_key index xs) ! p" using p sorted by simp
  qed
qed

lemma partition_index_div:
  assumes "page_sz = push_bit m 1" "11 \<le> m" "m < 64" "se_exact_log2 e (push_bit (m - 11) 1) = m - 11"
  shows "partition_index e page_sz pg = unat (page_live_bytes pg) div 2 ^ (m - 11)"
    "page_live_bytes pg < page_sz \<Longrightarrow> partition_index e page_sz pg < npartitions"
proof -
  have "drop_bit 11 (push_bit m 1 :: u64) = push_bit (m - 11) 1"
    by (rule bit_word_eqI) (use assms(2,3) in \<open>auto simp: bit_drop_bit_eq push_bit_eq_mult bit_exp_iff\<close>)
  then have "partition_index e page_sz pg = unat (drop_bit (m - 11) (page_live_bytes pg))"
    by (simp only: partition_index_def npartitions_shift_def assms(1,4))
  also have "\<dots> = drop_bit (m - 11) (unat (page_live_bytes pg))" by (rule unat_drop_bit_eq)
  finally show div: "partition_index e page_sz pg = unat (page_live_bytes pg) div 2 ^ (m - 11)"
    by (simp only: drop_bit_eq_div)
  assume "page_live_bytes pg < page_sz"
  then have "unat (page_live_bytes pg) < 2 ^ m" using assms(3) by (simp add: word_less_nat_alt assms(1) push_bit_eq_mult unat_pow2)
  also have "(2::nat) ^ m = 2 ^ (11 + (m - 11))" using assms(2) by simp
  also have "\<dots> = 2 ^ 11 * 2 ^ (m - 11)" by (rule power_add)
  finally show "partition_index e page_sz pg < npartitions"
    unfolding div npartitions_def npartitions_shift_def by (rule less_mult_imp_div_less)
qed

lemma semi_sort_spec:
  assumes "page_sz = push_bit m 1" "11 \<le> m" "m < 64" "se_exact_log2 e (push_bit (m - 11) 1) = m - 11"
    "\<forall>pg \<in> set pages. page_live_bytes pg < page_sz"
  shows "semi_sort e page_sz pages = map Some (sort_key (\<lambda>pg. unat (page_live_bytes pg) div 2 ^ (m - 11)) pages)"
proof -
  note d = partition_index_div [OF assms(1-4)]
  have "\<forall>pg \<in> set pages. partition_index e page_sz pg < npartitions" using d(2) assms(5) by blast
  from counting_sort [OF this] have "semi_sort e page_sz pages = map Some (sort_key (partition_index e page_sz) pages)"
    by (simp add: semi_sort_def)
  also have "partition_index e page_sz = (\<lambda>pg. unat (page_live_bytes pg) div 2 ^ (m - 11))" using d(1) by (intro ext)
  finally show ?thesis .
qed

text \<open>The scan: what has been added up, and that the selection is the prefix accepted last.\<close>

definition scan_inv :: "sel_env \<Rightarrow> z_page list \<Rightarrow> sel_scan \<Rightarrow> bool" where
  "scan_inv e seen sc \<longleftrightarrow> sc_selected_from sc \<le> length seen
     \<and> sc_from_forwarding_entries sc = sum_list (map (page_nentries e) seen)
     \<and> sc_selected_forwarding_entries sc = sum_list (map (page_nentries e) (take (sc_selected_from sc) seen))"

lemma select_page_inv:
  assumes "scan_inv e seen sc"
  shows "scan_inv e (seen @ [pg]) (select_page e g (length seen + 1) pg sc)"
  using assms by (auto simp: scan_inv_def select_page_def Let_def)

lemma select_scan_inv:
  "scan_inv e seen sc \<Longrightarrow> scan_inv e (seen @ pages) (select_scan e g (length seen + 1) pages sc)"
proof (induction pages arbitrary: seen sc)
  case (Cons pg pages)
  from Cons.IH [OF select_page_inv [OF Cons.prems, of pg g]] show ?case by simp
qed simp

lemma select_inner_spec:
  assumes "sg_page_size g = push_bit m 1" "11 \<le> m" "m < 64" "se_exact_log2 e (push_bit (m - 11) 1) = m - 11"
    "\<forall>pg \<in> set (sg_live_pages g). page_live_bytes pg < sg_page_size g"
  shows "\<exists>dropped. sg_live_pages (sg_select_inner e g) @ dropped = sort_key (\<lambda>pg. unat (page_live_bytes pg) div 2 ^ (m - 11)) (sg_live_pages g)
    \<and> sg_not_selected_pages (sg_select_inner e g) = sg_not_selected_pages g @ filter page_is_young dropped
    \<and> sg_forwarding_entries (sg_select_inner e g) = sum_list (map (page_nentries e) (sg_live_pages (sg_select_inner e g)))"
proof -
  let ?live = "sort_key (\<lambda>pg. unat (page_live_bytes pg) div 2 ^ (m - 11)) (sg_live_pages g)"
  have live: "map the (semi_sort e (sg_page_size g) (sg_live_pages g)) = ?live"
    unfolding semi_sort_spec [OF assms] by (simp add: o_def)
  define sc where "sc = select_scan e g (Suc 0) ?live sel_scan_new"
  have "scan_inv e ?live sc"
    using select_scan_inv [of e "[]" sel_scan_new ?live g] by (simp add: sc_def scan_inv_def sel_scan_new_def)
  then have fe: "sc_selected_forwarding_entries sc = sum_list (map (page_nentries e) (take (sc_selected_from sc) ?live))"
    by (simp add: scan_inv_def)
  show ?thesis
    by (rule exI [of _ "drop (sc_selected_from sc) ?live"]) (simp add: sg_select_inner_def live sc_def [symmetric] fe Let_def)
qed

subsection \<open>Registering and selecting\<close>

definition enough_garbage :: "u64 \<Rightarrow> z_page \<Rightarrow> bool" where
  "enough_garbage limit pg \<longleftrightarrow> pg_type pg \<noteq> LargePage \<and> page_size pg - page_live_bytes pg > limit"

lemma register_all:
  "sg_live_pages (fold sg_register_live_page pages g) = sg_live_pages g @ filter (enough_garbage (sg_page_fragmentation_limit g)) pages"
  "sg_not_selected_pages (fold sg_register_live_page pages g)
     = sg_not_selected_pages g @ filter (\<lambda>pg. \<not> enough_garbage (sg_page_fragmentation_limit g) pg \<and> page_is_young pg) pages"
  "sg_page_type (fold sg_register_live_page pages g) = sg_page_type g" "sg_page_size (fold sg_register_live_page pages g) = sg_page_size g"
  "sg_page_fragmentation_limit (fold sg_register_live_page pages g) = sg_page_fragmentation_limit g"
  by (induction pages arbitrary: g) (auto simp: sg_register_live_page_def enough_garbage_def Let_def)

lemma register_by_type:
  "zs_small (fold zs_register_live_page pages s) = fold sg_register_live_page (filter (\<lambda>pg. pg_type pg = SmallPage) pages) (zs_small s)"
  "zs_medium (fold zs_register_live_page pages s) = fold sg_register_live_page (filter (\<lambda>pg. pg_type pg = MediumPage) pages) (zs_medium s)"
  "zs_large (fold zs_register_live_page pages s) = fold sg_register_live_page (filter (\<lambda>pg. pg_type pg = LargePage) pages) (zs_large s)"
proof (induction pages arbitrary: s)
  case (Cons pg pages)
  { case 1 show ?case using Cons(1) by (cases "pg_type pg") (simp_all add: zs_register_live_page_def on_group_def) }
  { case 2 show ?case using Cons(2) by (cases "pg_type pg") (simp_all add: zs_register_live_page_def on_group_def) }
  { case 3 show ?case using Cons(3) by (cases "pg_type pg") (simp_all add: zs_register_live_page_def on_group_def) }
qed simp_all

lemma mset_young_split: "mset (filter page_is_young xs) = mset (filter (\<lambda>x. P x \<and> page_is_young x) xs) + mset (filter (\<lambda>x. \<not> P x \<and> page_is_young x) xs)"
  by (induction xs) auto

text \<open>In a group whose pages are those of its type, every young page is selected or not selected.\<close>

lemma group_keeps_young:
  assumes "sg_page_size g = push_bit m 1" "11 \<le> m" "m < 64" "se_exact_log2 e (push_bit (m - 11) 1) = m - 11"
    "g = fold sg_register_live_page pages (sel_group_new type page_sz ol limit)" "type \<noteq> LargePage"
    "\<forall>pg \<in> set pages. page_size pg = page_sz \<and> page_live_bytes pg \<le> page_sz"
  shows "mset (filter page_is_young pages) = mset (filter page_is_young (sg_live_pages (sg_select e g))) + mset (sg_not_selected_pages (sg_select e g))"
    "set (sg_live_pages (sg_select e g)) \<subseteq> {pg \<in> set pages. enough_garbage limit pg}"
proof -
  have sz: "sg_page_size g = page_sz" "sg_page_type g = type" "sg_live_pages g = filter (enough_garbage limit) pages"
    "sg_not_selected_pages g = filter (\<lambda>pg. \<not> enough_garbage limit pg \<and> page_is_young pg) pages"
    by (simp_all add: assms(5) register_all) (simp_all add: sel_group_new_def)
  have "\<forall>pg \<in> set (sg_live_pages g). page_live_bytes pg < sg_page_size g"
    using assms(7) by (auto simp: sz enough_garbage_def less_le)
  from select_inner_spec [OF assms(1-4) this] obtain dropped where d:
    "sg_live_pages (sg_select_inner e g) @ dropped = sort_key (\<lambda>pg. unat (page_live_bytes pg) div 2 ^ (m - 11)) (sg_live_pages g)"
    "sg_not_selected_pages (sg_select_inner e g) = sg_not_selected_pages g @ filter page_is_young dropped" by blast
  have "unat page_sz = 2 ^ m" using assms(1,3) sz(1) by (simp add: push_bit_eq_mult unat_pow2)
  then have "page_sz \<noteq> 0" by auto
  then have sel: "sg_select e g = sg_select_inner e g"
    using assms(6) sz by (simp add: sg_select_def sg_is_disabled_def sg_is_selectable_def)
  have all: "mset (sg_live_pages (sg_select_inner e g)) + mset dropped = mset (filter (enough_garbage limit) pages)"
    using arg_cong [OF d(1), of mset] sz(3) by simp
  have "filter_mset page_is_young (mset (sg_live_pages (sg_select_inner e g))) + filter_mset page_is_young (mset dropped)
      = mset (filter (\<lambda>x. enough_garbage limit x \<and> page_is_young x) pages)"
    using arg_cong [OF all, of "filter_mset page_is_young"] by (simp add: filter_filter_mset conj_commute)
  then show "mset (filter page_is_young pages) = mset (filter page_is_young (sg_live_pages (sg_select e g))) + mset (sg_not_selected_pages (sg_select e g))"
    unfolding sel d(2) sz(4) mset_young_split [of pages "enough_garbage limit"] by (simp add: ac_simps)
  have "set (sg_live_pages (sg_select_inner e g)) \<subseteq> set (sg_live_pages g)" using arg_cong [OF d(1), of set] by auto
  then show "set (sg_live_pages (sg_select e g)) \<subseteq> {pg \<in> set pages. enough_garbage limit pg}" unfolding sel sz(3) by auto
qed

subsection \<open>Properties\<close>

text \<open>A sound environment: the logarithm is right on the partition sizes of small and medium pages. The size of medium
pages is zero when they are disabled (\<open>ZHeuristics::set_medium_page_size\<close>).\<close>

definition sel_env_ok :: "sel_env \<Rightarrow> z_params \<Rightarrow> bool" where
  "sel_env_ok e P \<longleftrightarrow> se_exact_log2 e (push_bit 10 1) = 10
     \<and> (page_size_medium P = 0
          \<or> (\<exists>m. page_size_medium P = push_bit m 1 \<and> 11 \<le> m \<and> m < 64 \<and> se_exact_log2 e (push_bit (m - 11) 1) = m - 11))"

definition env_sel_demo :: sel_env where
  "env_sel_demo = \<lparr>se_exact_log2 = (\<lambda>x. if x = 1024 then 10 else 14), se_round_up = (\<lambda>x. x),
     se_to_pages = (\<lambda>live denom. if live = 0 then 0 else int (unat live) div int (unat denom) + 1),
     se_reclaims = (\<lambda>diff_to diff_from. 100 * diff_to < 95 * diff_from)\<rparr>"

definition sel_page_demo :: "u64 \<Rightarrow> u64 \<Rightarrow> z_page" where
  "sel_page_demo start live = page_inc_live 1 live (page_new type_params_demo (\<lambda>_. False) 0 SmallPage
     \<lparr>vm_start = start, vm_end = start + 0x200000\<rparr>)"

lemma sel_page_demo_facts: "page_live_bytes (sel_page_demo s l) = l" "pg_type (sel_page_demo s l) = SmallPage" "page_size (sel_page_demo s l) = 0x200000"
  "page_is_young (sel_page_demo s l)" "lm_live_objects (pg_livemap (sel_page_demo s l)) = 1"
  by (simp_all add: sel_page_demo_def page_inc_live_def page_live_bytes_def livemap_inc_live_def page_new_def livemap_new_def page_size_def
      page_is_young_def Let_def)

text \<open>C7. The semi-sort of the relocation set selector is a stable sort: for a page size that is a power of two of at
least 2048 bytes and pages whose live bytes are less than that, it returns the pages in ascending order of their
live bytes divided by the partition size, pages of one partition in the order in which they were registered, no
slot is left without a page, and every index into the 2048 partitions is in bounds.\<close>

theorem semi_sort_is_stable_sort:
  assumes "page_sz = push_bit m 1" "11 \<le> m" "m < 64" "se_exact_log2 e (push_bit (m - 11) 1) = m - 11"
    "\<forall>pg \<in> set pages. page_live_bytes pg < page_sz"
  shows "semi_sort e page_sz pages = map Some (sort_key (\<lambda>pg. unat (page_live_bytes pg) div 2 ^ (m - 11)) pages)
    \<and> (\<forall>pg \<in> set pages. partition_index e page_sz pg < npartitions)"
  using semi_sort_spec [OF assms] partition_index_div(2) [OF assms(1-4)] assms(5) by blast

theorem semi_sort_is_stable_sort_witness:
  "semi_sort env_sel_demo (push_bit 21 1) [sel_page_demo 0 5000, sel_page_demo 0x200000 100, sel_page_demo 0x400000 1500, sel_page_demo 0x600000 90]
   = map Some [sel_page_demo 0x200000 100, sel_page_demo 0x600000 90, sel_page_demo 0x400000 1500, sel_page_demo 0 5000]"
proof -
  have log: "se_exact_log2 env_sel_demo (push_bit (21 - 11) 1) = 21 - 11" by (simp add: env_sel_demo_def)
  have le: "\<forall>pg \<in> set [sel_page_demo 0 5000, sel_page_demo 0x200000 100, sel_page_demo 0x400000 1500, sel_page_demo 0x600000 90].
      page_live_bytes pg < push_bit 21 1" by (simp add: sel_page_demo_facts)
  from semi_sort_is_stable_sort [OF refl _ _ log le] show ?thesis by (simp add: sel_page_demo_facts)
qed

text \<open>A group selects a prefix and accounts for it: the selected pages followed by the dropped ones are the live
pages in semi-sorted order, the young ones among the dropped pages, and nothing else, are added to the pages not
selected, and the number of forwarding entries to be allocated is the sum over the selected pages; so it is right
also when the scan first rejected a page that a later one brought in.\<close>

theorem select_inner_prefix:
  assumes "sg_page_size g = push_bit m 1" "11 \<le> m" "m < 64" "se_exact_log2 e (push_bit (m - 11) 1) = m - 11"
    "\<forall>pg \<in> set (sg_live_pages g). page_live_bytes pg < sg_page_size g"
  shows "\<exists>dropped. sg_live_pages (sg_select_inner e g) @ dropped = sort_key (\<lambda>pg. unat (page_live_bytes pg) div 2 ^ (m - 11)) (sg_live_pages g)
    \<and> sg_not_selected_pages (sg_select_inner e g) = sg_not_selected_pages g @ filter page_is_young dropped
    \<and> sg_forwarding_entries (sg_select_inner e g) = sum_list (map (page_nentries e) (sg_live_pages (sg_select_inner e g)))"
  by (rule select_inner_spec [OF assms])

definition sel_group_demo :: sel_group where
  "sel_group_demo = (sel_group_new SmallPage (push_bit 21 1) 0x40000 0x19999)\<lparr>sg_live_pages := [sel_page_demo 0 5000, sel_page_demo 0x200000 100]\<rparr>"

theorem select_inner_prefix_witness:
  "\<exists>dropped. sg_live_pages (sg_select_inner env_sel_demo sel_group_demo) @ dropped = [sel_page_demo 0x200000 100, sel_page_demo 0 5000]"
proof -
  have "sg_page_size sel_group_demo = push_bit 21 1" "sg_live_pages sel_group_demo = [sel_page_demo 0 5000, sel_page_demo 0x200000 100]"
    by (simp_all add: sel_group_demo_def sel_group_new_def)
  moreover have "se_exact_log2 env_sel_demo (push_bit (21 - 11) 1) = 21 - 11" by (simp add: env_sel_demo_def)
  ultimately show ?thesis
    using select_inner_prefix [of sel_group_demo 21 env_sel_demo] by (auto simp: sel_page_demo_facts)
qed

text \<open>What the relocation statistics count: the page at which the scan accepts, not those it had rejected before.\<close>

lemma select_stats_miss_pages:
  "length (sg_live_pages (sg_select_inner env_sel_demo sel_group_demo)) = 2"
  "st_npages_selected (sg_stats (sg_select_inner env_sel_demo sel_group_demo) Eden) = 1"
  "st_relocate (sg_stats (sg_select_inner env_sel_demo sel_group_demo) Eden) = 5000"
proof -
  have age: "pg_age (sel_page_demo s l) = Eden" for s l by (simp add: sel_page_demo_def page_inc_live_def page_new_def Let_def)
  have d: "sg_page_size sel_group_demo = push_bit 21 1" "sg_live_pages sel_group_demo = [sel_page_demo 0 5000, sel_page_demo 0x200000 100]"
    "sg_object_size_limit sel_group_demo = 0x40000" by (simp_all add: sel_group_demo_def sel_group_new_def)
  have log: "se_exact_log2 env_sel_demo (push_bit (21 - 11) 1) = 21 - 11" by (simp add: env_sel_demo_def)
  have le: "\<forall>pg \<in> set (sg_live_pages sel_group_demo). page_live_bytes pg < push_bit 21 1" by (simp add: sel_page_demo_facts d)
  have s: "map the (semi_sort env_sel_demo (push_bit 21 1) (sg_live_pages sel_group_demo)) = [sel_page_demo 0x200000 100, sel_page_demo 0 5000]"
    using semi_sort_spec [OF refl _ _ log le] by (simp add: sel_page_demo_facts d)
  show "length (sg_live_pages (sg_select_inner env_sel_demo sel_group_demo)) = 2"
    "st_npages_selected (sg_stats (sg_select_inner env_sel_demo sel_group_demo) Eden) = 1"
    "st_relocate (sg_stats (sg_select_inner env_sel_demo sel_group_demo) Eden) = 5000"
    unfolding sg_select_inner_def d(1) s Let_def
    by (simp_all add: select_page_def sel_scan_new_def env_sel_demo_def age sel_page_demo_facts d Let_def)
qed

text \<open>The medium group, also when medium pages are disabled: then it takes no live page.\<close>

lemma medium_group_keeps_young:
  fixes limit :: u64 and frag :: "u64 \<Rightarrow> u64"
  assumes "sel_env_ok e P"
    and d: "\<forall>pg \<in> set pages. page_size pg = page_size_medium P \<and> page_live_bytes pg \<le> page_size_medium P"
  defines "g \<equiv> fold sg_register_live_page pages (sel_group_new MediumPage (page_size_medium P) limit (frag (page_size_medium P)))"
  shows "mset (filter page_is_young pages) = mset (filter page_is_young (sg_live_pages (sg_select e g)))
        + mset (sg_not_selected_pages (sg_select e g))
    \<and> set (sg_live_pages (sg_select e g)) \<subseteq> {pg \<in> set pages. enough_garbage (frag (page_size_medium P)) pg}"
proof (cases "page_size_medium P = 0")
  case True
  then have "\<not> enough_garbage n pg" if "pg \<in> set pages" for n pg using d that by (simp add: enough_garbage_def)
  then have "sg_page_type g = MediumPage \<and> sg_page_size g = 0 \<and> sg_live_pages g = [] \<and> sg_not_selected_pages g = filter page_is_young pages"
    unfolding g_def by (simp only: register_all) (auto simp: sel_group_new_def True filter_empty_conv intro!: filter_cong)
  then show ?thesis by (simp add: sg_select_def sg_is_disabled_def)
next
  case False
  then obtain m where m: "page_size_medium P = push_bit m 1" "11 \<le> m" "m < 64" "se_exact_log2 e (push_bit (m - 11) 1) = m - 11"
    using assms(1) by (auto simp: sel_env_ok_def)
  have "sg_page_size g = push_bit m 1" unfolding g_def by (simp only: register_all) (simp add: sel_group_new_def m(1))
  note k = group_keeps_young [OF this [unfolded g_def] m(2,3,4) refl _ d, folded g_def]
  show ?thesis using k by simp
qed

text \<open>C8. No young page is forgotten when the relocation set is chosen: after any pages have been registered as live
and the selection has run, every young page among them has been selected for relocation or is in one of the
lists of pages not selected, exactly as often as it was registered, so that it is either relocated or aged in
place; and only registered small and medium pages with more garbage than the page fragmentation limit of their
group are selected. Medium pages may be disabled.\<close>

theorem selector_keeps_young_pages:
  assumes "sel_env_ok e P"
    "\<forall>pg \<in> set pages. (pg_type pg = SmallPage \<longrightarrow> page_size pg = ZPageSizeSmall) \<and> (pg_type pg = MediumPage \<longrightarrow> page_size pg = page_size_medium P)
       \<and> page_live_bytes pg \<le> page_size pg"
    "s = zs_select e (fold zs_register_live_page pages (selector_new P small_limit medium_limit frag))"
  shows "mset (filter page_is_young pages)
      = mset (filter page_is_young (sg_live_pages (zs_small s) @ sg_live_pages (zs_medium s)))
        + mset (sg_not_selected_pages (zs_small s) @ sg_not_selected_pages (zs_medium s) @ sg_not_selected_pages (zs_large s))
    \<and> set (sg_live_pages (zs_small s) @ sg_live_pages (zs_medium s))
        \<subseteq> {pg \<in> set pages. pg_type pg \<noteq> LargePage \<and> page_size pg - page_live_bytes pg > frag (page_size pg)}"
proof -
  let ?of = "\<lambda>type. filter (\<lambda>pg. pg_type pg = type) pages"
  let ?sg = "fold sg_register_live_page (?of SmallPage) (sel_group_new SmallPage ZPageSizeSmall small_limit (frag ZPageSizeSmall))"
  let ?mg = "fold sg_register_live_page (?of MediumPage) (sel_group_new MediumPage (page_size_medium P) medium_limit (frag (page_size_medium P)))"
  let ?lg = "fold sg_register_live_page (?of LargePage) (sel_group_new LargePage 0 0 (frag 0))"
  have z: "zs_small s = sg_select e ?sg" "zs_medium s = sg_select e ?mg" "zs_large s = sg_select e ?lg"
    by (simp_all add: assms(3) zs_select_def Let_def register_by_type selector_new_def)
  have small: "sg_page_size ?sg = push_bit 21 1" by (simp only: register_all) (simp add: sel_group_new_def ZPageSizeSmall_def ZPageSizeSmallShift_def)
  have log: "se_exact_log2 e (push_bit (21 - 11) 1) = 21 - 11" using assms(1) by (simp add: sel_env_ok_def)
  have s: "\<forall>pg \<in> set (?of SmallPage). page_size pg = ZPageSizeSmall \<and> page_live_bytes pg \<le> ZPageSizeSmall"
    and d: "\<forall>pg \<in> set (?of MediumPage). page_size pg = page_size_medium P \<and> page_live_bytes pg \<le> page_size_medium P"
    using assms(2) by auto
  note sy = group_keeps_young [OF small _ _ log refl _ s]
  have my: "mset (filter page_is_young (?of MediumPage)) = mset (filter page_is_young (sg_live_pages (sg_select e ?mg)))
        + mset (sg_not_selected_pages (sg_select e ?mg))"
      "set (sg_live_pages (sg_select e ?mg)) \<subseteq> {pg \<in> set (?of MediumPage). enough_garbage (frag (page_size_medium P)) pg}"
    using medium_group_keeps_young [OF assms(1) d] by blast+
  have lg: "sg_not_selected_pages (sg_select e ?lg) = filter (\<lambda>pg. page_is_young pg) (?of LargePage)"
  proof -
    have f: "sg_page_type ?lg = LargePage" "sg_live_pages ?lg = []" "sg_not_selected_pages ?lg = filter page_is_young (?of LargePage)"
      by (simp_all only: register_all) (auto simp: sel_group_new_def enough_garbage_def filter_empty_conv intro!: filter_cong)
    then show ?thesis by (simp add: sg_select_def sg_is_disabled_def sg_is_selectable_def)
  qed
  have types: "mset xs = mset (filter (\<lambda>pg. pg_type pg = SmallPage) xs) + mset (filter (\<lambda>pg. pg_type pg = MediumPage) xs)
      + mset (filter (\<lambda>pg. pg_type pg = LargePage) xs)" for xs
    by (induction xs) (auto intro: z_page_type.exhaust)
  have swap: "filter (\<lambda>pg. pg_type pg = type) (filter page_is_young pages) = filter page_is_young (?of type)" for type
    by (simp add: conj_commute)
  have "mset (filter page_is_young pages) = mset (filter page_is_young (?of SmallPage)) + mset (filter page_is_young (?of MediumPage))
      + mset (filter page_is_young (?of LargePage))"
    using types [of "filter page_is_young pages"] unfolding swap .
  then have "mset (filter page_is_young pages)
      = mset (filter page_is_young (sg_live_pages (zs_small s) @ sg_live_pages (zs_medium s)))
        + mset (sg_not_selected_pages (zs_small s) @ sg_not_selected_pages (zs_medium s) @ sg_not_selected_pages (zs_large s))"
    unfolding z lg using sy(1) my(1) by (simp add: ac_simps)
  moreover have "set (sg_live_pages (zs_small s) @ sg_live_pages (zs_medium s))
        \<subseteq> {pg \<in> set pages. pg_type pg \<noteq> LargePage \<and> page_size pg - page_live_bytes pg > frag (page_size pg)}"
    using sy(2) my(2) s d unfolding z by (auto simp: enough_garbage_def)
  ultimately show ?thesis by blast
qed

definition selector_demo :: z_selector where
  "selector_demo = zs_select env_sel_demo (fold zs_register_live_page [sel_page_demo 0 5000, sel_page_demo 0x200000 100]
     (selector_new type_params_demo 0x40000 0x400000 (\<lambda>sz. sz div 20)))"

theorem selector_keeps_young_pages_witness:
  "size (mset (filter page_is_young (sg_live_pages (zs_small selector_demo) @ sg_live_pages (zs_medium selector_demo)))
     + mset (sg_not_selected_pages (zs_small selector_demo) @ sg_not_selected_pages (zs_medium selector_demo)
         @ sg_not_selected_pages (zs_large selector_demo))) = 2"
proof -
  have e: "sel_env_ok env_sel_demo type_params_demo"
    unfolding sel_env_ok_def by (intro conjI disjI2 exI [of _ 25]) (simp_all add: env_sel_demo_def type_params_demo_def)
  have p: "\<forall>pg \<in> set [sel_page_demo 0 5000, sel_page_demo 0x200000 100]. (pg_type pg = SmallPage \<longrightarrow> page_size pg = ZPageSizeSmall)
      \<and> (pg_type pg = MediumPage \<longrightarrow> page_size pg = page_size_medium type_params_demo) \<and> page_live_bytes pg \<le> page_size pg"
    by (simp add: sel_page_demo_facts ZPageSizeSmall_def ZPageSizeSmallShift_def)
  have "size (mset (filter page_is_young [sel_page_demo 0 5000, sel_page_demo 0x200000 100])) = 2" by (simp add: sel_page_demo_facts)
  then show ?thesis unfolding conjunct1 [OF selector_keeps_young_pages [OF e p selector_demo_def]] .
qed

end
