(* ===== verification/Z_Physical.thy ===== *)
theory Z_Physical
  imports Z_Memory
begin

text \<open>
  Physical memory, \<open>zPhysicalMemory.hpp\<close>, \<open>.inline.hpp\<close> and \<open>.cpp\<close>: a list of segments of the backing
  file, each committed or not, and the manager that hands out unused parts of the file with the free list of
  \<open>Z_Memory\<close>. Offsets are natural numbers, as the file is far smaller than the address space. Committing and
  uncommitting are done by the operating system, which reports how many bytes succeeded: these are arguments.
  Mapping into the address space, touching memory and the set-up of uncommitting are left out.
\<close>

record phys_segment =
  ps_start :: nat
  ps_end :: nat
  ps_committed :: bool

definition seg_new :: "nat \<Rightarrow> nat \<Rightarrow> bool \<Rightarrow> phys_segment" where
  "seg_new start sz committed = \<lparr>ps_start = start, ps_end = start + sz, ps_committed = committed\<rparr>"

definition seg_size :: "phys_segment \<Rightarrow> nat" where
  "seg_size s = ps_end s - ps_start s"

definition pm_size :: "phys_segment list \<Rightarrow> nat" where
  "pm_size xs = fold (\<lambda>s sz. sz + seg_size s) xs 0"

definition insert_segment :: "nat \<Rightarrow> phys_segment \<Rightarrow> phys_segment list \<Rightarrow> phys_segment list" where
  "insert_segment index s xs = take index xs @ s # drop index xs"

definition replace_segment :: "nat \<Rightarrow> phys_segment \<Rightarrow> phys_segment list \<Rightarrow> phys_segment list" where
  "replace_segment index s xs = xs[index := s]"

definition remove_segment :: "nat \<Rightarrow> phys_segment list \<Rightarrow> phys_segment list" where
  "remove_segment index xs = take index xs @ drop (Suc index) xs"

definition is_mergable :: "phys_segment \<Rightarrow> phys_segment \<Rightarrow> bool" where
  "is_mergable before after \<longleftrightarrow> ps_end before = ps_start after \<and> ps_committed before = ps_committed after"

fun add_segment_loop :: "phys_segment \<Rightarrow> phys_segment list \<Rightarrow> nat \<Rightarrow> phys_segment list" where
  "add_segment_loop s xs 0 =
     (if length xs > 0 \<and> is_mergable s (xs ! 0)
      then replace_segment 0 (seg_new (ps_start s) (seg_size s + seg_size (xs ! 0)) (ps_committed s)) xs
      else insert_segment 0 (seg_new (ps_start s) (seg_size s) (ps_committed s)) xs)"
| "add_segment_loop s xs (Suc current) =
     (if ps_end (xs ! current) \<le> ps_start s
      then if is_mergable (xs ! current) s
           then if current + 1 < length xs \<and> is_mergable s (xs ! (current + 1))
                then remove_segment (current + 1) (replace_segment current (seg_new (ps_start (xs ! current))
                       (seg_size (xs ! current) + seg_size s + seg_size (xs ! (current + 1))) (ps_committed s)) xs)
                else replace_segment current (seg_new (ps_start (xs ! current)) (seg_size (xs ! current) + seg_size s) (ps_committed s)) xs
           else if current + 1 < length xs \<and> is_mergable s (xs ! (current + 1))
                then replace_segment (current + 1) (seg_new (ps_start s) (seg_size s + seg_size (xs ! (current + 1))) (ps_committed s)) xs
                else insert_segment (current + 1) (seg_new (ps_start s) (seg_size s) (ps_committed s)) xs
      else add_segment_loop s xs current)"

definition add_segment :: "phys_segment \<Rightarrow> phys_segment list \<Rightarrow> phys_segment list" where
  "add_segment s xs = add_segment_loop s xs (length xs)"

definition add_segments :: "phys_segment list \<Rightarrow> phys_segment list \<Rightarrow> phys_segment list" where
  "add_segments ys xs = fold add_segment ys xs"

definition commit_segment :: "nat \<Rightarrow> nat \<Rightarrow> phys_segment list \<Rightarrow> bool \<times> phys_segment list" where
  "commit_segment index sz xs =
     (if sz = seg_size (xs ! index) then (True, xs[index := (xs ! index)\<lparr>ps_committed := True\<rparr>])
      else if sz > 0
      then let ys = insert_segment (index + 1) (seg_new (ps_start (xs ! index) + sz) (seg_size (xs ! index) - sz) False) xs
           in (False, replace_segment index (seg_new (ps_start (ys ! index)) sz True) ys)
      else (False, xs))"

definition uncommit_segment :: "nat \<Rightarrow> nat \<Rightarrow> phys_segment list \<Rightarrow> bool \<times> phys_segment list" where
  "uncommit_segment index sz xs =
     (if sz = seg_size (xs ! index) then (True, xs[index := (xs ! index)\<lparr>ps_committed := False\<rparr>])
      else if sz > 0
      then let ys = insert_segment (index + 1) (seg_new (ps_start (xs ! index) + sz) (seg_size (xs ! index) - sz) True) xs
           in (False, replace_segment index (seg_new (ps_start (ys ! index)) sz False) ys)
      else (False, xs))"

text \<open>The loops of \<open>split\<close> and \<open>split_committed\<close>: the new memory and the segments kept, which are written over
  the front of the list and are never more than those read.\<close>

definition split_step :: "nat \<Rightarrow> phys_segment \<Rightarrow> phys_segment list \<times> phys_segment list \<Rightarrow> phys_segment list \<times> phys_segment list" where
  "split_step sz s st =
     (case st of (pmem, kept) \<Rightarrow>
        if pm_size pmem < sz
        then if pm_size pmem + seg_size s \<le> sz then (add_segment s pmem, kept)
             else let split_size = sz - pm_size pmem
                  in (add_segment (seg_new (ps_start s) split_size (ps_committed s)) pmem,
                      kept @ [seg_new (ps_start s + split_size) (seg_size s - split_size) (ps_committed s)])
        else (pmem, kept @ [s]))"

definition pm_split :: "nat \<Rightarrow> phys_segment list \<Rightarrow> phys_segment list \<times> phys_segment list" where
  "pm_split sz xs = fold (split_step sz) xs ([], [])"

definition pm_split_committed :: "phys_segment list \<Rightarrow> phys_segment list \<times> phys_segment list" where
  "pm_split_committed xs =
     fold (\<lambda>s (pmem, kept). if ps_committed s then (add_segment s pmem, kept) else (pmem, kept @ [s])) xs ([], [])"

subsection \<open>The manager\<close>

definition phys_manager_new :: "nat \<Rightarrow> zm_manager" where
  "phys_manager_new max_capacity = zmm_free zmm_new 0 max_capacity"

partial_function (option) phys_alloc :: "zm_manager \<Rightarrow> phys_segment list \<Rightarrow> nat \<Rightarrow> (zm_manager \<times> phys_segment list) option" where
  "phys_alloc m pmem sz =
     (if sz = 0 then Some (m, pmem)
      else let r = alloc_low_address_at_most m sz
           in case fst (fst r) of
                None \<Rightarrow> None
              | Some start \<Rightarrow> phys_alloc (snd r) (add_segment (seg_new start (snd (fst r)) False) pmem) (sz - snd (fst r)))"

definition phys_free :: "phys_segment list \<Rightarrow> zm_manager \<Rightarrow> zm_manager" where
  "phys_free pmem m = fold (\<lambda>s m. zmm_free m (ps_start s) (seg_size s)) pmem m"

function commit_loop :: "(nat \<Rightarrow> nat \<Rightarrow> nat) \<Rightarrow> nat \<Rightarrow> phys_segment list \<Rightarrow> bool \<times> phys_segment list" where
  "commit_loop backing i xs =
     (if i < length xs
      then if ps_committed (xs ! i) then commit_loop backing (i + 1) xs
           else case commit_segment i (backing (ps_start (xs ! i)) (seg_size (xs ! i))) xs of
                  (False, ys) \<Rightarrow> (False, ys)
                | (True, ys) \<Rightarrow> commit_loop backing (i + 1) ys
      else (True, xs))"
  by pat_completeness auto
termination
  by (relation "measure (\<lambda>(b, i, xs). length xs - i)") (auto simp: commit_segment_def Let_def split: if_splits)

definition phys_commit :: "(nat \<Rightarrow> nat \<Rightarrow> nat) \<Rightarrow> phys_segment list \<Rightarrow> bool \<times> phys_segment list" where
  "phys_commit backing pmem = commit_loop backing 0 pmem"

function uncommit_loop :: "(nat \<Rightarrow> nat \<Rightarrow> nat) \<Rightarrow> nat \<Rightarrow> phys_segment list \<Rightarrow> bool \<times> phys_segment list" where
  "uncommit_loop backing i xs =
     (if i < length xs
      then if \<not> ps_committed (xs ! i) then uncommit_loop backing (i + 1) xs
           else case uncommit_segment i (backing (ps_start (xs ! i)) (seg_size (xs ! i))) xs of
                  (False, ys) \<Rightarrow> (False, ys)
                | (True, ys) \<Rightarrow> uncommit_loop backing (i + 1) ys
      else (True, xs))"
  by pat_completeness auto
termination
  by (relation "measure (\<lambda>(b, i, xs). length xs - i)") (auto simp: uncommit_segment_def Let_def split: if_splits)

definition phys_uncommit :: "(nat \<Rightarrow> nat \<Rightarrow> nat) \<Rightarrow> phys_segment list \<Rightarrow> bool \<times> phys_segment list" where
  "phys_uncommit backing pmem = uncommit_loop backing 0 pmem"

declare commit_loop.simps [simp del] uncommit_loop.simps [simp del]

subsection \<open>What a list of segments stands for\<close>

text \<open>Segments are not empty, in address order and do not overlap; they give a committed flag to each offset.\<close>

fun pm_ok :: "nat \<Rightarrow> phys_segment list \<Rightarrow> bool" where
  "pm_ok lo [] \<longleftrightarrow> True"
| "pm_ok lo (s # xs) \<longleftrightarrow> lo \<le> ps_start s \<and> ps_start s < ps_end s \<and> pm_ok (ps_end s) xs"

definition in_seg :: "nat \<Rightarrow> phys_segment \<Rightarrow> bool" where
  "in_seg x s \<longleftrightarrow> ps_start s \<le> x \<and> x < ps_end s"

fun pm_at :: "phys_segment list \<Rightarrow> nat \<Rightarrow> bool option" where
  "pm_at [] x = None"
| "pm_at (s # xs) x = (if in_seg x s then Some (ps_committed s) else pm_at xs x)"

text \<open>No two neighbours can be merged.\<close>

fun pm_merged :: "phys_segment list \<Rightarrow> bool" where
  "pm_merged [] \<longleftrightarrow> True"
| "pm_merged (s # xs) \<longleftrightarrow> (case xs of [] \<Rightarrow> True | s' # _ \<Rightarrow> \<not> is_mergable s s') \<and> pm_merged xs"

definition pm_end :: "nat \<Rightarrow> phys_segment list \<Rightarrow> nat" where
  "pm_end lo xs = (if xs = [] then lo else ps_end (last xs))"

lemma pm_ok_mono: "pm_ok lo xs \<Longrightarrow> lo' \<le> lo \<Longrightarrow> pm_ok lo' xs"
  by (cases xs) auto

lemma pm_ok_append: "pm_ok lo (xs @ ys) \<longleftrightarrow> pm_ok lo xs \<and> pm_ok (pm_end lo xs) ys"
  by (induction xs arbitrary: lo) (auto simp: pm_end_def)

lemma pm_end_ge: "pm_ok lo xs \<Longrightarrow> lo \<le> pm_end lo xs \<and> (\<forall>s \<in> set xs. lo \<le> ps_start s \<and> ps_start s < ps_end s \<and> ps_end s \<le> pm_end lo xs)"
proof (induction xs arbitrary: lo)
  case (Cons s xs)
  then have "ps_end s \<le> pm_end (ps_end s) xs \<and> (\<forall>t \<in> set xs. ps_end s \<le> ps_start t \<and> ps_start t < ps_end t \<and> ps_end t \<le> pm_end (ps_end s) xs)"
    using Cons.IH [of "ps_end s"] by simp
  moreover have "pm_end lo (s # xs) = pm_end (ps_end s) xs" by (simp add: pm_end_def)
  ultimately show ?case using Cons.prems by fastforce
qed (simp add: pm_end_def)

lemma pm_at_append: "pm_at (xs @ ys) x = (case pm_at xs x of None \<Rightarrow> pm_at ys x | Some c \<Rightarrow> Some c)"
  by (induction xs) auto

lemma pm_at_None: "pm_at xs x = None \<longleftrightarrow> (\<forall>s \<in> set xs. \<not> in_seg x s)"
  by (induction xs) auto

lemma pm_at_dom: "pm_at xs x \<noteq> None \<longleftrightarrow> (\<exists>s \<in> set xs. in_seg x s)"
  by (auto simp: pm_at_None)

lemma pm_at_Some_in: "pm_at xs x = Some c \<Longrightarrow> \<exists>s \<in> set xs. in_seg x s \<and> ps_committed s = c"
  by (induction xs) (auto split: if_splits)

lemma pm_size_sum: "pm_size xs = sum_list (map seg_size xs)"
proof -
  have "fold (\<lambda>s sz. sz + seg_size s) xs n = n + sum_list (map seg_size xs)" for n
    by (induction xs arbitrary: n) auto
  then show ?thesis by (simp add: pm_size_def)
qed

lemma pm_size_simps [simp]: "pm_size [] = 0" "pm_size (s # xs) = seg_size s + pm_size xs" "pm_size (xs @ ys) = pm_size xs + pm_size ys"
  by (simp_all add: pm_size_sum)

lemma seg_new_simps [simp]: "ps_start (seg_new a n c) = a" "ps_end (seg_new a n c) = a + n" "ps_committed (seg_new a n c) = c"
  "seg_size (seg_new a n c) = n"
  by (simp_all add: seg_new_def seg_size_def)

lemma seg_new_same: "ps_start s \<le> ps_end s \<Longrightarrow> seg_new (ps_start s) (seg_size s) (ps_committed s) = s"
  by (cases s) (simp add: seg_new_def seg_size_def)

lemma pm_merged_append:
  "pm_merged (xs @ ys) \<longleftrightarrow> pm_merged xs \<and> pm_merged ys \<and> (xs \<noteq> [] \<longrightarrow> ys \<noteq> [] \<longrightarrow> \<not> is_mergable (last xs) (hd ys))"
proof (induction xs)
  case (Cons x xs)
  then show ?case by (cases xs; cases ys) auto
qed simp

text \<open>The number of offsets is the size.\<close>

lemma pm_size_card:
  assumes "pm_ok lo xs"
  shows "finite (dom (pm_at xs))" "pm_size xs = card (dom (pm_at xs))"
proof -
  have "finite (dom (pm_at xs)) \<and> pm_size xs = card (dom (pm_at xs))"
    using assms
  proof (induction xs arbitrary: lo)
    case (Cons s xs)
    have seg: "{x. in_seg x s} = {ps_start s..<ps_end s}" by (auto simp: in_seg_def)
    have "dom (pm_at (s # xs)) = {ps_start s..<ps_end s} \<union> dom (pm_at xs)"
      unfolding seg [symmetric] by (auto split: if_splits)
    moreover have "{ps_start s..<ps_end s} \<inter> dom (pm_at xs) = {}"
      using pm_end_ge [of "ps_end s" xs] Cons.prems by (auto dest!: pm_at_Some_in simp: in_seg_def)
    moreover have "finite (dom (pm_at xs))" "pm_size xs = card (dom (pm_at xs))" using Cons.IH [of "ps_end s"] Cons.prems by simp_all
    ultimately show ?case by (simp only: pm_size_simps) (simp add: card_Un_disjoint seg_size_def del: pm_at.simps)
  qed (simp add: dom_def)
  then show "finite (dom (pm_at xs))" "pm_size xs = card (dom (pm_at xs))" by simp_all
qed

subsection \<open>Adding a segment\<close>

definition joined :: "phys_segment \<Rightarrow> phys_segment list \<Rightarrow> phys_segment list \<Rightarrow> phys_segment list" where
  "joined s pre post =
     (let s' = (case post of b # _ \<Rightarrow> if is_mergable s b then seg_new (ps_start s) (seg_size s + seg_size b) (ps_committed s) else s | [] \<Rightarrow> s);
          post' = (case post of b # bs \<Rightarrow> if is_mergable s b then bs else post | [] \<Rightarrow> [])
      in if pre \<noteq> [] \<and> is_mergable (last pre) s
         then butlast pre @ seg_new (ps_start (last pre)) (seg_size (last pre) + seg_size s') (ps_committed s) # post'
         else pre @ s' # post')"

lemma add_segment_joined:
  assumes "\<forall>a \<in> set pre. ps_end a \<le> ps_start s" "\<forall>b \<in> set post. ps_end s \<le> ps_start b \<and> ps_start b < ps_end b" "ps_start s < ps_end s"
  shows "add_segment s (pre @ post) = joined s pre post"
proof -
  have same: "seg_new (ps_start s) (seg_size s) (ps_committed s) = s" using assms(3) by (simp add: seg_new_same)
  have skip: "add_segment_loop s (pre @ post) (length pre + k) = add_segment_loop s (pre @ post) (length pre)" if "k \<le> length post" for k
    using that
  proof (induction k)
    case (Suc k)
    then have "(pre @ post) ! (length pre + k) \<in> set post" by (simp add: nth_append)
    then have "\<not> ps_end ((pre @ post) ! (length pre + k)) \<le> ps_start s" using assms(2,3) by force
    then show ?case using Suc by simp
  qed simp
  have "add_segment s (pre @ post) = add_segment_loop s (pre @ post) (length pre)"
    using skip [of "length post"] by (simp add: add_segment_def)
  also have "\<dots> = joined s pre post"
  proof (cases pre rule: rev_cases)
    case Nil
    then show ?thesis
      by (cases post) (simp_all add: joined_def same replace_segment_def insert_segment_def)
  next
    case (snoc p c)
    then have c: "ps_end c \<le> ps_start s" using assms(1) by simp
    show ?thesis
      using c by (cases post) (auto simp: snoc joined_def same replace_segment_def insert_segment_def remove_segment_def
          nth_append list_update_append add.assoc Let_def)
  qed
  finally show ?thesis .
qed

lemma pm_at_iff:
  assumes "pm_ok lo xs"
  shows "pm_at xs x = Some c \<longleftrightarrow> (\<exists>s \<in> set xs. in_seg x s \<and> ps_committed s = c)"
  using assms
proof (induction xs arbitrary: lo)
  case (Cons s xs)
  have "\<not> in_seg x t" if "in_seg x s" "t \<in> set xs" for t
    using that pm_end_ge [of "ps_end s" xs] Cons.prems by (auto simp: in_seg_def)
  then show ?case using Cons.IH [of "ps_end s"] Cons.prems by auto
qed simp

lemma pm_end_snoc [simp]: "pm_end lo (xs @ [s]) = ps_end s" "pm_end lo [] = lo"
  by (simp_all add: pm_end_def)

text \<open>Joining two neighbours into one segment.\<close>

lemma join_two:
  assumes "pm_ok lo (xs @ a # b # ys)" "is_mergable a b"
  defines "c \<equiv> seg_new (ps_start a) (seg_size a + seg_size b) (ps_committed a)"
  shows "pm_ok lo (xs @ c # ys)" "pm_at (xs @ c # ys) = pm_at (xs @ a # b # ys)" "pm_size (xs @ c # ys) = pm_size (xs @ a # b # ys)"
    "pm_merged (xs @ [a]) \<Longrightarrow> pm_merged (b # ys) \<Longrightarrow> pm_merged (xs @ c # ys)"
proof -
  have o: "ps_start a < ps_end a" "ps_end a = ps_start b" "ps_start b < ps_end b" "ps_committed b = ps_committed a"
    using assms(1,2) by (auto simp: pm_ok_append is_mergable_def)
  have c: "ps_start c = ps_start a" "ps_end c = ps_end b" "ps_committed c = ps_committed a"
    using o by (simp_all add: c_def seg_size_def)
  show ok: "pm_ok lo (xs @ c # ys)" using assms(1) o c by (auto simp: pm_ok_append)
  show "pm_size (xs @ c # ys) = pm_size (xs @ a # b # ys)" by (simp add: c_def)
  have seg: "in_seg x c \<longleftrightarrow> in_seg x a \<or> in_seg x b" for x using o c by (auto simp: in_seg_def)
  have "pm_at (xs @ c # ys) x = Some d \<longleftrightarrow> pm_at (xs @ a # b # ys) x = Some d" for x d
    unfolding pm_at_iff [OF ok] pm_at_iff [OF assms(1)] using seg c(3) o(4) by auto
  then show "pm_at (xs @ c # ys) = pm_at (xs @ a # b # ys)" by (intro ext) (metis not_None_eq)
  have "is_mergable z c = is_mergable z a" "is_mergable c z = is_mergable b z" for z
    using c o(4) by (simp_all add: is_mergable_def)
  then show "pm_merged (xs @ [a]) \<Longrightarrow> pm_merged (b # ys) \<Longrightarrow> pm_merged (xs @ c # ys)"
    by (cases ys) (auto simp: pm_merged_append)
qed

lemma joined_spec:
  assumes "pm_ok lo (pre @ s # post)" "\<forall>b \<in> set post. ps_end s \<le> ps_start b"
  shows "pm_ok lo (joined s pre post)" "pm_at (joined s pre post) = pm_at (pre @ s # post)" "pm_size (joined s pre post) = pm_size (pre @ s # post)"
    "pm_merged pre \<Longrightarrow> pm_merged post \<Longrightarrow> pm_merged (joined s pre post)"
proof -
  define s' where "s' = (case post of b # _ \<Rightarrow> if is_mergable s b then seg_new (ps_start s) (seg_size s + seg_size b) (ps_committed s) else s | [] \<Rightarrow> s)"
  define post' where "post' = (case post of b # bs \<Rightarrow> if is_mergable s b then bs else post | [] \<Rightarrow> [])"
  have right: "pm_ok lo (pre @ s' # post') \<and> pm_at (pre @ s' # post') = pm_at (pre @ s # post)
    \<and> pm_size (pre @ s' # post') = pm_size (pre @ s # post) \<and> (pm_merged post \<longrightarrow> pm_merged (s' # post'))
    \<and> ps_start s' = ps_start s \<and> ps_committed s' = ps_committed s"
  proof (cases post)
    case Nil
    then show ?thesis using assms(1) by (simp add: s'_def post'_def)
  next
    case (Cons b bs)
    show ?thesis
    proof (cases "is_mergable s b")
      case True
      have ok: "pm_ok lo (pre @ s # b # bs)" using assms(1) Cons by simp
      note j = join_two [OF ok True]
      have "pm_merged (b # bs) \<longrightarrow> pm_merged (s' # post')"
        using join_two(4) [of "ps_start s" "[]" s b bs] True ok Cons by (auto simp: s'_def post'_def pm_ok_append)
      then show ?thesis using j(1-3) True Cons by (simp add: s'_def post'_def)
    next
      case False
      then show ?thesis using assms(1) Cons by (simp add: s'_def post'_def)
    qed
  qed
  have all: "pm_ok lo (joined s pre post) \<and> pm_at (joined s pre post) = pm_at (pre @ s # post) \<and> pm_size (joined s pre post) = pm_size (pre @ s # post)
    \<and> (pm_merged pre \<longrightarrow> pm_merged post \<longrightarrow> pm_merged (joined s pre post))"
  proof (cases "pre \<noteq> [] \<and> is_mergable (last pre) s")
    case True
    then obtain p c where pre: "pre = p @ [c]" by (metis rev_exhaust)
    have m: "is_mergable c s'" using True right by (simp add: pre is_mergable_def)
    have ok: "pm_ok lo (p @ c # s' # post')" using right by (simp add: pre)
    have "ps_committed c = ps_committed s" using True by (simp add: pre is_mergable_def)
    then have out: "joined s pre post = p @ seg_new (ps_start c) (seg_size c + seg_size s') (ps_committed c) # post'"
      using True by (simp add: joined_def s'_def post'_def pre Let_def)
    show ?thesis unfolding out using join_two [OF ok m] right by (simp add: pre)
  next
    case False
    then have out: "joined s pre post = pre @ s' # post'"
      by (simp only: joined_def s'_def [symmetric] post'_def [symmetric] Let_def if_False)
    have "is_mergable z s' = is_mergable z s" for z using right by (simp add: is_mergable_def)
    then show ?thesis unfolding out using right False by (auto simp: pm_merged_append)
  qed
  then show "pm_ok lo (joined s pre post)" "pm_at (joined s pre post) = pm_at (pre @ s # post)" "pm_size (joined s pre post) = pm_size (pre @ s # post)"
    "pm_merged pre \<Longrightarrow> pm_merged post \<Longrightarrow> pm_merged (joined s pre post)" by blast+
qed

text \<open>A segment that overlaps none has a place in the list.\<close>

lemma segment_place:
  assumes "pm_ok lo xs" "ps_start s < ps_end s" "\<forall>t \<in> set xs. ps_end t \<le> ps_start s \<or> ps_end s \<le> ps_start t"
  obtains pre post where "xs = pre @ post" "\<forall>a \<in> set pre. ps_end a \<le> ps_start s" "\<forall>b \<in> set post. ps_end s \<le> ps_start b \<and> ps_start b < ps_end b"
proof
  let ?P = "\<lambda>t. ps_end t \<le> ps_start s"
  show "xs = takeWhile ?P xs @ dropWhile ?P xs" by simp
  show "\<forall>a \<in> set (takeWhile ?P xs). ps_end a \<le> ps_start s" by (auto dest: set_takeWhileD)
  show "\<forall>b \<in> set (dropWhile ?P xs). ps_end s \<le> ps_start b \<and> ps_start b < ps_end b"
    using assms(1,3)
  proof (induction xs arbitrary: lo)
    case (Cons t xs)
    show ?case
    proof (cases "?P t")
      case False
      then have "ps_end s \<le> ps_start t" using Cons.prems(2) by simp
      then show ?thesis using False pm_end_ge [OF Cons.prems(1)] pm_end_ge [of "ps_end t" xs] Cons.prems(1) by fastforce
    qed (use Cons in auto)
  qed simp
qed

lemma add_segment_spec:
  assumes "pm_ok 0 xs" "ps_start s < ps_end s" "\<forall>x. in_seg x s \<longrightarrow> pm_at xs x = None"
  shows "pm_ok 0 (add_segment s xs)" "pm_at (add_segment s xs) x = (if in_seg x s then Some (ps_committed s) else pm_at xs x)"
    "pm_size (add_segment s xs) = pm_size xs + seg_size s" "pm_merged xs \<Longrightarrow> pm_merged (add_segment s xs)"
proof -
  have "ps_end t \<le> ps_start s \<or> ps_end s \<le> ps_start t" if "t \<in> set xs" for t
  proof (rule ccontr)
    assume "\<not> (ps_end t \<le> ps_start s \<or> ps_end s \<le> ps_start t)"
    moreover have "ps_start t < ps_end t" using pm_end_ge [OF assms(1)] that by blast
    ultimately have "in_seg (max (ps_start s) (ps_start t)) s" "in_seg (max (ps_start s) (ps_start t)) t"
      using assms(2) by (auto simp: in_seg_def max_def)
    then show False using assms(3) that pm_at_None by blast
  qed
  then obtain pre post where p: "xs = pre @ post" "\<forall>a \<in> set pre. ps_end a \<le> ps_start s" "\<forall>b \<in> set post. ps_end s \<le> ps_start b \<and> ps_start b < ps_end b"
    using segment_place [OF assms(1,2)] by blast
  have ok: "pm_ok 0 (pre @ s # post)"
  proof -
    have pp: "pm_ok 0 pre" "pm_ok (pm_end 0 pre) post" using assms(1) by (simp_all add: p(1) pm_ok_append)
    have "pm_end 0 pre \<le> ps_start s" using p(2) by (cases pre rule: rev_cases) (auto simp: pm_end_def)
    moreover have "pm_ok (ps_end s) post" using pp(2) p(3) by (cases post) auto
    ultimately show ?thesis using pp(1) assms(2) by (simp add: pm_ok_append)
  qed
  have eq: "add_segment s xs = joined s pre post" unfolding p(1) by (rule add_segment_joined [OF p(2,3) assms(2)])
  have "\<forall>b \<in> set post. ps_end s \<le> ps_start b" using p(3) by blast
  note j = joined_spec [OF ok this]
  show "pm_ok 0 (add_segment s xs)" unfolding eq by (rule j(1))
  show "pm_size (add_segment s xs) = pm_size xs + seg_size s" unfolding eq j(3) by (simp add: p(1))
  show "pm_merged xs \<Longrightarrow> pm_merged (add_segment s xs)" unfolding eq by (rule j(4)) (simp_all add: p(1) pm_merged_append)
  have "pm_at pre x = None" if "in_seg x s"
    using assms(3) that by (auto simp: p(1) pm_at_append split: option.splits)
  then show "pm_at (add_segment s xs) x = (if in_seg x s then Some (ps_committed s) else pm_at xs x)"
    unfolding eq j(2) unfolding p(1) by (auto simp: pm_at_append split: option.splits)
qed

subsection \<open>Splitting\<close>

text \<open>While the segments are read in order: \<open>pmem\<close> holds what was split off, all below the segments kept.\<close>

definition splitting :: "nat \<Rightarrow> phys_segment list \<Rightarrow> nat \<Rightarrow> phys_segment list \<times> phys_segment list \<Rightarrow> bool" where
  "splitting sz seen bnd st \<longleftrightarrow> (case st of (pmem, kept) \<Rightarrow>
     pm_ok 0 pmem \<and> pm_merged pmem \<and> pm_ok 0 kept \<and> pm_end 0 kept \<le> bnd
     \<and> pm_size pmem = min sz (pm_size seen) \<and> (pm_size pmem < sz \<longrightarrow> kept = [])
     \<and> (\<exists>cut \<le> bnd. \<forall>x. pm_at pmem x = (if x < cut then pm_at seen x else None) \<and> pm_at kept x = (if x < cut then None else pm_at seen x)))"

lemma splitting_step:
  assumes "splitting sz seen bnd st" "bnd \<le> ps_start s" "ps_start s < ps_end s" "\<forall>x \<ge> bnd. pm_at seen x = None"
  shows "splitting sz (seen @ [s]) (ps_end s) (split_step sz s st)"
proof -
  obtain pmem kept where st: "st = (pmem, kept)" by fastforce
  have inv: "pm_ok 0 pmem" "pm_merged pmem" "pm_ok 0 kept" "pm_end 0 kept \<le> bnd" "pm_size pmem = min sz (pm_size seen)"
    "pm_size pmem < sz \<Longrightarrow> kept = []"
    using assms(1) by (simp_all add: splitting_def st)
  obtain cut where cut: "cut \<le> bnd" "\<And>x. pm_at pmem x = (if x < cut then pm_at seen x else None)"
    "\<And>x. pm_at kept x = (if x < cut then None else pm_at seen x)"
    using assms(1) unfolding splitting_def st prod.case by blast
  have free: "pm_at pmem x = None" if "ps_start s \<le> x" for x using cut(1,2) assms(2,4) that by simp
  have seen_s: "pm_at (seen @ [s]) x = (if in_seg x s then Some (ps_committed s) else pm_at seen x)" for x
    using assms(2,4) by (auto simp: pm_at_append in_seg_def split: option.split)
  show ?thesis
  proof (cases "pm_size pmem < sz")
    case False
    then have out: "split_step sz s st = (pmem, kept @ [s])" by (simp add: split_step_def st)
    have "\<forall>x. pm_at pmem x = (if x < cut then pm_at (seen @ [s]) x else None)
        \<and> pm_at (kept @ [s]) x = (if x < cut then None else pm_at (seen @ [s]) x)"
    proof (intro allI conjI)
      fix x
      show "pm_at pmem x = (if x < cut then pm_at (seen @ [s]) x else None)"
        using cut assms(2) unfolding seen_s by (auto simp: in_seg_def)
      have "pm_at (kept @ [s]) x = (if in_seg x s then Some (ps_committed s) else pm_at kept x)"
        using cut(3) assms(2,4) by (auto simp: pm_at_append in_seg_def split: option.split)
      then show "pm_at (kept @ [s]) x = (if x < cut then None else pm_at (seen @ [s]) x)"
        unfolding seen_s cut(3) using cut(1) assms(2) by (auto simp: in_seg_def)
    qed
    then show ?thesis
      using inv assms(2,3) cut(1) False by (auto simp: out splitting_def pm_ok_append intro!: exI [of _ cut])
  next
    case True
    then have kept: "kept = []" by (rule inv(6))
    have size: "pm_size pmem = pm_size seen" using True inv(5) by simp
    have low: "pm_at pmem x = pm_at seen x" for x using cut(2,3) kept by (metis pm_at.simps(1))
    show ?thesis
    proof (cases "pm_size pmem + seg_size s \<le> sz")
      case fits: True
      then have out: "split_step sz s st = (add_segment s pmem, [])" using True by (simp add: split_step_def st kept)
      note a = add_segment_spec [OF inv(1) assms(3)]
      have none: "\<forall>x. in_seg x s \<longrightarrow> pm_at pmem x = None" using free by (simp add: in_seg_def)
      have above: "pm_at (seen @ [s]) x = None" if "\<not> x < ps_end s" for x using that assms(2-4) seen_s by (auto simp: in_seg_def)
      have "\<forall>x. pm_at (add_segment s pmem) x = (if x < ps_end s then pm_at (seen @ [s]) x else None)"
        using a(2) [OF none] assms(2-4) low seen_s by (auto simp: in_seg_def)
      then show ?thesis
        using a(1,3,4) [OF none] inv(2) size fits above unfolding out splitting_def by (auto intro!: exI [of _ "ps_end s"])
    next
      case cuts: False
      define d where "d = sz - pm_size pmem"
      define s1 where "s1 = seg_new (ps_start s) d (ps_committed s)"
      define s2 where "s2 = seg_new (ps_start s + d) (seg_size s - d) (ps_committed s)"
      have d: "0 < d" "d < seg_size s" using True cuts by (simp_all add: d_def)
      then have e: "ps_start s + d < ps_end s" "ps_start s + d + (seg_size s - d) = ps_end s" using assms(3) by (simp_all add: seg_size_def)
      have out: "split_step sz s st = (add_segment s1 pmem, [s2])" using True cuts by (simp add: split_step_def st kept d_def s1_def s2_def Let_def)
      have s1: "ps_start s1 < ps_end s1" "seg_size s1 = d" using d(1) by (simp_all add: s1_def)
      have none: "\<forall>x. in_seg x s1 \<longrightarrow> pm_at pmem x = None" using free by (simp add: in_seg_def s1_def)
      note a = add_segment_spec [OF inv(1) s1(1) none]
      have "\<forall>x. pm_at (add_segment s1 pmem) x = (if x < ps_start s + d then pm_at (seen @ [s]) x else None)
         \<and> pm_at [s2] x = (if x < ps_start s + d then None else pm_at (seen @ [s]) x)"
        using a(2) assms(2,4) low e unfolding seen_s by (auto simp: in_seg_def s1_def s2_def)
      then show ?thesis
        using a(1,3,4) inv(2) size e d s1(2) True cuts
        unfolding out splitting_def by (auto simp: s2_def pm_end_def d_def seg_size_def intro!: exI [of _ "ps_start s + d"])
    qed
  qed
qed

lemma splitting_all:
  "splitting sz seen bnd st \<Longrightarrow> pm_ok bnd xs \<Longrightarrow> \<forall>x \<ge> bnd. pm_at seen x = None
   \<Longrightarrow> \<exists>bnd'. splitting sz (seen @ xs) bnd' (fold (split_step sz) xs st)"
proof (induction xs arbitrary: seen bnd st)
  case (Cons s xs)
  then have s: "bnd \<le> ps_start s" "ps_start s < ps_end s" "pm_ok (ps_end s) xs" by simp_all
  have "\<forall>x \<ge> ps_end s. pm_at (seen @ [s]) x = None"
    using Cons.prems(3) s by (auto simp: pm_at_append in_seg_def)
  from Cons.IH [OF splitting_step [OF Cons.prems(1) s(1,2) Cons.prems(3)] s(3) this] show ?case by simp
qed auto

lemma pm_split_spec:
  assumes "pm_ok 0 xs"
  shows "\<exists>cut. case pm_split sz xs of (pmem, kept) \<Rightarrow> pm_ok 0 pmem \<and> pm_merged pmem \<and> pm_ok 0 kept \<and> pm_size pmem = min sz (pm_size xs)
    \<and> (\<forall>x. pm_at pmem x = (if x < cut then pm_at xs x else None) \<and> pm_at kept x = (if x < cut then None else pm_at xs x))"
proof -
  have "splitting sz [] 0 ([], [])" by (auto simp: splitting_def)
  from splitting_all [OF this assms] obtain bnd where "splitting sz xs bnd (fold (split_step sz) xs ([], []))" by auto
  moreover obtain pmem kept where f: "fold (split_step sz) xs ([], []) = (pmem, kept)" by fastforce
  ultimately show ?thesis unfolding pm_split_def splitting_def f prod.case by blast
qed

lemma split_committed_step:
  assumes "pm_ok bnd xs" "pm_ok 0 pmem" "pm_ok 0 kept" "pm_end 0 kept \<le> bnd" "\<forall>x \<ge> bnd. pm_at pmem x = None" "\<forall>x \<ge> bnd. pm_at kept x = None"
  shows "case fold (\<lambda>s (pmem, kept). if ps_committed s then (add_segment s pmem, kept) else (pmem, kept @ [s])) xs (pmem, kept) of
     (pmem', kept') \<Rightarrow> pm_ok 0 pmem' \<and> pm_ok 0 kept'
       \<and> (\<forall>x. pm_at pmem' x = (if pm_at xs x = Some True then Some True else pm_at pmem x)
            \<and> pm_at kept' x = (if pm_at xs x = Some False then Some False else pm_at kept x))"
  using assms
proof (induction xs arbitrary: bnd pmem kept)
  case (Cons s xs)
  have s: "bnd \<le> ps_start s" "ps_start s < ps_end s" "pm_ok (ps_end s) xs" using Cons.prems(1) by simp_all
  have later: "pm_at xs x = None" if "in_seg x s" for x
    using that pm_end_ge [OF s(3)] by (auto simp: pm_at_None in_seg_def)
  have bnd: "bnd \<le> ps_end s" using s by simp
  show ?case
  proof (cases "ps_committed s")
    case True
    have none: "\<forall>x. in_seg x s \<longrightarrow> pm_at pmem x = None" using Cons.prems(5) s(1) by (simp add: in_seg_def)
    note a = add_segment_spec [OF Cons.prems(2) s(2) none]
    have "\<forall>x \<ge> ps_end s. pm_at (add_segment s pmem) x = None" using a(2) Cons.prems(5) bnd by (simp add: in_seg_def)
    moreover have "\<forall>x \<ge> ps_end s. pm_at kept x = None" "pm_end 0 kept \<le> ps_end s" using Cons.prems(4,6) bnd by simp_all
    ultimately show ?thesis
      using Cons.IH [OF s(3) a(1) Cons.prems(3)] a(2) True later by (fastforce split: prod.splits)
  next
    case False
    have ok: "pm_ok 0 (kept @ [s])" using Cons.prems(3,4) s by (simp add: pm_ok_append)
    have k: "pm_at (kept @ [s]) x = (if in_seg x s then Some False else pm_at kept x)" for x
      using Cons.prems(6) s(1) False by (auto simp: pm_at_append in_seg_def split: option.split)
    have "\<forall>x \<ge> ps_end s. pm_at (kept @ [s]) x = None" using k Cons.prems(6) bnd by (simp add: in_seg_def)
    moreover have "\<forall>x \<ge> ps_end s. pm_at pmem x = None" using Cons.prems(5) bnd by simp
    ultimately show ?thesis
      using Cons.IH [OF s(3) Cons.prems(2) ok] k False later by (fastforce split: prod.splits)
  qed
qed auto

subsection \<open>Committing and uncommitting\<close>

text \<open>The two are the same up to the flag.\<close>

definition change_segment :: "bool \<Rightarrow> nat \<Rightarrow> nat \<Rightarrow> phys_segment list \<Rightarrow> bool \<times> phys_segment list" where
  "change_segment v index sz xs = (if v then commit_segment index sz xs else uncommit_segment index sz xs)"

definition change_loop :: "bool \<Rightarrow> (nat \<Rightarrow> nat \<Rightarrow> nat) \<Rightarrow> nat \<Rightarrow> phys_segment list \<Rightarrow> bool \<times> phys_segment list" where
  "change_loop v backing i xs = (if v then commit_loop backing i xs else uncommit_loop backing i xs)"

lemma change_loop_rec:
  "change_loop v backing i xs =
     (if i < length xs
      then if ps_committed (xs ! i) = v then change_loop v backing (i + 1) xs
           else case change_segment v i (backing (ps_start (xs ! i)) (seg_size (xs ! i))) xs of
                  (False, ys) \<Rightarrow> (False, ys)
                | (True, ys) \<Rightarrow> change_loop v backing (i + 1) ys
      else (True, xs))"
  by (cases v) (simp_all add: change_loop_def change_segment_def commit_loop.simps [of backing i xs] uncommit_loop.simps [of backing i xs]
      split: bool.split prod.split)

lemma change_segment_at:
  "change_segment v (length pre) sz (pre @ s # post) =
     (if sz = seg_size s then (True, pre @ s\<lparr>ps_committed := v\<rparr> # post)
      else if sz > 0 then (False, pre @ seg_new (ps_start s) sz v # seg_new (ps_start s + sz) (seg_size s - sz) (\<not> v) # post)
      else (False, pre @ s # post))"
  by (cases v) (simp_all add: change_segment_def commit_segment_def uncommit_segment_def insert_segment_def replace_segment_def Let_def nth_append
      list_update_append)

text \<open>The offsets that a pass reaches: those of the segments to change for which the operating system reports success,
up to the first segment of which it changed a part only.\<close>

definition whole_change :: "bool \<Rightarrow> (nat \<Rightarrow> nat \<Rightarrow> nat) \<Rightarrow> phys_segment \<Rightarrow> bool" where
  "whole_change v backing s \<longleftrightarrow> ps_committed s = v \<or> backing (ps_start s) (seg_size s) = seg_size s"

definition reached :: "bool \<Rightarrow> (nat \<Rightarrow> nat \<Rightarrow> nat) \<Rightarrow> phys_segment list \<Rightarrow> nat \<Rightarrow> bool" where
  "reached v backing xs x \<longleftrightarrow> (\<exists>pre s post. xs = pre @ s # post \<and> ps_committed s \<noteq> v
     \<and> ps_start s \<le> x \<and> x < ps_start s + backing (ps_start s) (seg_size s) \<and> (\<forall>t \<in> set pre. whole_change v backing t))"

lemma reached_Nil: "\<not> reached v backing [] x"
  by (simp add: reached_def)

lemma reached_Cons:
  "reached v backing (s # xs) x \<longleftrightarrow>
     ps_committed s \<noteq> v \<and> ps_start s \<le> x \<and> x < ps_start s + backing (ps_start s) (seg_size s)
     \<or> whole_change v backing s \<and> reached v backing xs x"
  (is "_ \<longleftrightarrow> ?here \<or> ?later")
proof
  assume "reached v backing (s # xs) x"
  then obtain pre t post where t: "s # xs = pre @ t # post" "ps_committed t \<noteq> v" "ps_start t \<le> x"
    "x < ps_start t + backing (ps_start t) (seg_size t)" "\<forall>u \<in> set pre. whole_change v backing u"
    by (auto simp: reached_def)
  then show "?here \<or> ?later" by (cases pre) (auto simp: reached_def)
next
  assume "?here \<or> ?later"
  then show "reached v backing (s # xs) x"
  proof
    assume ?here
    then show ?thesis unfolding reached_def by (intro exI [of _ "[]"]) simp
  next
    assume later: ?later
    then obtain pre t post where "xs = pre @ t # post" "ps_committed t \<noteq> v" "ps_start t \<le> x"
      "x < ps_start t + backing (ps_start t) (seg_size t)" "\<forall>u \<in> set pre. whole_change v backing u"
      by (auto simp: reached_def)
    with later show ?thesis unfolding reached_def by (intro exI [of _ "s # pre"]) simp
  qed
qed

lemma change_loop_spec:
  assumes "\<forall>a n. backing a n \<le> n"
  shows "pm_ok 0 (pre @ xs) \<Longrightarrow> \<forall>s \<in> set pre. ps_committed s = v \<Longrightarrow> change_loop v backing (length pre) (pre @ xs) = (r, ys) \<Longrightarrow>
    pm_ok 0 ys \<and> dom (pm_at ys) = dom (pm_at (pre @ xs)) \<and> (\<forall>x. pm_at (pre @ xs) x = Some v \<longrightarrow> pm_at ys x = Some v)
    \<and> (r \<longleftrightarrow> (\<forall>x. pm_at ys x \<noteq> Some (\<not> v)))
    \<and> (\<forall>x. pm_at ys x = (if reached v backing xs x then Some v else pm_at (pre @ xs) x))
    \<and> (r \<longleftrightarrow> (\<forall>s \<in> set xs. whole_change v backing s))"
proof (induction xs arbitrary: pre)
  case Nil
  then have "r" "ys = pre" by (simp_all add: change_loop_rec [of v backing])
  moreover have "pm_at pre x \<noteq> Some (\<not> v)" for x using Nil.prems(2) by (auto dest!: pm_at_Some_in)
  ultimately show ?case using Nil.prems(1) by (simp add: reached_Nil)
next
  case (Cons s xs)
  have s: "ps_start s < ps_end s" "pm_end 0 pre \<le> ps_start s" using Cons.prems(1) by (simp_all add: pm_ok_append)
  note rec = Cons.prems(3) [unfolded change_loop_rec [of v backing "length pre"]]
  show ?case
  proof (cases "ps_committed s = v")
    case True
    then have "change_loop v backing (length (pre @ [s])) ((pre @ [s]) @ xs) = (r, ys)" using rec by simp
    moreover have "pm_ok 0 ((pre @ [s]) @ xs)" "\<forall>t \<in> set (pre @ [s]). ps_committed t = v" using Cons.prems(1,2) True by simp_all
    ultimately have ih: "pm_ok 0 ys \<and> dom (pm_at ys) = dom (pm_at (pre @ s # xs)) \<and> (\<forall>x. pm_at (pre @ s # xs) x = Some v \<longrightarrow> pm_at ys x = Some v)
      \<and> (r \<longleftrightarrow> (\<forall>x. pm_at ys x \<noteq> Some (\<not> v))) \<and> (\<forall>x. pm_at ys x = (if reached v backing xs x then Some v else pm_at (pre @ s # xs) x))
      \<and> (r \<longleftrightarrow> (\<forall>s \<in> set xs. whole_change v backing s))"
      using Cons.IH [of "pre @ [s]"] unfolding append_assoc append.simps by blast
    have r1: "reached v backing (s # xs) x = reached v backing xs x" for x using True by (simp add: reached_Cons whole_change_def)
    have r2: "(\<forall>t \<in> set (s # xs). whole_change v backing t) = (\<forall>t \<in> set xs. whole_change v backing t)"
      using True by (simp add: whole_change_def)
    show ?thesis unfolding r1 r2 by (rule ih)
  next
    case False
    define n where "n = backing (ps_start s) (seg_size s)"
    have n: "n \<le> seg_size s" using assms by (simp add: n_def)
    have pre_v: "pm_at pre x \<noteq> Some (\<not> v)" for x using Cons.prems(2) by (auto dest!: pm_at_Some_in)
    have pre_none: "pm_at pre x = None" if "in_seg x s" for x
      using that s(2) pm_end_ge [of 0 pre] Cons.prems(1) by (fastforce simp: pm_at_None in_seg_def pm_ok_append)
    consider "n = seg_size s" | "0 < n" "n < seg_size s" | "n = 0" "seg_size s \<noteq> 0" using n by fastforce
    then show ?thesis
    proof cases
      case 1
      let ?s = "s\<lparr>ps_committed := v\<rparr>"
      have seg: "in_seg x ?s = in_seg x s" for x by (simp add: in_seg_def)
      have "change_loop v backing (length (pre @ [?s])) ((pre @ [?s]) @ xs) = (r, ys)"
        using rec False 1 by (simp add: change_segment_at n_def)
      moreover have ok: "pm_ok 0 ((pre @ [?s]) @ xs)" using Cons.prems(1) by (simp add: pm_ok_append)
      moreover have "\<forall>t \<in> set (pre @ [?s]). ps_committed t = v" using Cons.prems(2) by simp
      ultimately have ih: "pm_ok 0 ys" "dom (pm_at ys) = dom (pm_at ((pre @ [?s]) @ xs))"
        "\<forall>x. pm_at ((pre @ [?s]) @ xs) x = Some v \<longrightarrow> pm_at ys x = Some v" "r \<longleftrightarrow> (\<forall>x. pm_at ys x \<noteq> Some (\<not> v))"
        "\<forall>x. pm_at ys x = (if reached v backing xs x then Some v else pm_at ((pre @ [?s]) @ xs) x)"
        "r \<longleftrightarrow> (\<forall>s \<in> set xs. whole_change v backing s)"
        using Cons.IH [of "pre @ [?s]"] by blast+
      have dm: "dom (pm_at ((pre @ [?s]) @ xs)) = dom (pm_at (pre @ s # xs))"
        by (rule set_eqI) (simp add: dom_def pm_at_append seg split: option.split)
      have here: "ps_start s \<le> x \<and> x < ps_start s + backing (ps_start s) (seg_size s) \<longleftrightarrow> in_seg x s" for x
        using 1 s(1) unfolding n_def [symmetric] by (auto simp: seg_size_def in_seg_def)
      have "pm_at ((pre @ [?s]) @ xs) x = (if in_seg x s then Some v else pm_at (pre @ s # xs) x)" for x
        using pre_none [of x] seg [of x] by (simp add: pm_at_append split: option.split)
      moreover have w: "whole_change v backing s" using 1 by (simp add: whole_change_def n_def)
      moreover have "reached v backing (s # xs) x \<longleftrightarrow> in_seg x s \<or> reached v backing xs x" for x
        using here [of x] w False by (simp add: reached_Cons)
      ultimately have at: "pm_at ys x = (if reached v backing (s # xs) x then Some v else pm_at (pre @ s # xs) x)" for x
        using ih(5) by simp
      moreover have "\<forall>x. pm_at (pre @ s # xs) x = Some v \<longrightarrow> pm_at ys x = Some v" using at by simp
      moreover have "r \<longleftrightarrow> (\<forall>t \<in> set (s # xs). whole_change v backing t)" using ih(6) w by simp
      ultimately show ?thesis using ih(1,4) ih(2) [unfolded dm] by (intro conjI allI) blast+
    next
      case 2
      let ?a = "seg_new (ps_start s) n v" and ?b = "seg_new (ps_start s + n) (seg_size s - n) (\<not> v)"
      have out: "r = False" "ys = pre @ ?a # ?b # xs"
        using rec False 2 by (simp_all add: change_segment_at n_def [symmetric])
      have e: "ps_start s + n < ps_end s" "ps_start s + n + (seg_size s - n) = ps_end s" using 2 s(1) by (simp_all add: seg_size_def)
      have seg: "in_seg x s \<longleftrightarrow> in_seg x ?a \<or> in_seg x ?b" for x using e 2 by (auto simp: in_seg_def)
      have "pm_ok 0 ys" using Cons.prems(1) 2 e by (simp add: out(2) pm_ok_append)
      moreover have "dom (pm_at ys) = dom (pm_at (pre @ s # xs))"
        by (rule set_eqI) (simp add: out(2) dom_def pm_at_append seg split: option.split)
      moreover have "pm_at ys x = Some v" if "pm_at (pre @ s # xs) x = Some v" for x
        using that False seg [of x] by (simp add: out(2) pm_at_append split: option.splits if_splits)
      moreover have "pm_at ys (ps_start s + n) = Some (\<not> v)"
        using pre_none [of "ps_start s + n"] seg [of "ps_start s + n"] e by (simp add: out(2) pm_at_append in_seg_def)
      moreover have "reached v backing (s # xs) x \<longleftrightarrow> in_seg x ?a" for x
        using 2 False unfolding reached_Cons whole_change_def n_def [symmetric] by (auto simp: in_seg_def)
      then have "pm_at ys x = (if reached v backing (s # xs) x then Some v else pm_at (pre @ s # xs) x)" for x
        using pre_none [of x] seg [of x] False by (simp add: out(2) pm_at_append split: option.split)
      moreover have "\<not> whole_change v backing s" using 2 False by (simp add: whole_change_def n_def)
      then have "\<not> (\<forall>t \<in> set (s # xs). whole_change v backing t)" by simp
      ultimately show ?thesis using out(1) by blast
    next
      case 3
      then have out: "r = False" "ys = pre @ s # xs" using rec False by (simp_all add: change_segment_at n_def [symmetric])
      have "pm_at ys (ps_start s) = Some (\<not> v)" using pre_none [of "ps_start s"] s(1) False by (simp add: out(2) pm_at_append in_seg_def)
      moreover have "\<not> whole_change v backing s" using 3 False by (simp add: whole_change_def n_def [symmetric])
      moreover have "\<not> reached v backing (s # xs) x" for x
        using 3 calculation(2) by (simp add: reached_Cons n_def [symmetric])
      ultimately show ?thesis using out Cons.prems(1) by auto
    qed
  qed
qed

subsection \<open>Allocating and freeing\<close>

lemma at_most_spec:
  assumes "zmm_inv m" "0 < sz"
  shows "case alloc_low_address_at_most m sz of
     ((None, n), m') \<Rightarrow> free_set m = {}
   | ((Some a, n), m') \<Rightarrow> 0 < n \<and> n \<le> sz \<and> zmm_inv m' \<and> {a..<a + n} \<subseteq> free_set m \<and> free_set m' = free_set m - {a..<a + n}"
proof (cases "freelist m")
  case Nil
  then show ?thesis by (simp add: alloc_low_address_at_most_def free_set_def)
next
  case (Cons area rest)
  have ok: "areas_ok 0 ([] @ area # rest)" using assms(1) Cons by (simp add: zmm_inv_def)
  then have ne: "zm_start area < zm_end area" by simp
  have sub: "area_set area \<subseteq> free_set m" by (auto simp: free_set_def Cons)
  show ?thesis
  proof (cases "zm_size area \<le> sz")
    case True
    have out: "alloc_low_address_at_most m sz = ((Some (zm_start area), zm_size area), zmm_destroy (m\<lparr>freelist := rest\<rparr>) area)"
      using True by (simp add: alloc_low_address_at_most_def Cons)
    have "freelist m = [] @ area # rest" "freelist (zmm_destroy (m\<lparr>freelist := rest\<rparr>) area) = [] @ rest"
      by (simp_all add: Cons zmm_destroy_def)
    note t = take_all [OF ok this]
    have "{zm_start area..<zm_start area + zm_size area} = area_set area" using ne by (auto simp: area_set_def zm_size_def)
    then show ?thesis using True ne sub t by (simp add: out zm_size_def)
  next
    case False
    obtain area' m' where sh: "zmm_shrink_from_front m area sz = (area', m')" by fastforce
    have a': "zm_start area' = zm_start area + sz" "zm_end area' = zm_end area" "freelist m' = freelist m"
      using sh by (auto simp: zmm_shrink_from_front_def zm_shrink_from_front_def)
    have out: "alloc_low_address_at_most m sz = ((Some (zm_start area), sz), m'\<lparr>freelist := area' # rest\<rparr>)"
      using False by (simp add: alloc_low_address_at_most_def Cons sh)
    have "freelist m = [] @ area # rest" "freelist (m'\<lparr>freelist := area' # rest\<rparr>) = [] @ area' # rest" "sz < zm_size area"
      using False by (simp_all add: Cons)
    note t = take_front [OF ok this(1,2) a'(1,2) this(3) assms(2)]
    have "{zm_start area..<zm_start area + sz} \<subseteq> area_set area" using False by (auto simp: area_set_def zm_size_def)
    then show ?thesis using t sub assms(2) by (simp add: out)
  qed
qed

lemma phys_alloc_spec:
  assumes "zmm_inv m" "pm_ok 0 pmem" "dom (pm_at pmem) \<inter> free_set m = {}" "finite (free_set m)" "sz \<le> card (free_set m)"
  shows "\<exists>m' pmem'. phys_alloc m pmem sz = Some (m', pmem') \<and> zmm_inv m' \<and> pm_ok 0 pmem' \<and> pm_size pmem' = pm_size pmem + sz
    \<and> (pm_merged pmem \<longrightarrow> pm_merged pmem') \<and> free_set m' \<subseteq> free_set m
    \<and> (\<forall>x. pm_at pmem' x = (if x \<in> free_set m - free_set m' then Some False else pm_at pmem x))"
  using assms
proof (induction sz arbitrary: m pmem rule: less_induct)
  case (less sz)
  show ?case
  proof (cases "sz = 0")
    case True
    then show ?thesis using less.prems by (subst phys_alloc.simps) auto
  next
    case False
    obtain r n m1 where al: "alloc_low_address_at_most m sz = ((r, n), m1)" by (metis surj_pair)
    have "free_set m \<noteq> {}" using False less.prems(4,5) by auto
    then obtain a where r: "r = Some a" "0 < n" "n \<le> sz" "zmm_inv m1" "{a..<a + n} \<subseteq> free_set m" "free_set m1 = free_set m - {a..<a + n}"
      using at_most_spec [OF less.prems(1), of sz] False unfolding al by (cases r) auto
    define s where "s = seg_new a n False"
    have s: "ps_start s < ps_end s" "seg_size s = n" "ps_committed s = False" "in_seg x s \<longleftrightarrow> x \<in> {a..<a + n}" for x
      using r(2) by (simp_all add: s_def in_seg_def)
    have none: "\<forall>x. in_seg x s \<longrightarrow> pm_at pmem x = None"
    proof (intro allI impI)
      fix x assume "in_seg x s"
      then have "x \<in> free_set m" using r(5) s(4) by blast
      then have "x \<notin> dom (pm_at pmem)" using less.prems(3) by blast
      then show "pm_at pmem x = None" by (simp add: domIff)
    qed
    note ad = add_segment_spec [OF less.prems(2) s(1) none]
    have "dom (pm_at (add_segment s pmem)) \<inter> free_set m1 = {}"
      using ad(2) s(4) less.prems(3) r(6) by (auto simp: dom_def split: if_splits)
    moreover have "finite (free_set m1)" using less.prems(4) r(6) by simp
    moreover have "card (free_set m1) = card (free_set m) - n" using r(5,6) less.prems(4) by (simp add: card_Diff_subset)
    then have "sz - n \<le> card (free_set m1)" using less.prems(5) by simp
    moreover have "sz - n < sz" using r(2) False by simp
    ultimately obtain m' pmem' where ih: "phys_alloc m1 (add_segment s pmem) (sz - n) = Some (m', pmem')" "zmm_inv m'" "pm_ok 0 pmem'"
      "pm_size pmem' = pm_size (add_segment s pmem) + (sz - n)" "pm_merged (add_segment s pmem) \<longrightarrow> pm_merged pmem'" "free_set m' \<subseteq> free_set m1"
      "\<forall>x. pm_at pmem' x = (if x \<in> free_set m1 - free_set m' then Some False else pm_at (add_segment s pmem) x)"
      using less.IH [OF _ r(4) ad(1)] by blast
    have "phys_alloc m pmem sz = Some (m', pmem')" using False ih(1) by (subst phys_alloc.simps) (simp add: al r(1) s_def)
    moreover have "pm_at pmem' x = (if x \<in> free_set m - free_set m' then Some False else pm_at pmem x)" for x
      using ih(6,7) ad(2) s(3,4) r(5,6) by auto
    ultimately show ?thesis using ih ad(3,4) r(3,6) s(2) by auto
  qed
qed

lemma phys_free_spec:
  assumes "zmm_inv m" "pm_ok lo pmem" "dom (pm_at pmem) \<inter> free_set m = {}"
  shows "zmm_inv (phys_free pmem m) \<and> free_set (phys_free pmem m) = free_set m \<union> dom (pm_at pmem)"
  using assms
proof (induction pmem arbitrary: m lo)
  case (Cons s pmem)
  have s: "ps_start s < ps_end s" "pm_ok (ps_end s) pmem" using Cons.prems(2) by simp_all
  have range: "{ps_start s..<ps_start s + seg_size s} = {x. in_seg x s}" using s(1) by (auto simp: in_seg_def seg_size_def)
  have dom: "dom (pm_at (s # pmem)) = {x. in_seg x s} \<union> dom (pm_at pmem)" by (auto split: if_splits)
  have "{ps_start s..<ps_start s + seg_size s} \<inter> free_set m = {}" "0 < seg_size s" using Cons.prems(3) s(1) unfolding range dom by (auto simp: seg_size_def)
  then have f: "zmm_inv (zmm_free m (ps_start s) (seg_size s))"
    "free_set (zmm_free m (ps_start s) (seg_size s)) = free_set m \<union> {x. in_seg x s}"
    using free_loop_spec [of m "[]" "freelist m" "ps_start s" "seg_size s"] Cons.prems(1)
    by (simp_all add: zmm_free_def zmm_inv_def range)
  have "dom (pm_at pmem) \<inter> {x. in_seg x s} = {}"
    using pm_end_ge [OF s(2)] by (auto dest!: pm_at_Some_in simp: in_seg_def)
  then have "dom (pm_at pmem) \<inter> free_set (zmm_free m (ps_start s) (seg_size s)) = {}" using Cons.prems(3) f(2) unfolding dom by blast
  from Cons.IH [OF f(1) s(2) this] show ?case using f(2) unfolding dom by (simp add: phys_free_def Un_assoc)
qed (simp add: phys_free_def dom_def)

subsection \<open>Properties\<close>

definition phys_demo :: "phys_segment list" where
  "phys_demo = [seg_new 0 4 True, seg_new 6 2 False, seg_new 8 6 True]"

lemma phys_demo_ok: "pm_ok 0 phys_demo"
  by (simp add: phys_demo_def)

text \<open>C10. Splitting physical memory loses nothing: the memory split off has exactly the requested size, or all there is;
it is the part below some offset and what is kept is the part above it, each offset committed exactly when it was;
both are lists of segments in order, and no two neighbours of the new one could be merged. Splitting off the
committed memory separates exactly the committed offsets from the others.\<close>

theorem physical_split_exact:
  assumes "pm_ok 0 xs"
  shows "(\<exists>cut. case pm_split sz xs of (pmem, kept) \<Rightarrow> pm_ok 0 pmem \<and> pm_merged pmem \<and> pm_ok 0 kept \<and> pm_size pmem = min sz (pm_size xs)
      \<and> (\<forall>x. pm_at pmem x = (if x < cut then pm_at xs x else None) \<and> pm_at kept x = (if x < cut then None else pm_at xs x)))
    \<and> (case pm_split_committed xs of (pmem, kept) \<Rightarrow> pm_ok 0 pmem \<and> pm_ok 0 kept
      \<and> (\<forall>x. pm_at pmem x = (if pm_at xs x = Some True then Some True else None)
           \<and> pm_at kept x = (if pm_at xs x = Some False then Some False else None)))"
proof (intro conjI pm_split_spec [OF assms])
  obtain pmem kept where f: "fold (\<lambda>s (pmem, kept). if ps_committed s then (add_segment s pmem, kept) else (pmem, kept @ [s])) xs ([], [])
      = (pmem, kept)" by fastforce
  show "case pm_split_committed xs of (pmem, kept) \<Rightarrow> pm_ok 0 pmem \<and> pm_ok 0 kept
      \<and> (\<forall>x. pm_at pmem x = (if pm_at xs x = Some True then Some True else None)
           \<and> pm_at kept x = (if pm_at xs x = Some False then Some False else None))"
    using split_committed_step [of 0 xs "[]" "[]"] assms unfolding pm_split_committed_def f by simp
qed

theorem physical_split_exact_witness:
  "pm_size (fst (pm_split 5 phys_demo)) = 5 \<and> pm_ok 0 (snd (pm_split 5 phys_demo))
   \<and> (\<forall>x. pm_at (fst (pm_split_committed phys_demo)) x = (if pm_at phys_demo x = Some True then Some True else None))"
proof -
  have "pm_size phys_demo = 12" by (simp add: phys_demo_def)
  with physical_split_exact [OF phys_demo_ok, of 5] show ?thesis
    by (cases "pm_split 5 phys_demo"; cases "pm_split_committed phys_demo") auto
qed

text \<open>C11. Committing physical memory is exact about partial failure: whatever number of bytes the operating system
manages to commit of each segment, the segments stay in order and hold the same offsets, and those committed
afterwards are exactly the ones committed before and the ones the operating system committed now, which it does
segment by segment up to the first one of which only a part could be committed; so the progress of a call that
fails in the middle of a segment is recorded to the byte. The call reports success exactly when every segment could
be committed as a whole, and then every offset is committed. Uncommitting is the same with the flag reversed.\<close>

theorem physical_commit_exact:
  assumes "\<forall>a n. backing a n \<le> n" "pm_ok 0 pmem"
  shows "(case phys_commit backing pmem of (r, ys) \<Rightarrow> pm_ok 0 ys \<and> dom (pm_at ys) = dom (pm_at pmem)
      \<and> (\<forall>x. pm_at ys x = (if reached True backing pmem x then Some True else pm_at pmem x))
      \<and> (r \<longleftrightarrow> (\<forall>s \<in> set pmem. whole_change True backing s)) \<and> (r \<longleftrightarrow> (\<forall>x. pm_at ys x \<noteq> Some False)))
    \<and> (case phys_uncommit backing pmem of (r, ys) \<Rightarrow> pm_ok 0 ys \<and> dom (pm_at ys) = dom (pm_at pmem)
      \<and> (\<forall>x. pm_at ys x = (if reached False backing pmem x then Some False else pm_at pmem x))
      \<and> (r \<longleftrightarrow> (\<forall>s \<in> set pmem. whole_change False backing s)) \<and> (r \<longleftrightarrow> (\<forall>x. pm_at ys x \<noteq> Some True)))"
proof -
  have c: "phys_commit backing pmem = change_loop True backing 0 pmem" by (simp add: phys_commit_def change_loop_def)
  have u: "phys_uncommit backing pmem = change_loop False backing 0 pmem" by (simp add: phys_uncommit_def change_loop_def)
  obtain r ys r' ys' where e: "change_loop True backing (length ([] :: phys_segment list)) ([] @ pmem) = (r, ys)"
    "change_loop False backing (length ([] :: phys_segment list)) ([] @ pmem) = (r', ys')" by fastforce
  have ok: "pm_ok 0 ([] @ pmem)" "\<forall>s \<in> set []. ps_committed s = v" for v using assms(2) by simp_all
  have z: "change_loop True backing 0 pmem = (r, ys)" "change_loop False backing 0 pmem = (r', ys')" using e by simp_all
  show ?thesis
    using change_loop_spec [OF assms(1) ok e(1), unfolded append_Nil not_True_eq_False]
      change_loop_spec [OF assms(1) ok e(2), unfolded append_Nil not_False_eq_True]
    unfolding c u z prod.case by (elim conjE) (intro conjI; assumption)
qed

theorem physical_commit_exact_witness:
  "\<not> fst (phys_commit (\<lambda>a n. min n 1) phys_demo) \<and> pm_at (snd (phys_commit (\<lambda>a n. min n 1) phys_demo)) 6 = Some True
   \<and> pm_at (snd (phys_commit (\<lambda>a n. min n 1) phys_demo)) 7 = Some False"
proof -
  have "\<forall>a n :: nat. min n 1 \<le> n" by simp
  from physical_commit_exact [OF this phys_demo_ok] show ?thesis
    by (cases "phys_commit (\<lambda>a n. min n 1) phys_demo") (simp add: phys_demo_def reached_Cons reached_Nil whole_change_def in_seg_def)
qed

text \<open>C9. The physical memory manager hands out what was asked for and takes it back: an allocation of no more than
the free bytes returns, adds to the memory exactly as many offsets as requested, all of them free before, none
twice, and not committed, in segments in order, and takes exactly these from the free list; freeing afterwards what
was allocated makes the free list stand for the same offsets as before.\<close>

theorem physical_alloc_free:
  assumes "zmm_inv m" "finite (free_set m)" "sz \<le> card (free_set m)"
  shows "\<exists>m' pmem. phys_alloc m [] sz = Some (m', pmem) \<and> pm_ok 0 pmem \<and> pm_size pmem = sz \<and> pm_merged pmem
    \<and> (\<forall>x. pm_at pmem x = (if x \<in> free_set m - free_set m' then Some False else None))
    \<and> zmm_inv m' \<and> free_set m' \<subseteq> free_set m
    \<and> zmm_inv (phys_free pmem m') \<and> free_set (phys_free pmem m') = free_set m"
proof -
  have "dom (pm_at []) \<inter> free_set m = {}" by (simp add: dom_def)
  from phys_alloc_spec [OF assms(1) _ this assms(2,3)] obtain m' pmem where a:
    "phys_alloc m [] sz = Some (m', pmem)" "zmm_inv m'" "pm_ok 0 pmem" "pm_size pmem = sz" "pm_merged pmem" "free_set m' \<subseteq> free_set m"
    "\<forall>x. pm_at pmem x = (if x \<in> free_set m - free_set m' then Some False else None)" by auto
  have dom: "dom (pm_at pmem) = free_set m - free_set m'" using a(7) by (auto simp: dom_def)
  then have "dom (pm_at pmem) \<inter> free_set m' = {}" by blast
  from phys_free_spec [OF a(2,3) this] have "zmm_inv (phys_free pmem m') \<and> free_set (phys_free pmem m') = free_set m"
    using a(6) dom by auto
  then show ?thesis using a by blast
qed

theorem physical_alloc_free_witness:
  "\<exists>m' pmem. phys_alloc zmm_demo [] 5 = Some (m', pmem) \<and> pm_size pmem = 5 \<and> free_set (phys_free pmem m') = {2 ..< 5} \<union> {8 ..< 16}"
proof -
  have f: "free_set zmm_demo = {2 ..< 5} \<union> {8 ..< 16}" by (simp add: free_set_def zmm_demo_def area_set_def)
  then have "finite (free_set zmm_demo)" "5 \<le> card (free_set zmm_demo)" by (simp_all add: card_Un_disjoint)
  from physical_alloc_free [OF zmm_demo_inv this] show ?thesis unfolding f by blast
qed

end
