(* ===== verification/Spec2Isabelle.thy ===== *)
theory Spec2Isabelle
  imports Z_Bit_Field Z_List Z_Address Buddy_Clients Z_Memory Z_Forwarding Z_Remset_Publish JS_Clients Z_LiveMap_Par Z_Page_Life Z_Remset_Iter Z_Page_Cache Z_NMethod_Table Z_Relocation_Select Z_Physical
begin

text \<open>
  Header to come.
\<close>

end
